(* ===== verification/Prelude.thy ===== *)
theory Prelude
  imports Main "HOL-Library.Word"
begin

text \<open>
  Shared vocabulary of the development.

  The programs run on a bare RV32 core: there is no memory protection and no virtual memory,
  pointers and \<open>size_t\<close> are 32 bits wide (\<open>-mabi=ilp32\<close>), and every address can be read
  and written.  Memory is therefore a total function from 32-bit addresses to bytes; pointer
  arithmetic is word arithmetic and wraps as the machine's does.

  The specification vocabulary on top of it is: \<open>bytes_at m p n\<close> (the \<open>n\<close> bytes from \<open>p\<close>),
  \<open>store_bytes m p xs\<close> (memory with \<open>xs\<close> written from \<open>p\<close>), \<open>region p n\<close> (the set of the
  \<open>n\<close> addresses from \<open>p\<close>) and \<open>cstr m s xs\<close> (a NUL-terminated C string).
\<close>

unbundle bit_operations_syntax

named_theorems mem_simps \<open>reading back from memory after a store\<close>
named_theorems region_simps \<open>membership in address ranges\<close>

type_synonym byte = "8 word"
type_synonym addr = "32 word"
type_synonym uint = "32 word"
type_synonym mem = "addr \<Rightarrow> byte"

text \<open>Character constants, as bytes and as C \<open>int\<close>s.  A null pointer is the address 0.\<close>

abbreviation (input) ch :: "char \<Rightarrow> byte" where
  "ch c \<equiv> of_char c"

abbreviation (input) chi :: "char \<Rightarrow> int" where
  "chi c \<equiv> of_char c"

abbreviation (input) NULL :: addr where
  "NULL \<equiv> 0"

section \<open>Words\<close>

lemma offset_inj:
  fixes p :: addr
  assumes "i < 2 ^ 32" and "j < 2 ^ 32"
  shows "p + of_nat i = p + of_nat j \<longleftrightarrow> i = j"
proof
  assume "p + of_nat i = p + of_nat j"
  then have "unat (of_nat i :: addr) = unat (of_nat j :: addr)" by simp
  with assms show "i = j" by (simp add: unat_of_nat)
qed simp

lemma offset_eq_self:
  fixes p :: addr
  assumes "0 < i" and "i < 2 ^ 32"
  shows "p + of_nat i \<noteq> p"
  using offset_inj [of i 0 p] assms by simp

lemma of_nat_unat_word [simp]: "of_nat (unat w) = (w :: 'a::len word)"
  by simp

lemma uint_eq_simp [simp]: "uint v = uint w \<longleftrightarrow> v = w" for v w :: "'a::len word"
  by (simp add: word_uint_eq_iff)

declare uint_0_iff [simp]

lemma unat32_less: "unat w < 2 ^ 32" for w :: "32 word"
  using unsigned_less [of w, where 'a = nat] by simp

lemma sint_ucast_up: "sint (ucast w :: 64 word) = uint w" for w :: "32 word"
proof -
  have "uint w < 2 ^ 32" "0 \<le> uint w" using uint_lt2p [of w] by simp_all
  then have "signed_take_bit 63 (uint w) = uint w" by (intro signed_take_bit_int_eq_self) (simp_all add: order_trans [of _ 0])
  moreover have "take_bit 64 (uint w) = uint w"
    using \<open>uint w < 2 ^ 32\<close> by (intro take_bit_int_eq_self) simp_all
  ultimately show ?thesis by (simp add: sint_uint unsigned_ucast_eq)
qed

lemma unat_pred: "w \<noteq> 0 \<Longrightarrow> unat (w - 1) = unat w - 1" for w :: "'a::len word"
  by (rule unat_minus_one)

lemma unat_pred_less: "w \<noteq> 0 \<Longrightarrow> unat (w - 1) < unat w" for w :: "'a::len word"
  by (simp add: unat_minus_one unat_gt_0)

lemma unat_Suc_pred: "w \<noteq> 0 \<Longrightarrow> unat w = Suc (unat (w - 1))" for w :: "'a::len word"
  by (simp add: unat_minus_one unat_gt_0)

lemma unat_succ_less: "a < b \<Longrightarrow> unat (a + 1) = Suc (unat a)" for a b :: "32 word"
  using unat32_less [of b] by (simp add: word_less_nat_alt unat_word_ariths)

lemma offset_assoc [simp]: "p + (1 + of_nat i) = p + 1 + of_nat i" for p :: "'a::len word"
  by (simp add: add.assoc)

lemma offset_Suc: "p + of_nat (Suc i) = (p + 1) + of_nat i" for p :: "'a::len word"
  by simp

text \<open>Rounding down to a multiple of 16, the cache line size and the allocator's granule.\<close>

lemma and_line_mask: "x AND 0xFFFFFFF0 = push_bit 4 (drop_bit 4 x)" for x :: "32 word"
proof -
  have "(0xFFFFFFF0 :: 32 word) = NOT (mask 4)" by (simp add: mask_eq_exp_minus_1)
  then have "x AND 0xFFFFFFF0 = x AND NOT (mask 4)" by (simp only:)
  also have "\<dots> = push_bit 4 (drop_bit 4 x)"
    by (rule bit_word_eqI) (auto simp: bit_simps)
  finally show ?thesis .
qed

lemma unat_and_line_mask: "unat (x AND 0xFFFFFFF0) = 16 * (unat x div 16)" for x :: "32 word"
proof -
  have "16 * (unat x div 16) < 2 ^ 32" using unat32_less [of x] by linarith
  moreover have "push_bit 4 (drop_bit 4 x) = x div 16 * 16"
    by (simp add: push_bit_eq_mult drop_bit_eq_div)
  ultimately show ?thesis
    by (simp add: and_line_mask unat_word_ariths unat_div_distrib mult.commute)
qed

text \<open>The two bytes of a 16-bit word.\<close>

lemma unat_bytes:
  "unat (ucast (drop_bit 8 w) :: byte) = unat w div 256" "unat (ucast w :: byte) = unat w mod 256" for w :: "16 word"
proof -
  have "unat w < 65536" using unsigned_less [of w, where 'a = nat] by simp
  then have "unat w div 256 < 256" by simp
  then show "unat (ucast (drop_bit 8 w) :: byte) = unat w div 256" "unat (ucast w :: byte) = unat w mod 256"
    by (simp_all add: unsigned_ucast_eq unsigned_drop_bit_eq drop_bit_eq_div take_bit_eq_mod unat_div_distrib)
qed

text \<open>The value of an \<open>int\<close> after arithmetic that may wrap.\<close>

definition i32 :: "int \<Rightarrow> int" where
  "i32 x = sint (word_of_int x :: 32 word)"

lemma i32_id: "- (2 ^ 31) \<le> x \<Longrightarrow> x < 2 ^ 31 \<Longrightarrow> i32 x = x"
  by (simp add: i32_def sint_uint uint_word_of_int_eq signed_take_bit_take_bit signed_take_bit_int_eq_self)

section \<open>Byte ranges\<close>

definition region :: "addr \<Rightarrow> nat \<Rightarrow> addr set" where
  "region p n = (\<lambda>i. p + of_nat i) ` {..<n}"

primrec bytes_at :: "mem \<Rightarrow> addr \<Rightarrow> nat \<Rightarrow> byte list" where
  "bytes_at m p 0 = []"
| "bytes_at m p (Suc n) = m p # bytes_at m (p + 1) n"

primrec store_bytes :: "mem \<Rightarrow> addr \<Rightarrow> byte list \<Rightarrow> mem" where
  "store_bytes m p [] = m"
| "store_bytes m p (x # xs) = store_bytes (m(p := x)) (p + 1) xs"

lemma region_0 [region_simps]: "region p 0 = {}"
  by (simp add: region_def)

lemma region_Suc [region_simps]: "region p (Suc n) = insert p (region (p + 1) n)"
proof -
  have "{..<Suc n} = insert 0 (Suc ` {..<n})"
    by (auto simp: lessThan_Suc_eq_insert_0)
  then show ?thesis
    by (auto simp: region_def image_image algebra_simps)
qed

lemma in_regionI: "i < n \<Longrightarrow> p + of_nat i \<in> region p n"
  by (auto simp: region_def)

lemma region_mono: "k \<le> n \<Longrightarrow> region p k \<subseteq> region p n"
  by (auto simp: region_def)

lemma region_shift: "k + j \<le> n \<Longrightarrow> region (p + of_nat k) j \<subseteq> region p n"
proof
  fix a assume le: "k + j \<le> n" and "a \<in> region (p + of_nat k) j"
  then obtain i where i: "i < j" "a = p + of_nat (k + i)"
    by (auto simp: region_def algebra_simps)
  moreover have "k + i < n" using i(1) le by simp
  ultimately show "a \<in> region p n" using in_regionI [of "k + i" n p] by simp
qed

lemma region_eq_uint: "n \<le> 2 ^ 32 \<Longrightarrow> a \<in> region p n \<longleftrightarrow> unat (a - p) < n"
proof
  assume "n \<le> 2 ^ 32" and "a \<in> region p n"
  then show "unat (a - p) < n"
    by (auto simp: region_def unat_of_nat)
next
  assume "unat (a - p) < n"
  moreover have "a = p + of_nat (unat (a - p))" by simp
  ultimately show "a \<in> region p n" unfolding region_def by blast
qed

lemma region_disjoint [region_simps]:
  assumes "unat p + n \<le> unat q" and "unat q + k \<le> 2 ^ 32"
  shows "region p n \<inter> region q k = {}" and "region q k \<inter> region p n = {}"
proof -
  have "unat (p + of_nat i) < unat q" if "i < n" for i
    using that assms unat32_less [of q] by (simp add: unat_word_ariths unat_of_nat)
  moreover have "unat q \<le> unat (q + of_nat j)" if "j < k" for j
    using that assms by (simp add: unat_word_ariths unat_of_nat)
  ultimately show "region p n \<inter> region q k = {}"
    by (auto simp: region_def) (metis linorder_not_le)
  then show "region q k \<inter> region p n = {}" by blast
qed

lemma length_bytes_at [simp]: "length (bytes_at m p n) = n"
  by (induction n arbitrary: p) auto

lemma bytes_at_numeral: "bytes_at m p (numeral k) = m p # bytes_at m (p + 1) (pred_numeral k)"
  by (simp add: numeral_eq_Suc)

lemma nth_bytes_at: "i < n \<Longrightarrow> bytes_at m p n ! i = m (p + of_nat i)"
proof (induction n arbitrary: p i)
  case (Suc n)
  then show ?case by (cases i) auto
qed simp

lemma bytes_at_append: "bytes_at m p (j + k) = bytes_at m p j @ bytes_at m (p + of_nat j) k"
  by (induction j arbitrary: p) auto

lemma bytes_at_cong:
  "(\<And>a. a \<in> region p n \<Longrightarrow> m a = m' a) \<Longrightarrow> bytes_at m p n = bytes_at m' p n"
  by (induction n arbitrary: p) (auto simp: region_simps)

lemma bytes_at_upd_other [mem_simps]:
  "a \<notin> region p n \<Longrightarrow> bytes_at (m(a := x)) p n = bytes_at m p n"
  by (rule bytes_at_cong) auto

lemma take_bytes_at: "k \<le> n \<Longrightarrow> take k (bytes_at m p n) = bytes_at m p k"
  using bytes_at_append [of m p k "n - k"] by simp

lemma drop_bytes_at: "k \<le> n \<Longrightarrow> drop k (bytes_at m p n) = bytes_at m (p + of_nat k) (n - k)"
  using bytes_at_append [of m p k "n - k"] by simp

lemma store_bytes_other [mem_simps]:
  "a \<notin> region p (length xs) \<Longrightarrow> store_bytes m p xs a = m a"
  by (induction xs arbitrary: m p) (auto simp: region_simps)

lemma store_bytes_append:
  "store_bytes m p (xs @ ys) = store_bytes (store_bytes m p xs) (p + of_nat (length xs)) ys"
  by (induction xs arbitrary: m p) auto

lemma head_notin_tail_region: "n < 2 ^ 32 \<Longrightarrow> p \<notin> region (p + 1) n"
proof
  assume n: "n < 2 ^ 32" and "p \<in> region (p + 1) n"
  then obtain i where "i < n" and "p = p + of_nat (Suc i)"
    by (auto simp: region_def algebra_simps)
  with n show False using offset_eq_self [of "Suc i" p] by simp
qed

lemma store_bytes_nth [mem_simps]:
  assumes "i < length xs" and "length xs \<le> 2 ^ 32"
  shows "store_bytes m p xs (p + of_nat i) = xs ! i"
  using assms
proof (induction xs arbitrary: m p i)
  case (Cons x xs)
  show ?case
  proof (cases i)
    case 0
    have "p \<notin> region (p + 1) (length xs)"
      using Cons.prems(2) by (intro head_notin_tail_region) simp
    with 0 show ?thesis by (simp add: store_bytes_other)
  next
    case (Suc j)
    then have "store_bytes (m(p := x)) (p + 1) xs (p + 1 + of_nat j) = xs ! j"
      using Cons by simp
    with Suc show ?thesis by (simp add: offset_Suc)
  qed
qed simp

lemma bytes_at_store [mem_simps]:
  assumes "length xs \<le> 2 ^ 32"
  shows "bytes_at (store_bytes m p xs) p (length xs) = xs"
  by (rule nth_equalityI) (use assms in \<open>auto simp: nth_bytes_at store_bytes_nth\<close>)

lemma store_bytes_cong: "m a = m' a \<Longrightarrow> store_bytes m p xs a = store_bytes m' p xs a"
proof (induction xs arbitrary: m m' p)
  case (Cons x xs)
  have "store_bytes (m(p := x)) (p + 1) xs a = store_bytes (m'(p := x)) (p + 1) xs a"
    using Cons.prems by (intro Cons.IH) simp
  then show ?case by simp
qed simp

lemma bytes_at_store_other [mem_simps]:
  assumes "region q n \<inter> region p (length xs) = {}"
  shows "bytes_at (store_bytes m p xs) q n = bytes_at m q n"
  using assms by (intro bytes_at_cong store_bytes_other) blast

lemma store_bytes_upd_commute:
  "a \<notin> region p (length xs) \<Longrightarrow> store_bytes (m(a := x)) p xs = (store_bytes m p xs)(a := x)"
proof (induction xs arbitrary: m p)
  case (Cons y ys)
  then have "p \<noteq> a" and a: "a \<notin> region (p + 1) (length ys)"
    by (auto simp: region_simps)
  from \<open>p \<noteq> a\<close> have "(m(a := x))(p := y) = (m(p := y))(a := x)"
    by (rule fun_upd_twist [symmetric])
  then show ?case by (simp only: store_bytes.simps Cons.IH [OF a])
qed (simp only: store_bytes.simps)

section \<open>C strings\<close>

primrec cstr :: "mem \<Rightarrow> addr \<Rightarrow> byte list \<Rightarrow> bool" where
  "cstr m s [] = (m s = 0)"
| "cstr m s (x # xs) = (m s = x \<and> x \<noteq> 0 \<and> cstr m (s + 1) xs)"

lemma cstr_nth: "cstr m s xs \<Longrightarrow> i < length xs \<Longrightarrow> m (s + of_nat i) = xs ! i \<and> xs ! i \<noteq> 0"
proof (induction xs arbitrary: s i)
  case (Cons x xs)
  then show ?case by (cases i) auto
qed simp

lemma cstr_end: "cstr m s xs \<Longrightarrow> m (s + of_nat (length xs)) = 0"
  by (induction xs arbitrary: s) auto

lemma cstr_bytes: "cstr m s xs \<Longrightarrow> bytes_at m s (length xs) = xs"
  by (induction xs arbitrary: s) auto

lemma cstr_no_nul: "cstr m s xs \<Longrightarrow> 0 \<notin> set xs"
  by (induction xs arbitrary: s) auto

lemma cstr_length:
  assumes "cstr m s xs"
  shows "length xs < 2 ^ 32"
proof (rule ccontr)
  assume "\<not> length xs < 2 ^ 32"
  define i where "i = length xs mod 2 ^ 32"
  have "i < length xs"
    using \<open>\<not> length xs < 2 ^ 32\<close> by (simp add: i_def mod_less_divisor order_less_le_trans)
  have "(of_nat i :: addr) = of_nat (length xs)"
    by (rule word_unat_eq_iff [THEN iffD2]) (simp add: unat_of_nat i_def)
  then show False
    using cstr_nth [OF assms \<open>i < length xs\<close>] cstr_end [OF assms] by simp
qed

lemma cstr_iff:
  "cstr m s xs \<longleftrightarrow> bytes_at m s (length xs) = xs \<and> 0 \<notin> set xs \<and> m (s + of_nat (length xs)) = 0"
  by (induction xs arbitrary: s) auto

lemma cstr_unique: "cstr m s xs \<Longrightarrow> cstr m s ys \<Longrightarrow> xs = ys"
proof (induction xs arbitrary: s ys)
  case Nil
  then show ?case by (cases ys) auto
next
  case (Cons x xs)
  then show ?case by (cases ys) auto
qed

lemma cstr_cong:
  assumes "\<And>a. a \<in> region s (Suc (length xs)) \<Longrightarrow> m a = m' a"
  shows "cstr m s xs = cstr m' s xs"
  using assms
proof (induction xs arbitrary: s)
  case (Cons x xs)
  have "m s = m' s" using Cons.prems [of s] by (simp add: region_Suc)
  moreover have "cstr m (s + 1) xs = cstr m' (s + 1) xs"
    using Cons.prems by (intro Cons.IH) (simp add: region_Suc)
  ultimately show ?case by simp
qed (simp add: region_simps)

lemma cstr_upd_other [mem_simps]:
  "a \<notin> region s (Suc (length xs)) \<Longrightarrow> cstr (m(a := v)) s xs = cstr m s xs"
  by (rule cstr_cong) auto

lemma region_step:
  assumes "region q (Suc j) \<inter> region p (Suc k) = {}"
  shows "q \<noteq> p" "q \<notin> region (p + 1) k" "p \<notin> region (q + 1) j" "region (q + 1) j \<inter> region (p + 1) k = {}"
  using assms by (auto simp: region_Suc)

lemma cstr_append:
  "cstr m s (xs @ ys) \<longleftrightarrow>
     bytes_at m s (length xs) = xs \<and> 0 \<notin> set xs \<and> cstr m (s + of_nat (length xs)) ys"
  by (induction xs arbitrary: s) auto

lemma cstr_store [mem_simps]:
  assumes "0 \<notin> set xs" and "length xs < 2 ^ 32"
  shows "cstr (store_bytes m s (xs @ [0])) s xs"
proof -
  let ?m = "store_bytes m s (xs @ [0])"
  have "bytes_at ?m s (length xs) @ [?m (s + of_nat (length xs))] = xs @ [0]"
    using bytes_at_store [of "xs @ [0]" m s] assms(2) bytes_at_append [of ?m s "length xs" 1] by simp
  then show ?thesis using assms(1) by (simp add: cstr_iff)
qed

lemma offset_notin_region: "i < 2 ^ 32 \<Longrightarrow> s + of_nat i \<notin> region s i" for s :: addr
  by (simp add: region_eq_uint unat_of_nat)

lemma cstr_drop: "cstr m s xs \<Longrightarrow> k \<le> length xs \<Longrightarrow> cstr m (s + of_nat k) (drop k xs)"
proof (induction k arbitrary: s xs)
  case (Suc k)
  then show ?case by (cases xs) auto
qed simp

text \<open>Cutting a string in two with a NUL.\<close>

lemma cstr_cut:
  assumes "cstr m s xs" and "i < length xs"
  shows "cstr (m(s + of_nat i := 0)) s (take i xs)"
    and "cstr (m(s + of_nat i := 0)) (s + of_nat (Suc i)) (drop (Suc i) xs)"
proof -
  let ?e = "s + of_nat i"
  have i: "i < 2 ^ 32" using assms cstr_length [OF assms(1)] by simp
  have "bytes_at (m(?e := 0)) s i = bytes_at m s i"
    using offset_notin_region [OF i] by (simp add: bytes_at_upd_other)
  moreover have "bytes_at m s i = take i xs"
    using take_bytes_at [of i "length xs" m s] assms cstr_bytes [OF assms(1)] by simp
  ultimately show "cstr (m(?e := 0)) s (take i xs)"
    using assms(2) cstr_no_nul [OF assms(1)] by (auto simp: cstr_iff min_def dest: in_set_takeD)
  have "cstr m (s + of_nat (Suc i)) (drop (Suc i) xs)"
    using assms cstr_drop [of m s xs "Suc i"] by (metis Suc_leI)
  moreover have "?e \<notin> region (?e + 1) (Suc (length (drop (Suc i) xs)))"
    using assms cstr_length [OF assms(1)] by (intro head_notin_tail_region) simp
  ultimately show "cstr (m(?e := 0)) (s + of_nat (Suc i)) (drop (Suc i) xs)"
    by (simp only: cstr_upd_other of_nat_Suc add.assoc add.commute [of 1] not_False_eq_True)
qed

section \<open>Little-endian words in memory\<close>

definition le_bytes :: "32 word \<Rightarrow> byte list" where
  "le_bytes w = [ucast w, ucast (drop_bit 8 w), ucast (drop_bit 16 w), ucast (drop_bit 24 w)]"

definition load32 :: "mem \<Rightarrow> addr \<Rightarrow> 32 word" where
  "load32 m p = ucast (m p) OR push_bit 8 (ucast (m (p + 1)))
     OR push_bit 16 (ucast (m (p + 2))) OR push_bit 24 (ucast (m (p + 3)))"

definition store32 :: "mem \<Rightarrow> addr \<Rightarrow> 32 word \<Rightarrow> mem" where
  "store32 m p w = store_bytes m p (le_bytes w)"

lemma length_le_bytes [simp]: "length (le_bytes w) = 4"
  by (simp add: le_bytes_def)

lemma le_word_split:
  "(ucast (ucast w :: byte) :: 32 word) OR push_bit 8 (ucast (ucast (drop_bit 8 w) :: byte))
     OR push_bit 16 (ucast (ucast (drop_bit 16 w) :: byte))
     OR push_bit 24 (ucast (ucast (drop_bit 24 w) :: byte)) = w"
  (is "?l = w")
proof (rule bit_word_eqI)
  fix n assume "n < LENGTH(32)"
  then consider "n < 8" | "8 \<le> n" "n < 16" | "16 \<le> n" "n < 24" | "24 \<le> n" "n < 32"
    by fastforce
  then show "bit ?l n \<longleftrightarrow> bit w n"
    by cases (simp_all add: bit_simps less_diff_conv2)
qed

lemma byte_high_bits: "\<not> bit a (8 + n)" "\<not> bit a (16 + n)" "\<not> bit a (24 + n)" for a :: byte
  using bit_imp_le_length [of a "8 + n"] bit_imp_le_length [of a "16 + n"]
    bit_imp_le_length [of a "24 + n"] by auto

lemma le_bytes_join:
  "le_bytes (ucast a OR push_bit 8 (ucast b) OR push_bit 16 (ucast c) OR push_bit 24 (ucast d))
   = [a, b, c, d]" for a b c d :: byte
  by (auto simp: le_bytes_def bit_simps byte_high_bits intro!: bit_word_eqI)

lemma le_bytes_load32: "le_bytes (load32 m p) = bytes_at m p 4"
proof -
  have "bytes_at m p 4 = [m p, m (p + 1), m (p + 2), m (p + 3)]"
    by (simp add: numeral_eq_Suc add.assoc)
  then show ?thesis by (simp only: load32_def le_bytes_join)
qed

lemma load32_store32 [mem_simps]: "load32 (store32 m p w) p = w"
proof -
  have "store32 m p w (p + of_nat i) = le_bytes w ! i" if "i < 4" for i
    unfolding store32_def using that by (intro store_bytes_nth) auto
  from this [of 0] this [of 1] this [of 2] this [of 3] show ?thesis
    by (simp add: load32_def le_bytes_def le_word_split numeral_3_eq_3)
qed

lemma le_bytes_inj: "le_bytes v = le_bytes w \<longleftrightarrow> v = w"
  by (metis load32_store32 store32_def)

lemma load32_bytes: "load32 m p = load32 m' p" if "bytes_at m p 4 = bytes_at m' p 4"
  using that by (simp add: load32_def numeral_eq_Suc algebra_simps)

lemma store32_other [mem_simps]: "a \<notin> region p 4 \<Longrightarrow> store32 m p w a = m a"
  by (simp add: store32_def store_bytes_other)

section \<open>Checksums\<close>

definition xor_bytes :: "byte list \<Rightarrow> byte" where
  "xor_bytes xs = foldr (XOR) xs 0"

lemma xor_bytes_simps [simp]:
  "xor_bytes [] = 0"
  "xor_bytes (x # xs) = x XOR xor_bytes xs"
  by (simp_all add: xor_bytes_def)

lemma xor_bytes_append: "xor_bytes (xs @ ys) = xor_bytes xs XOR xor_bytes ys"
  by (induction xs) (auto simp: xor.assoc)

lemma xor_bytes_update:
  "i < length xs \<Longrightarrow> xor_bytes (xs[i := y]) = xor_bytes xs XOR xs ! i XOR y"
proof (induction xs arbitrary: i)
  case (Cons x xs)
  show ?case
  proof (cases i)
    case 0
    then show ?thesis by (simp add: xor.commute xor.left_commute) 
  next
    case (Suc j)
    then show ?thesis using Cons by (simp add: xor.assoc)
  qed
qed simp

lemma word_xor_cancel: "a XOR x XOR y = a \<longleftrightarrow> x = y" for a x y :: "'a::len word"
proof
  assume "a XOR x XOR y = a"
  then have "(a XOR a) XOR (x XOR y) = a XOR a" by (simp only: xor.assoc)
  then have "(x XOR y) XOR y = y" by simp
  then show "x = y" by (simp add: xor.assoc)
qed (simp add: xor.assoc)

end
