(* ===== verification/Mem_Ops.thy ===== *)
theory Mem_Ops
  imports Prelude
begin

text \<open>
  The memory functions of the C library (\<open>sw/sys-libs/libc/mem*.c\<close>, \<open>bzero.c\<close>).  A function that
  writes memory returns the new memory and its C return value; a function that only reads returns its
  value.  The loops count a \<open>size_t\<close> down, so they are total.
\<close>

section \<open>Definitions\<close>

subsection \<open>Copying and filling\<close>

function memcpy_loop :: "mem \<Rightarrow> addr \<Rightarrow> addr \<Rightarrow> uint \<Rightarrow> mem" where
  "memcpy_loop m q p n =
     (if n = 0 then m else memcpy_loop (m(q := m p)) (q + 1) (p + 1) (n - 1))"
  by pat_completeness auto
termination
  by (relation "measure (\<lambda>(m, q, p, n). unat n)") (auto simp: unat_pred_less)

definition memcpy :: "mem \<Rightarrow> addr \<Rightarrow> addr \<Rightarrow> uint \<Rightarrow> mem \<times> addr" where
  "memcpy m dst src n = (memcpy_loop m dst src n, dst)"

function memmove_back :: "mem \<Rightarrow> addr \<Rightarrow> addr \<Rightarrow> uint \<Rightarrow> mem" where
  "memmove_back m q p n =
     (if n = 0 then m else memmove_back (m(q - 1 := m (p - 1))) (q - 1) (p - 1) (n - 1))"
  by pat_completeness auto
termination
  by (relation "measure (\<lambda>(m, q, p, n). unat n)") (auto simp: unat_pred_less)

definition memmove :: "mem \<Rightarrow> addr \<Rightarrow> addr \<Rightarrow> uint \<Rightarrow> mem \<times> addr" where
  "memmove m dst src n =
     (if dst < src then memcpy_loop m dst src n
      else memmove_back m (dst + n) (src + n) n, dst)"

function memset_loop :: "mem \<Rightarrow> addr \<Rightarrow> byte \<Rightarrow> uint \<Rightarrow> mem" where
  "memset_loop m q c n = (if n = 0 then m else memset_loop (m(q := c)) (q + 1) c (n - 1))"
  by pat_completeness auto
termination
  by (relation "measure (\<lambda>(m, q, c, n). unat n)") (auto simp: unat_pred_less)

definition memset :: "mem \<Rightarrow> addr \<Rightarrow> uint \<Rightarrow> uint \<Rightarrow> mem \<times> addr" where
  "memset m dst c n = (memset_loop m dst (ucast c) n, dst)"

definition bzero :: "mem \<Rightarrow> addr \<Rightarrow> uint \<Rightarrow> mem" where
  "bzero m dst n = fst (memset m dst 0 n)"

function memccpy_loop :: "mem \<Rightarrow> addr \<Rightarrow> addr \<Rightarrow> byte \<Rightarrow> uint \<Rightarrow> mem \<times> addr" where
  "memccpy_loop m q p c n =
     (if n = 0 then (m, NULL)
      else let ch = m p; m' = m(q := ch)
           in if ch = c then (m', q + 1) else memccpy_loop m' (q + 1) (p + 1) c (n - 1))"
  by pat_completeness auto
termination
  by (relation "measure (\<lambda>(m, q, p, c, n). unat n)") (auto simp: unat_pred_less)

definition memccpy :: "mem \<Rightarrow> addr \<Rightarrow> addr \<Rightarrow> uint \<Rightarrow> uint \<Rightarrow> mem \<times> addr" where
  "memccpy m dst src c n = memccpy_loop m dst src (ucast c) n"

function memswap :: "mem \<Rightarrow> addr \<Rightarrow> addr \<Rightarrow> uint \<Rightarrow> mem" where
  "memswap m p q n =
     (if n = 0 then m
      else let tmp = m p; m1 = m(p := m q); m2 = m1(q := tmp)
           in memswap m2 (p + 1) (q + 1) (n - 1))"
  by pat_completeness auto
termination
  by (relation "measure (\<lambda>(m, p, q, n). unat n)") (auto simp: unat_pred_less)

subsection \<open>Comparing and searching\<close>

function memcmp :: "mem \<Rightarrow> addr \<Rightarrow> addr \<Rightarrow> uint \<Rightarrow> int" where
  "memcmp m c1 c2 n =
     (if n = 0 then 0
      else let d = uint (m c1) - uint (m c2)
           in if d \<noteq> 0 then d else memcmp m (c1 + 1) (c2 + 1) (n - 1))"
  by pat_completeness auto
termination
  by (relation "measure (\<lambda>(m, c1, c2, n). unat n)") (auto simp: unat_pred_less)

function memchr_loop :: "mem \<Rightarrow> addr \<Rightarrow> byte \<Rightarrow> uint \<Rightarrow> addr" where
  "memchr_loop m sp c n =
     (if n = 0 then NULL else if m sp = c then sp else memchr_loop m (sp + 1) c (n - 1))"
  by pat_completeness auto
termination
  by (relation "measure (\<lambda>(m, sp, c, n). unat n)") (auto simp: unat_pred_less)

definition memchr :: "mem \<Rightarrow> addr \<Rightarrow> uint \<Rightarrow> uint \<Rightarrow> addr" where
  "memchr m s c n = memchr_loop m s (ucast c) n"

function memrchr_loop :: "mem \<Rightarrow> addr \<Rightarrow> byte \<Rightarrow> uint \<Rightarrow> addr" where
  "memrchr_loop m sp c n =
     (if n = 0 then NULL else if m sp = c then sp else memrchr_loop m (sp - 1) c (n - 1))"
  by pat_completeness auto
termination
  by (relation "measure (\<lambda>(m, sp, c, n). unat n)") (auto simp: unat_pred_less)

definition memrchr :: "mem \<Rightarrow> addr \<Rightarrow> uint \<Rightarrow> uint \<Rightarrow> addr" where
  "memrchr m s c n = memrchr_loop m (s + n - 1) (ucast c) n"

text \<open>
  \<open>memmem\<close> is the "Not So Naive" search.  The main loop returns \<open>None\<close> when it does not end;
  \<open>memmem_finds_first\<close> below shows that it always ends.
\<close>

partial_function (option) memmem_loop ::
  "mem \<Rightarrow> addr \<Rightarrow> uint \<Rightarrow> addr \<Rightarrow> uint \<Rightarrow> uint \<Rightarrow> uint \<Rightarrow> uint \<Rightarrow> addr option" where
  "memmem_loop m y n x mm k l j =
     (if j \<le> n - mm then
        if m (x + 1) \<noteq> m (y + (j + 1)) then memmem_loop m y n x mm k l (j + k)
        else if memcmp m (x + 2) (y + j + 2) (mm - 2) = 0 \<and> m x = m (y + j) then Some (y + j)
        else memmem_loop m y n x mm k l (j + l)
      else Some NULL)"

function memmem_one :: "mem \<Rightarrow> addr \<Rightarrow> addr \<Rightarrow> uint \<Rightarrow> addr" where
  "memmem_one m y x n =
     (if m y = m x then y
      else if n - 1 = 0 then NULL
      else if n = 0 then NULL \<comment> \<open>not reached: the caller checks \<open>n\<close>\<close>
      else memmem_one m (y + 1) x (n - 1))"
  by pat_completeness auto
termination
  by (relation "measure (\<lambda>(m, y, x, n). unat n)") (auto simp: unat_pred_less)

definition memmem :: "mem \<Rightarrow> addr \<Rightarrow> uint \<Rightarrow> addr \<Rightarrow> uint \<Rightarrow> addr option" where
  "memmem m y n x mm =
     (if mm > n \<or> mm = 0 \<or> n = 0 then Some NULL
      else if 1 \<noteq> mm then
        if m x = m (x + 1) then memmem_loop m y n x mm 2 1 0
        else memmem_loop m y n x mm 1 2 0
      else Some (memmem_one m y x n))"

declare memcpy_loop.simps [simp del] memmove_back.simps [simp del] memset_loop.simps [simp del]
  memccpy_loop.simps [simp del] memswap.simps [simp del] memcmp.simps [simp del]
  memchr_loop.simps [simp del] memrchr_loop.simps [simp del] memmem_one.simps [simp del]

section \<open>Copying\<close>

lemma notin_region_ahead:
  assumes "Suc k \<le> unat (q - p)"
  shows "q \<notin> region (p + 1) k"
proof -
  have "q - p \<noteq> 0" using assms by auto
  then have "unat (q - (p + 1)) = unat (q - p) - 1"
    using unat_pred [of "q - p"] by (simp add: diff_diff_eq)
  moreover have "k \<le> 2 ^ 32" using assms unsigned_less [of "q - p", where 'a = nat] by simp
  ultimately show ?thesis using assms by (simp add: region_eq_uint)
qed

text \<open>A forward copy is exact when no byte is overwritten before it is read.\<close>

lemma memcpy_loop_forward:
  "q = p \<or> unat n \<le> unat (q - p) \<Longrightarrow> memcpy_loop m q p n = store_bytes m q (bytes_at m p (unat n))"
proof (induction m q p n rule: memcpy_loop.induct)
  case (1 m q p n)
  show ?case
  proof (cases "n = 0")
    case False
    let ?k = "unat (n - 1)" and ?m = "m(q := m p)"
    have n: "unat n = Suc ?k" using False by (rule unat_Suc_pred)
    have same: "bytes_at ?m (p + 1) ?k = bytes_at m (p + 1) ?k"
    proof (cases "q = p")
      case False
      with "1.prems" n have "q \<notin> region (p + 1) ?k" by (intro notin_region_ahead) simp
      then show ?thesis by (simp add: bytes_at_upd_other)
    qed simp
    have "memcpy_loop m q p n = memcpy_loop ?m (q + 1) (p + 1) (n - 1)"
      using False by (subst memcpy_loop.simps) simp
    also have "\<dots> = store_bytes ?m (q + 1) (bytes_at ?m (p + 1) ?k)"
      using "1.prems" n by (intro "1.IH" [OF False]) auto
    finally show ?thesis using n same by simp
  qed (simp add: memcpy_loop.simps)
qed

lemma memmove_back_exact:
  "q = p \<or> unat n \<le> unat (p - q) \<Longrightarrow>
   memmove_back m q p n = store_bytes m (q - n) (bytes_at m (p - n) (unat n))"
proof (induction m q p n rule: memmove_back.induct)
  case (1 m q p n)
  show ?case
  proof (cases "n = 0")
    case False
    let ?k = "unat (n - 1)" and ?m = "m(q - 1 := m (p - 1))"
    have n: "unat n = Suc ?k" using False by (rule unat_Suc_pred)
    have kw: "of_nat ?k = n - 1" by simp
    have last: "bytes_at m (p - n) (unat n) = bytes_at m (p - n) ?k @ [m (p - 1)]"
      using bytes_at_append [of m "p - n" ?k 1] n by (simp add: diff_add_eq)
    have same: "bytes_at ?m (p - n) ?k = bytes_at m (p - n) ?k"
    proof (cases "q = p")
      case ne: False
      have "q - 1 \<notin> region (p - n) ?k"
      proof
        assume "q - 1 \<in> region (p - n) ?k"
        then obtain i where i: "i < ?k" "q - 1 = p - n + of_nat i" by (auto simp: region_def)
        then have "p - q = n - 1 - of_nat i" by (simp add: algebra_simps)
        also have "\<dots> = of_nat (?k - i)" using i(1) kw by (simp add: of_nat_diff)
        finally have "unat (p - q) \<le> ?k"
          by (simp add: unat_of_nat le_trans [OF mod_less_eq_dividend])
        with "1.prems" ne n show False by simp
      qed
      then show ?thesis by (simp add: bytes_at_upd_other)
    qed simp
    have end_notin: "q - 1 \<notin> region (q - n) ?k"
    proof
      assume "q - 1 \<in> region (q - n) ?k"
      then obtain i where i: "i < ?k" "q - 1 = q - n + of_nat i" by (auto simp: region_def)
      then have "n - 1 = of_nat i" by (simp add: algebra_simps)
      then have "?k = i" using i(1) kw
        by (metis le_unat_uoi order_less_imp_le)
      with i(1) show False by simp
    qed
    have "memmove_back m q p n = memmove_back ?m (q - 1) (p - 1) (n - 1)"
      using False by (subst memmove_back.simps) simp
    also have "\<dots> = store_bytes ?m (q - 1 - (n - 1)) (bytes_at ?m (p - 1 - (n - 1)) ?k)"
      using "1.prems" n by (intro "1.IH" [OF False]) auto
    also have "\<dots> = store_bytes ?m (q - n) (bytes_at m (p - n) ?k)"
      using same by simp
    also have "\<dots> = (store_bytes m (q - n) (bytes_at m (p - n) ?k))(q - 1 := m (p - 1))"
      using end_notin by (intro store_bytes_upd_commute) simp
    finally show ?thesis
      by (simp add: last store_bytes_append diff_add_eq)
  qed (simp add: memmove_back.simps)
qed

lemma memcpy_disjoint:
  assumes "region dst (unat n) \<inter> region src (unat n) = {}"
  shows "memcpy m dst src n = (store_bytes m dst (bytes_at m src (unat n)), dst)"
proof -
  have "unat n \<le> unat (dst - src)"
  proof (cases "n = 0")
    case False
    then have "dst \<in> region dst (unat n)" using in_regionI [of 0 "unat n" dst] by (simp add: unat_gt_0)
    with assms have "dst \<notin> region src (unat n)" by blast
    then show ?thesis using unsigned_less [of n, where 'a = nat] by (simp add: region_eq_uint)
  qed simp
  then show ?thesis by (simp add: memcpy_def memcpy_loop_forward)
qed

lemma memset_loop_store: "memset_loop m q c n = store_bytes m q (replicate (unat n) c)"
proof (induction m q c n rule: memset_loop.induct)
  case (1 m q c n)
  show ?case
  proof (cases "n = 0")
    case False
    then have "memset_loop m q c n = memset_loop (m(q := c)) (q + 1) c (n - 1)"
      by (subst memset_loop.simps) simp
    also have "\<dots> = store_bytes (m(q := c)) (q + 1) (replicate (unat (n - 1)) c)"
      using False by (rule "1.IH")
    finally show ?thesis by (simp add: unat_Suc_pred [OF False])
  qed (simp add: memset_loop.simps)
qed


lemma memmove_exact:
  assumes "unat src + unat n \<le> 2 ^ 32" and "unat dst + unat n \<le> 2 ^ 32"
  shows "memmove m dst src n = (store_bytes m dst (bytes_at m src (unat n)), dst)"
proof (cases "dst < src")
  case True
  then have "unat n \<le> unat (dst - src)"
    using assms by (simp add: unat_sub_if' word_less_nat_alt)
  with True show ?thesis by (simp add: memmove_def memcpy_loop_forward)
next
  case False
  have "dst = src \<or> unat n \<le> unat (src - dst)"
  proof (cases "dst = src")
    case ne: False
    then have "unat src < unat dst"
      using False by (metis le_neq_implies_less not_le word_less_nat_alt word_unat_eq_iff)
    then have "unat n \<le> unat (src - dst)" using assms by (simp add: unat_sub_if')
    then show ?thesis ..
  qed simp
  then have "memmove_back m (dst + n) (src + n) n = store_bytes m dst (bytes_at m src (unat n))"
    using memmove_back_exact [of "dst + n" "src + n" n m] by simp
  with False show ?thesis by (simp add: memmove_def)
qed

text \<open>Swapping two disjoint areas exchanges their contents and touches nothing else.\<close>

lemma memswap_exact:
  assumes "region p (unat n) \<inter> region q (unat n) = {}"
  shows "memswap m p q n =
    store_bytes (store_bytes m p (bytes_at m q (unat n))) q (bytes_at m p (unat n))"
  using assms
proof (induction m p q n rule: memswap.induct)
  case (1 m p q n)
  show ?case
  proof (cases "n = 0")
    case False
    let ?k = "unat (n - 1)" and ?m = "m(p := m q, q := m p)"
    have n: "unat n = Suc ?k" using False by (rule unat_Suc_pred)
    have k: "?k < 2 ^ 32" by (rule unat32_less)
    have dis: "region (p + 1) ?k \<inter> region (q + 1) ?k = {}" and "p \<noteq> q"
      and pq: "p \<notin> region (q + 1) ?k" "q \<notin> region (p + 1) ?k"
      using "1.prems" by (auto simp: n region_Suc)
    have own: "p \<notin> region (p + 1) ?k" "q \<notin> region (q + 1) ?k"
      using k by (simp_all add: head_notin_tail_region)
    have "memswap m p q n = memswap ?m (p + 1) (q + 1) (n - 1)"
      using False by (subst memswap.simps) (simp add: Let_def)
    also have "\<dots> = store_bytes (store_bytes ?m (p + 1) (bytes_at ?m (q + 1) ?k)) (q + 1)
                     (bytes_at ?m (p + 1) ?k)"
      using False refl refl refl dis by (rule "1.IH")
    also have "\<dots> = store_bytes (store_bytes ?m (p + 1) (bytes_at m (q + 1) ?k)) (q + 1)
                     (bytes_at m (p + 1) ?k)"
      using pq own by (simp add: bytes_at_upd_other)
    also have "store_bytes ?m (p + 1) (bytes_at m (q + 1) ?k)
             = (store_bytes (m(p := m q)) (p + 1) (bytes_at m (q + 1) ?k))(q := m p)"
      using pq by (intro store_bytes_upd_commute) simp
    finally show ?thesis by (simp only: n bytes_at.simps store_bytes.simps)
  qed (simp add: memswap.simps)
qed

lemma memswap_bytes:
  assumes "region p (unat n) \<inter> region q (unat n) = {}"
  shows "bytes_at (memswap m p q n) p (unat n) = bytes_at m q (unat n)"
    and "bytes_at (memswap m p q n) q (unat n) = bytes_at m p (unat n)"
    and "a \<notin> region p (unat n) \<union> region q (unat n) \<Longrightarrow> memswap m p q n a = m a"
  using assms unat32_less [of n] bytes_at_store [of "bytes_at m q (unat n)" m p]
  by (simp_all add: memswap_exact bytes_at_store_other store_bytes_other
      bytes_at_store [of "bytes_at m p (unat n)", simplified])

section \<open>Comparing\<close>

text \<open>The reference comparison of two byte lists of the same length.\<close>

fun cmp_bytes :: "byte list \<Rightarrow> byte list \<Rightarrow> int" where
  "cmp_bytes (x # xs) (y # ys) = (if x \<noteq> y then uint x - uint y else cmp_bytes xs ys)"
| "cmp_bytes _ _ = 0"

lemma memcmp_bytes: "memcmp m c1 c2 n = cmp_bytes (bytes_at m c1 (unat n)) (bytes_at m c2 (unat n))"
proof (induction m c1 c2 n rule: memcmp.induct)
  case (1 m c1 c2 n)
  show ?case
  proof (cases "n = 0")
    case False
    then show ?thesis using "1.IH" [OF False refl]
      by (subst memcmp.simps) (auto simp: unat_Suc_pred [OF False] Let_def)
  qed (simp add: memcmp.simps)
qed

lemma cmp_bytes_eq_0: "length xs = length ys \<Longrightarrow> cmp_bytes xs ys = 0 \<longleftrightarrow> xs = ys"
  by (induction xs ys rule: list_induct2) auto

lemma cmp_bytes_neg: "cmp_bytes ys xs = - cmp_bytes xs ys"
  by (induction xs ys rule: cmp_bytes.induct) (auto split: list.splits)

text \<open>The sign is that of the first difference.\<close>

lemma cmp_bytes_less_iff:
  assumes "length xs = length ys"
  shows "cmp_bytes xs ys < 0 \<longleftrightarrow> (\<exists>i < length xs. take i xs = take i ys \<and> xs ! i < ys ! i)"
  using assms
proof (induction xs ys rule: list_induct2)
  case (Cons x xs y ys)
  have "(\<exists>i < Suc (length xs). take i (x # xs) = take i (y # ys) \<and> (x # xs) ! i < (y # ys) ! i)
      \<longleftrightarrow> x < y \<or> x = y \<and> (\<exists>i < length xs. take i xs = take i ys \<and> xs ! i < ys ! i)"
    by (auto simp: less_Suc_eq_0_disj)
  then show ?case using Cons.IH by (auto simp: word_less_def)
qed simp

section \<open>Searching\<close>

lemma memchr_loop_found:
  assumes "i < unat n" and "m (sp + of_nat i) = c" and "\<And>j. j < i \<Longrightarrow> m (sp + of_nat j) \<noteq> c"
  shows "memchr_loop m sp c n = sp + of_nat i"
  using assms
proof (induction m sp c n arbitrary: i rule: memchr_loop.induct)
  case (1 m sp c n)
  then have n: "n \<noteq> 0" by auto
  show ?case
  proof (cases i)
    case 0
    with 1 n show ?thesis by (simp add: memchr_loop.simps)
  next
    case (Suc j)
    have "m sp \<noteq> c" using "1.prems"(3) [of 0] Suc by simp
    moreover have "memchr_loop m (sp + 1) c (n - 1) = sp + 1 + of_nat j"
    proof (rule "1.IH" [OF n calculation])
      show "j < unat (n - 1)" using "1.prems"(1) Suc unat_Suc_pred [OF n] by simp
      show "m (sp + 1 + of_nat j) = c" using "1.prems"(2) Suc by simp
      show "m (sp + 1 + of_nat t) \<noteq> c" if "t < j" for t
        using "1.prems"(3) [of "Suc t"] Suc that by simp
    qed
    ultimately show ?thesis using n Suc by (subst memchr_loop.simps) simp
  qed
qed

lemma memchr_loop_missing:
  "(\<And>j. j < unat n \<Longrightarrow> m (sp + of_nat j) \<noteq> c) \<Longrightarrow> memchr_loop m sp c n = NULL"
proof (induction m sp c n rule: memchr_loop.induct)
  case (1 m sp c n)
  show ?case
  proof (cases "n = 0")
    case False
    have "m sp \<noteq> c" using "1.prems" [of 0] False by (simp add: unat_gt_0)
    moreover have "memchr_loop m (sp + 1) c (n - 1) = NULL"
    proof (rule "1.IH" [OF False calculation])
      show "m (sp + 1 + of_nat j) \<noteq> c" if "j < unat (n - 1)" for j
        using "1.prems" [of "Suc j"] that unat_Suc_pred [OF False] by simp
    qed
    ultimately show ?thesis using False by (subst memchr_loop.simps) simp
  qed (simp add: memchr_loop.simps)
qed


lemma memrchr_loop_found:
  assumes "i < unat n" and "m (sp - of_nat i) = c" and "\<And>j. j < i \<Longrightarrow> m (sp - of_nat j) \<noteq> c"
  shows "memrchr_loop m sp c n = sp - of_nat i"
  using assms
proof (induction m sp c n arbitrary: i rule: memrchr_loop.induct)
  case (1 m sp c n)
  then have n: "n \<noteq> 0" by auto
  show ?case
  proof (cases i)
    case 0
    with 1 n show ?thesis by (simp add: memrchr_loop.simps)
  next
    case (Suc j)
    have "m sp \<noteq> c" using "1.prems"(3) [of 0] Suc by simp
    moreover have "memrchr_loop m (sp - 1) c (n - 1) = sp - 1 - of_nat j"
    proof (rule "1.IH" [OF n calculation])
      show "j < unat (n - 1)" using "1.prems"(1) Suc unat_Suc_pred [OF n] by simp
      show "m (sp - 1 - of_nat j) = c" using "1.prems"(2) Suc by (simp add: diff_diff_eq)
      show "m (sp - 1 - of_nat t) \<noteq> c" if "t < j" for t
        using "1.prems"(3) [of "Suc t"] Suc that by (simp add: diff_diff_eq)
    qed
    ultimately show ?thesis using n Suc by (subst memrchr_loop.simps) (simp add: diff_diff_eq)
  qed
qed

text \<open>\<open>occurs m y n x mm i\<close>: the \<open>mm\<close> bytes at \<open>x\<close> occur at offset \<open>i\<close> of the \<open>n\<close> bytes at \<open>y\<close>.\<close>

definition occurs :: "mem \<Rightarrow> addr \<Rightarrow> nat \<Rightarrow> addr \<Rightarrow> nat \<Rightarrow> nat \<Rightarrow> bool" where
  "occurs m y n x mm i \<longleftrightarrow> i + mm \<le> n \<and> bytes_at m (y + of_nat i) mm = bytes_at m x mm"

text \<open>The first occurrence, as a pointer: what a naive left-to-right search returns.\<close>

definition first_occurrence :: "mem \<Rightarrow> addr \<Rightarrow> nat \<Rightarrow> addr \<Rightarrow> nat \<Rightarrow> addr" where
  "first_occurrence m y n x mm =
     (case find (occurs m y n x mm) [0..<Suc n] of Some i \<Rightarrow> y + of_nat i | None \<Rightarrow> NULL)"

lemma first_occurrenceI:
  assumes "occurs m y n x mm i" and "\<And>j. j < i \<Longrightarrow> \<not> occurs m y n x mm j"
  shows "first_occurrence m y n x mm = y + of_nat i"
proof -
  have "i < Suc n" using assms(1) by (simp add: occurs_def)
  then have "find (occurs m y n x mm) [0..<Suc n] = Some i"
    unfolding find_Some_iff using assms
    by (intro exI [of _ i]) (auto simp del: upt_Suc)
  then show ?thesis by (simp add: first_occurrence_def)
qed

lemma first_occurrence_none:
  assumes "\<And>j. \<not> occurs m y n x mm j"
  shows "first_occurrence m y n x mm = NULL"
proof -
  have "find (occurs m y n x mm) [0..<Suc n] = None" using assms by (simp add: find_None_iff)
  then show ?thesis by (simp add: first_occurrence_def)
qed

lemma occurs_2:
  assumes "mm = Suc (Suc r)"
  shows "occurs m y n x mm i \<longleftrightarrow> i + mm \<le> n \<and> m (y + of_nat i) = m x
    \<and> m (y + (of_nat i + 1)) = m (x + 1) \<and> bytes_at m (y + of_nat i + 2) r = bytes_at m (x + 2) r"
  by (auto simp: occurs_def assms algebra_simps)

text \<open>
  The shifts of the "Not So Naive" search: where the second needle byte mismatches, a needle that
  starts with two equal bytes cannot occur one place further; where it matches, a needle that
  starts with two different bytes cannot.
\<close>

lemma skip_on_mismatch:
  assumes "2 \<le> mm" and "m x = m (x + 1)" and "m (x + 1) \<noteq> m (y + (of_nat j + 1))"
  shows "\<not> occurs m y n x mm j" and "\<not> occurs m y n x mm (Suc j)"
proof -
  obtain r where r: "mm = Suc (Suc r)" using assms(1) by (metis le_Suc_ex add_2_eq_Suc)
  show "\<not> occurs m y n x mm j" using assms(3) by (auto simp: occurs_2 [OF r])
  show "\<not> occurs m y n x mm (Suc j)"
    using assms(2,3) by (auto simp: occurs_2 [OF r] algebra_simps)
qed

lemma skip_on_match:
  assumes "2 \<le> mm" and "m x \<noteq> m (x + 1)" and "m (x + 1) = m (y + (of_nat j + 1))"
  shows "\<not> occurs m y n x mm (Suc j)"
proof -
  obtain r where r: "mm = Suc (Suc r)" using assms(1) by (metis le_Suc_ex add_2_eq_Suc)
  show ?thesis using assms(2,3) by (auto simp: occurs_2 [OF r] algebra_simps)
qed


lemma memmem_loop_correct:
  assumes bounds: "2 \<le> mm" "mm \<le> n"
    and kl: "(k, l) = (if m x = m (x + 1) then (2, 1) else (1, 2))"
    and before: "\<And>i. i < unat j \<Longrightarrow> \<not> occurs m y (unat n) x (unat mm) i"
  shows "memmem_loop m y n x mm k l j = Some (first_occurrence m y (unat n) x (unat mm))"
  using before
proof (induction "unat n + 2 - unat j" arbitrary: j rule: less_induct)
  case less
  let ?occ = "occurs m y (unat n) x (unat mm)"
  have mm: "2 \<le> unat mm" "unat mm \<le> unat n" using bounds by (simp_all add: word_le_nat_alt)
  then obtain r where r: "unat mm = Suc (Suc r)" by (metis le_Suc_ex add_2_eq_Suc)
  have D: "unat (n - mm) = unat n - unat mm" using mm by (simp add: unat_sub word_le_nat_alt)
  have jw: "of_nat (unat j) = j" by simp
  note unfold = memmem_loop.simps [of m y n x mm k l j]
  show ?case
  proof (cases "j \<le> n - mm")
    case False
    then have "unat n < unat j + unat mm" using D mm by (simp add: word_le_nat_alt)
    then have "\<not> ?occ i" for i
      using less.prems [of i] by (cases "i < unat j") (auto simp: occurs_def)
    then show ?thesis using False unfold first_occurrence_none [of m y "unat n" x "unat mm"] by simp
  next
    case True
    then have jD: "unat j + unat mm \<le> unat n" using D mm by (simp add: word_le_nat_alt)
    have small: "unat j + 2 < 2 ^ 32" using jD mm unat32_less [of n] by linarith
    have j1: "unat (j + 1) = Suc (unat j)" and j2: "unat (j + 2) = Suc (Suc (unat j))"
      using small by (simp_all add: unat_word_ariths)
    show ?thesis
    proof (cases "m (x + 1) = m (y + (j + 1))")
      case neq: False
      have not_j: "\<not> ?occ (unat j)" using neq by (auto simp: occurs_2 [OF r])
      have "\<not> ?occ i" if "i < unat (j + k)" for i
      proof (cases "m x = m (x + 1)")
        case True
        then have "i < Suc (Suc (unat j))" using that kl j2 by simp
        then show ?thesis
          using less.prems [of i] skip_on_mismatch [of "unat mm" m x y "unat j" "unat n"] True neq mm(1)
          by (auto simp: less_Suc_eq)
      next
        case False
        then have "i < Suc (unat j)" using that kl j1 by simp
        then show ?thesis using less.prems [of i] not_j by (auto simp: less_Suc_eq)
      qed
      moreover have "unat n + 2 - unat (j + k) < unat n + 2 - unat j"
        using kl j1 j2 jD mm by (auto split: if_splits)
      ultimately have "memmem_loop m y n x mm k l (j + k) = Some (first_occurrence m y (unat n) x (unat mm))"
        using less.hyps by blast
      then show ?thesis using unfold True neq by simp
    next
      case eq: True
      have found: "memcmp m (x + 2) (y + j + 2) (mm - 2) = 0 \<and> m x = m (y + j) \<longleftrightarrow> ?occ (unat j)"
      proof -
        have "unat (mm - 2) = r" using mm r by (simp add: unat_sub word_le_nat_alt)
        then show ?thesis
          using eq jD by (auto simp: memcmp_bytes cmp_bytes_eq_0 occurs_2 [OF r])
      qed
      show ?thesis
      proof (cases "?occ (unat j)")
        case here: True
        then have "first_occurrence m y (unat n) x (unat mm) = y + j"
          using first_occurrenceI [of m y "unat n" x "unat mm" "unat j"] less.prems by simp
        then show ?thesis using unfold True eq found here by simp
      next
        case not_here: False
        have "\<not> ?occ i" if "i < unat (j + l)" for i
        proof (cases "m x = m (x + 1)")
          case True
          then have "i < Suc (unat j)" using that kl j1 by simp
          then show ?thesis using less.prems [of i] not_here by (auto simp: less_Suc_eq)
        next
          case False
          then have "i < Suc (Suc (unat j))" using that kl j2 by simp
          then show ?thesis
            using less.prems [of i] not_here skip_on_match [of "unat mm" m x y "unat j" "unat n"]
              False eq mm(1)
            by (auto simp: less_Suc_eq)
        qed
        moreover have "unat n + 2 - unat (j + l) < unat n + 2 - unat j"
          using kl j1 j2 jD mm by (auto split: if_splits)
        ultimately have "memmem_loop m y n x mm k l (j + l) = Some (first_occurrence m y (unat n) x (unat mm))"
          using less.hyps by blast
        then show ?thesis using unfold True eq found not_here by simp
      qed
    qed
  qed
qed


lemma memmem_one_memchr: "n \<noteq> 0 \<Longrightarrow> memmem_one m y x n = memchr_loop m y (m x) n"
proof (induction m y x n rule: memmem_one.induct)
  case (1 m y x n)
  show ?case
  proof (cases "m y = m x \<or> n - 1 = 0")
    case True
    then show ?thesis using 1
      by (subst memmem_one.simps, subst memchr_loop.simps) (auto simp: memchr_loop.simps [of _ _ _ 0])
  next
    case False
    then show ?thesis using 1
      by (subst memmem_one.simps, subst memchr_loop.simps) auto
  qed
qed

lemma memchr_loop_first_occurrence:
  "memchr_loop m y (m x) n = first_occurrence m y (unat n) x 1"
proof (cases "\<exists>i < unat n. m (y + of_nat i) = m x")
  case True
  then obtain i where i: "i < unat n" "m (y + of_nat i) = m x"
    and least: "\<And>j. j < i \<Longrightarrow> \<not> (j < unat n \<and> m (y + of_nat j) = m x)"
    using exists_least_iff [of "\<lambda>i. i < unat n \<and> m (y + of_nat i) = m x"] by blast
  then have "memchr_loop m y (m x) n = y + of_nat i"
    by (intro memchr_loop_found) auto
  moreover have "first_occurrence m y (unat n) x 1 = y + of_nat i"
    using i least by (intro first_occurrenceI) (auto simp: occurs_def)
  ultimately show ?thesis by simp
next
  case False
  then have "memchr_loop m y (m x) n = NULL" by (intro memchr_loop_missing) auto
  moreover have "first_occurrence m y (unat n) x 1 = NULL"
    using False by (intro first_occurrence_none) (auto simp: occurs_def)
  ultimately show ?thesis by simp
qed

lemma memmem_first_occurrence:
  assumes "mm \<noteq> 0"
  shows "memmem m y n x mm = Some (first_occurrence m y (unat n) x (unat mm))"
proof -
  consider (long) "mm > n" | (one) "mm \<le> n" "mm = 1" | (many) "2 \<le> mm" "mm \<le> n"
  proof -
    have "unat mm \<noteq> 0" using assms by (simp add: unat_eq_0)
    then have "mm = 1 \<or> 2 \<le> mm"
      by (cases "unat mm = 1") (auto simp: word_le_nat_alt word_unat_eq_iff [of mm 1])
    then show ?thesis using that not_le_imp_less [of mm n] by blast
  qed
  then show ?thesis
  proof cases
    case long
    then have "first_occurrence m y (unat n) x (unat mm) = NULL"
      by (intro first_occurrence_none) (auto simp: occurs_def word_less_nat_alt)
    with long show ?thesis by (simp add: memmem_def)
  next
    case one
    then have "n \<noteq> 0" by auto
    with one show ?thesis
      by (simp add: memmem_def memmem_one_memchr memchr_loop_first_occurrence)
  next
    case many
    then have "n \<noteq> 0" "mm \<noteq> 1" "\<not> n < mm" by (auto simp: word_le_nat_alt word_less_nat_alt)
    with many assms show ?thesis
      by (auto simp: memmem_def intro!: memmem_loop_correct)
  qed
qed

lemma memccpy_loop_found:
  assumes "i < unat n" and "m (p + of_nat i) = c" and "\<And>j. j < i \<Longrightarrow> m (p + of_nat j) \<noteq> c"
    and "region q (unat n) \<inter> region p (unat n) = {}"
  shows "memccpy_loop m q p c n = (store_bytes m q (bytes_at m p (Suc i)), q + of_nat (Suc i))"
  using assms
proof (induction m q p c n arbitrary: i rule: memccpy_loop.induct)
  case (1 m q p c n)
  then have n: "n \<noteq> 0" by auto
  let ?k = "unat (n - 1)" and ?m = "m(q := m p)"
  note nk = unat_Suc_pred [OF n]
  have dis: "region (q + 1) ?k \<inter> region (p + 1) ?k = {}" and q: "q \<notin> region (p + 1) ?k"
    using "1.prems"(4) by (auto simp: nk region_Suc)
  have same: "bytes_at ?m (p + 1) t = bytes_at m (p + 1) t" if "t \<le> ?k" for t
    using q region_mono [OF that] by (intro bytes_at_upd_other) blast
  have same1: "?m (p + 1 + of_nat t) = m (p + 1 + of_nat t)" if "t < ?k" for t
    using q in_regionI [OF that, of "p + 1"] by auto
  show ?case
  proof (cases i)
    case 0
    with 1 n show ?thesis by (subst memccpy_loop.simps) (simp add: Let_def)
  next
    case (Suc j)
    have ne: "m p \<noteq> c" using "1.prems"(3) [of 0] Suc by simp
    have j: "j < ?k" using "1.prems"(1) Suc nk by simp
    have "memccpy_loop ?m (q + 1) (p + 1) c (n - 1)
        = (store_bytes ?m (q + 1) (bytes_at ?m (p + 1) (Suc j)), q + 1 + of_nat (Suc j))"
    proof (rule "1.IH" [OF n refl refl ne j _ _ dis])
      show "?m (p + 1 + of_nat j) = c" using "1.prems"(2) Suc same1 [OF j] by simp
      show "?m (p + 1 + of_nat t) \<noteq> c" if "t < j" for t
        using "1.prems"(3) [of "Suc t"] Suc that same1 [of t] j by simp
    qed
    also have "bytes_at ?m (p + 1) (Suc j) = bytes_at m (p + 1) (Suc j)" using same [of "Suc j"] j by simp
    finally have "memccpy_loop ?m (q + 1) (p + 1) c (n - 1)
        = (store_bytes ?m (q + 1) (bytes_at m (p + 1) (Suc j)), q + 1 + of_nat (Suc j))" .
    moreover have "memccpy_loop m q p c n = memccpy_loop ?m (q + 1) (p + 1) c (n - 1)"
      using n ne by (subst memccpy_loop.simps) (simp add: Let_def)
    ultimately show ?thesis using Suc by simp
  qed
qed

section \<open>Properties\<close>

text \<open>C7 \<open>memmem\<close> always returns, and for a non-empty needle it returns what a naive left-to-right
  search returns: the first occurrence of the needle, or NULL when there is none.\<close>

theorem memmem_finds_first:
  assumes "mm \<noteq> 0"
  shows "memmem m y n x mm = Some (first_occurrence m y (unat n) x (unat mm))"
  using assms by (rule memmem_first_occurrence)

theorem memmem_finds_first_witness:
  "memmem (store_bytes (\<lambda>_. 0) 0x100 [1, 1, 2, 1, 2, 3, 1, 2, 3]) 0x100 6 0x106 3 = Some 0x103"
proof -
  let ?m = "store_bytes (\<lambda>_. 0) 0x100 [1, 1, 2, 1, 2, 3, 1, 2, 3] :: mem"
  have "memmem ?m 0x100 6 0x106 3 = Some (first_occurrence ?m 0x100 6 0x106 3)"
    using memmem_finds_first [of 3 ?m "0x100" 6 "0x106"] by simp
  also have "first_occurrence ?m 0x100 6 0x106 3 = 0x100 + of_nat 3"
    by (rule first_occurrenceI) (auto simp: occurs_def bytes_at_numeral numeral_3_eq_3 less_Suc_eq)
  also have "0x100 + of_nat 3 = (0x103 :: addr)" by simp
  finally show ?thesis .
qed

text \<open>\<open>memmove\<close> copies exactly, for source and destination areas that overlap in any way: the
  destination holds what the source held before the call and every other byte is unchanged.  Neither
  area may wrap around the top of the address space.\<close>

lemma memmove_overlapping:
  assumes "unat src + unat n \<le> 2 ^ 32" and "unat dst + unat n \<le> 2 ^ 32"
    and "memmove m dst src n = (m', r)"
  shows "r = dst \<and> bytes_at m' dst (unat n) = bytes_at m src (unat n)
    \<and> (\<forall>a. a \<notin> region dst (unat n) \<longrightarrow> m' a = m a)"
proof -
  have m': "m' = store_bytes m dst (bytes_at m src (unat n))" and "r = dst"
    using memmove_exact [OF assms(1,2), of m] assms(3) by simp_all
  moreover have "bytes_at m' dst (unat n) = bytes_at m src (unat n)"
    using bytes_at_store [of "bytes_at m src (unat n)" m dst] unat32_less [of n] m' by simp
  moreover have "m' a = m a" if "a \<notin> region dst (unat n)" for a
    using store_bytes_other [of a dst "bytes_at m src (unat n)" m] that m' by simp
  ultimately show ?thesis by blast
qed

lemma memmove_overlapping_witness:
  "bytes_at (fst (memmove (store_bytes (\<lambda>_. 0) 0x100 [1, 2, 3, 4]) 0x101 0x100 3)) 0x101 3 = [1, 2, 3]"
proof -
  let ?m = "store_bytes (\<lambda>_. 0) 0x100 [1, 2, 3, 4] :: mem"
  obtain m' r where mv: "memmove ?m 0x101 0x100 3 = (m', r)" by (cases "memmove ?m 0x101 0x100 3")
  have "bytes_at m' 0x101 3 = bytes_at ?m 0x100 3"
    using memmove_overlapping [OF _ _ mv] by simp
  then show ?thesis using mv by (simp add: bytes_at_numeral)
qed

text \<open>\<open>memswap\<close> of two disjoint areas exchanges their contents, changes nothing else, and is its
  own inverse.\<close>

lemma memswap_exchanges:
  assumes "region p (unat n) \<inter> region q (unat n) = {}"
  shows "bytes_at (memswap m p q n) p (unat n) = bytes_at m q (unat n)
    \<and> bytes_at (memswap m p q n) q (unat n) = bytes_at m p (unat n)
    \<and> (\<forall>a. a \<notin> region p (unat n) \<union> region q (unat n) \<longrightarrow> memswap m p q n a = m a)
    \<and> memswap (memswap m p q n) p q n = m"
proof -
  note sw = memswap_bytes [OF assms]
  have "memswap (memswap m p q n) p q n a = m a" for a
  proof (cases "a \<in> region p (unat n) \<union> region q (unat n)")
    case True
    then obtain i where i: "i < unat n" "a = p + of_nat i \<or> a = q + of_nat i" by (auto simp: region_def)
    let ?m2 = "memswap (memswap m p q n) p q n"
    have "bytes_at ?m2 p (unat n) = bytes_at m p (unat n)" "bytes_at ?m2 q (unat n) = bytes_at m q (unat n)"
      by (simp_all add: sw)
    then show ?thesis using i nth_bytes_at [OF i(1)] by metis
  qed (simp add: sw(3))
  then show ?thesis using sw by blast
qed

lemma memswap_exchanges_witness:
  "bytes_at (memswap (store_bytes (\<lambda>_. 0) 0x100 [1, 2, 3, 4]) 0x100 0x102 2) 0x100 2 = [3, 4]"
proof -
  have "region 0x100 (unat (2 :: uint)) \<inter> region 0x102 (unat (2 :: uint)) = {}"
    by (rule region_disjoint) simp_all
  from memswap_exchanges [OF this, of "store_bytes (\<lambda>_. 0) 0x100 [1, 2, 3, 4]"]
  show ?thesis by (simp add: bytes_at_numeral)
qed

text \<open>\<open>memcmp\<close> compares as unsigned bytes: it returns 0 exactly when the areas are equal, and a negative
  value exactly when, at the first difference, the first area has the smaller byte.\<close>

lemma memcmp_lexicographic:
  "(memcmp m c1 c2 n = 0 \<longleftrightarrow> bytes_at m c1 (unat n) = bytes_at m c2 (unat n))
   \<and> (memcmp m c1 c2 n < 0 \<longleftrightarrow> (\<exists>i < unat n. bytes_at m c1 i = bytes_at m c2 i
        \<and> m (c1 + of_nat i) < m (c2 + of_nat i)))
   \<and> memcmp m c2 c1 n = - memcmp m c1 c2 n"
proof -
  have "(\<exists>i < unat n. take i (bytes_at m c1 (unat n)) = take i (bytes_at m c2 (unat n))
        \<and> bytes_at m c1 (unat n) ! i < bytes_at m c2 (unat n) ! i)
     \<longleftrightarrow> (\<exists>i < unat n. bytes_at m c1 i = bytes_at m c2 i \<and> m (c1 + of_nat i) < m (c2 + of_nat i))"
    by (rule ex_cong1) (auto simp: take_bytes_at nth_bytes_at)
  moreover have "memcmp m c2 c1 n = - memcmp m c1 c2 n"
    unfolding memcmp_bytes by (rule cmp_bytes_neg)
  ultimately show ?thesis by (simp add: memcmp_bytes cmp_bytes_eq_0 cmp_bytes_less_iff)
qed

end
