(* ===== verification/Boot_Protocol.thy ===== *)
theory Boot_Protocol
  imports Prelude
begin

text \<open>
  The serial protocol between the UART bootloader in the FPGA's boot ROM (\<open>cpu/BOOTCODE\<close>) and the
  program that uploads kernels (\<open>tools/bootloader_uart_client.c\<close>): the packets of the three commands
  an upload uses, and the contract \<open>boot_target\<close> that the device keeps for the host.  The host's
  correctness is proved once inside the locale; the theory \<open>Boot\<close> interprets it on the bootloader.
\<close>

definition addr_packet :: "addr \<Rightarrow> byte list" where
  "addr_packet a = ch (CHR ''a'') # le_bytes a @ [xor_bytes (le_bytes a)]"

definition write_packet :: "byte list \<Rightarrow> byte list" where
  "write_packet xs = ch (CHR ''w'') # xs @ [xor_bytes xs]"

definition jump_packet :: "byte list" where
  "jump_packet = [ch (CHR ''j'')]"

text \<open>
  \<open>wr bs d\<close> puts bytes on the line to the device, \<open>rd d\<close> waits for one reply byte (\<open>None\<close>: it never
  comes).  \<open>mem_of\<close>, \<open>ptr\<close> and \<open>jumped\<close> observe the device; \<open>own d\<close> are the addresses the loader
  uses for itself.
\<close>

locale boot_target =
  fixes wr :: "byte list \<Rightarrow> 'd \<Rightarrow> 'd"
    and rd :: "'d \<Rightarrow> (byte \<times> 'd) option"
    and mem_of :: "'d \<Rightarrow> mem"
    and ptr :: "'d \<Rightarrow> addr"
    and jumped :: "'d \<Rightarrow> addr option"
    and ready :: "'d \<Rightarrow> bool"
    and own :: "'d \<Rightarrow> addr set"
  assumes set_addr: "ready d \<Longrightarrow> \<exists>d'. rd (wr (addr_packet a) d) = Some (ch (CHR ''O''), d') \<and> ready d'
      \<and> ptr d' = a \<and> own d' = own d \<and> (\<forall>x. x \<notin> own d \<longrightarrow> mem_of d' x = mem_of d x)"
    and write_ok: "ready d \<Longrightarrow> length xs = 16 \<Longrightarrow> region (ptr d) 16 \<inter> own d = {} \<Longrightarrow>
      \<exists>d'. rd (wr (write_packet xs) d) = Some (ch (CHR ''O''), d') \<and> ready d'
      \<and> ptr d' = ptr d + 16 \<and> own d' = own d
      \<and> (\<forall>x. x \<notin> own d \<longrightarrow> mem_of d' x = store_bytes (mem_of d) (ptr d) xs x)"
    and jump: "ready d \<Longrightarrow> \<exists>d'. rd (wr jump_packet d) = Some (ch (CHR ''O''), d')
      \<and> jumped d' = Some (ptr d) \<and> (\<forall>x. x \<notin> own d \<longrightarrow> mem_of d' x = mem_of d x)"

end
