(* ===== verification/Cache.thy ===== *)
theory Cache
  imports Prelude "HOL-Library.Monad_Syntax"
begin

text \<open>
  Flushing the data cache by line (\<open>sw/include/machine/memctl.h\<close>).  Memory is coherent in the models of the
  drivers, which keep a log of the lines they flush; a flush returns the addresses it gives to the cache.
\<close>

section \<open>Definitions\<close>

definition flush_dcache_line :: "addr \<Rightarrow> addr" where
  "flush_dcache_line x = (x XOR 0x10000) AND 0xFFFFFFF0"

partial_function (option) flush_lines :: "addr \<Rightarrow> addr \<Rightarrow> addr list option" where
  "flush_lines start e =
     (if start < e then do { ls \<leftarrow> flush_lines (start + 16) e; Some (flush_dcache_line start # ls) }
      else Some [])"

definition flush_dcache_range :: "addr \<Rightarrow> addr \<Rightarrow> addr list option" where
  "flush_dcache_range start e = flush_lines (start AND 0xFFFFFFF0) e"

section \<open>Cache lines\<close>

lemma flush_dcache_line_aligned: "flush_dcache_line x = (x AND 0xFFFFFFF0) XOR 0x10000"
proof -
  have "(x XOR 0x10000) AND 0xFFFFFFF0 = (x AND 0xFFFFFFF0) XOR (0x10000 AND 0xFFFFFFF0)"
    by (rule bit.conj_xor_distrib2)
  then show ?thesis by (simp add: flush_dcache_line_def)
qed

lemma line_of_aligned:
  fixes s x :: addr
  assumes "16 dvd unat s" and "unat s \<le> unat x" and "unat x < unat s + 16"
  shows "x AND 0xFFFFFFF0 = s"
proof -
  obtain k where "unat s = 16 * k" using assms(1) by (elim dvdE)
  moreover from this assms have "unat x div 16 = k" by auto
  ultimately have "unat (x AND 0xFFFFFFF0) = unat s" by (simp add: unat_and_line_mask)
  then show ?thesis by (simp only: word_unat_eq_iff)
qed

lemma flush_lines_cover:
  assumes "unat e + 16 \<le> 2 ^ 32" and "16 dvd unat s"
  shows "\<exists>ls. flush_lines s e = Some ls
    \<and> (\<forall>x. s \<le> x \<and> x < e \<longrightarrow> flush_dcache_line x \<in> set ls)"
  using assms(2)
proof (induction "unat e - unat s" arbitrary: s rule: less_induct)
  case less
  show ?case
  proof (cases "s < e")
    case False
    then show ?thesis by (subst flush_lines.simps) auto
  next
    case True
    have s16: "unat (s + 16) = unat s + 16"
      using True assms(1) by (simp add: unat_word_ariths word_less_nat_alt)
    have "unat e - unat (s + 16) < unat e - unat s"
      using True s16 by (simp add: word_less_nat_alt)
    moreover have "16 dvd unat (s + 16)" using less.prems s16 by simp
    ultimately obtain ls where ls: "flush_lines (s + 16) e = Some ls"
      and cover: "\<And>x. s + 16 \<le> x \<Longrightarrow> x < e \<Longrightarrow> flush_dcache_line x \<in> set ls"
      using less.hyps by blast
    have "flush_dcache_line x \<in> set (flush_dcache_line s # ls)" if "s \<le> x" "x < e" for x
    proof (cases "s + 16 \<le> x")
      case False
      then have "x AND 0xFFFFFFF0 = s" and "s AND 0xFFFFFFF0 = s"
        using that(1) s16 less.prems
        by (auto intro!: line_of_aligned simp: word_le_nat_alt word_less_nat_alt)
      then show ?thesis by (simp add: flush_dcache_line_aligned)
    qed (use cover that in simp)
    then show ?thesis using True ls by (subst flush_lines.simps) auto
  qed
qed

lemma flush_dcache_range_cover:
  assumes "unat e + 16 \<le> 2 ^ 32"
  shows "\<exists>ls. flush_dcache_range s e = Some ls
    \<and> (\<forall>x. s \<le> x \<and> x < e \<longrightarrow> flush_dcache_line x \<in> set ls)"
proof -
  have "s AND 0xFFFFFFF0 \<le> s" by (simp add: word_le_nat_alt unat_and_line_mask)
  then show ?thesis
    using flush_lines_cover [OF assms, of "s AND 0xFFFFFFF0"]
    by (force simp: flush_dcache_range_def unat_and_line_mask)
qed

section \<open>Properties\<close>

text \<open>C5 \<open>flush_dcache_range\<close> returns for every range that ends at least one line below the top of the
  address space, and it flushes the cache line of every byte of the range.\<close>

theorem flush_covers_range:
  assumes "unat e + 16 \<le> 2 ^ 32" and "s \<le> x" and "x < e"
  shows "\<exists>ls. flush_dcache_range s e = Some ls \<and> flush_dcache_line x \<in> set ls"
  using flush_dcache_range_cover [OF assms(1), of s] assms(2,3) by blast

theorem flush_covers_range_witness:
  "\<exists>ls. flush_dcache_range 0x2000 0x2011 = Some ls \<and> flush_dcache_line 0x2010 \<in> set ls"
  by (rule flush_covers_range) simp_all

end
