(* ===== verification/Boot.thy ===== *)
theory Boot
  imports Boot_Protocol Cache Mem_Ops "HOL-Library.Monad_Syntax"
begin

text \<open>
  The boot ROM: the polled UART driver
  (\<open>cpu/BOOTCODE/uart0.c\<close>, \<open>util.h\<close>) and the command loop (\<open>cpu/BOOTCODE/boot.c\<close>).

  The locals \<open>buf\<close> and \<open>num\<close> of \<open>main\<close> have their address taken, so they live in memory, at the two
  addresses of \<open>b_frame\<close>; \<open>buf\<close> is declared with 16 bytes.  The UART hardware is modelled at the level
  of its DMA transfers (\<open>cpu/csr_uart_rs232.vhd\<close>): an armed receiver stores the next bytes of the line
  at the buffer address and raises its interrupt when the armed length is reached, the transmitter
  sends the bytes of its buffer.  Bytes on the line wait in \<open>b_rx\<close> until the receiver takes them.
  A read that never completes is \<open>None\<close>.  Memory is coherent in the model; \<open>b_flushed\<close> logs the cache
  lines the code flushes.  \<open>b_waits\<close> holds, for each busy wait to come, the timer values its polls
  read: they drive the LED.
\<close>

section \<open>Definitions\<close>

subsection \<open>State\<close>

record frame =
  f_buf :: addr
  f_num :: addr

record boot_state =
  b_frame :: frame
  b_mem :: mem
  b_mem_ptr :: addr
  b_gpio_dir :: uint
  b_gpio_out :: uint
  b_rx :: "byte list"
  b_tx :: "byte list"
  b_rx_pending :: uint
  b_tx_pending :: uint
  b_flushed :: "addr list"
  b_waits :: "uint list list"
  b_jump :: "addr option"

definition BOOTCODE_UART0_RX_BUFFER_LOC :: addr where
  "BOOTCODE_UART0_RX_BUFFER_LOC = 0x2000"

definition BOOTCODE_UART0_TX_BUFFER_LOC :: addr where
  "BOOTCODE_UART0_TX_BUFFER_LOC = 0x2000"

subsection \<open>The UART driver\<close>

text \<open>Busy waiting blinks the LED with a bit of the timer until the interrupt clears the flag.\<close>

definition blink_wait :: "nat \<Rightarrow> boot_state \<Rightarrow> boot_state" where
  "blink_wait k s = (case b_waits s of [] \<Rightarrow> s
     | ts # rest \<Rightarrow> s\<lparr>b_gpio_out := fold (\<lambda>t _. drop_bit k t AND 1) ts (b_gpio_out s), b_waits := rest\<rparr>)"

text \<open>The receiver armed with \<open>x\<close> (address in the upper bits, length in the lower 8), up to its interrupt.\<close>

definition uart0_set_rx :: "uint \<Rightarrow> boot_state \<Rightarrow> boot_state option" where
  "uart0_set_rx x s =
     (let len = unat (x AND 0xff); p = x AND 0xFFFFFF00
      in if len = 0 \<or> length (b_rx s) < len then None
         else Some (s\<lparr>b_mem := store_bytes (b_mem s) p (take len (b_rx s)),
                      b_rx := drop len (b_rx s), b_rx_pending := 0\<rparr>))"

definition uart0_set_tx :: "uint \<Rightarrow> boot_state \<Rightarrow> boot_state" where
  "uart0_set_tx x s =
     (let len = unat (x AND 0xff); p = x AND 0xFFFFFF00
      in s\<lparr>b_tx := b_tx s @ bytes_at (b_mem s) p len, b_tx_pending := 0\<rparr>)"

definition boot_memcpy :: "mem \<Rightarrow> addr \<Rightarrow> addr \<Rightarrow> uint \<Rightarrow> mem" where
  "boot_memcpy m dst src len = memcpy_loop m dst src len"

definition uart0_blocking_read :: "addr \<Rightarrow> uint \<Rightarrow> boot_state \<Rightarrow> boot_state option" where
  "uart0_blocking_read buf len s =
     (let len = len AND 0xff; loc = BOOTCODE_UART0_RX_BUFFER_LOC in do {
        let s = s\<lparr>b_rx_pending := 1\<rparr>;
        s \<leftarrow> uart0_set_rx (loc OR len) s;
        let s = blink_wait 25 s;
        ls \<leftarrow> flush_dcache_range loc (loc + len);
        let s = s\<lparr>b_flushed := b_flushed s @ ls\<rparr>;
        Some (s\<lparr>b_mem := boot_memcpy (b_mem s) buf loc len\<rparr>)
      })"

definition uart0_blocking_write :: "addr \<Rightarrow> uint \<Rightarrow> boot_state \<Rightarrow> boot_state option" where
  "uart0_blocking_write buf len s =
     (let len = len AND 0xff; loc = BOOTCODE_UART0_TX_BUFFER_LOC in do {
        let s = s\<lparr>b_mem := boot_memcpy (b_mem s) loc buf len\<rparr>;
        ls \<leftarrow> flush_dcache_range loc (loc + len);
        let s = s\<lparr>b_flushed := b_flushed s @ ls, b_tx_pending := 1\<rparr>;
        let s = uart0_set_tx (loc OR len) s;
        Some (blink_wait 23 s)
      })"

subsection \<open>The command loop\<close>

definition compute_16b_cksum :: "mem \<Rightarrow> addr \<Rightarrow> uint" where
  "compute_16b_cksum m buf = foldl (\<lambda>c i. c XOR ucast (m (buf + of_nat i))) 0 [0..<16]"

definition conv_5b_to_int :: "mem \<Rightarrow> addr \<Rightarrow> addr \<Rightarrow> mem \<times> int" where
  "conv_5b_to_int m buf p =
     (let num = foldl (\<lambda>v i. v OR push_bit (8 * i) (ucast (m (buf + of_nat i)))) 0 [0..<4];
          cksum = foldl (\<lambda>c i. c XOR ucast (m (buf + of_nat i))) (0::uint) [0..<4]
      in if (ucast cksum :: byte) = m (buf + 4) then (store32 m p num, 0) else (m, 1))"

definition put_reply :: "byte \<Rightarrow> boot_state \<Rightarrow> boot_state" where
  "put_reply c s = s\<lparr>b_mem := (b_mem s)(f_buf (b_frame s) := c)\<rparr>"

definition boot_cmd :: "boot_state \<Rightarrow> boot_state option" where
  "boot_cmd s =
     (let buf = f_buf (b_frame s); num = f_num (b_frame s); c = b_mem s buf in
      if c = ch (CHR ''a'') then do {
        s \<leftarrow> uart0_blocking_read buf 5 s;
        let (m, r) = conv_5b_to_int (b_mem s) buf num;
        let s = (if r = 0 then put_reply (ch (CHR ''O'')) (s\<lparr>b_mem := m, b_mem_ptr := load32 m num\<rparr>)
                 else put_reply (ch (CHR ''E'')) s);
        uart0_blocking_write buf 1 s
      } else if c = ch (CHR ''w'') then do {
        s \<leftarrow> uart0_blocking_read buf 17 s;
        let s = (if compute_16b_cksum (b_mem s) buf = ucast (b_mem s (buf + 16))
                 then put_reply (ch (CHR ''O''))
                        (s\<lparr>b_mem := boot_memcpy (b_mem s) (b_mem_ptr s) buf 16,
                           b_flushed := b_flushed s @ [flush_dcache_line (b_mem_ptr s)],
                           b_mem_ptr := b_mem_ptr s + 16\<rparr>)
                 else put_reply (ch (CHR ''E'')) s);
        uart0_blocking_write buf 1 s
      } else if c = ch (CHR ''r'') then do {
        let m = boot_memcpy (b_mem s) buf (b_mem_ptr s) 16;
        let m = m(buf + 16 := ucast (compute_16b_cksum m buf));
        uart0_blocking_write buf 17 (s\<lparr>b_mem := m, b_mem_ptr := b_mem_ptr s + 16\<rparr>)
      } else if c = ch (CHR ''v'') then
        uart0_blocking_write buf 1 (put_reply (ch (CHR ''1'')) s)
      else if c = ch (CHR ''j'') then do {
        s \<leftarrow> uart0_blocking_write buf 1 (put_reply (ch (CHR ''O'')) s);
        Some (s\<lparr>b_gpio_out := 0, b_jump := Some (b_mem_ptr s)\<rparr>)
      } else
        uart0_blocking_write buf 1 (put_reply (ch (CHR ''E'')) s))"

text \<open>
  One turn of \<open>while (1)\<close>.  When the line does not hold a whole command the turn is \<open>None\<close>: the code
  waits inside a read, and the turn is taken again from its start once more bytes have come.
\<close>

definition boot_step :: "boot_state \<Rightarrow> boot_state option" where
  "boot_step s = uart0_blocking_read (f_buf (b_frame s)) 1 s \<bind> boot_cmd"

text \<open>The loop up to the point where it waits for input or has jumped.\<close>

partial_function (option) boot_loop :: "boot_state \<Rightarrow> boot_state option" where
  "boot_loop s =
     (if b_jump s \<noteq> None then Some s
      else case boot_step s of None \<Rightarrow> Some s | Some s' \<Rightarrow> boot_loop s')"

definition boot_main :: "boot_state \<Rightarrow> boot_state option" where
  "boot_main s = boot_loop (s\<lparr>b_gpio_dir := 1, b_gpio_out := 1\<rparr>)"


text \<open>
  The machine after reset: the stack starts at 0x1000 (\<open>entry.S\<close>), so the frame of \<open>main\<close> lies just below,
  and \<open>mem_ptr\<close> has its initial value.
\<close>

definition boot_reset :: "byte list \<Rightarrow> boot_state" where
  "boot_reset rx = \<lparr>b_frame = \<lparr>f_buf = 0xFD0, f_num = 0xFCC\<rparr>, b_mem = (\<lambda>_. 0), b_mem_ptr = 0x10000,
     b_gpio_dir = 0, b_gpio_out = 0, b_rx = rx, b_tx = [], b_rx_pending = 0, b_tx_pending = 0,
     b_flushed = [], b_waits = [], b_jump = None\<rparr>"

section \<open>The UART driver\<close>

lemma blink_wait_simps [simp]:
  "b_frame (blink_wait k s) = b_frame s" "b_mem (blink_wait k s) = b_mem s"
  "b_mem_ptr (blink_wait k s) = b_mem_ptr s" "b_rx (blink_wait k s) = b_rx s"
  "b_tx (blink_wait k s) = b_tx s" "b_jump (blink_wait k s) = b_jump s"
  "b_flushed (blink_wait k s) = b_flushed s"
  by (simp_all add: blink_wait_def split: list.split)

text \<open>What the command loop sees of the device: the fields a transfer can change for it.\<close>

definition same_but_mem :: "boot_state \<Rightarrow> boot_state \<Rightarrow> bool" where
  "same_but_mem s s' \<longleftrightarrow> b_frame s' = b_frame s \<and> b_mem_ptr s' = b_mem_ptr s \<and> b_jump s' = b_jump s"

lemma uart_flush_ok:
  assumes "unat len \<le> 255"
  shows "\<exists>ls. flush_dcache_range 0x2000 (0x2000 + len) = Some ls"
proof -
  have "unat (0x2000 + len :: addr) + 16 \<le> 2 ^ 32" using assms by (simp add: unat_word_ariths)
  then show ?thesis using flush_dcache_range_cover by blast
qed

abbreviation (input) uart_len :: "uint \<Rightarrow> bool" where
  "uart_len len \<equiv> len \<in> {1, 5, 17}"

lemma uart_len_simps:
  assumes "uart_len len"
  shows "len AND 0xff = len" "(0x2000 OR len) AND 0xff = len" "(0x2000 OR len) AND 0xFFFFFF00 = 0x2000"
    "0 < unat len" "unat len \<le> 17"
  using assms by auto

lemma uart0_blocking_read_ok:
  assumes len: "uart_len len" "unat len \<le> length (b_rx s)"
    and dis: "region buf 17 \<inter> region 0x2000 17 = {}"
  shows "\<exists>s'. uart0_blocking_read buf len s = Some s' \<and> same_but_mem s s'
    \<and> b_rx s' = drop (unat len) (b_rx s) \<and> b_tx s' = b_tx s
    \<and> b_mem s' = store_bytes (store_bytes (b_mem s) 0x2000 (take (unat len) (b_rx s)))
                   buf (take (unat len) (b_rx s))"
proof -
  let ?xs = "take (unat len) (b_rx s)"
  note ls = uart_len_simps [OF len(1)]
  obtain fl where fl: "flush_dcache_range 0x2000 (0x2000 + len) = Some fl"
    using uart_flush_ok [of len] ls(5) by auto
  have "region buf (unat len) \<inter> region 0x2000 (unat len) = {}"
    using dis region_mono [OF ls(5)] by blast
  then have "memcpy_loop (store_bytes (b_mem s) 0x2000 ?xs) buf 0x2000 len
      = store_bytes (store_bytes (b_mem s) 0x2000 ?xs) buf ?xs"
    using memcpy_disjoint [of buf len "0x2000"] bytes_at_store [of ?xs "b_mem s" "0x2000"] len(2) ls(5)
    by (simp add: memcpy_def)
  then show ?thesis
    using len(2) ls fl
    by (simp add: uart0_blocking_read_def uart0_set_rx_def BOOTCODE_UART0_RX_BUFFER_LOC_def
        boot_memcpy_def same_but_mem_def Let_def)
qed

lemma uart0_blocking_write_ok:
  assumes len: "uart_len len" and dis: "region buf 17 \<inter> region 0x2000 17 = {}"
  shows "\<exists>s'. uart0_blocking_write buf len s = Some s' \<and> same_but_mem s s'
    \<and> b_rx s' = b_rx s \<and> b_tx s' = b_tx s @ bytes_at (b_mem s) buf (unat len)
    \<and> b_mem s' = store_bytes (b_mem s) 0x2000 (bytes_at (b_mem s) buf (unat len))"
proof -
  let ?xs = "bytes_at (b_mem s) buf (unat len)"
  note ls = uart_len_simps [OF len]
  obtain fl where fl: "flush_dcache_range 0x2000 (0x2000 + len) = Some fl"
    using uart_flush_ok [of len] ls(5) by auto
  have "region 0x2000 (unat len) \<inter> region buf (unat len) = {}"
    using dis region_mono [OF ls(5)] by blast
  then have "memcpy_loop (b_mem s) 0x2000 buf len = store_bytes (b_mem s) 0x2000 ?xs"
    using memcpy_disjoint [of "0x2000" len buf] by (simp add: memcpy_def)
  then show ?thesis
    using ls fl bytes_at_store [of ?xs "b_mem s" "0x2000"]
    by (simp add: uart0_blocking_write_def uart0_set_tx_def BOOTCODE_UART0_TX_BUFFER_LOC_def
        boot_memcpy_def same_but_mem_def Let_def)
qed


section \<open>Checksums and addresses on the wire\<close>

lemma xor_fold_bytes:
  "foldl (\<lambda>c i. c XOR ucast (m (buf + of_nat i))) (a :: uint) [0..<n]
   = a XOR ucast (xor_bytes (bytes_at m buf n))"
proof (induction n)
  case (Suc n)
  have "bytes_at m buf (Suc n) = bytes_at m buf n @ [m (buf + of_nat n)]"
    using bytes_at_append [of m buf n 1] by simp
  with Suc show ?case by (simp add: xor_bytes_append unsigned_xor_eq xor.assoc)
qed simp

lemma compute_16b_cksum_xor: "compute_16b_cksum m buf = ucast (xor_bytes (bytes_at m buf 16))"
  unfolding compute_16b_cksum_def by (simp only: xor_fold_bytes xor.left_neutral)

lemma ucast_ucast_byte [simp]: "ucast (ucast x :: uint) = x" for x :: byte
  by (rule bit_word_eqI) (simp add: bit_simps)

lemma ucast8_eq_iff: "(ucast x :: uint) = ucast y \<longleftrightarrow> x = y" for x y :: byte
  by (metis ucast_ucast_byte)

lemma conv_5b_to_int_eq:
  "conv_5b_to_int m buf p =
     (if xor_bytes (bytes_at m buf 4) = m (buf + 4) then (store32 m p (load32 m buf), 0) else (m, 1))"
proof -
  have "foldl (\<lambda>v i. v OR push_bit (8 * i) (ucast (m (buf + of_nat i)))) 0 [0..<4] = load32 m buf"
    by (simp add: load32_def upt_rec [of _ "4"] numeral_eq_Suc or.assoc add.assoc)
  then show ?thesis
    unfolding conv_5b_to_int_def by (simp only: xor_fold_bytes xor.left_neutral ucast_ucast_byte Let_def)
qed

lemma load32_of_bytes: "bytes_at m p 4 = le_bytes w \<Longrightarrow> load32 m p = w"
  using load32_bytes [of m p "store32 m p w"] bytes_at_store [of "le_bytes w" m p]
    load32_store32 [of m p w]
  by (simp add: store32_def)

section \<open>One command\<close>

definition frame_ok :: "frame \<Rightarrow> bool" where
  "frame_ok f \<longleftrightarrow> region (f_buf f) 17 \<inter> region 0x2000 17 = {}"

text \<open>The addresses the loader itself writes: the 17 bytes from \<open>buf\<close> on, \<open>num\<close> and the DMA buffer.\<close>

definition boot_own :: "boot_state \<Rightarrow> addr set" where
  "boot_own s = region (f_buf (b_frame s)) 17 \<union> region (f_num (b_frame s)) 4 \<union> region 0x2000 17"

definition agree :: "boot_state \<Rightarrow> boot_state \<Rightarrow> bool" where
  "agree s s' \<longleftrightarrow> (\<forall>x. x \<notin> boot_own s \<longrightarrow> b_mem s' x = b_mem s x)"

lemma boot_own_frame: "b_frame s' = b_frame s \<Longrightarrow> boot_own s' = boot_own s"
  by (simp add: boot_own_def)

lemma agree_trans: "agree s s' \<Longrightarrow> agree s' s'' \<Longrightarrow> b_frame s' = b_frame s \<Longrightarrow> agree s s''"
  by (simp add: agree_def boot_own_def)

lemma store_own_buf:
  assumes "length xs \<le> 17" and "x \<notin> boot_own s"
  shows "store_bytes m (f_buf (b_frame s)) xs x = m x" and "store_bytes m 0x2000 xs x = m x"
  using assms region_mono [OF assms(1)] by (auto simp: boot_own_def intro!: store_bytes_other)

lemma read_agrees:
  assumes len: "uart_len len" "unat len \<le> length (b_rx s)" and fr: "frame_ok (b_frame s)"
  obtains s' where "uart0_blocking_read (f_buf (b_frame s)) len s = Some s'" and "same_but_mem s s'"
    and "b_rx s' = drop (unat len) (b_rx s)" and "b_tx s' = b_tx s" and "agree s s'"
    and "bytes_at (b_mem s') (f_buf (b_frame s)) (unat len) = take (unat len) (b_rx s)"
proof -
  let ?xs = "take (unat len) (b_rx s)" and ?buf = "f_buf (b_frame s)"
  from uart0_blocking_read_ok [OF len fr [unfolded frame_ok_def]] obtain s' where
    s': "uart0_blocking_read ?buf len s = Some s'" "same_but_mem s s'"
      "b_rx s' = drop (unat len) (b_rx s)" "b_tx s' = b_tx s"
    and m: "b_mem s' = store_bytes (store_bytes (b_mem s) 0x2000 ?xs) ?buf ?xs"
    by blast
  have short: "length ?xs \<le> 17" using uart_len_simps(5) [OF len(1)] by simp
  then have "agree s s'" by (simp add: agree_def m store_own_buf)
  moreover have "bytes_at (b_mem s') ?buf (unat len) = ?xs"
    using bytes_at_store [of ?xs "store_bytes (b_mem s) 0x2000 ?xs" ?buf] short len(2) by (simp add: m)
  ultimately show ?thesis using that s' by blast
qed

lemma reply_ok:
  assumes "frame_ok (b_frame s)"
  obtains s' where "uart0_blocking_write (f_buf (b_frame s)) 1 (put_reply c s) = Some s'"
    and "same_but_mem s s'" and "b_rx s' = b_rx s" and "b_tx s' = b_tx s @ [c]" and "agree s s'"
    and "\<And>x. x \<noteq> f_buf (b_frame s) \<Longrightarrow> x \<noteq> 0x2000 \<Longrightarrow> b_mem s' x = b_mem s x"
proof -
  let ?buf = "f_buf (b_frame s)"
  have "region (f_buf (b_frame (put_reply c s))) 17 \<inter> region 0x2000 17 = {}"
    using assms by (simp add: frame_ok_def put_reply_def)
  from uart0_blocking_write_ok [OF _ this, of 1 "put_reply c s"] obtain s' where
    s': "uart0_blocking_write ?buf 1 (put_reply c s) = Some s'" "same_but_mem (put_reply c s) s'"
      "b_rx s' = b_rx (put_reply c s)" "b_tx s' = b_tx (put_reply c s) @ [c]"
    and m: "b_mem s' = store_bytes ((b_mem s)(?buf := c)) 0x2000 [c]"
    by (auto simp: put_reply_def)
  have "b_mem s' x = b_mem s x" if "x \<notin> boot_own s" for x
  proof -
    have "x \<noteq> ?buf" and "x \<noteq> 0x2000"
      using that in_regionI [of 0 17] by (force simp: boot_own_def)+
    then show ?thesis by (simp add: m)
  qed
  then have "agree s s'" by (simp add: agree_def)
  moreover have "b_mem s' x = b_mem s x" if "x \<noteq> ?buf" "x \<noteq> 0x2000" for x
    using that by (simp add: m)
  ultimately show ?thesis using s' that [of s'] by (simp add: put_reply_def same_but_mem_def)
qed


lemma uart_lens [simp]: "uart_len 1" "uart_len 5" "uart_len 17"
  by simp_all

lemma boot_step_none: "b_rx s = [] \<Longrightarrow> boot_step s = None"
  by (simp add: boot_step_def uart0_blocking_read_def uart0_set_rx_def
      BOOTCODE_UART0_RX_BUFFER_LOC_def Let_def)

lemma boot_step_fetch:
  assumes "frame_ok (b_frame s)" and "b_rx s = c # rest"
  obtains s1 where "boot_step s = boot_cmd s1" and "same_but_mem s s1" and "agree s s1"
    and "b_mem s1 (f_buf (b_frame s)) = c" and "b_rx s1 = rest" and "b_tx s1 = b_tx s"
proof -
  have "unat (1 :: uint) \<le> length (b_rx s)" using assms(2) by simp
  from read_agrees [OF uart_lens(1) this assms(1)] obtain s1 where
    s1: "uart0_blocking_read (f_buf (b_frame s)) 1 s = Some s1" "same_but_mem s s1"
      "b_rx s1 = drop (unat (1 :: uint)) (b_rx s)" "b_tx s1 = b_tx s" "agree s s1"
      "bytes_at (b_mem s1) (f_buf (b_frame s)) (unat (1 :: uint)) = take (unat (1 :: uint)) (b_rx s)"
    by blast
  show ?thesis by (rule that [of s1]) (use s1 assms(2) in \<open>simp_all add: boot_step_def\<close>)
qed

text \<open>The outcome of one turn of the loop that sent one reply byte.\<close>

definition replied :: "boot_state \<Rightarrow> byte \<Rightarrow> byte list \<Rightarrow> boot_state \<Rightarrow> bool" where
  "replied s c rest s' \<longleftrightarrow> b_frame s' = b_frame s \<and> b_rx s' = rest \<and> b_tx s' = b_tx s @ [c]"

lemma fetch_payload:
  assumes fr: "frame_ok (b_frame s)" and rx: "b_rx s = c # xs @ rest"
    and len: "uart_len len" "unat len = length xs"
  obtains s1 s2 where "boot_step s = boot_cmd s1" and "b_mem s1 (f_buf (b_frame s)) = c"
    and "b_frame s1 = b_frame s" and "uart0_blocking_read (f_buf (b_frame s)) len s1 = Some s2"
    and "same_but_mem s s2" and "b_rx s2 = rest" and "b_tx s2 = b_tx s" and "agree s s2"
    and "bytes_at (b_mem s2) (f_buf (b_frame s)) (length xs) = xs"
proof -
  obtain s1 where s1: "boot_step s = boot_cmd s1" "same_but_mem s s1" "agree s s1"
    "b_mem s1 (f_buf (b_frame s)) = c" "b_rx s1 = xs @ rest" "b_tx s1 = b_tx s"
    using boot_step_fetch [OF fr rx] by blast
  then have f: "b_frame s1 = b_frame s" by (simp add: same_but_mem_def)
  have "unat len \<le> length (b_rx s1)" using s1(5) len(2) by simp
  from read_agrees [OF len(1) this] fr f obtain s2 where
    s2: "uart0_blocking_read (f_buf (b_frame s)) len s1 = Some s2" "same_but_mem s1 s2"
      "b_rx s2 = drop (unat len) (b_rx s1)" "b_tx s2 = b_tx s1" "agree s1 s2"
      "bytes_at (b_mem s2) (f_buf (b_frame s)) (unat len) = take (unat len) (b_rx s1)"
    by force
  show ?thesis
    by (rule that [OF s1(1,4) f s2(1)])
      (use s1 s2 f len(2) in \<open>auto simp: same_but_mem_def intro: agree_trans\<close>)
qed

lemma reply_after:
  assumes "frame_ok (b_frame s)" and "b_frame s2 = b_frame s" and "agree s s2" and "b_tx s2 = b_tx s"
  obtains s' where "uart0_blocking_write (f_buf (b_frame s)) 1 (put_reply c s2) = Some s'"
    and "replied s c (b_rx s2) s'" and "agree s s'" and "b_mem_ptr s' = b_mem_ptr s2"
    and "b_jump s' = b_jump s2"
    and "\<And>x. x \<noteq> f_buf (b_frame s) \<Longrightarrow> x \<noteq> 0x2000 \<Longrightarrow> b_mem s' x = b_mem s2 x"
proof -
  have "frame_ok (b_frame s2)" using assms by simp
  from reply_ok [OF this, of c] obtain s' where
    s': "uart0_blocking_write (f_buf (b_frame s2)) 1 (put_reply c s2) = Some s'"
    "same_but_mem s2 s'" "b_rx s' = b_rx s2" "b_tx s' = b_tx s2 @ [c]" "agree s2 s'"
    "\<And>x. x \<noteq> f_buf (b_frame s2) \<Longrightarrow> x \<noteq> 0x2000 \<Longrightarrow> b_mem s' x = b_mem s2 x"
    by blast
  show ?thesis
    by (rule that [of s'])
      (use s' assms in \<open>auto simp: same_but_mem_def replied_def intro: agree_trans\<close>)
qed

text \<open>Setting the address.\<close>

lemma step_addr:
  assumes fr: "frame_ok (b_frame s)"
    and rx: "b_rx s = ch (CHR ''a'') # (xs @ [ck]) @ rest" and len: "length xs = 4"
  obtains s' where "boot_step s = Some s'" and "agree s s'" and "b_jump s' = b_jump s"
    and "replied s (if xor_bytes xs = ck then ch (CHR ''O'') else ch (CHR ''E'')) rest s'"
    and "if xor_bytes xs = ck then le_bytes (b_mem_ptr s') = xs else b_mem_ptr s' = b_mem_ptr s"
proof -
  let ?buf = "f_buf (b_frame s)" and ?num = "f_num (b_frame s)"
  obtain s1 s2 where s1: "boot_step s = boot_cmd s1" "b_mem s1 ?buf = ch (CHR ''a'')"
      "b_frame s1 = b_frame s"
    and s2: "uart0_blocking_read ?buf 5 s1 = Some s2" "same_but_mem s s2" "b_rx s2 = rest"
      "b_tx s2 = b_tx s" "agree s s2" "bytes_at (b_mem s2) ?buf (length (xs @ [ck])) = xs @ [ck]"
    by (rule fetch_payload [OF fr rx, of 5]) (use len in auto)
  have bytes: "bytes_at (b_mem s2) ?buf 4 = xs" "b_mem s2 (?buf + 4) = ck"
    using s2(6) bytes_at_append [of "b_mem s2" ?buf 4 1] len by simp_all
  define m where "m = store32 (b_mem s2) ?num (load32 (b_mem s2) ?buf)"
  define s3 where "s3 = (if xor_bytes xs = ck then s2\<lparr>b_mem := m, b_mem_ptr := load32 m ?num\<rparr> else s2)"
  have "m x = b_mem s2 x" if "x \<notin> boot_own s" for x
    unfolding m_def using that by (intro store32_other) (simp add: boot_own_def)
  then have a3: "agree s s3" using s2(5) by (auto simp: agree_def s3_def)
  obtain s' where s': "uart0_blocking_write ?buf 1
      (put_reply (if xor_bytes xs = ck then ch (CHR ''O'') else ch (CHR ''E'')) s3) = Some s'"
    "replied s (if xor_bytes xs = ck then ch (CHR ''O'') else ch (CHR ''E'')) (b_rx s3) s'" "agree s s'"
    "b_mem_ptr s' = b_mem_ptr s3" "b_jump s' = b_jump s3"
    by (rule reply_after [OF fr _ a3]) (use s2 in \<open>auto simp: s3_def same_but_mem_def\<close>)
  have "boot_step s = Some s'"
    using s1 s2(1,2) s'(1) bytes
    by (simp add: boot_cmd_def conv_5b_to_int_eq same_but_mem_def s3_def m_def split: if_splits)
  then show ?thesis
    by (rule that) (use s' s2 bytes in
      \<open>auto simp: s3_def same_but_mem_def m_def load32_store32 le_bytes_load32\<close>)
qed

text \<open>Writing 16 bytes.\<close>

lemma step_write:
  assumes fr: "frame_ok (b_frame s)"
    and rx: "b_rx s = ch (CHR ''w'') # (xs @ [ck]) @ rest" and len: "length xs = 16"
    and dis: "region (b_mem_ptr s) 16 \<inter> boot_own s = {}"
  obtains s' where "boot_step s = Some s'" and "b_jump s' = b_jump s"
    and "replied s (if xor_bytes xs = ck then ch (CHR ''O'') else ch (CHR ''E'')) rest s'"
    and "if xor_bytes xs = ck
      then b_mem_ptr s' = b_mem_ptr s + 16
        \<and> (\<forall>x. x \<notin> boot_own s \<longrightarrow> b_mem s' x = store_bytes (b_mem s) (b_mem_ptr s) xs x)
      else b_mem_ptr s' = b_mem_ptr s \<and> agree s s'"
    and "b_mem s' (f_buf (b_frame s) + 16) = ck"
proof -
  let ?buf = "f_buf (b_frame s)" and ?p = "b_mem_ptr s"
  obtain s1 s2 where s1: "boot_step s = boot_cmd s1" "b_mem s1 ?buf = ch (CHR ''w'')"
      "b_frame s1 = b_frame s"
    and s2: "uart0_blocking_read ?buf 17 s1 = Some s2" "same_but_mem s s2" "b_rx s2 = rest"
      "b_tx s2 = b_tx s" "agree s s2" "bytes_at (b_mem s2) ?buf (length (xs @ [ck])) = xs @ [ck]"
    by (rule fetch_payload [OF fr rx, of 17]) (use len in auto)
  have bytes: "bytes_at (b_mem s2) ?buf 16 = xs" "b_mem s2 (?buf + 16) = ck"
    using s2(6) bytes_at_append [of "b_mem s2" ?buf 16 1] len by simp_all
  have "region ?p (unat (16 :: uint)) \<inter> region ?buf (unat (16 :: uint)) = {}"
    using dis region_mono [of 16 17 ?buf] by (auto simp: boot_own_def)
  from memcpy_disjoint [OF this, of "b_mem s2"] bytes(1)
  have copy: "boot_memcpy (b_mem s2) ?p ?buf 16 = store_bytes (b_mem s2) ?p xs"
    by (simp add: memcpy_def boot_memcpy_def)
  have sum: "compute_16b_cksum (b_mem s2) ?buf = ucast (b_mem s2 (?buf + 16)) \<longleftrightarrow> xor_bytes xs = ck"
    by (simp add: compute_16b_cksum_xor ucast8_eq_iff bytes)
  define s3 where "s3 = (if xor_bytes xs = ck
    then s2\<lparr>b_mem := store_bytes (b_mem s2) ?p xs,
            b_flushed := b_flushed s2 @ [flush_dcache_line ?p], b_mem_ptr := ?p + 16\<rparr> else s2)"
  define c where "c = (if xor_bytes xs = ck then ch (CHR ''O'') else ch (CHR ''E''))"
  have f3: "b_frame s3 = b_frame s" using s2(2) by (simp add: s3_def same_but_mem_def)
  have fr3: "frame_ok (b_frame s3)" using fr f3 by simp
  obtain s' where s': "uart0_blocking_write (f_buf (b_frame s3)) 1 (put_reply c s3) = Some s'"
    "replied s3 c (b_rx s3) s'" "agree s3 s'" "b_mem_ptr s' = b_mem_ptr s3" "b_jump s' = b_jump s3"
    "\<And>x. x \<noteq> f_buf (b_frame s3) \<Longrightarrow> x \<noteq> 0x2000 \<Longrightarrow> b_mem s' x = b_mem s3 x"
    by (rule reply_after [OF fr3 refl _ refl]) (auto simp: agree_def)
  have step: "boot_step s = Some s'"
    using s1 s2(1,2) s'(1) f3 sum copy
    by (simp add: boot_cmd_def same_but_mem_def s3_def c_def split: if_splits)
  have mem: "b_mem s' x = b_mem s3 x" if "x \<notin> boot_own s" for x
    using s'(3) that f3 by (simp add: agree_def boot_own_def)
  have mem3: "b_mem s3 x = (if xor_bytes xs = ck then store_bytes (b_mem s) ?p xs x else b_mem s x)"
    if "x \<notin> boot_own s" for x
    using s2(5) that by (auto simp: s3_def agree_def intro: store_bytes_cong)
  have own16: "?buf + 16 \<in> region ?buf 17" using in_regionI [of 16 17 ?buf] by simp
  then have "?buf + 16 \<noteq> 0x2000" and "?buf + 16 \<notin> region ?p (length xs)"
    using fr in_regionI [of 0 17 "0x2000"] dis len by (auto simp: frame_ok_def boot_own_def)
  then have "b_mem s' (?buf + 16) = ck"
    using s'(6) [of "?buf + 16"] f3 bytes(2) by (simp add: s3_def store_bytes_other)
  then show ?thesis
    by (rule that [OF step, rotated 3])
      (use s' s2 mem mem3 in \<open>auto simp: s3_def c_def same_but_mem_def replied_def agree_def\<close>)
qed


text \<open>The remaining commands: jump, version, read back and anything else.\<close>

lemma step_jump:
  assumes fr: "frame_ok (b_frame s)" and rx: "b_rx s = ch (CHR ''j'') # rest"
  obtains s' where "boot_step s = Some s'" and "agree s s'" and "replied s (ch (CHR ''O'')) rest s'"
    and "b_jump s' = Some (b_mem_ptr s)" and "b_gpio_out s' = 0"
proof -
  obtain s1 where s1: "boot_step s = boot_cmd s1" "same_but_mem s s1" "agree s s1"
    "b_mem s1 (f_buf (b_frame s)) = ch (CHR ''j'')" "b_rx s1 = rest" "b_tx s1 = b_tx s"
    by (rule boot_step_fetch [OF fr rx])
  obtain s' where s': "uart0_blocking_write (f_buf (b_frame s)) 1 (put_reply (ch (CHR ''O'')) s1) = Some s'"
    "replied s (ch (CHR ''O'')) (b_rx s1) s'" "agree s s'" "b_mem_ptr s' = b_mem_ptr s1"
    by (rule reply_after [OF fr _ s1(3)]) (use s1 in \<open>auto simp: same_but_mem_def\<close>)
  have "boot_step s = Some (s'\<lparr>b_gpio_out := 0, b_jump := Some (b_mem_ptr s')\<rparr>)"
    using s1 s'(1) by (simp add: boot_cmd_def same_but_mem_def)
  then show ?thesis
    by (rule that) (use s' s1 in \<open>auto simp: replied_def agree_def same_but_mem_def\<close>)
qed

lemma step_simple_reply:
  assumes fr: "frame_ok (b_frame s)" and rx: "b_rx s = c # rest"
    and c: "c \<notin> {ch (CHR ''a''), ch (CHR ''w''), ch (CHR ''r''), ch (CHR ''j'')}"
  obtains s' where "boot_step s = Some s'" and "agree s s'" and "b_mem_ptr s' = b_mem_ptr s"
    and "b_jump s' = b_jump s"
    and "replied s (if c = ch (CHR ''v'') then ch (CHR ''1'') else ch (CHR ''E'')) rest s'"
proof -
  let ?r = "if c = ch (CHR ''v'') then ch (CHR ''1'') else ch (CHR ''E'')"
  obtain s1 where s1: "boot_step s = boot_cmd s1" "same_but_mem s s1" "agree s s1"
    "b_mem s1 (f_buf (b_frame s)) = c" "b_rx s1 = rest" "b_tx s1 = b_tx s"
    by (rule boot_step_fetch [OF fr rx])
  obtain s' where s': "uart0_blocking_write (f_buf (b_frame s)) 1 (put_reply ?r s1) = Some s'"
    "replied s ?r (b_rx s1) s'" "agree s s'" "b_mem_ptr s' = b_mem_ptr s1" "b_jump s' = b_jump s1"
    by (rule reply_after [OF fr _ s1(3)]) (use s1 in \<open>auto simp: same_but_mem_def\<close>)
  have "boot_step s = Some s'"
    using s1 s'(1) c by (simp add: boot_cmd_def same_but_mem_def split: if_splits)
  then show ?thesis
    by (rule that) (use s' s1 in \<open>auto simp: same_but_mem_def\<close>)
qed

lemma step_read:
  assumes fr: "frame_ok (b_frame s)" and rx: "b_rx s = ch (CHR ''r'') # rest"
    and dis: "region (b_mem_ptr s) 16 \<inter> boot_own s = {}"
  defines "xs \<equiv> bytes_at (b_mem s) (b_mem_ptr s) 16"
  obtains s' where "boot_step s = Some s'" and "agree s s'" and "b_mem_ptr s' = b_mem_ptr s + 16"
    and "b_jump s' = b_jump s" and "b_rx s' = rest" and "b_tx s' = b_tx s @ xs @ [xor_bytes xs]"
proof -
  let ?buf = "f_buf (b_frame s)" and ?p = "b_mem_ptr s"
  obtain s1 where s1: "boot_step s = boot_cmd s1" "same_but_mem s s1" "agree s s1"
    "b_mem s1 ?buf = ch (CHR ''r'')" "b_rx s1 = rest" "b_tx s1 = b_tx s"
    by (rule boot_step_fetch [OF fr rx])
  have xs: "bytes_at (b_mem s1) ?p 16 = xs" "length xs = 16"
    unfolding xs_def using s1(3) dis by (auto intro!: bytes_at_cong simp: agree_def)
  have sub: "region ?buf 17 \<inter> region ?p 16 = {}" using dis by (auto simp: boot_own_def)
  have "region ?buf (unat (16 :: uint)) \<inter> region ?p (unat (16 :: uint)) = {}"
    using sub region_mono [of 16 17 ?buf] by auto
  from memcpy_disjoint [OF this, of "b_mem s1"] xs
  have copy: "boot_memcpy (b_mem s1) ?buf ?p 16 = store_bytes (b_mem s1) ?buf xs"
    by (simp add: memcpy_def boot_memcpy_def)
  define m where "m = store_bytes (b_mem s1) ?buf (xs @ [xor_bytes xs])"
  have m: "(store_bytes (b_mem s1) ?buf xs)(?buf + 16 := xor_bytes xs) = m"
    by (simp add: m_def store_bytes_append xs)
  have sent: "bytes_at m ?buf 17 = xs @ [xor_bytes xs]"
    using bytes_at_store [of "xs @ [xor_bytes xs]" "b_mem s1" ?buf] xs(2) by (simp add: m_def)
  have "bytes_at (store_bytes (b_mem s1) ?buf xs) ?buf 16 = xs"
    using bytes_at_store [of xs "b_mem s1" ?buf] xs(2) by simp
  then have sum: "ucast (compute_16b_cksum (store_bytes (b_mem s1) ?buf xs) ?buf) = xor_bytes xs"
    by (simp add: compute_16b_cksum_xor)
  define s2 where "s2 = s1\<lparr>b_mem := m, b_mem_ptr := ?p + 16\<rparr>"
  obtain s' where s': "uart0_blocking_write ?buf 17 s2 = Some s'" "same_but_mem s2 s'"
    "b_rx s' = b_rx s2" "b_tx s' = b_tx s2 @ bytes_at (b_mem s2) ?buf (unat (17 :: uint))"
    "b_mem s' = store_bytes (b_mem s2) 0x2000 (bytes_at (b_mem s2) ?buf (unat (17 :: uint)))"
    using uart0_blocking_write_ok [OF uart_lens(3), of ?buf s2] fr by (auto simp: frame_ok_def)
  have "boot_step s = Some s'"
    using s1 s'(1) copy m sum by (simp add: boot_cmd_def same_but_mem_def s2_def)
  moreover have "agree s s'"
    using s1(3) xs(2) s'(5) sent by (auto simp: agree_def s2_def m_def store_own_buf)
  ultimately show ?thesis
    by (rule that) (use s' s1 sent in \<open>auto simp: same_but_mem_def s2_def\<close>)
qed

section \<open>The loop\<close>

lemma write_rx: "uart0_blocking_write buf len s = Some s' \<Longrightarrow> b_rx s' = b_rx s"
  by (auto simp: uart0_blocking_write_def uart0_set_tx_def Let_def split: bind_splits)

lemma read_rx:
  "uart0_blocking_read buf len s = Some s' \<Longrightarrow> length (b_rx s') < length (b_rx s)"
  by (auto simp: uart0_blocking_read_def uart0_set_rx_def Let_def split: bind_splits if_splits)

lemma put_reply_rx [simp]: "b_rx (put_reply c s) = b_rx s"
  by (simp add: put_reply_def)

lemma boot_cmd_rx: "boot_cmd s = Some s' \<Longrightarrow> length (b_rx s') \<le> length (b_rx s)"
  by (auto simp: boot_cmd_def Let_def split: bind_splits if_splits prod.splits
      dest!: write_rx read_rx)

lemma boot_step_rx: "boot_step s = Some s' \<Longrightarrow> length (b_rx s') < length (b_rx s)"
  by (auto simp: boot_step_def split: bind_splits dest!: read_rx boot_cmd_rx)

lemma boot_loop_terminates: "\<exists>s'. boot_loop s = Some s' \<and> (b_jump s' \<noteq> None \<or> boot_step s' = None)"
proof (induction "length (b_rx s)" arbitrary: s rule: less_induct)
  case less
  show ?case
  proof (cases "b_jump s \<noteq> None \<or> boot_step s = None")
    case True
    then show ?thesis by (subst boot_loop.simps) auto
  next
    case False
    then obtain s1 where "boot_step s = Some s1" by auto
    moreover from this have "length (b_rx s1) < length (b_rx s)" by (rule boot_step_rx)
    ultimately show ?thesis using False less.hyps by (subst boot_loop.simps) simp
  qed
qed


lemma boot_loop_step: "b_jump s = None \<Longrightarrow> boot_step s = Some s' \<Longrightarrow> boot_loop s = boot_loop s'"
  by (subst boot_loop.simps) simp

section \<open>The bootloader as the target of an upload\<close>

definition boot_wr :: "byte list \<Rightarrow> boot_state \<Rightarrow> boot_state" where
  "boot_wr bs s = s\<lparr>b_rx := b_rx s @ bs\<rparr>"

definition boot_rd :: "boot_state \<Rightarrow> (byte \<times> boot_state) option" where
  "boot_rd s = do {
     s' \<leftarrow> boot_loop s;
     case b_tx s' of [] \<Rightarrow> None | c # cs \<Rightarrow> Some (c, s'\<lparr>b_tx := cs\<rparr>)
   }"

definition boot_ready :: "boot_state \<Rightarrow> bool" where
  "boot_ready s \<longleftrightarrow> frame_ok (b_frame s) \<and> b_rx s = [] \<and> b_tx s = [] \<and> b_jump s = None"

lemma boot_wr_simps [simp]:
  "b_frame (boot_wr bs s) = b_frame s" "b_mem (boot_wr bs s) = b_mem s" "b_tx (boot_wr bs s) = b_tx s"
  "b_mem_ptr (boot_wr bs s) = b_mem_ptr s" "b_jump (boot_wr bs s) = b_jump s"
  "b_rx (boot_wr bs s) = b_rx s @ bs" "boot_own (boot_wr bs s) = boot_own s"
  by (simp_all add: boot_wr_def boot_own_def)

lemma boot_serves:
  assumes ready: "boot_ready s" and step: "boot_step (boot_wr bs s) = Some s'"
    and rep: "replied (boot_wr bs s) c [] s'"
  shows "boot_rd (boot_wr bs s) = Some (c, s'\<lparr>b_tx := []\<rparr>)"
proof -
  have "boot_loop s' = Some s'"
    using rep by (subst boot_loop.simps) (simp add: boot_step_none replied_def)
  then have "boot_loop (boot_wr bs s) = Some s'"
    using ready step by (subst boot_loop.simps) (simp add: boot_ready_def)
  then show ?thesis using rep ready by (simp add: boot_rd_def replied_def boot_ready_def)
qed

lemma boot_set_addr:
  assumes "boot_ready s"
  shows "\<exists>s'. boot_rd (boot_wr (addr_packet a) s) = Some (ch (CHR ''O''), s') \<and> boot_ready s'
    \<and> b_mem_ptr s' = a \<and> boot_own s' = boot_own s \<and> (\<forall>x. x \<notin> boot_own s \<longrightarrow> b_mem s' x = b_mem s x)"
proof -
  let ?s = "boot_wr (addr_packet a) s"
  have fr: "frame_ok (b_frame ?s)"
    and rx: "b_rx ?s = ch (CHR ''a'') # (le_bytes a @ [xor_bytes (le_bytes a)]) @ []"
    using assms by (simp_all add: boot_ready_def addr_packet_def)
  from step_addr [OF fr rx length_le_bytes] obtain s' where
    s': "boot_step ?s = Some s'" "agree ?s s'" "b_jump s' = b_jump ?s"
      "replied ?s (ch (CHR ''O'')) [] s'" "le_bytes (b_mem_ptr s') = le_bytes a"
    by auto
  have "b_mem_ptr s' = a"
    using s'(5) by (simp add: le_bytes_inj)
  with boot_serves [OF assms s'(1,4)] s' assms show ?thesis
    by (auto simp: boot_ready_def agree_def replied_def boot_own_def)
qed

lemma boot_write_ok:
  assumes "boot_ready s" and "length xs = 16" and "region (b_mem_ptr s) 16 \<inter> boot_own s = {}"
  shows "\<exists>s'. boot_rd (boot_wr (write_packet xs) s) = Some (ch (CHR ''O''), s') \<and> boot_ready s'
    \<and> b_mem_ptr s' = b_mem_ptr s + 16 \<and> boot_own s' = boot_own s
    \<and> (\<forall>x. x \<notin> boot_own s \<longrightarrow> b_mem s' x = store_bytes (b_mem s) (b_mem_ptr s) xs x)"
proof -
  let ?s = "boot_wr (write_packet xs) s"
  have fr: "frame_ok (b_frame ?s)"
    and rx: "b_rx ?s = ch (CHR ''w'') # (xs @ [xor_bytes xs]) @ []"
    using assms by (simp_all add: boot_ready_def write_packet_def)
  have "region (b_mem_ptr ?s) 16 \<inter> boot_own ?s = {}" using assms(3) by simp
  from step_write [OF fr rx assms(2) this] obtain s' where
    s': "boot_step ?s = Some s'" "b_jump s' = b_jump ?s" "replied ?s (ch (CHR ''O'')) [] s'"
      "b_mem_ptr s' = b_mem_ptr s + 16"
      "\<forall>x. x \<notin> boot_own s \<longrightarrow> b_mem s' x = store_bytes (b_mem s) (b_mem_ptr s) xs x"
    by auto
  with boot_serves [OF assms(1) s'(1,3)] assms(1) show ?thesis
    by (auto simp: boot_ready_def replied_def boot_own_def)
qed

lemma boot_jump_ok:
  assumes "boot_ready s"
  shows "\<exists>s'. boot_rd (boot_wr jump_packet s) = Some (ch (CHR ''O''), s')
    \<and> b_jump s' = Some (b_mem_ptr s) \<and> (\<forall>x. x \<notin> boot_own s \<longrightarrow> b_mem s' x = b_mem s x)"
proof -
  let ?s = "boot_wr jump_packet s"
  have fr: "frame_ok (b_frame ?s)" and rx: "b_rx ?s = ch (CHR ''j'') # []"
    using assms by (simp_all add: boot_ready_def jump_packet_def)
  from step_jump [OF fr rx] obtain s' where
    s': "boot_step ?s = Some s'" "agree ?s s'" "replied ?s (ch (CHR ''O'')) [] s'"
      "b_jump s' = Some (b_mem_ptr ?s)"
    by blast
  with boot_serves [OF assms s'(1,3)] show ?thesis by (auto simp: agree_def)
qed

interpretation boot: boot_target boot_wr boot_rd b_mem b_mem_ptr b_jump boot_ready boot_own
  by unfold_locales (fact boot_set_addr boot_write_ok boot_jump_ok)+


section \<open>Properties\<close>

lemma boot_reset_ok:
  "frame_ok (b_frame (boot_reset rx))" "boot_ready (boot_reset [])"
  "region 0x10000 16 \<inter> boot_own (boot_reset rx) = {}"
proof -
  have "region 0xFD0 17 \<inter> region 0x2000 17 = {}" by (rule region_disjoint) simp_all
  then show fr: "frame_ok (b_frame (boot_reset rx))" for rx by (simp add: frame_ok_def boot_reset_def)
  then show "boot_ready (boot_reset [])" using fr [of "[]"] by (simp add: boot_ready_def boot_reset_def)
  have "region 0x10000 16 \<inter> region 0xFD0 17 = {}" "region 0x10000 16 \<inter> region 0xFCC 4 = {}"
    "region 0x10000 16 \<inter> region 0x2000 17 = {}"
    by (rule region_disjoint(2); simp)+
  then show "region 0x10000 16 \<inter> boot_own (boot_reset rx) = {}"
    by (auto simp: boot_own_def boot_reset_def)
qed


text \<open>C3 A write packet in which exactly one of the 17 payload bytes was corrupted on the line is
  answered with \<open>E\<close>; the write pointer does not move and no memory outside the loader's own buffers changes.\<close>

theorem corrupted_write_rejected:
  assumes "frame_ok (b_frame s)" and "length xs = 16"
    and "i < 17" and "b \<noteq> (xs @ [xor_bytes xs]) ! i"
    and "b_rx s = ch (CHR ''w'') # (xs @ [xor_bytes xs])[i := b] @ rest"
    and "region (b_mem_ptr s) 16 \<inter> boot_own s = {}"
  shows "\<exists>s'. boot_step s = Some s' \<and> b_tx s' = b_tx s @ [ch (CHR ''E'')] \<and> b_rx s' = rest
    \<and> b_mem_ptr s' = b_mem_ptr s \<and> (\<forall>x. x \<notin> boot_own s \<longrightarrow> b_mem s' x = b_mem s x)"
proof -
  let ?ys = "(xs @ [xor_bytes xs])[i := b]"
  define ys where "ys = take 16 ?ys"
  have split: "?ys = ys @ [?ys ! 16]" and len: "length ys = 16"
    using assms(2) take_Suc_conv_app_nth [of 16 ?ys] by (simp_all add: ys_def)
  have ne: "xor_bytes ys \<noteq> ?ys ! 16"
  proof (cases "i = 16")
    case True
    then have "ys = xs" "?ys ! 16 = b" using assms(2) by (simp_all add: ys_def list_update_append nth_append)
    then show ?thesis using assms(2,4) True by (auto simp: nth_append)
  next
    case False
    then have i: "i < length xs" using assms(2,3) by simp
    then have "ys = xs[i := b]" "?ys ! 16 = xor_bytes xs"
      using assms(2) by (simp_all add: ys_def list_update_append nth_append)
    then show ?thesis
      using assms(4) i by (simp add: xor_bytes_update word_xor_cancel nth_append)
  qed
  have rx: "b_rx s = ch (CHR ''w'') # (ys @ [?ys ! 16]) @ rest" using assms(5) split by simp
  show ?thesis
    by (rule step_write [OF assms(1) rx len assms(6)]) (use ne in \<open>auto simp: replied_def agree_def\<close>)
qed

theorem corrupted_write_rejected_witness:
  "\<exists>s'. boot_step (boot_reset (ch (CHR ''w'') # replicate 15 0 @ [4, 0])) = Some s'
     \<and> b_tx s' = [ch (CHR ''E'')] \<and> b_mem_ptr s' = 0x10000"
proof -
  let ?xs = "replicate 16 0 :: byte list" and ?in = "ch (CHR ''w'') # replicate 15 0 @ [4, 0]"
  have x: "xor_bytes ?xs = 0" by code_simp
  have upd: "(?xs @ [0])[15 := 4] = replicate 15 0 @ [4, 0]" by code_simp
  have nth: "(?xs @ [0]) ! 15 = 0" by code_simp
  show ?thesis
    using corrupted_write_rejected [of "boot_reset ?in" ?xs 15 4 "[]"] boot_reset_ok
    unfolding x upd nth by (auto simp: boot_reset_def)
qed

text \<open>C2 A block written with \<open>w\<close> reads back unchanged: writing, moving the pointer back with \<open>a\<close> and
  reading with \<open>r\<close> replies \<open>O\<close>, \<open>O\<close> and then exactly the 16 bytes with their checksum.\<close>

theorem write_read_roundtrip:
  assumes "boot_ready s" and "length xs = 16" and "region (b_mem_ptr s) 16 \<inter> boot_own s = {}"
    and "b_mem_ptr s = p"
  shows "\<exists>s'. boot_loop (boot_wr (write_packet xs @ addr_packet p @ [ch (CHR ''r'')]) s) = Some s'
    \<and> b_tx s' = [ch (CHR ''O''), ch (CHR ''O'')] @ xs @ [xor_bytes xs]"
proof -
  let ?s = "boot_wr (write_packet xs @ addr_packet p @ [ch (CHR ''r'')]) s"
  have fr: "frame_ok (b_frame ?s)" and j: "b_jump ?s = None" using assms(1) by (simp_all add: boot_ready_def)
  have rx: "b_rx ?s = ch (CHR ''w'') # (xs @ [xor_bytes xs]) @ (addr_packet p @ [ch (CHR ''r'')])"
    using assms(1) by (simp add: boot_ready_def write_packet_def)
  obtain s1 where s1: "boot_step ?s = Some s1" "b_jump s1 = None"
    "b_frame s1 = b_frame s" "b_rx s1 = addr_packet p @ [ch (CHR ''r'')]" "b_tx s1 = [ch (CHR ''O'')]"
    "\<And>x. x \<notin> boot_own s \<Longrightarrow> b_mem s1 x = store_bytes (b_mem s) p xs x"
  proof (rule step_write [OF fr rx assms(2)])
    show "region (b_mem_ptr ?s) 16 \<inter> boot_own ?s = {}" using assms(3) by simp
  qed (use assms(1,4) that in \<open>auto simp: replied_def boot_ready_def\<close>)
  have fr1: "frame_ok (b_frame s1)" using fr s1(3) by simp
  have rx1: "b_rx s1 = ch (CHR ''a'') # (le_bytes p @ [xor_bytes (le_bytes p)]) @ [ch (CHR ''r'')]"
    by (simp add: s1(4) addr_packet_def)
  obtain s2 where s2: "boot_step s1 = Some s2" "b_jump s2 = None" "b_frame s2 = b_frame s"
    "b_rx s2 = [ch (CHR ''r'')]" "b_tx s2 = [ch (CHR ''O''), ch (CHR ''O'')]" "b_mem_ptr s2 = p"
    "\<And>x. x \<notin> boot_own s \<Longrightarrow> b_mem s2 x = b_mem s1 x"
    by (rule step_addr [OF fr1 rx1 length_le_bytes])
      (use s1 that in \<open>auto simp: replied_def agree_def le_bytes_inj boot_own_frame [OF s1(3)]\<close>)
  have own2: "boot_own s2 = boot_own s" using s2(3) by (rule boot_own_frame)
  have "bytes_at (b_mem s2) p 16 = bytes_at (store_bytes (b_mem s) p xs) p 16"
    using assms(3,4) s1(6) s2(7) by (intro bytes_at_cong) auto
  then have data: "bytes_at (b_mem s2) p 16 = xs" using bytes_at_store [of xs "b_mem s" p] assms(2) by simp
  have fr2: "frame_ok (b_frame s2)" using fr s2(3) by simp
  obtain s3 where s3: "boot_step s2 = Some s3" "b_jump s3 = None" "b_rx s3 = []"
    "b_tx s3 = [ch (CHR ''O''), ch (CHR ''O'')] @ xs @ [xor_bytes xs]"
  proof (rule step_read [OF fr2 s2(4)])
    show "region (b_mem_ptr s2) 16 \<inter> boot_own s2 = {}" using assms(3,4) s2(6) own2 by simp
  qed (use s2 data that in auto)
  have "boot_loop s3 = Some s3" using s3 by (subst boot_loop.simps) (simp add: boot_step_none)
  then have "boot_loop ?s = Some s3"
    by (simp only: boot_loop_step [OF j s1(1)] boot_loop_step [OF s1(2) s2(1)]
        boot_loop_step [OF s2(2) s3(1)])
  with s3(4) show ?thesis by blast
qed

theorem write_read_roundtrip_witness:
  "\<exists>s'. boot_loop (boot_wr (write_packet (replicate 16 7) @ addr_packet 0x10000 @ [ch (CHR ''r'')])
       (boot_reset [])) = Some s'
     \<and> b_tx s' = [ch (CHR ''O''), ch (CHR ''O'')] @ replicate 16 7 @ [0]"
proof -
  have "xor_bytes (replicate 16 7) = 0" by (simp add: numeral_eq_Suc)
  then show ?thesis
    using write_read_roundtrip [of "boot_reset []" "replicate 16 7" "0x10000"] boot_reset_ok
    by (simp add: boot_reset_def)
qed

text \<open>C6 The loop reads 17 bytes into \<open>buf\<close>, which is declared with 16: every \<open>w\<close> command overwrites
  the byte just behind the array with the checksum of the packet.\<close>

theorem write_overruns_buf:
  assumes "frame_ok (b_frame s)" and "length xs = 16"
    and "b_rx s = ch (CHR ''w'') # (xs @ [ck]) @ rest"
    and "region (b_mem_ptr s) 16 \<inter> boot_own s = {}"
  shows "\<exists>s'. boot_step s = Some s' \<and> b_mem s' (f_buf (b_frame s) + 16) = ck"
  using step_write [OF assms(1,3,2,4)] by metis

theorem write_overruns_buf_witness:
  "\<exists>s'. boot_step (boot_reset (ch (CHR ''w'') # replicate 16 0 @ [9])) = Some s' \<and> b_mem s' 0xFE0 = 9"
  using write_overruns_buf [of "boot_reset (ch (CHR ''w'') # replicate 16 0 @ [9])" "replicate 16 0" 9 "[]"]
    boot_reset_ok
  by (simp add: boot_reset_def)

end
