(* ===== verification/Boot_Client.thy ===== *)
theory Boot_Client
  imports Boot_Protocol Boot
begin

text \<open>
  The host side of an upload (\<open>tools/bootloader_uart_client.c\<close>).  The serial device is reached through
  \<open>write\<close> and \<open>read\<close> of the host's operating system, the parameters \<open>wr\<close> and \<open>rd\<close>; the image file is
  the list of its bytes, of which \<open>read\<close> returns up to 16 at a time.  \<open>errx\<close> is the left value of a
  sum.  Host pointers are 64 bits wide and little-endian; the protocol sends their low 32 bits.
\<close>

datatype client_error = SetAddressError byte | JmpError | WriteError byte | NoReply

definition host_cksum :: "byte list \<Rightarrow> uint" where
  "host_cksum buf = foldl (\<lambda>c i. c XOR ucast (buf ! i)) 0 [0..<16]"

definition set_address ::
  "(byte list \<Rightarrow> 'd \<Rightarrow> 'd) \<Rightarrow> ('d \<Rightarrow> (byte \<times> 'd) option) \<Rightarrow> 64 word \<Rightarrow> 'd \<Rightarrow> client_error + 'd" where
  "set_address wr rd address d =
     (let b1 = ucast address; b2 = ucast (drop_bit 8 address);
          b3 = ucast (drop_bit 16 address); b4 = ucast (drop_bit 24 address);
          b5 = b1 XOR b2 XOR b3 XOR b4
      in case rd (wr [ch (CHR ''a''), b1, b2, b3, b4, b5] d) of
           None \<Rightarrow> Inl NoReply
         | Some (c, d') \<Rightarrow> if c \<noteq> ch (CHR ''O'') then Inl (SetAddressError c) else Inr d')"

definition initiate_jmp ::
  "(byte list \<Rightarrow> 'd \<Rightarrow> 'd) \<Rightarrow> ('d \<Rightarrow> (byte \<times> 'd) option) \<Rightarrow> 64 word \<Rightarrow> 'd \<Rightarrow> client_error + 'd" where
  "initiate_jmp wr rd address d =
     (case rd (wr [ch (CHR ''j'')] d) of
        None \<Rightarrow> Inl NoReply
      | Some (c, d') \<Rightarrow> if c \<noteq> ch (CHR ''O'') then Inl JmpError else Inr d')"

definition write_data ::
  "(byte list \<Rightarrow> 'd \<Rightarrow> 'd) \<Rightarrow> ('d \<Rightarrow> (byte \<times> 'd) option) \<Rightarrow> byte list \<Rightarrow> 'd \<Rightarrow> client_error + 'd" where
  "write_data wr rd data d =
     (let buf = take 16 data
      in case rd (wr (ch (CHR ''w'') # buf @ [ucast (host_cksum buf)]) d) of
           None \<Rightarrow> Inl NoReply
         | Some (c, d') \<Rightarrow> if c \<noteq> ch (CHR ''O'') then Inl (WriteError c) else Inr d')"

function load_loop ::
  "(byte list \<Rightarrow> 'd \<Rightarrow> 'd) \<Rightarrow> ('d \<Rightarrow> (byte \<times> 'd) option) \<Rightarrow> byte list \<Rightarrow> 'd \<Rightarrow> client_error + 'd" where
  "load_loop wr rd file d =
     (let chunk = take 16 file; rcount = length chunk; buf = chunk @ replicate (16 - rcount) 0
      in if rcount > 0 then
           case write_data wr rd buf d of
             Inl e \<Rightarrow> Inl e
           | Inr d' \<Rightarrow> if rcount < 16 then Inr d' else load_loop wr rd (drop 16 file) d'
         else Inr d)"
  by pat_completeness auto
termination
  by (relation "measure (\<lambda>(wr, rd, file, d). length file)") auto

definition client_main ::
  "(byte list \<Rightarrow> 'd \<Rightarrow> 'd) \<Rightarrow> ('d \<Rightarrow> (byte \<times> 'd) option) \<Rightarrow> byte list \<Rightarrow> 64 word \<Rightarrow> 64 word
    \<Rightarrow> 'd \<Rightarrow> client_error + 'd" where
  "client_main wr rd file load_address jmp_address d =
     (case set_address wr rd load_address d of Inl e \<Rightarrow> Inl e | Inr d1 \<Rightarrow>
      (case load_loop wr rd file d1 of Inl e \<Rightarrow> Inl e | Inr d2 \<Rightarrow>
      (case set_address wr rd jmp_address d2 of Inl e \<Rightarrow> Inl e | Inr d3 \<Rightarrow>
       initiate_jmp wr rd jmp_address d3)))"

declare load_loop.simps [simp del]

text \<open>What ends up in the target's memory: the image, filled with zeros to whole 16-byte blocks.\<close>

definition padded :: "byte list \<Rightarrow> byte list" where
  "padded file = file @ replicate ((16 - length file mod 16) mod 16) 0"

section \<open>Packets\<close>

lemma set_address_packet:
  "[ch (CHR ''a''), ucast a, ucast (drop_bit 8 a), ucast (drop_bit 16 a), ucast (drop_bit 24 a),
    ucast a XOR ucast (drop_bit 8 a) XOR ucast (drop_bit 16 a) XOR ucast (drop_bit 24 a)]
   = addr_packet (ucast a)" for a :: "64 word"
proof -
  have "le_bytes (ucast a)
      = [ucast a, ucast (drop_bit 8 a), ucast (drop_bit 16 a), ucast (drop_bit 24 a)]"
    by (auto simp: le_bytes_def bit_simps intro!: bit_word_eqI)
  then show ?thesis by (simp add: addr_packet_def xor.assoc)
qed

lemma host_cksum_xor: "length xs = 16 \<Longrightarrow> ucast (host_cksum xs) = xor_bytes xs"
proof -
  assume len: "length xs = 16"
  have "foldl (\<lambda>c i. c XOR ucast (xs ! i)) (a :: uint) [0..<n] = a XOR ucast (xor_bytes (take n xs))"
    if "n \<le> length xs" for n a
    using that
  proof (induction n)
    case (Suc n)
    then show ?case
      by (simp add: take_Suc_conv_app_nth xor_bytes_append unsigned_xor_eq xor.assoc)
  qed simp
  from this [of 16 0] len show ?thesis
    unfolding host_cksum_def by (simp only: xor.left_neutral take_all ucast_ucast_byte order_refl)
qed

lemma padded_short:
  "length file < 16 \<Longrightarrow> file \<noteq> [] \<Longrightarrow> padded file = file @ replicate (16 - length file) 0"
  by (simp add: padded_def)

lemma padded_nil [simp]: "padded [] = []"
  by (simp add: padded_def)

lemma padded_chunk: "16 \<le> length file \<Longrightarrow> padded file = take 16 file @ padded (drop 16 file)"
proof -
  assume "16 \<le> length file"
  then have "length file mod 16 = (length file - 16) mod 16" by (simp add: le_mod_geq)
  then show ?thesis by (simp add: padded_def)
qed

lemma set_address_eq:
  "set_address wr rd a d = (case rd (wr (addr_packet (ucast a)) d) of
     None \<Rightarrow> Inl NoReply
   | Some (c, d') \<Rightarrow> if c \<noteq> ch (CHR ''O'') then Inl (SetAddressError c) else Inr d')"
  unfolding set_address_def Let_def set_address_packet by (rule refl)

section \<open>An upload against any device that keeps the contract\<close>

context boot_target
begin

lemma set_address_ok:
  assumes "ready d"
  obtains d' where "set_address wr rd a d = Inr d'" and "ready d'" and "ptr d' = ucast a"
    and "own d' = own d" and "\<And>x. x \<notin> own d \<Longrightarrow> mem_of d' x = mem_of d x"
  using set_addr [OF assms, of "ucast a"] that
  by (auto simp: set_address_eq)

lemma write_data_ok:
  assumes "ready d" and "length xs = 16" and "region (ptr d) 16 \<inter> own d = {}"
  obtains d' where "write_data wr rd xs d = Inr d'" and "ready d'" and "ptr d' = ptr d + 16"
    and "own d' = own d" and "\<And>x. x \<notin> own d \<Longrightarrow> mem_of d' x = store_bytes (mem_of d) (ptr d) xs x"
proof -
  have "write_packet xs = ch (CHR ''w'') # take 16 xs @ [ucast (host_cksum (take 16 xs))]"
    using assms(2) by (simp add: write_packet_def host_cksum_xor)
  then show ?thesis using write_ok [OF assms] that by (auto simp: write_data_def Let_def)
qed

lemma load_loop_ok:
  assumes "ready d" and "region (ptr d) (length (padded img)) \<inter> own d = {}"
  shows "\<exists>d'. load_loop wr rd img d = Inr d' \<and> ready d' \<and> own d' = own d
    \<and> (\<forall>x. x \<notin> own d \<longrightarrow> mem_of d' x = store_bytes (mem_of d) (ptr d) (padded img) x)"
  using assms
proof (induction "length img" arbitrary: img d rule: less_induct)
  case less
  let ?buf = "take 16 img @ replicate (16 - length (take 16 img)) 0"
  show ?case
  proof (cases "img = []")
    case True
    then show ?thesis using less.prems by (auto simp: load_loop.simps)
  next
    case ne: False
    have pad: "padded img = ?buf @ padded (drop 16 img)"
      using ne by (cases "length img < 16") (auto simp: padded_short padded_chunk not_less)
    have "region (ptr d) 16 \<subseteq> region (ptr d) (length (padded img))"
      by (rule region_mono) (simp add: pad)
    then have dis: "region (ptr d) 16 \<inter> own d = {}" using less.prems(2) by blast
    have len: "length ?buf = 16" by simp
    obtain d1 where d1: "write_data wr rd ?buf d = Inr d1" "ready d1" "ptr d1 = ptr d + 16"
      "own d1 = own d" "\<And>x. x \<notin> own d \<Longrightarrow> mem_of d1 x = store_bytes (mem_of d) (ptr d) ?buf x"
      using write_data_ok [OF less.prems(1) _ dis, of ?buf] by (metis len)
    show ?thesis
    proof (cases "length img < 16")
      case True
      then show ?thesis
        using d1 ne pad by (intro exI [of _ d1]) (auto simp: load_loop.simps)
    next
      case False
      have "region (ptr d1) (length (padded (drop 16 img))) \<subseteq> region (ptr d) (length (padded img))"
        using region_shift [of 16 "length (padded (drop 16 img))" "length (padded img)" "ptr d"]
        by (simp add: d1(3) pad)
      then have "region (ptr d1) (length (padded (drop 16 img))) \<inter> own d1 = {}"
        using less.prems(2) d1(4) by blast
      moreover have "length (drop 16 img) < length img" using ne by simp
      ultimately obtain d2 where d2: "load_loop wr rd (drop 16 img) d1 = Inr d2" "ready d2"
        "own d2 = own d1"
        "\<forall>x. x \<notin> own d1 \<longrightarrow> mem_of d2 x = store_bytes (mem_of d1) (ptr d1) (padded (drop 16 img)) x"
        using less.hyps d1(2) by blast
      have "mem_of d2 x = store_bytes (mem_of d) (ptr d) (padded img) x" if "x \<notin> own d" for x
      proof -
        have "mem_of d2 x = store_bytes (store_bytes (mem_of d) (ptr d) ?buf) (ptr d1)
            (padded (drop 16 img)) x"
          using that d1 d2 by (auto intro: store_bytes_cong)
        then show ?thesis by (simp only: pad store_bytes_append len d1(3)) simp
      qed
      then show ?thesis
        using False d1 d2 by (intro exI [of _ d2]) (auto simp: load_loop.simps [of wr rd img])
    qed
  qed
qed

lemma upload_ok:
  assumes "ready d" and "region (ucast load) (length (padded img)) \<inter> own d = {}"
  obtains d' where "client_main wr rd img load jmp d = Inr d'" and "jumped d' = Some (ucast jmp)"
    and "\<And>x. x \<notin> own d \<Longrightarrow> mem_of d' x = store_bytes (mem_of d) (ucast load) (padded img) x"
proof -
  obtain d1 where d1: "set_address wr rd load d = Inr d1" "ready d1" "ptr d1 = ucast load"
    "own d1 = own d" "\<And>x. x \<notin> own d \<Longrightarrow> mem_of d1 x = mem_of d x"
    using set_address_ok [OF assms(1), where a = load] by metis
  have "region (ptr d1) (length (padded img)) \<inter> own d1 = {}" using assms(2) d1 by simp
  from load_loop_ok [OF d1(2) this] obtain d2 where d2: "load_loop wr rd img d1 = Inr d2" "ready d2"
    "own d2 = own d1" "\<And>x. x \<notin> own d1 \<Longrightarrow> mem_of d2 x = store_bytes (mem_of d1) (ptr d1) (padded img) x"
    by blast
  obtain d3 where d3: "set_address wr rd jmp d2 = Inr d3" "ready d3" "ptr d3 = ucast jmp"
    "own d3 = own d2" "\<And>x. x \<notin> own d2 \<Longrightarrow> mem_of d3 x = mem_of d2 x"
    using set_address_ok [OF d2(2), where a = jmp] by metis
  obtain d4 where d4: "initiate_jmp wr rd jmp d3 = Inr d4" "jumped d4 = Some (ptr d3)"
    "\<And>x. x \<notin> own d3 \<Longrightarrow> mem_of d4 x = mem_of d3 x"
    using jump [OF d3(2)] by (auto simp: initiate_jmp_def jump_packet_def)
  show ?thesis
  proof (rule that [of d4])
    show "client_main wr rd img load jmp d = Inr d4" by (simp add: client_main_def d1 d2 d3 d4)
    show "jumped d4 = Some (ucast jmp)" by (simp add: d4 d3)
    show "mem_of d4 x = store_bytes (mem_of d) (ucast load) (padded img) x" if "x \<notin> own d" for x
      using that d1 d2 d3 d4 by (auto intro: store_bytes_cong)
  qed
qed

end


section \<open>Properties\<close>

text \<open>C1 An upload of an image with the UART client to a bootloader that waits for commands succeeds:
  the image is in memory at the load address, memory outside it (filled up to whole blocks) and outside
  the loader's own buffers is unchanged, and the bootloader has jumped to the jump address.\<close>

theorem upload_reaches_memory:
  assumes "boot_ready s" and "length (padded img) \<le> 2 ^ 32"
    and "region (ucast load) (length (padded img)) \<inter> boot_own s = {}"
  shows "\<exists>s'. client_main boot_wr boot_rd img load jmp s = Inr s' \<and> b_jump s' = Some (ucast jmp)
    \<and> bytes_at (b_mem s') (ucast load) (length img) = img
    \<and> (\<forall>x. x \<notin> boot_own s \<union> region (ucast load) (length (padded img)) \<longrightarrow> b_mem s' x = b_mem s x)"
proof -
  let ?l = "ucast load :: addr"
  obtain s' where s': "client_main boot_wr boot_rd img load jmp s = Inr s'" "b_jump s' = Some (ucast jmp)"
    "\<And>x. x \<notin> boot_own s \<Longrightarrow> b_mem s' x = store_bytes (b_mem s) ?l (padded img) x"
    using boot.upload_ok [OF assms(1,3)] by metis
  have "bytes_at (b_mem s') ?l (length (padded img)) = padded img"
  proof -
    have "bytes_at (b_mem s') ?l (length (padded img))
        = bytes_at (store_bytes (b_mem s) ?l (padded img)) ?l (length (padded img))"
      using s'(3) assms(3) by (intro bytes_at_cong) auto
    then show ?thesis using bytes_at_store [OF assms(2)] by simp
  qed
  moreover have "length img \<le> length (padded img)" "take (length img) (padded img) = img"
    by (simp_all add: padded_def)
  ultimately have "bytes_at (b_mem s') ?l (length img) = img"
    by (metis take_bytes_at)
  with s' show ?thesis by (auto simp: store_bytes_other)
qed

theorem upload_reaches_memory_witness:
  "\<exists>s'. client_main boot_wr boot_rd [0x13, 0x37, 0x42] 0x10000 0x10000 (boot_reset []) = Inr s'
     \<and> b_jump s' = Some 0x10000 \<and> bytes_at (b_mem s') 0x10000 3 = [0x13, 0x37, 0x42]"
proof -
  have "length (padded [0x13, 0x37, 0x42]) = 16" by (simp add: padded_def)
  then show ?thesis
    using upload_reaches_memory [of "boot_reset []" "[0x13, 0x37, 0x42]" "0x10000" "0x10000"] boot_reset_ok
    by (auto simp: numeral_3_eq_3)
qed

end
