(* ===== verification/Bt_Client.thy ===== *)
theory Bt_Client
  imports Boot_Client
begin

text \<open>
  The upload client for Bluetooth (\<open>tools/bluetooth/bluetooth_bootloader_client/bluetooth_bootloader_client.c\<close>).  It speaks the
  protocol of the UART client, but as callbacks of an event loop: \<open>write_cb\<close> when the image file can be read, \<open>events_handler\<close>
  when the Bluetooth module notifies a reply.  The static variables are the record \<open>bt\<close>; \<open>exit(1)\<close> is the left value of a sum.

  GLib and BlueZ are parameters: \<open>gatt_write\<close> sends a write command to a characteristic, \<open>confirm\<close> sends the confirmation of an
  indication, \<open>read_chars\<close> is \<open>g_io_channel_read_chars\<close> on the image file.  A watch on the file is a flag.
\<close>

section \<open>Definitions\<close>

datatype bt_error = Invalid_state | Read_error | Invalid_response byte

datatype RESPONSE_STATE = R_EXPECT_OK

datatype GIOStatus = G_IO_STATUS_NORMAL | G_IO_STATUS_EOF | G_IO_STATUS_OTHER

record ('d, 'f) bt =
  write_complete :: bool
  response_received :: bool
  jmp_addr_done :: bool
  jmp_initiated :: bool
  write_buf :: "byte list"
  write_addr :: uint
  jmp_addr :: uint
  w_addr_set :: bool
  resp_state :: RESPONSE_STATE
  BHND :: "16 word"
  wchan :: 'f
  watch :: bool
  quit :: bool
  attrib :: 'd

type_synonym 'd gatt = "16 word \<Rightarrow> byte list \<Rightarrow> 'd \<Rightarrow> 'd"

definition write_complete_cb :: "('d, 'f) bt \<Rightarrow> ('d, 'f) bt" where
  "write_complete_cb s = s\<lparr>write_complete := True\<rparr>"

definition write_cmd :: "'d gatt \<Rightarrow> nat \<Rightarrow> ('d, 'f) bt \<Rightarrow> ('d, 'f) bt" where
  "write_cmd gatt_write vlen s = s\<lparr>attrib := gatt_write (BHND s) (take vlen (write_buf s)) (attrib s)\<rparr>"

definition write_bootloader_initiate_jmp :: "'d gatt \<Rightarrow> ('d, 'f) bt \<Rightarrow> ('d, 'f) bt" where
  "write_bootloader_initiate_jmp gatt_write s =
     (let s = s\<lparr>write_buf := (write_buf s)[0 := ch (CHR ''j'')]\<rparr>;
          s = s\<lparr>resp_state := R_EXPECT_OK\<rparr>;
          s = write_cmd gatt_write 1 s
      in s\<lparr>write_complete := True\<rparr>)"

definition bt_cksum :: "byte list \<Rightarrow> uint" where
  "bt_cksum buf = foldl (\<lambda>c i. c XOR ucast (buf ! i)) 0 [0..<16]"

definition write_bootloader_data :: "'d gatt \<Rightarrow> ('d, 'f) bt \<Rightarrow> ('d, 'f) bt" where
  "write_bootloader_data gatt_write s =
     (let s = s\<lparr>write_buf := (write_buf s)[0 := ch (CHR ''w'')]\<rparr>;
          s = s\<lparr>write_buf := (write_buf s)[17 := ucast (bt_cksum (drop 1 (write_buf s)))]\<rparr>;
          s = s\<lparr>resp_state := R_EXPECT_OK\<rparr>;
          s = write_cmd gatt_write 18 s
      in s\<lparr>write_complete := True\<rparr>)"

text \<open>\<open>memcpy\<close> into the buffer, and the four bytes of an address on the little-endian host.\<close>

definition buf_put :: "byte list \<Rightarrow> nat \<Rightarrow> byte list \<Rightarrow> byte list" where
  "buf_put buf i xs = take i buf @ xs @ drop (i + length xs) buf"

definition write_bootloader_addr :: "'d gatt \<Rightarrow> uint \<Rightarrow> ('d, 'f) bt \<Rightarrow> ('d, 'f) bt" where
  "write_bootloader_addr gatt_write addr s =
     (let s = s\<lparr>write_buf := buf_put (write_buf s) 1 (le_bytes addr)\<rparr>;
          s = s\<lparr>write_buf := (write_buf s)[0 := ch (CHR ''a'')]\<rparr>;
          s = s\<lparr>write_buf := (write_buf s)[5 := write_buf s ! 1 XOR write_buf s ! 2 XOR write_buf s ! 3 XOR write_buf s ! 4]\<rparr>;
          s = s\<lparr>resp_state := R_EXPECT_OK\<rparr>;
          s = write_cmd gatt_write 6 s
      in s\<lparr>write_complete := True\<rparr>)"

text \<open>The callback returns false, which ends its watch.\<close>

definition write_cb ::
  "'d gatt \<Rightarrow> ('f \<Rightarrow> nat \<Rightarrow> GIOStatus \<times> byte list \<times> 'f) \<Rightarrow> ('d, 'f) bt \<Rightarrow> bt_error + ('d, 'f) bt" where
  "write_cb gatt_write read_chars s =
     (if \<not> write_complete s \<or> \<not> response_received s then Inl Invalid_state
      else
        let s = s\<lparr>write_complete := False, response_received := False\<rparr>;
            s = s\<lparr>write_addr := write_addr s + 16\<rparr>
        in if \<not> w_addr_set s then
             let s = s\<lparr>w_addr_set := True\<rparr>
             in Inr ((write_bootloader_addr gatt_write (write_addr s) s)\<lparr>watch := False\<rparr>)
           else
             let s = s\<lparr>write_buf := buf_put (write_buf s) 0 (replicate 16 (ch (CHR ''0'')))\<rparr>;
                 (status, data, f) = read_chars (wchan s) 16;
                 s = s\<lparr>write_buf := buf_put (write_buf s) 1 data, wchan := f\<rparr>
             in case status of
                  G_IO_STATUS_NORMAL \<Rightarrow> Inr ((write_bootloader_data gatt_write s)\<lparr>watch := False\<rparr>)
                | G_IO_STATUS_EOF \<Rightarrow>
                    let s = write_bootloader_addr gatt_write (jmp_addr s) s
                    in Inr (s\<lparr>jmp_addr_done := True, watch := False\<rparr>)
                | G_IO_STATUS_OTHER \<Rightarrow> Inl Read_error)"

definition process_response :: "'d gatt \<Rightarrow> byte list \<Rightarrow> ('d, 'f) bt \<Rightarrow> bt_error + ('d, 'f) bt" where
  "process_response gatt_write data s =
     (if write_complete s \<and> \<not> response_received s then
        (case resp_state s of R_EXPECT_OK \<Rightarrow>
           if data ! 0 = ch (CHR ''O'') then
             let s = s\<lparr>response_received := True\<rparr>
             in if \<not> jmp_addr_done s then Inr (s\<lparr>watch := True\<rparr>)
                else if \<not> jmp_initiated s then
                  let s = s\<lparr>write_complete := False, response_received := False\<rparr>;
                      s = write_bootloader_initiate_jmp gatt_write s
                  in Inr (s\<lparr>jmp_initiated := True\<rparr>)
                else Inr (s\<lparr>quit := True\<rparr>)
           else Inl (Invalid_response (data ! 0)))
      else Inr s)"

abbreviation (input) ATT_OP_HANDLE_NOTIFY :: byte where "ATT_OP_HANDLE_NOTIFY \<equiv> 0x1B"
abbreviation (input) ATT_OP_HANDLE_IND :: byte where "ATT_OP_HANDLE_IND \<equiv> 0x1D"

definition events_handler :: "'d gatt \<Rightarrow> ('d \<Rightarrow> 'd) \<Rightarrow> byte list \<Rightarrow> ('d, 'f) bt \<Rightarrow> bt_error + ('d, 'f) bt" where
  "events_handler gatt_write confirm pdu s =
     (if pdu ! 0 = ATT_OP_HANDLE_NOTIFY then process_response gatt_write (drop 3 pdu) s
      else if pdu ! 0 = ATT_OP_HANDLE_IND then Inr (s\<lparr>attrib := confirm (attrib s)\<rparr>)
      else Inr s)"

text \<open>The variables as they start, with the watch that \<open>connect_cb\<close> adds once the module is connected and the file open.\<close>

definition bt_connected :: "'f \<Rightarrow> 'd \<Rightarrow> ('d, 'f) bt" where
  "bt_connected f d = \<lparr>write_complete = True, response_received = True, jmp_addr_done = False, jmp_initiated = False,
     write_buf = replicate 24 0, write_addr = 0x10000 - 16, jmp_addr = 0x10000, w_addr_set = False, resp_state = R_EXPECT_OK,
     BHND = 0x12, wchan = f, watch = True, quit = False, attrib = d\<rparr>"

section \<open>Any order of events\<close>

text \<open>The event loop may call the callback of the file while a watch is on it, \<open>write_complete_cb\<close>, and \<open>events_handler\<close> with any
  packet, in any order.\<close>

inductive bt_event :: "'d gatt \<Rightarrow> ('d \<Rightarrow> 'd) \<Rightarrow> ('f \<Rightarrow> nat \<Rightarrow> GIOStatus \<times> byte list \<times> 'f) \<Rightarrow>
    ('d, 'f) bt \<Rightarrow> bt_error + ('d, 'f) bt \<Rightarrow> bool"
  for gatt_write confirm read_chars where
  readable: "\<not> quit s \<Longrightarrow> watch s \<Longrightarrow> bt_event gatt_write confirm read_chars s (write_cb gatt_write read_chars s)"
| packet: "\<not> quit s \<Longrightarrow> 4 \<le> length pdu \<Longrightarrow> bt_event gatt_write confirm read_chars s (events_handler gatt_write confirm pdu s)"
| written: "\<not> quit s \<Longrightarrow> bt_event gatt_write confirm read_chars s (Inr (write_complete_cb s))"

inductive bt_reach :: "'d gatt \<Rightarrow> ('d \<Rightarrow> 'd) \<Rightarrow> ('f \<Rightarrow> nat \<Rightarrow> GIOStatus \<times> byte list \<times> 'f) \<Rightarrow>
    ('d, 'f) bt \<Rightarrow> ('d, 'f) bt \<Rightarrow> bool"
  for gatt_write confirm read_chars s0 where
  start: "bt_reach gatt_write confirm read_chars s0 s0"
| event: "bt_reach gatt_write confirm read_chars s0 s \<Longrightarrow> bt_event gatt_write confirm read_chars s (Inr s') \<Longrightarrow>
    bt_reach gatt_write confirm read_chars s0 s'"

text \<open>A command is only sent when the last one is answered, and only one is on its way.\<close>

definition bt_inv :: "('d, 'f) bt \<Rightarrow> bool" where
  "bt_inv s \<longleftrightarrow> write_complete s \<and> (watch s \<longrightarrow> response_received s \<and> \<not> jmp_addr_done s) \<and> (jmp_initiated s \<longrightarrow> jmp_addr_done s)
    \<and> (jmp_addr_done s \<longrightarrow> w_addr_set s) \<and> (\<not> w_addr_set s \<longrightarrow> watch s)
    \<and> (response_received s \<longrightarrow> watch s \<or> quit s) \<and> (quit s \<longrightarrow> jmp_initiated s)"

lemmas write_bootloader_defs =
  write_bootloader_initiate_jmp_def write_bootloader_data_def write_bootloader_addr_def write_cmd_def

lemma write_bootloader_fields [simp]:
  "watch (write_bootloader_initiate_jmp g s) = watch s" "watch (write_bootloader_data g s) = watch s" "watch (write_bootloader_addr g a s) = watch s"
  "quit (write_bootloader_initiate_jmp g s) = quit s" "quit (write_bootloader_data g s) = quit s" "quit (write_bootloader_addr g a s) = quit s"
  "write_complete (write_bootloader_initiate_jmp g s)" "write_complete (write_bootloader_data g s)" "write_complete (write_bootloader_addr g a s)"
  "response_received (write_bootloader_initiate_jmp g s) = response_received s" "response_received (write_bootloader_data g s) = response_received s"
  "response_received (write_bootloader_addr g a s) = response_received s"
  "jmp_addr_done (write_bootloader_initiate_jmp g s) = jmp_addr_done s" "jmp_addr_done (write_bootloader_data g s) = jmp_addr_done s"
  "jmp_addr_done (write_bootloader_addr g a s) = jmp_addr_done s"
  "jmp_initiated (write_bootloader_initiate_jmp g s) = jmp_initiated s" "jmp_initiated (write_bootloader_data g s) = jmp_initiated s"
  "jmp_initiated (write_bootloader_addr g a s) = jmp_initiated s"
  "w_addr_set (write_bootloader_initiate_jmp g s) = w_addr_set s" "w_addr_set (write_bootloader_data g s) = w_addr_set s"
  "w_addr_set (write_bootloader_addr g a s) = w_addr_set s"
  by (simp_all add: write_bootloader_defs Let_def)

lemma write_cb_first:
  "write_complete s \<Longrightarrow> response_received s \<Longrightarrow> \<not> w_addr_set s \<Longrightarrow>
    write_cb g r s = Inr ((write_bootloader_addr g (write_addr s + 16)
      (s\<lparr>write_complete := False, response_received := False, write_addr := write_addr s + 16, w_addr_set := True\<rparr>))\<lparr>watch := False\<rparr>)"
  by (simp add: write_cb_def)

text \<open>What a block is sent from: the buffer after \<open>memset\<close> and \<open>read\<close>.\<close>

definition filled :: "byte list \<Rightarrow> byte list \<Rightarrow> byte list" where
  "filled buf data = buf_put (buf_put buf 0 (replicate 16 (ch (CHR ''0'')))) 1 data"

definition reading :: "byte list \<Rightarrow> 'f \<Rightarrow> ('d, 'f) bt \<Rightarrow> ('d, 'f) bt" where
  "reading data f s = s\<lparr>write_complete := False, response_received := False, write_addr := write_addr s + 16,
     write_buf := filled (write_buf s) data, wchan := f\<rparr>"

lemma write_cb_block:
  "write_complete s \<Longrightarrow> response_received s \<Longrightarrow> w_addr_set s \<Longrightarrow> r (wchan s) 16 = (st, data, f) \<Longrightarrow>
    write_cb g r s = (case st of
      G_IO_STATUS_NORMAL \<Rightarrow> Inr ((write_bootloader_data g (reading data f s))\<lparr>watch := False\<rparr>)
    | G_IO_STATUS_EOF \<Rightarrow> Inr ((write_bootloader_addr g (jmp_addr s) (reading data f s))\<lparr>jmp_addr_done := True, watch := False\<rparr>)
    | G_IO_STATUS_OTHER \<Rightarrow> Inl Read_error)"
  by (cases st) (simp_all add: write_cb_def reading_def filled_def)

lemma write_cb_inv:
  assumes "bt_inv s" and "watch s" and "\<not> quit s"
  shows "write_cb g r s \<noteq> Inl Invalid_state" and "write_cb g r s = Inr s' \<Longrightarrow> bt_inv s'"
proof -
  have s: "write_complete s" "response_received s" using assms by (simp_all add: bt_inv_def)
  obtain st data f where r: "r (wchan s) 16 = (st, data, f)" by (cases "r (wchan s) 16")
  have "write_cb g r s \<noteq> Inl Invalid_state \<and> (write_cb g r s = Inr s' \<longrightarrow> bt_inv s')"
  proof (cases "w_addr_set s")
    case False
    then show ?thesis using assms by (auto simp: write_cb_first [OF s] bt_inv_def)
  next
    case True
    then show ?thesis using assms
      by (cases st) (auto simp: write_cb_block [OF s True, of r, OF r] reading_def bt_inv_def)
  qed
  then show "write_cb g r s \<noteq> Inl Invalid_state" and "write_cb g r s = Inr s' \<Longrightarrow> bt_inv s'" by simp_all
qed

lemma process_response_cases:
  assumes "write_complete s" and "\<not> response_received s"
  shows "process_response g (c # data) s =
    (if c \<noteq> ch (CHR ''O'') then Inl (Invalid_response c)
     else if \<not> jmp_addr_done s then Inr (s\<lparr>response_received := True, watch := True\<rparr>)
     else if \<not> jmp_initiated s then
       Inr ((write_bootloader_initiate_jmp g (s\<lparr>response_received := True, write_complete := False, response_received := False\<rparr>))\<lparr>jmp_initiated := True\<rparr>)
     else Inr (s\<lparr>response_received := True, quit := True\<rparr>))"
  using assms by (cases "resp_state s") (simp add: process_response_def)

lemma process_response_inv:
  assumes "bt_inv s" and "\<not> quit s"
  shows "process_response g (c # data) s \<noteq> Inl Invalid_state" and "process_response g (c # data) s = Inr s' \<Longrightarrow> bt_inv s'"
proof -
  have "process_response g (c # data) s \<noteq> Inl Invalid_state \<and> (process_response g (c # data) s = Inr s' \<longrightarrow> bt_inv s')"
  proof (cases "write_complete s \<and> \<not> response_received s")
    case True
    then show ?thesis using assms by (auto simp: process_response_cases bt_inv_def)
  qed (use assms in \<open>auto simp: process_response_def\<close>)
  then show "process_response g (c # data) s \<noteq> Inl Invalid_state" and "process_response g (c # data) s = Inr s' \<Longrightarrow> bt_inv s'" by simp_all
qed

lemma readable_inv:
  assumes "x = write_cb g r s" "\<not> quit s" "watch s" and "bt_inv s"
  shows "x \<noteq> Inl Invalid_state \<and> (\<forall>s'. x = Inr s' \<longrightarrow> bt_inv s')"
  using write_cb_inv [OF assms(4,3,2)] assms(1) by simp

lemma packet_inv:
  assumes "x = events_handler g c pdu s" "\<not> quit s" "4 \<le> length pdu" and "bt_inv s"
  shows "x \<noteq> Inl Invalid_state \<and> (\<forall>s'. x = Inr s' \<longrightarrow> bt_inv s')"
proof -
  obtain d ds where d: "drop 3 pdu = d # ds" using assms(3) by (cases "drop 3 pdu") auto
  then have "x = process_response g (d # ds) s \<or> x = Inr (s\<lparr>attrib := c (attrib s)\<rparr>) \<or> x = Inr s"
    unfolding assms(1) events_handler_def d by presburger
  moreover have "bt_inv (s\<lparr>attrib := c (attrib s)\<rparr>)" using assms(4) by (simp add: bt_inv_def)
  ultimately show ?thesis using process_response_inv [OF assms(4,2), of g d ds] assms(4) by (elim disjE) simp_all
qed

lemma written_inv: "bt_inv s \<Longrightarrow> bt_inv (write_complete_cb s)"
  by (simp add: write_complete_cb_def bt_inv_def)
lemma bt_event_inv:
  assumes "bt_event g c r s x" and "bt_inv s"
  shows "x \<noteq> Inl Invalid_state \<and> (\<forall>s'. x = Inr s' \<longrightarrow> bt_inv s')"
  using assms(1)
proof cases
  case readable
  then show ?thesis using assms(2) by (rule readable_inv)
next
  case (packet pdu)
  then show ?thesis using assms(2) by (rule packet_inv)
next
  case written
  then show ?thesis using written_inv [OF assms(2)] by simp
qed

lemma bt_reach_inv: "bt_reach g c r s0 s \<Longrightarrow> bt_inv s0 \<Longrightarrow> bt_inv s"
  by (induction rule: bt_reach.induct) (use bt_event_inv in blast)+

lemma bt_connected_inv: "bt_inv (bt_connected f d)"
  by (simp add: bt_connected_def bt_inv_def)

section \<open>Packets\<close>

lemma split_buf:
  assumes "length buf = 24"
  obtains x blk y ys where "buf = x # blk @ y # ys" and "length blk = 16" and "length ys = 6"
proof -
  obtain x xs where x: "buf = x # xs" "length xs = 23" using assms by (cases buf) auto
  obtain y ys where y: "drop 16 xs = y # ys" using x(2) by (cases "drop 16 xs") auto
  have "length (drop 16 xs) = 7" using x(2) by simp
  then have "length (y # ys) = 7" by (simp only: y)
  moreover have "xs = take 16 xs @ y # ys" using append_take_drop_id [of 16 xs] y by simp
  ultimately show ?thesis using that [of x "take 16 xs" y ys] x by simp
qed

lemma bt_cksum_xor: "length xs = 16 \<Longrightarrow> ucast (bt_cksum (xs @ ys)) = xor_bytes xs"
proof -
  assume l: "length xs = 16"
  have "foldl (\<lambda>c i. c XOR ucast ((xs @ ys) ! i)) (0 :: uint) [0..<16] = foldl (\<lambda>c i. c XOR ucast (xs ! i)) 0 [0..<16]"
    using l by (intro foldl_cong) (simp_all add: nth_append)
  then show ?thesis using host_cksum_xor [OF l] by (simp only: bt_cksum_def host_cksum_def)
qed

lemma write_bootloader_data_sends:
  assumes "length (write_buf s) = 24"
  shows "\<exists>b. write_bootloader_data g s = s\<lparr>write_buf := b, write_complete := True, resp_state := R_EXPECT_OK,
    attrib := g (BHND s) (write_packet (take 16 (drop 1 (write_buf s)))) (attrib s)\<rparr> \<and> length b = 24"
proof -
  obtain x blk y ys where b: "write_buf s = x # blk @ y # ys" "length blk = 16" "length ys = 6" using split_buf [OF assms] by metis
  let ?b = "119 # blk @ xor_bytes blk # ys"
  have "((write_buf s)[0 := 119])[17 := ucast (bt_cksum (drop 1 ((write_buf s)[0 := 119])))] = ?b"
    using b by (simp add: bt_cksum_xor list_update_append)
  moreover have "take 18 ?b = write_packet blk" using b by (simp add: write_packet_def)
  ultimately show ?thesis using b
    by (intro exI [of _ ?b]) (simp add: write_bootloader_data_def write_cmd_def Let_def)
qed

lemma write_bootloader_addr_sends:
  assumes "length (write_buf s) = 24"
  shows "\<exists>b. write_bootloader_addr g a s = s\<lparr>write_buf := b, write_complete := True, resp_state := R_EXPECT_OK,
    attrib := g (BHND s) (addr_packet a) (attrib s)\<rparr> \<and> length b = 24"
proof -
  obtain b1 b2 b3 b4 where l: "le_bytes a = [b1, b2, b3, b4]" by (simp add: le_bytes_def)
  obtain x blk y ys where b: "write_buf s = x # blk @ y # ys" "length blk = 16" "length ys = 6" using split_buf [OF assms] by metis
  let ?b = "97 # b1 # b2 # b3 # b4 # (b1 XOR b2 XOR b3 XOR b4) # drop 6 (write_buf s)"
  have e: "buf_put (write_buf s) 1 [b1, b2, b3, b4] = x # b1 # b2 # b3 # b4 # drop 5 (write_buf s)"
    using b by (simp add: buf_put_def) (simp add: eval_nat_numeral)
  have d: "drop 5 (write_buf s) = write_buf s ! 5 # drop 6 (write_buf s)" using Cons_nth_drop_Suc [of 5 "write_buf s"] assms by simp
  have "take 6 ?b = addr_packet a" by (simp add: addr_packet_def l xor.assoc)
  then show ?thesis using assms
    by (intro exI [of _ ?b]) (simp add: write_bootloader_addr_def write_cmd_def Let_def l e [unfolded One_nat_def] d)
qed

lemma write_bootloader_jmp_sends:
  assumes "length (write_buf s) = 24"
  shows "\<exists>b. write_bootloader_initiate_jmp g s = s\<lparr>write_buf := b, write_complete := True, resp_state := R_EXPECT_OK,
    attrib := g (BHND s) jump_packet (attrib s)\<rparr> \<and> length b = 24"
proof -
  obtain x xs where b: "write_buf s = x # xs" "length xs = 23" using assms by (cases "write_buf s") auto
  then show ?thesis
    by (intro exI [of _ "106 # xs"]) (simp add: write_bootloader_initiate_jmp_def write_cmd_def Let_def jump_packet_def)
qed

text \<open>A block as it is sent: the bytes read, and behind them what the buffer holds.\<close>

lemma filled_block:
  assumes "length buf = 24" and "length data \<le> 16"
  shows "length (filled buf data) = 24" and "take (length data) (drop 1 (filled buf data)) = data"
  using assms by (simp_all add: filled_def buf_put_def)

section \<open>An upload\<close>

text \<open>The event loop against a module that passes what is written to its characteristic on to a device and notifies the replies.  At
  any time only one of the two sources has an event for the client.  No reply means that the loop does not return.\<close>

definition read_file :: "byte list \<Rightarrow> nat \<Rightarrow> GIOStatus \<times> byte list \<times> byte list" where
  "read_file f n = (if f = [] then (G_IO_STATUS_EOF, [], []) else (G_IO_STATUS_NORMAL, take n f, drop n f))"

definition module_write :: "(byte list \<Rightarrow> 'd \<Rightarrow> 'd) \<Rightarrow> 'd gatt" where
  "module_write wr handle bs d = (if handle = 0x12 then wr bs d else d)"

definition notification :: "byte \<Rightarrow> byte list" where
  "notification c = [ATT_OP_HANDLE_NOTIFY, 0x12, 0, c]"

partial_function (option) bt_main_loop ::
  "(byte list \<Rightarrow> 'd \<Rightarrow> 'd) \<Rightarrow> ('d \<Rightarrow> (byte \<times> 'd) option) \<Rightarrow> ('d, byte list) bt \<Rightarrow> (bt_error + ('d, byte list) bt) option" where
  "bt_main_loop wr rd s =
     (if quit s then Some (Inr s)
      else if watch s then
        (case write_cb (module_write wr) read_file s of Inl e \<Rightarrow> Some (Inl e) | Inr s' \<Rightarrow> bt_main_loop wr rd s')
      else
        (case rd (attrib s) of
           None \<Rightarrow> None
         | Some (c, d) \<Rightarrow>
             (case events_handler (module_write wr) (\<lambda>d. d) (notification c) (s\<lparr>attrib := d\<rparr>) of
                Inl e \<Rightarrow> Some (Inl e)
              | Inr s' \<Rightarrow> bt_main_loop wr rd s')))"

text \<open>The client between two commands.\<close>

definition bt_idle :: "('d, byte list) bt \<Rightarrow> bool" where
  "bt_idle s \<longleftrightarrow> write_complete s \<and> response_received s \<and> watch s \<and> \<not> quit s \<and> \<not> jmp_addr_done s \<and> \<not> jmp_initiated s
    \<and> length (write_buf s) = 24 \<and> BHND s = 0x12 \<and> jmp_addr s = 0x10000"

lemma loop_watch:
  "\<not> quit s \<Longrightarrow> watch s \<Longrightarrow> write_cb (module_write wr) read_file s = Inr s' \<Longrightarrow> bt_main_loop wr rd s = bt_main_loop wr rd s'"
  by (subst bt_main_loop.simps) simp

lemma loop_reply:
  assumes "\<not> quit s" and "\<not> watch s" and "write_complete s" and "\<not> response_received s" and "rd (attrib s) = Some (ch (CHR ''O''), d)"
  shows "bt_main_loop wr rd s =
    (if \<not> jmp_addr_done s then bt_main_loop wr rd (s\<lparr>attrib := d, response_received := True, watch := True\<rparr>)
     else if \<not> jmp_initiated s then bt_main_loop wr rd ((write_bootloader_initiate_jmp (module_write wr)
       (s\<lparr>attrib := d, response_received := True, write_complete := False, response_received := False\<rparr>))\<lparr>jmp_initiated := True\<rparr>)
     else bt_main_loop wr rd (s\<lparr>attrib := d, response_received := True, quit := True\<rparr>))"
  using assms by (subst bt_main_loop.simps) (simp add: events_handler_def notification_def process_response_cases)

context boot_target
begin

lemma bt_address_ok:
  assumes "bt_idle s" and "\<not> w_addr_set s" and "ready (attrib s)"
  shows "\<exists>s'. bt_main_loop wr rd s = bt_main_loop wr rd s' \<and> bt_idle s' \<and> w_addr_set s' \<and> wchan s' = wchan s \<and> ready (attrib s')
    \<and> ptr (attrib s') = write_addr s + 16 \<and> own (attrib s') = own (attrib s)
    \<and> (\<forall>x. x \<notin> own (attrib s) \<longrightarrow> mem_of (attrib s') x = mem_of (attrib s) x)"
proof -
  have i: "write_complete s" "response_received s" "watch s" "\<not> quit s" "length (write_buf s) = 24" "BHND s = 0x12" "\<not> jmp_addr_done s"
    using assms(1) by (simp_all add: bt_idle_def)
  let ?s0 = "s\<lparr>write_complete := False, response_received := False, write_addr := write_addr s + 16, w_addr_set := True\<rparr>"
  obtain b where b: "write_bootloader_addr (module_write wr) (write_addr s + 16) ?s0 = ?s0\<lparr>write_buf := b, write_complete := True,
      resp_state := R_EXPECT_OK, attrib := wr (addr_packet (write_addr s + 16)) (attrib s)\<rparr>" "length b = 24"
    using write_bootloader_addr_sends [of ?s0 "module_write wr" "write_addr s + 16"] i by (auto simp: module_write_def)
  define s1 where "s1 = ?s0\<lparr>write_buf := b, write_complete := True, resp_state := R_EXPECT_OK,
      attrib := wr (addr_packet (write_addr s + 16)) (attrib s), watch := False\<rparr>"
  have w: "write_cb (module_write wr) read_file s = Inr s1" using write_cb_first [OF i(1,2) assms(2)] b(1) by (simp add: s1_def)
  obtain d where d: "rd (attrib s1) = Some (ch (CHR ''O''), d)" "ready d" "ptr d = write_addr s + 16" "own d = own (attrib s)"
    "\<forall>x. x \<notin> own (attrib s) \<longrightarrow> mem_of d x = mem_of (attrib s) x"
    using set_addr [OF assms(3), of "write_addr s + 16"] by (auto simp: s1_def)
  let ?s2 = "s1\<lparr>attrib := d, response_received := True, watch := True\<rparr>"
  have "bt_main_loop wr rd s = bt_main_loop wr rd s1" using loop_watch [OF i(4,3) w] .
  also have "\<dots> = bt_main_loop wr rd ?s2"
    using loop_reply [of s1 rd d wr] d(1) i by (simp add: s1_def)
  finally have "bt_main_loop wr rd s = bt_main_loop wr rd ?s2" .
  moreover have "bt_idle ?s2" "w_addr_set ?s2" "wchan ?s2 = wchan s" using assms(1) b(2) by (simp_all add: bt_idle_def s1_def)
  ultimately show ?thesis using d by (intro exI [of _ ?s2]) simp
qed

lemma bt_block_ok:
  assumes "bt_idle s" and "w_addr_set s" and "ready (attrib s)" and "wchan s \<noteq> []" and "region (ptr (attrib s)) 16 \<inter> own (attrib s) = {}"
  shows "\<exists>s' blk. bt_main_loop wr rd s = bt_main_loop wr rd s' \<and> bt_idle s' \<and> w_addr_set s' \<and> wchan s' = drop 16 (wchan s)
    \<and> ready (attrib s') \<and> ptr (attrib s') = ptr (attrib s) + 16 \<and> own (attrib s') = own (attrib s)
    \<and> length blk = 16 \<and> take (length (take 16 (wchan s))) blk = take 16 (wchan s)
    \<and> (\<forall>x. x \<notin> own (attrib s) \<longrightarrow> mem_of (attrib s') x = store_bytes (mem_of (attrib s)) (ptr (attrib s)) blk x)"
proof -
  have i: "write_complete s" "response_received s" "watch s" "\<not> quit s" "length (write_buf s) = 24" "BHND s = 0x12" "\<not> jmp_addr_done s"
    using assms(1) by (simp_all add: bt_idle_def)
  define data where "data = take 16 (wchan s)"
  define s0 where "s0 = reading data (drop 16 (wchan s)) s"
  define blk where "blk = take 16 (drop 1 (write_buf s0))"
  have r: "read_file (wchan s) 16 = (G_IO_STATUS_NORMAL, data, drop 16 (wchan s))" using assms(4) by (simp add: read_file_def data_def)
  have f: "length (write_buf s0) = 24" "take (length data) (drop 1 (write_buf s0)) = data"
    using filled_block [OF i(5), of data] by (simp_all add: s0_def reading_def data_def)
  then have blk: "length blk = 16" "take (length data) blk = data" by (simp_all add: blk_def data_def min_def)
  obtain b where b: "write_bootloader_data (module_write wr) s0 = s0\<lparr>write_buf := b, write_complete := True,
      resp_state := R_EXPECT_OK, attrib := wr (write_packet blk) (attrib s)\<rparr>" "length b = 24"
    using write_bootloader_data_sends [OF f(1), of "module_write wr"] i(6) by (auto simp: module_write_def blk_def s0_def reading_def)
  define s1 where "s1 = s0\<lparr>write_buf := b, write_complete := True, resp_state := R_EXPECT_OK, attrib := wr (write_packet blk) (attrib s), watch := False\<rparr>"
  have w: "write_cb (module_write wr) read_file s = Inr s1"
    using write_cb_block [OF i(1,2) assms(2), of read_file, OF r, of "module_write wr"] b(1) by (simp add: s1_def s0_def)
  obtain d where d: "rd (attrib s1) = Some (ch (CHR ''O''), d)" "ready d" "ptr d = ptr (attrib s) + 16" "own d = own (attrib s)"
    "\<forall>x. x \<notin> own (attrib s) \<longrightarrow> mem_of d x = store_bytes (mem_of (attrib s)) (ptr (attrib s)) blk x"
    using write_ok [OF assms(3) blk(1) assms(5)] by (auto simp: s1_def)
  let ?s2 = "s1\<lparr>attrib := d, response_received := True, watch := True\<rparr>"
  have s1: "\<not> quit s1" "\<not> watch s1" "write_complete s1" "\<not> response_received s1" "\<not> jmp_addr_done s1"
    using i by (simp_all add: s1_def s0_def reading_def)
  have "bt_main_loop wr rd s = bt_main_loop wr rd s1" using loop_watch [OF i(4,3) w] .
  also have "\<dots> = bt_main_loop wr rd ?s2" using loop_reply [where rd = rd, OF s1(1-4) d(1)] s1(5) by simp
  finally have "bt_main_loop wr rd s = bt_main_loop wr rd ?s2" .
  moreover have "bt_idle ?s2" "w_addr_set ?s2" "wchan ?s2 = drop 16 (wchan s)"
    using assms(1,2) b(2) by (simp_all add: bt_idle_def s1_def s0_def reading_def)
  ultimately show ?thesis using d blk by (intro exI [of _ ?s2] exI [of _ blk]) (simp add: data_def)
qed

lemma bt_finish_ok:
  assumes "bt_idle s" and "w_addr_set s" and "ready (attrib s)" and "wchan s = []"
  shows "\<exists>s'. bt_main_loop wr rd s = Some (Inr s') \<and> jumped (attrib s') = Some 0x10000
    \<and> (\<forall>x. x \<notin> own (attrib s) \<longrightarrow> mem_of (attrib s') x = mem_of (attrib s) x)"
proof -
  have i: "write_complete s" "response_received s" "watch s" "\<not> quit s" "length (write_buf s) = 24" "BHND s = 0x12" "\<not> jmp_initiated s"
    "jmp_addr s = 0x10000"
    using assms(1) by (simp_all add: bt_idle_def)
  define s0 where "s0 = reading [] [] s"
  have r: "read_file (wchan s) 16 = (G_IO_STATUS_EOF, [], [])" using assms(4) by (simp add: read_file_def)
  have "length (write_buf s0) = 24" using filled_block(1) [OF i(5), of "[]"] by (simp add: s0_def reading_def)
  from write_bootloader_addr_sends [OF this, of "module_write wr" "0x10000"]
  obtain b where b: "write_bootloader_addr (module_write wr) 0x10000 s0 = s0\<lparr>write_buf := b, write_complete := True,
      resp_state := R_EXPECT_OK, attrib := wr (addr_packet 0x10000) (attrib s)\<rparr>" "length b = 24"
    using i(6) by (auto simp: module_write_def s0_def reading_def)
  define s1 where "s1 = s0\<lparr>write_buf := b, write_complete := True, resp_state := R_EXPECT_OK, attrib := wr (addr_packet 0x10000) (attrib s),
    jmp_addr_done := True, watch := False\<rparr>"
  have w: "write_cb (module_write wr) read_file s = Inr s1"
    using write_cb_block [OF i(1,2) assms(2), of read_file, OF r, of "module_write wr"] b(1) i(8) by (simp add: s1_def s0_def)
  obtain d where d: "rd (attrib s1) = Some (ch (CHR ''O''), d)" "ready d" "ptr d = 0x10000" "own d = own (attrib s)"
    "\<forall>x. x \<notin> own (attrib s) \<longrightarrow> mem_of d x = mem_of (attrib s) x"
    using set_addr [OF assms(3), of "0x10000"] by (auto simp: s1_def)
  have s1: "\<not> quit s1" "\<not> watch s1" "write_complete s1" "\<not> response_received s1" "jmp_addr_done s1" "\<not> jmp_initiated s1" "BHND s1 = 0x12"
    using i by (simp_all add: s1_def s0_def reading_def)
  let ?s2 = "s1\<lparr>attrib := d, response_received := True, write_complete := False, response_received := False\<rparr>"
  have "length (write_buf ?s2) = 24" using b(2) by (simp add: s1_def)
  from write_bootloader_jmp_sends [OF this, of "module_write wr"]
  obtain b' where b': "write_bootloader_initiate_jmp (module_write wr) ?s2 = ?s2\<lparr>write_buf := b', write_complete := True,
      resp_state := R_EXPECT_OK, attrib := wr jump_packet d\<rparr>"
    using s1(7) by (auto simp: module_write_def)
  define s3 where "s3 = ?s2\<lparr>write_buf := b', write_complete := True, resp_state := R_EXPECT_OK, attrib := wr jump_packet d, jmp_initiated := True\<rparr>"
  obtain d' where d': "rd (attrib s3) = Some (ch (CHR ''O''), d')" "jumped d' = Some 0x10000" "\<forall>x. x \<notin> own d \<longrightarrow> mem_of d' x = mem_of d x"
    using jump [OF d(2)] d(3) by (auto simp: s3_def)
  have s3: "\<not> quit s3" "\<not> watch s3" "write_complete s3" "\<not> response_received s3" "jmp_addr_done s3" "jmp_initiated s3"
    using s1 by (simp_all add: s3_def)
  have "bt_main_loop wr rd s = bt_main_loop wr rd s1" using loop_watch [OF i(4,3) w] .
  also have "\<dots> = bt_main_loop wr rd s3"
    using loop_reply [where rd = rd, OF s1(1-4) d(1)] s1(5,6) b' by (simp add: s3_def)
  also have "\<dots> = bt_main_loop wr rd (s3\<lparr>attrib := d', response_received := True, quit := True\<rparr>)"
    using loop_reply [where rd = rd, OF s3(1-4) d'(1)] s3(5,6) by simp
  also have "\<dots> = Some (Inr (s3\<lparr>attrib := d', response_received := True, quit := True\<rparr>))" by (subst bt_main_loop.simps) simp
  finally show ?thesis using d(4,5) d'(2,3)
    by (intro exI [of _ "s3\<lparr>attrib := d', response_received := True, quit := True\<rparr>"]) simp
qed

lemma bt_blocks_ok:
  assumes "bt_idle s" and "w_addr_set s" and "ready (attrib s)"
    and "region (ptr (attrib s)) (length (padded (wchan s))) \<inter> own (attrib s) = {}"
  shows "\<exists>s' pad. bt_main_loop wr rd s = Some (Inr s') \<and> jumped (attrib s') = Some 0x10000
    \<and> length (wchan s @ pad) = length (padded (wchan s))
    \<and> (\<forall>x. x \<notin> own (attrib s) \<longrightarrow> mem_of (attrib s') x = store_bytes (mem_of (attrib s)) (ptr (attrib s)) (wchan s @ pad) x)"
  using assms
proof (induction "length (wchan s)" arbitrary: s rule: less_induct)
  case less
  show ?case
  proof (cases "wchan s = []")
    case True
    then show ?thesis using bt_finish_ok [OF less.prems(1-3) True] by auto
  next
    case ne: False
    let ?f = "wchan s" and ?d = "attrib s"
    have pl: "length (padded ?f) = 16 + length (padded (drop 16 ?f))"
      using ne by (cases "length ?f < 16") (auto simp: padded_short padded_chunk not_less)
    have "region (ptr ?d) 16 \<subseteq> region (ptr ?d) (length (padded ?f))" by (rule region_mono) (simp add: pl)
    then have "region (ptr ?d) 16 \<inter> own ?d = {}" using less.prems(4) by blast
    from bt_block_ok [OF less.prems(1-3) ne this] obtain s1 blk where
      s1: "bt_main_loop wr rd s = bt_main_loop wr rd s1" "bt_idle s1" "w_addr_set s1" "wchan s1 = drop 16 ?f" "ready (attrib s1)"
      "ptr (attrib s1) = ptr ?d + 16" "own (attrib s1) = own ?d" "length blk = 16" "take (length (take 16 ?f)) blk = take 16 ?f"
      "\<forall>x. x \<notin> own ?d \<longrightarrow> mem_of (attrib s1) x = store_bytes (mem_of ?d) (ptr ?d) blk x" by (elim exE conjE) (rule that)
    have "region (ptr (attrib s1)) (length (padded (wchan s1))) \<subseteq> region (ptr ?d) (length (padded ?f))"
      using region_shift [of 16 "length (padded (drop 16 ?f))" "length (padded ?f)" "ptr ?d"] by (simp add: s1(4,6) pl)
    then have dis: "region (ptr (attrib s1)) (length (padded (wchan s1))) \<inter> own (attrib s1) = {}" using less.prems(4) s1(7) by blast
    have "length (wchan s1) < length ?f" using ne by (simp add: s1(4))
    from less.hyps [OF this s1(2,3,5) dis] obtain s2 pad where
      s2: "bt_main_loop wr rd s1 = Some (Inr s2)" "jumped (attrib s2) = Some 0x10000" "length (wchan s1 @ pad) = length (padded (wchan s1))"
      "\<forall>x. x \<notin> own (attrib s1) \<longrightarrow> mem_of (attrib s2) x = store_bytes (mem_of (attrib s1)) (ptr (attrib s1)) (wchan s1 @ pad) x"
      by (elim exE conjE) (rule that)
    obtain pad' where pad': "?f @ pad' = blk @ wchan s1 @ pad"
    proof (cases "length ?f < 16")
      case True
      then have "blk = ?f @ drop (length ?f) blk" using s1(9) append_take_drop_id [of "length ?f" blk] by simp
      then show ?thesis using that [of "drop (length ?f) blk @ wchan s1 @ pad"] True s1(4) by simp
    next
      case False
      then have "blk = take 16 ?f" using s1(8,9) by simp
      then show ?thesis using that [of pad] s1(4) by simp
    qed
    have "mem_of (attrib s2) x = store_bytes (mem_of ?d) (ptr ?d) (?f @ pad') x" if "x \<notin> own ?d" for x
    proof -
      have "mem_of (attrib s2) x = store_bytes (store_bytes (mem_of ?d) (ptr ?d) blk) (ptr ?d + 16) (wchan s1 @ pad) x"
        using that s1 s2 by (auto intro: store_bytes_cong)
      then show ?thesis by (simp only: pad' store_bytes_append s1(8)) simp
    qed
    moreover have "length (?f @ pad') = length (padded ?f)" using s2(3) s1(4,8) pad' pl by simp
    ultimately show ?thesis using s1(1) s2(1,2) by (intro exI [of _ s2] exI [of _ pad']) simp
  qed
qed

lemma bt_upload_ok:
  assumes "ready d" and "region 0x10000 (length (padded img)) \<inter> own d = {}"
  shows "\<exists>s' pad. bt_main_loop wr rd (bt_connected img d) = Some (Inr s') \<and> jumped (attrib s') = Some 0x10000
    \<and> length (img @ pad) = length (padded img)
    \<and> (\<forall>x. x \<notin> own d \<longrightarrow> mem_of (attrib s') x = store_bytes (mem_of d) 0x10000 (img @ pad) x)"
proof -
  let ?s = "bt_connected img d"
  have "bt_idle ?s" "\<not> w_addr_set ?s" "ready (attrib ?s)" using assms(1) by (simp_all add: bt_idle_def bt_connected_def)
  from bt_address_ok [OF this] obtain s1 where
    s1: "bt_main_loop wr rd ?s = bt_main_loop wr rd s1" "bt_idle s1" "w_addr_set s1" "wchan s1 = img" "ready (attrib s1)"
    "ptr (attrib s1) = 0x10000" "own (attrib s1) = own d" "\<forall>x. x \<notin> own d \<longrightarrow> mem_of (attrib s1) x = mem_of d x"
    by (auto simp: bt_connected_def)
  have "region (ptr (attrib s1)) (length (padded (wchan s1))) \<inter> own (attrib s1) = {}" using assms(2) s1 by simp
  from bt_blocks_ok [OF s1(2,3,5) this] obtain s2 pad where
    s2: "bt_main_loop wr rd s1 = Some (Inr s2)" "jumped (attrib s2) = Some 0x10000" "length (wchan s1 @ pad) = length (padded (wchan s1))"
    "\<forall>x. x \<notin> own (attrib s1) \<longrightarrow> mem_of (attrib s2) x = store_bytes (mem_of (attrib s1)) (ptr (attrib s1)) (wchan s1 @ pad) x"
    by (elim exE conjE) (rule that)
  have "mem_of (attrib s2) x = store_bytes (mem_of d) 0x10000 (img @ pad) x" if "x \<notin> own d" for x
    using that s1 s2(4) by (auto intro: store_bytes_cong)
  then show ?thesis using s1(1,4) s2(1-3) by (intro exI [of _ s2] exI [of _ pad]) simp
qed

end

section \<open>Properties\<close>



text \<open>C31 An upload with the Bluetooth client to a bootloader that waits for commands ends: the image is in memory at \<open>0x10000\<close>, memory
  outside the blocks it takes and outside the loader's own buffers is unchanged, and the bootloader has jumped to \<open>0x10000\<close>.\<close>

theorem bt_upload_reaches_memory:
  assumes "boot_ready d" and "length (padded img) \<le> 2 ^ 32" and "region 0x10000 (length (padded img)) \<inter> boot_own d = {}"
  shows "\<exists>s'. bt_main_loop boot_wr boot_rd (bt_connected img d) = Some (Inr s') \<and> b_jump (attrib s') = Some 0x10000
    \<and> bytes_at (b_mem (attrib s')) 0x10000 (length img) = img
    \<and> (\<forall>x. x \<notin> boot_own d \<union> region 0x10000 (length (padded img)) \<longrightarrow> b_mem (attrib s') x = b_mem d x)"
proof -
  obtain s' pad where s: "bt_main_loop boot_wr boot_rd (bt_connected img d) = Some (Inr s')" "b_jump (attrib s') = Some 0x10000"
    "length (img @ pad) = length (padded img)"
    "\<forall>x. x \<notin> boot_own d \<longrightarrow> b_mem (attrib s') x = store_bytes (b_mem d) 0x10000 (img @ pad) x"
    using boot.bt_upload_ok [OF assms(1,3)] by (elim exE conjE) (rule that)
  have "bytes_at (b_mem (attrib s')) 0x10000 (length (img @ pad)) = img @ pad"
  proof -
    have "bytes_at (b_mem (attrib s')) 0x10000 (length (img @ pad))
        = bytes_at (store_bytes (b_mem d) 0x10000 (img @ pad)) 0x10000 (length (img @ pad))"
      using s(3,4) assms(3) by (intro bytes_at_cong) auto
    then show ?thesis using bytes_at_store [of "img @ pad"] assms(2) s(3) by simp
  qed
  then have "bytes_at (b_mem (attrib s')) 0x10000 (length img) = img"
    using take_bytes_at [of "length img" "length (img @ pad)" "b_mem (attrib s')" "0x10000"] by simp
  moreover have "b_mem (attrib s') x = b_mem d x" if "x \<notin> boot_own d \<union> region 0x10000 (length (padded img))" for x
    using that s(3,4) by (simp add: store_bytes_other)
  ultimately show ?thesis using s(1,2) by blast
qed

theorem bt_upload_reaches_memory_witness:
  "\<exists>s'. bt_main_loop boot_wr boot_rd (bt_connected [0x13, 0x37, 0x42] (boot_reset [])) = Some (Inr s')
     \<and> b_jump (attrib s') = Some 0x10000 \<and> bytes_at (b_mem (attrib s')) 0x10000 3 = [0x13, 0x37, 0x42]"
proof -
  have "length (padded [0x13, 0x37, 0x42]) = 16" by (simp add: padded_def)
  then show ?thesis
    using bt_upload_reaches_memory [of "boot_reset []" "[0x13, 0x37, 0x42]"] boot_reset_ok by (auto simp: numeral_3_eq_3)
qed

end
