(* ===== verification/Host_Args.thy ===== *)
theory Host_Args
  imports Bt_Client
begin

text \<open>
  The command lines of the host programs: options and arguments of \<open>tools/bootloader_uart_client.c\<close>, with \<open>getopt\<close> and \<open>strtoul\<close> of the
  host's C library, and how its \<open>main\<close> opens the image and the device before the upload (\<open>Boot_Client.client_main\<close>); the arguments of
  the Bluetooth client, and the callback that starts its upload once the module is connected.

  Opening a file is a parameter: None is an error.  \<open>getopt\<close> is the one of the GNU library, which passes over arguments that are not
  options.  The image is a regular file that can be read.
\<close>

section \<open>Definitions\<close>

subsection \<open>Numbers\<close>

definition char_digit :: "char \<Rightarrow> nat option" where
  "char_digit x =
     (let n = of_char x in
      if 48 \<le> n \<and> n \<le> 57 then Some (n - 48)
      else if 97 \<le> n \<and> n \<le> 122 then Some (n - 87)
      else if 65 \<le> n \<and> n \<le> 90 then Some (n - 55)
      else None)"

definition is_base_digit :: "nat \<Rightarrow> char \<Rightarrow> bool" where
  "is_base_digit b x \<longleftrightarrow> (case char_digit x of None \<Rightarrow> False | Some d \<Rightarrow> d < b)"

definition digits_value :: "nat \<Rightarrow> string \<Rightarrow> nat" where
  "digits_value b s = foldl (\<lambda>a x. b * a + the (char_digit x)) 0 s"

text \<open>\<open>strtoul(s, 0, 0)\<close>: white space, a sign, the base from the prefix, and the largest value on overflow.\<close>

definition strtoul_0 :: "string \<Rightarrow> 64 word" where
  "strtoul_0 s =
     (let t = dropWhile (\<lambda>x. x = CHR '' '' \<or> 9 \<le> (of_char x :: nat) \<and> (of_char x :: nat) \<le> 13) s;
          neg = (t \<noteq> [] \<and> hd t = CHR ''-'');
          t = (if t \<noteq> [] \<and> (hd t = CHR ''-'' \<or> hd t = CHR ''+'') then tl t else t);
          (b, t) = (if 3 \<le> length t \<and> t ! 0 = CHR ''0'' \<and> (t ! 1 = CHR ''x'' \<or> t ! 1 = CHR ''X'') \<and> is_base_digit 16 (t ! 2) then (16, drop 2 t)
                    else if t \<noteq> [] \<and> hd t = CHR ''0'' then (8, t) else (10, t));
          n = digits_value b (takeWhile (is_base_digit b) t)
      in if 2 ^ 64 \<le> n then -1 else if neg then - of_nat n else of_nat n)"

subsection \<open>Options\<close>

datatype option_result = Opt char string | Opt_error | Opt_end

text \<open>\<open>getopt(argc, argv, "f:d:l:j:")\<close> on the arguments that are left: every option has an argument.\<close>

fun getopt_fdlj :: "string list \<Rightarrow> option_result \<times> string list" where
  "getopt_fdlj [] = (Opt_end, [])"
| "getopt_fdlj (a # as) =
     (if a = ''--'' then (Opt_end, [])
      else if 2 \<le> length a \<and> a ! 0 = CHR ''-'' then
        (if a ! 1 \<in> set ''fdlj'' then
           (if 2 < length a then (Opt (a ! 1) (drop 2 a), as)
            else case as of [] \<Rightarrow> (Opt_error, []) | v # as' \<Rightarrow> (Opt (a ! 1) v, as'))
         else (Opt_error, as))
      else getopt_fdlj as)"

record client_options =
  code_fname :: string
  dev_fname :: string
  load_address :: "64 word"
  jmp_address :: "64 word"

definition client_defaults :: client_options where
  "client_defaults = \<lparr>code_fname = ''a.out'', dev_fname = ''/dev/ttyUSB0'', load_address = 0x10000, jmp_address = 0x10000\<rparr>"

lemma getopt_shorter: "getopt_fdlj as = (Opt x v, as') \<Longrightarrow> length as' < length as"
  by (induction as rule: getopt_fdlj.induct) (auto split: if_splits list.splits)

text \<open>None is the message about the usage.\<close>

function process_cmdline_args :: "client_options \<Rightarrow> string list \<Rightarrow> client_options option" where
  "process_cmdline_args c as =
     (case getopt_fdlj as of
        (Opt x optarg, as') \<Rightarrow>
          process_cmdline_args
            (if x = CHR ''f'' then c\<lparr>code_fname := optarg\<rparr>
             else if x = CHR ''d'' then c\<lparr>dev_fname := optarg\<rparr>
             else if x = CHR ''l'' then c\<lparr>load_address := strtoul_0 optarg\<rparr>
             else c\<lparr>jmp_address := strtoul_0 optarg\<rparr>) as'
      | (Opt_end, _) \<Rightarrow> Some c
      | (Opt_error, _) \<Rightarrow> None)"
  by pat_completeness auto
termination
  by (relation "measure (\<lambda>(c, as). length as)") (auto dest!: getopt_shorter [OF sym])

declare process_cmdline_args.simps [simp del]

datatype program_error = Usage | Open_error string | Client_error client_error

definition uart_client ::
  "(byte list \<Rightarrow> 'd \<Rightarrow> 'd) \<Rightarrow> ('d \<Rightarrow> (byte \<times> 'd) option) \<Rightarrow> (string \<Rightarrow> byte list option) \<Rightarrow> (string \<Rightarrow> 'd option) \<Rightarrow> string list
    \<Rightarrow> program_error + 'd" where
  "uart_client wr rd open_code open_dev argv =
     (case process_cmdline_args client_defaults (tl argv) of
        None \<Rightarrow> Inl Usage
      | Some c \<Rightarrow>
          (case open_code (code_fname c) of None \<Rightarrow> Inl (Open_error (code_fname c))
           | Some data \<Rightarrow>
               (case open_dev (dev_fname c) of None \<Rightarrow> Inl (Open_error (dev_fname c))
                | Some d \<Rightarrow>
                    (case client_main wr rd data (load_address c) (jmp_address c) d of
                       Inl e \<Rightarrow> Inl (Client_error e) | Inr d \<Rightarrow> Inr d))))"

subsection \<open>The Bluetooth client\<close>

text \<open>File name, address of the module and handle of the characteristic; None is the message about the usage.\<close>

definition bt_client_args :: "string list \<Rightarrow> (string \<times> string \<times> 16 word) option" where
  "bt_client_args argv =
     (if length argv < 2 then None
      else Some (argv ! 1, if 3 \<le> length argv then argv ! 2 else ''B4:99:4C:6E:58:C9'',
        if 4 \<le> length argv then ucast (strtoul_0 (argv ! 3)) else 0x12))"

text \<open>\<open>connect_cb\<close>: \<open>err\<close> says that the connection failed, \<open>f\<close> is the channel of the image file, None when it cannot be opened.\<close>

definition bt_connect_cb :: "bool \<Rightarrow> 'd \<Rightarrow> 'f option \<Rightarrow> string \<Rightarrow> ('d, 'f) bt \<Rightarrow> program_error + ('d, 'f) bt" where
  "bt_connect_cb err d f write_filename s =
     (if err then Inr (s\<lparr>quit := True\<rparr>)
      else case f of None \<Rightarrow> Inl (Open_error write_filename) | Some f \<Rightarrow> Inr (s\<lparr>attrib := d, wchan := f, watch := True\<rparr>))"

section \<open>Numbers in hexadecimal\<close>

definition hexit_char :: "nat \<Rightarrow> char" where
  "hexit_char n = ''0123456789abcdef'' ! n"

fun hex_text :: "nat \<Rightarrow> string" where
  "hex_text n = (if n < 16 then [hexit_char n] else hex_text (n div 16) @ [hexit_char (n mod 16)])"

declare hex_text.simps [simp del]

lemma char_digit_hexit: "n < 16 \<Longrightarrow> char_digit (hexit_char n) = Some n"
proof -
  assume "n < 16"
  moreover have "list_all (\<lambda>n. char_digit (hexit_char n) = Some n) [0, 1, 2, 3, 4, 5, 6, 7, 8, 9, 10, 11, 12, 13, 14, 15]"
    by (simp add: hexit_char_def char_digit_def)
  moreover have "[0, 1, 2, 3, 4, 5, 6, 7, 8, 9, 10, 11, 12, 13, 14, 15] = [0..<16]" by (simp add: upt_rec)
  ultimately have "\<forall>n \<in> set [0..<16]. char_digit (hexit_char n) = Some n" unfolding list_all_iff by (simp only:)
  with \<open>n < 16\<close> show ?thesis by simp
qed

lemma hex_text_value: "digits_value 16 (hex_text n) = n \<and> (\<forall>x \<in> set (hex_text n). is_base_digit 16 x) \<and> hex_text n \<noteq> []"
proof (induction n rule: hex_text.induct)
  case (1 n)
  have step: "hex_text n = (if n < 16 then [hexit_char n] else hex_text (n div 16) @ [hexit_char (n mod 16)])" by (rule hex_text.simps)
  show ?case
  proof (cases "n < 16")
    case True
    then show ?thesis using char_digit_hexit [OF True] by (simp add: step digits_value_def is_base_digit_def)
  next
    case False
    then show ?thesis using 1 char_digit_hexit [of "n mod 16"] by (simp add: step digits_value_def is_base_digit_def)
  qed
qed

lemma strtoul_hex: "n < 2 ^ 64 \<Longrightarrow> strtoul_0 (''0x'' @ hex_text n) = of_nat n"
proof -
  assume n: "n < 2 ^ 64"
  obtain x xs where h: "hex_text n = x # xs" using hex_text_value [of n] by (cases "hex_text n") auto
  have d: "is_base_digit 16 x" "takeWhile (is_base_digit 16) (x # xs) = x # xs" using hex_text_value [of n] h by (auto simp: takeWhile_eq_all_conv)
  have "strtoul_0 (''0x'' @ hex_text n) = (let n = digits_value 16 (takeWhile (is_base_digit 16) (hex_text n)) in if 2 ^ 64 \<le> n then -1 else of_nat n)"
    using d(1) h by (simp add: strtoul_0_def Let_def)
  moreover have "takeWhile (is_base_digit 16) (hex_text n) = hex_text n" using d(2) h by simp
  ultimately show ?thesis using n hex_text_value [of n] by (simp add: Let_def)
qed

text \<open>The program with its four options, the addresses in hexadecimal: it opens the two files and uploads.\<close>

lemma uart_client_options:
  assumes "la < 2 ^ 64" and "ja < 2 ^ 64" and "open_code name = Some data" and "open_dev dev = Some d"
  shows "uart_client wr rd open_code open_dev [prog, ''-f'', name, ''-d'', dev, ''-l'', ''0x'' @ hex_text la, ''-j'', ''0x'' @ hex_text ja]
    = (case client_main wr rd data (of_nat la) (of_nat ja) d of Inl e \<Rightarrow> Inl (Client_error e) | Inr d \<Rightarrow> Inr d)"
proof -
  note step = process_cmdline_args.simps [where as = "_ # _"] process_cmdline_args.simps [where as = "[]"]
  have "process_cmdline_args client_defaults [''-f'', name, ''-d'', dev, ''-l'', ''0x'' @ hex_text la, ''-j'', ''0x'' @ hex_text ja]
      = Some \<lparr>code_fname = name, dev_fname = dev, load_address = of_nat la, jmp_address = of_nat ja\<rparr>"
    using strtoul_hex [OF assms(1)] strtoul_hex [OF assms(2)] by (simp add: step client_defaults_def)
  then show ?thesis using assms(3,4) by (simp add: uart_client_def)
qed

text \<open>The state from which the sessions of \<open>Bt_Client\<close> start is the one of the static variables after a connection.\<close>

lemma bt_connect_starts: "bt_connect_cb False d (Some f) name ((bt_connected f0 d0)\<lparr>watch := False\<rparr>) = Inr (bt_connected f d)"
  by (simp add: bt_connect_cb_def bt_connected_def)

end
