(* ===== verification/Bt_Terminal.thy ===== *)
theory Bt_Terminal
  imports Host_Args
begin

text \<open>
  The Bluetooth terminal (\<open>tools/bluetooth/bluetooth_le_terminal/bluetooth_le_terminal.c\<close>): callbacks of an event loop that pass what is
  typed to the module, 16 bytes at a time and one write command after the other, and print what the module notifies.

  The static variables are the record \<open>terminal\<close>.  GLib and BlueZ are parameters, as in \<open>Bt_Client\<close>: \<open>gatt_write\<close> sends a write
  command, \<open>confirm\<close> the confirmation of an indication, \<open>read_chars\<close> is \<open>g_io_channel_read_chars\<close> on the standard input, which does not
  block.  The code under \<open>XXX_NOTYET\<close> is not compiled.
\<close>

section \<open>Definitions\<close>

definition TERM_MTU :: nat where "TERM_MTU = 16"

record ('d, 'f) terminal =
  t_write_complete :: bool
  t_pending_buf :: "byte list"
  t_pending_len :: nat
  t_BHND :: "16 word"
  t_source :: 'f
  t_watch :: bool
  t_quit :: bool
  t_stdout :: "byte list"
  t_attrib :: 'd

definition term_write_complete_cb :: "('d, 'f) terminal \<Rightarrow> ('d, 'f) terminal" where
  "term_write_complete_cb s = s\<lparr>t_write_complete := True\<rparr>"

definition term_write_cmd :: "'d gatt \<Rightarrow> byte list \<Rightarrow> ('d, 'f) terminal \<Rightarrow> ('d, 'f) terminal" where
  "term_write_cmd gatt_write v s =
     (let s = s\<lparr>t_write_complete := False\<rparr> in s\<lparr>t_attrib := gatt_write (t_BHND s) v (t_attrib s)\<rparr>)"

text \<open>The result says whether the watch on the standard input stays.\<close>

definition term_write_cb :: "'d gatt \<Rightarrow> ('f \<Rightarrow> nat \<Rightarrow> byte list \<times> 'f) \<Rightarrow> ('d, 'f) terminal \<Rightarrow> bool \<times> ('d, 'f) terminal" where
  "term_write_cb gatt_write read_chars s =
     (if \<not> t_write_complete s then (True, s)
      else
        let (buf, s) = (if t_pending_len s = 0 then (let (buf, f) = read_chars (t_source s) TERM_MTU in (buf, s\<lparr>t_source := f\<rparr>))
                        else (take (t_pending_len s) (t_pending_buf s), s\<lparr>t_pending_len := 0\<rparr>))
        in if length buf = 0 then (False, s) else (True, term_write_cmd gatt_write buf s))"

text \<open>A packet has at least the opcode and the handle.\<close>

definition term_events_handler :: "('d \<Rightarrow> 'd) \<Rightarrow> byte list \<Rightarrow> ('d, 'f) terminal \<Rightarrow> ('d, 'f) terminal" where
  "term_events_handler confirm pdu s =
     (if pdu ! 0 = ATT_OP_HANDLE_NOTIFY then s\<lparr>t_stdout := t_stdout s @ drop 3 pdu\<rparr>
      else if pdu ! 0 = ATT_OP_HANDLE_IND then s\<lparr>t_attrib := confirm (t_attrib s)\<rparr>
      else s)"

text \<open>\<open>connect_cb\<close>: with an error the loop ends; otherwise a watch is put on the standard input.\<close>

definition term_connect_cb :: "bool \<Rightarrow> 'd \<Rightarrow> 'f \<Rightarrow> ('d, 'f) terminal \<Rightarrow> ('d, 'f) terminal" where
  "term_connect_cb err a inp s =
     (if err then s\<lparr>t_quit := True\<rparr> else s\<lparr>t_attrib := a, t_source := inp, t_watch := True\<rparr>)"

definition term_start :: "16 word \<Rightarrow> 'd \<Rightarrow> 'f \<Rightarrow> ('d, 'f) terminal" where
  "term_start h d f = \<lparr>t_write_complete = True, t_pending_buf = replicate 20 0, t_pending_len = 0, t_BHND = h, t_source = f, t_watch = False,
     t_quit = False, t_stdout = [], t_attrib = d\<rparr>"

text \<open>The arguments of \<open>main\<close>: address of the module and handle of the characteristic.\<close>

definition term_args :: "string list \<Rightarrow> string \<times> 16 word" where
  "term_args argv = (if 2 \<le> length argv then argv ! 1 else ''B4:99:4C:6E:58:C9'', if 3 \<le> length argv then ucast (strtoul_0 (argv ! 2)) else 0x12)"

section \<open>Sessions\<close>

text \<open>
  Any order of events.  The standard input holds what has been typed and not yet read; a write command is a packet for the handle;
  a write is reported complete once for each command.  The record \<open>chat\<close> adds what has been typed and notified so far and how many
  commands have been completed.
\<close>

type_synonym packets = "(16 word \<times> byte list) list"

record chat =
  c_term :: "(packets, byte list) terminal"
  c_typed :: "byte list"
  c_notified :: "byte list"
  c_completed :: nat

definition log_write :: "packets gatt" where
  "log_write h v ps = ps @ [(h, v)]"

definition read_typed :: "byte list \<Rightarrow> nat \<Rightarrow> byte list \<times> byte list" where
  "read_typed f n = (take n f, drop n f)"

inductive chat_step :: "chat \<Rightarrow> chat \<Rightarrow> bool" where
  types: "chat_step c (c\<lparr>c_term := (c_term c)\<lparr>t_source := t_source (c_term c) @ xs\<rparr>, c_typed := c_typed c @ xs\<rparr>)"
| readable: "t_watch (c_term c) \<Longrightarrow> t_source (c_term c) \<noteq> [] \<Longrightarrow> term_write_cb log_write read_typed (c_term c) = (stay, s) \<Longrightarrow>
    chat_step c (c\<lparr>c_term := s\<lparr>t_watch := stay\<rparr>\<rparr>)"
| written: "c_completed c < length (t_attrib (c_term c)) \<Longrightarrow>
    chat_step c (c\<lparr>c_term := term_write_complete_cb (c_term c), c_completed := c_completed c + 1\<rparr>)"
| notify: "3 \<le> length pdu \<Longrightarrow> chat_step c (c\<lparr>c_term := term_events_handler (\<lambda>ps. ps) pdu (c_term c),
    c_notified := c_notified c @ (if pdu ! 0 = ATT_OP_HANDLE_NOTIFY then drop 3 pdu else [])\<rparr>)"

definition chat_start :: "16 word \<Rightarrow> chat" where
  "chat_start h = \<lparr>c_term = term_connect_cb False [] [] (term_start h [] []), c_typed = [], c_notified = [], c_completed = 0\<rparr>"

definition chat_ok :: "16 word \<Rightarrow> chat \<Rightarrow> bool" where
  "chat_ok h c \<longleftrightarrow> (let s = c_term c in
     t_pending_len s = 0 \<and> t_watch s \<and> t_BHND s = h
     \<and> concat (map snd (t_attrib s)) @ t_source s = c_typed c \<and> t_stdout s = c_notified c
     \<and> (\<forall>p \<in> set (t_attrib s). fst p = h \<and> snd p \<noteq> [] \<and> length (snd p) \<le> 16)
     \<and> length (t_attrib s) = c_completed c + (if t_write_complete s then 0 else 1))"

lemmas chat_defs = chat_ok_def Let_def term_write_cb_def term_write_cmd_def term_write_complete_cb_def term_events_handler_def
  log_write_def read_typed_def TERM_MTU_def

lemma chat_step_ok: "chat_step c c' \<Longrightarrow> chat_ok h c \<Longrightarrow> chat_ok h c'"
proof (induction rule: chat_step.induct)
  case (readable c stay s)
  then show ?case by (cases "t_write_complete (c_term c)") (auto simp: chat_defs)
next
  case (notify pdu c)
  then show ?case by (auto simp: chat_defs)
qed (auto simp: chat_defs split: if_splits)

lemma chat_start_ok: "chat_ok h (chat_start h)"
  by (simp add: chat_defs chat_start_def term_connect_cb_def term_start_def)

lemma chat_reach_ok: "chat_step\<^sup>*\<^sup>* (chat_start h) c \<Longrightarrow> chat_ok h c"
  by (induction rule: rtranclp_induct) (auto intro: chat_step_ok chat_start_ok)

text \<open>The terminal under any order of events: what has been sent to the module, packet after packet, followed by what has not been
  read yet, is what was typed; every packet goes to the handle and has between 1 and 16 bytes; no command is sent before the one before
  it is complete; the watch on the input stays; and what is printed is what the module has notified.\<close>

lemma terminal_passes_on:
  assumes "chat_step\<^sup>*\<^sup>* (chat_start h) c"
  shows "concat (map snd (t_attrib (c_term c))) @ t_source (c_term c) = c_typed c \<and> t_stdout (c_term c) = c_notified c \<and> t_watch (c_term c)
    \<and> (\<forall>p \<in> set (t_attrib (c_term c)). fst p = h \<and> 1 \<le> length (snd p) \<and> length (snd p) \<le> 16)
    \<and> c_completed c \<le> length (t_attrib (c_term c)) \<and> length (t_attrib (c_term c)) \<le> c_completed c + 1"
  using chat_reach_ok [OF assms] by (auto simp: chat_ok_def Let_def Suc_le_eq split: if_splits)

lemma terminal_passes_on_witness:
  "\<exists>c. chat_step\<^sup>*\<^sup>* (chat_start 0x12) c \<and> c_typed c = [104, 105] \<and> t_attrib (c_term c) = [(0x12, [104, 105])]
     \<and> concat (map snd (t_attrib (c_term c))) @ t_source (c_term c) = [104, 105]"
proof -
  let ?typed = "(chat_start 0x12)\<lparr>c_term := (c_term (chat_start 0x12))\<lparr>t_source := t_source (c_term (chat_start 0x12)) @ [104, 105]\<rparr>,
    c_typed := c_typed (chat_start 0x12) @ [104, 105]\<rparr>"
  let ?sent = "?typed\<lparr>c_term := (snd (term_write_cb log_write read_typed (c_term ?typed)))\<lparr>t_watch := fst (term_write_cb log_write read_typed (c_term ?typed))\<rparr>\<rparr>"
  have "chat_step (chat_start 0x12) ?typed" by (rule chat_step.types)
  moreover have "chat_step ?typed ?sent" by (rule chat_step.readable) (simp_all add: chat_start_def term_connect_cb_def)
  ultimately have r: "chat_step\<^sup>*\<^sup>* (chat_start 0x12) ?sent" by (rule rtranclp.rtrancl_into_rtrancl [OF r_into_rtranclp])
  have "c_typed ?sent = [104, 105]" "t_attrib (c_term ?sent) = [(0x12, [104, 105])]"
    by (simp_all add: chat_defs chat_start_def term_connect_cb_def term_start_def)
  then show ?thesis using terminal_passes_on [OF r] r by (intro exI [of _ ?sent]) metis
qed

end
