(* ===== verification/Genboot.thy ===== *)
theory Genboot
  imports Prelude
begin

text \<open>
  The generator of the boot ROM image (\<open>tools/genbootcode.c\<close>): it reads the boot code from the standard input and prints it in
  the Intel HEX format, one record for each of the 1024 16-bit words of the ROM.  The result of this theory is that a reader of
  that format, which checks lengths and checksums, gets the boot code back.
\<close>

section \<open>Definitions\<close>

text \<open>\<open>fread\<close> of one \<open>unsigned short\<close> on the little-endian host, with the 0 that the program takes at the end of the input.\<close>

fun fread_data :: "byte list \<Rightarrow> 16 word \<times> byte list" where
  "fread_data (a # b # input) = (ucast a OR push_bit 8 (ucast b), input)"
| "fread_data _ = (0, [])"

text \<open>The conversion \<open>%0nX\<close> of \<open>printf\<close>: hexadecimal digits in upper case, padded with zeros to a width of at least \<open>n\<close>.\<close>

definition hex_digit :: "nat \<Rightarrow> char" where
  "hex_digit d = ''0123456789ABCDEF'' ! d"

fun hex_str :: "nat \<Rightarrow> string" where
  "hex_str n = (if n < 16 then [hex_digit n] else hex_str (n div 16) @ [hex_digit (n mod 16)])"

declare hex_str.simps [simp del]

definition fmt_0X :: "nat \<Rightarrow> nat \<Rightarrow> string" where
  "fmt_0X w n = replicate (w - length (hex_str n)) CHR ''0'' @ hex_str n"

definition checksum_byte :: "16 word \<Rightarrow> 16 word \<Rightarrow> 16 word" where
  "checksum_byte addr data =
     (let checksum = 0;
          checksum = checksum + 2;
          checksum = checksum + (addr AND 0xff);
          checksum = checksum + drop_bit 8 (addr AND 0xff00);
          checksum = checksum + (data AND 0xff);
          checksum = checksum + drop_bit 8 (data AND 0xff00);
          cb = checksum AND 0xff
      in (NOT cb + 1) AND 0xff)"

definition hex_record :: "16 word \<Rightarrow> 16 word \<Rightarrow> string" where
  "hex_record addr data = '':02'' @ fmt_0X 4 (unat addr) @ ''00'' @ fmt_0X 4 (unat data) @ fmt_0X 2 (unat (checksum_byte addr data)) @ [CHR 0x0A]"

function gen_loop :: "16 word \<Rightarrow> byte list \<Rightarrow> string" where
  "gen_loop addr input =
     (if addr < 1024 then
        let (data, input) = fread_data input in hex_record addr data @ gen_loop (addr + 1) input
      else [])"
  by pat_completeness auto
termination
proof (relation "measure (\<lambda>(a, _). 1024 - unat a)")
  fix addr :: "16 word" and i j :: "byte list" and x :: "16 word \<times> byte list" and d
  assume "addr < 1024"
  then have "unat addr < 1024" by (simp add: word_less_nat_alt)
  then show "((addr + 1, j), addr, i) \<in> measure (\<lambda>(a, _). 1024 - unat a)" by (simp add: unat_word_ariths)
qed simp

declare gen_loop.simps [simp del]

definition genbootcode :: "byte list \<Rightarrow> string" where
  "genbootcode input = gen_loop 0 input @ '':00000001FF'' @ [CHR 0x0A]"

section \<open>A reader of the format\<close>

text \<open>A record is a colon and bytes in hexadecimal: the number of data bytes, the address, the type, the data and a checksum that
  makes the sum of all bytes 0.  Records of type 0 carry data, a record of type 1 ends the file.\<close>

definition hex_value :: "char \<Rightarrow> nat option" where
  "hex_value c = map_of (zip ''0123456789ABCDEF'' [0..<16]) c"

fun hex_bytes :: "string \<Rightarrow> byte list option" where
  "hex_bytes [] = Some []"
| "hex_bytes (c # d # cs) =
     (case (hex_value c, hex_value d, hex_bytes cs) of
        (Some x, Some y, Some bs) \<Rightarrow> Some (of_nat (16 * x + y) # bs)
      | _ \<Rightarrow> None)"
| "hex_bytes _ = None"

datatype hex_rec = HexRec (rec_addr: nat) (rec_type: byte) (rec_data: "byte list")

fun read_record :: "string \<Rightarrow> hex_rec option" where
  "read_record (c # cs) =
     (if c \<noteq> CHR '':'' then None
      else case hex_bytes cs of
             Some (n # ah # al # t # bs) \<Rightarrow>
               if length bs = unat n + 1 \<and> sum_list (n # ah # al # t # bs) = 0
               then Some (HexRec (256 * unat ah + unat al) t (butlast bs)) else None
           | _ \<Rightarrow> None)"
| "read_record [] = None"

function read_hex :: "string \<Rightarrow> (nat \<times> byte list) list option" where
  "read_hex cs =
     (case dropWhile (\<lambda>c. c \<noteq> CHR 0x0A) cs of
        [] \<Rightarrow> None
      | _ # rest \<Rightarrow>
          (case read_record (takeWhile (\<lambda>c. c \<noteq> CHR 0x0A) cs) of
             None \<Rightarrow> None
           | Some r \<Rightarrow>
               if rec_type r = 1 then Some []
               else if rec_type r = 0 then map_option ((#) (rec_addr r, rec_data r)) (read_hex rest)
               else None))"
  by pat_completeness auto
termination
proof (relation "measure length")
  fix cs rest :: string and x
  assume "dropWhile (\<lambda>c. c \<noteq> CHR 0x0A) cs = x # rest"
  then have "length (x # rest) \<le> length cs" by (metis length_dropWhile_le)
  then show "(rest, cs) \<in> measure length" by simp
qed simp

declare read_hex.simps [simp del]

section \<open>Digits\<close>

lemma hex_value_digit: "d < 16 \<Longrightarrow> hex_value (hex_digit d) = Some d"
  using map_of_zip_nth [of "''0123456789ABCDEF''" "[0..<16]" d] by (simp add: hex_value_def hex_digit_def del: upt_Suc upt_rec_numeral)

lemma hex_digit_not_newline: "d < 16 \<Longrightarrow> hex_digit d \<noteq> CHR 0x0A"
  by (simp add: hex_digit_def less_Suc_eq numeral_eq_Suc) auto

text \<open>The digits of a number that fits the width.\<close>

primrec digits_fix :: "nat \<Rightarrow> nat \<Rightarrow> string" where
  "digits_fix 0 n = []"
| "digits_fix (Suc w) n = digits_fix w (n div 16) @ [hex_digit (n mod 16)]"

lemma digits_fix_0: "digits_fix w 0 = replicate w CHR ''0''"
  by (induction w) (simp_all add: hex_digit_def replicate_append_same)

lemma fmt_0X_fix: "0 < w \<Longrightarrow> n < 16 ^ w \<Longrightarrow> fmt_0X w n = digits_fix w n"
proof (induction w arbitrary: n)
  case (Suc w)
  show ?case
  proof (cases "n < 16")
    case True
    then show ?thesis by (simp add: fmt_0X_def hex_str.simps [of n] digits_fix_0)
  next
    case False
    then have "0 < w" using Suc.prems by (cases w) auto
    moreover have "n div 16 < 16 ^ w" using Suc.prems(2) by (simp add: less_mult_imp_div_less mult.commute)
    ultimately have "fmt_0X w (n div 16) = digits_fix w (n div 16)" by (rule Suc.IH)
    then show ?thesis using False by (simp add: fmt_0X_def hex_str.simps [of n])
  qed
qed simp

definition hex2 :: "byte \<Rightarrow> string" where
  "hex2 b = [hex_digit (unat b div 16), hex_digit (unat b mod 16)]"

lemma hex_bytes_hex2: "hex_bytes (hex2 b @ cs) = map_option ((#) b) (hex_bytes cs)"
proof -
  have "unat b < 256" using unsigned_less [of b, where 'a = nat] by simp
  moreover have "of_nat (16 * (unat b div 16) + unat b mod 16) = b" by (simp only: mult_div_mod_eq of_nat_unat_word)
  ultimately show ?thesis by (simp add: hex2_def hex_value_digit split: option.splits)
qed

lemma hex2_chars: "CHR 0x0A \<notin> set (hex2 b)"
proof -
  have "unat b < 256" using unsigned_less [of b, where 'a = nat] by simp
  then have "unat b div 16 < 16" "unat b mod 16 < 16" by simp_all
  then show ?thesis using not_sym [OF hex_digit_not_newline] by (simp add: hex2_def)
qed

lemma fmt_2: "fmt_0X 2 (unat b) = hex2 b" for b :: byte
proof -
  have "unat b < 16 ^ 2" using unsigned_less [of b, where 'a = nat] by simp
  then show ?thesis by (simp add: fmt_0X_fix hex2_def numeral_2_eq_2)
qed

lemma digits_4: "n < 65536 \<Longrightarrow> digits_fix 4 n
  = [hex_digit (n div 256 div 16), hex_digit (n div 256 mod 16), hex_digit (n mod 256 div 16), hex_digit (n mod 256 mod 16)]"
proof -
  assume l: "n < 65536"
  have e: "n div 16 div 16 = n div 256" by (simp flip: div_mult2_eq)
  have "n div 256 div 16 mod 16 = n div 256 div 16" using l by (intro mod_less) (simp flip: div_mult2_eq)
  moreover have "n div 16 mod 16 = n mod 256 div 16" using mod_mult2_eq [of n 16 16] by simp
  moreover have "n mod 16 = n mod 256 mod 16" by (simp add: mod_mod_cancel)
  moreover have "digits_fix 4 n = [hex_digit (n div 16 div 16 div 16 mod 16), hex_digit (n div 16 div 16 mod 16),
      hex_digit (n div 16 mod 16), hex_digit (n mod 16)]"
  proof -
    have four: "(4 :: nat) = Suc (Suc (Suc (Suc 0)))" by simp
    show ?thesis unfolding four digits_fix.simps by simp
  qed
  ultimately show ?thesis by (simp only: e)
qed

lemma fmt_4: "fmt_0X 4 (unat w) = hex2 (ucast (drop_bit 8 w)) @ hex2 (ucast w)" for w :: "16 word"
proof -
  have l: "unat w < 65536" using unsigned_less [of w, where 'a = nat] by simp
  then have "fmt_0X 4 (unat w) = digits_fix 4 (unat w)" by (simp add: fmt_0X_fix)
  then show ?thesis by (simp only: digits_4 [OF l] hex2_def unat_bytes(1) [of w] unat_bytes(2) [of w] append.simps)
qed

section \<open>Records\<close>

lemma ucast_add_byte: "ucast (x + y) = (ucast x + ucast y :: byte)" for x y :: "16 word"
proof -
  have "take_bit 8 (take_bit 16 a + take_bit 16 b) = take_bit 8 (a + b)" for a b :: int
    using take_bit_add [of 8 "take_bit 16 a" "take_bit 16 b"] take_bit_add [of 8 a b] by simp
  then show ?thesis by transfer simp
qed

lemma ucast_minus_byte: "ucast (- x) = (- ucast x :: byte)" for x :: "16 word"
proof -
  have "take_bit 8 (- take_bit 16 a) = take_bit 8 (- a)" for a :: int
    using take_bit_minus [of 8 "take_bit 16 a"] take_bit_minus [of 8 a] by simp
  then show ?thesis by transfer simp
qed

lemma and_ff: "x AND 0xff = ucast (ucast x :: byte)" for x :: "16 word"
proof -
  have "(0xff :: 16 word) = mask 8" by (simp add: mask_eq_exp_minus_1)
  then have "x AND 0xff = x AND mask 8" by (simp only:)
  also have "\<dots> = ucast (ucast x :: byte)" by (rule bit_word_eqI) (auto simp: bit_simps)
  finally show ?thesis .
qed

lemma high_byte: "drop_bit 8 (x AND 0xff00) = ucast (ucast (drop_bit 8 x) :: byte)" for x :: "16 word"
proof -
  have "(0xff00 :: 16 word) = NOT (mask 8)" by (simp add: mask_eq_exp_minus_1)
  then have "drop_bit 8 (x AND 0xff00) = drop_bit 8 (x AND NOT (mask 8))" by (simp only:)
  also have "\<dots> = ucast (ucast (drop_bit 8 x) :: byte)" by (rule bit_word_eqI) (auto simp: bit_simps)
  finally show ?thesis .
qed

lemma checksum_byte_neg:
  "checksum_byte a d = ucast (- (2 + ucast a + ucast (drop_bit 8 a) + ucast d + ucast (drop_bit 8 d)) :: byte)"
proof -
  have neg: "NOT x + 1 = - x" for x :: "16 word" by (simp add: minus_eq_not_plus_1)
  have u: "ucast (ucast b :: 16 word) = b" for b :: byte by (rule bit_word_eqI) (auto simp: bit_simps)
  have "ucast (2 :: 16 word) = (2 :: byte)" by simp
  then show ?thesis
    unfolding checksum_byte_def Let_def and_ff high_byte neg ucast_add_byte ucast_minus_byte u by simp
qed

lemma hex_record_eq:
  "hex_record a d = CHR '':'' # hex2 2 @ hex2 (ucast (drop_bit 8 a)) @ hex2 (ucast a) @ hex2 0 @ hex2 (ucast (drop_bit 8 d)) @ hex2 (ucast d)
     @ hex2 (- (2 + ucast a + ucast (drop_bit 8 a) + ucast d + ucast (drop_bit 8 d))) @ [CHR 0x0A]"
proof -
  let ?c = "- (2 + ucast a + ucast (drop_bit 8 a) + ucast d + ucast (drop_bit 8 d)) :: byte"
  have "unat (checksum_byte a d) = unat ?c" unfolding checksum_byte_neg
    by (simp add: unsigned_ucast_eq take_bit_nat_eq_self unsigned_less order_less_le_trans [OF unsigned_less])
  then show ?thesis by (simp add: hex_record_def fmt_4 fmt_2) (simp add: hex2_def hex_digit_def)
qed

lemma read_record_line:
  "read_record (CHR '':'' # hex2 2 @ hex2 ah @ hex2 al @ hex2 0 @ hex2 dh @ hex2 dl @ hex2 (- (2 + al + ah + dl + dh)))
    = Some (HexRec (256 * unat ah + unat al) 0 [dh, dl])"
proof -
  let ?c = "- (2 + al + ah + dl + dh)"
  have "hex_bytes (hex2 2 @ hex2 ah @ hex2 al @ hex2 0 @ hex2 dh @ hex2 dl @ hex2 ?c @ []) = Some [2, ah, al, 0, dh, dl, ?c]"
    by (simp only: hex_bytes_hex2 hex_bytes.simps(1) option.map)
  moreover have "sum_list [2, ah, al, 0, dh, dl, ?c] = 0" by simp
  ultimately show ?thesis by (simp only: append_Nil2 read_record.simps option.case list.case) simp
qed

lemma line_split:
  assumes "\<forall>x \<in> set l. x \<noteq> c"
  shows "takeWhile (\<lambda>x. x \<noteq> c) (l @ c # cs) = l" "dropWhile (\<lambda>x. x \<noteq> c) (l @ c # cs) = c # cs"
  using assms by (simp_all add: takeWhile_append2 dropWhile_append2)

lemma read_hex_record:
  "read_hex (hex_record a d @ cs) = map_option ((#) (unat a, [ucast (drop_bit 8 d), ucast d])) (read_hex cs)"
proof -
  let ?c = "- (2 + ucast a + ucast (drop_bit 8 a) + ucast d + ucast (drop_bit 8 d)) :: byte"
  let ?l = "CHR '':'' # hex2 2 @ hex2 (ucast (drop_bit 8 a)) @ hex2 (ucast a) @ hex2 0 @ hex2 (ucast (drop_bit 8 d)) @ hex2 (ucast d) @ hex2 ?c"
  have r: "hex_record a d @ cs = ?l @ CHR 0x0A # cs" by (simp add: hex_record_eq)
  have n: "\<forall>x \<in> set ?l. x \<noteq> CHR 0x0A" using hex2_chars by (auto simp del: of_char_of)
  note w = line_split [OF n, of cs]
  have a: "256 * unat (ucast (drop_bit 8 a) :: byte) + unat (ucast a :: byte) = unat a"
    by (simp only: unat_bytes(1) [of a] unat_bytes(2) [of a] mult_div_mod_eq)
  have "read_hex (?l @ CHR 0x0A # cs) = map_option ((#) (unat a, [ucast (drop_bit 8 d), ucast d])) (read_hex cs)"
    by (subst read_hex.simps) (simp only: w list.case option.case read_record_line a hex_rec.sel, simp)
  then show ?thesis by (simp only: r)
qed

section \<open>The image\<close>

text \<open>The bytes of word \<open>k\<close> of the ROM, the more significant one first.\<close>

definition rom_word :: "byte list \<Rightarrow> nat \<Rightarrow> byte list" where
  "rom_word input k = (if 2 * k + 1 < length input then [input ! (2 * k + 1), input ! (2 * k)] else [0, 0])"

lemma fread_data_ok: "fread_data xs = (d, ys) \<Longrightarrow> [ucast (drop_bit 8 d), ucast d] = rom_word xs 0 \<and> ys = drop 2 xs"
proof (induction xs rule: fread_data.induct)
  case (1 a b xs)
  have "ucast (drop_bit 8 (ucast a OR push_bit 8 (ucast b)) :: 16 word) = b" "ucast (ucast a OR push_bit 8 (ucast b) :: 16 word) = a"
    by (rule bit_word_eqI, auto simp: bit_simps dest: bit_imp_le_length)+
  moreover have "d = ucast a OR push_bit 8 (ucast b)" "ys = xs" using 1 by simp_all
  ultimately show ?case by (simp only: rom_word_def) simp
qed (auto simp: rom_word_def)

lemma rom_word_drop: "rom_word (drop 2 xs) k = rom_word xs (Suc k)"
  by (auto simp: rom_word_def less_diff_conv)

lemma gen_loop_read:
  assumes "read_hex cs = Some []" and "unat a \<le> 1024"
  shows "read_hex (gen_loop a xs @ cs) = Some (map (\<lambda>k. (k, rom_word xs (k - unat a))) [unat a..<1024])"
  using assms(2)
proof (induction "1024 - unat a" arbitrary: a xs)
  case 0
  then show ?case using assms(1) by (simp add: gen_loop.simps [of a] word_less_nat_alt)
next
  case (Suc n)
  obtain d ys where f: "fread_data xs = (d, ys)" by (cases "fread_data xs")
  have w: "[ucast (drop_bit 8 d), ucast d] = rom_word xs 0" "ys = drop 2 xs" using fread_data_ok [OF f] by simp_all
  have l: "unat a < 1024" "a < 1024" using Suc.hyps(2) by (simp_all add: word_less_nat_alt)
  then have a: "unat (a + 1) = Suc (unat a)" by (simp add: unat_word_ariths)
  have "read_hex (gen_loop (a + 1) ys @ cs) = Some (map (\<lambda>k. (k, rom_word ys (k - unat (a + 1)))) [unat (a + 1)..<1024])"
    using Suc.hyps(2) a l by (intro Suc.hyps(1)) simp_all
  moreover have "map (\<lambda>k. (k, rom_word ys (k - unat (a + 1)))) [unat (a + 1)..<1024]
      = map (\<lambda>k. (k, rom_word xs (k - unat a))) [Suc (unat a)..<1024]"
    unfolding a w(2) by (rule map_cong [OF refl]) (simp add: rom_word_drop Suc_diff_Suc del: upt_Suc)
  moreover have "gen_loop a xs @ cs = hex_record a d @ gen_loop (a + 1) ys @ cs" using f l by (subst gen_loop.simps) simp
  moreover have "[unat a..<1024] = unat a # [Suc (unat a)..<1024]" using l by (simp add: upt_conv_Cons)
  ultimately show ?case by (simp only: read_hex_record w(1) option.map list.map diff_self_eq_0)
qed

text \<open>C33 The image that the generator prints is well formed, with correct lengths and checksums, and a reader of the format gets
  back the boot code: 1024 words, word \<open>k\<close> made of the input bytes \<open>2k\<close> and \<open>2k + 1\<close>, and 0 behind the end of the input.\<close>

theorem genbootcode_roundtrip:
  "read_hex (genbootcode input) = Some (map (\<lambda>k. (k, rom_word input k)) [0..<1024])"
proof -
  have "read_hex ('':00000001FF'' @ [CHR 0x0A]) = Some []"
    by (subst read_hex.simps) (simp add: hex_value_def upt_rec)
  from gen_loop_read [OF this, of 0 input] show ?thesis by (simp only: genbootcode_def) simp
qed

end
