(* ===== verification/CType.thy ===== *)
theory CType
  imports Prelude
begin

text \<open>
  Character classes (\<open>sw/sys-libs/libc/include/ctype.h\<close>).  The functions take a C \<open>int\<close>, which holds
  the value of an unsigned byte or a negative \<open>EOF\<close>; \<open>isdigit\<close> tests in unsigned arithmetic.
\<close>

definition isupper :: "int \<Rightarrow> bool" where
  "isupper c \<longleftrightarrow> c \<ge> chi (CHR ''A'') \<and> c \<le> chi (CHR ''Z'')"

definition islower :: "int \<Rightarrow> bool" where
  "islower c \<longleftrightarrow> c \<ge> chi (CHR ''a'') \<and> c \<le> chi (CHR ''z'')"

definition isalpha :: "int \<Rightarrow> bool" where
  "isalpha c \<longleftrightarrow> islower c \<or> isupper c"

definition isdigit :: "int \<Rightarrow> bool" where
  "isdigit c \<longleftrightarrow> (word_of_int c - of_char (CHR ''0'') :: uint) \<le> 9"

definition isalnum :: "int \<Rightarrow> bool" where
  "isalnum c \<longleftrightarrow> isalpha c \<or> isdigit c"

definition isascii :: "int \<Rightarrow> bool" where
  "isascii c \<longleftrightarrow> \<not> (c AND NOT 0x7f) \<noteq> 0"

definition isblank :: "int \<Rightarrow> bool" where
  "isblank c \<longleftrightarrow> c = 9 \<or> c = chi (CHR '' '')"

definition iscntrl :: "int \<Rightarrow> bool" where
  "iscntrl c \<longleftrightarrow> c < 0x20"

definition isspace :: "int \<Rightarrow> bool" where
  "isspace c \<longleftrightarrow> c = chi (CHR '' '') \<or> c = 10 \<or> c = 9 \<or> c = 13"

definition isxdigit :: "int \<Rightarrow> bool" where
  "isxdigit c \<longleftrightarrow> isdigit c \<or> (c \<ge> chi (CHR ''a'') \<and> c \<le> chi (CHR ''f''))
     \<or> (c \<ge> chi (CHR ''A'') \<and> c \<le> chi (CHR ''F''))"

definition toupper :: "int \<Rightarrow> int" where
  "toupper c = (if islower c then c AND NOT 32 else c)"

definition tolower :: "int \<Rightarrow> int" where
  "tolower c = (if isupper c then c OR 32 else c)"

lemmas ctype_defs = isupper_def islower_def isalpha_def isalnum_def isblank_def isspace_def isxdigit_def

text \<open>The unsigned test of \<open>isdigit\<close> is the plain range test on every C \<open>int\<close>.\<close>

lemma isdigit_iff:
  assumes "- (2 ^ 31) \<le> c" and "c < 2 ^ 31"
  shows "isdigit c \<longleftrightarrow> 48 \<le> c \<and> c \<le> 57"
proof -
  have "uint (word_of_int c - 48 :: uint) = (c - 48) mod 2 ^ 32"
    by (simp add: uint_word_ariths uint_word_of_int mod_diff_left_eq)
  also have "\<dots> \<le> 9 \<longleftrightarrow> 48 \<le> c \<and> c \<le> 57"
  proof (cases "48 \<le> c")
    case True
    then show ?thesis using assms by (simp add: mod_pos_pos_trivial)
  next
    case False
    then have "(c - 48 + 2 ^ 32) mod 2 ^ 32 = c - 48 + 2 ^ 32"
      using assms by (intro mod_pos_pos_trivial) auto
    then have "(c - 48) mod 2 ^ 32 = c - 48 + 2 ^ 32" by (simp only: mod_add_self2)
    then show ?thesis using False assms by simp
  qed
  finally show ?thesis by (simp add: isdigit_def word_le_def)
qed

text \<open>Case conversion on the letters adds or subtracts 32.\<close>

lemma case_bit:
  assumes "c \<in> {0..25}"
  shows "(97 + c) AND NOT 32 = 65 + c" and "(65 + c) OR 32 = 97 + (c :: int)"
proof -
  have "c \<in> set [0..25]" using assms by simp
  moreover have "\<forall>c \<in> set [0..25]. (97 + c) AND NOT 32 = 65 + c \<and> (65 + c) OR 32 = 97 + (c :: int)"
    by code_simp
  ultimately show "(97 + c) AND NOT 32 = 65 + c" "(65 + c) OR 32 = 97 + c" by blast+
qed

lemma toupper_eq: "toupper c = (if islower c then c - 32 else c)"
  using case_bit(1) [of "c - 97"] by (simp add: toupper_def islower_def)

lemma tolower_eq: "tolower c = (if isupper c then c + 32 else c)"
  using case_bit(2) [of "c - 65"] by (simp add: tolower_def isupper_def)

lemma tolower_toupper: "islower c \<Longrightarrow> tolower (toupper c) = c"
  by (simp add: tolower_eq toupper_eq isupper_def islower_def)

lemma toupper_bound: "0 \<le> c \<Longrightarrow> c < 256 \<Longrightarrow> 0 \<le> toupper c \<and> toupper c < 256"
  by (auto simp: toupper_eq islower_def)

lemma toupper_0 [simp]: "toupper 0 = 0"
  by (simp add: toupper_def islower_def)

lemma toupper_0_iff: "toupper c = 0 \<longleftrightarrow> c = 0"
  by (auto simp: toupper_eq islower_def)

end
