(* ===== verification/Str_Ops.thy ===== *)
theory Str_Ops
  imports Mem_Ops CType "HOL-Library.Monad_Syntax"
begin

text \<open>
  The string functions of the C library (\<open>sw/sys-libs/libc/str*.c\<close>).  A loop that runs to a NUL byte
  does not end on memory without one: such loops are partial functions, and the value \<open>None\<close> is "does
  not return".  The lemmas show, for the strings that \<open>cstr\<close> describes, that every function returns and
  what it returns.  \<open>char\<close> is unsigned on this target.
\<close>

section \<open>Definitions\<close>

subsection \<open>Lengths and copies\<close>

partial_function (option) strlen_loop :: "mem \<Rightarrow> addr \<Rightarrow> addr option" where
  "strlen_loop m ss = (if m ss \<noteq> 0 then strlen_loop m (ss + 1) else Some ss)"

definition strlen :: "mem \<Rightarrow> addr \<Rightarrow> uint option" where
  "strlen m s = do { ss \<leftarrow> strlen_loop m s; Some (ss - s) }"

function strnlen_loop :: "mem \<Rightarrow> addr \<Rightarrow> uint \<Rightarrow> addr" where
  "strnlen_loop m ss maxlen =
     (if maxlen > 0 \<and> m ss \<noteq> 0 then strnlen_loop m (ss + 1) (maxlen - 1) else ss)"
  by pat_completeness auto
termination
  by (relation "measure (\<lambda>(m, ss, n). unat n)") (auto intro: unat_pred_less)

definition strnlen :: "mem \<Rightarrow> addr \<Rightarrow> uint \<Rightarrow> uint" where
  "strnlen m s maxlen = strnlen_loop m s maxlen - s"

partial_function (option) strcpy_loop :: "mem \<Rightarrow> addr \<Rightarrow> addr \<Rightarrow> mem option" where
  "strcpy_loop m q p =
     (let c = m p; m = m(q := c) in if c \<noteq> 0 then strcpy_loop m (q + 1) (p + 1) else Some m)"

definition strcpy :: "mem \<Rightarrow> addr \<Rightarrow> addr \<Rightarrow> (mem \<times> addr) option" where
  "strcpy m dst src = do { m \<leftarrow> strcpy_loop m dst src; Some (m, dst) }"

function strncpy_loop :: "mem \<Rightarrow> addr \<Rightarrow> addr \<Rightarrow> uint \<Rightarrow> mem \<times> addr \<times> uint" where
  "strncpy_loop m q p n =
     (if n \<noteq> 0 then
        let n = n - 1; c = m p; m = m(q := c)
        in if c = 0 then (m, q + 1, n) else strncpy_loop m (q + 1) (p + 1) n
      else (m, q, n))"
  by pat_completeness auto
termination
  by (relation "measure (\<lambda>(m, q, p, n). unat n)") (auto intro: unat_pred_less)

definition strncpy :: "mem \<Rightarrow> addr \<Rightarrow> addr \<Rightarrow> uint \<Rightarrow> mem \<times> addr" where
  "strncpy m dst src n =
     (let (m, q, n) = strncpy_loop m dst src n; (m, _) = memset m q 0 n in (m, dst))"

partial_function (option) strlcpy_loop ::
  "mem \<Rightarrow> addr \<Rightarrow> addr \<Rightarrow> uint \<Rightarrow> uint \<Rightarrow> (mem \<times> addr \<times> uint) option" where
  "strlcpy_loop m q p bytes sz =
     (let c = m p in
      if c \<noteq> 0 then
        if bytes + 1 < sz then strlcpy_loop (m(q := c)) (q + 1) (p + 1) (bytes + 1) sz
        else strlcpy_loop m q (p + 1) (bytes + 1) sz
      else Some (m, q, bytes))"

definition strlcpy :: "mem \<Rightarrow> addr \<Rightarrow> addr \<Rightarrow> uint \<Rightarrow> (mem \<times> uint) option" where
  "strlcpy m dst src sz = do {
     (m, q, bytes) \<leftarrow> strlcpy_loop m dst src 0 sz;
     Some (if sz \<noteq> 0 then m(q := 0) else m, bytes) }"

partial_function (option) strchr_loop :: "mem \<Rightarrow> addr \<Rightarrow> byte \<Rightarrow> addr option" where
  "strchr_loop m s c =
     (if m s \<noteq> c then if m s = 0 then Some NULL else strchr_loop m (s + 1) c else Some s)"

definition strchr :: "mem \<Rightarrow> addr \<Rightarrow> uint \<Rightarrow> addr option" where
  "strchr m s c = strchr_loop m s (ucast c)"

definition strcat :: "mem \<Rightarrow> addr \<Rightarrow> addr \<Rightarrow> (mem \<times> addr) option" where
  "strcat m dst src = do { q \<leftarrow> strchr m dst 0; (m, _) \<leftarrow> strcpy m q src; Some (m, dst) }"

function strncat_loop :: "mem \<Rightarrow> addr \<Rightarrow> addr \<Rightarrow> uint \<Rightarrow> mem" where
  "strncat_loop m q p n =
     (if n \<noteq> 0 then
        let c = m p; m = m(q := c)
        in if c = 0 then m else strncat_loop m (q + 1) (p + 1) (n - 1)
      else m(q := 0))"
  by pat_completeness auto
termination
  by (relation "measure (\<lambda>(m, q, p, n). unat n)") (auto intro: unat_pred_less)

definition strncat :: "mem \<Rightarrow> addr \<Rightarrow> addr \<Rightarrow> uint \<Rightarrow> (mem \<times> addr) option" where
  "strncat m dst src n = do { q \<leftarrow> strchr m dst 0; Some (strncat_loop m q src n, dst) }"

text \<open>The first loop of \<open>strlcat\<close> looks for the end of \<open>dst\<close> within \<open>sz\<close> bytes; the second is that of \<open>strlcpy\<close>.\<close>

function strlcat_end :: "mem \<Rightarrow> addr \<Rightarrow> uint \<Rightarrow> uint \<Rightarrow> addr \<times> uint" where
  "strlcat_end m q bytes sz =
     (if bytes < sz \<and> m q \<noteq> 0 then strlcat_end m (q + 1) (bytes + 1) sz else (q, bytes))"
  by pat_completeness auto
termination
  by (relation "measure (\<lambda>(m, q, b, n). unat n - unat b)")
    (auto simp: unat_succ_less word_less_nat_alt)

definition strlcat :: "mem \<Rightarrow> addr \<Rightarrow> addr \<Rightarrow> uint \<Rightarrow> (mem \<times> uint) option" where
  "strlcat m dst src sz =
     (let (q, bytes) = strlcat_end m dst 0 sz in
      if bytes = sz then do { n \<leftarrow> strlen m src; Some (m, bytes + n) }
      else do {
        (m, q, bytes) \<leftarrow> strlcpy_loop m q src bytes sz;
        Some (m(q := 0), bytes) })"

subsection \<open>Comparisons\<close>

partial_function (option) strcmp :: "mem \<Rightarrow> addr \<Rightarrow> addr \<Rightarrow> int option" where
  "strcmp m c1 c2 =
     (let c = m c1; d = uint c - uint (m c2)
      in if d \<noteq> 0 \<or> c = 0 then Some d else strcmp m (c1 + 1) (c2 + 1))"

function strncmp_loop :: "mem \<Rightarrow> addr \<Rightarrow> addr \<Rightarrow> uint \<Rightarrow> int \<Rightarrow> int" where
  "strncmp_loop m c1 c2 n d =
     (if n \<noteq> 0 then
        let c = m c1; d = uint c - uint (m c2)
        in if d \<noteq> 0 \<or> c = 0 then d else strncmp_loop m (c1 + 1) (c2 + 1) (n - 1) d
      else d)"
  by pat_completeness auto
termination
  by (relation "measure (\<lambda>(m, c1, c2, n, d). unat n)") (auto intro: unat_pred_less)

definition strncmp :: "mem \<Rightarrow> addr \<Rightarrow> addr \<Rightarrow> uint \<Rightarrow> int" where
  "strncmp m s1 s2 n = strncmp_loop m s1 s2 n 0"

partial_function (option) strcasecmp :: "mem \<Rightarrow> addr \<Rightarrow> addr \<Rightarrow> int option" where
  "strcasecmp m c1 c2 =
     (let c = m c1; d = toupper (uint c) - toupper (uint (m c2))
      in if d \<noteq> 0 \<or> c = 0 then Some d else strcasecmp m (c1 + 1) (c2 + 1))"

function strncasecmp_loop :: "mem \<Rightarrow> addr \<Rightarrow> addr \<Rightarrow> uint \<Rightarrow> int \<Rightarrow> int" where
  "strncasecmp_loop m c1 c2 n d =
     (if n \<noteq> 0 then
        let c = m c1; d = toupper (uint c) - toupper (uint (m c2))
        in if d \<noteq> 0 \<or> c = 0 then d else strncasecmp_loop m (c1 + 1) (c2 + 1) (n - 1) d
      else d)"
  by pat_completeness auto
termination
  by (relation "measure (\<lambda>(m, c1, c2, n, d). unat n)") (auto intro: unat_pred_less)

definition strncasecmp :: "mem \<Rightarrow> addr \<Rightarrow> addr \<Rightarrow> uint \<Rightarrow> int" where
  "strncasecmp m s1 s2 n = strncasecmp_loop m s1 s2 n 0"

subsection \<open>Searches\<close>

partial_function (option) strrchr_loop :: "mem \<Rightarrow> addr \<Rightarrow> byte \<Rightarrow> addr \<Rightarrow> addr option" where
  "strrchr_loop m s c found =
     (if m s \<noteq> 0 then strrchr_loop m (s + 1) c (if m s = c then s else found) else Some found)"

definition strrchr :: "mem \<Rightarrow> addr \<Rightarrow> uint \<Rightarrow> addr option" where
  "strrchr m s c = strrchr_loop m s (ucast c) NULL"

definition strstr :: "mem \<Rightarrow> addr \<Rightarrow> addr \<Rightarrow> addr option" where
  "strstr m haystack needle = do {
     n \<leftarrow> strlen m haystack;
     k \<leftarrow> strlen m needle;
     memmem m haystack n needle k }"

text \<open>The inner loop of \<open>strspn\<close>, \<open>strcspn\<close> and \<open>strpbrk\<close>: the first byte of \<open>s2\<close> equal to \<open>x\<close>, or its end.\<close>

partial_function (option) span_find :: "mem \<Rightarrow> byte \<Rightarrow> addr \<Rightarrow> addr option" where
  "span_find m x c =
     (if m c \<noteq> 0 then if x = m c then Some c else span_find m x (c + 1) else Some c)"

partial_function (option) strspn_loop :: "mem \<Rightarrow> addr \<Rightarrow> addr \<Rightarrow> addr option" where
  "strspn_loop m s1 s2 =
     (if m s1 \<noteq> 0 then do {
        c \<leftarrow> span_find m (m s1) s2;
        if m c = 0 then Some s1 else strspn_loop m (s1 + 1) s2 }
      else Some s1)"

definition strspn :: "mem \<Rightarrow> addr \<Rightarrow> addr \<Rightarrow> uint option" where
  "strspn m s1 s2 = do { e \<leftarrow> strspn_loop m s1 s2; Some (e - s1) }"

partial_function (option) strcspn_loop :: "mem \<Rightarrow> addr \<Rightarrow> addr \<Rightarrow> addr option" where
  "strcspn_loop m s1 s2 =
     (if m s1 \<noteq> 0 then do {
        c \<leftarrow> span_find m (m s1) s2;
        if m c \<noteq> 0 then Some s1 else strcspn_loop m (s1 + 1) s2 }
      else Some s1)"

definition strcspn :: "mem \<Rightarrow> addr \<Rightarrow> addr \<Rightarrow> uint option" where
  "strcspn m s1 s2 = do { e \<leftarrow> strcspn_loop m s1 s2; Some (e - s1) }"

partial_function (option) strpbrk_loop :: "mem \<Rightarrow> addr \<Rightarrow> addr \<Rightarrow> addr \<Rightarrow> (addr \<times> addr) option" where
  "strpbrk_loop m s1 s2 c =
     (if m s1 \<noteq> 0 then do {
        c \<leftarrow> span_find m (m s1) s2;
        if m c \<noteq> 0 then Some (s1, c) else strpbrk_loop m (s1 + 1) s2 c }
      else Some (s1, c))"

definition strpbrk :: "mem \<Rightarrow> addr \<Rightarrow> addr \<Rightarrow> addr option" where
  "strpbrk m s1 s2 =
     (if m s1 = 0 then Some NULL
      else do {
        (s1, c) \<leftarrow> strpbrk_loop m s1 s2 s2;
        Some (if m c = 0 then NULL else s1) })"

subsection \<open>Tokens\<close>

text \<open>The pointer that \<open>stringp\<close> and \<open>holder\<close> point to is passed and returned as a value.\<close>

definition strsep :: "mem \<Rightarrow> addr \<Rightarrow> addr \<Rightarrow> (mem \<times> addr \<times> addr) option" where
  "strsep m stringp delim =
     (let s = stringp in
      if s = NULL then Some (m, stringp, NULL)
      else do {
        e \<leftarrow> strpbrk m s delim;
        Some (if e \<noteq> NULL then (m(e := 0), e + 1, s) else (m, e, s)) })"

partial_function (option) strtok_loop :: "mem \<Rightarrow> addr \<Rightarrow> addr \<Rightarrow> (mem \<times> addr \<times> addr) option" where
  "strtok_loop m holder delim = do {
     (m, holder, s) \<leftarrow> strsep m holder delim;
     if s \<noteq> NULL \<and> m s = 0 then strtok_loop m holder delim else Some (m, holder, s) }"

definition strtok_r :: "mem \<Rightarrow> addr \<Rightarrow> addr \<Rightarrow> addr \<Rightarrow> (mem \<times> addr \<times> addr) option" where
  "strtok_r m s delim holder = strtok_loop m (if s \<noteq> NULL then s else holder) delim"

text \<open>\<open>strtok\<close> keeps the holder in a static variable, threaded here as an argument and a result.\<close>

definition strtok :: "addr \<Rightarrow> mem \<Rightarrow> addr \<Rightarrow> addr \<Rightarrow> (mem \<times> addr \<times> addr) option" where
  "strtok holder m s delim = strtok_r m s delim holder"

declare strnlen_loop.simps [simp del] strncpy_loop.simps [simp del] strncat_loop.simps [simp del]
  strlcat_end.simps [simp del] strncmp_loop.simps [simp del] strncasecmp_loop.simps [simp del]

section \<open>Lengths and copies\<close>

lemma strlen_loop_ok: "cstr m s xs \<Longrightarrow> strlen_loop m s = Some (s + of_nat (length xs))"
  by (induction xs arbitrary: s) (subst strlen_loop.simps, simp)+

lemma strlen_ok: "cstr m s xs \<Longrightarrow> strlen m s = Some (of_nat (length xs))"
  by (simp add: strlen_def strlen_loop_ok)

lemma strnlen_loop_ok:
  "cstr m s xs \<Longrightarrow> strnlen_loop m s n = s + of_nat (min (unat n) (length xs))"
proof (induction xs arbitrary: s n)
  case (Cons x xs)
  show ?case
  proof (cases "n = 0")
    case False
    then show ?thesis using Cons
      by (subst strnlen_loop.simps) (simp add: unat_Suc_pred [OF False] word_gt_0)
  qed (subst strnlen_loop.simps, simp)
qed (subst strnlen_loop.simps, simp)

lemma strnlen_ok: "cstr m s xs \<Longrightarrow> strnlen m s n = of_nat (min (unat n) (length xs))"
  by (simp add: strnlen_def strnlen_loop_ok)

lemma strcpy_loop_ok:
  assumes "cstr m p xs" and "region q (Suc (length xs)) \<inter> region p (Suc (length xs)) = {}"
  shows "strcpy_loop m q p = Some (store_bytes m q (xs @ [0]))"
  using assms
proof (induction xs arbitrary: m q p)
  case Nil
  then show ?case by (subst strcpy_loop.simps) (simp add: Let_def)
next
  case (Cons x xs)
  have sep: "region (q + 1) (Suc (length xs)) \<inter> region (p + 1) (Suc (length xs)) = {}"
    and "q \<notin> region (p + 1) (Suc (length xs))"
    using region_step [of q _ p] Cons.prems(2) by simp_all
  then have "cstr (m(q := x)) (p + 1) xs" using Cons.prems(1) by (simp add: cstr_upd_other)
  with sep have "strcpy_loop (m(q := x)) (q + 1) (p + 1)
      = Some (store_bytes (m(q := x)) (q + 1) (xs @ [0]))" by (rule Cons.IH [rotated])
  then show ?case using Cons.prems(1) by (subst strcpy_loop.simps) (simp add: Let_def)
qed

lemma strcpy_ok:
  assumes "cstr m src xs" and "region dst (Suc (length xs)) \<inter> region src (Suc (length xs)) = {}"
  shows "strcpy m dst src = Some (store_bytes m dst (xs @ [0]), dst)"
  using strcpy_loop_ok [OF assms] by (simp add: strcpy_def)

lemma strncpy_loop_ok:
  assumes "cstr m p xs" and "region q (unat n) \<inter> region p (Suc (length xs)) = {}"
    and "k = min (unat n) (Suc (length xs))"
  shows "strncpy_loop m q p n = (store_bytes m q (take k (xs @ [0])), q + of_nat k, n - of_nat k)"
  using assms
proof (induction xs arbitrary: m q p n k)
  case Nil
  show ?case
  proof (cases "n = 0")
    case False
    then show ?thesis using Nil
      by (subst strncpy_loop.simps) (simp add: Let_def unat_Suc_pred [OF False])
  qed (use Nil in \<open>subst strncpy_loop.simps, simp\<close>)
next
  case (Cons x xs)
  show ?case
  proof (cases "n = 0")
    case False
    note n = unat_Suc_pred [OF False]
    have sep: "region (q + 1) (unat (n - 1)) \<inter> region (p + 1) (Suc (length xs)) = {}"
      and "q \<notin> region (p + 1) (Suc (length xs))"
      using region_step [of q "unat (n - 1)" p "Suc (length xs)"] Cons.prems(2) n by simp_all
    then have c: "cstr (m(q := x)) (p + 1) xs" using Cons.prems(1) by (simp add: cstr_upd_other)
    let ?k = "min (unat (n - 1)) (Suc (length xs))"
    have "strncpy_loop (m(q := x)) (q + 1) (p + 1) (n - 1)
      = (store_bytes (m(q := x)) (q + 1) (take ?k (xs @ [0])), q + 1 + of_nat ?k, n - 1 - of_nat ?k)"
      by (rule Cons.IH [OF c sep refl])
    moreover have "k = Suc ?k" using Cons.prems(3) n by simp
    ultimately show ?thesis using False Cons.prems(1)
      by (subst strncpy_loop.simps) (simp add: Let_def diff_diff_eq)
  qed (use Cons in \<open>subst strncpy_loop.simps, simp\<close>)
qed

lemma strncpy_ok:
  assumes "cstr m src xs" and "region dst (unat n) \<inter> region src (Suc (length xs)) = {}"
  shows "strncpy m dst src n
    = (store_bytes m dst (take (unat n) xs @ replicate (unat n - length xs) 0), dst)"
proof -
  define k where "k = min (unat n) (Suc (length xs))"
  define ys where "ys = take k (xs @ [0])"
  have k: "unat (n - of_nat k) = unat n - k"
    using unat_sub [of "of_nat k" n] unat32_less [of n]
    by (simp add: k_def word_le_nat_alt unat_of_nat min_less_iff_disj)
  have eq: "ys @ replicate (unat n - k) 0 = take (unat n) xs @ replicate (unat n - length xs) 0"
    by (cases "unat n \<le> length xs")
      (auto simp: k_def ys_def min_def Suc_diff_le not_le Suc_le_eq replicate_append_same
        simp flip: replicate_Suc)
  have len: "length ys = k" by (simp add: ys_def k_def)
  have "strncpy_loop m dst src n = (store_bytes m dst ys, dst + of_nat k, n - of_nat k)"
    unfolding ys_def by (rule strncpy_loop_ok [OF assms k_def])
  then have "strncpy m dst src n = (store_bytes m dst (ys @ replicate (unat n - k) 0), dst)"
    by (simp add: strncpy_def memset_def memset_loop_store k store_bytes_append len)
  then show ?thesis by (simp only: eq)
qed

text \<open>A bounded copy keeps at most \<open>sz - 1\<close> bytes in all and counts every byte of the source.\<close>

lemma strlcpy_loop_ok:
  assumes "cstr m p xs" and "k = unat sz - 1 - unat b"
    and "region q (min k (length xs)) \<inter> region p (Suc (length xs)) = {}"
    and "unat b + length xs < 2 ^ 32"
  shows "strlcpy_loop m q p b sz
    = Some (store_bytes m q (take k xs), q + of_nat (min k (length xs)), b + of_nat (length xs))"
  using assms
proof (induction xs arbitrary: m q p b k)
  case Nil
  then show ?case by (subst strlcpy_loop.simps) (simp add: Let_def)
next
  case (Cons x xs)
  have b1: "unat (b + 1) = Suc (unat b)" using Cons.prems(4) by (simp add: unat_word_ariths)
  have more: "b + 1 < sz \<longleftrightarrow> 0 < k" using Cons.prems(2) b1 by (auto simp: word_less_nat_alt)
  show ?case
  proof (cases k)
    case 0
    have "strlcpy_loop m q (p + 1) (b + 1) sz = Some (store_bytes m q (take 0 xs),
        q + of_nat (min 0 (length xs)), b + 1 + of_nat (length xs))"
      using Cons.prems 0 b1 by (intro Cons.IH) (simp_all add: region_simps)
    then show ?thesis using Cons.prems(1) more 0 by (subst strlcpy_loop.simps) (simp add: Let_def)
  next
    case (Suc j)
    have sep: "region (q + 1) (min j (length xs)) \<inter> region (p + 1) (Suc (length xs)) = {}"
      and "q \<notin> region (p + 1) (Suc (length xs))"
      using region_step [of q "min j (length xs)" p "Suc (length xs)"] Cons.prems(3) Suc by simp_all
    then have c: "cstr (m(q := x)) (p + 1) xs" using Cons.prems(1) by (simp add: cstr_upd_other)
    have "strlcpy_loop (m(q := x)) (q + 1) (p + 1) (b + 1) sz
      = Some (store_bytes (m(q := x)) (q + 1) (take j xs), q + 1 + of_nat (min j (length xs)),
          b + 1 + of_nat (length xs))"
      by (rule Cons.IH [OF c _ sep]) (use Cons.prems(2,4) Suc b1 in simp_all)
    then show ?thesis using Cons.prems(1) more Suc by (subst strlcpy_loop.simps) (simp add: Let_def)
  qed
qed

lemma strlcpy_ok:
  assumes "cstr m src xs" and "region dst (min (unat sz - 1) (length xs)) \<inter> region src (Suc (length xs)) = {}"
  shows "strlcpy m dst src sz
    = Some (if sz = 0 then m else store_bytes m dst (take (unat sz - 1) xs @ [0]), of_nat (length xs))"
proof -
  have "strlcpy_loop m dst src 0 sz = Some (store_bytes m dst (take (unat sz - 1) xs),
      dst + of_nat (min (unat sz - 1) (length xs)), 0 + of_nat (length xs))"
    using assms cstr_length [OF assms(1)] by (intro strlcpy_loop_ok) simp_all
  then show ?thesis by (simp add: strlcpy_def store_bytes_append min.commute)
qed

section \<open>Searches\<close>

lemma strchr_loop_ok:
  "cstr m s xs \<Longrightarrow> strchr_loop m s c
    = Some (if c \<in> set (xs @ [0]) then s + of_nat (length (takeWhile (\<lambda>x. x \<noteq> c) (xs @ [0]))) else NULL)"
proof (induction xs arbitrary: s)
  case Nil
  then show ?case by (subst strchr_loop.simps) simp
next
  case (Cons x xs)
  then show ?case by (subst strchr_loop.simps) (auto split: if_splits)
qed

lemma strchr_end: "cstr m s xs \<Longrightarrow> strchr m s 0 = Some (s + of_nat (length xs))"
proof -
  assume c: "cstr m s xs"
  then have "takeWhile (\<lambda>x. x \<noteq> 0) (xs @ [0]) = xs"
    using cstr_no_nul [OF c] by (subst takeWhile_append2) auto
  then show ?thesis using strchr_loop_ok [OF c, of 0] by (simp add: strchr_def)
qed

lemma strrchr_loop_ok:
  "cstr m s xs \<Longrightarrow> c \<noteq> 0 \<Longrightarrow> strrchr_loop m s c f
    = Some (if c \<in> set xs then s + of_nat (length (dropWhile (\<lambda>x. x \<noteq> c) (rev xs))) - 1 else f)"
proof (induction xs arbitrary: s f)
  case Nil
  then show ?case by (subst strrchr_loop.simps) simp
next
  case (Cons x xs)
  have "dropWhile (\<lambda>x. x \<noteq> c) (rev xs @ [x])
      = (if c \<in> set xs then dropWhile (\<lambda>x. x \<noteq> c) (rev xs) @ [x] else if x = c then [x] else [])"
    by (auto simp: dropWhile_append)
  then show ?case using Cons by (subst strrchr_loop.simps) auto
qed

lemma span_find_ok:
  assumes "cstr m c ys" and "x \<noteq> 0"
  obtains c' where "span_find m x c = Some c'" and "m c' = 0 \<longleftrightarrow> x \<notin> set ys"
proof -
  have "\<exists>c'. span_find m x c = Some c' \<and> (m c' = 0 \<longleftrightarrow> x \<notin> set ys)"
    using assms(1)
  proof (induction ys arbitrary: c)
    case Nil
    then show ?case by (subst span_find.simps) simp
  next
    case (Cons y ys)
    then show ?case using assms(2) by (subst span_find.simps) auto
  qed
  then show ?thesis using that by blast
qed

lemma strspn_loop_ok:
  assumes "cstr m s1 xs" and "cstr m s2 ys"
  shows "strspn_loop m s1 s2 = Some (s1 + of_nat (length (takeWhile (\<lambda>x. x \<in> set ys) xs)))"
  using assms(1)
proof (induction xs arbitrary: s1)
  case Nil
  then show ?case by (subst strspn_loop.simps) simp
next
  case (Cons x xs)
  then obtain c where "span_find m x s2 = Some c" "m c = 0 \<longleftrightarrow> x \<notin> set ys"
    using span_find_ok [OF assms(2)] by (metis cstr.simps(2))
  then show ?case using Cons by (subst strspn_loop.simps) auto
qed

lemma strcspn_loop_ok:
  assumes "cstr m s1 xs" and "cstr m s2 ys"
  shows "strcspn_loop m s1 s2 = Some (s1 + of_nat (length (takeWhile (\<lambda>x. x \<notin> set ys) xs)))"
  using assms(1)
proof (induction xs arbitrary: s1)
  case Nil
  then show ?case by (subst strcspn_loop.simps) simp
next
  case (Cons x xs)
  then obtain c where "span_find m x s2 = Some c" "m c = 0 \<longleftrightarrow> x \<notin> set ys"
    using span_find_ok [OF assms(2)] by (metis cstr.simps(2))
  then show ?case using Cons by (subst strcspn_loop.simps) auto
qed

lemma strpbrk_loop_ok:
  assumes "cstr m s1 xs" and "cstr m s2 ys" and "xs \<noteq> [] \<or> m c = 0"
  shows "\<exists>c'. strpbrk_loop m s1 s2 c = Some (s1 + of_nat (length (takeWhile (\<lambda>x. x \<notin> set ys) xs)), c')
    \<and> (m c' = 0 \<longleftrightarrow> set xs \<inter> set ys = {})"
  using assms(1,3)
proof (induction xs arbitrary: s1 c)
  case Nil
  then show ?case by (subst strpbrk_loop.simps) simp
next
  case (Cons x xs)
  then obtain c' where c': "span_find m x s2 = Some c'" "m c' = 0 \<longleftrightarrow> x \<notin> set ys"
    using span_find_ok [OF assms(2)] by (metis cstr.simps(2))
  show ?case
  proof (cases "x \<in> set ys")
    case True
    then show ?thesis using Cons.prems c' by (subst strpbrk_loop.simps) auto
  next
    case False
    then show ?thesis using Cons.prems c' Cons.IH [of "s1 + 1" c'] by (subst strpbrk_loop.simps) auto
  qed
qed

lemma strpbrk_ok:
  assumes "cstr m s1 xs" and "cstr m s2 ys"
  shows "strpbrk m s1 s2 = Some (if set xs \<inter> set ys = {} then NULL
    else s1 + of_nat (length (takeWhile (\<lambda>x. x \<notin> set ys) xs)))"
proof (cases "xs = []")
  case False
  then have "m s1 \<noteq> 0" using assms(1) by (cases xs) auto
  then show ?thesis using strpbrk_loop_ok [OF assms, of s2] False by (auto simp: strpbrk_def)
qed (use assms in \<open>simp add: strpbrk_def\<close>)

section \<open>Concatenation\<close>

lemma region_split_disjoint:
  assumes "region s (j + k) \<inter> A = {}"
  shows "region (s + of_nat j) k \<inter> A = {}" and "region s j \<inter> A = {}"
  using assms region_shift [of j k "j + k" s] region_mono [of j "j + k" s] by auto

lemma strcat_ok:
  assumes "cstr m dst xs" and "cstr m src ys"
    and "region dst (length xs + Suc (length ys)) \<inter> region src (Suc (length ys)) = {}"
  shows "strcat m dst src = Some (store_bytes m (dst + of_nat (length xs)) (ys @ [0]), dst)"
  using strchr_end [OF assms(1)] strcpy_ok [OF assms(2) region_split_disjoint(1) [OF assms(3)]]
  by (simp add: strcat_def)

lemma strncat_loop_ok:
  assumes "cstr m p ys" and "region q (Suc (min (unat n) (length ys))) \<inter> region p (Suc (length ys)) = {}"
  shows "strncat_loop m q p n = store_bytes m q (take (unat n) ys @ [0])"
  using assms
proof (induction ys arbitrary: m q p n)
  case Nil
  then show ?case by (subst strncat_loop.simps) (auto simp: Let_def)
next
  case (Cons y ys)
  show ?case
  proof (cases "n = 0")
    case False
    note n = unat_Suc_pred [OF False]
    have sep: "region (q + 1) (Suc (min (unat (n - 1)) (length ys))) \<inter> region (p + 1) (Suc (length ys)) = {}"
      and "q \<notin> region (p + 1) (Suc (length ys))"
      using region_step [of q "Suc (min (unat (n - 1)) (length ys))" p "Suc (length ys)"] Cons.prems(2) n
      by simp_all
    then have c: "cstr (m(q := y)) (p + 1) ys" using Cons.prems(1) by (simp add: cstr_upd_other)
    have "strncat_loop (m(q := y)) (q + 1) (p + 1) (n - 1)
      = store_bytes (m(q := y)) (q + 1) (take (unat (n - 1)) ys @ [0])"
      by (rule Cons.IH [OF c sep])
    then show ?thesis using False Cons.prems(1) n by (subst strncat_loop.simps) (simp add: Let_def)
  qed (subst strncat_loop.simps, simp)
qed

lemma strncat_ok:
  assumes "cstr m dst xs" and "cstr m src ys"
    and "region dst (length xs + Suc (min (unat n) (length ys))) \<inter> region src (Suc (length ys)) = {}"
  shows "strncat m dst src n
    = Some (store_bytes m (dst + of_nat (length xs)) (take (unat n) ys @ [0]), dst)"
  using strchr_end [OF assms(1)] strncat_loop_ok [OF assms(2) region_split_disjoint(1) [OF assms(3)]]
  by (simp add: strncat_def)

lemma strlcat_end_ok:
  assumes "cstr m q xs" and "unat b + length xs < unat sz"
  shows "strlcat_end m q b sz = (q + of_nat (length xs), b + of_nat (length xs))"
  using assms
proof (induction xs arbitrary: q b)
  case Nil
  then show ?case by (subst strlcat_end.simps) simp
next
  case (Cons x xs)
  have "b < sz" using Cons.prems(2) by (simp add: word_less_nat_alt)
  with Cons show ?case by (subst strlcat_end.simps) (simp add: unat_succ_less)
qed

lemma strlcat_ok:
  assumes "cstr m dst xs" and "cstr m src ys" and "length xs < unat sz"
    and "region dst (unat sz) \<inter> region src (Suc (length ys)) = {}" and "length xs + length ys < 2 ^ 32"
  shows "strlcat m dst src sz
    = Some (store_bytes m (dst + of_nat (length xs)) (take (unat sz - 1 - length xs) ys @ [0]),
            of_nat (length xs + length ys))"
proof -
  let ?k = "unat sz - 1 - length xs" and ?q = "dst + of_nat (length xs)"
  have b: "unat (of_nat (length xs) :: uint) = length xs"
    using assms(3) unat32_less [of sz] by (simp add: unat_of_nat)
  have "length xs + min ?k (length ys) \<le> unat sz" using assms(3) by simp
  then have "region ?q (min ?k (length ys)) \<inter> region src (Suc (length ys)) = {}"
    using region_shift assms(4) by blast
  then have "strlcpy_loop m ?q src (of_nat (length xs)) sz = Some (store_bytes m ?q (take ?k ys),
      ?q + of_nat (min ?k (length ys)), of_nat (length xs) + of_nat (length ys))"
    using assms(2,5) b by (intro strlcpy_loop_ok) simp_all
  moreover have "of_nat (length xs) \<noteq> sz" using assms(3) b by auto
  moreover have "strlcat_end m dst 0 sz = (?q, of_nat (length xs))"
    using strlcat_end_ok [OF assms(1), of 0 sz] assms(3) by simp
  ultimately show ?thesis by (simp add: strlcat_def store_bytes_append min.commute)
qed

section \<open>Comparisons\<close>

lemma strcmp_ok:
  "cstr m c1 xs \<Longrightarrow> cstr m c2 ys \<Longrightarrow> strcmp m c1 c2 = Some (cmp_bytes (xs @ [0]) (ys @ [0]))"
proof (induction xs arbitrary: c1 c2 ys)
  case Nil
  then show ?case by (cases ys) (subst strcmp.simps, simp add: Let_def)+
next
  case (Cons x xs)
  then show ?case by (cases ys) (subst strcmp.simps, auto simp: Let_def)+
qed

lemma cmp_nul_less_iff:
  "0 \<notin> set xs \<Longrightarrow> 0 \<notin> set ys \<Longrightarrow> cmp_bytes (xs @ [0]) (ys @ [0]) < 0 \<longleftrightarrow> ord_class.lexordp xs ys"
proof (induction xs ys rule: list_induct2')
  case (2 x xs)
  then show ?case by (simp add: not_less)
next
  case (3 y ys)
  then show ?case by (simp add: order_less_le)
next
  case (4 x xs y ys)
  then show ?case by (cases "x < y"; cases "x = y") (auto simp: word_less_def)
qed simp

lemma cmp_nul_eq_0_iff:
  "0 \<notin> set xs \<Longrightarrow> 0 \<notin> set ys \<Longrightarrow> cmp_bytes (xs @ [0]) (ys @ [0]) = 0 \<longleftrightarrow> xs = ys"
  by (induction xs ys rule: list_induct2') auto

lemma strncmp_loop_ok:
  "cstr m c1 xs \<Longrightarrow> cstr m c2 ys \<Longrightarrow>
   strncmp_loop m c1 c2 n 0 = cmp_bytes (take (unat n) (xs @ [0])) (take (unat n) (ys @ [0]))"
proof (induction xs arbitrary: c1 c2 ys n)
  case Nil
  show ?case
  proof (cases "n = 0")
    case False
    then show ?thesis using Nil
      by (cases ys) (subst strncmp_loop.simps, simp add: Let_def unat_Suc_pred [OF False])+
  qed (subst strncmp_loop.simps, simp)
next
  case (Cons x xs)
  show ?case
  proof (cases "n = 0")
    case False
    then show ?thesis using Cons
      by (cases ys) (subst strncmp_loop.simps, auto simp: Let_def unat_Suc_pred [OF False])+
  qed (subst strncmp_loop.simps, simp)
qed

text \<open>Folding to upper case, byte by byte.\<close>

definition upper :: "byte \<Rightarrow> byte" where
  "upper x = word_of_int (toupper (uint x))"

lemma uint_upper: "uint (upper x) = toupper (uint x)"
  using toupper_bound [of "uint x"] uint_lt2p [of x]
  by (simp add: upper_def uint_word_of_int mod_pos_pos_trivial)

lemma upper_0_iff [simp]: "upper x = 0 \<longleftrightarrow> x = 0"
  using uint_upper [of x] toupper_0_iff [of "uint x"] by (metis uint_0_iff)

lemma upper_0 [simp]: "upper 0 = 0"
  by simp

lemma strcasecmp_ok:
  "cstr m c1 xs \<Longrightarrow> cstr m c2 ys \<Longrightarrow>
   strcasecmp m c1 c2 = Some (cmp_bytes (map upper xs @ [0]) (map upper ys @ [0]))"
proof (induction xs arbitrary: c1 c2 ys)
  case Nil
  then show ?case
    by (cases ys) (subst strcasecmp.simps, simp add: Let_def flip: uint_upper)+
next
  case (Cons x xs)
  then show ?case
    by (cases ys) (subst strcasecmp.simps, simp add: Let_def flip: uint_upper)+
qed

section \<open>Tokens\<close>

lemma strsep_ok:
  assumes "cstr m s xs" and "cstr m d ys" and "NULL \<notin> region s (Suc (length xs))"
    and "i = length (takeWhile (\<lambda>x. x \<notin> set ys) xs)"
  shows "strsep m s d = Some (if set xs \<inter> set ys = {} then (m, NULL, s)
    else (m(s + of_nat i := 0), s + of_nat (Suc i), s))"
proof -
  have s: "s \<noteq> NULL" using assms(3) by (auto simp: region_Suc)
  have "i < Suc (length xs)" using assms(4) length_takeWhile_le [of _ xs] by (simp add: less_Suc_eq_le)
  then have "s + of_nat i \<noteq> NULL" using assms(3) in_regionI [of i "Suc (length xs)" s] by metis
  then show ?thesis
    using s strpbrk_ok [OF assms(1,2)] assms(4) by (simp add: strsep_def add.commute)
qed

text \<open>
  The next token: leading delimiters are skipped; \<open>next_token D xs = (k, tok, rest)\<close> gives the offset of the
  token, the token and what follows its delimiter, if there is one.
\<close>

definition next_token :: "byte set \<Rightarrow> byte list \<Rightarrow> nat \<times> byte list \<times> byte list option" where
  "next_token D xs =
     (let ws = dropWhile (\<lambda>x. x \<in> D) xs; tok = takeWhile (\<lambda>x. x \<notin> D) ws
      in (length xs - length ws, tok, if tok = ws then None else Some (drop (Suc (length tok)) ws)))"

definition strtok_post ::
  "byte set \<Rightarrow> byte list \<Rightarrow> mem \<Rightarrow> addr \<Rightarrow> mem \<times> addr \<times> addr \<Rightarrow> bool" where
  "strtok_post D xs m s r = (case r of (m', h, t) \<Rightarrow>
     (\<forall>a. a \<notin> region s (length xs) \<longrightarrow> m' a = m a) \<and>
     (case next_token D xs of (k, tok, rest) \<Rightarrow>
        if tok = [] then t = NULL \<and> h = NULL
        else t = s + of_nat k \<and> cstr m' t tok \<and>
          (case rest of None \<Rightarrow> h = NULL
           | Some zs \<Rightarrow> h = t + of_nat (Suc (length tok)) \<and> cstr m' h zs)))"

lemma strtok_loop_null: "strtok_loop m NULL d = Some (m, NULL, NULL)"
  by (subst strtok_loop.simps) (simp add: strsep_def)

lemma strtok_at_token:
  assumes "cstr m s xs" and "cstr m d ys" and "NULL \<notin> region s (Suc (length xs))"
    and "xs \<noteq> []" and "hd xs \<notin> set ys"
  shows "\<exists>r. strtok_loop m s d = Some r \<and> strtok_post (set ys) xs m s r"
proof -
  define tok where "tok = takeWhile (\<lambda>x. x \<notin> set ys) xs"
  define i where "i = length tok"
  have s: "s \<noteq> NULL" using assms(3) by (auto simp: region_Suc)
  have tok: "tok \<noteq> []" "dropWhile (\<lambda>x. x \<in> set ys) xs = xs"
    using assms(4,5) by (cases xs; simp add: tok_def)+
  have nt: "next_token (set ys) xs = (0, tok, if tok = xs then None else Some (drop (Suc i) xs))"
    unfolding next_token_def tok(2) tok_def i_def Let_def by simp
  note sep = strsep_ok [OF assms(1-3) i_def [unfolded tok_def]]
  show ?thesis
  proof (cases "set xs \<inter> set ys = {}")
    case True
    then have "tok = xs" unfolding tok_def by (auto simp: takeWhile_eq_all_conv)
    moreover have "m s \<noteq> 0" using assms(1,4) by (cases xs) auto
    ultimately show ?thesis
      using sep True s tok(1) assms(1) by (subst strtok_loop.simps) (simp add: strtok_post_def nt)
  next
    case False
    then have "tok \<noteq> xs" unfolding tok_def by (auto simp: takeWhile_eq_all_conv)
    then have i: "i < length xs" and take: "take i xs = tok"
      unfolding i_def tok_def by (metis length_takeWhile_le le_neq_implies_less takeWhile_eq_take take_all order_refl)+
    let ?m = "m(s + of_nat i := 0)"
    have cut: "cstr ?m s tok" "cstr ?m (s + of_nat (Suc i)) (drop (Suc i) xs)"
      using cstr_cut [OF assms(1) i] take by simp_all
    have ms: "?m s \<noteq> 0" using cut(1) tok(1) by (cases tok) auto
    have "strtok_loop m s d = Some (?m, s + of_nat (Suc i), s)"
      by (subst strtok_loop.simps) (use sep False s ms in simp)
    moreover have "strtok_post (set ys) xs m s (?m, s + of_nat (Suc i), s)"
      using cut \<open>tok \<noteq> xs\<close> tok in_regionI [OF i, of s] i_def
      by (auto simp: strtok_post_def nt)
    ultimately show ?thesis by blast
  qed
qed

lemma next_token_skip:
  "x \<in> D \<Longrightarrow> next_token D (x # xs) = (case next_token D xs of (k, r) \<Rightarrow> (Suc k, r))"
  using length_dropWhile_le [of "\<lambda>x. x \<in> D" xs] by (simp add: next_token_def Let_def Suc_diff_le)

lemma strtok_loop_ok:
  assumes "cstr m s xs" and "cstr m d ys" and "NULL \<notin> region s (Suc (length xs))"
    and "region s (Suc (length xs)) \<inter> region d (Suc (length ys)) = {}"
  shows "\<exists>r. strtok_loop m s d = Some r \<and> strtok_post (set ys) xs m s r"
  using assms
proof (induction xs arbitrary: m s)
  case Nil
  then have "strtok_loop m s d = strtok_loop m NULL d"
    using strsep_ok [of m s "[]" d ys 0] by (subst strtok_loop.simps) (auto simp: region_simps)
  then show ?case by (simp add: strtok_loop_null strtok_post_def next_token_def)
next
  case (Cons x xs)
  show ?case
  proof (cases "x \<in> set ys")
    case False
    then show ?thesis using strtok_at_token [of m s "x # xs" d ys] Cons.prems by simp
  next
    case True
    let ?m = "m(s := 0)"
    have "strtok_loop m s d = strtok_loop ?m (s + 1) d"
      by (subst strtok_loop.simps)
        (use strsep_ok [of m s "x # xs" d ys 0] True Cons.prems(1,2,3) in \<open>simp add: region_Suc\<close>)
    moreover have "cstr ?m (s + 1) xs"
      using cstr_cut(2) [OF Cons.prems(1), of 0] by simp
    moreover have "cstr ?m d ys" "NULL \<notin> region (s + 1) (Suc (length xs))"
      "region (s + 1) (Suc (length xs)) \<inter> region d (Suc (length ys)) = {}"
      using Cons.prems by (auto simp: cstr_upd_other region_Suc [of s])
    ultimately obtain r where r: "strtok_loop m s d = Some r" "strtok_post (set ys) xs ?m (s + 1) r"
      using Cons.IH by metis
    have "strtok_post (set ys) (x # xs) m s r"
      using r(2) True unfolding strtok_post_def next_token_skip [OF True]
      by (auto simp: region_Suc split: prod.splits option.splits if_splits)
    with r(1) show ?thesis by blast
  qed
qed

section \<open>Properties\<close>

text \<open>On two strings \<open>strcmp\<close> returns; its result is 0 exactly for equal strings and negative exactly when
  the first string comes first in the lexicographic order of unsigned bytes.\<close>

lemma strcmp_lexicographic:
  assumes "cstr m s1 xs" and "cstr m s2 ys"
  shows "\<exists>d. strcmp m s1 s2 = Some d \<and> (d = 0 \<longleftrightarrow> xs = ys) \<and> (d < 0 \<longleftrightarrow> ord_class.lexordp xs ys)"
  using strcmp_ok [OF assms] cstr_no_nul [OF assms(1)] cstr_no_nul [OF assms(2)]
  by (simp add: cmp_nul_eq_0_iff cmp_nul_less_iff)

lemma strcmp_lexicographic_witness:
  "\<exists>d. strcmp (store_bytes (\<lambda>_. 0) 0x100 [65, 66, 0, 65, 67]) 0x100 0x103 = Some d \<and> d < 0"
  using strcmp_lexicographic [of "store_bytes (\<lambda>_. 0) 0x100 [65, 66, 0, 65, 67]" "0x100" "[65, 66]" "0x103" "[65, 67]"]
  by auto

text \<open>\<open>strlcat\<close> never writes outside the \<open>sz\<close> bytes of its destination and always leaves a terminated
  string there: the concatenation, cut to \<open>sz - 1\<close> bytes.  It returns the length the whole concatenation
  would have, so that a result of at least \<open>sz\<close> tells the caller that something was cut.\<close>

lemma strlcat_truncates:
  assumes "cstr m dst xs" and "cstr m src ys" and "length xs < unat sz"
    and "region dst (unat sz) \<inter> region src (Suc (length ys)) = {}" and "length xs + length ys < 2 ^ 32"
  shows "\<exists>m'. strlcat m dst src sz = Some (m', of_nat (length xs + length ys))
    \<and> cstr m' dst (take (unat sz - 1) (xs @ ys)) \<and> (\<forall>a. a \<notin> region dst (unat sz) \<longrightarrow> m' a = m a)"
proof -
  let ?k = "unat sz - 1 - length xs" and ?q = "dst + of_nat (length xs)"
  let ?zs = "take ?k ys" and ?m = "store_bytes m (dst + of_nat (length xs)) (take (unat sz - 1 - length xs) ys @ [0])"
  have reg: "region ?q (length (?zs @ [0])) \<subseteq> region dst (unat sz)"
    using assms(3) by (intro region_shift) simp
  then have out: "?m a = m a" if "a \<notin> region dst (unat sz)" for a
    using that store_bytes_other [of a ?q "?zs @ [0]" m] by blast
  have len: "length xs + length (?zs @ [0]) \<le> 2 ^ 32" using assms(3) unat32_less [of sz] by simp
  have "cstr ?m ?q ?zs"
    using cstr_no_nul [OF assms(2)] len by (intro cstr_store) (auto dest: in_set_takeD)
  moreover have "bytes_at ?m dst (length xs) = xs"
  proof -
    have "region dst (length xs) \<inter> region ?q (length (?zs @ [0])) = {}"
    proof (intro equals0I, elim IntE)
      fix a assume "a \<in> region dst (length xs)" "a \<in> region ?q (length (?zs @ [0]))"
      then obtain i j where "i < length xs" "a = dst + of_nat i"
        and "j < length (?zs @ [0])" "a = dst + of_nat (length xs + j)"
        unfolding region_def by (auto simp: add.assoc)
      then show False using offset_inj [of i "length xs + j" dst] len by simp
    qed
    then have "bytes_at ?m dst (length xs) = bytes_at m dst (length xs)" by (rule bytes_at_store_other)
    then show ?thesis using cstr_bytes [OF assms(1)] by simp
  qed
  ultimately have "cstr ?m dst (xs @ ?zs)" using cstr_no_nul [OF assms(1)] by (simp add: cstr_append)
  moreover have "take (unat sz - 1) (xs @ ys) = xs @ ?zs" using assms(3) by simp
  ultimately show ?thesis using strlcat_ok [OF assms] out by auto
qed

lemma strlcat_truncates_witness:
  "\<exists>m'. strlcat (store_bytes (\<lambda>_. 0) 0x100 [65, 66, 0, 0, 67, 68, 69]) 0x100 0x104 4 = Some (m', 5)
     \<and> cstr m' 0x100 [65, 66, 67]"
proof -
  let ?m = "store_bytes (\<lambda>_. 0) 0x100 [65, 66, 0, 0, 67, 68, 69] :: mem"
  have "region 0x100 (unat (4 :: uint)) \<inter> region 0x104 (Suc (length [67, 68, 69 :: byte])) = {}"
    by (rule region_disjoint) simp_all
  then have "\<exists>m'. strlcat ?m 0x100 0x104 4 = Some (m', of_nat (length [65, 66 :: byte] + length [67, 68, 69 :: byte]))
    \<and> cstr m' 0x100 (take (unat (4 :: uint) - 1) ([65, 66] @ [67, 68, 69]))
    \<and> (\<forall>a. a \<notin> region 0x100 (unat (4 :: uint)) \<longrightarrow> m' a = ?m a)"
    by (intro strlcat_truncates) simp_all
  then show ?thesis by auto
qed

text \<open>C8 \<open>strtok_r\<close> on a string returns its next token, the first maximal run of bytes that are not delimiters,
  cut out as a string of its own, and keeps the rest after the token's delimiter for the next call; it
  returns NULL when only delimiters are left.  No byte outside the string changes.\<close>

theorem strtok_r_next_token:
  assumes "cstr m s xs" and "cstr m d ys" and "NULL \<notin> region s (Suc (length xs))"
    and "region s (Suc (length xs)) \<inter> region d (Suc (length ys)) = {}"
  shows "\<exists>r. strtok_r m s d h = Some r \<and> strtok_r m NULL d s = Some r \<and> strtok_post (set ys) xs m s r"
proof -
  have "s \<noteq> NULL" using assms(3) by (auto simp: region_Suc)
  then show ?thesis using strtok_loop_ok [OF assms] by (simp add: strtok_r_def)
qed

theorem strtok_r_next_token_witness:
  "\<exists>m'. strtok_r (store_bytes (\<lambda>_. 0) 0x100 [44, 65, 66, 44, 67, 0, 44]) 0x100 0x106 0 = Some (m', 0x104, 0x101)
     \<and> cstr m' 0x101 [65, 66] \<and> cstr m' 0x104 [67]"
proof -
  let ?m = "store_bytes (\<lambda>_. 0) 0x100 [44, 65, 66, 44, 67, 0, 44] :: mem"
  let ?xs = "[44, 65, 66, 44, 67] :: byte list"
  have dis: "region 0x100 (Suc (length ?xs)) \<inter> region 0x106 (Suc (length [44 :: byte])) = {}"
    by (rule region_disjoint) simp_all
  have nul: "NULL \<notin> region 0x100 (Suc (length ?xs))" by (simp add: region_eq_uint)
  have "next_token (set [44]) ?xs = (1, [65, 66], Some [67])" by (simp add: next_token_def)
  moreover have "\<exists>r. strtok_r ?m 0x100 0x106 0 = Some r \<and> strtok_r ?m NULL 0x106 0x100 = Some r
      \<and> strtok_post (set [44]) ?xs ?m 0x100 r"
    by (rule strtok_r_next_token [OF _ _ nul dis]) simp_all
  ultimately show ?thesis by (auto simp: strtok_post_def)
qed

end
