(* ===== verification/Str_Num.thy ===== *)
theory Str_Num
  imports Str_Ops
begin

text \<open>
  Text to number (\<open>strntoumax.c\<close>, \<open>strntoimax.c\<close> and the templates \<open>strtox.c\<close> and \<open>atox.c\<close> behind
  \<open>strtol\<close>, \<open>strtoul\<close>, \<open>strtoll\<close>, \<open>strtoull\<close>, \<open>atoi\<close>, \<open>atol\<close>, \<open>atoll\<close>).  On this target
  \<open>uintmax_t\<close>, \<open>intmax_t\<close> and \<open>long\<close> have 32 bits (\<open>include/sumeru_rv32/_types\<close>) and the value wraps; \<open>long
  long\<close> has 64.  The end pointer that the functions store is returned beside the value.
\<close>

section \<open>Definitions\<close>

definition digitval :: "int \<Rightarrow> int" where
  "digitval c =
     (if c \<ge> chi (CHR ''0'') \<and> c \<le> chi (CHR ''9'') then c - chi (CHR ''0'')
      else if c \<ge> chi (CHR ''A'') \<and> c \<le> chi (CHR ''Z'') then c - chi (CHR ''A'') + 10
      else if c \<ge> chi (CHR ''a'') \<and> c \<le> chi (CHR ''z'') then c - chi (CHR ''a'') + 10
      else -1)"

function skip_spaces :: "mem \<Rightarrow> addr \<Rightarrow> uint \<Rightarrow> addr \<times> uint" where
  "skip_spaces m nptr n =
     (if n \<noteq> 0 \<and> isspace (uint (m nptr)) then skip_spaces m (nptr + 1) (n - 1) else (nptr, n))"
  by pat_completeness auto
termination
  by (relation "measure (\<lambda>(m, p, n). unat n)") (auto simp: unat_pred_less)

definition take_sign :: "mem \<Rightarrow> addr \<Rightarrow> uint \<Rightarrow> bool \<times> addr \<times> uint" where
  "take_sign m nptr n =
     (if n \<noteq> 0 then
        let c = m nptr in
        if c = ch (CHR ''-'') \<or> c = ch (CHR ''+'') then (c = ch (CHR ''-''), nptr + 1, n - 1)
        else (False, nptr, n)
      else (False, nptr, n))"

definition hex_prefix :: "mem \<Rightarrow> addr \<Rightarrow> uint \<Rightarrow> bool" where
  "hex_prefix m nptr n \<longleftrightarrow> n \<ge> 2 \<and> m nptr = ch (CHR ''0'')
     \<and> (m (nptr + 1) = ch (CHR ''x'') \<or> m (nptr + 1) = ch (CHR ''X''))"

definition take_base :: "mem \<Rightarrow> addr \<Rightarrow> uint \<Rightarrow> int \<Rightarrow> addr \<times> uint \<times> int" where
  "take_base m nptr n base =
     (if base = 0 then
        if hex_prefix m nptr n then (nptr + 2, n - 2, 16)
        else if n \<ge> 1 \<and> m nptr = ch (CHR ''0'') then (nptr + 1, n - 1, 8)
        else (nptr, n, 10)
      else if base = 16 then
        if hex_prefix m nptr n then (nptr + 2, n - 2, base) else (nptr, n, base)
      else (nptr, n, base))"

function digits_loop :: "mem \<Rightarrow> addr \<Rightarrow> uint \<Rightarrow> int \<Rightarrow> 32 word \<Rightarrow> 32 word \<times> addr" where
  "digits_loop m nptr n base v =
     (let d = digitval (uint (m nptr)) in
      if n \<noteq> 0 \<and> d \<ge> 0 \<and> d < base
      then digits_loop m (nptr + 1) (n - 1) base (v * word_of_int base + word_of_int d)
      else (v, nptr))"
  by pat_completeness auto
termination
  by (relation "measure (\<lambda>(m, p, n, b, v). unat n)") (auto simp: unat_pred_less)

definition strntoumax :: "mem \<Rightarrow> addr \<Rightarrow> int \<Rightarrow> uint \<Rightarrow> 32 word \<times> addr" where
  "strntoumax m nptr base n =
     (let (nptr, n) = skip_spaces m nptr n;
          (minus, nptr, n) = take_sign m nptr n;
          (nptr, n, base) = take_base m nptr n base;
          (v, nptr) = digits_loop m nptr n base 0
      in (if minus then - v else v, nptr))"

definition strntoimax :: "mem \<Rightarrow> addr \<Rightarrow> int \<Rightarrow> uint \<Rightarrow> int \<times> addr" where
  "strntoimax m nptr base n = (let (v, e) = strntoumax m nptr base n in (sint v, e))"

text \<open>The templates convert the value to the result type; for \<open>long long\<close> they extend it with zeros.\<close>

definition strtoul :: "mem \<Rightarrow> addr \<Rightarrow> int \<Rightarrow> uint \<times> addr" where
  "strtoul m nptr base = strntoumax m nptr base (NOT 0)"

definition strtol :: "mem \<Rightarrow> addr \<Rightarrow> int \<Rightarrow> int \<times> addr" where
  "strtol m nptr base = (let (v, e) = strntoumax m nptr base (NOT 0) in (sint v, e))"

definition strtoull :: "mem \<Rightarrow> addr \<Rightarrow> int \<Rightarrow> 64 word \<times> addr" where
  "strtoull m nptr base = (let (v, e) = strntoumax m nptr base (NOT 0) in (ucast v, e))"

definition strtoll :: "mem \<Rightarrow> addr \<Rightarrow> int \<Rightarrow> int \<times> addr" where
  "strtoll m nptr base = (let (v, e) = strntoumax m nptr base (NOT 0) in (sint (ucast v :: 64 word), e))"

definition strtoumax :: "mem \<Rightarrow> addr \<Rightarrow> int \<Rightarrow> 32 word \<times> addr" where
  "strtoumax m nptr base = strntoumax m nptr base (NOT 0)"

definition strtoimax :: "mem \<Rightarrow> addr \<Rightarrow> int \<Rightarrow> int \<times> addr" where
  "strtoimax m nptr base = (let (v, e) = strntoumax m nptr base (NOT 0) in (sint v, e))"

definition atoi :: "mem \<Rightarrow> addr \<Rightarrow> int" where
  "atoi m nptr = sint (fst (strntoumax m nptr 10 (NOT 0)))"

definition atol :: "mem \<Rightarrow> addr \<Rightarrow> int" where
  "atol m nptr = sint (fst (strntoumax m nptr 10 (NOT 0)))"

definition atoll :: "mem \<Rightarrow> addr \<Rightarrow> int" where
  "atoll m nptr = sint (ucast (fst (strntoumax m nptr 10 (NOT 0))) :: 64 word)"

declare skip_spaces.simps [simp del] digits_loop.simps [simp del]

section \<open>Numerals\<close>

definition is_digit :: "int \<Rightarrow> byte \<Rightarrow> bool" where
  "is_digit b x \<longleftrightarrow> 0 \<le> digitval (uint x) \<and> digitval (uint x) < b"

definition digits_val :: "int \<Rightarrow> byte list \<Rightarrow> int" where
  "digits_val b ds = foldl (\<lambda>v d. v * b + digitval (uint d)) 0 ds"

definition hex_like :: "byte list \<Rightarrow> bool" where
  "hex_like xs \<longleftrightarrow> length xs \<ge> 2 \<and> xs ! 0 = ch (CHR ''0'') \<and> xs ! 1 \<in> {ch (CHR ''x''), ch (CHR ''X'')}"

text \<open>
  \<open>numeral_text b pre b' ds rest\<close>: the prefix \<open>pre\<close> and the digits \<open>ds\<close>, followed by \<open>rest\<close>, are the longest
  numeral for the base argument \<open>b\<close>; it is read in base \<open>b'\<close>.
\<close>

definition numeral_text :: "int \<Rightarrow> byte list \<Rightarrow> int \<Rightarrow> byte list \<Rightarrow> byte list \<Rightarrow> bool" where
  "numeral_text b pre b' ds rest \<longleftrightarrow>
     (\<forall>d \<in> set ds. is_digit b' d) \<and> \<not> (rest \<noteq> [] \<and> is_digit b' (hd rest)) \<and> ds \<noteq> [] \<and>
     (pre = [] \<and> b \<notin> {0, 16} \<and> b' = b
      \<or> pre = [] \<and> b = 0 \<and> b' = 10 \<and> hd ds \<noteq> ch (CHR ''0'')
      \<or> pre = [] \<and> b = 16 \<and> b' = 16 \<and> \<not> hex_like (ds @ rest)
      \<or> pre = [ch (CHR ''0'')] \<and> b = 0 \<and> b' = 8
      \<or> hex_like pre \<and> length pre = 2 \<and> b \<in> {0, 16} \<and> b' = 16)"

lemma digits_loop_ok:
  assumes "cstr m p (ds @ rest)" and "\<forall>d \<in> set ds. is_digit b d"
    and "\<not> (rest \<noteq> [] \<and> is_digit b (hd rest))" and "length ds < unat n"
  shows "digits_loop m p n b v
    = (foldl (\<lambda>v d. v * word_of_int b + word_of_int (digitval (uint d))) v ds, p + of_nat (length ds))"
  using assms
proof (induction ds arbitrary: p n v)
  case Nil
  then have "digitval (uint (m p)) < 0 \<or> b \<le> digitval (uint (m p))"
    by (cases rest) (auto simp: is_digit_def digitval_def)
  then show ?case by (subst digits_loop.simps) (auto simp: Let_def)
next
  case (Cons d ds)
  then have "n \<noteq> 0" by auto
  then show ?case using Cons unat_Suc_pred [of n]
    by (subst digits_loop.simps) (simp add: Let_def is_digit_def)
qed

lemma digits_foldl:
  "foldl (\<lambda>v d. v * word_of_int b + word_of_int (digitval (uint d))) (word_of_int v) ds
   = (word_of_int (foldl (\<lambda>v d. v * b + digitval (uint d)) v ds) :: 32 word)"
proof (induction ds arbitrary: v)
  case (Cons d ds)
  have "(word_of_int v * word_of_int b + word_of_int (digitval (uint d)) :: 32 word)
      = word_of_int (v * b + digitval (uint d))" by simp
  then show ?case using Cons by (simp del: of_int_add of_int_mult)
qed simp

lemma skip_spaces_ok:
  assumes "cstr m p (ws @ xs)" and "\<forall>w \<in> set ws. isspace (uint w)"
    and "\<not> (xs \<noteq> [] \<and> isspace (uint (hd xs)))" and "length ws < unat n"
  shows "skip_spaces m p n = (p + of_nat (length ws), n - of_nat (length ws))"
  using assms
proof (induction ws arbitrary: p n)
  case Nil
  then have "\<not> isspace (uint (m p))" by (cases xs) (auto simp: isspace_def)
  then show ?case by (subst skip_spaces.simps) simp
next
  case (Cons w ws)
  then have "n \<noteq> 0" by auto
  then show ?case using Cons unat_Suc_pred [of n]
    by (subst skip_spaces.simps) (simp add: diff_diff_eq)
qed

lemma word_sub_nat:
  "k \<le> unat n \<Longrightarrow> unat (n - of_nat k) = unat n - k" for n :: uint
  using unat32_less [of n] by (subst unat_sub) (simp_all add: word_le_nat_alt unat_of_nat)

definition is_sign :: "byte list \<Rightarrow> bool" where
  "is_sign sg \<longleftrightarrow> sg \<in> {[], [ch (CHR ''+'')], [ch (CHR ''-'')]}"

lemma take_sign_ok:
  assumes "cstr m p (sg @ xs)" and "is_sign sg" and "length sg < unat n"
    and "xs \<noteq> []" and "hd xs \<noteq> ch (CHR ''+'')" and "hd xs \<noteq> ch (CHR ''-'')"
  shows "take_sign m p n = (sg = [ch (CHR ''-'')], p + of_nat (length sg), n - of_nat (length sg))"
  using assms by (cases xs) (auto simp: take_sign_def is_sign_def)

lemma hex_prefix_iff:
  assumes "cstr m p xs" and "length xs \<le> unat n"
  shows "hex_prefix m p n \<longleftrightarrow> hex_like xs"
proof (cases "length xs \<ge> 2")
  case True
  then obtain x y zs where "xs = x # y # zs" by (cases xs rule: list.exhaust) (auto simp: neq_Nil_conv Suc_le_length_iff numeral_2_eq_2)
  then show ?thesis using assms by (auto simp: hex_prefix_def hex_like_def word_le_nat_alt)
next
  case False
  then consider "xs = []" | x where "xs = [x]" by (cases xs rule: list.exhaust) (auto simp: neq_Nil_conv not_le less_Suc_eq numeral_2_eq_2)
  then show ?thesis using assms by cases (auto simp: hex_prefix_def hex_like_def)
qed

lemma take_base_ok:
  assumes "cstr m p (pre @ ds @ rest)" and "numeral_text b pre b' ds rest"
    and "length (pre @ ds @ rest) \<le> unat n"
  shows "take_base m p n b = (p + of_nat (length pre), n - of_nat (length pre), b')"
proof -
  obtain d ds' where ds: "ds = d # ds'" using assms(2) by (cases ds) (auto simp: numeral_text_def)
  have n: "1 \<le> n" using assms(3) ds by (simp add: word_le_nat_alt)
  note hex = hex_prefix_iff [OF assms(1,3)]
  have "\<not> hex_like (ch (CHR ''0'') # ds @ rest)" if "is_digit 8 d"
    using that ds by (auto simp: hex_like_def is_digit_def digitval_def)
  moreover have "hex_like (pre @ ds @ rest)" if "hex_like pre"
    using that by (auto simp: hex_like_def nth_append)
  moreover have "\<not> hex_like (d # ds' @ rest)" if "d \<noteq> ch (CHR ''0'')"
    using that by (simp add: hex_like_def)
  ultimately show ?thesis
    using assms(1,2) ds hex n by (auto simp: numeral_text_def take_base_def)
qed

lemma digit_not_blank:
  "0 \<le> digitval (uint x) \<Longrightarrow> x \<noteq> ch (CHR ''+'') \<and> x \<noteq> ch (CHR ''-'') \<and> \<not> isspace (uint x)"
  by (auto simp: digitval_def isspace_def)

lemma numeral_text_hd:
  assumes "numeral_text b pre b' ds rest"
  shows "pre @ ds \<noteq> []" and "0 \<le> digitval (uint (hd (pre @ ds)))"
proof -
  show "pre @ ds \<noteq> []" using assms by (auto simp: numeral_text_def)
  have "0 \<le> digitval (uint (hd ds))"
    using assms by (cases ds) (auto simp: numeral_text_def is_digit_def)
  moreover have "pre = [] \<or> hd pre = ch (CHR ''0'')"
    using assms by (cases pre) (auto simp: numeral_text_def hex_like_def)
  ultimately show "0 \<le> digitval (uint (hd (pre @ ds)))"
    by (cases pre) (auto simp: digitval_def)
qed

lemma strntoumax_ok:
  assumes c: "cstr m s (ws @ sg @ pre @ ds @ rest)" and ws: "\<forall>w \<in> set ws. isspace (uint w)"
    and sg: "is_sign sg" and num: "numeral_text b pre b' ds rest"
    and n: "length (ws @ sg @ pre @ ds @ rest) < unat n"
  shows "strntoumax m s b n
    = ((if sg = [ch (CHR ''-'')] then - word_of_int (digits_val b' ds) else word_of_int (digits_val b' ds)),
       s + of_nat (length (ws @ sg @ pre @ ds)))"
proof -
  let ?p1 = "s + of_nat (length ws)" and ?n1 = "n - of_nat (length ws)"
  let ?p2 = "?p1 + of_nat (length sg)" and ?n2 = "?n1 - of_nat (length sg)"
  let ?p3 = "?p2 + of_nat (length pre)" and ?n3 = "?n2 - of_nat (length pre)"
  have c1: "cstr m ?p1 (sg @ pre @ ds @ rest)" using c by (simp add: cstr_append)
  have c2: "cstr m ?p2 (pre @ ds @ rest)" using c1 by (simp add: cstr_append)
  have c3: "cstr m ?p3 (ds @ rest)" using c2 by (simp add: cstr_append)
  have n1: "unat ?n1 = unat n - length ws" using n by (intro word_sub_nat) simp
  have n2: "unat ?n2 = unat ?n1 - length sg" using n n1 by (intro word_sub_nat) simp
  have n3: "unat ?n3 = unat ?n2 - length pre" using n n1 n2 by (intro word_sub_nat) simp
  have hd: "pre @ ds @ rest \<noteq> []" "0 \<le> digitval (uint (hd (pre @ ds @ rest)))"
    using numeral_text_hd [OF num] by (cases pre; cases ds; simp)+
  note blank = digit_not_blank [OF hd(2)]
  have "\<not> isspace (uint (hd (sg @ pre @ ds @ rest)))"
    using sg blank by (auto simp: is_sign_def isspace_def)
  then have 1: "skip_spaces m s n = (?p1, ?n1)" using c ws n by (intro skip_spaces_ok) auto
  have 2: "take_sign m ?p1 ?n1 = (sg = [ch (CHR ''-'')], ?p2, ?n2)"
    using c1 sg hd blank n n1 by (intro take_sign_ok) auto
  have 3: "take_base m ?p2 ?n2 b = (?p3, ?n3, b')"
    using c2 num n n1 n2 by (intro take_base_ok) auto
  have 4: "digits_loop m ?p3 ?n3 b' 0 = (word_of_int (digits_val b' ds), ?p3 + of_nat (length ds))"
    using digits_loop_ok [OF c3, of b' ?n3 0] num n n1 n2 n3 digits_foldl [of b' 0 ds]
    by (simp add: numeral_text_def digits_val_def)
  have "strntoumax m s b n = (if sg = [ch (CHR ''-'')] then - word_of_int (digits_val b' ds)
      else word_of_int (digits_val b' ds), ?p3 + of_nat (length ds))"
    by (simp only: strntoumax_def 1 2 3 4 Let_def prod.case)
  then show ?thesis by (simp add: add.assoc)
qed

text \<open>The text of a number in base \<open>b\<close>, with lower or upper case letters.\<close>

definition digit_char :: "bool \<Rightarrow> nat \<Rightarrow> byte" where
  "digit_char uc d = (if d < 10 then ch (CHR ''0'') + of_nat d
     else (if uc then ch (CHR ''A'') else ch (CHR ''a'')) + of_nat (d - 10))"

function num_text :: "bool \<Rightarrow> nat \<Rightarrow> nat \<Rightarrow> byte list" where
  "num_text uc b n = (if n < b \<or> b \<le> 1 then [digit_char uc n]
     else num_text uc b (n div b) @ [digit_char uc (n mod b)])"
  by pat_completeness auto
termination
  by (relation "measure (\<lambda>(uc, b, n). n)") auto

declare num_text.simps [simp del]

lemma digitval_digit_char: "d < 36 \<Longrightarrow> digitval (uint (digit_char uc d)) = int d"
  by (simp add: digit_char_def digitval_def uint_word_ariths uint_word_of_int unat_of_nat
      flip: of_nat_mod split: if_splits) (auto simp: digitval_def uint_nat unat_word_ariths unat_of_nat)

lemma digits_val_snoc: "digits_val b (ds @ [d]) = digits_val b ds * b + digitval (uint d)"
  by (simp add: digits_val_def)

lemma num_text_val:
  assumes "1 < b" and "b \<le> 36"
  shows "digits_val (int b) (num_text uc b n) = int n \<and> (\<forall>d \<in> set (num_text uc b n). is_digit (int b) d)"
  using assms
proof (induction uc b n rule: num_text.induct)
  case (1 uc b n)
  show ?case
  proof (cases "n < b")
    case True
    then show ?thesis using 1 digitval_digit_char [of n uc]
      by (simp add: num_text.simps digits_val_def is_digit_def)
  next
    case False
    have "n mod b < b" using 1 by simp
    then have "digitval (uint (digit_char uc (n mod b))) = int (n mod b)"
      using 1 by (intro digitval_digit_char) linarith
    moreover have "int (n div b) * int b + int (n mod b) = int n"
      by (simp flip: of_nat_mult of_nat_add)
    moreover have "num_text uc b n = num_text uc b (n div b) @ [digit_char uc (n mod b)]"
      using False 1 by (subst num_text.simps) simp
    ultimately show ?thesis using 1 False \<open>n mod b < b\<close> by (simp add: digits_val_snoc is_digit_def)
  qed
qed

lemma num_text_nonempty: "num_text uc b n \<noteq> []"
  by (subst num_text.simps) simp

lemma num_text_length: "1 < b \<Longrightarrow> length (num_text uc b n) \<le> Suc n"
proof (induction uc b n rule: num_text.induct)
  case (1 uc b n)
  show ?case
  proof (cases "n < b")
    case False
    then have "length (num_text uc b n) = Suc (length (num_text uc b (n div b)))"
      using 1 by (subst num_text.simps) simp
    also have "\<dots> \<le> Suc (Suc (n div b))" using 1 False by simp
    also have "n div b < n" using 1 False by simp
    finally show ?thesis by simp
  qed (subst num_text.simps, simp)
qed

lemma num_text_numeral:
  assumes "1 < b" and "b \<le> 36" and "b \<noteq> 16"
  shows "numeral_text (int b) [] (int b) (num_text uc b n) []"
  using num_text_val [OF assms(1,2), of uc n] assms num_text_nonempty
  by (auto simp: numeral_text_def)

section \<open>Properties\<close>

text \<open>C9 \<open>strntoumax\<close> reads a numeral: after white space, an optional sign and the prefix that the base
  argument allows (\<open>0x\<close> for 0 and 16, \<open>0\<close> for 0), it takes the longest run of digits, returns their value
  modulo \<open>2^32\<close>, negated after a minus sign, and the end pointer is just behind the last digit.\<close>

theorem strntoumax_value:
  assumes "cstr m s (ws @ sg @ pre @ ds @ rest)" and "\<forall>w \<in> set ws. isspace (uint w)"
    and "is_sign sg" and "numeral_text b pre b' ds rest"
    and "length (ws @ sg @ pre @ ds @ rest) < unat n"
  shows "strntoumax m s b n
    = (word_of_int ((if sg = [ch (CHR ''-'')] then -1 else 1) * digits_val b' ds),
       s + of_nat (length (ws @ sg @ pre @ ds)))"
  using strntoumax_ok [OF assms] by simp

theorem strntoumax_value_witness:
  "strntoumax (store_bytes (\<lambda>_. 0) 0x100 [32, 45, 48, 120, 49, 70, 33]) 0x100 0 100 = (- 31, 0x106)"
proof -
  let ?m = "store_bytes (\<lambda>_. 0) 0x100 [32, 45, 48, 120, 49, 70, 33] :: mem"
  have "numeral_text 0 [48, 120] 16 [49, 70] [33]"
    by (simp add: numeral_text_def hex_like_def is_digit_def digitval_def)
  then show ?thesis
    using strntoumax_value [of ?m "0x100" "[32]" "[45]" "[48, 120]" "[49, 70]" "[33]" 0 16 100]
    by (simp add: isspace_def is_sign_def digits_val_def digitval_def)
qed

text \<open>On this target \<open>uintmax_t\<close> has 32 bits, so \<open>atoll\<close> and \<open>strtoll\<close> extend the negated value with zeros:
  for every negative decimal numeral \<open>-n\<close> with \<open>0 < n \<le> 2^32\<close> they return \<open>2^32 - n\<close> instead of \<open>-n\<close>, while \<open>atoi\<close> is
  right in its range.\<close>

lemma atoll_negative:
  assumes "cstr m s (ch (CHR ''-'') # num_text uc 10 n)" and "0 < n" and "n \<le> 2 ^ 31"
  shows "atoll m s = 2 ^ 32 - int n \<and> atoi m s = - int n"
proof -
  have "strntoumax m s 10 (NOT 0) = (- word_of_int (int n), s + of_nat (Suc (length (num_text uc 10 n))))"
    using strntoumax_ok [of m s "[]" "[ch (CHR ''-'')]" "[]" "num_text uc 10 n" "[]" 10 10 "NOT 0"]
      num_text_numeral [of 10 uc n] num_text_val [of 10 uc n] num_text_length [of 10 uc n] assms
    by (simp add: is_sign_def unsigned_minus_1_eq_mask mask_eq_exp_minus_1)
  moreover have "uint (- word_of_int (int n) :: uint) = 2 ^ 32 - int n"
    using assms(2,3) by (simp add: uint_word_ariths unsigned_of_nat take_bit_eq_mod zmod_zminus1_eq_if)
  moreover have "sint (- word_of_int (int n) :: uint) = - int n"
    unfolding of_int_minus [symmetric]
    by (subst signed_of_int) (use assms(2,3) in \<open>simp add: signed_take_bit_int_eq_self\<close>)
  ultimately show ?thesis
    by (simp add: atoll_def atoi_def sint_ucast_up)
qed

lemma atoll_negative_witness: "atoll (store_bytes (\<lambda>_. 0) 0x100 [45, 49]) 0x100 = 4294967295"
proof -
  have "num_text False 10 1 = [49]" by (simp add: num_text.simps digit_char_def)
  then show ?thesis using atoll_negative [of "store_bytes (\<lambda>_. 0) 0x100 [45, 49]" "0x100" False 1] by simp
qed

end
