(* ===== verification/Rand48.thy ===== *)
theory Rand48
  imports Prelude
begin

text \<open>
  The pseudo-random generators (\<open>sw/sys-libs/libc/*rand48.c\<close>).  The state is the array of three 16-bit
  words that the caller passes, or the static seed; each call returns the new state and its value.
\<close>

section \<open>Definitions\<close>

type_synonym xsubi = "16 word \<times> 16 word \<times> 16 word"

definition jrand48 :: "xsubi \<Rightarrow> xsubi \<times> int" where
  "jrand48 xs =
     (let (x0, x1, x2) = xs;
          x = (ucast x0 :: 64 word) + push_bit 16 (ucast x1) + push_bit 32 (ucast x2);
          x = 0x5deece66d * x + 0xb
      in ((ucast x, ucast (drop_bit 16 x), ucast (drop_bit 32 x)),
          sint (ucast (drop_bit 16 x) :: 32 word)))"

definition nrand48 :: "xsubi \<Rightarrow> xsubi \<times> int" where
  "nrand48 xs = (let (s, r) = jrand48 xs in (s, uint (drop_bit 1 (word_of_int r :: 32 word))))"

definition mrand48 :: "xsubi \<Rightarrow> xsubi \<times> int" where
  "mrand48 seed = jrand48 seed"

definition lrand48 :: "xsubi \<Rightarrow> xsubi \<times> int" where
  "lrand48 seed = (let (s, r) = jrand48 seed in (s, uint (drop_bit 1 (word_of_int r :: 32 word))))"

definition srand48 :: "32 word \<Rightarrow> xsubi" where
  "srand48 seedval = (0x330e, ucast seedval, ucast (drop_bit 16 seedval))"

section \<open>The linear congruential generator\<close>

definition state48 :: "xsubi \<Rightarrow> nat" where
  "state48 xs = (let (x0, x1, x2) = xs in unat x0 + 2 ^ 16 * unat x1 + 2 ^ 32 * unat x2)"

definition lcg48 :: "nat \<Rightarrow> nat" where
  "lcg48 s = (0x5deece66d * s + 0xb) mod 2 ^ 48"

lemma ucast_eq_of_nat: "ucast w = of_nat (unat w)"
  by simp

lemma unat_drop_bit_div: "unat (drop_bit k w) = unat w div 2 ^ k" for w :: "'a::len word"
  by (subst unat_drop_bit_eq) (rule drop_bit_eq_div)

lemma mod_48_split:
  "n mod 2 ^ 48 = n mod 2 ^ 16 + 2 ^ 16 * (n div 2 ^ 16 mod 2 ^ 16) + 2 ^ 32 * (n div 2 ^ 32 mod 2 ^ 16)"
  for n :: nat
  using mod_mult2_eq [of n "2 ^ 32" "2 ^ 16"] mod_mult2_eq [of n "2 ^ 16" "2 ^ 16"] by simp

lemma unat16_less: "unat w < 2 ^ 16" for w :: "16 word"
  using unsigned_less [of w, where 'a = nat] by simp

lemma state48_less: "state48 xs < 2 ^ 48"
  using unat16_less [of "fst xs"] unat16_less [of "fst (snd xs)"] unat16_less [of "snd (snd xs)"]
  by (cases xs) (simp add: state48_def)

lemma state48_word:
  "unat ((ucast x0 :: 64 word) + push_bit 16 (ucast x1) + push_bit 32 (ucast x2)) = state48 (x0, x1, x2)"
proof -
  note b = unat16_less [of x0] unat16_less [of x1] unat16_less [of x2]
  have "(ucast x0 :: 64 word) + push_bit 16 (ucast x1) + push_bit 32 (ucast x2)
      = of_nat (state48 (x0, x1, x2))"
    by (simp add: state48_def push_bit_eq_mult mult.commute)
  then show ?thesis using state48_less [of "(x0, x1, x2)"] by (simp add: unat_of_nat)
qed

lemma state48_parts:
  "state48 (ucast x, ucast (drop_bit 16 x), ucast (drop_bit 32 x)) = unat x mod 2 ^ 48" for x :: "64 word"
proof -
  have "unat (ucast (drop_bit k x) :: 16 word) = unat x div 2 ^ k mod 2 ^ 16" for k
    unfolding ucast_eq_of_nat unat_of_nat unat_drop_bit_div by simp
  from this [of 0] this [of 16] this [of 32] show ?thesis
    using mod_48_split [of "unat x"] by (simp add: state48_def)
qed

lemma jrand48_steps:
  assumes "jrand48 xs = (xs', r)"
  shows "state48 xs' = lcg48 (state48 xs)" and "r = sint (of_nat (lcg48 (state48 xs) div 2 ^ 16) :: 32 word)"
proof -
  obtain x0 x1 x2 where xs: "xs = (x0, x1, x2)" by (cases xs)
  define x where "x = (ucast x0 :: 64 word) + push_bit 16 (ucast x1) + push_bit 32 (ucast x2)"
  define y where "y = 0x5deece66d * x + 0xb"
  have r: "xs' = (ucast y, ucast (drop_bit 16 y), ucast (drop_bit 32 y))"
    "r = sint (ucast (drop_bit 16 y) :: 32 word)"
    using assms by (simp_all add: jrand48_def xs Let_def y_def x_def)
  have "unat y = (0x5deece66d * unat x + 0xb) mod 2 ^ 64"
    by (simp add: y_def unat_word_ariths mod_simps)
  then have y: "unat y mod 2 ^ 48 = lcg48 (state48 xs)"
    using state48_word [of x0 x1 x2] by (simp add: lcg48_def xs x_def mod_mod_cancel)
  then show "state48 xs' = lcg48 (state48 xs)" by (simp add: r(1) state48_parts)
  have "unat y mod 2 ^ 48 div 2 ^ 16 = unat y div 2 ^ 16 mod 2 ^ 32"
    using mod_mult2_eq [of "unat y" "2 ^ 16" "2 ^ 32"] by simp
  then have "(ucast (drop_bit 16 y) :: 32 word) = of_nat (lcg48 (state48 xs) div 2 ^ 16)"
    unfolding y [symmetric] word_unat_eq_iff
    by (simp add: ucast_eq_of_nat [of "drop_bit 16 y"] unat_of_nat unat_drop_bit_div del: of_nat_unat of_nat_unat_word)
  then show "r = sint (of_nat (lcg48 (state48 xs) div 2 ^ 16) :: 32 word)" by (simp add: r(2))
qed

lemma lcg48_less: "lcg48 s < 2 ^ 48"
  by (simp add: lcg48_def)

text \<open>Iterated calls; the values a caller sees.\<close>

fun lrand48_seq :: "nat \<Rightarrow> xsubi \<Rightarrow> int list" where
  "lrand48_seq 0 s = []"
| "lrand48_seq (Suc k) s = (let (s', r) = lrand48 s in r # lrand48_seq k s')"

lemma lrand48_step:
  assumes "lrand48 xs = (xs', r)"
  shows "state48 xs' = lcg48 (state48 xs)" and "r = int (lcg48 (state48 xs) div 2 ^ 17)"
proof -
  obtain q where q: "jrand48 xs = (xs', q)" and r: "r = uint (drop_bit 1 (word_of_int q :: 32 word))"
    using assms by (auto simp: lrand48_def split: prod.splits)
  show "state48 xs' = lcg48 (state48 xs)" by (rule jrand48_steps [OF q])
  let ?h = "lcg48 (state48 xs) div 2 ^ 16"
  have h: "?h < 2 ^ 32" using lcg48_less [of "state48 xs"] by simp
  have "word_of_int q = (of_nat ?h :: 32 word)" by (simp add: jrand48_steps(2) [OF q])
  then have "r = int (unat (drop_bit 1 (of_nat ?h :: 32 word)))" by (simp add: r)
  also have "unat (drop_bit 1 (of_nat ?h :: 32 word)) = ?h div 2"
    using h by (simp add: unat_drop_bit_div unat_of_nat del: of_nat_div)
  also have "?h div 2 = lcg48 (state48 xs) div 2 ^ 17" by (simp add: div_mult2_eq [symmetric])
  finally show "r = int (lcg48 (state48 xs) div 2 ^ 17)" .
qed

lemma lrand48_seq_lcg:
  "lrand48_seq k xs = map (\<lambda>i. int ((lcg48 ^^ Suc i) (state48 xs) div 2 ^ 17)) [0..<k]"
proof (induction k arbitrary: xs)
  case (Suc k)
  obtain xs' r where s: "lrand48 xs = (xs', r)" by (cases "lrand48 xs")
  have "map (\<lambda>i. int ((lcg48 ^^ Suc i) (state48 xs) div 2 ^ 17)) [0..<Suc k]
      = int (lcg48 (state48 xs) div 2 ^ 17)
        # map (\<lambda>i. int ((lcg48 ^^ Suc (Suc i)) (state48 xs) div 2 ^ 17)) [0..<k]"
    by (simp only: map_upt_Suc) simp
  then show ?case
    using Suc [of xs'] lrand48_step [OF s] s by (simp add: funpow_swap1)
qed simp

section \<open>Properties\<close>

text \<open>C10 After \<open>srand48 v\<close>, the values of \<open>lrand48\<close> are the upper 31 bits of the POSIX 48-bit linear
  congruential sequence \<open>x := 0x5deece66d * x + 0xb mod 2^48\<close> that starts from \<open>v * 2^16 + 0x330e\<close>: the 64-bit
  arithmetic of the code and its storage in three 16-bit words lose nothing.\<close>

theorem lrand48_is_posix_lcg:
  "lrand48_seq k (srand48 v)
   = map (\<lambda>i. int ((lcg48 ^^ Suc i) (2 ^ 16 * unat v + 0x330e) div 2 ^ 17)) [0..<k]"
proof -
  have "unat (ucast v :: 16 word) = unat v mod 2 ^ 16"
    "unat (ucast (drop_bit 16 v) :: 16 word) = unat v div 2 ^ 16 mod 2 ^ 16"
    unfolding ucast_eq_of_nat unat_of_nat unat_drop_bit_div by simp_all
  moreover have "unat v div 2 ^ 16 < 2 ^ 16" using unat32_less [of v] by simp
  moreover have "65536 * (unat v mod 65536) + 4294967296 * (unat v div 65536) = 65536 * unat v"
    using mult_div_mod_eq [of 65536 "unat v"] by linarith
  ultimately have "state48 (srand48 v) = 2 ^ 16 * unat v + 0x330e"
    by (simp add: srand48_def state48_def)
  then show ?thesis by (simp only: lrand48_seq_lcg)
qed

end
