(* ===== verification/Sort_Search.thy ===== *)
theory Sort_Search
  imports Mem_Ops "HOL-Library.Multiset"
begin

text \<open>
  \<open>qsort\<close> (a comb sort, \<open>sw/sys-libs/libc/qsort.c\<close>) and \<open>bsearch\<close> (\<open>bsearch.c\<close>) on arrays of \<open>size\<close>-byte
  objects in memory.  The comparison callback is a parameter that reads memory.  Its contract, that it
  depends on the bytes of the two objects only and orders them, is the locale \<open>comparator\<close>.
\<close>

section \<open>Definitions\<close>

definition newgap :: "uint \<Rightarrow> uint" where
  "newgap gap =
     (let gap = gap * 10 div 13;
          gap = (if gap = 9 \<or> gap = 10 then 11 else gap)
      in if gap < 1 then 1 else gap)"

function qsort_pass ::
  "(mem \<Rightarrow> addr \<Rightarrow> addr \<Rightarrow> int) \<Rightarrow> addr \<Rightarrow> uint \<Rightarrow> uint \<Rightarrow> uint \<Rightarrow> uint \<Rightarrow> addr \<Rightarrow> bool \<Rightarrow> mem \<Rightarrow> mem \<times> bool"
where
  "qsort_pass compar base nmemb sz gap i p1 swapped m =
     (if i < nmemb - gap then
        let j = i + gap; p2 = base + j * sz in
        if compar m p1 p2 > 0
        then qsort_pass compar base nmemb sz gap (i + 1) (p1 + sz) True (memswap m p1 p2 sz)
        else qsort_pass compar base nmemb sz gap (i + 1) (p1 + sz) swapped m
      else (m, swapped))"
  by pat_completeness auto
termination
  by (relation "measure (\<lambda>(c, b, n, sz, g, i, p1, s, m). unat (n - g) - unat i)")
    (auto simp: unat_succ_less word_less_nat_alt)

partial_function (option) qsort_loop ::
  "(mem \<Rightarrow> addr \<Rightarrow> addr \<Rightarrow> int) \<Rightarrow> addr \<Rightarrow> uint \<Rightarrow> uint \<Rightarrow> uint \<Rightarrow> mem \<Rightarrow> mem option" where
  "qsort_loop compar base nmemb sz gap m =
     (let gap = newgap gap; (m, swapped) = qsort_pass compar base nmemb sz gap 0 base False m
      in if gap > 1 \<or> swapped then qsort_loop compar base nmemb sz gap m else Some m)"

definition qsort :: "(mem \<Rightarrow> addr \<Rightarrow> addr \<Rightarrow> int) \<Rightarrow> mem \<Rightarrow> addr \<Rightarrow> uint \<Rightarrow> uint \<Rightarrow> mem option" where
  "qsort compar m base nmemb sz =
     (if nmemb = 0 then Some m else qsort_loop compar base nmemb sz nmemb m)"

function bsearch ::
  "(mem \<Rightarrow> addr \<Rightarrow> addr \<Rightarrow> int) \<Rightarrow> mem \<Rightarrow> addr \<Rightarrow> addr \<Rightarrow> uint \<Rightarrow> uint \<Rightarrow> addr" where
  "bsearch cmp m key base nmemb sz =
     (if nmemb \<noteq> 0 then
        let mididx = nmemb div 2; midobj = base + mididx * sz; diff = cmp m key midobj in
        if diff = 0 then midobj
        else if diff > 0 then bsearch cmp m key (midobj + sz) (nmemb - (mididx + 1)) sz
        else bsearch cmp m key base mididx sz
      else NULL)"
  by pat_completeness auto
termination
proof (relation "measure (\<lambda>(c, m, k, b, n, sz). unat n)")
  fix nmemb mididx :: uint
  assume n: "nmemb \<noteq> 0" and mid: "mididx = nmemb div 2"
  have half: "unat mididx = unat nmemb div 2" by (simp add: mid unat_div_distrib)
  have pos: "0 < unat nmemb" using n by (simp add: unat_gt_0)
  then have "unat (mididx + 1) = Suc (unat mididx)"
    using half unat32_less [of nmemb] by (simp add: unat_word_ariths)
  then have "unat (nmemb - (mididx + 1)) = unat nmemb - Suc (unat nmemb div 2)"
    using pos half by (subst unat_sub) (auto simp: word_le_nat_alt)
  then show "((cmp, m, key, q, nmemb - (mididx + 1), sz), (cmp, m, key, base, nmemb, sz))
      \<in> measure (\<lambda>(c, m, k, b, n, sz). unat n)" for cmp m key q sz base using pos by simp
  show "((cmp, m, key, base, mididx, sz), (cmp, m, key, base, nmemb, sz))
      \<in> measure (\<lambda>(c, m, k, b, n, sz). unat n)" for cmp m key sz base using pos half by simp
qed simp

declare qsort_pass.simps [simp del] bsearch.simps [simp del]

section \<open>The gap sequence\<close>

lemma newgap_pos: "0 < newgap g"
  by (simp add: newgap_def Let_def word_gt_0)

lemma newgap_1 [simp]: "newgap 1 = 1"
  by (simp add: newgap_def)

lemma unat_mult10: "unat (g * 10 div 13) = unat (g * 10) div 13" for g :: uint
  by (simp add: unat_div_distrib)

lemma newgap_less:
  assumes "1 < g"
  shows "newgap g < g"
proof -
  have g: "1 < unat g" using assms by (simp add: word_less_nat_alt)
  have le: "unat (g * 10) \<le> unat g * 10" by (simp add: unat_word_ariths)
  have d: "unat (g * 10 div 13) < unat g" using le g by (simp add: unat_mult10)
  have "11 < unat g" if "g * 10 div 13 = 9 \<or> g * 10 div 13 = 10"
  proof -
    have "9 \<le> unat (g * 10) div 13" using that unat_mult10 [of g] by auto
    then show ?thesis using le by simp
  qed
  then show ?thesis using d g by (auto simp: newgap_def Let_def word_less_nat_alt)
qed

lemma newgap_le: "0 < g \<Longrightarrow> newgap g \<le> g"
proof (cases "g = 1")
  case False
  assume "0 < g"
  with False have "1 < g" by (metis unat_1 word_less_nat_alt word_unat_eq_iff unat_0 Suc_lessI One_nat_def)
  then show ?thesis by (intro less_imp_le newgap_less)
qed simp

section \<open>Comb passes on lists\<close>

text \<open>
  One pass over a list, with \<open>gt\<close> for the comparison.  It is the memory pass on the objects' contents.
\<close>

definition swap_at :: "nat \<Rightarrow> nat \<Rightarrow> 'a list \<Rightarrow> 'a list" where
  "swap_at i j xs = xs[i := xs ! j, j := xs ! i]"

function list_pass :: "('a \<Rightarrow> 'a \<Rightarrow> bool) \<Rightarrow> nat \<Rightarrow> nat \<Rightarrow> bool \<Rightarrow> 'a list \<Rightarrow> 'a list \<times> bool" where
  "list_pass gt g i sw xs =
     (if i + g < length xs then
        if gt (xs ! i) (xs ! (i + g)) then list_pass gt g (Suc i) True (swap_at i (i + g) xs)
        else list_pass gt g (Suc i) sw xs
      else (xs, sw))"
  by pat_completeness auto
termination
  by (relation "measure (\<lambda>(gt, g, i, sw, xs). length xs - i)") (auto simp: swap_at_def)

declare list_pass.simps [simp del]

lemma length_swap_at [simp]: "length (swap_at i j xs) = length xs"
  by (simp add: swap_at_def)

lemma mset_swap_at: "i < length xs \<Longrightarrow> j < length xs \<Longrightarrow> mset (swap_at i j xs) = mset xs"
  by (simp add: swap_at_def mset_swap)

lemma swap_at_lexord:
  assumes "i < j" and "j < length xs" and "(xs ! j, xs ! i) \<in> R"
  shows "(swap_at i j xs, xs) \<in> lexord R"
proof -
  let ?v = "drop (Suc i) (swap_at i j xs)"
  have "swap_at i j xs = take i xs @ xs ! j # ?v"
    using assms id_take_nth_drop [of i "swap_at i j xs"] by (simp add: swap_at_def)
  moreover have "xs = take i xs @ xs ! i # drop (Suc i) xs"
    using assms by (intro id_take_nth_drop) simp
  ultimately show ?thesis using assms(3) unfolding lexord_def by blast
qed

lemma list_pass_mset: "list_pass gt g i sw xs = (ys, sw') \<Longrightarrow> mset ys = mset xs"
proof (induction gt g i sw xs rule: list_pass.induct)
  case (1 gt g i sw xs)
  then show ?case by (subst (asm) (3) list_pass.simps) (auto simp: mset_swap_at split: if_splits)
qed

lemma list_pass_flag: "list_pass gt g i sw xs = (ys, sw') \<Longrightarrow> sw \<Longrightarrow> sw'"
proof (induction gt g i sw xs rule: list_pass.induct)
  case (1 gt g i sw xs)
  then show ?case by (subst (asm) (3) list_pass.simps) (auto split: if_splits)
qed

lemma list_pass_clean:
  "list_pass gt g i sw xs = (ys, False) \<Longrightarrow>
   ys = xs \<and> (\<forall>k. i \<le> k \<longrightarrow> k + g < length xs \<longrightarrow> \<not> gt (xs ! k) (xs ! (k + g)))"
proof (induction gt g i sw xs rule: list_pass.induct)
  case (1 gt g i sw xs)
  show ?case
  proof (cases "i + g < length xs")
    case True
    have no: "\<not> gt (xs ! i) (xs ! (i + g))"
      using 1(3) True list_pass_flag [of gt g "Suc i" True "swap_at i (i + g) xs" ys False]
      by (subst (asm) list_pass.simps) (auto split: if_splits)
    then have "list_pass gt g (Suc i) sw xs = (ys, False)"
      using 1(3) True by (subst (asm) list_pass.simps) simp
    then have "ys = xs \<and> (\<forall>k. Suc i \<le> k \<longrightarrow> k + g < length xs \<longrightarrow> \<not> gt (xs ! k) (xs ! (k + g)))"
      using 1(2) True no by blast
    then show ?thesis using no by (metis Suc_leI le_neq_implies_less)
  next
    case False
    then show ?thesis using 1(3) by (subst (asm) list_pass.simps) auto
  qed
qed

lemma list_pass_lexord:
  assumes "trans R" and "0 < g" and "\<And>x y. gt x y \<Longrightarrow> (y, x) \<in> R"
  shows "list_pass gt g i sw xs = (ys, sw') \<Longrightarrow> ys = xs \<and> sw' = sw \<or> (ys, xs) \<in> lexord R"
  using assms(2,3)
proof (induction gt g i sw xs rule: list_pass.induct)
  case (1 gt g i sw xs)
  show ?case
  proof (cases "i + g < length xs \<and> gt (xs ! i) (xs ! (i + g))")
    case True
    let ?zs = "swap_at i (i + g) xs"
    have "list_pass gt g (Suc i) True ?zs = (ys, sw')"
      using "1.prems"(1) True by (subst (asm) list_pass.simps) simp
    then have "ys = ?zs \<or> (ys, ?zs) \<in> lexord R" using 1 True by blast
    moreover have "(?zs, xs) \<in> lexord R"
      using True "1.prems"(2,3) by (intro swap_at_lexord) auto
    ultimately show ?thesis using lexord_trans [OF _ _ assms(1)] by blast
  next
    case False
    show ?thesis
    proof (cases "i + g < length xs")
      case True
      then have "list_pass gt g (Suc i) sw xs = (ys, sw')"
        using "1.prems"(1) False by (subst (asm) list_pass.simps) simp
      then show ?thesis using 1 True False by blast
    qed (use 1 in \<open>subst (asm) (3) list_pass.simps, auto\<close>)
  qed
qed

text \<open>Lists of one length over a finite set have finitely many predecessors: the measure of the last phase.\<close>

definition below :: "('a \<times> 'a) set \<Rightarrow> 'a list \<Rightarrow> nat" where
  "below R xs = card {ys. set ys \<subseteq> set xs \<and> length ys = length xs \<and> (ys, xs) \<in> lexord R}"

lemma below_less:
  assumes "trans R" and "irrefl R" and "mset ys = mset xs" and "(ys, xs) \<in> lexord R"
  shows "below R ys < below R xs"
proof -
  have eq: "set ys = set xs" "length ys = length xs"
    using assms(3) by (metis mset_eq_setD, metis mset_eq_length)
  let ?B = "\<lambda>zs. {vs. set vs \<subseteq> set xs \<and> length vs = length xs \<and> (vs, zs) \<in> lexord R}"
  have "?B ys \<subseteq> ?B xs" using lexord_trans [OF _ assms(4) assms(1)] by blast
  moreover have "ys \<in> ?B xs" using eq assms(4) by simp
  moreover have "ys \<notin> ?B ys" using lexord_irrefl [OF assms(2)] by (simp add: irrefl_def)
  moreover have "finite (?B xs)" by (rule finite_subset [OF _ finite_lists_length_eq [of "set xs" "length xs"]]) auto
  ultimately have "card (?B ys) < card (?B xs)" by (intro psubset_card_mono) auto
  then show ?thesis by (simp add: below_def eq)
qed

lemma not_gt_sorted:
  assumes tr: "\<And>x y z. x \<in> set xs \<Longrightarrow> y \<in> set xs \<Longrightarrow> z \<in> set xs \<Longrightarrow> \<not> gt x y \<Longrightarrow> \<not> gt y z \<Longrightarrow> \<not> gt x z"
    and adj: "\<And>k. k + 1 < length xs \<Longrightarrow> \<not> gt (xs ! k) (xs ! (k + 1))"
  shows "sorted_wrt (\<lambda>x y. \<not> gt x y) xs"
proof -
  have "\<not> gt (xs ! i) (xs ! (i + Suc d))" if "i + Suc d < length xs" for i d
    using that
  proof (induction d)
    case (Suc d)
    then have "\<not> gt (xs ! i) (xs ! (i + Suc d))" "\<not> gt (xs ! (i + Suc d)) (xs ! (i + Suc (Suc d)))"
      using adj [of "i + Suc d"] by simp_all
    then show ?case
      by (rule tr [of "xs ! i" "xs ! (i + Suc d)", rotated 3]) (use Suc.prems in simp_all)
  qed (use adj in simp)
  then have "\<not> gt (xs ! i) (xs ! j)" if "i < j" "j < length xs" for i j
    using that less_iff_Suc_add [of i j] by auto
  then show ?thesis unfolding sorted_wrt_iff_nth_less by blast
qed

section \<open>Objects in memory\<close>

definition objs :: "mem \<Rightarrow> addr \<Rightarrow> nat \<Rightarrow> uint \<Rightarrow> byte list list" where
  "objs m base n sz = map (\<lambda>i. bytes_at m (base + of_nat i * sz) (unat sz)) [0..<n]"

lemma length_objs [simp]: "length (objs m base n sz) = n"
  by (simp add: objs_def)

lemma nth_objs [simp]: "i < n \<Longrightarrow> objs m base n sz ! i = bytes_at m (base + of_nat i * sz) (unat sz)"
  by (simp add: objs_def)

lemma in_objs_length: "x \<in> set (objs m base n sz) \<Longrightarrow> length x = unat sz"
  by (auto simp: objs_def)

lemma obj_offset: "base + of_nat i * sz + of_nat t = base + of_nat (i * unat sz + t)" for base sz :: uint
  by simp

lemma obj_in_array: "i < n \<Longrightarrow> region (base + of_nat i * sz) (unat sz) \<subseteq> region base (n * unat sz)"
proof -
  assume "i < n"
  then have "i * unat sz + unat sz \<le> n * unat sz"
    by (metis Suc_leI add.commute mult_Suc mult_le_mono1)
  then have "region (base + of_nat (i * unat sz)) (unat sz) \<subseteq> region base (n * unat sz)"
    by (rule region_shift)
  then show ?thesis by simp
qed

lemma objs_disjoint:
  assumes "i < n" and "j < n" and "i \<noteq> j" and "n * unat sz \<le> 2 ^ 32"
  shows "region (base + of_nat i * sz) (unat sz) \<inter> region (base + of_nat j * sz) (unat sz) = {}"
proof (intro equals0I, elim IntE)
  fix a assume "a \<in> region (base + of_nat i * sz) (unat sz)" "a \<in> region (base + of_nat j * sz) (unat sz)"
  then obtain t u where t: "t < unat sz" "a = base + of_nat (i * unat sz + t)"
    and u: "u < unat sz" "a = base + of_nat (j * unat sz + u)"
    unfolding region_def by (auto simp: obj_offset)
  have b: "k * unat sz + v < 2 ^ 32" if "k < n" "v < unat sz" for k v
  proof -
    have "k * unat sz + v < Suc k * unat sz" using that(2) by simp
    also have "\<dots> \<le> n * unat sz" using that(1) by (intro mult_le_mono1) simp
    finally show ?thesis using assms(4) by linarith
  qed
  have "i * unat sz + t = j * unat sz + u"
    using t u offset_inj [OF b [OF assms(1) t(1)] b [OF assms(2) u(1)], of base] by metis
  then have "(i * unat sz + t) div unat sz = (j * unat sz + u) div unat sz" by simp
  then show False using t(1) u(1) assms(3) by simp
qed

lemma memswap_objs:
  fixes m :: mem and base :: addr
  assumes "i < n" and "j < n" and "i \<noteq> j" and "n * unat sz \<le> 2 ^ 32"
  defines "m' \<equiv> memswap m (base + of_nat i * sz) (base + of_nat j * sz) sz"
  shows "objs m' base n sz = swap_at i j (objs m base n sz)"
    and "a \<notin> region base (n * unat sz) \<Longrightarrow> m' a = m a"
proof -
  note sw = memswap_bytes [OF objs_disjoint [OF assms(1-4), of base], where m = m, folded m'_def]
  have other: "bytes_at m' (base + of_nat k * sz) (unat sz) = bytes_at m (base + of_nat k * sz) (unat sz)"
    if k: "k < n" "k \<noteq> i" "k \<noteq> j" for k
  proof (rule bytes_at_cong)
    fix a assume "a \<in> region (base + of_nat k * sz) (unat sz)"
    then have "a \<notin> region (base + of_nat i * sz) (unat sz)" "a \<notin> region (base + of_nat j * sz) (unat sz)"
      using objs_disjoint [OF k(1) assms(1) k(2) assms(4), of base]
        objs_disjoint [OF k(1) assms(2) k(3) assms(4), of base] by blast+
    then show "m' a = m a" using sw(3) by simp
  qed
  show "objs m' base n sz = swap_at i j (objs m base n sz)"
    by (rule nth_equalityI) (use assms sw other in \<open>auto simp: swap_at_def nth_list_update\<close>)
  show "m' a = m a" if "a \<notin> region base (n * unat sz)"
    using that sw(3) obj_in_array [OF assms(1), of base sz] obj_in_array [OF assms(2), of base sz] by blast
qed

section \<open>The contract of a comparison callback\<close>

locale comparator =
  fixes compar :: "mem \<Rightarrow> addr \<Rightarrow> addr \<Rightarrow> int" and sz :: uint and cmpv :: "byte list \<Rightarrow> byte list \<Rightarrow> int"
  assumes reads: "compar m p q = cmpv (bytes_at m p (unat sz)) (bytes_at m q (unat sz))"
    and opposite: "length x = unat sz \<Longrightarrow> length y = unat sz \<Longrightarrow> 0 < cmpv x y \<longleftrightarrow> cmpv y x < 0"
    and le_trans: "length x = unat sz \<Longrightarrow> length y = unat sz \<Longrightarrow> length z = unat sz \<Longrightarrow>
      cmpv x y \<le> 0 \<Longrightarrow> cmpv y z \<le> 0 \<Longrightarrow> cmpv x z \<le> 0"
begin

definition gt :: "byte list \<Rightarrow> byte list \<Rightarrow> bool" where
  "gt x y \<longleftrightarrow> length x = unat sz \<and> length y = unat sz \<and> 0 < cmpv x y"

definition smaller :: "(byte list \<times> byte list) set" where
  "smaller = {(y, x). gt x y}"

lemma smaller_trans: "trans smaller"
proof (rule transI)
  fix x y z assume "(x, y) \<in> smaller" "(y, z) \<in> smaller"
  then have l: "length x = unat sz" "length y = unat sz" "length z = unat sz"
    and gts: "0 < cmpv y x" "0 < cmpv z y" by (auto simp: smaller_def gt_def)
  have "\<not> cmpv z x \<le> 0"
  proof
    assume "cmpv z x \<le> 0"
    moreover have "cmpv x y \<le> 0" using gts(1) opposite [of y x] l by simp
    ultimately have "cmpv z y \<le> 0" using le_trans l by blast
    with gts(2) show False by simp
  qed
  then show "(x, z) \<in> smaller" using l by (simp add: smaller_def gt_def)
qed

lemma smaller_irrefl: "irrefl smaller"
  using opposite by (force simp: irrefl_def smaller_def gt_def)

lemma pass_refines:
  assumes "unat nmemb * unat sz \<le> 2 ^ 32" and "0 < gap" and "gap \<le> nmemb" and "unat i \<le> unat nmemb - unat gap"
  shows "\<exists>m' sw'. qsort_pass compar base nmemb sz gap i (base + i * sz) sw m = (m', sw')
    \<and> list_pass gt (unat gap) (unat i) sw (objs m base (unat nmemb) sz) = (objs m' base (unat nmemb) sz, sw')
    \<and> (\<forall>a. a \<notin> region base (unat nmemb * unat sz) \<longrightarrow> m' a = m a)"
  using assms(4)
proof (induction "unat nmemb - unat i" arbitrary: i sw m rule: less_induct)
  case less
  let ?n = "unat nmemb" and ?g = "unat gap" and ?i = "unat i"
  have ng: "unat (nmemb - gap) = ?n - ?g" using assms(3) by (simp add: unat_sub)
  have g: "0 < ?g" "?g \<le> ?n" using assms(2,3) by (simp_all add: word_less_nat_alt word_le_nat_alt)
  show ?case
  proof (cases "i < nmemb - gap")
    case False
    then have "\<not> ?i + ?g < ?n" using ng by (auto simp: word_less_nat_alt)
    with False show ?thesis by (subst qsort_pass.simps, subst list_pass.simps) simp
  next
    case True
    then have ig: "?i + ?g < ?n" using ng by (simp add: word_less_nat_alt)
    have j: "unat (i + gap) = ?i + ?g" using ig unat32_less [of nmemb] by (simp add: unat_word_ariths)
    have si: "unat (i + 1) = Suc ?i" using True by (rule unat_succ_less)
    have adv: "base + i * sz + sz = base + (i + 1) * sz" by (simp add: algebra_simps)
    let ?xs = "objs m base ?n sz" and ?p1 = "base + i * sz" and ?p2 = "base + (i + gap) * sz"
    have obj: "?xs ! ?i = bytes_at m ?p1 (unat sz)" "?xs ! (?i + ?g) = bytes_at m ?p2 (unat sz)"
      using nth_objs [of ?i ?n m base sz] nth_objs [of "?i + ?g" ?n m base sz] ig
      by (simp_all del: nth_objs add: j [symmetric] del: of_nat_add)
    have gt_iff: "0 < compar m ?p1 ?p2 \<longleftrightarrow> gt (?xs ! ?i) (?xs ! (?i + ?g))"
      by (simp add: reads gt_def obj)
    define m1 where "m1 = (if 0 < compar m ?p1 ?p2 then memswap m ?p1 ?p2 sz else m)"
    define xs1 where "xs1 = (if 0 < compar m ?p1 ?p2 then swap_at ?i (?i + ?g) ?xs else ?xs)"
    define sw1 where "sw1 = (sw \<or> 0 < compar m ?p1 ?p2)"
    note swap = memswap_objs [where i = ?i and j = "?i + ?g" and n = ?n and m = m and base = base and sz = sz]
    have objs1: "objs m1 base ?n sz = xs1" using swap(1) ig g assms(1) by (simp add: m1_def xs1_def)
    have out: "m1 a = m a" if "a \<notin> region base (?n * unat sz)" for a
      using swap(2) ig g assms(1) that by (simp add: m1_def)
    have 1: "qsort_pass compar base nmemb sz gap i ?p1 sw m
        = qsort_pass compar base nmemb sz gap (i + 1) (base + (i + 1) * sz) sw1 m1"
      using True by (subst qsort_pass.simps) (simp add: m1_def sw1_def Let_def adv)
    have 2: "list_pass gt ?g ?i sw ?xs = list_pass gt ?g (unat (i + 1)) sw1 xs1"
      using ig gt_iff si by (subst list_pass.simps) (simp add: xs1_def sw1_def)
    have "?n - unat (i + 1) < ?n - ?i" "unat (i + 1) \<le> ?n - ?g" using si ig by simp_all
    from less.hyps [OF this, of sw1 m1] show ?thesis unfolding 1 2 objs1 using out by metis
  qed
qed

definition sorts :: "addr \<Rightarrow> nat \<Rightarrow> mem \<Rightarrow> mem \<Rightarrow> bool" where
  "sorts base n m m' \<longleftrightarrow> sorted_wrt (\<lambda>x y. \<not> gt x y) (objs m' base n sz)
     \<and> mset (objs m' base n sz) = mset (objs m base n sz)
     \<and> (\<forall>a. a \<notin> region base (n * unat sz) \<longrightarrow> m' a = m a)"

lemma not_gt_trans:
  "length x = unat sz \<Longrightarrow> length y = unat sz \<Longrightarrow> length z = unat sz \<Longrightarrow> \<not> gt x y \<Longrightarrow> \<not> gt y z \<Longrightarrow> \<not> gt x z"
  unfolding gt_def using le_trans [of x y z] by (auto simp: not_less)

text \<open>One pass with gap 1: either it swapped and the array is smaller, or the array was already sorted.\<close>

lemma pass_step:
  assumes "unat nmemb * unat sz \<le> 2 ^ 32" and "0 < gap" and "gap \<le> nmemb"
  obtains m' sw where "qsort_pass compar base nmemb sz gap 0 base False m = (m', sw)"
    and "mset (objs m' base (unat nmemb) sz) = mset (objs m base (unat nmemb) sz)"
    and "sw \<Longrightarrow> (objs m' base (unat nmemb) sz, objs m base (unat nmemb) sz) \<in> lexord smaller"
    and "\<not> sw \<Longrightarrow> gap = 1 \<Longrightarrow> sorted_wrt (\<lambda>x y. \<not> gt x y) (objs m' base (unat nmemb) sz)"
    and "\<And>a. a \<notin> region base (unat nmemb * unat sz) \<Longrightarrow> m' a = m a"
proof -
  let ?n = "unat nmemb"
  obtain m' sw where p: "qsort_pass compar base nmemb sz gap 0 base False m = (m', sw)"
    and l: "list_pass gt (unat gap) 0 False (objs m base ?n sz) = (objs m' base ?n sz, sw)"
    and out: "\<And>a. a \<notin> region base (?n * unat sz) \<Longrightarrow> m' a = m a"
    using pass_refines [OF assms, of 0 base False m] by auto
  have g: "0 < unat gap" using assms(2) by (simp add: word_less_nat_alt)
  have "objs m' base ?n sz = objs m base ?n sz \<and> sw = False
      \<or> (objs m' base ?n sz, objs m base ?n sz) \<in> lexord smaller"
    by (rule list_pass_lexord [OF smaller_trans g _ l]) (simp add: smaller_def)
  moreover have "sorted_wrt (\<lambda>x y. \<not> gt x y) (objs m' base ?n sz)" if "\<not> sw" "gap = 1"
  proof (rule not_gt_sorted)
    let ?ys = "objs m' base ?n sz"
    show "\<not> gt (?ys ! k) (?ys ! (k + 1))" if "k + 1 < length ?ys" for k
      using list_pass_clean [of gt 1 0 False "objs m base ?n sz" ?ys] l \<open>\<not> sw\<close> \<open>gap = 1\<close> that by auto
    show "\<not> gt x z" if "x \<in> set ?ys" "y \<in> set ?ys" "z \<in> set ?ys" "\<not> gt x y" "\<not> gt y z" for x y z
      using not_gt_trans [of x y z] that in_objs_length by blast
  qed
  ultimately show ?thesis using that [OF p list_pass_mset [OF l] _ _ out] by blast
qed

lemma last_phase:
  assumes "unat nmemb * unat sz \<le> 2 ^ 32" and "1 \<le> nmemb"
  shows "\<exists>m'. qsort_loop compar base nmemb sz 1 m = Some m' \<and> sorts base (unat nmemb) m m'"
proof (induction "below smaller (objs m base (unat nmemb) sz)" arbitrary: m rule: less_induct)
  case less
  obtain m1 sw where p: "qsort_pass compar base nmemb sz 1 0 base False m = (m1, sw)"
    "mset (objs m1 base (unat nmemb) sz) = mset (objs m base (unat nmemb) sz)"
    "sw \<Longrightarrow> (objs m1 base (unat nmemb) sz, objs m base (unat nmemb) sz) \<in> lexord smaller"
    "\<not> sw \<Longrightarrow> (1 :: uint) = 1 \<Longrightarrow> sorted_wrt (\<lambda>x y. \<not> gt x y) (objs m1 base (unat nmemb) sz)"
    "\<And>a. a \<notin> region base (unat nmemb * unat sz) \<Longrightarrow> m1 a = m a"
    by (rule pass_step [OF assms(1) _ assms(2), of base m]) auto
  show ?case
  proof (cases sw)
    case True
    then have "below smaller (objs m1 base (unat nmemb) sz) < below smaller (objs m base (unat nmemb) sz)"
      by (intro below_less [OF smaller_trans smaller_irrefl p(2) p(3)])
    then obtain m' where "qsort_loop compar base nmemb sz 1 m1 = Some m'" "sorts base (unat nmemb) m1 m'"
      using less by blast
    then show ?thesis using True p by (subst qsort_loop.simps) (auto simp: sorts_def)
  next
    case False
    then show ?thesis using p by (subst qsort_loop.simps) (auto simp: sorts_def)
  qed
qed

lemma loop_sorts:
  assumes "unat nmemb * unat sz \<le> 2 ^ 32" and "0 < gap" and "gap \<le> nmemb"
  shows "\<exists>m'. qsort_loop compar base nmemb sz gap m = Some m' \<and> sorts base (unat nmemb) m m'"
  using assms(2,3)
proof (induction "unat gap" arbitrary: gap m rule: less_induct)
  case less
  have one: "1 \<le> nmemb" using less.prems by (simp add: word_less_nat_alt word_le_nat_alt)
  show ?case
  proof (cases "gap = 1")
    case True
    then show ?thesis using last_phase [OF assms(1) one] by simp
  next
    case False
    then have gap: "1 < gap" using less.prems(1)
      by (metis One_nat_def Suc_lessI unat_0 unat_1 word_less_nat_alt word_unat_eq_iff)
    let ?g = "newgap gap"
    have g: "?g \<le> nmemb" using newgap_le [OF less.prems(1)] less.prems(2) by simp
    obtain m1 sw where p: "qsort_pass compar base nmemb sz ?g 0 base False m = (m1, sw)"
      "mset (objs m1 base (unat nmemb) sz) = mset (objs m base (unat nmemb) sz)"
      "\<not> sw \<Longrightarrow> ?g = 1 \<Longrightarrow> sorted_wrt (\<lambda>x y. \<not> gt x y) (objs m1 base (unat nmemb) sz)"
      "\<And>a. a \<notin> region base (unat nmemb * unat sz) \<Longrightarrow> m1 a = m a"
      by (rule pass_step [OF assms(1) newgap_pos g, of base m]) auto
    obtain m' where m': "qsort_loop compar base nmemb sz ?g m1 = Some m'" "sorts base (unat nmemb) m1 m'"
      using less.hyps [of ?g m1] newgap_less [OF gap] newgap_pos g by (auto simp: word_less_nat_alt)
    have "?g = 1" if "\<not> 1 < ?g"
      using that newgap_pos [of gap]
      by (metis One_nat_def Suc_lessI unat_0 unat_1 word_less_nat_alt word_unat_eq_iff)
    then show ?thesis using p m' by (subst qsort_loop.simps) (auto simp: Let_def sorts_def)
  qed
qed

lemma qsort_sorts:
  assumes "unat nmemb * unat sz \<le> 2 ^ 32"
  shows "\<exists>m'. qsort compar m base nmemb sz = Some m' \<and> sorts base (unat nmemb) m m'"
proof (cases "nmemb = 0")
  case False
  then show ?thesis using loop_sorts [OF assms, of nmemb base m] by (simp add: qsort_def word_gt_0)
qed (simp add: qsort_def sorts_def objs_def)

lemma sorts_sorted: "sorts base n m m' \<Longrightarrow> sorted_wrt (\<lambda>x y. cmpv x y \<le> 0) (objs m' base n sz)"
  unfolding sorts_def
  by (elim conjE, erule sorted_wrt_mono_rel [rotated]) (auto simp: gt_def in_objs_length)

definition found :: "mem \<Rightarrow> byte list \<Rightarrow> addr \<Rightarrow> nat \<Rightarrow> addr \<Rightarrow> bool" where
  "found m k base n r \<longleftrightarrow>
     (\<exists>i < n. r = base + of_nat i * sz \<and> cmpv k (bytes_at m (base + of_nat i * sz) (unat sz)) = 0)
     \<or> r = NULL \<and> (\<forall>i < n. cmpv k (bytes_at m (base + of_nat i * sz) (unat sz)) \<noteq> 0)"

lemma found_right:
  assumes "found m k (base + of_nat (Suc h) * sz) (n - Suc h) r"
    and "\<And>i. i \<le> h \<Longrightarrow> cmpv k (bytes_at m (base + of_nat i * sz) (unat sz)) \<noteq> 0"
  shows "found m k base n r"
proof -
  have at: "base + of_nat (Suc h) * sz + of_nat i * sz = base + of_nat (Suc h + i) * sz" for i
    by (simp add: algebra_simps)
  have miss: "cmpv k (bytes_at m (base + of_nat i * sz) (unat sz)) \<noteq> 0"
    if "\<forall>i < n - Suc h. cmpv k (bytes_at m (base + of_nat (Suc h + i) * sz) (unat sz)) \<noteq> 0" "i < n" for i
    using assms(2) [of i] that(1) [rule_format, of "i - Suc h"] that(2) by (cases "i \<le> h") auto
  show ?thesis using assms(1) miss less_diff_conv unfolding found_def at by (metis add.commute)
qed

lemma found_left:
  assumes "found m k base h r" and "h \<le> n"
    and "\<And>i. h \<le> i \<Longrightarrow> i < n \<Longrightarrow> cmpv k (bytes_at m (base + of_nat i * sz) (unat sz)) \<noteq> 0"
  shows "found m k base n r"
proof -
  have "cmpv k (bytes_at m (base + of_nat i * sz) (unat sz)) \<noteq> 0"
    if "\<forall>i < h. cmpv k (bytes_at m (base + of_nat i * sz) (unat sz)) \<noteq> 0" "i < n" for i
    using assms(3) [of i] that by (cases "i < h") auto
  then show ?thesis using assms(1) order_less_le_trans [OF _ assms(2)] unfolding found_def by blast
qed

text \<open>The half of the array that the search leaves holds nothing equal to the key.\<close>

lemma left_half_misses:
  assumes "length k = unat sz" "length x = unat sz" "length y = unat sz" "cmpv x y \<le> 0" "0 < cmpv k y"
  shows "cmpv k x \<noteq> 0"
  using le_trans [of k x y] assms by auto

lemma right_half_misses:
  assumes "length k = unat sz" "length x = unat sz" "length y = unat sz" "cmpv y x \<le> 0" "cmpv k y < 0"
  shows "cmpv k x \<noteq> 0"
proof
  assume "cmpv k x = 0"
  then have "cmpv x k \<le> 0" using opposite [of x k] assms by auto
  then have "cmpv y k \<le> 0" using le_trans [of y x k] assms by simp
  then show False using opposite [of y k] assms by simp
qed

lemma bsearch_ok:
  assumes "\<And>i j. i < j \<Longrightarrow> j < unat nmemb \<Longrightarrow> cmpv (bytes_at m (base + of_nat i * sz) (unat sz))
      (bytes_at m (base + of_nat j * sz) (unat sz)) \<le> 0"
  shows "found m (bytes_at m key (unat sz)) base (unat nmemb) (bsearch compar m key base nmemb sz)"
  using assms
proof (induction "unat nmemb" arbitrary: base nmemb rule: less_induct)
  case less
  let ?n = "unat nmemb" and ?k = "bytes_at m key (unat sz)"
  let ?x = "\<lambda>i. bytes_at m (base + of_nat i * sz) (unat sz)"
  define h where "h = ?n div 2"
  show ?case
  proof (cases "nmemb = 0")
    case False
    then have n: "0 < ?n" by (simp add: unat_gt_0)
    have h12: "unat (nmemb div 2) = h" "h < ?n" using n by (simp_all add: h_def unat_div_distrib)
    then have "nmemb div 2 = of_nat h" by (metis of_nat_unat_word)
    note h = h12 this
    have h1: "unat (of_nat h + 1 :: uint) = Suc h" using h unat32_less [of nmemb] by (simp add: unat_word_ariths)
    then have rest: "unat (nmemb - (of_nat h + 1)) = ?n - Suc h"
      using h by (subst unat_sub) (simp_all add: word_le_nat_alt)
    have step: "base + of_nat h * sz + sz = base + of_nat (Suc h) * sz" by (simp add: algebra_simps)
    note unf = bsearch.simps [of compar m key base nmemb sz, unfolded Let_def h(3) step reads [of m key "base + of_nat h * sz"]]
    have split: "cmpv ?k (?x i) \<noteq> 0" if "i < ?n" "0 < cmpv ?k (?x h) \<and> i \<le> h \<or> cmpv ?k (?x h) < 0 \<and> h \<le> i" for i
      using that less.prems [of i h] less.prems [of h i] h(2)
        left_half_misses [of ?k "?x i" "?x h"] right_half_misses [of ?k "?x i" "?x h"]
      by (cases "i = h") auto
    consider "cmpv ?k (?x h) = 0" | "0 < cmpv ?k (?x h)" | "cmpv ?k (?x h) < 0" by linarith
    then show ?thesis
    proof cases
      case 1
      then show ?thesis using False h unf by (auto simp: found_def)
    next
      case 2
      have "found m ?k (base + of_nat (Suc h) * sz) (unat (nmemb - (of_nat h + 1)))
          (bsearch compar m key (base + of_nat (Suc h) * sz) (nmemb - (of_nat h + 1)) sz)"
      proof (rule less.hyps)
        show "unat (nmemb - (of_nat h + 1)) < ?n" using rest h by simp
        show "cmpv (bytes_at m (base + of_nat (Suc h) * sz + of_nat i * sz) (unat sz))
            (bytes_at m (base + of_nat (Suc h) * sz + of_nat j * sz) (unat sz)) \<le> 0"
          if "i < j" "j < unat (nmemb - (of_nat h + 1))" for i j
          using less.prems [of "Suc h + i" "Suc h + j"] that rest by (simp add: algebra_simps)
      qed
      then have "found m ?k base ?n (bsearch compar m key (base + of_nat (Suc h) * sz) (nmemb - (of_nat h + 1)) sz)"
        unfolding rest by (rule found_right) (use split 2 h in simp)
      then show ?thesis using False 2 unf by simp
    next
      case 3
      have "found m ?k base (unat (of_nat h :: uint)) (bsearch compar m key base (of_nat h) sz)"
        using less.prems h by (intro less.hyps) simp_all
      then have "found m ?k base ?n (bsearch compar m key base (of_nat h) sz)"
        by (rule found_left) (use split 3 h in simp_all)
      then show ?thesis using False 3 unf by simp
    qed
  qed (simp add: found_def bsearch.simps)
qed

end

section \<open>\<open>memcmp\<close> as a callback\<close>

lemma cmp_bytes_le_trans:
  assumes "length x = length y" and "length y = length z" and "cmp_bytes x y \<le> 0" and "cmp_bytes y z \<le> 0"
  shows "cmp_bytes x z \<le> 0"
  using assms by (induction x y z rule: list_induct3) (auto split: if_splits)

interpretation memcmp_order: comparator "\<lambda>m p q. memcmp m p q sz" sz cmp_bytes for sz
proof
  show "memcmp m p q sz = cmp_bytes (bytes_at m p (unat sz)) (bytes_at m q (unat sz))" for m p q
    by (rule memcmp_bytes)
  show "0 < cmp_bytes x y \<longleftrightarrow> cmp_bytes y x < 0" for x y by (simp add: cmp_bytes_neg [of x y])
qed (use cmp_bytes_le_trans in metis)

section \<open>Properties\<close>

text \<open>C11 \<open>qsort\<close> returns for every array that fits in memory and every comparison callback that orders the
  objects by their bytes: afterwards the array is sorted, it holds the same objects, and memory outside the
  array is unchanged.  (The gaps shrink to 1, and a pass with swaps makes the array smaller in the
  lexicographic order, so the comb sort ends.)\<close>

theorem qsort_sorts_array:
  assumes "comparator compar sz cmpv" and "unat nmemb * unat sz \<le> 2 ^ 32"
  shows "\<exists>m'. qsort compar m base nmemb sz = Some m'
    \<and> sorted_wrt (\<lambda>x y. cmpv x y \<le> 0) (objs m' base (unat nmemb) sz)
    \<and> mset (objs m' base (unat nmemb) sz) = mset (objs m base (unat nmemb) sz)
    \<and> (\<forall>a. a \<notin> region base (unat nmemb * unat sz) \<longrightarrow> m' a = m a)"
proof -
  obtain m' where m': "qsort compar m base nmemb sz = Some m'" "comparator.sorts sz cmpv base (unat nmemb) m m'"
    using comparator.qsort_sorts [OF assms, of m base] by blast
  then show ?thesis
    using comparator.sorts_sorted [OF assms(1) m'(2)] m'(2) [unfolded comparator.sorts_def [OF assms(1)]] by blast
qed

theorem qsort_sorts_array_witness:
  "\<exists>m'. qsort (\<lambda>m p q. memcmp m p q 1) (store_bytes (\<lambda>_. 0) 0x100 [3, 1, 2]) 0x100 3 1 = Some m'
     \<and> sorted_wrt (\<lambda>x y. cmp_bytes x y \<le> 0) (objs m' 0x100 3 1)
     \<and> mset (objs m' 0x100 3 1) = {#[1], [2], [3]#}"
proof -
  let ?m = "store_bytes (\<lambda>_. 0) 0x100 [3, 1, 2] :: mem"
  have "objs ?m 0x100 3 1 = [[3], [1], [2]]" by (simp add: objs_def upt_rec)
  then have "mset (objs ?m 0x100 3 1) = {#[1], [2], [3]#}" by simp
  then show ?thesis
    using qsort_sorts_array [OF memcmp_order.comparator_axioms, of 3 1 ?m "0x100"] by auto
qed

text \<open>On an array that is sorted for its comparison callback, \<open>bsearch\<close> finds the key: it returns the address
  of an object that compares equal, and NULL only when there is none.\<close>

lemma bsearch_finds:
  assumes "comparator compar sz cmpv" and "sorted_wrt (\<lambda>x y. cmpv x y \<le> 0) (objs m base (unat nmemb) sz)"
    and "bsearch compar m key base nmemb sz = r"
  shows "(\<exists>i < unat nmemb. r = base + of_nat i * sz
            \<and> cmpv (bytes_at m key (unat sz)) (objs m base (unat nmemb) sz ! i) = 0)
    \<or> r = NULL \<and> (\<forall>i < unat nmemb. cmpv (bytes_at m key (unat sz)) (objs m base (unat nmemb) sz ! i) \<noteq> 0)"
proof -
  have "comparator.found sz cmpv m (bytes_at m key (unat sz)) base (unat nmemb) (bsearch compar m key base nmemb sz)"
  proof (rule comparator.bsearch_ok [OF assms(1)])
    show "cmpv (bytes_at m (base + of_nat i * sz) (unat sz)) (bytes_at m (base + of_nat j * sz) (unat sz)) \<le> 0"
      if "i < j" "j < unat nmemb" for i j
      using assms(2) that unfolding sorted_wrt_iff_nth_less by simp
  qed
  then show ?thesis
    using assms(3) by (auto simp: comparator.found_def [OF assms(1)])
qed

lemma bsearch_finds_witness:
  "bsearch (\<lambda>m p q. memcmp m p q 1) (store_bytes (\<lambda>_. 0) 0x100 [1, 2, 3]) 0x102 0x100 3 1 = 0x102"
proof -
  let ?m = "store_bytes (\<lambda>_. 0) 0x100 [1, 2, 3] :: mem"
  have xs: "objs ?m 0x100 (unat (3 :: uint)) 1 = [[1], [2], [3]]" by (simp add: objs_def upt_rec)
  then have "sorted_wrt (\<lambda>x y. cmp_bytes x y \<le> 0) (objs ?m 0x100 (unat (3 :: uint)) 1)" by simp
  note found = bsearch_finds [OF memcmp_order.comparator_axioms this refl, of "0x102"]
  have key: "bytes_at ?m 0x102 (unat (1 :: uint)) = [3]" and n: "unat (3 :: uint) = 3" by simp_all
  have eq: "cmp_bytes [3] ([[1], [2], [3]] ! i) = 0 \<longleftrightarrow> i = 2" if "i < 3" for i :: nat
  proof -
    have "i = 0 \<or> i = 1 \<or> i = 2" using that by auto
    then show ?thesis by auto
  qed
  let ?r = "bsearch (\<lambda>m p q. memcmp m p q 1) ?m 0x102 0x100 3 1"
  have "(\<exists>i < 3. ?r = 0x100 + of_nat i * 1 \<and> cmp_bytes [3] ([[1], [2], [3]] ! i) = 0)
      \<or> ?r = NULL \<and> (\<forall>i < 3. cmp_bytes [3] ([[1], [2], [3]] ! i) \<noteq> 0)"
    using found unfolding key n xs [unfolded n] .
  moreover have "(2 :: nat) < 3" "cmp_bytes [3] ([[1], [2], [3]] ! 2) = 0" by simp_all
  ultimately obtain i :: nat where "i < 3" "?r = 0x100 + of_nat i * 1" "cmp_bytes [3] ([[1], [2], [3]] ! i) = 0"
    by blast
  then have "?r = 0x100 + of_nat 2 * 1" using eq by blast
  also have "\<dots> = 0x102" by simp
  finally show ?thesis .
qed

end
