(* ===== verification/ConsProd.thy ===== *)
theory ConsProd
  imports Mem_Ops
begin

text \<open>
  The byte ring between the UART interrupt handlers and the program (\<open>sw/sys-libs/drivers/consprod.c\<close>).
  \<open>prod\<close> points at the next free slot and \<open>cons\<close> at the last slot consumed, so the ring is empty when the
  slot after \<open>cons\<close> is \<open>prod\<close> and full when the slot after \<open>prod\<close> is \<open>cons\<close>.

  A call with \<open>wait\<close> spins until the other side, an interrupt handler, moves its pointer.  The interrupts
  that come during the wait are the list \<open>ivs\<close> of state changes; the call is \<open>None\<close> when it still waits
  after the last of them.
\<close>

section \<open>Definitions\<close>

record consprod =
  buffer_start :: addr
  buffer_end :: addr
  prod :: addr
  cons :: addr

type_synonym ring = "consprod \<times> mem"

definition consprod_init :: "addr \<Rightarrow> addr \<Rightarrow> consprod" where
  "consprod_init buf_start buf_end =
     \<lparr>buffer_start = buf_start, buffer_end = buf_end, prod = buf_start + 1, cons = buf_start\<rparr>"

definition cp_ptr_next :: "consprod \<Rightarrow> addr \<Rightarrow> addr" where
  "cp_ptr_next cp ptr = (let n = ptr + 1 in if n = buffer_end cp then buffer_start cp else n)"

function consume_loop :: "consprod \<Rightarrow> mem \<Rightarrow> addr \<Rightarrow> uint \<Rightarrow> addr \<Rightarrow> addr \<Rightarrow> consprod \<times> mem \<times> addr \<times> uint" where
  "consume_loop cp m buf x p c =
     (if x \<noteq> 0 \<and> c \<noteq> p
      then consume_loop (cp\<lparr>cons := c\<rparr>) (m(buf := m c)) (buf + 1) (x - 1) p (cp_ptr_next cp c)
      else (cp, m, buf, x))"
  by pat_completeness auto
termination
  by (relation "measure (\<lambda>(cp, m, buf, x, p, c). unat x)") (auto simp: unat_pred_less)

function produce_loop :: "consprod \<Rightarrow> mem \<Rightarrow> addr \<Rightarrow> uint \<Rightarrow> addr \<Rightarrow> addr \<Rightarrow> consprod \<times> mem \<times> addr \<times> uint" where
  "produce_loop cp m buf x p c =
     (if x \<noteq> 0 \<and> p \<noteq> c
      then produce_loop (cp\<lparr>prod := p\<rparr>) (m(prod cp := m buf)) (buf + 1) (x - 1) (cp_ptr_next cp p) c
      else (cp, m, buf, x))"
  by pat_completeness auto
termination
  by (relation "measure (\<lambda>(cp, m, buf, x, p, c). unat x)") (auto simp: unat_pred_less)

declare consume_loop.simps [simp del] produce_loop.simps [simp del]

text \<open>Spinning until a pointer differs from its old value.\<close>

fun spin :: "(consprod \<Rightarrow> addr) \<Rightarrow> addr \<Rightarrow> (ring \<Rightarrow> ring) list \<Rightarrow> ring \<Rightarrow> (ring \<times> (ring \<Rightarrow> ring) list) option" where
  "spin ptr old ivs r =
     (if ptr (fst r) = old then (case ivs of [] \<Rightarrow> None | f # fs \<Rightarrow> spin ptr old fs (f r))
      else Some (r, ivs))"

lemma spin_shorter: "spin ptr old ivs r = Some (r', ivs') \<Longrightarrow> ptr (fst r) = old \<Longrightarrow> length ivs' < length ivs"
proof (induction ivs arbitrary: r)
  case (Cons f fs)
  then have "spin ptr old fs (f r) = Some (r', ivs')" by simp
  then show ?case using Cons.IH [of "f r"] by (cases "ptr (fst (f r)) = old") (auto split: list.splits)
qed simp

lemma consume_loop_keeps:
  "consume_loop cp m buf x p c = (cp', m', buf', x') \<Longrightarrow>
   prod cp' = prod cp \<and> buffer_start cp' = buffer_start cp \<and> buffer_end cp' = buffer_end cp"
proof (induction cp m buf x p c rule: consume_loop.induct)
  case (1 cp m buf x p c)
  show ?case
  proof (cases "x \<noteq> 0 \<and> c \<noteq> p")
    case True
    then show ?thesis
      using "1.IH" "1.prems" by (subst (asm) (2) consume_loop.simps) (simp add: fun_upd_def)
  qed (use "1.prems" in \<open>subst (asm) consume_loop.simps, auto\<close>)
qed

lemma produce_loop_keeps:
  "produce_loop cp m buf x p c = (cp', m', buf', x') \<Longrightarrow>
   cons cp' = cons cp \<and> buffer_start cp' = buffer_start cp \<and> buffer_end cp' = buffer_end cp"
proof (induction cp m buf x p c rule: produce_loop.induct)
  case (1 cp m buf x p c)
  show ?case
  proof (cases "x \<noteq> 0 \<and> p \<noteq> c")
    case True
    then show ?thesis
      using "1.IH" "1.prems" by (subst (asm) (2) produce_loop.simps) (simp add: fun_upd_def)
  qed (use "1.prems" in \<open>subst (asm) produce_loop.simps, auto\<close>)
qed

text \<open>The calls return the count, the ring, and the interrupts that have not come yet.\<close>

function consprod_consume ::
  "consprod \<Rightarrow> mem \<Rightarrow> addr \<Rightarrow> uint \<Rightarrow> uint \<Rightarrow> (ring \<Rightarrow> ring) list \<Rightarrow> (uint \<times> ring \<times> (ring \<Rightarrow> ring) list) option"
where
  "consprod_consume cp m buf len wait ivs =
     (let p = prod cp; c = cp_ptr_next cp (cons cp); (cp', m', buf', x) = consume_loop cp m buf len p c in
      if x > 0 then
        if wait \<noteq> 0 then
          case spin prod p ivs (cp', m') of None \<Rightarrow> None
          | Some ((cp2, m2), ivs') \<Rightarrow> consprod_consume cp2 m2 buf' x wait ivs'
        else Some (len - x, (cp', m'), ivs)
      else Some (len, (cp', m'), ivs))"
  by pat_completeness auto
termination
proof (relation "measure (\<lambda>(cp, m, buf, len, wait, ivs). length ivs)")
  fix cp m buf len wait ivs p c w cp' w1 m' w2 buf' x v r ivs' cp2 m2
  assume p: "p = prod cp" and w: "w = consume_loop cp m buf len p c" "(cp', w1) = w" "(m', w2) = w1"
    "(buf', x) = w2" and s: "spin prod p ivs (cp', m') = Some v" "(r, ivs') = v"
  then have "prod cp' = p" using consume_loop_keeps [of cp m buf len p c cp' m' buf' x] by simp
  then have "length ivs' < length ivs" using s spin_shorter by fastforce
  then show "((cp2, m2, buf', x, wait, ivs'), (cp, m, buf, len, wait, ivs))
      \<in> measure (\<lambda>(cp, m, buf, len, wait, ivs). length ivs)" by simp
qed simp

function consprod_produce ::
  "consprod \<Rightarrow> mem \<Rightarrow> addr \<Rightarrow> uint \<Rightarrow> uint \<Rightarrow> (ring \<Rightarrow> ring) list \<Rightarrow> (uint \<times> ring \<times> (ring \<Rightarrow> ring) list) option"
where
  "consprod_produce cp m buf len wait ivs =
     (let p = cp_ptr_next cp (prod cp); c = cons cp; (cp', m', buf', x) = produce_loop cp m buf len p c in
      if x > 0 then
        if wait \<noteq> 0 then
          case spin cons c ivs (cp', m') of None \<Rightarrow> None
          | Some ((cp2, m2), ivs') \<Rightarrow> consprod_produce cp2 m2 buf' x wait ivs'
        else Some (len - x, (cp', m'), ivs)
      else Some (len, (cp', m'), ivs))"
  by pat_completeness auto
termination
proof (relation "measure (\<lambda>(cp, m, buf, len, wait, ivs). length ivs)")
  fix cp m buf len wait ivs p c w cp' w1 m' w2 buf' x v r ivs' cp2 m2
  assume p: "c = cons cp" and w: "w = produce_loop cp m buf len p c" "(cp', w1) = w" "(m', w2) = w1"
    "(buf', x) = w2" and s: "spin cons c ivs (cp', m') = Some v" "(r, ivs') = v"
  then have "cons cp' = c" using produce_loop_keeps [of cp m buf len p c cp' m' buf' x] by simp
  then have "length ivs' < length ivs" using s spin_shorter by fastforce
  then show "((cp2, m2, buf', x, wait, ivs'), (cp, m, buf, len, wait, ivs))
      \<in> measure (\<lambda>(cp, m, buf, len, wait, ivs). length ivs)" by simp
qed simp

declare spin.simps [simp del] consprod_consume.simps [simp del] consprod_produce.simps [simp del]

section \<open>Ring arithmetic\<close>

definition ring_size :: "consprod \<Rightarrow> nat" where
  "ring_size cp = unat (buffer_end cp - buffer_start cp)"

definition off :: "consprod \<Rightarrow> addr \<Rightarrow> nat" where
  "off cp a = unat (a - buffer_start cp)"

definition in_ring :: "consprod \<Rightarrow> addr \<Rightarrow> bool" where
  "in_ring cp a \<longleftrightarrow> off cp a < ring_size cp"

text \<open>The number of steps from one slot to another.\<close>

definition dist :: "consprod \<Rightarrow> addr \<Rightarrow> addr \<Rightarrow> nat" where
  "dist cp a b = (if off cp a \<le> off cp b then off cp b - off cp a else off cp b + ring_size cp - off cp a)"

lemma off_inj: "off cp a = off cp b \<longleftrightarrow> a = b"
  by (simp add: off_def flip: word_unat_eq_iff)

lemma off_next:
  assumes "in_ring cp a"
  shows "off cp (cp_ptr_next cp a) = (if Suc (off cp a) = ring_size cp then 0 else Suc (off cp a))"
proof -
  let ?d = "a - buffer_start cp"
  have lt: "unat ?d < unat (buffer_end cp - buffer_start cp)" using assms by (simp add: in_ring_def off_def ring_size_def)
  then have "?d < buffer_end cp - buffer_start cp" by (simp add: word_less_nat_alt)
  then have s: "unat (?d + 1) = Suc (unat ?d)" by (rule unat_succ_less)
  have e: "a + 1 - buffer_start cp = ?d + 1" by simp
  have "a + 1 = buffer_end cp \<longleftrightarrow> ?d + 1 = buffer_end cp - buffer_start cp" by (metis e diff_add_cancel)
  also have "\<dots> \<longleftrightarrow> Suc (unat ?d) = ring_size cp" by (simp add: ring_size_def word_unat_eq_iff [of "?d + 1"] s)
  finally show ?thesis by (simp add: cp_ptr_next_def Let_def off_def s e)
qed

lemma in_ring_next [simp]: "in_ring cp a \<Longrightarrow> in_ring cp (cp_ptr_next cp a)"
  by (auto simp: in_ring_def off_next [unfolded in_ring_def])

lemma dist_0 [simp]: "in_ring cp a \<Longrightarrow> in_ring cp b \<Longrightarrow> dist cp a b = 0 \<longleftrightarrow> a = b"
  unfolding dist_def in_ring_def off_inj [of cp a b, symmetric] by auto

lemma dist_less: "in_ring cp a \<Longrightarrow> in_ring cp b \<Longrightarrow> dist cp a b < ring_size cp"
  by (auto simp: dist_def in_ring_def)

lemma dist_next:
  assumes "in_ring cp a" and "in_ring cp b" and "a \<noteq> b"
  shows "dist cp a b = Suc (dist cp (cp_ptr_next cp a) b)"
proof -
  have "off cp a \<noteq> off cp b" using assms(3) by (simp add: off_inj)
  then show ?thesis using assms(1,2) by (auto simp: dist_def off_next in_ring_def)
qed

lemma dist_next_right:
  assumes "in_ring cp a" and "in_ring cp b" and "cp_ptr_next cp b \<noteq> a"
  shows "dist cp a (cp_ptr_next cp b) = Suc (dist cp a b)"
proof -
  have "off cp (cp_ptr_next cp b) \<noteq> off cp a" using assms(3) by (simp add: off_inj)
  then show ?thesis using assms(1,2) off_next [OF assms(2)] by (auto simp: dist_def in_ring_def split: if_splits)
qed

section \<open>Contents\<close>

primrec ring_slice :: "consprod \<Rightarrow> mem \<Rightarrow> addr \<Rightarrow> nat \<Rightarrow> byte list" where
  "ring_slice cp m a 0 = []"
| "ring_slice cp m a (Suc n) = m a # ring_slice cp m (cp_ptr_next cp a) n"

definition cp_inv :: "consprod \<Rightarrow> bool" where
  "cp_inv cp \<longleftrightarrow> in_ring cp (prod cp) \<and> in_ring cp (cons cp) \<and> prod cp \<noteq> cons cp"

definition content :: "consprod \<Rightarrow> mem \<Rightarrow> byte list" where
  "content cp m = ring_slice cp m (cp_ptr_next cp (cons cp)) (dist cp (cp_ptr_next cp (cons cp)) (prod cp))"

definition room :: "consprod \<Rightarrow> nat" where
  "room cp = dist cp (cp_ptr_next cp (prod cp)) (cons cp)"

lemma length_ring_slice [simp]: "length (ring_slice cp m a n) = n"
  by (induction n arbitrary: a) auto

lemma cp_ptr_next_upd [simp]:
  "cp_ptr_next (cp\<lparr>prod := p\<rparr>) = cp_ptr_next cp" "cp_ptr_next (cp\<lparr>cons := c\<rparr>) = cp_ptr_next cp"
  by (auto simp: cp_ptr_next_def fun_eq_iff Let_def)

lemma ring_upd [simp]:
  "off (cp\<lparr>prod := p\<rparr>) = off cp" "off (cp\<lparr>cons := c\<rparr>) = off cp"
  "ring_size (cp\<lparr>prod := p\<rparr>) = ring_size cp" "ring_size (cp\<lparr>cons := c\<rparr>) = ring_size cp"
  "in_ring (cp\<lparr>prod := p\<rparr>) = in_ring cp" "in_ring (cp\<lparr>cons := c\<rparr>) = in_ring cp"
  "dist (cp\<lparr>prod := p\<rparr>) = dist cp" "dist (cp\<lparr>cons := c\<rparr>) = dist cp"
  by (auto simp: fun_eq_iff off_def ring_size_def in_ring_def dist_def)

lemma ring_slice_upd [simp]:
  "ring_slice (cp\<lparr>prod := p\<rparr>) m a n = ring_slice cp m a n" "ring_slice (cp\<lparr>cons := c\<rparr>) m a n = ring_slice cp m a n"
  by (induction n arbitrary: a) simp_all

lemma ring_slice_snoc:
  assumes "in_ring cp a" and "in_ring cp b" and "dist cp a b = n"
  shows "ring_slice cp m a (Suc n) = ring_slice cp m a n @ [m b]"
  using assms
proof (induction n arbitrary: a)
  case (Suc n)
  then have "a \<noteq> b" by (auto simp: dist_def)
  then have "dist cp (cp_ptr_next cp a) b = n" using Suc.prems dist_next by simp
  then show ?case using Suc.IH [of "cp_ptr_next cp a"] Suc.prems by simp
qed auto

lemma ring_slice_store:
  assumes "in_ring cp a" and "in_ring cp b" and "n \<le> dist cp a b"
  shows "ring_slice cp (m(b := x)) a n = ring_slice cp m a n"
  using assms
proof (induction n arbitrary: a)
  case (Suc n)
  then have "a \<noteq> b" by (auto simp: dist_def)
  then have "n \<le> dist cp (cp_ptr_next cp a) b" using Suc.prems dist_next [of cp a b] by simp
  then show ?case using Suc.IH [of "cp_ptr_next cp a"] Suc.prems \<open>a \<noteq> b\<close> by simp
qed simp

lemma ring_slice_store_outside:
  "in_ring cp a \<Longrightarrow> \<not> in_ring cp b \<Longrightarrow> ring_slice cp (m(b := x)) a n = ring_slice cp m a n"
  by (induction n arbitrary: a) auto

lemma content_store_outside: "cp_inv cp \<Longrightarrow> \<not> in_ring cp b \<Longrightarrow> content cp (m(b := x)) = content cp m"
  by (simp add: content_def cp_inv_def ring_slice_store_outside)

text \<open>Length and room add up to the ring's size less the two slots that \<open>prod\<close> and \<open>cons\<close> keep.\<close>

lemma content_room:
  assumes "cp_inv cp"
  shows "length (content cp m) + room cp + 2 = ring_size cp"
proof -
  have r: "in_ring cp (prod cp)" "in_ring cp (cons cp)" "prod cp \<noteq> cons cp" using assms by (simp_all add: cp_inv_def)
  then have "dist cp (cons cp) (prod cp) = Suc (length (content cp m))"
    "dist cp (prod cp) (cons cp) = Suc (room cp)"
    using dist_next [of cp] by (simp_all add: content_def room_def)
  moreover have "dist cp (cons cp) (prod cp) + dist cp (prod cp) (cons cp) = ring_size cp"
    using r off_inj [of cp "prod cp" "cons cp"] by (auto simp: dist_def in_ring_def)
  ultimately show ?thesis by simp
qed

section \<open>The contract of a byte queue\<close>

text \<open>
  One slot at a time: taking a byte out and putting one in.  The bulk operations follow from these two.
\<close>

locale byte_queue =
  fixes inv :: "'q \<Rightarrow> bool" and q_content :: "'q \<Rightarrow> byte list" and q_room :: "'q \<Rightarrow> nat"
    and get :: "'q \<Rightarrow> (byte \<times> 'q) option" and put :: "byte \<Rightarrow> 'q \<Rightarrow> 'q option"
  assumes get_empty: "inv q \<Longrightarrow> q_content q = [] \<Longrightarrow> get q = None"
    and get_next: "inv q \<Longrightarrow> q_content q = x # xs \<Longrightarrow>
      \<exists>q'. get q = Some (x, q') \<and> inv q' \<and> q_content q' = xs \<and> q_room q' = Suc (q_room q)"
    and put_full: "inv q \<Longrightarrow> q_room q = 0 \<Longrightarrow> put x q = None"
    and put_next: "inv q \<Longrightarrow> q_room q = Suc r \<Longrightarrow>
      \<exists>q'. put x q = Some q' \<and> inv q' \<and> q_content q' = q_content q @ [x] \<and> q_room q' = r"
begin

fun get_many :: "nat \<Rightarrow> 'q \<Rightarrow> byte list \<times> 'q" where
  "get_many 0 q = ([], q)"
| "get_many (Suc n) q = (case get q of None \<Rightarrow> ([], q)
     | Some (x, q') \<Rightarrow> (case get_many n q' of (xs, q'') \<Rightarrow> (x # xs, q'')))"

fun put_many :: "byte list \<Rightarrow> 'q \<Rightarrow> nat \<times> 'q" where
  "put_many [] q = (0, q)"
| "put_many (x # xs) q = (case put x q of None \<Rightarrow> (0, q)
     | Some q' \<Rightarrow> (case put_many xs q' of (k, q'') \<Rightarrow> (Suc k, q'')))"

lemma get_many_ok:
  "inv q \<Longrightarrow> \<exists>q'. get_many n q = (take n (q_content q), q') \<and> inv q' \<and> q_content q' = drop n (q_content q)
     \<and> q_room q' = q_room q + min n (length (q_content q))"
proof (induction n arbitrary: q)
  case (Suc n)
  show ?case
  proof (cases "q_content q")
    case Nil
    then show ?thesis using get_empty [OF Suc.prems] Suc.prems by simp
  next
    case (Cons x xs)
    then obtain q' where q': "get q = Some (x, q')" "inv q'" "q_content q' = xs" "q_room q' = Suc (q_room q)"
      using get_next [OF Suc.prems] by blast
    then show ?thesis using Suc.IH [OF q'(2)] Cons by auto
  qed
qed simp

lemma put_many_ok:
  "inv q \<Longrightarrow> \<exists>q'. put_many xs q = (min (length xs) (q_room q), q') \<and> inv q'
     \<and> q_content q' = q_content q @ take (q_room q) xs \<and> q_room q' = q_room q - length xs"
proof (induction xs arbitrary: q)
  case (Cons x xs)
  show ?case
  proof (cases "q_room q")
    case 0
    then show ?thesis using put_full [OF Cons.prems] Cons.prems by simp
  next
    case (Suc r)
    then obtain q' where q': "put x q = Some q'" "inv q'" "q_content q' = q_content q @ [x]" "q_room q' = r"
      using put_next [OF Cons.prems] by blast
    then show ?thesis using Cons.IH [OF q'(2)] Suc by auto
  qed
qed simp

end

text \<open>The ring as such a queue.\<close>

definition ring_get :: "ring \<Rightarrow> (byte \<times> ring) option" where
  "ring_get r = (case r of (cp, m) \<Rightarrow> let c = cp_ptr_next cp (cons cp) in
     if c = prod cp then None else Some (m c, cp\<lparr>cons := c\<rparr>, m))"

definition ring_put :: "byte \<Rightarrow> ring \<Rightarrow> ring option" where
  "ring_put x r = (case r of (cp, m) \<Rightarrow> let p = cp_ptr_next cp (prod cp) in
     if p = cons cp then None else Some (cp\<lparr>prod := p\<rparr>, m(prod cp := x)))"

lemma content_get:
  assumes "cp_inv cp" and "c = cp_ptr_next cp (cons cp)" and "c \<noteq> prod cp"
  shows "content cp m = m c # content (cp\<lparr>cons := c\<rparr>) m" and "cp_inv (cp\<lparr>cons := c\<rparr>)"
    and "room (cp\<lparr>cons := c\<rparr>) = Suc (room cp)"
proof -
  have r: "in_ring cp (prod cp)" "in_ring cp (cons cp)" using assms(1) by (simp_all add: cp_inv_def)
  then show "content cp m = m c # content (cp\<lparr>cons := c\<rparr>) m" "cp_inv (cp\<lparr>cons := c\<rparr>)"
    using assms dist_next [of cp c "prod cp"] by (auto simp: content_def cp_inv_def)
  then show "room (cp\<lparr>cons := c\<rparr>) = Suc (room cp)"
    using content_room [OF assms(1), of m] content_room [of "cp\<lparr>cons := c\<rparr>" m] by simp
qed

lemma content_put:
  assumes "cp_inv cp" and "p = cp_ptr_next cp (prod cp)" and "p \<noteq> cons cp"
  shows "content (cp\<lparr>prod := p\<rparr>) (m(prod cp := x)) = content cp m @ [x]" and "cp_inv (cp\<lparr>prod := p\<rparr>)"
    and "room cp = Suc (room (cp\<lparr>prod := p\<rparr>))"
proof -
  let ?c = "cp_ptr_next cp (cons cp)"
  have r: "in_ring cp (prod cp)" "in_ring cp (cons cp)" "prod cp \<noteq> cons cp" using assms(1) by (simp_all add: cp_inv_def)
  have "off cp p \<noteq> off cp ?c"
    using r assms(2) off_next [OF r(1)] off_next [OF r(2)] off_inj [of cp "prod cp" "cons cp"]
    by (auto simp: in_ring_def)
  then have "dist cp ?c p = Suc (dist cp ?c (prod cp))"
    using dist_next_right [of cp ?c "prod cp"] r assms(2) by (auto simp: off_inj)
  then show 1: "content (cp\<lparr>prod := p\<rparr>) (m(prod cp := x)) = content cp m @ [x]"
    using r ring_slice_snoc [of cp ?c "prod cp" _ "m(prod cp := x)"]
    by (simp add: content_def ring_slice_store del: ring_slice.simps)
  show 2: "cp_inv (cp\<lparr>prod := p\<rparr>)" using r assms by (simp add: cp_inv_def)
  show "room cp = Suc (room (cp\<lparr>prod := p\<rparr>))"
    using content_room [OF assms(1), of m] content_room [OF 2, of "m(prod cp := x)"] 1 by simp
qed

interpretation ring: byte_queue "\<lambda>(cp, m). cp_inv cp" "\<lambda>(cp, m). content cp m" "\<lambda>(cp, m). room cp" ring_get ring_put
proof (unfold_locales; clarify)
  fix cp :: consprod and m :: mem and x xs r
  assume inv: "cp_inv cp"
  let ?c = "cp_ptr_next cp (cons cp)" and ?p = "cp_ptr_next cp (prod cp)"
  have r: "in_ring cp (prod cp)" "in_ring cp (cons cp)" using inv by (simp_all add: cp_inv_def)
  have c0: "content cp m = [] \<longleftrightarrow> ?c = prod cp"
    using r dist_0 [of cp ?c "prod cp"] by (metis content_def in_ring_next length_0_conv length_ring_slice)
  have p0: "room cp = 0 \<longleftrightarrow> ?p = cons cp" using r by (simp add: room_def)
  show "ring_get (cp, m) = None" if "content cp m = []" using that c0 by (simp add: ring_get_def)
  show "\<exists>q'. ring_get (cp, m) = Some (x, q') \<and> (case q' of (cp, m) \<Rightarrow> cp_inv cp)
      \<and> (case q' of (cp, m) \<Rightarrow> content cp m) = xs \<and> (case q' of (cp, m) \<Rightarrow> room cp) = Suc (room cp)"
    if "content cp m = x # xs"
    using that c0 content_get(1) [OF inv refl, of m] content_get(2,3) [OF inv refl] by (auto simp: ring_get_def Let_def)
  show "ring_put x (cp, m) = None" if "room cp = 0" using that p0 by (simp add: ring_put_def)
  show "\<exists>q'. ring_put x (cp, m) = Some q' \<and> (case q' of (cp, m) \<Rightarrow> cp_inv cp)
      \<and> (case q' of (cp, m) \<Rightarrow> content cp m) = content cp m @ [x] \<and> (case q' of (cp, m) \<Rightarrow> room cp) = r"
    if "room cp = Suc r"
    using that p0 content_put(1) [OF inv refl, of m x] content_put(2,3) [OF inv refl] by (auto simp: ring_put_def Let_def)
qed

section \<open>The loops\<close>

lemma ring_get_simp:
  "ring_get (cp, m) = (if cp_ptr_next cp (cons cp) = prod cp then None
     else Some (m (cp_ptr_next cp (cons cp)), cp\<lparr>cons := cp_ptr_next cp (cons cp)\<rparr>, m))"
  by (simp add: ring_get_def Let_def)

lemma ring_put_simp:
  "ring_put x (cp, m) = (if cp_ptr_next cp (prod cp) = cons cp then None
     else Some (cp\<lparr>prod := cp_ptr_next cp (prod cp)\<rparr>, m(prod cp := x)))"
  by (simp add: ring_put_def Let_def)

text \<open>Taking bytes out depends on the ring's slots only and does not change memory.\<close>

lemma get_many_mem:
  "cp_inv cp \<Longrightarrow> (\<And>a. in_ring cp a \<Longrightarrow> m' a = m a) \<Longrightarrow> ring.get_many n (cp, m) = (xs, (cp', m1)) \<Longrightarrow>
   m1 = m \<and> ring.get_many n (cp, m') = (xs, (cp', m'))"
proof (induction n arbitrary: cp xs)
  case (Suc n)
  let ?c = "cp_ptr_next cp (cons cp)"
  have c: "m' ?c = m ?c" using Suc.prems by (simp add: cp_inv_def)
  show ?case
  proof (cases "?c = prod cp")
    case False
    obtain ys where ys: "ring.get_many n (cp\<lparr>cons := ?c\<rparr>, m) = (ys, (cp', m1))" "xs = m ?c # ys"
      using Suc.prems(3) False by (auto simp: ring_get_simp split: prod.splits)
    have "m1 = m \<and> ring.get_many n (cp\<lparr>cons := ?c\<rparr>, m') = (ys, (cp', m'))"
      by (rule Suc.IH [OF _ _ ys(1)]) (use content_get(2) [OF Suc.prems(1) refl False] Suc.prems(2) in auto)
    then show ?thesis using ys False c by (simp add: ring_get_simp)
  qed (use Suc.prems in \<open>auto simp: ring_get_simp\<close>)
qed auto

lemma consume_loop_get_many:
  assumes "cp_inv cp" and "\<And>a. a \<in> region buf (unat x) \<Longrightarrow> \<not> in_ring cp a"
    and "ring.get_many (unat x) (cp, m) = (xs, (cp', m1))"
  shows "consume_loop cp m buf x (prod cp) (cp_ptr_next cp (cons cp))
    = (cp', store_bytes m buf xs, buf + of_nat (length xs), x - of_nat (length xs))"
  using assms
proof (induction "unat x" arbitrary: cp m buf x xs m1)
  case 0
  then show ?case by (subst consume_loop.simps) (auto simp: unat_eq_0)
next
  case (Suc n)
  let ?c = "cp_ptr_next cp (cons cp)"
  have x: "x \<noteq> 0" using Suc.hyps(2) by auto
  then have n: "n = unat (x - 1)" using Suc.hyps(2) unat_pred [of x] by simp
  show ?case
  proof (cases "?c = prod cp")
    case True
    then have "xs = []" "cp' = cp" using Suc.prems(3) unfolding Suc.hyps(2) [symmetric] by (auto simp: ring_get_simp)
    then show ?thesis using True by (subst consume_loop.simps) simp
  next
    case False
    let ?cp = "cp\<lparr>cons := ?c\<rparr>" and ?m = "m(buf := m ?c)"
    have inv: "cp_inv ?cp" using content_get(2) [OF Suc.prems(1) refl False] .
    have out: "\<not> in_ring cp buf" "a \<in> region (buf + 1) n \<Longrightarrow> \<not> in_ring cp a" for a
      using Suc.prems(2) unfolding Suc.hyps(2) [symmetric] by (auto simp: region_Suc)
    obtain ys where ys: "ring.get_many n (?cp, m) = (ys, (cp', m1))" "xs = m ?c # ys"
      using Suc.prems(3) False unfolding Suc.hyps(2) [symmetric] by (auto simp: ring_get_simp split: prod.splits)
    have same: "?m a = m a" if "in_ring ?cp a" for a using out(1) that by auto
    have ys': "ring.get_many (unat (x - 1)) (?cp, ?m) = (ys, (cp', ?m))"
      using conjunct2 [OF get_many_mem [where m' = ?m, OF inv same ys(1)]] n by simp
    have "consume_loop ?cp ?m (buf + 1) (x - 1) (prod ?cp) (cp_ptr_next ?cp (cons ?cp))
      = (cp', store_bytes ?m (buf + 1) ys, buf + 1 + of_nat (length ys), x - 1 - of_nat (length ys))"
      by (rule Suc.hyps(1) [OF n inv _ ys']) (use out n in simp)
    then show ?thesis using False x ys by (subst consume_loop.simps) (simp add: diff_diff_eq)
  qed
qed

text \<open>Putting bytes in: the source must not lie in the ring, which the loop writes.\<close>

lemma produce_loop_put_many:
  assumes "cp_inv cp" and "\<And>a. a \<in> region buf (unat x) \<Longrightarrow> \<not> in_ring cp a"
    and "ring.put_many (bytes_at m buf (unat x)) (cp, m) = (k, (cp', m'))"
  shows "produce_loop cp m buf x (cp_ptr_next cp (prod cp)) (cons cp) = (cp', m', buf + of_nat k, x - of_nat k)
    \<and> (\<forall>a. \<not> in_ring cp a \<longrightarrow> m' a = m a)"
  using assms
proof (induction "unat x" arbitrary: cp m buf x k)
  case 0
  then show ?case by (subst produce_loop.simps) (auto simp: unat_eq_0)
next
  case (Suc n)
  let ?p = "cp_ptr_next cp (prod cp)"
  have x: "x \<noteq> 0" using Suc.hyps(2) by auto
  then have n: "n = unat (x - 1)" using Suc.hyps(2) unat_pred [of x] by simp
  show ?case
  proof (cases "?p = cons cp")
    case True
    then have "k = 0" "cp' = cp" "m' = m"
      using Suc.prems(3) unfolding Suc.hyps(2) [symmetric] by (auto simp: ring_put_simp)
    then show ?thesis using True by (subst produce_loop.simps) simp
  next
    case False
    let ?cp = "cp\<lparr>prod := ?p\<rparr>" and ?m = "m(prod cp := m buf)"
    have inv: "cp_inv ?cp" using content_put(2) [OF Suc.prems(1) refl False] .
    have out: "\<not> in_ring cp buf" "a \<in> region (buf + 1) n \<Longrightarrow> \<not> in_ring cp a" for a
      using Suc.prems(2) unfolding Suc.hyps(2) [symmetric] by (auto simp: region_Suc)
    have slot: "in_ring cp (prod cp)" using Suc.prems(1) by (simp add: cp_inv_def)
    have "prod cp \<notin> region (buf + 1) n" using out(2) slot by blast
    then have src: "bytes_at ?m (buf + 1) n = bytes_at m (buf + 1) n" by (rule bytes_at_upd_other)
    obtain j where j: "ring.put_many (bytes_at m (buf + 1) n) (?cp, ?m) = (j, (cp', m'))" "k = Suc j"
      using Suc.prems(3) False unfolding Suc.hyps(2) [symmetric] by (auto simp: ring_put_simp split: prod.splits)
    have j': "ring.put_many (bytes_at ?m (buf + 1) (unat (x - 1))) (?cp, ?m) = (j, (cp', m'))"
      using j(1) unfolding n [symmetric] src .
    have "produce_loop ?cp ?m (buf + 1) (x - 1) (cp_ptr_next ?cp (prod ?cp)) (cons ?cp)
        = (cp', m', buf + 1 + of_nat j, x - 1 - of_nat j) \<and> (\<forall>a. \<not> in_ring ?cp a \<longrightarrow> m' a = ?m a)"
      by (rule Suc.hyps(1) [OF n inv _ j']) (use out n in simp)
    then show ?thesis using False x j slot by (subst produce_loop.simps) (auto simp: diff_diff_eq)
  qed
qed

lemma ring_slice_cong:
  "in_ring cp a \<Longrightarrow> (\<And>b. in_ring cp b \<Longrightarrow> m' b = m b) \<Longrightarrow> ring_slice cp m' a n = ring_slice cp m a n"
  by (induction n arbitrary: a) auto

lemma content_cong: "cp_inv cp \<Longrightarrow> (\<And>b. in_ring cp b \<Longrightarrow> m' b = m b) \<Longrightarrow> content cp m' = content cp m"
  unfolding content_def cp_inv_def by (rule ring_slice_cong) auto

definition same_ring :: "consprod \<Rightarrow> consprod \<Rightarrow> bool" where
  "same_ring cp cp' \<longleftrightarrow> buffer_start cp' = buffer_start cp \<and> buffer_end cp' = buffer_end cp"

lemma same_ring_in_ring: "same_ring cp cp' \<Longrightarrow> in_ring cp' = in_ring cp"
  by (auto simp: same_ring_def in_ring_def off_def ring_size_def fun_eq_iff)

lemma consume_nowait_ok:
  assumes "cp_inv cp" and "\<And>a. a \<in> region buf (unat len) \<Longrightarrow> \<not> in_ring cp a"
    and xs_def: "xs = take (unat len) (content cp m)"
  shows "\<exists>cp'. consprod_consume cp m buf len 0 ivs = Some (of_nat (length xs), (cp', store_bytes m buf xs), ivs)
    \<and> cp_inv cp' \<and> same_ring cp cp' \<and> prod cp' = prod cp
    \<and> content cp' (store_bytes m buf xs) = drop (unat len) (content cp m)"
proof -
  obtain cp' m1 where g: "ring.get_many (unat len) (cp, m) = (xs, (cp', m1))" "cp_inv cp'"
    "content cp' m1 = drop (unat len) (content cp m)"
    using ring.get_many_ok [of "(cp, m)" "unat len"] assms(1) unfolding xs_def by auto
  have m1: "m1 = m" using get_many_mem [OF assms(1) _ g(1)] by blast
  have loop: "consume_loop cp m buf len (prod cp) (cp_ptr_next cp (cons cp))
      = (cp', store_bytes m buf xs, buf + of_nat (length xs), len - of_nat (length xs))"
    by (rule consume_loop_get_many [OF assms(1) _ g(1)]) (use assms(2) in blast)
  have keep: "prod cp' = prod cp" "same_ring cp cp'"
    using consume_loop_keeps [OF loop] by (simp_all add: same_ring_def)
  have sub: "region buf (length xs) \<subseteq> region buf (unat len)" by (intro region_mono) (simp add: xs_def)
  have "content cp' (store_bytes m buf xs) = content cp' m"
    using sub assms(2) same_ring_in_ring [OF keep(2)] by (intro content_cong g(2) store_bytes_other) auto
  moreover have "len - (len - of_nat (length xs)) = of_nat (length xs)" by simp
  ultimately show ?thesis
    using loop keep g m1 by (subst consprod_consume.simps) (auto simp: Let_def word_gt_0)
qed

lemma produce_loop_ok:
  assumes "cp_inv cp" and "\<And>a. a \<in> region buf (unat len) \<Longrightarrow> \<not> in_ring cp a" and "j = min (unat len) (room cp)"
  shows "\<exists>cp' m'. produce_loop cp m buf len (cp_ptr_next cp (prod cp)) (cons cp)
      = (cp', m', buf + of_nat j, len - of_nat j)
    \<and> cp_inv cp' \<and> same_ring cp cp' \<and> cons cp' = cons cp \<and> room cp' = room cp - unat len
    \<and> content cp' m' = content cp m @ take (room cp) (bytes_at m buf (unat len))
    \<and> (\<forall>a. \<not> in_ring cp a \<longrightarrow> m' a = m a)"
proof -
  obtain cp' m' where g: "ring.put_many (bytes_at m buf (unat len)) (cp, m) = (j, (cp', m'))"
    "cp_inv cp'" "content cp' m' = content cp m @ take (room cp) (bytes_at m buf (unat len))"
    "room cp' = room cp - unat len"
    using ring.put_many_ok [of "(cp, m)" "bytes_at m buf (unat len)"] assms(1,3) by auto
  note loop = produce_loop_put_many [OF assms(1,2) g(1)]
  then show ?thesis
    using produce_loop_keeps [OF conjunct1 [OF loop]] g by (auto simp: same_ring_def)
qed

lemma produce_nowait_ok:
  assumes "cp_inv cp" and "\<And>a. a \<in> region buf (unat len) \<Longrightarrow> \<not> in_ring cp a"
  shows "\<exists>cp' m'. consprod_produce cp m buf len 0 ivs = Some (of_nat (min (unat len) (room cp)), (cp', m'), ivs)
    \<and> cp_inv cp' \<and> same_ring cp cp' \<and> cons cp' = cons cp \<and> room cp' = room cp - unat len
    \<and> content cp' m' = content cp m @ take (room cp) (bytes_at m buf (unat len))
    \<and> (\<forall>a. \<not> in_ring cp a \<longrightarrow> m' a = m a)"
proof -
  have "len - (len - of_nat k) = of_nat k" for k by simp
  then show ?thesis
    using produce_loop_ok [where buf = buf and len = len and m = m, OF assms refl]
    by (subst consprod_produce.simps) (auto simp: Let_def word_gt_0)
qed

section \<open>Waiting for the other side\<close>

text \<open>
  An interrupt that takes bytes out of the ring of \<open>cp0\<close>, at least one when there is one, and leaves the memory in \<open>A\<close>
  alone.
\<close>

definition drainer :: "consprod \<Rightarrow> addr set \<Rightarrow> (ring \<Rightarrow> ring) \<Rightarrow> bool" where
  "drainer cp0 A f \<longleftrightarrow> (\<forall>cp m. cp_inv cp \<longrightarrow> same_ring cp0 cp \<longrightarrow> (\<exists>cp' m' k. f (cp, m) = (cp', m') \<and> cp_inv cp' \<and> same_ring cp cp'
     \<and> prod cp' = prod cp \<and> content cp' m' = drop k (content cp m) \<and> (content cp m \<noteq> [] \<longrightarrow> 0 < k)
     \<and> (\<forall>a \<in> A. m' a = m a)))"

lemma same_ring_size: "same_ring cp cp' \<Longrightarrow> ring_size cp' = ring_size cp"
  by (simp add: same_ring_def ring_size_def)

lemma same_cons_content:
  assumes "same_ring cp cp'" and "cons cp' = cons cp" and "prod cp' = prod cp"
  shows "length (content cp' m') = length (content cp m)"
proof -
  have "cp' = cp" using assms by (cases cp; cases cp') (simp add: same_ring_def)
  then show ?thesis by (simp add: content_def)
qed

lemma drainerE:
  assumes "drainer cp0 A f" and "cp_inv cp" and "same_ring cp0 cp"
  obtains cp' m' k where "f (cp, m) = (cp', m')" and "cp_inv cp'" and "same_ring cp cp'" and "prod cp' = prod cp"
    and "content cp' m' = drop k (content cp m)" and "content cp m \<noteq> [] \<Longrightarrow> 0 < k" and "\<And>a. a \<in> A \<Longrightarrow> m' a = m a"
  using assms(1) [unfolded drainer_def, rule_format, OF assms(2,3), of m] that by blast

lemma spin_drainer:
  assumes "drainer cp0 A f" and "cp_inv cp" and "content cp m \<noteq> []" and "same_ring cp0 cp"
  obtains cp' m' k where "spin cons (cons cp) (f # fs) (cp, m) = Some ((cp', m'), fs)" and "cp_inv cp'"
    and "same_ring cp cp'" and "content cp' m' = drop k (content cp m)" and "0 < k" and "\<And>a. a \<in> A \<Longrightarrow> m' a = m a"
proof -
  obtain cp' m' k where f: "f (cp, m) = (cp', m')" "cp_inv cp'" "same_ring cp cp'" "prod cp' = prod cp"
    "content cp' m' = drop k (content cp m)" "content cp m \<noteq> [] \<Longrightarrow> 0 < k" "\<And>a. a \<in> A \<Longrightarrow> m' a = m a"
    using drainerE [OF assms(1,2,4), of m] by metis
  have "length (content cp' m') \<noteq> length (content cp m)" using f(5) f(6) [OF assms(3)] assms(3) by (cases "content cp m") auto
  then have "cons cp' \<noteq> cons cp" using same_cons_content [OF f(3) _ f(4)] by blast
  then have "spin cons (cons cp) (f # fs) (cp, m) = Some ((cp', m'), fs)"
    using f(1) by (subst spin.simps) (subst spin.simps, simp)
  then show ?thesis using that f(2,3,5,7) f(6) [OF assms(3)] by blast
qed

lemma drop_append_min: "drop k xs @ ys = drop (min k (length xs)) (xs @ ys)"
  by (cases "k \<le> length xs") auto

text \<open>
  A waiting producer gets all its bytes in.  Each interrupt it needs frees a slot, so that the interrupts left
  over and the room in the ring suffice for the bytes a later call brings.
\<close>

lemma produce_wait_ok:
  assumes "\<And>f. f \<in> set ivs \<Longrightarrow> drainer cp A f" and "unat len \<le> length ivs + room cp"
    and "cp_inv cp" and "3 \<le> ring_size cp" and "\<And>a. a \<in> A \<Longrightarrow> \<not> in_ring cp a" and "region buf (unat len) \<subseteq> A"
  shows "\<exists>r cp' m' ivs' k. consprod_produce cp m buf len 1 ivs = Some (r, (cp', m'), ivs') \<and> cp_inv cp'
    \<and> same_ring cp cp' \<and> content cp' m' = drop k (content cp m @ bytes_at m buf (unat len))
    \<and> set ivs' \<subseteq> set ivs \<and> length ivs + room cp \<le> length ivs' + room cp' + unat len \<and> (\<forall>a \<in> A. m' a = m a)"
  using assms
proof (induction "length ivs" arbitrary: cp m buf len ivs)
  case 0
  then obtain cp' m' where l: "produce_loop cp m buf len (cp_ptr_next cp (prod cp)) (cons cp) = (cp', m', buf + len, 0)"
    "cp_inv cp'" "same_ring cp cp'" "content cp' m' = content cp m @ bytes_at m buf (unat len)"
    "room cp' = room cp - unat len" "\<And>a. a \<in> A \<Longrightarrow> m' a = m a"
    using produce_loop_ok [where cp = cp and buf = buf and len = len and m = m and j = "unat len"] by fastforce
  then have "consprod_produce cp m buf len 1 ivs = Some (len, (cp', m'), ivs)"
    by (subst consprod_produce.simps) (simp add: Let_def)
  then show ?case using l(2-)
    by (intro exI [of _ len] exI [of _ cp'] exI [of _ m'] exI [of _ ivs] exI [of _ 0]) simp
next
  case (Suc n)
  obtain f fs where ivs: "ivs = f # fs" using Suc.hyps(2) by (cases ivs) auto
  define j where "j = min (unat len) (room cp)"
  define bs where "bs = bytes_at m buf (unat len)"
  have out: "\<not> in_ring cp a" if "a \<in> region buf (unat len)" for a using that Suc.prems(5,6) by blast
  obtain cp1 m1 where l: "produce_loop cp m buf len (cp_ptr_next cp (prod cp)) (cons cp)
      = (cp1, m1, buf + of_nat j, len - of_nat j)" and cp1: "cp_inv cp1" "same_ring cp cp1" "cons cp1 = cons cp"
      "room cp1 = room cp - unat len" "content cp1 m1 = content cp m @ take (room cp) bs"
      and out1: "\<And>a. \<not> in_ring cp a \<Longrightarrow> m1 a = m a"
    using produce_loop_ok [where buf = buf and len = len and m = m, OF Suc.prems(3) out j_def] unfolding bs_def by blast
  show ?case
  proof (cases "unat len \<le> room cp")
    case True
    then have z: "len - of_nat j = 0" "take (room cp) bs = bs" by (simp_all add: j_def bs_def)
    then have "consprod_produce cp m buf len 1 ivs = Some (len, (cp1, m1), ivs)"
      using l by (subst consprod_produce.simps) (simp add: Let_def)
    then show ?thesis using cp1 z out1 Suc.prems(5) unfolding bs_def
      by (intro exI [of _ len] exI [of _ cp1] exI [of _ m1] exI [of _ ivs] exI [of _ 0]) simp
  next
    case False
    let ?len = "len - of_nat j" and ?buf = "buf + of_nat j"
    have j: "j = room cp" "j < unat len" using False by (simp_all add: j_def)
    have len': "unat ?len = unat len - j"
      using j unat32_less [of len] by (subst unat_sub) (simp_all add: word_le_nat_alt unat_of_nat)
    have full: "room cp1 = 0" "content cp1 m1 \<noteq> []"
      using cp1(4) False content_room [OF cp1(1), of m1] same_ring_size [OF cp1(2)] Suc.prems(4) by auto
    obtain cp2 m2 k where sp: "spin cons (cons cp) (f # fs) (cp1, m1) = Some ((cp2, m2), fs)" and cp2: "cp_inv cp2"
      "same_ring cp1 cp2" "content cp2 m2 = drop k (content cp1 m1)" "0 < k" "\<And>a. a \<in> A \<Longrightarrow> m2 a = m1 a"
      using spin_drainer [OF Suc.prems(1) [of f] cp1(1) full(2) cp1(2), of fs] ivs cp1(3) by auto
    have ring2: "same_ring cp cp2" using cp1(2) cp2(2) by (simp add: same_ring_def)
    have sub: "region ?buf (unat ?len) \<subseteq> region buf (unat len)" using j(2) len' by (intro region_shift) simp
    have room2: "room cp2 \<ge> 1"
      using content_room [OF cp2(1), of m2] content_room [OF cp1(1), of m1] full same_ring_size [OF cp2(2)] cp2(3,4)
      by (cases "content cp1 m1") (auto simp: min_def split: if_splits)
    have m2: "m2 a = m a" if "a \<in> A" for a using that cp2(5) out1 Suc.prems(5) by simp
    obtain r cp' m' ivs' k' where
      rec: "consprod_produce cp2 m2 ?buf ?len 1 fs = Some (r, (cp', m'), ivs')" "cp_inv cp'" "same_ring cp2 cp'"
        "content cp' m' = drop k' (content cp2 m2 @ bytes_at m2 ?buf (unat ?len))" "set ivs' \<subseteq> set fs"
        "length fs + room cp2 \<le> length ivs' + room cp' + unat ?len" "\<And>a. a \<in> A \<Longrightarrow> m' a = m2 a"
    proof -
      have "n = length fs" "\<And>g. g \<in> set fs \<Longrightarrow> drainer cp2 A g"
        using Suc.hyps(2) Suc.prems(1) ivs ring2 by (auto simp: drainer_def same_ring_def)
      moreover have "unat ?len \<le> length fs + room cp2" using Suc.prems(2) j len' ivs room2 by simp
      moreover have "3 \<le> ring_size cp2" using Suc.prems(4) same_ring_size [OF ring2] by simp
      moreover have "\<not> in_ring cp2 a" if "a \<in> A" for a using that Suc.prems(5) same_ring_in_ring [OF ring2] by simp
      moreover have "region ?buf (unat ?len) \<subseteq> A" using sub Suc.prems(6) by blast
      ultimately show ?thesis using Suc.hyps(1) [where ivs = fs and len = ?len and cp = cp2 and buf = ?buf and m = m2] cp2(1) that by blast
    qed
    have "bytes_at m2 ?buf (unat ?len) = bytes_at m ?buf (unat ?len)"
      using sub m2 Suc.prems(6) by (intro bytes_at_cong) auto
    then have "bytes_at m2 ?buf (unat ?len) = drop (room cp) bs"
      using drop_bytes_at [of j "unat len" m buf] j len' by (simp add: bs_def)
    moreover have "drop k (content cp1 m1) @ drop (room cp) bs
        = drop (min k (length (content cp1 m1))) (content cp m @ bs)"
      unfolding drop_append_min unfolding cp1(5) append_assoc append_take_drop_id ..
    ultimately have "content cp' m' = drop (k' + min k (length (content cp1 m1))) (content cp m @ bytes_at m buf (unat len))"
      using rec(4) cp2(3) by (simp only: bs_def drop_drop)
    moreover have "?len > 0" using len' j(2) by (simp add: word_less_nat_alt)
    then have "consprod_produce cp m buf len 1 ivs = Some (r, (cp', m'), ivs')"
      using l sp rec(1) unfolding ivs by (subst consprod_produce.simps) (simp add: Let_def)
    moreover have "same_ring cp cp'" using ring2 rec(3) by (simp add: same_ring_def)
    moreover have "set ivs' \<subseteq> set ivs" "length ivs + room cp \<le> length ivs' + room cp' + unat len"
      using rec(5,6) room2 len' j ivs by auto
    ultimately show ?thesis using rec(2,7) m2
      by (intro exI [of _ r] exI [of _ cp'] exI [of _ m'] exI [of _ ivs'] exI) (intro conjI, assumption+, simp)
  qed
qed

section \<open>Interrupts inside the loops\<close>

text \<open>
  The loops work with a copy of the other side's pointer that gets stale, and an interrupt can run between
  any two of their accesses to the ring.  The machine below has one step per access: the consumer copies
  \<open>prod\<close>, reads a slot, releases it by moving \<open>cons\<close>; the producer copies \<open>cons\<close>, fills a slot, publishes it
  by moving \<open>prod\<close>; steps of the two sides come in any order.
\<close>

datatype consumer = CIdle | CLoop addr | CRead byte addr

datatype producer = PIdle | PLoop addr | PStored byte addr

record spsc =
  s_cp :: consprod
  s_mem :: mem
  s_cons :: consumer
  s_prod :: producer
  s_in :: "byte list"
  s_out :: "byte list"

inductive spsc_step :: "spsc \<Rightarrow> spsc \<Rightarrow> bool" where
  c_call: "s_cons s = CIdle \<Longrightarrow> spsc_step s (s\<lparr>s_cons := CLoop (prod (s_cp s))\<rparr>)"
| c_read: "s_cons s = CLoop p \<Longrightarrow> c = cp_ptr_next (s_cp s) (cons (s_cp s)) \<Longrightarrow> c \<noteq> p \<Longrightarrow>
    spsc_step s (s\<lparr>s_cons := CRead (s_mem s c) p\<rparr>)"
| c_move: "s_cons s = CRead v p \<Longrightarrow> c = cp_ptr_next (s_cp s) (cons (s_cp s)) \<Longrightarrow>
    spsc_step s (s\<lparr>s_cons := CLoop p, s_cp := (s_cp s)\<lparr>cons := c\<rparr>, s_out := s_out s @ [v]\<rparr>)"
| c_return: "s_cons s = CLoop p \<Longrightarrow> spsc_step s (s\<lparr>s_cons := CIdle\<rparr>)"
| p_call: "s_prod s = PIdle \<Longrightarrow> spsc_step s (s\<lparr>s_prod := PLoop (cons (s_cp s))\<rparr>)"
| p_store: "s_prod s = PLoop c \<Longrightarrow> p = cp_ptr_next (s_cp s) (prod (s_cp s)) \<Longrightarrow> p \<noteq> c \<Longrightarrow>
    spsc_step s (s\<lparr>s_prod := PStored x c, s_mem := (s_mem s)(prod (s_cp s) := x)\<rparr>)"
| p_move: "s_prod s = PStored x c \<Longrightarrow> p = cp_ptr_next (s_cp s) (prod (s_cp s)) \<Longrightarrow>
    spsc_step s (s\<lparr>s_prod := PLoop c, s_cp := (s_cp s)\<lparr>prod := p\<rparr>, s_in := s_in s @ [x]\<rparr>)"
| p_return: "s_prod s = PLoop c \<Longrightarrow> spsc_step s (s\<lparr>s_prod := PIdle\<rparr>)"

text \<open>A stale copy is a position that the other side has already passed, or its present one.\<close>

definition c_snap_ok :: "consprod \<Rightarrow> addr \<Rightarrow> bool" where
  "c_snap_ok cp p \<longleftrightarrow> in_ring cp p \<and> dist cp (cp_ptr_next cp (cons cp)) p \<le> dist cp (cp_ptr_next cp (cons cp)) (prod cp)"

definition p_snap_ok :: "consprod \<Rightarrow> addr \<Rightarrow> bool" where
  "p_snap_ok cp c \<longleftrightarrow> in_ring cp c \<and> dist cp (cp_ptr_next cp (prod cp)) c \<le> dist cp (cp_ptr_next cp (prod cp)) (cons cp)"

definition spsc_inv :: "byte list \<Rightarrow> spsc \<Rightarrow> bool" where
  "spsc_inv xs s \<longleftrightarrow> cp_inv (s_cp s) \<and> xs @ s_in s = s_out s @ content (s_cp s) (s_mem s)
     \<and> (case s_cons s of CIdle \<Rightarrow> True | CLoop p \<Rightarrow> c_snap_ok (s_cp s) p
        | CRead v p \<Rightarrow> c_snap_ok (s_cp s) p \<and> cp_ptr_next (s_cp s) (cons (s_cp s)) \<noteq> p
            \<and> v = s_mem s (cp_ptr_next (s_cp s) (cons (s_cp s))))
     \<and> (case s_prod s of PIdle \<Rightarrow> True | PLoop c \<Rightarrow> p_snap_ok (s_cp s) c
        | PStored x c \<Rightarrow> p_snap_ok (s_cp s) c \<and> cp_ptr_next (s_cp s) (prod (s_cp s)) \<noteq> c
            \<and> s_mem s (prod (s_cp s)) = x)"

lemma next_inj: "in_ring cp a \<Longrightarrow> in_ring cp b \<Longrightarrow> cp_ptr_next cp a = cp_ptr_next cp b \<longleftrightarrow> a = b"
  unfolding off_inj [of cp _ _, symmetric] by (auto simp: off_next in_ring_def)

lemma snap_ahead:
  assumes "cp_inv cp"
  shows "c_snap_ok cp p \<Longrightarrow> cp_ptr_next cp (cons cp) \<noteq> p \<Longrightarrow> cp_ptr_next cp (cons cp) \<noteq> prod cp"
    and "p_snap_ok cp c \<Longrightarrow> cp_ptr_next cp (prod cp) \<noteq> c \<Longrightarrow> cp_ptr_next cp (prod cp) \<noteq> cons cp"
proof -
  have r: "in_ring cp (prod cp)" "in_ring cp (cons cp)" using assms by (simp_all add: cp_inv_def)
  have z: "dist cp a a = 0" for a by (simp add: dist_def)
  show "cp_ptr_next cp (cons cp) \<noteq> prod cp" if "c_snap_ok cp p" "cp_ptr_next cp (cons cp) \<noteq> p"
    using that r z by (auto simp: c_snap_ok_def)
  show "cp_ptr_next cp (prod cp) \<noteq> cons cp" if "p_snap_ok cp c" "cp_ptr_next cp (prod cp) \<noteq> c"
    using that r z by (auto simp: p_snap_ok_def)
qed

text \<open>Moving a pointer keeps the own copy and the other side's copy valid.\<close>

lemma c_snap_move:
  assumes "cp_inv cp" and "c = cp_ptr_next cp (cons cp)" and "c_snap_ok cp p" and "c \<noteq> p"
  shows "c_snap_ok (cp\<lparr>cons := c\<rparr>) p"
proof -
  have r: "in_ring cp (prod cp)" "in_ring cp c" using assms by (simp_all add: cp_inv_def)
  have "c \<noteq> prod cp" using snap_ahead(1) [OF assms(1,3)] assms by simp
  then show ?thesis
    using assms r dist_next [of cp c p] dist_next [of cp c "prod cp"] by (auto simp: c_snap_ok_def)
qed

lemma p_snap_move:
  assumes "cp_inv cp" and "p = cp_ptr_next cp (prod cp)" and "p_snap_ok cp c" and "p \<noteq> c"
  shows "p_snap_ok (cp\<lparr>prod := p\<rparr>) c"
proof -
  have r: "in_ring cp (cons cp)" "in_ring cp p" using assms by (simp_all add: cp_inv_def)
  have "p \<noteq> cons cp" using snap_ahead(2) [OF assms(1,3)] assms by simp
  then show ?thesis
    using assms r dist_next [of cp p c] dist_next [of cp p "cons cp"] by (auto simp: p_snap_ok_def)
qed

lemma p_snap_other:
  assumes "cp_inv cp" and "c = cp_ptr_next cp (cons cp)" and "c \<noteq> prod cp" and "p_snap_ok cp q"
  shows "p_snap_ok (cp\<lparr>cons := c\<rparr>) q"
proof -
  have r: "in_ring cp (prod cp)" "in_ring cp (cons cp)" "prod cp \<noteq> cons cp" using assms by (simp_all add: cp_inv_def)
  then have "c \<noteq> cp_ptr_next cp (prod cp)" using assms(2) next_inj [of cp "prod cp" "cons cp"] by auto
  then show ?thesis using assms r dist_next_right [of cp "cp_ptr_next cp (prod cp)" "cons cp"]
    by (auto simp: p_snap_ok_def)
qed

lemma c_snap_other:
  assumes "cp_inv cp" and "p = cp_ptr_next cp (prod cp)" and "p \<noteq> cons cp" and "c_snap_ok cp q"
  shows "c_snap_ok (cp\<lparr>prod := p\<rparr>) q"
proof -
  have r: "in_ring cp (prod cp)" "in_ring cp (cons cp)" "prod cp \<noteq> cons cp" using assms by (simp_all add: cp_inv_def)
  then have "p \<noteq> cp_ptr_next cp (cons cp)" using assms(2) next_inj [of cp "prod cp" "cons cp"] by auto
  then show ?thesis using assms r dist_next_right [of cp "cp_ptr_next cp (cons cp)" "prod cp"]
    by (auto simp: c_snap_ok_def)
qed

lemma spsc_step_inv:
  assumes "spsc_step s s'" and "spsc_inv xs s"
  shows "spsc_inv xs s'"
  using assms
proof (induction rule: spsc_step.induct)
  case (c_call s)
  then show ?case by (auto simp: spsc_inv_def c_snap_ok_def cp_inv_def split: producer.splits)
next
  case (c_read s p c)
  then show ?case by (auto simp: spsc_inv_def split: producer.splits)
next
  case (c_move s v p c)
  let ?cp = "s_cp s"
  have inv: "cp_inv ?cp" and snap: "c_snap_ok ?cp p" "c \<noteq> p" and v: "v = s_mem s c"
    using c_move by (auto simp: spsc_inv_def)
  have ne: "c \<noteq> prod ?cp" using snap_ahead(1) [OF inv snap(1)] c_move.hyps snap(2) by simp
  note get = content_get [OF inv c_move.hyps(2) ne]
  have "c_snap_ok (?cp\<lparr>cons := c\<rparr>) p" by (rule c_snap_move [OF inv c_move.hyps(2) snap])
  moreover have "p_snap_ok ?cp q \<Longrightarrow> p_snap_ok (?cp\<lparr>cons := c\<rparr>) q" for q
    by (rule p_snap_other [OF inv c_move.hyps(2) ne])
  ultimately show ?case using c_move get v by (auto simp: spsc_inv_def split: producer.splits)
next
  case (p_store s c p x)
  let ?cp = "s_cp s" and ?n = "cp_ptr_next (s_cp s) (cons (s_cp s))"
  have inv: "cp_inv ?cp" using p_store by (simp add: spsc_inv_def)
  then have r: "in_ring ?cp (prod ?cp)" "in_ring ?cp ?n" by (simp_all add: cp_inv_def)
  have "content ?cp ((s_mem s)(prod ?cp := x)) = content ?cp (s_mem s)"
    unfolding content_def by (rule ring_slice_store) (use r in simp_all)
  moreover have "?n \<noteq> prod ?cp" if "c_snap_ok ?cp q" "?n \<noteq> q" for q
    using snap_ahead(1) [OF inv that] .
  ultimately show ?case using p_store by (auto simp: spsc_inv_def split: consumer.splits)
next
  case (p_move s x c p)
  let ?cp = "s_cp s"
  have inv: "cp_inv ?cp" and snap: "p_snap_ok ?cp c" "p \<noteq> c" and x: "s_mem s (prod ?cp) = x"
    using p_move by (auto simp: spsc_inv_def)
  have ne: "p \<noteq> cons ?cp" using snap_ahead(2) [OF inv snap(1)] p_move.hyps snap(2) by simp
  note put = content_put(1) [OF inv p_move.hyps(2) ne, of "s_mem s" x] content_put(2) [OF inv p_move.hyps(2) ne]
  have "p_snap_ok (?cp\<lparr>prod := p\<rparr>) c" by (rule p_snap_move [OF inv p_move.hyps(2) snap])
  moreover have "c_snap_ok ?cp q \<Longrightarrow> c_snap_ok (?cp\<lparr>prod := p\<rparr>) q" for q
    by (rule c_snap_other [OF inv p_move.hyps(2) ne])
  moreover have "(s_mem s)(prod ?cp := x) = s_mem s" using x by (simp add: fun_upd_idem)
  ultimately show ?case using p_move put by (auto simp: spsc_inv_def split: consumer.splits)
qed (auto simp: spsc_inv_def p_snap_ok_def cp_inv_def split: consumer.splits producer.splits)

lemma consprod_init_ok:
  assumes "2 \<le> unat (e - s)"
  shows "cp_inv (consprod_init s e)" and "content (consprod_init s e) m = []"
    and "room (consprod_init s e) = unat (e - s) - 2"
proof -
  let ?cp = "consprod_init s e"
  have o: "off ?cp (s + 1) = 1" "off ?cp s = 0" by (simp_all add: off_def consprod_init_def)
  then have r: "in_ring ?cp (s + 1)" "in_ring ?cp s" "s \<noteq> s + 1"
    using assms by (auto simp: in_ring_def ring_size_def consprod_init_def)
  then show inv: "cp_inv ?cp" by (simp add: cp_inv_def consprod_init_def)
  have "off ?cp (cp_ptr_next ?cp s) = 1"
    using off_next [OF r(2)] o assms by (simp add: ring_size_def consprod_init_def)
  then have "cp_ptr_next ?cp s = s + 1" using o off_inj by metis
  then show c: "content ?cp m = []" by (simp add: content_def consprod_init_def dist_def)
  show "room ?cp = unat (e - s) - 2"
    using content_room [OF inv, of m] c by (simp add: ring_size_def consprod_init_def)
qed

section \<open>Properties\<close>

text \<open>C12 The ring between a program and an interrupt handler is a queue: whatever the order in which the two
  sides' accesses to it interleave, and although each works with a stale copy of the other's pointer, the
  bytes that came out followed by those still inside are the bytes that went in.\<close>

theorem ring_interleaving_fifo:
  assumes "spsc_step\<^sup>*\<^sup>* s s'" and "cp_inv (s_cp s)" and "s_cons s = CIdle" and "s_prod s = PIdle"
    and "content (s_cp s) (s_mem s) = []" and "s_in s = []" and "s_out s = []"
  shows "cp_inv (s_cp s') \<and> s_in s' = s_out s' @ content (s_cp s') (s_mem s')"
proof -
  have "spsc_inv [] s" using assms by (simp add: spsc_inv_def)
  with assms(1) have "spsc_inv [] s'" by (induction rule: rtranclp_induct) (auto intro: spsc_step_inv)
  then show ?thesis by (simp add: spsc_inv_def)
qed

theorem ring_interleaving_fifo_witness:
  "\<exists>s'. spsc_step\<^sup>*\<^sup>* \<lparr>s_cp = consprod_init 0x1000 0x1004, s_mem = (\<lambda>_. 0), s_cons = CIdle, s_prod = PIdle,
       s_in = [], s_out = []\<rparr> s' \<and> s_in s' = s_out s' @ content (s_cp s') (s_mem s')"
proof -
  let ?s = "\<lparr>s_cp = consprod_init 0x1000 0x1004, s_mem = (\<lambda>_. 0), s_cons = CIdle, s_prod = PIdle,
       s_in = [], s_out = []\<rparr>"
  have "spsc_step ?s (?s\<lparr>s_prod := PLoop (cons (s_cp ?s))\<rparr>)" by (rule p_call) simp
  then have "spsc_step\<^sup>*\<^sup>* ?s (?s\<lparr>s_prod := PLoop (cons (s_cp ?s))\<rparr>)" ..
  moreover have "cp_inv (consprod_init 0x1000 0x1004)" "content (consprod_init 0x1000 0x1004) (\<lambda>_. 0) = []"
    by (rule consprod_init_ok; simp)+
  ultimately show ?thesis using ring_interleaving_fifo [of ?s "?s\<lparr>s_prod := PLoop (cons (s_cp ?s))\<rparr>"] by auto
qed

end
