(* ===== verification/Uart.thy ===== *)
theory Uart
  imports ConsProd Cache
begin

text \<open>
  The interrupt-driven UART driver (\<open>sw/sys-libs/drivers/uart0.c\<close>, \<open>interrupts.c\<close>).  Two rings stand
  between the program and the handlers; the handlers move bytes between the rings and the buffers that the
  UART's DMA reads and writes.

  \<open>u_get_rx\<close> is what the receive register reads (the position of the DMA in its lower 8 bits), \<open>u_set_rx\<close> and
  \<open>u_timer\<close> are the last values written to the receive and timer registers, and \<open>u_sent\<close> is everything handed
  to the transmitter.  \<open>u_frame\<close> is the address of the local \<open>buf\<close> of \<open>process_tx_data\<close>.  The functions that the
  sources call \<open>uart0_blocking_write\<close> and \<open>uart0_blocking_read\<close> are named \<open>uart0_stream_write\<close> and
  \<open>uart0_stream_read\<close> here, since the boot ROM has functions of the same names.
\<close>

section \<open>Definitions\<close>

definition UART0_TX_DRVBUF_START :: addr where "UART0_TX_DRVBUF_START = 0x100"
definition UART0_RX_DRVBUF_START :: addr where "UART0_RX_DRVBUF_START = 0x200"
definition UART0_RX_STREAMBUF_START :: addr where "UART0_RX_STREAMBUF_START = 0x1000"
definition UART0_RX_STREAMBUF_END :: addr where "UART0_RX_STREAMBUF_END = 0x2000"
definition UART0_TX_STREAMBUF_START :: addr where "UART0_TX_STREAMBUF_START = 0x2000"
definition UART0_TX_STREAMBUF_END :: addr where "UART0_TX_STREAMBUF_END = 0x3000"
definition UART_ENGINE_TIMER_TICKS :: uint where "UART_ENGINE_TIMER_TICKS = 16384"
definition UART0_ENGINE_ON :: uint where "UART0_ENGINE_ON = 1"

lemmas uart_consts = UART0_TX_DRVBUF_START_def UART0_RX_DRVBUF_START_def UART0_RX_STREAMBUF_START_def
  UART0_RX_STREAMBUF_END_def UART0_TX_STREAMBUF_START_def UART0_TX_STREAMBUF_END_def
  UART_ENGINE_TIMER_TICKS_def UART0_ENGINE_ON_def

record uart =
  u_mem :: mem
  u_tx_cp :: consprod
  u_rx_cp :: consprod
  u_flags :: uint
  u_rx_lastpos :: uint
  u_tx_active :: int
  u_get_rx :: uint
  u_set_rx :: uint
  u_timer :: uint
  u_sent :: "byte list"
  u_flushed :: "addr list"
  u_frame :: addr

text \<open>The machine before the engine is started, with the handler's frame at an address of the stack.\<close>

definition uart_reset :: uart where
  "uart_reset = \<lparr>u_mem = (\<lambda>_. 0), u_tx_cp = consprod_init 0 0, u_rx_cp = consprod_init 0 0, u_flags = 0,
     u_rx_lastpos = 0, u_tx_active = 0, u_get_rx = 0, u_set_rx = 0, u_timer = 0, u_sent = [], u_flushed = [],
     u_frame = 0x1000000\<rparr>"

text \<open>Writing the transmit register starts a transfer: address in the upper bits, length in the lower 8.\<close>

definition start_tx :: "uint \<Rightarrow> uart \<Rightarrow> uart" where
  "start_tx x u = u\<lparr>u_sent := u_sent u @ bytes_at (u_mem u) (x AND 0xFFFFFF00) (unat (x AND 0xff))\<rparr>"

definition uart0_start_engine :: "uart \<Rightarrow> uart" where
  "uart0_start_engine u =
     u\<lparr>u_tx_cp := consprod_init UART0_TX_STREAMBUF_START UART0_TX_STREAMBUF_END,
       u_rx_cp := consprod_init UART0_RX_STREAMBUF_START UART0_RX_STREAMBUF_END,
       u_flags := UART0_ENGINE_ON, u_rx_lastpos := 0,
       u_set_rx := UART0_RX_DRVBUF_START OR 255, u_timer := UART_ENGINE_TIMER_TICKS OR 0xf\<rparr>"

definition uart0_stop_engine :: "uart \<Rightarrow> uart" where
  "uart0_stop_engine u = u\<lparr>u_flags := 0, u_set_rx := UART0_RX_DRVBUF_START\<rparr>"

definition engine_on :: "uart \<Rightarrow> bool" where
  "engine_on u \<longleftrightarrow> u_flags u AND UART0_ENGINE_ON \<noteq> 0"

definition process_rx_data :: "int \<Rightarrow> uart \<Rightarrow> uart option" where
  "process_rx_data uart_intr u =
     (let pos = u_get_rx u AND 0xff in do {
        u \<leftarrow> (if pos > u_rx_lastpos u then do {
                let len = pos - u_rx_lastpos u;
                let start = UART0_RX_DRVBUF_START + u_rx_lastpos u;
                ls \<leftarrow> flush_dcache_range start (start + len);
                (_, (cp, m), _) \<leftarrow> consprod_produce (u_rx_cp u) (u_mem u) start len 0 [];
                Some (u\<lparr>u_flushed := u_flushed u @ ls, u_rx_cp := cp, u_mem := m, u_rx_lastpos := pos\<rparr>) }
              else Some u);
        Some (if uart_intr = 1 then
                if engine_on u then u\<lparr>u_rx_lastpos := 0, u_set_rx := UART0_RX_DRVBUF_START OR 255\<rparr>
                else u\<lparr>u_set_rx := UART0_RX_DRVBUF_START OR 0\<rparr>
              else u) })"

definition process_tx_data :: "int \<Rightarrow> uart \<Rightarrow> uart option" where
  "process_tx_data uart_intr u =
     (let u = (if uart_intr \<noteq> 0 then u\<lparr>u_tx_active := 0\<rparr> else u) in
      if uart_intr \<noteq> 0 \<or> u_tx_active u = 0 then do {
        (x, (cp, m), _) \<leftarrow> consprod_consume (u_tx_cp u) (u_mem u) (u_frame u) 255 0 [];
        let u = u\<lparr>u_tx_cp := cp, u_mem := m\<rparr>;
        if sint x > 0 then do {
          let m = fst (memcpy (u_mem u) UART0_TX_DRVBUF_START (u_frame u) x);
          ls \<leftarrow> flush_dcache_range UART0_TX_DRVBUF_START (UART0_TX_DRVBUF_START + x);
          let u = u\<lparr>u_mem := m, u_flushed := u_flushed u @ ls\<rparr>;
          Some (if engine_on u then (start_tx (UART0_TX_DRVBUF_START OR x) u)\<lparr>u_tx_active := 1\<rparr> else u) }
        else Some u }
      else Some u)"

definition handle_interrupt :: "int \<Rightarrow> uart \<Rightarrow> uart option" where
  "handle_interrupt intr u =
     (if intr = 1 then do {
        u \<leftarrow> process_rx_data 0 u;
        u \<leftarrow> process_tx_data 0 u;
        Some (u\<lparr>u_timer := (if engine_on u then UART_ENGINE_TIMER_TICKS OR 0xf else 0)\<rparr>) }
      else if intr = 2 then process_tx_data 1 u
      else if intr = 3 then process_rx_data 1 u
      else Some u)"

text \<open>
  The program's side works on one ring; the interrupts that come while it waits are the list \<open>ivs\<close>, as in
  \<open>consprod_produce\<close>.
\<close>

definition uart0_stream_write ::
  "ring \<Rightarrow> addr \<Rightarrow> uint \<Rightarrow> (ring \<Rightarrow> ring) list \<Rightarrow> (uint \<times> ring \<times> (ring \<Rightarrow> ring) list) option" where
  "uart0_stream_write tx buf len ivs = (case tx of (cp, m) \<Rightarrow> consprod_produce cp m buf len 1 ivs)"

definition uart0_stream_read ::
  "ring \<Rightarrow> addr \<Rightarrow> uint \<Rightarrow> (ring \<Rightarrow> ring) list \<Rightarrow> (uint \<times> ring \<times> (ring \<Rightarrow> ring) list) option" where
  "uart0_stream_read rx buf len ivs = (case rx of (cp, m) \<Rightarrow> consprod_consume cp m buf len 1 ivs)"

definition min255 :: "uint \<Rightarrow> uint" where
  "min255 b = (if 255 \<le> b then 255 else b)"

lemma chunk_less: "w < len \<Longrightarrow> unat (len - (w + min255 (len - w))) < unat (len - w)" for w len :: uint
proof -
  assume "w < len"
  then have d: "len - w \<noteq> 0" by auto
  have c: "min255 (len - w) \<le> len - w" "min255 (len - w) \<noteq> 0" using d by (auto simp: min255_def)
  have "len - (w + min255 (len - w)) = len - w - min255 (len - w)" by (simp add: diff_diff_eq)
  then have "unat (len - (w + min255 (len - w))) = unat (len - w) - unat (min255 (len - w))"
    using c(1) by (simp only: unat_sub)
  moreover have "0 < unat (min255 (len - w))" "0 < unat (len - w)" using c d by (simp_all add: unat_gt_0)
  ultimately show ?thesis by simp
qed

function uart0_blocking_write_multiple ::
  "ring \<Rightarrow> addr \<Rightarrow> uint \<Rightarrow> uint \<Rightarrow> (ring \<Rightarrow> ring) list \<Rightarrow> (uint \<times> ring \<times> (ring \<Rightarrow> ring) list) option" where
  "uart0_blocking_write_multiple tx buf len w ivs =
     (if w < len then
        let count = min255 (len - w) in
        case uart0_stream_write tx (buf + w) count ivs of None \<Rightarrow> None
        | Some (_, tx', ivs') \<Rightarrow> uart0_blocking_write_multiple tx' buf len (w + count) ivs'
      else Some (w, tx, ivs))"
  by pat_completeness auto
termination
  by (relation "measure (\<lambda>(tx, buf, len, w, ivs). unat (len - w))") (auto simp: chunk_less)

function uart0_blocking_read_multiple ::
  "ring \<Rightarrow> addr \<Rightarrow> uint \<Rightarrow> uint \<Rightarrow> (ring \<Rightarrow> ring) list \<Rightarrow> (uint \<times> ring \<times> (ring \<Rightarrow> ring) list) option" where
  "uart0_blocking_read_multiple rx buf len r ivs =
     (if r < len then
        let count = min255 (len - r) in
        case uart0_stream_read rx (buf + r) count ivs of None \<Rightarrow> None
        | Some (_, rx', ivs') \<Rightarrow> uart0_blocking_read_multiple rx' buf len (r + count) ivs'
      else Some (r, rx, ivs))"
  by pat_completeness auto
termination
  by (relation "measure (\<lambda>(rx, buf, len, r, ivs). unat (len - r))") (auto simp: chunk_less)

declare uart0_blocking_write_multiple.simps [simp del] uart0_blocking_read_multiple.simps [simp del]

section \<open>The driver's memory\<close>

definition uart_ok :: "uart \<Rightarrow> bool" where
  "uart_ok u \<longleftrightarrow> cp_inv (u_tx_cp u) \<and> cp_inv (u_rx_cp u)
     \<and> buffer_start (u_tx_cp u) = 0x2000 \<and> buffer_end (u_tx_cp u) = 0x3000
     \<and> buffer_start (u_rx_cp u) = 0x1000 \<and> buffer_end (u_rx_cp u) = 0x2000
     \<and> region (u_frame u) 255 \<inter> (region 0x100 0x200 \<union> region 0x1000 0x2000) = {}"

lemma in_ring_region:
  assumes "unat (buffer_end cp - buffer_start cp) = n"
  shows "in_ring cp a \<longleftrightarrow> a \<in> region (buffer_start cp) n"
  using assms unat32_less [of "buffer_end cp - buffer_start cp"]
  by (simp add: in_ring_def off_def ring_size_def region_eq_uint)

lemma uart_rings:
  assumes "uart_ok u"
  shows "in_ring (u_tx_cp u) a \<longleftrightarrow> a \<in> region 0x2000 0x1000"
    and "in_ring (u_rx_cp u) a \<longleftrightarrow> a \<in> region 0x1000 0x1000"
  using assms in_ring_region [of "u_tx_cp u" "0x1000" a] in_ring_region [of "u_rx_cp u" "0x1000" a]
  by (simp_all add: uart_ok_def)

lemma uart_areas:
  "region 0x2000 0x1000 \<subseteq> region 0x1000 0x2000" "region 0x1000 0x1000 \<subseteq> region 0x1000 0x2000"
  "n \<le> 255 \<Longrightarrow> region 0x100 n \<subseteq> region 0x100 0x200" "unat p + n \<le> 255 \<Longrightarrow> region (0x200 + p) n \<subseteq> region 0x100 0x200"
  "region 0x100 0x200 \<inter> region 0x1000 0x2000 = {}"
proof -
  show "region 0x2000 0x1000 \<subseteq> region 0x1000 0x2000" using region_shift [of "0x1000" "0x1000" "0x2000" "0x1000"] by simp
  show "region 0x1000 0x1000 \<subseteq> region 0x1000 0x2000" by (rule region_mono) simp
  show "region 0x100 n \<subseteq> region 0x100 0x200" if "n \<le> 255" using that by (intro region_mono) simp
  show "region (0x200 + p) n \<subseteq> region 0x100 0x200" if "unat p + n \<le> 255"
    using region_shift [of "0x100 + unat p" n "0x200" "0x100"] that by (simp add: add.assoc)
  show "region 0x100 0x200 \<inter> region 0x1000 0x2000 = {}" by (rule region_disjoint) simp_all
qed

lemma tx_word:
  fixes x :: uint
  assumes "unat x \<le> 255"
  shows "(0x100 OR x) AND 0xff = x" and "(0x100 OR x) AND 0xFFFFFF00 = 0x100"
proof -
  have "take_bit 8 x = x"
    using assms by (simp add: word_unat_eq_iff unsigned_take_bit_eq take_bit_nat_eq_self_iff)
  then have b: "bit x n \<Longrightarrow> n < 8" for n by (metis bit_take_bit_iff)
  have 255: "(0xff :: uint) = mask 8" by (simp add: mask_eq_exp_minus_1)
  have p8: "(0x100 :: uint) = push_bit 8 1" by simp
  have 100: "bit (0x100 :: uint) n \<longleftrightarrow> n = 8" for n unfolding p8 bit_push_bit_iff bit_1_iff by auto
  show "(0x100 OR x) AND 0xff = x"
    unfolding 255 by (rule bit_word_eqI) (unfold bit_and_iff bit_or_iff 100 bit_mask_iff, use b in auto)
  have f: "(0xFFFFFF00 :: uint) = NOT (mask 8)" by (simp add: mask_eq_exp_minus_1)
  show "(0x100 OR x) AND 0xFFFFFF00 = 0x100"
    unfolding f
    by (rule bit_word_eqI) (unfold bit_and_iff bit_or_iff 100 bit_not_iff bit_mask_iff, use b in force)
qed

section \<open>The handlers\<close>

lemma drvbuf_flush_ok: "unat p \<le> 0x200 \<Longrightarrow> unat q \<le> 255 \<Longrightarrow> \<exists>ls. flush_dcache_range s (0x200 + p + q) = Some ls"
  using flush_dcache_range_cover [of "0x200 + p + q" s] by (auto simp: unat_word_ariths)

definition tx_stream :: "uart \<Rightarrow> byte list" where
  "tx_stream u = u_sent u @ content (u_tx_cp u) (u_mem u)"

text \<open>What one activation of the transmit side does, with the engine on or off.\<close>

lemma process_tx_ok:
  assumes "uart_ok u" and "intr \<noteq> 0 \<or> u_tx_active u = 0"
  defines "xs \<equiv> take 255 (content (u_tx_cp u) (u_mem u))"
  shows "\<exists>u'. process_tx_data intr u = Some u' \<and> uart_ok u'
    \<and> content (u_tx_cp u') (u_mem u') = drop 255 (content (u_tx_cp u) (u_mem u))
    \<and> u_sent u' = u_sent u @ (if engine_on u then xs else [])
    \<and> u_rx_cp u' = u_rx_cp u \<and> prod (u_tx_cp u') = prod (u_tx_cp u) \<and> u_flags u' = u_flags u \<and> u_frame u' = u_frame u
    \<and> (\<forall>a. a \<notin> region (u_frame u) 255 \<union> region 0x100 255 \<longrightarrow> u_mem u' a = u_mem u a)"
proof -
  let ?cp = "u_tx_cp u" and ?m = "u_mem u" and ?f = "u_frame u"
  have inv: "cp_inv ?cp" using assms(1) by (simp add: uart_ok_def)
  have fr: "region ?f 255 \<inter> (region 0x100 0x200 \<union> region 0x1000 0x2000) = {}" using assms(1) by (simp add: uart_ok_def)
  have out: "\<not> in_ring ?cp a" if "a \<in> region ?f (unat (255 :: uint))" for a
    using that fr uart_rings(1) [OF assms(1), of a] uart_areas(1) by auto
  obtain cp where c: "consprod_consume ?cp ?m ?f 255 0 [] = Some (of_nat (length xs), (cp, store_bytes ?m ?f xs), [])"
    "cp_inv cp" "same_ring ?cp cp" "prod cp = prod ?cp"
    "content cp (store_bytes ?m ?f xs) = drop 255 (content ?cp ?m)"
    using consume_nowait_ok [where buf = ?f and len = 255 and m = ?m and xs = xs and ivs = "[]", OF inv out]
    unfolding xs_def by auto
  let ?m1 = "store_bytes ?m ?f xs" and ?x = "of_nat (length xs) :: uint"
  have len: "length xs \<le> 255" by (simp add: xs_def)
  then have x: "unat ?x = length xs" by (simp add: unat_of_nat)
  have sx: "sint ?x > 0 \<longleftrightarrow> xs \<noteq> []"
  proof -
    have "uint ?x = int (length xs)" using x by (simp add: uint_nat)
    then have "sint ?x = int (length xs)" using len by (simp add: sint_uint signed_take_bit_int_eq_self)
    then show ?thesis by simp
  qed
  define m2 where "m2 = (if xs = [] then ?m1 else store_bytes ?m1 0x100 xs)"
  have xs_in: "region ?f (length xs) \<subseteq> region ?f 255" "region 0x100 (length xs) \<subseteq> region 0x100 255"
    using len by (simp_all add: region_mono)
  have dis: "region 0x100 (length xs) \<inter> region ?f (length xs) = {}" using fr xs_in uart_areas(3) [of 255] by auto
  have cpy: "xs \<noteq> [] \<Longrightarrow> fst (memcpy ?m1 0x100 ?f ?x) = m2"
    using memcpy_disjoint [of "0x100" ?x ?f ?m1] dis x len bytes_at_store [of xs ?m ?f] by (simp add: m2_def)
  have sent: "bytes_at m2 0x100 (length xs) = xs" using bytes_at_store [of xs ?m1 "0x100"] len by (simp add: m2_def)
  have same: "m2 a = ?m1 a" if "a \<notin> region 0x100 255" for a
    using that xs_in(2) store_bytes_other [of a "0x100" xs ?m1] by (auto simp: m2_def)
  have out2: "m2 a = ?m a" if "a \<notin> region ?f 255 \<union> region 0x100 255" for a
    using that same xs_in(1) store_bytes_other [of a ?f xs ?m] by auto
  have "content cp m2 = content cp ?m1"
  proof (rule content_cong [OF c(2)])
    fix a assume "in_ring cp a"
    then have "a \<in> region 0x2000 0x1000" using uart_rings(1) [OF assms(1)] same_ring_in_ring [OF c(3)] by simp
    then show "m2 a = ?m1 a" using same uart_areas(1,5) uart_areas(3) [of 255] by blast
  qed
  moreover obtain ls where "flush_dcache_range 0x100 (0x100 + ?x) = Some ls"
    using flush_dcache_range_cover [of "0x100 + ?x" "0x100"] len x by (auto simp: unat_word_ariths)
  moreover have "uart_ok (u\<lparr>u_tx_cp := cp, u_mem := m'\<rparr>)" for m'
    using assms(1) c(2,3) by (simp add: uart_ok_def same_ring_def)
  ultimately show ?thesis
    using assms(2) c sx cpy sent tx_word [of ?x] x len out2
    by (cases "xs = []")
      (auto simp: process_tx_data_def start_tx_def engine_on_def uart_consts uart_ok_def m2_def Let_def split: if_splits)
qed

lemma process_rx_ok:
  assumes "uart_ok u" and "u_rx_lastpos u < u_get_rx u AND 0xff"
  defines "len \<equiv> unat (u_get_rx u AND 0xff) - unat (u_rx_lastpos u)"
  shows "\<exists>u'. process_rx_data intr u = Some u' \<and> uart_ok u'
    \<and> content (u_rx_cp u') (u_mem u') = content (u_rx_cp u) (u_mem u)
        @ take (room (u_rx_cp u)) (bytes_at (u_mem u) (0x200 + u_rx_lastpos u) len)
    \<and> content (u_tx_cp u') (u_mem u') = content (u_tx_cp u) (u_mem u)
    \<and> u_rx_lastpos u' = (if intr = 1 \<and> engine_on u then 0 else u_get_rx u AND 0xff)
    \<and> u_sent u' = u_sent u \<and> (\<forall>a. a \<notin> region 0x1000 0x1000 \<longrightarrow> u_mem u' a = u_mem u a)"
proof -
  let ?pos = "u_get_rx u AND 0xff" and ?last = "u_rx_lastpos u" and ?cp = "u_rx_cp u" and ?m = "u_mem u"
  let ?len = "?pos - ?last" and ?start = "0x200 + ?last"
  have inv: "cp_inv ?cp" "cp_inv (u_tx_cp u)" using assms(1) by (simp_all add: uart_ok_def)
  have "(0xff :: uint) = mask 8" by (simp add: mask_eq_exp_minus_1)
  then have pos_eq: "?pos = take_bit 8 (u_get_rx u)" by (simp only: take_bit_eq_mask)
  have "unat ?pos < 2 ^ 8" unfolding pos_eq unsigned_take_bit_eq by (rule take_bit_nat_less_exp)
  then have pos: "unat ?pos < 256" by simp
  have last: "unat ?last < unat ?pos" using assms(2) by (simp add: word_less_nat_alt)
  then have l: "unat ?len = len" by (subst unat_sub) (simp_all add: word_le_nat_alt len_def)
  have src: "region ?start len \<subseteq> region 0x100 0x200" using last pos by (intro uart_areas(4)) (simp add: len_def)
  have out: "\<not> in_ring ?cp a" if "a \<in> region ?start (unat ?len)" for a
    using that l src uart_rings(2) [OF assms(1), of a] uart_areas(2,5) by auto
  obtain cp m where p: "consprod_produce ?cp ?m ?start ?len 0 [] = Some (of_nat (min (unat ?len) (room ?cp)), (cp, m), [])"
    "cp_inv cp" "same_ring ?cp cp" "content cp m = content ?cp ?m @ take (room ?cp) (bytes_at ?m ?start len)"
    and same: "\<And>a. \<not> in_ring ?cp a \<Longrightarrow> m a = ?m a"
    using produce_nowait_ok [where buf = ?start and len = ?len and m = ?m and ivs = "[]", OF inv(1) out] l by auto
  have "content (u_tx_cp u) m = content (u_tx_cp u) ?m"
  proof (rule content_cong [OF inv(2)])
    fix a assume "in_ring (u_tx_cp u) a"
    then have "a \<in> region 0x2000 0x1000" using uart_rings(1) [OF assms(1)] by simp
    moreover have "region 0x1000 0x1000 \<inter> region 0x2000 0x1000 = {}" by (rule region_disjoint) simp_all
    ultimately show "m a = ?m a" using same uart_rings(2) [OF assms(1), of a] by blast
  qed
  moreover obtain ls where "flush_dcache_range ?start (?start + ?len) = Some ls"
  proof -
    have "len \<le> 255" "unat ?last \<le> 0x200" using pos last by (simp_all add: len_def)
    then show thesis using drvbuf_flush_ok [of ?last ?len ?start] l that by fastforce
  qed
  moreover have "m a = ?m a" if "a \<notin> region 0x1000 0x1000" for a
    using same that uart_rings(2) [OF assms(1)] by simp
  ultimately show ?thesis
    using assms(1,2) p by (auto simp: process_rx_data_def uart_consts engine_on_def uart_ok_def same_ring_def Let_def)
qed

lemma uart_start_ok:
  assumes "region (u_frame u) 255 \<inter> (region 0x100 0x200 \<union> region 0x1000 0x2000) = {}"
  shows "uart_ok (uart0_start_engine u)" and "engine_on (uart0_start_engine u)"
    and "content (u_tx_cp (uart0_start_engine u)) m = []"
  using assms consprod_init_ok [of "0x3000" "0x2000"] consprod_init_ok [of "0x2000" "0x1000"]
  by (simp_all add: uart0_start_engine_def uart_ok_def engine_on_def uart_consts) (simp_all add: consprod_init_def)

section \<open>Writing while interrupts drain the ring\<close>

text \<open>The transmit interrupt, seen from the transmit ring.\<close>

definition tx_irq :: "uart \<Rightarrow> ring \<Rightarrow> ring" where
  "tx_irq u r = (case r of (cp, m) \<Rightarrow> case handle_interrupt 2 (u\<lparr>u_tx_cp := cp, u_mem := m\<rparr>) of
     None \<Rightarrow> (cp, m) | Some u' \<Rightarrow> (u_tx_cp u', u_mem u'))"

lemma tx_irq_drainer:
  assumes "uart_ok u" and "A \<inter> (region (u_frame u) 255 \<union> region 0x100 255) = {}"
  shows "drainer (u_tx_cp u) A (tx_irq u)"
  unfolding drainer_def
proof (intro allI impI)
  fix cp m assume cp: "cp_inv cp" "same_ring (u_tx_cp u) cp"
  let ?u = "u\<lparr>u_tx_cp := cp, u_mem := m\<rparr>"
  have ok: "uart_ok ?u" using assms(1) cp by (simp add: uart_ok_def same_ring_def)
  obtain u' where u': "process_tx_data 1 ?u = Some u'" "uart_ok u'" "content (u_tx_cp u') (u_mem u') = drop 255 (content cp m)"
    "prod (u_tx_cp u') = prod cp" "\<And>a. a \<notin> region (u_frame u) 255 \<union> region 0x100 255 \<Longrightarrow> u_mem u' a = m a"
    using process_tx_ok [OF ok, of 1] by auto
  have "tx_irq u (cp, m) = (u_tx_cp u', u_mem u')" using u'(1) by (simp add: tx_irq_def handle_interrupt_def)
  moreover have "cp_inv (u_tx_cp u')" "same_ring cp (u_tx_cp u')"
    using u'(2) ok by (simp_all add: uart_ok_def same_ring_def)
  moreover have "\<forall>a \<in> A. u_mem u' a = m a" using u'(5) assms(2) by blast
  ultimately show "\<exists>cp' m' k. tx_irq u (cp, m) = (cp', m') \<and> cp_inv cp' \<and> same_ring cp cp' \<and> prod cp' = prod cp
      \<and> content cp' m' = drop k (content cp m) \<and> (content cp m \<noteq> [] \<longrightarrow> 0 < k) \<and> (\<forall>a \<in> A. m' a = m a)"
    using u'(3,4) by (intro exI [of _ "u_tx_cp u'"] exI [of _ "u_mem u'"] exI [of _ 255]) simp
qed

lemma min255_le: "min255 x \<le> x"
  by (simp add: min255_def)

lemma write_multiple_ok:
  assumes "\<And>f. f \<in> set ivs \<Longrightarrow> drainer cp (region buf (unat len)) f" and "unat (len - w) \<le> length ivs + room cp"
    and "cp_inv cp" and "3 \<le> ring_size cp" and "\<And>a. a \<in> region buf (unat len) \<Longrightarrow> \<not> in_ring cp a" and "w \<le> len"
  shows "\<exists>cp' m' ivs' k. uart0_blocking_write_multiple (cp, m) buf len w ivs = Some (len, (cp', m'), ivs') \<and> cp_inv cp'
    \<and> content cp' m' = drop k (content cp m @ bytes_at m (buf + w) (unat (len - w)))"
  using assms
proof (induction "unat (len - w)" arbitrary: cp m ivs w rule: less_induct)
  case less
  let ?A = "region buf (unat len)"
  show ?case
  proof (cases "w < len")
    case False
    then have "w = len" using less.prems(6) by simp
    then show ?thesis using less.prems(3)
      by (subst uart0_blocking_write_multiple.simps) (auto intro: exI [of _ 0])
  next
    case True
    define c where "c = min255 (len - w)"
    have c: "unat c \<le> unat (len - w)" using min255_le [of "len - w"] by (simp add: c_def word_le_nat_alt)
    have d: "unat (len - w) = unat len - unat w" using less.prems(6) by (simp add: unat_sub)
    have wc: "len - (w + c) = len - w - c" by (simp add: diff_diff_eq)
    have rest: "unat (len - (w + c)) = unat (len - w) - unat c" unfolding wc using c by (simp add: unat_sub word_le_nat_alt)
    have sub: "region (buf + w) (unat c) \<subseteq> ?A"
      using region_shift [of "unat w" "unat c" "unat len" buf] c d less.prems(6) by (simp add: word_le_nat_alt)
    obtain r cp1 m1 ivs1 k where
      p: "consprod_produce cp m (buf + w) c 1 ivs = Some (r, (cp1, m1), ivs1)" "cp_inv cp1" "same_ring cp cp1"
        "content cp1 m1 = drop k (content cp m @ bytes_at m (buf + w) (unat c))" "set ivs1 \<subseteq> set ivs"
        "length ivs + room cp \<le> length ivs1 + room cp1 + unat c" "\<And>a. a \<in> ?A \<Longrightarrow> m1 a = m a"
      using produce_wait_ok [where ivs = ivs and A = ?A and len = c and cp = cp and buf = "buf + w" and m = m]
        less.prems c sub by auto
    obtain cp' m' ivs' k' where
      q: "uart0_blocking_write_multiple (cp1, m1) buf len (w + c) ivs1 = Some (len, (cp', m'), ivs')" "cp_inv cp'"
        "content cp' m' = drop k' (content cp1 m1 @ bytes_at m1 (buf + (w + c)) (unat (len - (w + c))))"
    proof -
      have "unat (len - (w + c)) < unat (len - w)" using chunk_less [OF True] by (simp add: c_def)
      moreover have "drainer cp1 ?A f" if "f \<in> set ivs1" for f
        using that p(3,5) less.prems(1) by (auto simp: drainer_def same_ring_def)
      moreover have "unat (len - (w + c)) \<le> length ivs1 + room cp1" using rest p(6) less.prems(2) by simp
      moreover have "\<not> in_ring cp1 a" if "a \<in> ?A" for a using that less.prems(5) same_ring_in_ring [OF p(3)] by simp
      moreover have "3 \<le> ring_size cp1" "w + c \<le> len"
        using less.prems(4) same_ring_size [OF p(3)] c d True unat32_less [of len]
        by (auto simp: word_le_nat_alt word_less_nat_alt unat_word_ariths)
      ultimately show thesis using less.hyps [of "w + c" ivs1 cp1 m1] p(2) that by blast
    qed
    have tail: "region (buf + (w + c)) (unat (len - (w + c))) \<subseteq> ?A"
      using region_shift [of "unat w + unat c" "unat (len - (w + c))" "unat len" buf] rest c d less.prems(6)
      by (simp add: word_le_nat_alt)
    have b1: "bytes_at m1 (buf + (w + c)) (unat (len - (w + c))) = bytes_at m (buf + w + c) (unat (len - w) - unat c)"
      using tail p(7) rest by (simp add: add.assoc) (rule bytes_at_cong, auto)
    have b2: "bytes_at m (buf + w) (unat (len - w))
        = bytes_at m (buf + w) (unat c) @ bytes_at m (buf + w + c) (unat (len - w) - unat c)"
      using bytes_at_append [of m "buf + w" "unat c" "unat (len - w) - unat c"] c by simp
    have "content cp' m' = drop k' (drop (min k (length (content cp m @ bytes_at m (buf + w) (unat c))))
        (content cp m @ bytes_at m (buf + w) (unat (len - w))))"
      unfolding q(3) p(4) b1 b2 drop_append_min append_assoc ..
    moreover have "uart0_blocking_write_multiple (cp, m) buf len w ivs = Some (len, (cp', m'), ivs')"
      using True p(1) q(1) by (subst uart0_blocking_write_multiple.simps)
        (simp add: Let_def uart0_stream_write_def flip: c_def)
    ultimately show ?thesis using q(2) unfolding drop_drop by blast
  qed
qed

lemma uart_reset_ok:
  "uart_ok (uart0_start_engine uart_reset)" "engine_on (uart0_start_engine uart_reset)"
  "uart_ok (uart0_start_engine uart_reset\<lparr>u_get_rx := x, u_mem := m\<rparr>)"
proof -
  have "region 0x1000000 255 \<inter> region 0x100 0x200 = {}" "region 0x1000000 255 \<inter> region 0x1000 0x2000 = {}"
    by (rule region_disjoint; simp)+
  then have fr: "region (u_frame uart_reset) 255 \<inter> (region 0x100 0x200 \<union> region 0x1000 0x2000) = {}"
    by (auto simp: uart_reset_def)
  show ok: "uart_ok (uart0_start_engine uart_reset)" "engine_on (uart0_start_engine uart_reset)"
    using uart_start_ok [OF fr] by simp_all
  then show "uart_ok (uart0_start_engine uart_reset\<lparr>u_get_rx := x, u_mem := m\<rparr>)" by (simp add: uart_ok_def)
qed

section \<open>Properties\<close>

text \<open>A transmit or timer interrupt loses and duplicates nothing while the engine is on: what was handed to
  the transmitter followed by what is still in the ring stays the same byte stream.  When a transmission has
  ended (or none is running) up to 255 bytes move to the transmitter.\<close>

lemma tx_interrupt_conserves:
  assumes "uart_ok u" and "engine_on u" and "handle_interrupt 2 u = Some u'"
  shows "uart_ok u' \<and> tx_stream u' = tx_stream u
    \<and> u_sent u' = u_sent u @ take 255 (content (u_tx_cp u) (u_mem u))"
proof -
  obtain u1 where u1: "process_tx_data 1 u = Some u1" "uart_ok u1"
    "content (u_tx_cp u1) (u_mem u1) = drop 255 (content (u_tx_cp u) (u_mem u))"
    "u_sent u1 = u_sent u @ (if engine_on u then take 255 (content (u_tx_cp u) (u_mem u)) else [])"
    using process_tx_ok [OF assms(1), of 1] by auto
  moreover have "u' = u1" using assms(3) u1(1) by (simp add: handle_interrupt_def)
  ultimately show ?thesis using assms(2) by (simp add: tx_stream_def)
qed

lemma tx_interrupt_conserves_witness:
  "\<exists>u'. handle_interrupt 2 (uart0_start_engine uart_reset) = Some u'
     \<and> tx_stream u' = tx_stream (uart0_start_engine uart_reset)"
proof -
  obtain u' where "handle_interrupt 2 (uart0_start_engine uart_reset) = Some u'"
    using process_tx_ok [OF uart_reset_ok(1), of 1] by (auto simp: handle_interrupt_def)
  then show ?thesis using tx_interrupt_conserves [OF uart_reset_ok(1,2)] by auto
qed

text \<open>Bytes that the DMA has stored since the last look arrive in the receive ring, in order and behind what is
  there; when the ring has no room for all of them the first ones are kept.  Transmission is not affected.\<close>

lemma rx_data_arrives:
  assumes "uart_ok u" and "u_rx_lastpos u < u_get_rx u AND 0xff"
  shows "\<exists>u'. handle_interrupt 3 u = Some u' \<and> uart_ok u' \<and> tx_stream u' = tx_stream u
    \<and> content (u_rx_cp u') (u_mem u') = content (u_rx_cp u) (u_mem u) @ take (room (u_rx_cp u))
        (bytes_at (u_mem u) (0x200 + u_rx_lastpos u) (unat (u_get_rx u AND 0xff) - unat (u_rx_lastpos u)))"
  using process_rx_ok [OF assms, of 3] process_rx_ok [OF assms, of 1]
  by (auto simp: handle_interrupt_def tx_stream_def)

lemma rx_data_arrives_witness:
  "\<exists>u'. handle_interrupt 3 (uart0_start_engine uart_reset\<lparr>u_get_rx := 2, u_mem := store_bytes (\<lambda>_. 0) 0x200 [65, 66]\<rparr>)
     = Some u' \<and> content (u_rx_cp u') (u_mem u') = [65, 66]"
proof -
  let ?m = "store_bytes (\<lambda>_. 0) 0x200 [65, 66] :: mem"
  let ?u = "uart0_start_engine uart_reset\<lparr>u_get_rx := 2, u_mem := ?m\<rparr>"
  have "u_rx_lastpos ?u < u_get_rx ?u AND 0xff" by (simp add: uart0_start_engine_def)
  from rx_data_arrives [OF uart_reset_ok(3) this] obtain u' where "handle_interrupt 3 ?u = Some u'"
    "content (u_rx_cp u') (u_mem u') = content (u_rx_cp ?u) (u_mem ?u) @ take (room (u_rx_cp ?u))
        (bytes_at (u_mem ?u) (0x200 + u_rx_lastpos ?u) (unat (u_get_rx ?u AND 0xff) - unat (u_rx_lastpos ?u)))"
    by blast
  moreover have "content (u_rx_cp ?u) (u_mem ?u) = []" "room (u_rx_cp ?u) = 4094"
    using consprod_init_ok [of "0x2000" "0x1000"] by (simp_all add: uart0_start_engine_def uart_consts)
  moreover have "bytes_at (u_mem ?u) (0x200 + u_rx_lastpos ?u) (unat (u_get_rx ?u AND 0xff) - unat (u_rx_lastpos ?u)) = [65, 66]"
    by (simp add: uart0_start_engine_def bytes_at_numeral)
  ultimately show ?thesis by auto
qed



end
