(* ===== verification/Alloc_Contract.thy ===== *)
theory Alloc_Contract
  imports Prelude
begin

text \<open>
  What a program may rely on of \<open>malloc\<close> and \<open>free\<close>, independent of how the heap is organised, and what follows
  for every sequence of calls.  The allocator's state represents the blocks in use (address and size of each,
  with its 16-byte header) and the set of bytes that are free.
\<close>

definition span :: "addr \<times> uint \<Rightarrow> nat set" where
  "span b = {unat (fst b) ..< unat (fst b) + unat (snd b)}"

text \<open>The bytes that a caller may use: the requested number, from the address that was returned.\<close>

definition payload :: "addr \<times> uint \<Rightarrow> nat set" where
  "payload p = {unat (fst p) ..< unat (fst p) + unat (snd p)}"

text \<open>
  A session of a program: it holds the results of its successful requests, and frees only what it holds.
  The two operations are parameters.
\<close>

inductive session ::
  "(uint \<Rightarrow> 's \<Rightarrow> (addr \<times> 's) option) \<Rightarrow> (addr \<Rightarrow> 's \<Rightarrow> 's) \<Rightarrow> 's \<Rightarrow> 's \<Rightarrow> (addr \<times> uint) list \<Rightarrow> bool"
  for alloc dealloc s0
where
  start: "session alloc dealloc s0 s0 []"
| refused: "session alloc dealloc s0 s ps \<Longrightarrow> unat sz < 2 ^ 32 - 31 \<Longrightarrow> alloc sz s = Some (NULL, s') \<Longrightarrow>
    session alloc dealloc s0 s' ps"
| granted: "session alloc dealloc s0 s ps \<Longrightarrow> unat sz < 2 ^ 32 - 31 \<Longrightarrow> alloc sz s = Some (p, s') \<Longrightarrow> p \<noteq> NULL \<Longrightarrow>
    session alloc dealloc s0 s' ((p, sz) # ps)"
| freed: "session alloc dealloc s0 s (ps @ (p, sz) # qs) \<Longrightarrow> session alloc dealloc s0 (dealloc p s) (ps @ qs)"

text \<open>Which block backs a held pointer.\<close>

definition backs :: "addr \<times> uint \<Rightarrow> addr \<times> uint \<Rightarrow> bool" where
  "backs p b \<longleftrightarrow> fst p = fst b + 16 \<and> unat (snd p) + 16 \<le> unat (snd b)"

locale allocator =
  fixes rep :: "'s \<Rightarrow> (addr \<times> uint) set \<Rightarrow> nat set \<Rightarrow> bool"
    and alloc :: "uint \<Rightarrow> 's \<Rightarrow> (addr \<times> 's) option"
    and dealloc :: "addr \<Rightarrow> 's \<Rightarrow> 's"
  assumes rep_block: "rep s L F \<Longrightarrow> b \<in> L \<Longrightarrow> 64 \<le> unat (fst b) \<and> 24 \<le> unat (snd b) \<and> unat (fst b) + unat (snd b) \<le> 2 ^ 32"
    and rep_disjoint: "rep s L F \<Longrightarrow> b \<in> L \<Longrightarrow> c \<in> L \<Longrightarrow> b \<noteq> c \<Longrightarrow> span b \<inter> span c = {}"
    and rep_used: "rep s L F \<Longrightarrow> b \<in> L \<Longrightarrow> span b \<inter> F = {}"
    and alloc_zero: "alloc 0 s = Some (NULL, s)"
    and alloc_grants: "rep s L F \<Longrightarrow> sz \<noteq> 0 \<Longrightarrow> unat sz < 2 ^ 32 - 31 \<Longrightarrow>
      alloc sz s = Some (NULL, s) \<or>
      (\<exists>b s'. alloc sz s = Some (fst b + 16, s') \<and> unat sz + 16 \<le> unat (snd b) \<and> b \<notin> L \<and> span b \<subseteq> F
         \<and> rep s' (insert b L) (F - span b))"
    and dealloc_returns: "rep s L F \<Longrightarrow> b \<in> L \<Longrightarrow> rep (dealloc (fst b + 16) s) (L - {b}) (F \<union> span b)"
begin

lemma payload_in_span:
  assumes "rep s L F" and "b \<in> L" and "backs p b"
  shows "payload p \<subseteq> span b" and "fst p \<noteq> NULL"
proof -
  have b: "64 \<le> unat (fst b)" "24 \<le> unat (snd b)" "unat (fst b) + unat (snd b) \<le> 2 ^ 32" using rep_block [OF assms(1,2)] by auto
  then have "unat (fst p) = unat (fst b) + 16" using assms(3) by (simp add: backs_def unat_word_ariths)
  then show "payload p \<subseteq> span b" "fst p \<noteq> NULL" using assms(3) by (auto simp: payload_def span_def backs_def)
qed

definition holds :: "nat set \<Rightarrow> 's \<Rightarrow> (addr \<times> uint) list \<Rightarrow> (addr \<times> uint) list \<Rightarrow> bool" where
  "holds F0 s ps bs \<longleftrightarrow> list_all2 backs ps bs \<and> distinct bs \<and>
     (\<exists>F. rep s (set bs) F \<and> F \<union> \<Union> (span ` set bs) = F0)"

lemma holds_alloc:
  assumes "holds F0 s ps bs" and "unat sz < 2 ^ 32 - 31" and "alloc sz s = Some (p, s')"
  shows "if p = NULL then holds F0 s' ps bs else (\<exists>b. holds F0 s' ((p, sz) # ps) (b # bs))"
proof -
  obtain F where F: "rep s (set bs) F" "F \<union> \<Union> (span ` set bs) = F0" and l: "list_all2 backs ps bs" "distinct bs"
    using assms(1) by (auto simp: holds_def)
  show ?thesis
  proof (cases "sz = 0 \<or> alloc sz s = Some (NULL, s)")
    case True
    then show ?thesis using assms alloc_zero by auto
  next
    case False
    then obtain b where b: "p = fst b + 16" "unat sz + 16 \<le> unat (snd b)" "b \<notin> set bs" "span b \<subseteq> F"
      "rep s' (insert b (set bs)) (F - span b)" using alloc_grants [OF F(1) _ assms(2)] assms(3) by auto
    have "backs (p, sz) b" using b by (simp add: backs_def)
    moreover have "F - span b \<union> \<Union> (span ` set (b # bs)) = F0" using b(4) F(2) by auto
    ultimately have "holds F0 s' ((p, sz) # ps) (b # bs)" using b l by (auto simp: holds_def)
    moreover have "p \<noteq> NULL" using payload_in_span(2) [OF b(5) _ \<open>backs (p, sz) b\<close>] by simp
    ultimately show ?thesis by (auto simp del: split_paired_Ex)
  qed
qed

lemma holds_free:
  assumes "holds F0 s (ps @ (p, sz) # qs) bs"
  shows "\<exists>bs'. holds F0 (dealloc p s) (ps @ qs) bs'"
proof -
  obtain us b vs where bs: "bs = us @ b # vs" "list_all2 backs ps us" "backs (p, sz) b" "list_all2 backs qs vs"
    using assms by (auto simp: holds_def list_all2_append1 list_all2_Cons1)
  obtain F where F: "rep s (set bs) F" "F \<union> \<Union> (span ` set bs) = F0" and d: "distinct bs" using assms by (auto simp: holds_def)
  have "set bs - {b} = set (us @ vs)" using d bs(1) by auto
  then have "rep (dealloc p s) (set (us @ vs)) (F \<union> span b)"
    using dealloc_returns [OF F(1), of b] bs(1,3) by (simp add: backs_def)
  moreover have "F \<union> span b \<union> \<Union> (span ` set (us @ vs)) = F0" using F(2) bs(1) by auto
  ultimately have "holds F0 (dealloc p s) (ps @ qs) (us @ vs)" using bs d by (auto simp: holds_def list_all2_appendI)
  then show ?thesis by blast
qed

lemma session_holds:
  assumes "session alloc dealloc s0 s ps" and "rep s0 {} F0"
  shows "\<exists>bs. holds F0 s ps bs"
  using assms(1)
proof induction
  case start
  then show ?case using assms(2) by (intro exI [of _ "[]"]) (auto simp: holds_def)
next
  case (refused s ps sz s')
  then show ?case using holds_alloc by fastforce
next
  case (granted s ps sz p s')
  then show ?case using holds_alloc by fastforce
next
  case (freed s ps p sz qs)
  then show ?case using holds_free by blast
qed

text \<open>At every moment of every session the held payloads lie in the memory that was free at the start and do not
  overlap, and once everything is freed all of that memory is free again.\<close>

lemma session_safe:
  assumes "session alloc dealloc s0 s ps" and "rep s0 {} F0"
  shows "(\<forall>p \<in> set ps. payload p \<subseteq> F0) \<and> sorted_wrt (\<lambda>p q. payload p \<inter> payload q = {}) ps \<and> (ps = [] \<longrightarrow> rep s {} F0)"
proof -
  obtain bs where bs: "holds F0 s ps bs" using session_holds [OF assms] by blast
  then obtain F where F: "rep s (set bs) F" "F \<union> \<Union> (span ` set bs) = F0" and l: "list_all2 backs ps bs" "distinct bs"
    by (auto simp: holds_def)
  have sub: "payload (ps ! i) \<subseteq> span (bs ! i)" "bs ! i \<in> set bs" if "i < length ps" for i
    using payload_in_span(1) [OF F(1)] l(1) that by (auto simp: list_all2_conv_all_nth)
  have "\<forall>p \<in> set ps. payload p \<subseteq> F0" using sub F(2) by (fastforce simp: in_set_conv_nth)
  moreover have "payload (ps ! i) \<inter> payload (ps ! j) = {}" if "i < j" "j < length ps" for i j
  proof -
    have "bs ! i \<noteq> bs ! j" using that l by (simp add: nth_eq_iff_index_eq list_all2_lengthD)
    then have "span (bs ! i) \<inter> span (bs ! j) = {}" using rep_disjoint [OF F(1)] sub that by simp
    then show ?thesis using sub(1) [of i] sub(1) [of j] that by auto
  qed
  moreover have "ps = [] \<longrightarrow> rep s {} F0" using F l by auto
  ultimately show ?thesis by (auto simp: sorted_wrt_iff_nth_less)
qed

end

end
