(* ===== verification/Malloc.thy ===== *)
theory Malloc
  imports Str_Ops Alloc_Contract
begin

text \<open>
  The allocator (\<open>sw/sys-libs/libc/malloc.c\<close>, \<open>malloc.h\<close>, \<open>realloc.c\<close>, \<open>calloc.c\<close>) and \<open>strdup\<close>/\<open>strndup\<close>.

  The arena headers are a heap of structures: one function per field of \<open>struct free_arena_header\<close>, from
  the address of a header to the field's value (a field update writes one point of one function).  The
  payload that the callers see is a memory beside it.  \<open>h_head\<close> is the address of \<open>__malloc_head\<close>, and
  \<open>h_lock\<close> is what the installed lock function returns.  \<open>sizeof (struct arena_header)\<close> is 16 and
  \<open>sizeof (struct free_arena_header)\<close> is 24 on this target.  \<open>DEBUG_MALLOC\<close> is not defined, so
  \<open>mark_block_dead\<close> does nothing.
\<close>

section \<open>Definitions\<close>

definition ARENA_TYPE_USED :: uint where "ARENA_TYPE_USED = 0"
definition ARENA_TYPE_FREE :: uint where "ARENA_TYPE_FREE = 1"
definition ARENA_TYPE_HEAD :: uint where "ARENA_TYPE_HEAD = 2"

lemmas arena_types = ARENA_TYPE_USED_def ARENA_TYPE_FREE_def ARENA_TYPE_HEAD_def

definition ARENA_SIZE_MASK :: uint where "ARENA_SIZE_MASK = NOT (16 - 1)"

record heap =
  h_head :: addr
  h_lock :: bool
  h_type :: "addr \<Rightarrow> uint"
  h_size :: "addr \<Rightarrow> uint"
  h_next :: "addr \<Rightarrow> addr"
  h_prev :: "addr \<Rightarrow> addr"
  h_nfree :: "addr \<Rightarrow> addr"
  h_pfree :: "addr \<Rightarrow> addr"

text \<open>Assignments to a field of the header at \<open>a\<close>.\<close>

definition set_type :: "addr \<Rightarrow> uint \<Rightarrow> heap \<Rightarrow> heap" where "set_type a v h = h\<lparr>h_type := (h_type h)(a := v)\<rparr>"
definition set_size :: "addr \<Rightarrow> uint \<Rightarrow> heap \<Rightarrow> heap" where "set_size a v h = h\<lparr>h_size := (h_size h)(a := v)\<rparr>"
definition set_next :: "addr \<Rightarrow> addr \<Rightarrow> heap \<Rightarrow> heap" where "set_next a v h = h\<lparr>h_next := (h_next h)(a := v)\<rparr>"
definition set_prev :: "addr \<Rightarrow> addr \<Rightarrow> heap \<Rightarrow> heap" where "set_prev a v h = h\<lparr>h_prev := (h_prev h)(a := v)\<rparr>"
definition set_nfree :: "addr \<Rightarrow> addr \<Rightarrow> heap \<Rightarrow> heap" where "set_nfree a v h = h\<lparr>h_nfree := (h_nfree h)(a := v)\<rparr>"
definition set_pfree :: "addr \<Rightarrow> addr \<Rightarrow> heap \<Rightarrow> heap" where "set_pfree a v h = h\<lparr>h_pfree := (h_pfree h)(a := v)\<rparr>"

lemmas heap_sets = set_type_def set_size_def set_next_def set_prev_def set_nfree_def set_pfree_def

definition remove_from_main_chain :: "addr \<Rightarrow> heap \<Rightarrow> heap" where
  "remove_from_main_chain ah h =
     (let ap = h_prev h ah; an = h_next h ah; h = set_next ap an h in set_prev an ap h)"

definition remove_from_free_chain :: "addr \<Rightarrow> heap \<Rightarrow> heap" where
  "remove_from_free_chain ah h =
     (let ap = h_pfree h ah; an = h_nfree h ah; h = set_nfree ap an h in set_pfree an ap h)"

definition remove_from_chains :: "addr \<Rightarrow> heap \<Rightarrow> heap" where
  "remove_from_chains ah h = remove_from_main_chain ah (remove_from_free_chain ah h)"

definition malloc_from_block :: "addr \<Rightarrow> uint \<Rightarrow> heap \<Rightarrow> addr \<times> heap" where
  "malloc_from_block fp sz h =
     (let fsize = h_size h fp in
      if fsize \<ge> sz + 2 * 16 then
        let nfp = fp + sz; na = h_next h fp;
            h = set_type nfp ARENA_TYPE_FREE h;
            h = set_size nfp (fsize - sz) h;
            h = set_type fp ARENA_TYPE_USED h;
            h = set_size fp sz h;
            h = set_prev nfp fp h;
            h = set_next nfp na h;
            h = set_prev na nfp h;
            h = set_next fp nfp h;
            fpn = h_nfree h fp; h = set_nfree nfp fpn h;
            fpp = h_pfree h fp; h = set_pfree nfp fpp h;
            h = set_pfree fpn nfp h;
            h = set_nfree fpp nfp h
        in (fp + 16, h)
      else
        let h = set_type fp ARENA_TYPE_USED h
        in (fp + 16, remove_from_free_chain fp h))"

definition free_block :: "addr \<Rightarrow> heap \<Rightarrow> addr \<times> heap" where
  "free_block ah h =
     (let pah = h_prev h ah; nah = h_next h ah;
          (ah, h) =
            (if h_type h pah = ARENA_TYPE_FREE \<and> pah + h_size h pah = ah then
               let h = set_size pah (h_size h pah + h_size h ah) h;
                   h = set_next pah nah h;
                   h = set_prev nah pah h
               in (pah, h)
             else
               let h = set_type ah ARENA_TYPE_FREE h;
                   h = set_nfree ah (h_nfree h (h_head h)) h;
                   h = set_pfree ah (h_head h) h;
                   h = set_nfree (h_head h) ah h;
                   h = set_pfree (h_nfree h ah) ah h
               in (ah, h))
      in if h_type h nah = ARENA_TYPE_FREE \<and> ah + h_size h ah = nah then
           let h = set_size ah (h_size h ah + h_size h nah) h
           in (ah, remove_from_chains nah h)
         else (ah, h))"

partial_function (option) malloc_search :: "heap \<Rightarrow> addr \<Rightarrow> uint \<Rightarrow> addr option option" where
  "malloc_search h fp sz =
     (if h_type h fp \<noteq> ARENA_TYPE_HEAD then
        if h_size h fp \<ge> sz then Some (Some fp) else malloc_search h (h_nfree h fp) sz
      else Some None)"

definition arena_round :: "uint \<Rightarrow> uint" where
  "arena_round sz = (sz + 2 * 16 - 1) AND ARENA_SIZE_MASK"

definition malloc :: "uint \<Rightarrow> heap \<Rightarrow> (addr \<times> heap) option" where
  "malloc sz h =
     (if sz = 0 then Some (NULL, h)
      else let sz = arena_round sz in
        if \<not> h_lock h then Some (NULL, h)
        else do {
          r \<leftarrow> malloc_search h (h_nfree h (h_head h)) sz;
          Some (case r of None \<Rightarrow> (NULL, h) | Some fp \<Rightarrow> malloc_from_block fp sz h) })"

partial_function (option) find_pred :: "heap \<Rightarrow> addr \<Rightarrow> addr \<Rightarrow> addr option" where
  "find_pred h fp pah =
     (if h_type h pah \<noteq> ARENA_TYPE_HEAD then
        if pah < fp then Some pah else find_pred h fp (h_prev h pah)
      else Some pah)"

definition add_malloc_block :: "addr \<Rightarrow> uint \<Rightarrow> heap \<Rightarrow> heap option" where
  "add_malloc_block buf sz h =
     (let fp = buf in
      if sz < 24 then Some h
      else
        let h = set_type fp ARENA_TYPE_FREE h; h = set_size fp sz h in
        if \<not> h_lock h then Some h
        else do {
          pah \<leftarrow> find_pred h fp (h_prev h (h_head h));
          let h = set_next fp (h_next h pah) h;
          let h = set_prev fp pah h;
          let h = set_next pah fp h;
          let h = set_prev (h_next h fp) fp h;
          Some (snd (free_block fp h)) })"

definition free :: "addr \<Rightarrow> heap \<Rightarrow> heap" where
  "free ptr h =
     (if ptr = NULL then h
      else let ah = ptr - 16 in if \<not> h_lock h then h else snd (free_block ah h))"

partial_function (option) status_loop :: "heap \<Rightarrow> addr \<Rightarrow> uint \<Rightarrow> uint \<Rightarrow> (uint \<times> uint) option" where
  "status_loop h fp free_bytes largest =
     (if h_type h fp \<noteq> ARENA_TYPE_HEAD then
        status_loop h (h_nfree h fp) (free_bytes + h_size h fp)
          (if h_size h fp \<ge> largest then h_size h fp else largest)
      else Some (free_bytes, largest))"

definition get_malloc_memory_status :: "heap \<Rightarrow> (uint \<times> uint) option" where
  "get_malloc_memory_status h =
     (if \<not> h_lock h then Some (0, 0) else status_loop h (h_nfree h (h_head h)) 0 0)"

text \<open>Installing lock functions; a null pointer restores the default, which always succeeds.\<close>

definition set_malloc_locking :: "bool option \<Rightarrow> heap \<Rightarrow> heap" where
  "set_malloc_locking lock h = h\<lparr>h_lock := (case lock of Some b \<Rightarrow> b | None \<Rightarrow> True)\<rparr>"

text \<open>The heap before any memory is added.\<close>

definition malloc_head_init :: "addr \<Rightarrow> heap" where
  "malloc_head_init a = \<lparr>h_head = a, h_lock = True, h_type = (\<lambda>_. 0)(a := ARENA_TYPE_HEAD), h_size = (\<lambda>_. 0),
     h_next = (\<lambda>_. a), h_prev = (\<lambda>_. a), h_nfree = (\<lambda>_. a), h_pfree = (\<lambda>_. a)\<rparr>"

subsection \<open>Clients\<close>

definition realloc :: "addr \<Rightarrow> uint \<Rightarrow> heap \<times> mem \<Rightarrow> (addr \<times> heap \<times> mem) option" where
  "realloc ptr sz hm = (case hm of (h, m) \<Rightarrow>
     if ptr = NULL then do { (p, h) \<leftarrow> malloc sz h; Some (p, h, m) }
     else if sz = 0 then Some (NULL, free ptr h, m)
     else
       let sz = arena_round sz; ah = ptr - 16 in
       if h_size h ah \<ge> sz \<and> sz \<ge> drop_bit 2 (h_size h ah) then Some (ptr, h, m)
       else
         let oldsize = h_size h ah - 16 in do {
           (newptr, h) \<leftarrow> malloc sz h;
           let m = fst (memcpy m newptr ptr (if sz < oldsize then sz else oldsize));
           Some (newptr, free ptr h, m) })"

definition calloc :: "uint \<Rightarrow> uint \<Rightarrow> heap \<times> mem \<Rightarrow> (addr \<times> heap \<times> mem) option" where
  "calloc nmemb sz hm = (case hm of (h, m) \<Rightarrow>
     let sz = sz * nmemb in do {
       (ptr, h) \<leftarrow> malloc sz h;
       Some (ptr, h, if ptr \<noteq> NULL then fst (memset m ptr 0 sz) else m) })"

definition strdup :: "addr \<Rightarrow> heap \<times> mem \<Rightarrow> (addr \<times> heap \<times> mem) option" where
  "strdup s hm = (case hm of (h, m) \<Rightarrow> do {
     n \<leftarrow> strlen m s;
     let l = n + 1;
     (d, h) \<leftarrow> malloc l h;
     Some (d, h, if d \<noteq> NULL then fst (memcpy m d s l) else m) })"

definition strndup :: "addr \<Rightarrow> uint \<Rightarrow> heap \<times> mem \<Rightarrow> (addr \<times> heap \<times> mem) option" where
  "strndup s n hm = (case hm of (h, m) \<Rightarrow> do {
     len \<leftarrow> strlen m s;
     let l = (if n > len then len + 1 else n + 1);
     (d, h) \<leftarrow> malloc l h;
     Some (if d = NULL then (NULL, h, m)
           else let m = fst (memcpy m d s l) in (d, h, m(d + n := 0))) })"

section \<open>Doubly linked chains\<close>

text \<open>\<open>links nx pv x zs y\<close>: from \<open>x\<close> the next pointers lead through \<open>zs\<close> to \<open>y\<close>, and the previous pointers lead back.\<close>

primrec links :: "(addr \<Rightarrow> addr) \<Rightarrow> (addr \<Rightarrow> addr) \<Rightarrow> addr \<Rightarrow> addr list \<Rightarrow> addr \<Rightarrow> bool" where
  "links nx pv x [] y \<longleftrightarrow> nx x = y \<and> pv y = x"
| "links nx pv x (z # zs) y \<longleftrightarrow> nx x = z \<and> pv z = x \<and> links nx pv z zs y"

lemma links_append: "links nx pv x (us @ z # vs) y \<longleftrightarrow> links nx pv x us z \<and> links nx pv z vs y"
  by (induction us arbitrary: x) auto

lemma links_next: "links nx pv x zs y \<Longrightarrow> nx x = (case zs of [] \<Rightarrow> y | z # _ \<Rightarrow> z)"
  by (cases zs) auto

lemma links_prev: "links nx pv x zs y \<Longrightarrow> pv y = (if zs = [] then x else last zs)"
  by (induction zs arbitrary: x) auto

lemma links_upd [simp]:
  "a \<noteq> x \<Longrightarrow> a \<notin> set zs \<Longrightarrow> links (nx(a := v)) pv x zs y = links nx pv x zs y"
  "a \<noteq> y \<Longrightarrow> a \<notin> set zs \<Longrightarrow> links nx (pv(a := v)) x zs y = links nx pv x zs y"
  by (induction zs arbitrary: x) auto

text \<open>A chain is circular through its head.\<close>

definition chain :: "addr \<Rightarrow> (addr \<Rightarrow> addr) \<Rightarrow> (addr \<Rightarrow> addr) \<Rightarrow> addr list \<Rightarrow> bool" where
  "chain hd0 nx pv xs \<longleftrightarrow> links nx pv hd0 xs hd0 \<and> distinct (hd0 # xs)"

definition before :: "addr \<Rightarrow> addr list \<Rightarrow> addr" where
  "before h us = (if us = [] then h else last us)"

definition after :: "addr \<Rightarrow> addr list \<Rightarrow> addr" where
  "after h vs = (case vs of [] \<Rightarrow> h | v # _ \<Rightarrow> v)"

lemma before_mem: "before h us \<in> insert h (set us)"
  by (simp add: before_def)

lemma after_mem: "after h vs \<in> insert h (set vs)"
  by (simp add: after_def split: list.splits)

lemma links_last_upd:
  assumes "links nx pv h us y" and "distinct (h # us)" and "z \<notin> set us"
  shows "links (nx(before h us := z)) (pv(z := before h us)) h us z"
  using assms
proof (induction us arbitrary: h)
  case (Cons u us)
  have b: "before h (u # us) = before u us" by (simp add: before_def)
  have "before u us \<noteq> h" using Cons.prems(2) by (auto simp: before_def split: if_splits)
  moreover have "links (nx(before u us := z)) (pv(z := before u us)) u us z"
    using Cons.prems by (intro Cons.IH) auto
  ultimately show ?case using Cons.prems unfolding b links.simps by (intro conjI) (fastforce, fastforce, assumption)
qed (simp add: before_def)

lemma chain_split:
  assumes "chain h nx pv (us @ x # vs)"
  shows "pv x = before h us" and "nx x = after h vs"
  using assms links_prev [of nx pv h us x] links_next [of nx pv x vs h]
  by (auto simp: chain_def links_append before_def after_def split: list.splits)

lemma chain_next_before:
  assumes "chain h nx pv (us @ vs)"
  shows "nx (before h us) = after h vs"
proof (cases us rule: rev_cases)
  case Nil
  then show ?thesis using assms links_next [of nx pv h vs h] by (auto simp: chain_def before_def after_def)
next
  case (snoc us' u)
  then show ?thesis using assms chain_split(2) [of h nx pv us' u vs] by (simp add: before_def)
qed

text \<open>The three changes the allocator makes to a chain: removing, inserting and replacing a node.\<close>

lemma chain_remove:
  assumes "chain h nx pv (us @ x # vs)"
  shows "chain h (nx(before h us := after h vs)) (pv(after h vs := before h us)) (us @ vs)"
proof -
  have l: "links nx pv h us x" "links nx pv x vs h" and d: "distinct (h # us @ x # vs)"
    using assms by (auto simp: chain_def links_append)
  let ?b = "before h us" and ?a = "after h vs"
  have b: "?b \<notin> set vs" using d before_mem [of h us] by auto
  have us: "links (nx(?b := ?a)) (pv(?a := ?b)) h us ?a"
    using d by (intro links_last_upd [OF l(1)]) (auto simp: after_def split: list.splits)
  show ?thesis
  proof (cases vs)
    case Nil
    then show ?thesis using us d by (simp add: chain_def after_def)
  next
    case (Cons v vs')
    then have "links (nx(?b := v)) (pv(v := ?b)) v vs' h" using l(2) b d by auto
    then show ?thesis using us d Cons by (simp add: chain_def links_append after_def)
  qed
qed

lemma chain_insert:
  assumes "chain h nx pv (us @ vs)" and "x \<noteq> h" and "x \<notin> set (us @ vs)"
    and "nx x = after h vs" and "pv x = before h us"
  shows "chain h (nx(before h us := x)) (pv(after h vs := x)) (us @ x # vs)"
proof -
  let ?b = "before h us" and ?a = "after h vs"
  have d: "distinct (h # us @ vs)" using assms(1) by (simp add: chain_def)
  have l: "links nx pv h us ?a" "vs \<noteq> [] \<Longrightarrow> links nx pv ?a (tl vs) h"
    using assms(1) by (cases vs; simp add: chain_def links_append after_def)+
  have b: "?b \<notin> set vs" "?b \<noteq> x" using d assms(2,3) before_mem [of h us] by auto
  have "links (nx(?b := x)) (pv(x := ?b)) h us x"
    using d assms(3) by (intro links_last_upd [OF l(1)]) auto
  moreover have "pv(x := ?b) = pv" using assms(5) by (simp add: fun_upd_idem)
  moreover have a: "?a \<notin> set us" "?a \<noteq> x" using d assms(2,3) after_mem [of h vs] by auto
  ultimately have us: "links (nx(?b := x)) (pv(?a := x)) h us x" by simp
  have "links (nx(?b := x)) (pv(?a := x)) x vs h"
  proof (cases vs)
    case Nil
    then show ?thesis using assms(4) b by (simp add: after_def)
  next
    case (Cons v vs')
    then have "v \<noteq> h" using d by auto
    then show ?thesis using Cons l(2) assms(4) b d by (simp add: after_def)
  qed
  then show ?thesis using us d assms(2,3) by (auto simp: chain_def links_append)
qed

lemma chain_upd:
  assumes "chain h nx pv xs" and "x \<noteq> h" and "x \<notin> set xs"
  shows "chain h (nx(x := v)) (pv(x := w)) xs"
  using assms by (simp add: chain_def)

lemma chain_replace:
  assumes "chain h nx pv (us @ x # vs)" and "y \<noteq> h" and "y \<notin> set (us @ x # vs)"
  shows "chain h (nx(y := after h vs, before h us := y)) (pv(y := before h us, after h vs := y)) (us @ y # vs)"
proof -
  let ?b = "before h us" and ?a = "after h vs"
  have ne: "?a \<noteq> y" "?b \<noteq> y" using assms(2,3) before_mem [of h us] after_mem [of h vs] by auto
  have "chain h (nx(?b := ?a, y := ?a)) (pv(?a := ?b, y := ?b)) (us @ vs)"
    using assms chain_remove [OF assms(1)] by (intro chain_upd) auto
  from chain_insert [OF this assms(2)] assms(3)
  have "chain h (nx(?b := ?a, y := ?a, ?b := y)) (pv(?a := ?b, y := ?b, ?a := y)) (us @ y # vs)" by simp
  moreover have "nx(?b := ?a, y := ?a, ?b := y) = nx(y := ?a, ?b := y)" using ne by (auto simp: fun_eq_iff)
  moreover have "pv(?a := ?b, y := ?b, ?a := y) = pv(y := ?b, ?a := y)" using ne by (auto simp: fun_eq_iff)
  ultimately show ?thesis by simp
qed

section \<open>Block lists\<close>

text \<open>The abstract heap: the blocks in address order, each with its size and whether it is free.\<close>

type_synonym block = "addr \<times> uint \<times> bool"

abbreviation b_start :: "block \<Rightarrow> addr" where "b_start b \<equiv> fst b"
abbreviation b_size :: "block \<Rightarrow> uint" where "b_size b \<equiv> fst (snd b)"
abbreviation b_free :: "block \<Rightarrow> bool" where "b_free b \<equiv> snd (snd b)"

definition b_end :: "block \<Rightarrow> nat" where
  "b_end b = unat (b_start b) + unat (b_size b)"

definition block_ok :: "addr \<Rightarrow> block \<Rightarrow> bool" where
  "block_ok hd0 b \<longleftrightarrow> 64 \<le> unat (b_start b) \<and> 24 \<le> unat (b_size b) \<and> b_end b \<le> 2 ^ 32
     \<and> (unat hd0 < unat (b_start b) \<or> b_end b \<le> unat hd0)"

definition touching :: "block \<Rightarrow> block \<Rightarrow> bool" where
  "touching x y \<longleftrightarrow> b_free x \<and> b_free y \<and> b_end x = unat (b_start y)"

definition blocks_ok :: "addr \<Rightarrow> block list \<Rightarrow> bool" where
  "blocks_ok hd0 bs \<longleftrightarrow> sorted_wrt (\<lambda>x y. b_end x \<le> unat (b_start y)) bs \<and> (\<forall>b \<in> set bs. block_ok hd0 b)"

definition coalesced :: "block list \<Rightarrow> bool" where
  "coalesced bs \<longleftrightarrow> successively (\<lambda>x y. \<not> touching x y) bs"

definition free_starts :: "block list \<Rightarrow> addr set" where
  "free_starts bs = set (map fst (filter (\<lambda>b. b_free b) bs))"

lemma free_starts_simps [simp]:
  "free_starts [] = {}" "free_starts (us @ vs) = free_starts us \<union> free_starts vs"
  "free_starts (b # vs) = (if b_free b then insert (fst b) (free_starts vs) else free_starts vs)"
  by (simp_all add: free_starts_def)

lemma free_starts_sub: "a \<in> free_starts bs \<Longrightarrow> a \<in> fst ` set bs"
  by (auto simp: free_starts_def)

lemma free_startsE: "a \<in> free_starts bs \<Longrightarrow> \<exists>s. (a, s, True) \<in> set bs"
  by (auto simp: free_starts_def)

definition header_ok :: "heap \<Rightarrow> block \<Rightarrow> bool" where
  "header_ok h b \<longleftrightarrow> h_size h (b_start b) = b_size b
     \<and> h_type h (b_start b) = (if b_free b then ARENA_TYPE_FREE else ARENA_TYPE_USED)"

text \<open>A well-formed heap represents a block list and its free list; the allocator's invariant also has no two free neighbours.\<close>

definition heap_wf :: "heap \<Rightarrow> block list \<Rightarrow> addr list \<Rightarrow> bool" where
  "heap_wf h bs fs \<longleftrightarrow> chain (h_head h) (h_next h) (h_prev h) (map fst bs)
     \<and> chain (h_head h) (h_nfree h) (h_pfree h) fs
     \<and> blocks_ok (h_head h) bs \<and> set fs = free_starts bs
     \<and> h_type h (h_head h) = ARENA_TYPE_HEAD \<and> (\<forall>b \<in> set bs. header_ok h b)"

definition heap_inv :: "heap \<Rightarrow> block list \<Rightarrow> addr list \<Rightarrow> bool" where
  "heap_inv h bs fs \<longleftrightarrow> heap_wf h bs fs \<and> coalesced bs"

lemma heap_field_simps [simp]:
  "h_head (set_type a v h) = h_head h" "h_head (set_size a v h) = h_head h" "h_head (set_next a v h) = h_head h"
  "h_head (set_prev a v h) = h_head h" "h_head (set_nfree a v h) = h_head h" "h_head (set_pfree a v h) = h_head h"
  "h_lock (set_type a v h) = h_lock h" "h_lock (set_size a v h) = h_lock h" "h_lock (set_next a v h) = h_lock h"
  "h_lock (set_prev a v h) = h_lock h" "h_lock (set_nfree a v h) = h_lock h" "h_lock (set_pfree a v h) = h_lock h"
  "h_type (set_type a v h) = (h_type h)(a := v)" "h_type (set_size a v h) = h_type h" "h_type (set_next a v h) = h_type h"
  "h_type (set_prev a v h) = h_type h" "h_type (set_nfree a v h) = h_type h" "h_type (set_pfree a v h) = h_type h"
  "h_size (set_type a v h) = h_size h" "h_size (set_size a v h) = (h_size h)(a := v)" "h_size (set_next a v h) = h_size h"
  "h_size (set_prev a v h) = h_size h" "h_size (set_nfree a v h) = h_size h" "h_size (set_pfree a v h) = h_size h"
  "h_next (set_type a v h) = h_next h" "h_next (set_size a v h) = h_next h" "h_next (set_next a v h) = (h_next h)(a := v)"
  "h_next (set_prev a v h) = h_next h" "h_next (set_nfree a v h) = h_next h" "h_next (set_pfree a v h) = h_next h"
  "h_prev (set_type a v h) = h_prev h" "h_prev (set_size a v h) = h_prev h" "h_prev (set_next a v h) = h_prev h"
  "h_prev (set_prev a v h) = (h_prev h)(a := v)" "h_prev (set_nfree a v h) = h_prev h" "h_prev (set_pfree a v h) = h_prev h"
  "h_nfree (set_type a v h) = h_nfree h" "h_nfree (set_size a v h) = h_nfree h" "h_nfree (set_next a v h) = h_nfree h"
  "h_nfree (set_prev a v h) = h_nfree h" "h_nfree (set_nfree a v h) = (h_nfree h)(a := v)" "h_nfree (set_pfree a v h) = h_nfree h"
  "h_pfree (set_type a v h) = h_pfree h" "h_pfree (set_size a v h) = h_pfree h" "h_pfree (set_next a v h) = h_pfree h"
  "h_pfree (set_prev a v h) = h_pfree h" "h_pfree (set_nfree a v h) = h_pfree h" "h_pfree (set_pfree a v h) = (h_pfree h)(a := v)"
  by (simp_all add: heap_sets)

lemma blocks_ok_append:
  "blocks_ok hd0 (us @ vs) \<longleftrightarrow> blocks_ok hd0 us \<and> blocks_ok hd0 vs \<and> (\<forall>x \<in> set us. \<forall>y \<in> set vs. b_end x \<le> unat (b_start y))"
  by (auto simp: blocks_ok_def sorted_wrt_append)

lemma blocks_ok_Cons:
  "blocks_ok hd0 (b # vs) \<longleftrightarrow> block_ok hd0 b \<and> blocks_ok hd0 vs \<and> (\<forall>y \<in> set vs. b_end b \<le> unat (b_start y))"
  by (auto simp: blocks_ok_def)

text \<open>Every start address in the list lies strictly before or behind a given block's interior.\<close>

lemma starts_apart:
  assumes "blocks_ok hd0 (us @ b # vs)" and "x \<in> set us \<union> set vs" and "unat (b_start b) \<le> unat a" and "unat a < b_end b"
  shows "b_start x \<noteq> a"
proof -
  have "24 \<le> unat (b_size x)" using assms(1,2) by (auto simp: blocks_ok_append blocks_ok_Cons blocks_ok_def block_ok_def)
  moreover have "b_end x \<le> unat (b_start b) \<or> b_end b \<le> unat (b_start x)"
    using assms(1,2) by (auto simp: blocks_ok_append blocks_ok_Cons)
  ultimately show ?thesis using assms(3,4) by (auto simp: b_end_def)
qed

lemma coalesced_small [simp]: "coalesced []" "coalesced [b]"
  by (simp_all add: coalesced_def)

lemma coalesced_append:
  "coalesced (us @ vs) \<longleftrightarrow> coalesced us \<and> coalesced vs \<and> (us = [] \<or> vs = [] \<or> \<not> touching (last us) (hd vs))"
  by (auto simp: coalesced_def successively_append_iff)

lemma coalesced_Cons: "coalesced (b # vs) \<longleftrightarrow> coalesced vs \<and> (vs = [] \<or> \<not> touching b (hd vs))"
  by (cases vs) (auto simp: coalesced_def)

lemma map_fst_split: "map fst (us @ b # vs) = map fst us @ fst b # map fst vs"
  by simp

lemma heap_wf_dest:
  assumes "heap_wf h bs fs"
  shows "chain (h_head h) (h_next h) (h_prev h) (map fst bs)" "chain (h_head h) (h_nfree h) (h_pfree h) fs"
    "blocks_ok (h_head h) bs" "set fs = free_starts bs" "h_type h (h_head h) = ARENA_TYPE_HEAD"
    "b \<in> set bs \<Longrightarrow> header_ok h b"
  using assms by (auto simp: heap_wf_def)

lemma wf_starts:
  assumes "heap_wf h (us @ b # vs) fs"
  shows "fst b \<noteq> h_head h" "x \<in> set us \<union> set vs \<Longrightarrow> fst x \<noteq> fst b" "x \<in> set us \<union> set vs \<Longrightarrow> fst x \<noteq> h_head h"
    "distinct (map fst us @ fst b # map fst vs)"
  using heap_wf_dest(1) [OF assms] by (auto simp: chain_def image_iff)

lemma wf_free_split:
  assumes "heap_wf h (us @ (a, s, True) # vs) (fus @ a # fvs)"
  shows "set fus \<union> set fvs = free_starts us \<union> free_starts vs"
proof -
  have "insert a (set fus \<union> set fvs) = insert a (free_starts us \<union> free_starts vs)"
    using heap_wf_dest(4) [OF assms] by auto
  moreover have "a \<notin> set fus \<union> set fvs" using heap_wf_dest(2) [OF assms] by (auto simp: chain_def)
  moreover have "a \<notin> free_starts us \<union> free_starts vs"
    using wf_starts(2) [OF assms] free_startsE [of a us] free_startsE [of a vs] by fastforce
  ultimately show ?thesis by (metis insert_ident)
qed

section \<open>Searching\<close>

lemma malloc_search_links:
  "links (h_nfree h) pv x zs y \<Longrightarrow> (\<forall>z \<in> set zs. h_type h z \<noteq> ARENA_TYPE_HEAD) \<Longrightarrow> h_type h y = ARENA_TYPE_HEAD \<Longrightarrow>
   malloc_search h (h_nfree h x) sz = Some (find (\<lambda>a. sz \<le> h_size h a) zs)"
proof (induction zs arbitrary: x)
  case Nil
  then show ?case by (subst malloc_search.simps) simp
next
  case (Cons z zs)
  then show ?case by (subst malloc_search.simps) simp
qed

lemma free_headers:
  assumes "heap_wf h bs fs" and "z \<in> set fs"
  obtains us s vs where "bs = us @ (z, s, True) # vs" and "h_size h z = s" and "h_type h z = ARENA_TYPE_FREE"
proof -
  obtain b where b: "b \<in> set bs" "b_free b" "z = fst b" using assms free_startsE by (fastforce simp: heap_wf_def)
  then obtain us vs where "bs = us @ b # vs" by (meson split_list)
  moreover have "header_ok h b" using heap_wf_dest(6) [OF assms(1) b(1)] .
  ultimately show ?thesis using that b by (cases b) (auto simp: header_ok_def)
qed

lemma malloc_search_ok:
  assumes "heap_wf h bs fs"
  shows "malloc_search h (h_nfree h (h_head h)) sz = Some (find (\<lambda>a. sz \<le> h_size h a) fs)"
proof (rule malloc_search_links)
  show "links (h_nfree h) (h_pfree h) (h_head h) fs (h_head h)" using heap_wf_dest(2) [OF assms] by (simp add: chain_def)
  show "\<forall>z \<in> set fs. h_type h z \<noteq> ARENA_TYPE_HEAD"
    by (rule ballI, erule free_headers [OF assms]) (simp add: arena_types)
  show "h_type h (h_head h) = ARENA_TYPE_HEAD" using heap_wf_dest(5) [OF assms] .
qed

section \<open>Taking a block\<close>

lemma take_whole:
  assumes wf: "heap_wf h (us @ (fp, s, True) # vs) (fus @ fp # fvs)" and small: "s < sz + 32"
    and r: "malloc_from_block fp sz h = (p, h')"
  shows "p = fp + 16 \<and> heap_wf h' (us @ (fp, s, False) # vs) (fus @ fvs) \<and> h_head h' = h_head h \<and> h_lock h' = h_lock h"
proof -
  let ?bs = "us @ (fp, s, True) # vs"
  note d = heap_wf_dest [OF wf] and st = wf_starts [OF wf, simplified]
  have hs: "h_size h fp = s" using d(6) [of "(fp, s, True)"] by (simp add: header_ok_def)
  have f: "h_pfree h fp = before (h_head h) fus" "h_nfree h fp = after (h_head h) fvs"
    using chain_split [OF d(2)] by auto
  have h': "p = fp + 16" "h' = remove_from_free_chain fp (set_type fp ARENA_TYPE_USED h)"
    using r small [unfolded not_le [symmetric]] hs by (simp_all add: malloc_from_block_def Let_def)
  have "chain (h_head h) (h_nfree h') (h_pfree h') (fus @ fvs)"
    using chain_remove [OF d(2)] by (simp add: h' remove_from_free_chain_def Let_def f)
  moreover have "chain (h_head h) (h_next h') (h_prev h') (map fst (us @ (fp, s, False) # vs))"
    using d(1) by (simp add: h' remove_from_free_chain_def Let_def)
  moreover have "blocks_ok (h_head h) (us @ (fp, s, False) # vs)"
    using d(3) by (simp add: blocks_ok_append blocks_ok_Cons block_ok_def b_end_def)
  moreover have "set (fus @ fvs) = free_starts (us @ (fp, s, False) # vs)"
    using wf_free_split [OF wf] by auto
  moreover have "header_ok h' b" if "b \<in> set (us @ (fp, s, False) # vs)" for b
  proof (cases "b \<in> set us \<union> set vs")
    case True
    then have "header_ok h b" "fst b \<noteq> fp" using d(6) st(2) by auto
    then show ?thesis by (simp add: header_ok_def h' remove_from_free_chain_def Let_def)
  qed (use that hs in \<open>auto simp: header_ok_def h' remove_from_free_chain_def Let_def\<close>)
  ultimately show ?thesis
    using d(5) st(1) h' by (auto simp: heap_wf_def remove_from_free_chain_def Let_def)
qed

lemma split_block_word:
  fixes s sz :: uint and fp :: addr
  assumes "unat sz + 32 \<le> unat s" and "unat fp + unat s \<le> 2 ^ 32"
  shows "sz + 32 \<le> s" "unat (fp + sz) = unat fp + unat sz" "unat (s - sz) = unat s - unat sz"
proof -
  have "unat s < 2 ^ 32" using unsigned_less [of s, where ?'a = nat] by simp
  then have "unat (sz + 32) = unat sz + 32" using assms(1) by (simp add: unat_word_ariths)
  then show "sz + 32 \<le> s" using assms(1) by (simp add: word_le_nat_alt)
  show "unat (fp + sz) = unat fp + unat sz" using assms by (simp add: unat_word_ariths)
  show "unat (s - sz) = unat s - unat sz" using assms(1) by (simp add: unat_sub word_le_nat_alt)
qed

lemma take_split:
  assumes wf: "heap_wf h (us @ (fp, s, True) # vs) (fus @ fp # fvs)" and big: "unat sz + 32 \<le> unat s" "24 \<le> unat sz"
    and r: "malloc_from_block fp sz h = (p, h')"
  shows "p = fp + 16 \<and> heap_wf h' (us @ (fp, sz, False) # (fp + sz, s - sz, True) # vs) (fus @ (fp + sz) # fvs)
    \<and> h_head h' = h_head h \<and> h_lock h' = h_lock h"
proof -
  let ?n = "fp + sz" and ?bs' = "us @ (fp, sz, False) # (fp + sz, s - sz, True) # vs"
  note d = heap_wf_dest [OF wf] and st = wf_starts [OF wf, simplified]
  have bok: "block_ok (h_head h) (fp, s, True)" using d(3) by (simp add: blocks_ok_append blocks_ok_Cons)
  then have fits: "unat fp + unat s \<le> 2 ^ 32" by (simp add: block_ok_def b_end_def)
  note w = split_block_word [OF big(1) fits]
  have hs: "h_size h fp = s" using d(6) [of "(fp, s, True)"] by (simp add: header_ok_def)
  have f: "h_pfree h fp = before (h_head h) fus" "h_nfree h fp = after (h_head h) fvs"
    "h_next h fp = after (h_head h) (map fst vs)"
    using chain_split [OF d(2)] chain_split(2) [OF d(1) [simplified]] by auto
  have n: "?n \<noteq> fp" "?n \<noteq> h_head h" using w(2) big bok by (auto simp: block_ok_def b_end_def)
  have nb: "fst x \<noteq> ?n" if "x \<in> set us \<union> set vs" for x
    by (rule starts_apart [OF d(3) that]) (use w(2) big in \<open>auto simp: b_end_def\<close>)
  have nf: "?n \<notin> set (fus @ fp # fvs)" using nb n free_starts_sub unfolding d(4) by fastforce
  have w32: "sz + 2 * 16 \<le> s" using w(1) by simp
  note e = r [unfolded malloc_from_block_def hs Let_def if_P [OF w32] prod.inject]
  have p: "p = fp + 16" using e by simp
  have h': "h_head h' = h_head h" "h_lock h' = h_lock h"
    "h_type h' = (h_type h)(?n := ARENA_TYPE_FREE, fp := ARENA_TYPE_USED)"
    "h_size h' = (h_size h)(?n := s - sz, fp := sz)"
    "h_next h' = (h_next h)(?n := after (h_head h) (map fst vs), fp := ?n)"
    "h_prev h' = (h_prev h)(?n := fp, after (h_head h) (map fst vs) := ?n)"
    "h_nfree h' = (h_nfree h)(?n := after (h_head h) fvs, before (h_head h) fus := ?n)"
    "h_pfree h' = (h_pfree h)(?n := before (h_head h) fus, after (h_head h) fvs := ?n)"
    using e n by (auto simp: f)
  have "chain (h_head h) (h_nfree h') (h_pfree h') (fus @ ?n # fvs)"
    unfolding h' by (rule chain_replace [OF d(2) n(2) nf])
  moreover have "chain (h_head h) (h_next h') (h_prev h') (map fst ?bs')"
  proof -
    have fr: "?n \<notin> set (map fst us @ fp # map fst vs)" using nb n(1) by fastforce
    have "chain (h_head h) ((h_next h)(?n := after (h_head h) (map fst vs))) ((h_prev h)(?n := fp)) ((map fst us @ [fp]) @ map fst vs)"
      using d(1) n(2) fr by (intro chain_upd) auto
    from chain_insert [OF this n(2)] show ?thesis using fr by (simp add: h' before_def)
  qed
  moreover have "blocks_ok (h_head h) ?bs'"
    using d(3) w(2,3) big by (auto simp: blocks_ok_append blocks_ok_Cons block_ok_def b_end_def)
  moreover have "set (fus @ ?n # fvs) = free_starts ?bs'"
    using wf_free_split [OF wf] by auto
  moreover have "header_ok h' b" if "b \<in> set ?bs'" for b
  proof (cases "b \<in> set us \<union> set vs")
    case True
    then have "header_ok h b" "fst b \<noteq> fp" "fst b \<noteq> ?n" using d(6) st(2) nb by auto
    then show ?thesis by (simp add: header_ok_def h')
  qed (use that n in \<open>auto simp: header_ok_def h'\<close>)
  ultimately show ?thesis
    using d(5) st(1) n h' p by (auto simp: heap_wf_def)
qed

section \<open>Returning a block\<close>

text \<open>The state in which \<open>__free_block\<close> is called: the block is in the main chain, but not in the free chain; its type is not used.\<close>

definition heap_pre :: "heap \<Rightarrow> block list \<Rightarrow> addr \<Rightarrow> uint \<Rightarrow> block list \<Rightarrow> addr list \<Rightarrow> bool" where
  "heap_pre h us a s vs fs \<longleftrightarrow> chain (h_head h) (h_next h) (h_prev h) (map fst us @ a # map fst vs)
     \<and> chain (h_head h) (h_nfree h) (h_pfree h) fs
     \<and> blocks_ok (h_head h) (us @ (a, s, True) # vs) \<and> set fs = free_starts us \<union> free_starts vs
     \<and> h_type h (h_head h) = ARENA_TYPE_HEAD \<and> (\<forall>b \<in> set us \<union> set vs. header_ok h b) \<and> h_size h a = s"

lemma heap_pre_dest:
  assumes "heap_pre h us a s vs fs"
  shows "chain (h_head h) (h_next h) (h_prev h) (map fst us @ a # map fst vs)" "chain (h_head h) (h_nfree h) (h_pfree h) fs"
    "blocks_ok (h_head h) (us @ (a, s, True) # vs)" "set fs = free_starts us \<union> free_starts vs"
    "h_type h (h_head h) = ARENA_TYPE_HEAD" "b \<in> set us \<union> set vs \<Longrightarrow> header_ok h b" "h_size h a = s"
    "a \<noteq> h_head h" "a \<notin> fst ` (set us \<union> set vs)" "h_head h \<notin> fst ` (set us \<union> set vs)"
    "h_prev h a = before (h_head h) (map fst us)" "h_next h a = after (h_head h) (map fst vs)"
  using assms chain_split [of "h_head h" "h_next h" "h_prev h" "map fst us" a "map fst vs"]
  by (auto simp: heap_pre_def chain_def)

lemma heap_wf_pre: "heap_wf h (us @ (a, s, False) # vs) fs \<Longrightarrow> heap_pre h us a s vs fs"
  by (auto simp: heap_wf_def heap_pre_def header_ok_def blocks_ok_append blocks_ok_Cons block_ok_def b_end_def)

text \<open>Whether a block ends where its successor starts can be read off the words.\<close>

lemma adjacent_word:
  fixes a b :: addr and s :: uint
  assumes "unat a + unat s \<le> unat b"
  shows "a + s = b \<longleftrightarrow> unat a + unat s = unat b"
proof -
  have "unat (a + s) = unat a + unat s" using assms unat32_less [of b] by (simp add: unat_word_ariths)
  then show ?thesis by (metis word_unat_eq_iff)
qed

text \<open>First half: merging into the previous block, or joining the free chain.\<close>

definition free_prev :: "addr \<Rightarrow> heap \<Rightarrow> addr \<times> heap" where
  "free_prev ah h =
     (let pah = h_prev h ah; nah = h_next h ah in
      if h_type h pah = ARENA_TYPE_FREE \<and> pah + h_size h pah = ah then
        (pah, set_prev nah pah (set_next pah nah (set_size pah (h_size h pah + h_size h ah) h)))
      else
        let h1 = set_nfree (h_head h) ah (set_pfree ah (h_head h) (set_nfree ah (h_nfree h (h_head h)) (set_type ah ARENA_TYPE_FREE h)))
        in (ah, set_pfree (h_nfree h1 ah) ah h1))"

definition free_next :: "addr \<Rightarrow> addr \<Rightarrow> heap \<Rightarrow> addr \<times> heap" where
  "free_next nah ah h =
     (if h_type h nah = ARENA_TYPE_FREE \<and> ah + h_size h ah = nah then
        (ah, remove_from_chains nah (set_size ah (h_size h ah + h_size h nah) h))
      else (ah, h))"

lemma free_block_phases: "free_block ah h = (let (a, h1) = free_prev ah h in free_next (h_next h ah) a h1)"
  by (simp add: free_block_def free_prev_def free_next_def Let_def)

lemma free_prev_merges:
  assumes pre: "heap_pre h (us @ [(p, ps, True)]) a s vs fs" and adj: "unat p + unat ps = unat a"
  shows "\<exists>h1. free_prev a h = (p, h1) \<and> heap_wf h1 (us @ (p, ps + s, True) # vs) fs \<and> h_head h1 = h_head h \<and> h_lock h1 = h_lock h"
proof -
  note d = heap_pre_dest [OF pre]
  have hp: "h_size h p = ps" "h_type h p = ARENA_TYPE_FREE" using d(6) [of "(p, ps, True)"] by (auto simp: header_ok_def)
  have pv: "h_prev h a = p" using d(11) by (simp add: before_def)
  have "p + ps = a" using adjacent_word [of p ps a] adj by simp
  then have r: "free_prev a h = (p, set_prev (after (h_head h) (map fst vs)) p
      (set_next p (after (h_head h) (map fst vs)) (set_size p (ps + s) h)))" (is "_ = (p, ?h1)")
    by (simp add: free_prev_def pv hp d Let_def)
  have sum: "unat (ps + s) = unat ps + unat s"
  proof -
    have "unat a + unat s \<le> 2 ^ 32" "64 \<le> unat p"
      using d(3) by (auto simp: blocks_ok_append blocks_ok_Cons block_ok_def b_end_def)
    then show ?thesis using adj by (simp add: unat_word_ariths)
  qed
  have "chain (h_head h) (h_next ?h1) (h_prev ?h1) (map fst us @ p # map fst vs)"
    using chain_remove [of "h_head h" "h_next h" "h_prev h" "map fst us @ [p]" a "map fst vs"] d(1) by (simp add: before_def)
  moreover have "blocks_ok (h_head h) (us @ (p, ps + s, True) # vs)"
    using d(3) sum adj by (auto simp: blocks_ok_append blocks_ok_Cons block_ok_def b_end_def)
  moreover have "set fs = free_starts (us @ (p, ps + s, True) # vs)" using d(4) by simp
  moreover have "header_ok ?h1 b" if "b \<in> set (us @ (p, ps + s, True) # vs)" for b
  proof (cases "b \<in> set us \<union> set vs")
    case True
    moreover have "p \<notin> fst ` (set us \<union> set vs)" using d(1) by (auto simp: chain_def)
    ultimately have "header_ok h b" "fst b \<noteq> p" using d(6) by auto
    then show ?thesis by (simp add: header_ok_def)
  qed (use that hp in \<open>auto simp: header_ok_def\<close>)
  ultimately show ?thesis using d(2,5) r by (auto simp: heap_wf_def)
qed

lemma free_prev_joins:
  assumes pre: "heap_pre h us a s vs fs" and no: "us = [] \<or> \<not> b_free (last us) \<or> b_end (last us) \<noteq> unat a"
  shows "\<exists>h1. free_prev a h = (a, h1) \<and> heap_wf h1 (us @ (a, s, True) # vs) (a # fs) \<and> h_head h1 = h_head h \<and> h_lock h1 = h_lock h"
proof -
  note d = heap_pre_dest [OF pre]
  have cond: "\<not> (h_type h (h_prev h a) = ARENA_TYPE_FREE \<and> h_prev h a + h_size h (h_prev h a) = a)"
  proof (cases us rule: rev_cases)
    case Nil
    then show ?thesis using d(5,11) by (simp add: before_def arena_types)
  next
    case (snoc us' b)
    then have "header_ok h b" "h_prev h a = fst b" "b_end b \<le> unat a"
      using d(3,6,11) by (auto simp: before_def blocks_ok_append blocks_ok_Cons)
    then show ?thesis using no snoc adjacent_word [of "fst b" "b_size b" a]
      by (auto simp: header_ok_def b_end_def arena_types split: if_splits)
  qed
  have fa: "h_nfree h (h_head h) = after (h_head h) fs"
    using d(2) links_next by (fastforce simp: chain_def after_def)
  have an: "a \<noteq> h_head h" "a \<notin> set fs" using d(4,8,9) free_starts_sub [of a us] free_starts_sub [of a vs] by auto
  then have ne: "after (h_head h) fs \<noteq> a" using after_mem [of "h_head h" fs] by auto
  let ?h1 = "set_pfree (after (h_head h) fs) a (set_nfree (h_head h) a (set_pfree a (h_head h)
      (set_nfree a (after (h_head h) fs) (set_type a ARENA_TYPE_FREE h))))"
  have r: "free_prev a h = (a, ?h1)"
    unfolding free_prev_def Let_def if_not_P [OF cond] using an(1) fa by simp
  have "chain (h_head h) ((h_nfree h)(a := after (h_head h) fs)) ((h_pfree h)(a := h_head h)) ([] @ fs)"
    using chain_upd [OF d(2) an] by simp
  from chain_insert [OF this an(1)] have "chain (h_head h) (h_nfree ?h1) (h_pfree ?h1) (a # fs)"
    using an by (simp add: before_def)
  moreover have "set (a # fs) = free_starts (us @ (a, s, True) # vs)" using d(4) by simp
  moreover have "header_ok ?h1 b" if "b \<in> set (us @ (a, s, True) # vs)" for b
  proof (cases "b \<in> set us \<union> set vs")
    case True
    then have "header_ok h b" "fst b \<noteq> a" using d(6,9) by auto
    then show ?thesis by (simp add: header_ok_def)
  qed (use that d(7) in \<open>auto simp: header_ok_def\<close>)
  ultimately show ?thesis using d(1,3,5) r an by (auto simp: heap_wf_def)
qed

text \<open>Second half: merging the following block.\<close>

lemma free_next_merges:
  assumes wf: "heap_wf h (us @ (a, s, True) # (n, ns, True) # vs) (fus @ n # fvs)" and adj: "unat a + unat s = unat n"
  shows "\<exists>h2. free_next n a h = (a, h2) \<and> heap_wf h2 (us @ (a, s + ns, True) # vs) (fus @ fvs) \<and> h_head h2 = h_head h \<and> h_lock h2 = h_lock h"
proof -
  have wf': "heap_wf h ((us @ [(a, s, True)]) @ (n, ns, True) # vs) (fus @ n # fvs)" using wf by simp
  note d = heap_wf_dest [OF wf'] and st = wf_starts [OF wf]
  have hn: "h_size h n = ns" "h_type h n = ARENA_TYPE_FREE" "h_size h a = s" "h_type h a = ARENA_TYPE_FREE"
    using d(6) [of "(n, ns, True)"] d(6) [of "(a, s, True)"] by (auto simp: header_ok_def)
  have f: "h_pfree h n = before (h_head h) fus" "h_nfree h n = after (h_head h) fvs"
    "h_next h n = after (h_head h) (map fst vs)" "h_prev h n = a"
    using chain_split [OF d(2)] chain_split [OF d(1) [unfolded map_fst_split]] by (auto simp: before_def)
  have "a + s = n" using adjacent_word [of a s n] adj by simp
  then have r: "free_next n a h = (a, remove_from_chains n (set_size a (s + ns) h))" (is "_ = (a, ?h2)")
    by (simp add: free_next_def hn)
  have sum: "unat (s + ns) = unat s + unat ns"
  proof -
    have "unat n + unat ns \<le> 2 ^ 32" "64 \<le> unat a"
      using d(3) by (auto simp: blocks_ok_append blocks_ok_Cons block_ok_def b_end_def)
    then show ?thesis using adj by (simp add: unat_word_ariths)
  qed
  note rm = remove_from_chains_def remove_from_main_chain_def remove_from_free_chain_def Let_def
  have "chain (h_head h) (h_nfree ?h2) (h_pfree ?h2) (fus @ fvs)"
    using chain_remove [OF d(2)] by (simp add: rm f)
  moreover have "chain (h_head h) (h_next ?h2) (h_prev ?h2) (map fst (us @ (a, s + ns, True) # vs))"
    using chain_remove [OF d(1) [unfolded map_fst_split]] by (simp add: rm f before_def)
  moreover have "blocks_ok (h_head h) (us @ (a, s + ns, True) # vs)"
    using d(3) sum adj by (auto simp: blocks_ok_append blocks_ok_Cons block_ok_def b_end_def)
  moreover have "set (fus @ fvs) = free_starts (us @ (a, s + ns, True) # vs)"
    using wf_free_split [OF wf'] by auto
  moreover have "header_ok ?h2 b" if "b \<in> set (us @ (a, s + ns, True) # vs)" for b
  proof (cases "b \<in> set us \<union> set vs")
    case True
    then have "header_ok h b" "fst b \<noteq> a" using d(6) st(2) by auto
    then show ?thesis by (simp add: header_ok_def rm)
  qed (use that hn in \<open>auto simp: header_ok_def rm\<close>)
  ultimately show ?thesis using d(5) r by (auto simp: heap_wf_def rm)
qed

lemma free_next_keeps:
  assumes wf: "heap_wf h (us @ (a, s, True) # vs) fs" and no: "vs = [] \<or> \<not> touching (a, s, True) (hd vs)"
  shows "free_next (after (h_head h) (map fst vs)) a h = (a, h)"
proof -
  note d = heap_wf_dest [OF wf]
  have ha: "h_size h a = s" using d(6) [of "(a, s, True)"] by (simp add: header_ok_def)
  show ?thesis
  proof (cases vs)
    case Nil
    then show ?thesis using d(5) by (simp add: free_next_def after_def arena_types)
  next
    case (Cons b vs')
    then have "header_ok h b" "unat a + unat s \<le> unat (fst b)"
      using d(3) d(6) [of b] by (auto simp: blocks_ok_append blocks_ok_Cons b_end_def)
    then show ?thesis using no Cons ha adjacent_word [of a s "fst b"]
      by (auto simp: free_next_def after_def header_ok_def touching_def b_end_def arena_types split: if_splits)
  qed
qed

text \<open>What callers see of a block list: the blocks in use and the bytes that are free.\<close>

definition live :: "block list \<Rightarrow> (addr \<times> uint) set" where
  "live bs = {(a, s). (a, s, False) \<in> set bs}"

definition free_area :: "block list \<Rightarrow> nat set" where
  "free_area bs = \<Union> (span ` {(a, s). (a, s, True) \<in> set bs})"

lemma live_simps [simp]:
  "live [] = {}" "live (us @ vs) = live us \<union> live vs" "live ((a, s, True) # vs) = live vs"
  "live ((a, s, False) # vs) = insert (a, s) (live vs)"
  by (auto simp: live_def)

lemma free_area_simps [simp]:
  "free_area [] = {}" "free_area (us @ vs) = free_area us \<union> free_area vs"
  "free_area ((a, s, True) # vs) = span (a, s) \<union> free_area vs" "free_area ((a, s, False) # vs) = free_area vs"
  by (auto simp: free_area_def)

lemma span_merge:
  assumes "unat a + unat s = unat b" and "unat (s + t) = unat s + unat t"
  shows "span (a, s + t) = span (a, s) \<union> span (b, t)"
  using assms by (auto simp: span_def)

lemma coalesced_used: "coalesced (us @ (a, s, False) # vs) \<longleftrightarrow> coalesced us \<and> coalesced vs"
  by (auto simp: coalesced_append coalesced_Cons touching_def)

lemma wf_sum:
  assumes "blocks_ok hd0 (us @ (a, s, x) # (b, t, y) # vs)" and "unat a + unat s = unat b"
  shows "unat (s + t) = unat s + unat t"
proof -
  have "unat b + unat t \<le> 2 ^ 32" "64 \<le> unat a"
    using assms by (auto simp: blocks_ok_append blocks_ok_Cons block_ok_def b_end_def)
  then show ?thesis using assms(2) by (simp add: unat_word_ariths)
qed

lemma free_prev_ok:
  assumes pre: "heap_pre h us a s vs fs" and c: "coalesced us"
  obtains us1 a1 s1 fs1 h1 where "free_prev a h = (a1, h1)" "heap_wf h1 (us1 @ (a1, s1, True) # vs) fs1"
    "coalesced (us1 @ [(a1, s1, True)])" "live us1 = live us"
    "free_area us1 \<union> span (a1, s1) = free_area us \<union> span (a, s)" "h_head h1 = h_head h" "h_lock h1 = h_lock h"
proof (cases "us \<noteq> [] \<and> b_free (last us) \<and> b_end (last us) = unat a")
  case True
  then obtain us' p ps where u: "us = us' @ [(p, ps, True)]" and adj: "unat p + unat ps = unat a"
    by (cases us rule: rev_cases) (auto simp: b_end_def)
  from free_prev_merges [OF pre [unfolded u] adj] obtain h1 where
    r: "free_prev a h = (p, h1)" "heap_wf h1 (us' @ (p, ps + s, True) # vs) fs" "h_head h1 = h_head h" "h_lock h1 = h_lock h"
    by auto
  have "unat (ps + s) = unat ps + unat s"
    using heap_pre_dest(3) [OF pre] adj u wf_sum [of "h_head h" us' p ps True a s True vs] by simp
  then have "free_area us' \<union> span (p, ps + s) = free_area us \<union> span (a, s)"
    using span_merge [OF adj] by (auto simp: u)
  moreover have "coalesced (us' @ [(p, ps + s, True)])" using c u by (auto simp: coalesced_append touching_def)
  ultimately show ?thesis using that r u by simp
next
  case False
  then have no: "us = [] \<or> \<not> b_free (last us) \<or> b_end (last us) \<noteq> unat a" by blast
  then have "coalesced (us @ [(a, s, True)])" using c by (auto simp: coalesced_append touching_def)
  moreover obtain h1 where "free_prev a h = (a, h1)" "heap_wf h1 (us @ (a, s, True) # vs) (a # fs)"
    "h_head h1 = h_head h" "h_lock h1 = h_lock h" using free_prev_joins [OF pre no] by blast
  ultimately show ?thesis using that by blast
qed

lemma free_next_ok:
  assumes wf: "heap_wf h (us @ (a, s, True) # vs) fs" and c: "coalesced (us @ [(a, s, True)])" "coalesced vs"
  obtains bs' fs' h' where "free_next (after (h_head h) (map fst vs)) a h = (a, h')" "heap_inv h' bs' fs'"
    "live bs' = live (us @ vs)" "free_area bs' = free_area (us @ (a, s, True) # vs)" "h_head h' = h_head h" "h_lock h' = h_lock h"
proof (cases "vs \<noteq> [] \<and> touching (a, s, True) (hd vs)")
  case True
  then obtain n ns vs' where v: "vs = (n, ns, True) # vs'" and adj: "unat a + unat s = unat n"
    by (cases vs) (auto simp: touching_def b_end_def)
  have "n \<in> set fs" using heap_wf_dest(4) [OF wf] v by simp
  then obtain fus fvs where f: "fs = fus @ n # fvs" by (meson split_list)
  from free_next_merges [OF wf [unfolded v f] adj] obtain h' where
    r: "free_next n a h = (a, h')" "heap_wf h' (us @ (a, s + ns, True) # vs') (fus @ fvs)" "h_head h' = h_head h" "h_lock h' = h_lock h"
    by auto
  have sum: "unat (s + ns) = unat s + unat ns"
    using wf_sum [OF heap_wf_dest(3) [OF wf, unfolded v] adj] .
  then have "coalesced (us @ (a, s + ns, True) # vs')"
    using c v adj by (auto simp: coalesced_append coalesced_Cons touching_def b_end_def)
  then show ?thesis
    using that [of h' "us @ (a, s + ns, True) # vs'" "fus @ fvs"] r span_merge [OF adj sum] v
    by (simp add: heap_inv_def after_def Un_assoc)
next
  case False
  then have no: "vs = [] \<or> \<not> touching (a, s, True) (hd vs)" by blast
  then have "coalesced (us @ (a, s, True) # vs)" using c by (auto simp: coalesced_append coalesced_Cons)
  then show ?thesis
    using that [of h "us @ (a, s, True) # vs" fs] wf free_next_keeps [OF wf no] by (simp add: heap_inv_def)
qed

text \<open>Together: the block becomes free and is merged with its free neighbours, and every other block in use is untouched.\<close>

lemma free_block_ok:
  assumes pre: "heap_pre h us a s vs fs" and c: "coalesced us" "coalesced vs"
  obtains a' h' bs' fs' where "free_block a h = (a', h')" "heap_inv h' bs' fs'" "live bs' = live (us @ vs)"
    "free_area bs' = free_area (us @ vs) \<union> span (a, s)" "h_head h' = h_head h" "h_lock h' = h_lock h"
proof -
  obtain us1 a1 s1 fs1 h1 where p: "free_prev a h = (a1, h1)" "heap_wf h1 (us1 @ (a1, s1, True) # vs) fs1"
    "coalesced (us1 @ [(a1, s1, True)])" "live us1 = live us"
    "free_area us1 \<union> span (a1, s1) = free_area us \<union> span (a, s)" "h_head h1 = h_head h" "h_lock h1 = h_lock h"
    by (rule free_prev_ok [OF pre c(1)])
  obtain bs' fs' h' where n: "free_next (after (h_head h1) (map fst vs)) a1 h1 = (a1, h')" "heap_inv h' bs' fs'"
    "live bs' = live (us1 @ vs)" "free_area bs' = free_area (us1 @ (a1, s1, True) # vs)" "h_head h' = h_head h1" "h_lock h' = h_lock h1"
    by (rule free_next_ok [OF p(2,3) c(2)])
  have "free_block a h = (a1, h')"
    using p(1,6) n(1) heap_pre_dest(12) [OF pre] by (simp add: free_block_phases)
  moreover have "free_area bs' = free_area (us @ vs) \<union> span (a, s)" using n(4) p(5) by auto
  ultimately show ?thesis using that n p by simp
qed

section \<open>Allocation\<close>

lemma arena_size_mask: "ARENA_SIZE_MASK = 0xFFFFFFF0"
  unfolding ARENA_SIZE_MASK_def by code_simp

lemma arena_round_unat:
  assumes "unat sz < 2 ^ 32 - 31"
  shows "unat (arena_round sz) = 16 * ((unat sz + 31) div 16)"
proof -
  have "unat (sz + 31) = unat sz + 31" using assms by (simp add: unat_word_ariths)
  then show ?thesis by (simp add: arena_round_def arena_size_mask unat_and_line_mask add.commute)
qed

lemma arena_round_bounds:
  assumes "unat sz < 2 ^ 32 - 31"
  shows "unat sz + 16 \<le> unat (arena_round sz)" and "sz \<noteq> 0 \<Longrightarrow> 32 \<le> unat (arena_round sz)"
    and "unat (arena_round sz) < unat sz + 32" and "unat (arena_round sz) mod 16 = 0"
proof -
  have r: "unat (arena_round sz) = 16 * ((unat sz + 31) div 16)" using arena_round_unat [OF assms] .
  show "unat sz + 16 \<le> unat (arena_round sz)" "unat (arena_round sz) < unat sz + 32" "unat (arena_round sz) mod 16 = 0"
    unfolding r by (presburger, presburger, simp)
  assume "sz \<noteq> 0"
  then have "0 < unat sz" by (simp add: unat_gt_0)
  then show "32 \<le> unat (arena_round sz)" unfolding r by presburger
qed

lemma find_free:
  assumes "heap_wf h bs fs"
  shows "find (\<lambda>a. sz \<le> h_size h a) fs = None \<longleftrightarrow> (\<forall>a s. (a, s, True) \<in> set bs \<longrightarrow> s < sz)"
proof -
  note d = heap_wf_dest [OF assms]
  have "(a, s, True) \<in> set bs \<Longrightarrow> a \<in> set fs \<and> h_size h a = s" for a s
    using d(4) d(6) [of "(a, s, True)"] by (force simp: free_starts_def header_ok_def)
  moreover have "a \<in> set fs \<Longrightarrow> (a, h_size h a, True) \<in> set bs" for a
    using free_headers [OF assms] by (metis in_set_conv_decomp)
  ultimately show ?thesis unfolding find_None_iff not_less [symmetric] by fastforce
qed

text \<open>A block that is taken was free, is big enough, and is exactly what the free bytes lose.\<close>

definition taken :: "heap \<Rightarrow> block list \<Rightarrow> uint \<Rightarrow> addr \<Rightarrow> heap \<Rightarrow> bool" where
  "taken h bs r p h' \<longleftrightarrow> (\<exists>a s bs' fs'. p = a + 16 \<and> r \<le> s \<and> heap_inv h' bs' fs' \<and> (a, s) \<notin> live bs
     \<and> live bs' = insert (a, s) (live bs) \<and> span (a, s) \<subseteq> free_area bs \<and> free_area bs' = free_area bs - span (a, s)
     \<and> h_head h' = h_head h \<and> h_lock h' = h_lock h)"

lemma span_apart:
  assumes "blocks_ok hd0 (us @ (a, s, x) # vs)"
  shows "free_area us \<inter> span (a, s) = {}" "free_area vs \<inter> span (a, s) = {}" "(a, s) \<notin> live us" "(a, s) \<notin> live vs"
proof -
  have "\<forall>b \<in> set us. b_end b \<le> unat a" "\<forall>b \<in> set vs. unat a + unat s \<le> unat (fst b)" "0 < unat s"
    using assms by (auto simp: blocks_ok_append blocks_ok_Cons block_ok_def b_end_def)
  then show "free_area us \<inter> span (a, s) = {}" "free_area vs \<inter> span (a, s) = {}" "(a, s) \<notin> live us" "(a, s) \<notin> live vs"
    by (fastforce simp: free_area_def span_def b_end_def live_def)+
qed

lemma malloc_from_block_ok:
  assumes inv: "heap_inv h bs fs" and a: "a \<in> set fs" and r: "r \<le> h_size h a" "24 \<le> unat r"
    and m: "malloc_from_block a r h = (p, h')"
  shows "taken h bs r p h'"
proof -
  have wf: "heap_wf h bs fs" and c: "coalesced bs" using inv by (auto simp: heap_inv_def)
  obtain us s vs where bs: "bs = us @ (a, s, True) # vs" and s: "h_size h a = s"
    by (rule free_headers [OF wf a])
  obtain fus fvs where fs: "fs = fus @ a # fvs" using a by (meson split_list)
  note ap = span_apart [OF heap_wf_dest(3) [OF wf, unfolded bs]]
  have fit: "64 \<le> unat a" "unat a + unat s \<le> 2 ^ 32"
    using heap_wf_dest(3) [OF wf] bs by (auto simp: blocks_ok_append blocks_ok_Cons block_ok_def b_end_def)
  show ?thesis
  proof (cases "unat r + 32 \<le> unat s")
    case True
    have "coalesced (us @ (a, r, False) # (a + r, s - r, True) # vs)"
      using c split_block_word [OF True fit(2)] True
      by (auto simp: bs coalesced_append coalesced_Cons touching_def b_end_def)
    moreover have "span (a, s) = span (a, r) \<union> span (a + r, s - r)" "span (a, r) \<inter> span (a + r, s - r) = {}"
      using split_block_word [OF True fit(2)] True by (auto simp: span_def)
    moreover have "(a, r) \<notin> live bs" using wf_starts(2) [OF wf [unfolded bs]] by (fastforce simp: bs live_def)
    ultimately show ?thesis
      using take_split [OF wf [unfolded bs fs] True r(2) m] ap unfolding taken_def
      by (intro exI [of _ a] exI [of _ r] exI [of _ "us @ (a, r, False) # (a + r, s - r, True) # vs"] exI [of _ "fus @ (a + r) # fvs"])
        (auto simp: bs heap_inv_def)
  next
    case False
    have "unat (r + 32) = unat r + 32" using fit r(1) s by (simp add: unat_word_ariths word_le_nat_alt)
    then have "s < r + 32" using False by (simp add: word_less_nat_alt)
    moreover have "coalesced (us @ (a, s, False) # vs)" using c by (auto simp: bs coalesced_append coalesced_Cons touching_def)
    ultimately show ?thesis
      using take_whole [OF wf [unfolded bs fs] _ m] ap r(1) s unfolding taken_def
      by (intro exI [of _ a] exI [of _ s] exI [of _ "us @ (a, s, False) # vs"] exI [of _ "fus @ fvs"])
        (auto simp: bs heap_inv_def)
  qed
qed

lemma malloc_ok:
  assumes inv: "heap_inv h bs fs" and lock: "h_lock h" and sz: "sz \<noteq> 0" "unat sz < 2 ^ 32 - 31"
  shows "if \<exists>a s. (a, s, True) \<in> set bs \<and> arena_round sz \<le> s then (\<exists>p h'. malloc sz h = Some (p, h') \<and> taken h bs (arena_round sz) p h')
    else malloc sz h = Some (NULL, h)"
proof -
  have wf: "heap_wf h bs fs" using inv by (simp add: heap_inv_def)
  let ?f = "find (\<lambda>a. arena_round sz \<le> h_size h a) fs"
  have m: "malloc sz h = Some (case ?f of None \<Rightarrow> (NULL, h) | Some fp \<Rightarrow> malloc_from_block fp (arena_round sz) h)"
    using lock sz(1) malloc_search_ok [OF wf] by (simp add: malloc_def Let_def)
  show ?thesis
  proof (cases ?f)
    case None
    then have "\<forall>a s. (a, s, True) \<in> set bs \<longrightarrow> s < arena_round sz" using find_free [OF wf] by blast
    then have none: "\<not> (\<exists>a s. (a, s, True) \<in> set bs \<and> arena_round sz \<le> s)" using leD by blast
    show ?thesis unfolding if_not_P [OF none] using m None by simp
  next
    case (Some a)
    then have "a \<in> set fs" "arena_round sz \<le> h_size h a" by (auto simp: find_Some_iff)
    then have "taken h bs (arena_round sz) (fst (malloc_from_block a (arena_round sz) h)) (snd (malloc_from_block a (arena_round sz) h))"
      using arena_round_bounds(2) [OF sz(2,1)] by (intro malloc_from_block_ok [OF inv]) auto
    moreover have "\<not> (\<forall>a s. (a, s, True) \<in> set bs \<longrightarrow> s < arena_round sz)" using find_free [OF wf] Some by (metis option.distinct(1))
    then have "\<exists>a s. (a, s, True) \<in> set bs \<and> arena_round sz \<le> s" by (auto simp: not_less)
    ultimately show ?thesis using m Some by (auto simp: prod_eq_iff)
  qed
qed

section \<open>Adding memory\<close>

lemma find_pred_links:
  assumes "links nx (h_prev h) x (us @ vs) y" and "\<forall>z \<in> set (us @ vs). h_type h z \<noteq> ARENA_TYPE_HEAD"
    and "h_type h x = ARENA_TYPE_HEAD" and "\<forall>u \<in> set us. u < fp" and "\<forall>v \<in> set vs. \<not> v < fp"
  shows "find_pred h fp (h_prev h y) = Some (before x us)"
  using assms
proof (induction vs arbitrary: y rule: rev_induct)
  case Nil
  then have "h_prev h y = before x us" using links_prev by (fastforce simp: before_def)
  then show ?case using Nil.prems by (subst find_pred.simps) (auto simp: before_def)
next
  case (snoc v vs)
  then have l: "links nx (h_prev h) x (us @ vs) v" "h_prev h y = v"
    using links_append [of nx "h_prev h" x "us @ vs" v "[]" y] by auto
  have "find_pred h fp (h_prev h v) = Some (before x us)" using snoc.prems by (intro snoc.IH [OF l(1)]) auto
  then show ?case using snoc.prems l(2) by (subst find_pred.simps) auto
qed

text \<open>The blocks below and above the new memory.\<close>

lemma split_around:
  assumes "blocks_ok hd0 bs" and "\<forall>b \<in> set bs. b_end b \<le> unat a \<or> unat a + n \<le> unat (fst b)"
  obtains us vs where "bs = us @ vs" "\<forall>b \<in> set us. b_end b \<le> unat a" "\<forall>b \<in> set vs. unat a + n \<le> unat (fst b)"
proof
  let ?P = "\<lambda>b. b_end b \<le> unat a"
  show "bs = takeWhile ?P bs @ dropWhile ?P bs" by simp
  show "\<forall>b \<in> set (takeWhile ?P bs). b_end b \<le> unat a" by (auto dest: set_takeWhileD)
  show "\<forall>b \<in> set (dropWhile ?P bs). unat a + n \<le> unat (fst b)"
  proof
    fix b assume b: "b \<in> set (dropWhile ?P bs)"
    then obtain c cs where d: "dropWhile ?P bs = c # cs" by (cases "dropWhile ?P bs") auto
    have c: "\<not> ?P c" "c \<in> set bs" using d hd_dropWhile [of ?P bs] set_dropWhileD [of c ?P bs] by auto
    then have "unat a + n \<le> unat (fst c)" using assms(2) by blast
    moreover have "b = c \<or> b_end c \<le> unat (fst b)"
      using assms(1) takeWhile_dropWhile_id [of ?P bs] b d by (metis blocks_ok_append blocks_ok_Cons set_ConsD)
    ultimately show "unat a + n \<le> unat (fst b)" by (auto simp: b_end_def)
  qed
qed

lemma not_head_type: "header_ok h b \<Longrightarrow> h_type h (fst b) \<noteq> ARENA_TYPE_HEAD"
  by (auto simp: header_ok_def arena_types split: if_splits)

lemma add_block_pre:
  assumes inv: "heap_inv h (us @ vs) fs" and lock: "h_lock h" and ok: "block_ok (h_head h) (a, s, True)"
    and us: "\<forall>b \<in> set us. b_end b \<le> unat a" and vs: "\<forall>b \<in> set vs. unat a + unat s \<le> unat (fst b)"
  obtains h1 where "heap_pre h1 us a s vs fs" "h_head h1 = h_head h" "h_lock h1 = h_lock h"
    "add_malloc_block a s h = Some (snd (free_block a h1))"
proof -
  have wf: "heap_wf h (us @ vs) fs" using inv by (simp add: heap_inv_def)
  note d = heap_wf_dest [OF wf]
  let ?h0 = "set_size a s (set_type a ARENA_TYPE_FREE h)"
  let ?b = "before (h_head h) (map fst us)" and ?f = "after (h_head h) (map fst vs)"
  let ?h1 = "set_prev ?f a (set_next ?b a (set_prev a ?b (set_next a ?f ?h0)))"
  have big: "\<forall>b \<in> set (us @ vs). 24 \<le> unat (b_size b)" using d(3) by (auto simp: blocks_ok_def block_ok_def)
  have s24: "24 \<le> unat s" and ah: "a \<noteq> h_head h" using ok by (auto simp: block_ok_def b_end_def)
  have lt: "\<forall>u \<in> set (map fst us). u < a" "\<forall>v \<in> set (map fst vs). \<not> v < a"
    using us vs big by (force simp: b_end_def word_less_nat_alt)+
  have fresh: "a \<notin> set (map fst us @ map fst vs)" using us vs big s24 by (force simp: b_end_def)
  have nb: "a \<noteq> ?b" "a \<noteq> ?f"
    using fresh ah before_mem [of "h_head h" "map fst us"] after_mem [of "h_head h" "map fst vs"] by auto
  have nh: "\<forall>z \<in> set (map fst us @ map fst vs). h_type ?h0 z \<noteq> ARENA_TYPE_HEAD"
  proof
    fix z assume "z \<in> set (map fst us @ map fst vs)"
    then obtain b where "b \<in> set (us @ vs)" and z: "z = fst b" by auto
    then have "h_type h z \<noteq> ARENA_TYPE_HEAD" using not_head_type d(6) by blast
    then show "h_type ?h0 z \<noteq> ARENA_TYPE_HEAD" by (simp add: arena_types)
  qed
  have l: "links (h_next h) (h_prev ?h0) (h_head h) (map fst us @ map fst vs) (h_head h)" "h_type ?h0 (h_head h) = ARENA_TYPE_HEAD"
    using d(1,5) ah by (auto simp: chain_def)
  have "find_pred ?h0 a (h_prev ?h0 (h_head h)) = Some ?b" by (rule find_pred_links [OF l(1) nh l(2) lt])
  moreover have "h_next h ?b = ?f"
    by (rule chain_next_before [OF d(1) [unfolded map_append]])
  moreover have "\<not> s < 24" using s24 by (simp add: word_less_nat_alt)
  ultimately have r: "add_malloc_block a s h = Some (snd (free_block a ?h1))"
    using lock nb by (simp add: add_malloc_block_def Let_def)
  have "chain (h_head h) ((h_next h)(a := ?f)) ((h_prev h)(a := ?b)) (map fst us @ map fst vs)"
    using d(1) ah fresh by (intro chain_upd) auto
  from chain_insert [OF this ah fresh] have "chain (h_head h) (h_next ?h1) (h_prev ?h1) (map fst us @ a # map fst vs)" by simp
  moreover have "header_ok ?h1 b" if "b \<in> set us \<union> set vs" for b
    using d(6) [of b] that fresh by (auto simp: header_ok_def)
  moreover have "blocks_ok (h_head h) (us @ (a, s, True) # vs)"
    using d(3) us vs ok by (force simp: blocks_ok_append blocks_ok_Cons b_end_def)
  ultimately have "heap_pre ?h1 us a s vs fs" using d ah by (simp add: heap_pre_def)
  then show ?thesis using that [of ?h1] r by simp
qed

lemma add_malloc_block_ok:
  assumes inv: "heap_inv h bs fs" and lock: "h_lock h" and ok: "block_ok (h_head h) (a, s, True)"
    and out: "\<forall>b \<in> set bs. b_end b \<le> unat a \<or> unat a + unat s \<le> unat (fst b)"
  obtains h' bs' fs' where "add_malloc_block a s h = Some h'" "heap_inv h' bs' fs'" "live bs' = live bs"
    "free_area bs' = free_area bs \<union> span (a, s)" "h_head h' = h_head h" "h_lock h'"
proof -
  have wf: "heap_wf h bs fs" using inv by (simp add: heap_inv_def)
  obtain us vs where bs: "bs = us @ vs" and us: "\<forall>b \<in> set us. b_end b \<le> unat a" and vs: "\<forall>b \<in> set vs. unat a + unat s \<le> unat (fst b)"
    by (rule split_around [OF heap_wf_dest(3) [OF wf] out])
  obtain h1 where h1: "heap_pre h1 us a s vs fs" "h_head h1 = h_head h" "h_lock h1 = h_lock h"
    "add_malloc_block a s h = Some (snd (free_block a h1))"
    by (rule add_block_pre [OF inv [unfolded bs] lock ok us vs])
  have c: "coalesced us" "coalesced vs" using inv bs by (auto simp: heap_inv_def coalesced_append)
  obtain a' h' bs' fs' where "free_block a h1 = (a', h')" "heap_inv h' bs' fs'" "live bs' = live (us @ vs)"
    "free_area bs' = free_area (us @ vs) \<union> span (a, s)" "h_head h' = h_head h1" "h_lock h' = h_lock h1"
    by (rule free_block_ok [OF h1(1) c])
  then show ?thesis using that [of h' bs' fs'] h1 lock bs by simp
qed

section \<open>The contract\<close>

definition heap_rep :: "heap \<Rightarrow> (addr \<times> uint) set \<Rightarrow> nat set \<Rightarrow> bool" where
  "heap_rep h L F \<longleftrightarrow> h_lock h \<and> (\<exists>bs fs. heap_inv h bs fs \<and> L = live bs \<and> F = free_area bs)"

lemma heap_repI: "h_lock h \<Longrightarrow> heap_inv h bs fs \<Longrightarrow> heap_rep h (live bs) (free_area bs)"
  by (auto simp: heap_rep_def)

lemma live_split:
  assumes "b \<in> live bs"
  obtains us vs where "bs = us @ (fst b, snd b, False) # vs"
  using assms split_list [of "(fst b, snd b, False)" bs] by (auto simp: live_def)

lemma live_block:
  assumes "blocks_ok hd0 bs" and "b \<in> live bs"
  shows "64 \<le> unat (fst b) \<and> 24 \<le> unat (snd b) \<and> unat (fst b) + unat (snd b) \<le> 2 ^ 32"
  using assms by (force simp: blocks_ok_def block_ok_def b_end_def live_def)

lemma live_disjoint:
  assumes "blocks_ok hd0 bs" and "b \<in> live bs" and "c \<in> live bs" and "b \<noteq> c"
  shows "span b \<inter> span c = {}"
proof -
  obtain us vs where bs: "bs = us @ (fst b, snd b, False) # vs" using live_split [OF assms(2)] by blast
  then have "(fst c, snd c, False) \<in> set us \<union> set vs" using assms(3,4) by (auto simp: live_def)
  then show ?thesis using assms(1) unfolding bs by (force simp: blocks_ok_append blocks_ok_Cons b_end_def span_def)
qed

lemma live_not_free:
  assumes "blocks_ok hd0 bs" and "b \<in> live bs"
  shows "span b \<inter> free_area bs = {}"
proof -
  obtain us vs where bs: "bs = us @ (fst b, snd b, False) # vs" using live_split [OF assms(2)] by blast
  then show ?thesis using span_apart [of hd0 us "fst b" "snd b" False vs] assms(1) by auto
qed

lemma free_ok:
  assumes inv: "heap_inv h bs fs" and lock: "h_lock h" and b: "b \<in> live bs"
  obtains bs' fs' where "heap_inv (free (fst b + 16) h) bs' fs'" "live bs' = live bs - {b}"
    "free_area bs' = free_area bs \<union> span b" "h_head (free (fst b + 16) h) = h_head h" "h_lock (free (fst b + 16) h)"
proof -
  obtain us vs where bs: "bs = us @ (fst b, snd b, False) # vs" using live_split [OF b] by blast
  have wf: "heap_wf h (us @ (fst b, snd b, False) # vs) fs" and c: "coalesced us" "coalesced vs"
    using inv bs by (auto simp: heap_inv_def coalesced_used)
  note ok = heap_wf_dest(3) [OF wf]
  have "64 \<le> unat (fst b)" "24 \<le> unat (snd b)" "unat (fst b) + unat (snd b) \<le> 2 ^ 32"
    using live_block [OF ok] b bs by auto
  then have "unat (fst b + 16) = unat (fst b) + 16" by (simp add: unat_word_ariths)
  then have "fst b + 16 \<noteq> 0" by auto
  then have f: "free (fst b + 16) h = snd (free_block (fst b) h)" using lock by (simp add: free_def Let_def)
  obtain a' h' bs' fs' where r: "free_block (fst b) h = (a', h')" "heap_inv h' bs' fs'" "live bs' = live (us @ vs)"
    "free_area bs' = free_area (us @ vs) \<union> span (fst b, snd b)" "h_head h' = h_head h" "h_lock h' = h_lock h"
    by (rule free_block_ok [OF heap_wf_pre [OF wf] c])
  have "live (us @ vs) = live bs - {b}" using span_apart(3,4) [OF ok] by (auto simp: bs)
  then show ?thesis using that [of bs' fs'] r f bs lock by simp
qed

lemma taken_rep:
  assumes "taken h bs r p h'" and "h_lock h"
  shows "\<exists>b. p = fst b + 16 \<and> r \<le> snd b \<and> b \<notin> live bs \<and> span b \<subseteq> free_area bs
    \<and> heap_rep h' (insert b (live bs)) (free_area bs - span b)"
proof -
  obtain a s bs' fs' where "p = a + 16" "r \<le> s" "heap_inv h' bs' fs'" "(a, s) \<notin> live bs" "live bs' = insert (a, s) (live bs)"
    "span (a, s) \<subseteq> free_area bs" "free_area bs' = free_area bs - span (a, s)" "h_lock h'"
    using assms by (auto simp: taken_def)
  then show ?thesis using heap_repI [of h' bs' fs'] by (intro exI [of _ "(a, s)"]) simp
qed

interpretation heap: allocator heap_rep malloc free
proof
  fix h :: heap and L F and b c :: "addr \<times> uint"
  assume "heap_rep h L F" and b: "b \<in> L"
  then obtain bs fs where inv: "heap_inv h bs fs" and lock: "h_lock h" and LF: "L = live bs" "F = free_area bs" by (auto simp: heap_rep_def)
  then have ok: "blocks_ok (h_head h) bs" by (simp add: heap_inv_def heap_wf_def)
  show "64 \<le> unat (fst b) \<and> 24 \<le> unat (snd b) \<and> unat (fst b) + unat (snd b) \<le> 2 ^ 32" using live_block [OF ok] b LF by simp
  show "span b \<inter> F = {}" using live_not_free [OF ok] b LF by simp
  show "c \<in> L \<Longrightarrow> b \<noteq> c \<Longrightarrow> span b \<inter> span c = {}" using live_disjoint [OF ok] b LF by simp
  obtain bs' fs' where "heap_inv (free (fst b + 16) h) bs' fs'" "live bs' = live bs - {b}"
    "free_area bs' = free_area bs \<union> span b" "h_lock (free (fst b + 16) h)"
    by (rule free_ok [OF inv lock b [unfolded LF]])
  then show "heap_rep (free (fst b + 16) h) (L - {b}) (F \<union> span b)"
    using heap_repI [of "free (fst b + 16) h" bs' fs'] LF by simp
next
  show "malloc 0 h = Some (NULL, h)" for h by (simp add: malloc_def)
next
  fix h :: heap and L F and sz :: uint
  assume "heap_rep h L F" and sz: "sz \<noteq> 0" "unat sz < 2 ^ 32 - 31"
  then obtain bs fs where inv: "heap_inv h bs fs" and lock: "h_lock h" and LF: "L = live bs" "F = free_area bs" by (auto simp: heap_rep_def)
  have big: "unat sz + 16 \<le> unat s" if "arena_round sz \<le> s" for s
    using that arena_round_bounds(1) [OF sz(2)] by (simp add: word_le_nat_alt)
  show "malloc sz h = Some (NULL, h) \<or> (\<exists>b h'. malloc sz h = Some (fst b + 16, h') \<and> unat sz + 16 \<le> unat (snd b) \<and> b \<notin> L
      \<and> span b \<subseteq> F \<and> heap_rep h' (insert b L) (F - span b))"
  proof (cases "\<exists>a s. (a, s, True) \<in> set bs \<and> arena_round sz \<le> s")
    case True
    then obtain p h' where "malloc sz h = Some (p, h')" "taken h bs (arena_round sz) p h'" using malloc_ok [OF inv lock sz] by auto
    then show ?thesis using taken_rep [OF _ lock] big LF by blast
  next
    case False
    then show ?thesis using malloc_ok [OF inv lock sz] unfolding if_not_P [OF False] by blast
  qed
qed

section \<open>The heap at the start, and its status\<close>

lemma heap_inv_init: "heap_inv (malloc_head_init a) [] []"
  by (simp add: heap_inv_def heap_wf_def malloc_head_init_def chain_def blocks_ok_def arena_types)

text \<open>The heap that \<open>entry.S\<close> sets up before \<open>main\<close>.\<close>

definition MALLOC_MEM_START :: addr where "MALLOC_MEM_START = 0x400000"
definition MALLOC_MEM_SIZE :: uint where "MALLOC_MEM_SIZE = 0x1a00000"

definition start_heap :: heap where
  "start_heap = the (add_malloc_block MALLOC_MEM_START MALLOC_MEM_SIZE (malloc_head_init 0x10000))"

lemma start_heap_added:
  "add_malloc_block MALLOC_MEM_START MALLOC_MEM_SIZE (malloc_head_init 0x10000) = Some start_heap"
  by (simp add: start_heap_def add_malloc_block_def find_pred.simps malloc_head_init_def MALLOC_MEM_START_def
      MALLOC_MEM_SIZE_def Let_def arena_types)

lemma start_heap_inv: "heap_inv start_heap [(MALLOC_MEM_START, MALLOC_MEM_SIZE, True)] [MALLOC_MEM_START]"
  by (simp add: start_heap_def add_malloc_block_def find_pred.simps malloc_head_init_def MALLOC_MEM_START_def
      MALLOC_MEM_SIZE_def Let_def arena_types free_block_def heap_inv_def heap_wf_def chain_def blocks_ok_def block_ok_def
      b_end_def header_ok_def)

lemma start_heap_lock: "h_lock start_heap"
  by (simp add: start_heap_def add_malloc_block_def find_pred.simps malloc_head_init_def MALLOC_MEM_START_def
      MALLOC_MEM_SIZE_def Let_def arena_types free_block_def)

lemma start_heap_rep: "heap_rep start_heap {} (span (MALLOC_MEM_START, MALLOC_MEM_SIZE))"
  using heap_repI [OF start_heap_lock start_heap_inv] by simp

lemma status_links:
  "links (h_nfree h) pv x zs y \<Longrightarrow> (\<forall>z \<in> set zs. h_type h z \<noteq> ARENA_TYPE_HEAD) \<Longrightarrow> h_type h y = ARENA_TYPE_HEAD \<Longrightarrow>
   status_loop h (h_nfree h x) f l = Some (f + sum_list (map (h_size h) zs), fold max (map (h_size h) zs) l)"
proof (induction zs arbitrary: x f l)
  case Nil
  then show ?case by (subst status_loop.simps) simp
next
  case (Cons z zs)
  have "(if h_size h z \<ge> l then h_size h z else l) = max (h_size h z) l" by (auto simp: max_def)
  then show ?case using Cons by (subst status_loop.simps) (simp add: add.assoc)
qed

lemma status_ok:
  assumes "heap_inv h bs fs" and "h_lock h"
  shows "get_malloc_memory_status h = Some (sum_list (map (h_size h) fs), fold max (map (h_size h) fs) 0)"
proof -
  have wf: "heap_wf h bs fs" using assms(1) by (simp add: heap_inv_def)
  have "status_loop h (h_nfree h (h_head h)) 0 0 = Some (0 + sum_list (map (h_size h) fs), fold max (map (h_size h) fs) 0)"
  proof (rule status_links)
    show "links (h_nfree h) (h_pfree h) (h_head h) fs (h_head h)" using heap_wf_dest(2) [OF wf] by (simp add: chain_def)
    show "\<forall>z \<in> set fs. h_type h z \<noteq> ARENA_TYPE_HEAD"
      by (rule ballI, erule free_headers [OF wf]) (simp add: arena_types)
    show "h_type h (h_head h) = ARENA_TYPE_HEAD" using heap_wf_dest(5) [OF wf] .
  qed
  then show ?thesis using assms(2) by (simp add: get_malloc_memory_status_def)
qed

section \<open>Reallocation\<close>

lemma heap_rep_size:
  assumes "heap_rep h L F" and "b \<in> L"
  shows "h_size h (fst b) = snd b"
proof -
  obtain bs fs where "heap_wf h bs fs" "(fst b, snd b, False) \<in> set bs"
    using assms by (auto simp: heap_rep_def heap_inv_def live_def)
  then show ?thesis using heap_wf_dest(6) by (fastforce simp: header_ok_def)
qed

lemma spans_apart:
  assumes "span b \<inter> span c = {}" and "0 < unat (snd b)" and "0 < unat (snd c)"
  shows "unat (fst b) + unat (snd b) \<le> unat (fst c) \<or> unat (fst c) + unat (snd c) \<le> unat (fst b)"
proof (rule ccontr)
  assume "\<not> ?thesis"
  then have "max (unat (fst b)) (unat (fst c)) \<in> span b \<inter> span c" using assms(2,3) by (auto simp: span_def)
  then show False using assms(1) by blast
qed

lemma payload_regions_disjoint:
  assumes "unat (fst b) + unat (snd b) \<le> 2 ^ 32" and "unat (fst c) + unat (snd c) \<le> 2 ^ 32"
    and "span b \<inter> span c = {}" and "n + 16 \<le> unat (snd b)" and "n + 16 \<le> unat (snd c)"
  shows "region (fst b + 16) n \<inter> region (fst c + 16) n = {}"
proof -
  have u: "unat (fst b + 16) = unat (fst b) + 16" "unat (fst c + 16) = unat (fst c) + 16" if "0 < n"
    using assms that by (simp_all add: unat_word_ariths)
  have "unat (fst b) + unat (snd b) \<le> unat (fst c) \<or> unat (fst c) + unat (snd c) \<le> unat (fst b)"
    by (rule spans_apart [OF assms(3)]) (use assms in auto)
  then show ?thesis
    using region_disjoint [of "fst b + 16" n "fst c + 16" n] region_disjoint [of "fst c + 16" n "fst b + 16" n] u assms
    by (cases "n = 0") (auto simp: region_0)
qed

lemma bytes_at_prefix:
  assumes "bytes_at m p n = bytes_at m' q n" and "k \<le> n"
  shows "bytes_at m p k = bytes_at m' q k"
proof -
  obtain j where "n = k + j" using assms(2) le_Suc_ex by blast
  then show ?thesis using assms(1) by (simp add: bytes_at_append)
qed

lemma copy_bytes_at: "bytes_at (store_bytes m p (bytes_at m' q (unat n))) p (unat n) = bytes_at m' q (unat n)" for n :: uint
  using bytes_at_store [of "bytes_at m' q (unat n)" m p] unat32_less [of n] by simp

lemma granted_block:
  assumes "heap_rep h L F" and "sz \<noteq> 0" and "unat sz < 2 ^ 32 - 31" and "malloc sz h \<noteq> Some (NULL, h)"
  obtains c h' where "malloc sz h = Some (fst c + 16, h')" "unat sz + 16 \<le> unat (snd c)" "c \<notin> L" "span c \<subseteq> F"
    "heap_rep h' (insert c L) (F - span c)"
  using heap.alloc_grants [OF assms(1-3)] assms(4) by blast

lemma realloc_moves:
  assumes rep: "heap_rep h L F" and b: "b \<in> L" and sz: "sz \<noteq> 0" "unat sz < 2 ^ 32 - 64"
    and small: "\<not> (arena_round sz \<le> snd b \<and> drop_bit 2 (snd b) \<le> arena_round sz)"
    and room: "malloc (arena_round sz) h \<noteq> Some (NULL, h)" and k: "k \<le> unat sz" "k \<le> unat (snd b) - 16"
  shows "\<exists>c h' m'. realloc (fst b + 16) sz (h, m) = Some (fst c + 16, h', m') \<and> unat sz + 16 \<le> unat (snd c)
    \<and> heap_rep h' (insert c (L - {b})) (F \<union> span b - span c) \<and> bytes_at m' (fst c + 16) k = bytes_at m (fst b + 16) k"
proof -
  note bb = heap.rep_block [OF rep b]
  have r: "unat sz + 16 \<le> unat (arena_round sz)" "unat (arena_round sz) < 2 ^ 32 - 31" "arena_round sz \<noteq> 0"
    using arena_round_bounds [of sz] sz by (auto simp flip: unat_gt_0)
  obtain c h1 where c: "malloc (arena_round sz) h = Some (fst c + 16, h1)" "unat (arena_round sz) + 16 \<le> unat (snd c)" "c \<notin> L"
    "span c \<subseteq> F" "heap_rep h1 (insert c L) (F - span c)"
    by (rule granted_block [OF rep r(3,2) room])
  let ?n = "if arena_round sz < snd b - 16 then arena_round sz else snd b - 16"
  have old: "unat (snd b - 16) = unat (snd b) - 16" using bb by (simp add: unat_sub word_le_nat_alt)
  have n: "unat ?n \<le> unat (arena_round sz)" "unat ?n \<le> unat (snd b) - 16" "k \<le> unat ?n"
    using old r(1) k by (auto simp: word_less_nat_alt)
  have "span c \<inter> span b = {}" using heap.rep_used [OF rep b] c(4) by blast
  then have "region (fst c + 16) (unat ?n) \<inter> region (fst b + 16) (unat ?n) = {}"
    using heap.rep_block [OF c(5), of c] bb c(2) n(1,2) by (intro payload_regions_disjoint) auto
  then have cp: "fst (memcpy m (fst c + 16) (fst b + 16) ?n) = store_bytes m (fst c + 16) (bytes_at m (fst b + 16) (unat ?n))" (is "_ = ?m'")
    by (simp only: memcpy_disjoint fst_conv)
  have nb: "fst b + 16 \<noteq> 0" using heap.payload_in_span(2) [OF rep b, of "(fst b + 16, 0)"] bb by (simp add: backs_def)
  have "realloc (fst b + 16) sz (h, m) = Some (fst c + 16, free (fst b + 16) h1, ?m')"
    using sz(1) small c(1) nb cp heap_rep_size [OF rep b] by (auto simp: realloc_def Let_def)
  moreover have "heap_rep (free (fst b + 16) h1) (insert c (L - {b})) (F \<union> span b - span c)"
  proof -
    have "insert c L - {b} = insert c (L - {b})" using b c(3) by auto
    moreover have "F - span c \<union> span b = F \<union> span b - span c" using \<open>span c \<inter> span b = {}\<close> by auto
    ultimately show ?thesis using heap.dealloc_returns [OF c(5), of b] b by simp
  qed
  moreover have "bytes_at ?m' (fst c + 16) k = bytes_at m (fst b + 16) k"
    by (rule bytes_at_prefix [OF copy_bytes_at n(3)])
  moreover have "unat sz + 16 \<le> unat (snd c)" using c(2) r(1) by simp
  ultimately show ?thesis by blast
qed

section \<open>Requests near the top of the address space\<close>

lemma arena_round_wraps: "2 ^ 32 - 31 \<le> unat sz \<Longrightarrow> unat (arena_round sz) \<le> 16"
proof -
  assume a: "2 ^ 32 - 31 \<le> unat sz"
  then have "unat (31 + sz) = unat sz + 31 - 2 ^ 32" using unat32_less [of sz] by (simp add: unat_word_ariths mod_if)
  then show ?thesis using unat32_less [of sz] by (simp add: arena_round_def arena_size_mask unat_and_line_mask)
qed

lemma malloc_from_block_fst: "fst (malloc_from_block fp sz h) = fp + 16"
  by (simp add: malloc_from_block_def Let_def)

lemma block_below: "block_ok hd0 b \<Longrightarrow> unat (fst b + 16) = unat (fst b) + 16 \<and> unat (b_size b) < 2 ^ 32 - 31"
  by (auto simp: block_ok_def b_end_def unat_word_ariths)

text \<open>The start heap after a request for 4 bytes.\<close>

lemma start_heap_split:
  obtains h where "heap_inv h [(MALLOC_MEM_START, 32, False), (MALLOC_MEM_START + 32, MALLOC_MEM_SIZE - 32, True)] [MALLOC_MEM_START + 32]" "h_lock h"
proof -
  obtain p h where m: "malloc_from_block MALLOC_MEM_START 32 start_heap = (p, h)" by fastforce
  have wf: "heap_wf start_heap ([] @ (MALLOC_MEM_START, MALLOC_MEM_SIZE, True) # []) ([] @ MALLOC_MEM_START # [])"
    using start_heap_inv by (simp add: heap_inv_def)
  have "heap_wf h [(MALLOC_MEM_START, 32, False), (MALLOC_MEM_START + 32, MALLOC_MEM_SIZE - 32, True)] [MALLOC_MEM_START + 32]" "h_lock h"
    using take_split [OF wf _ _ m] start_heap_lock by (simp_all add: MALLOC_MEM_SIZE_def)
  then show ?thesis using that by (simp add: heap_inv_def coalesced_Cons touching_def)
qed

section \<open>Properties\<close>

lemma start_heap_grants:
  assumes "sz \<noteq> 0" and "arena_round sz \<le> MALLOC_MEM_SIZE"
  shows "\<exists>h. malloc sz start_heap = Some (MALLOC_MEM_START + 16, h)"
proof -
  have wf: "heap_wf start_heap [(MALLOC_MEM_START, MALLOC_MEM_SIZE, True)] [MALLOC_MEM_START]"
    using start_heap_inv by (simp add: heap_inv_def)
  have "h_size start_heap MALLOC_MEM_START = MALLOC_MEM_SIZE" using wf by (simp add: heap_wf_def header_ok_def)
  then have "malloc sz start_heap = Some (malloc_from_block MALLOC_MEM_START (arena_round sz) start_heap)"
    using malloc_search_ok [OF wf, of "arena_round sz"] start_heap_lock assms by (simp add: malloc_def Let_def)
  then show ?thesis using malloc_from_block_fst [of MALLOC_MEM_START "arena_round sz" start_heap] by (metis prod.collapse)
qed

lemma start_heap_malloc: "\<exists>h. malloc 4 start_heap = Some (MALLOC_MEM_START + 16, h)"
proof (rule start_heap_grants)
  have "arena_round 4 = 32" unfolding arena_round_def ARENA_SIZE_MASK_def by code_simp
  then show "arena_round 4 \<le> MALLOC_MEM_SIZE" by (simp add: MALLOC_MEM_SIZE_def)
qed simp





text \<open>C17 \<open>free\<close> gives a block back: the block's bytes become free, no other block in use changes, and the heap keeps
  its invariant, in which neighbouring free blocks are merged.\<close>

theorem free_merges:
  assumes "heap_inv h bs fs" and "h_lock h" and "b \<in> live bs"
  shows "\<exists>bs' fs'. heap_inv (free (fst b + 16) h) bs' fs' \<and> live bs' = live bs - {b}
    \<and> free_area bs' = free_area bs \<union> span b \<and> coalesced bs'"
proof -
  obtain bs' fs' where "heap_inv (free (fst b + 16) h) bs' fs'" "live bs' = live bs - {b}" "free_area bs' = free_area bs \<union> span b"
    by (rule free_ok [OF assms]) (rule that, assumption+)
  then show ?thesis unfolding heap_inv_def by blast
qed

theorem free_merges_witness:
  "\<exists>h bs' fs'. heap_inv (free (MALLOC_MEM_START + 16) h) bs' fs' \<and> live bs' = {}
     \<and> free_area bs' = span (MALLOC_MEM_START + 32, MALLOC_MEM_SIZE - 32) \<union> span (MALLOC_MEM_START, 32)"
proof -
  obtain h where h: "heap_inv h [(MALLOC_MEM_START, 32, False), (MALLOC_MEM_START + 32, MALLOC_MEM_SIZE - 32, True)] [MALLOC_MEM_START + 32]" "h_lock h"
    by (rule start_heap_split)
  show ?thesis using free_merges [OF h, of "(MALLOC_MEM_START, 32)"] by auto
qed

text \<open>C18 \<open>realloc\<close> keeps the contents: with room for the new size it returns an area that holds it, whose leading bytes
  are those of the old area up to the smaller of the two sizes, and the old block is no longer in use unless it is
  the same.\<close>

theorem realloc_keeps_content:
  assumes "heap_rep h L F" and "b \<in> L" and "sz \<noteq> 0" and "unat sz < 2 ^ 32 - 64" and "malloc (arena_round sz) h \<noteq> Some (NULL, h)"
    and "k \<le> unat sz" and "k \<le> unat (snd b) - 16"
  shows "\<exists>c h' m'. realloc (fst b + 16) sz (h, m) = Some (fst c + 16, h', m') \<and> unat sz + 16 \<le> unat (snd c)
    \<and> heap_rep h' (insert c (L - {b})) (F \<union> span b - span c) \<and> bytes_at m' (fst c + 16) k = bytes_at m (fst b + 16) k"
proof (cases "arena_round sz \<le> snd b \<and> drop_bit 2 (snd b) \<le> arena_round sz")
  case True
  have "fst b + 16 \<noteq> 0"
    using heap.payload_in_span(2) [OF assms(1,2), of "(fst b + 16, 0)"] heap.rep_block [OF assms(1,2)] by (simp add: backs_def)
  then have "realloc (fst b + 16) sz (h, m) = Some (fst b + 16, h, m)"
    using True assms(3) heap_rep_size [OF assms(1,2)] by (simp add: realloc_def Let_def)
  moreover have "unat sz + 16 \<le> unat (snd b)"
    using True arena_round_bounds(1) [of sz] assms(4) by (simp add: word_le_nat_alt)
  moreover have "insert b (L - {b}) = L" "F \<union> span b - span b = F" using assms(2) heap.rep_used [OF assms(1,2)] by auto
  ultimately show ?thesis using assms(1) by (metis (no_types, lifting))
qed (rule realloc_moves [OF assms(1-4) _ assms(5-7)])

theorem realloc_keeps_content_witness:
  "\<exists>h c h' m'. heap_rep h {(MALLOC_MEM_START, 32)} (span (MALLOC_MEM_START + 32, MALLOC_MEM_SIZE - 32))
     \<and> realloc (MALLOC_MEM_START + 16) 2000 (h, \<lambda>_. 7) = Some (fst c + 16, h', m') \<and> bytes_at m' (fst c + 16) 3 = [7, 7, 7]"
proof -
  let ?bs = "[(MALLOC_MEM_START, 32, False), (MALLOC_MEM_START + 32, MALLOC_MEM_SIZE - 32, True)]"
  obtain h where h: "heap_inv h ?bs [MALLOC_MEM_START + 32]" "h_lock h" by (rule start_heap_split)
  have r: "arena_round 2000 = 2016" "arena_round 2016 = 2032" unfolding arena_round_def ARENA_SIZE_MASK_def by code_simp+
  have rep: "heap_rep h {(MALLOC_MEM_START, 32)} (span (MALLOC_MEM_START + 32, MALLOC_MEM_SIZE - 32))"
    using heap_repI [OF h(2,1)] by simp
  obtain p h1 where m: "malloc 2016 h = Some (p, h1)" "taken h ?bs 2032 p h1"
    using malloc_ok [OF h, of 2016] by (auto simp: r MALLOC_MEM_SIZE_def)
  obtain c where "p = fst c + 16" "heap_rep h1 (insert c (live ?bs)) (free_area ?bs - span c)" using taken_rep [OF m(2) h(2)] by blast
  then have "p \<noteq> NULL" using heap.payload_in_span(2) [of h1 "insert c (live ?bs)" _ c "(p, 0)"] heap.rep_block [of h1 "insert c (live ?bs)" _ c]
    by (fastforce simp: backs_def)
  then have "malloc (arena_round 2000) h \<noteq> Some (NULL, h)" using m(1) r by simp
  from realloc_keeps_content [OF rep _ _ _ this, where b = "(MALLOC_MEM_START, 32)" and k = 3 and m = "\<lambda>_. 7"]
  obtain c h' m' where "realloc (MALLOC_MEM_START + 16) 2000 (h, \<lambda>_. 7) = Some (fst c + 16, h', m')"
    "bytes_at m' (fst c + 16) 3 = bytes_at (\<lambda>_. 7) (MALLOC_MEM_START + 16) 3" by auto
  then show ?thesis using rep by (auto simp: bytes_at_numeral)
qed

text \<open>Requests within 31 bytes of the largest \<open>size_t\<close> are granted although no block can hold them: adding the header
  wraps around, and \<open>malloc\<close> returns a pointer to the first free block, whose size is smaller than the request.\<close>

lemma malloc_request_wraps:
  assumes "heap_inv h bs fs" and "h_lock h" and "fs \<noteq> []" and "2 ^ 32 - 31 \<le> unat sz"
  shows "\<exists>p h'. malloc sz h = Some (p, h') \<and> p \<noteq> NULL \<and> (\<forall>b \<in> set bs. unat (b_size b) < unat sz)"
proof -
  have wf: "heap_wf h bs fs" using assms(1) by (simp add: heap_inv_def)
  have ok: "\<forall>b \<in> set bs. block_ok (h_head h) b" using heap_wf_dest(3) [OF wf] by (simp add: blocks_ok_def)
  obtain f fs' where fs: "fs = f # fs'" using assms(3) by (cases fs) auto
  obtain us s vs where bs: "bs = us @ (f, s, True) # vs" "h_size h f = s"
    by (rule free_headers [OF wf, of f]) (use fs in auto)
  have "block_ok (h_head h) (f, s, True)" using ok bs by simp
  then have "unat (f + 16) = unat f + 16" "24 \<le> unat s" using block_below [of "h_head h" "(f, s, True)"] by (auto simp: block_ok_def)
  then have "f + 16 \<noteq> NULL" "arena_round sz \<le> h_size h f"
    using arena_round_wraps [OF assms(4)] bs(2) by (auto simp: word_le_nat_alt)
  moreover have "sz \<noteq> 0" using assms(4) by auto
  ultimately have "malloc sz h = Some (malloc_from_block f (arena_round sz) h)"
    using assms(2) malloc_search_ok [OF wf, of "arena_round sz"] fs by (simp add: malloc_def Let_def)
  moreover have "\<forall>b \<in> set bs. unat (b_size b) < unat sz" using ok block_below assms(4) by fastforce
  ultimately show ?thesis using malloc_from_block_fst [of f "arena_round sz" h] \<open>f + 16 \<noteq> NULL\<close>
    by (cases "malloc_from_block f (arena_round sz) h") simp
qed

lemma malloc_request_wraps_witness:
  "\<exists>p h'. malloc 0xFFFFFFF0 start_heap = Some (p, h') \<and> p \<noteq> NULL \<and> unat MALLOC_MEM_SIZE < 0xFFFFFFF0"
  using malloc_request_wraps [OF start_heap_inv start_heap_lock, where sz = "0xFFFFFFF0"] by auto

text \<open>\<open>strndup\<close> of a string that is shorter than \<open>n\<close> writes a null byte \<open>n\<close> bytes behind the start of the copy, outside
  the area of the string's length and terminator that it has requested for it.\<close>

lemma strndup_overruns:
  assumes "cstr m s xs" and "length xs < unat n" and "malloc (of_nat (length xs) + 1) h = Some (d, h')" and "d \<noteq> NULL"
  shows "\<exists>m'. strndup s n (h, m) = Some (d, h', m') \<and> m' (d + n) = 0 \<and> d + n \<notin> region d (length xs + 1)"
proof -
  have "unat (of_nat (length xs) :: uint) = length xs" using assms(2) unat32_less [of n] by (simp add: unat_of_nat)
  then have "(of_nat (length xs) :: uint) < n" using assms(2) by (simp add: word_less_nat_alt)
  moreover have "d + n \<notin> region d (length xs + 1)"
    using region_eq_uint [of "length xs + 1" "d + n" d] assms(2) unat32_less [of n] by simp
  ultimately show ?thesis using assms(3,4) strlen_ok [OF assms(1)] by (simp add: strndup_def Let_def)
qed

lemma strndup_overruns_witness:
  "\<exists>h'. \<exists>m'. strndup 0x100 9 (start_heap, (\<lambda>_. 0)(0x100 := 65, 0x101 := 66, 0x102 := 67))
     = Some (MALLOC_MEM_START + 16, h', m') \<and> m' (MALLOC_MEM_START + 16 + 9) = 0"
proof -
  obtain h' where "malloc 4 start_heap = Some (MALLOC_MEM_START + 16, h')" using start_heap_malloc by blast
  then show ?thesis
    using strndup_overruns [of "(\<lambda>_. 0)(0x100 := 65, 0x101 := 66, 0x102 := 67)" "0x100" "[65, 66, 67]" 9 start_heap "MALLOC_MEM_START + 16" h']
    by (simp add: MALLOC_MEM_START_def) blast
qed

end
