(* ===== verification/Stdio.thy ===== *)
theory Stdio
  imports Uart Str_Ops
begin

text \<open>
  Streams (\<open>sw/sys-libs/libc/include/stdio.h\<close>, \<open>fgets.c\<close>, \<open>memfile.c\<close>) and the two kinds of files that the sources
  define: memory files, and the UART behind \<open>stdin\<close>, \<open>stdout\<close> and \<open>stderr\<close>.

  A \<open>FILE\<close> has the two methods of \<open>struct File_methods\<close> (a null method pointer is \<open>None\<close>), and says how the state \<open>'w\<close>
  of the machine contains the memory and where the one-character local variable of \<open>fputc\<close> and \<open>fgetc\<close> is on the
  stack: the methods get the address of that variable.  A method that waits forever gives \<open>None\<close>.
\<close>

section \<open>Definitions\<close>

record 'w FILE =
  f_write :: "(addr \<Rightarrow> uint \<Rightarrow> 'w \<Rightarrow> (uint \<times> 'w) option) option"
  f_read :: "(addr \<Rightarrow> uint \<Rightarrow> 'w \<Rightarrow> (uint \<times> 'w) option) option"
  f_mem :: "'w \<Rightarrow> mem"
  f_set :: "mem \<Rightarrow> 'w \<Rightarrow> 'w"
  f_slot :: addr

definition EOF :: int where "EOF = -1"

definition fread :: "'w FILE \<Rightarrow> addr \<Rightarrow> uint \<Rightarrow> uint \<Rightarrow> 'w \<Rightarrow> (uint \<times> 'w) option" where
  "fread f buf sz nmemb w =
     (case f_read f of None \<Rightarrow> Some (0, w)
      | Some rd \<Rightarrow> do { (n, w) \<leftarrow> rd buf (sz * nmemb) w; Some (n div sz, w) })"

definition fwrite :: "'w FILE \<Rightarrow> addr \<Rightarrow> uint \<Rightarrow> uint \<Rightarrow> 'w \<Rightarrow> (uint \<times> 'w) option" where
  "fwrite f buf sz nmemb w =
     (case f_write f of None \<Rightarrow> Some (0, w)
      | Some wr \<Rightarrow> do { (n, w) \<leftarrow> wr buf (sz * nmemb) w; Some (n div sz, w) })"

definition fputs :: "'w FILE \<Rightarrow> addr \<Rightarrow> 'w \<Rightarrow> (uint \<times> 'w) option" where
  "fputs f s w = do { n \<leftarrow> strlen (f_mem f w) s; fwrite f s 1 n w }"

text \<open>\<open>nl\<close> is the address of the string literal with the newline; the operands of \<open>+\<close> are evaluated from left to right.\<close>

definition puts :: "'w FILE \<Rightarrow> addr \<Rightarrow> addr \<Rightarrow> 'w \<Rightarrow> (uint \<times> 'w) option" where
  "puts f nl s w = do { (a, w) \<leftarrow> fputs f s w; (b, w) \<leftarrow> fwrite f nl 1 1 w; Some (a + b, w) }"

definition fputc :: "'w FILE \<Rightarrow> byte \<Rightarrow> 'w \<Rightarrow> (int \<times> 'w) option" where
  "fputc f c w =
     (let w = f_set f ((f_mem f w)(f_slot f := c)) w in
      do { (n, w) \<leftarrow> fwrite f (f_slot f) 1 1 w; Some (if n = 1 then uint c else EOF, w) })"

definition fgetc :: "'w FILE \<Rightarrow> 'w \<Rightarrow> (int \<times> 'w) option" where
  "fgetc f w =
     do { (n, w) \<leftarrow> fread f (f_slot f) 1 1 w; Some (if n = 1 then uint (f_mem f w (f_slot f)) else EOF, w) }"

definition put_mem :: "'w FILE \<Rightarrow> addr \<Rightarrow> byte \<Rightarrow> 'w \<Rightarrow> 'w" where
  "put_mem f p c w = f_set f ((f_mem f w)(p := c)) w"

function fgets_loop :: "'w FILE \<Rightarrow> addr \<Rightarrow> int \<Rightarrow> 'w \<Rightarrow> (bool \<times> addr \<times> int \<times> 'w) option" where
  "fgets_loop f p n w =
     (if n > 1 then
        case fgetc f w of None \<Rightarrow> None
        | Some (c, w) \<Rightarrow>
            if c = EOF then Some (True, p, n, put_mem f p 0 w)
            else
              let w = put_mem f p (word_of_int c) w in
              if c = chi (CHR 0x0A) then Some (False, p + 1, n - 1, w)
              else fgets_loop f (p + 1) (n - 1) w
      else Some (False, p, n, w))"
  by pat_completeness auto
termination
  by (relation "measure (\<lambda>(f, p, n, w). nat n)") auto

definition fgets :: "'w FILE \<Rightarrow> addr \<Rightarrow> int \<Rightarrow> 'w \<Rightarrow> (addr \<times> 'w) option" where
  "fgets f s n w =
     do { (e, p, n, w) \<leftarrow> fgets_loop f s n w;
          Some (if e then (NULL, w) else (s, if n \<noteq> 0 then put_mem f p 0 w else w)) }"

subsection \<open>Memory files\<close>

record memfile =
  mf_buffer :: addr
  mf_bytes_written :: uint
  mf_size :: uint

function memfile_loop :: "addr \<Rightarrow> uint \<Rightarrow> uint \<Rightarrow> memfile \<times> mem \<Rightarrow> uint \<times> memfile \<times> mem" where
  "memfile_loop bp n i (f, m) =
     (if n \<noteq> 0 then
        let f = f\<lparr>mf_bytes_written := mf_bytes_written f + 1\<rparr> in
        if mf_bytes_written f \<le> mf_size f then
          memfile_loop (bp + 1) (n - 1) (i + 1) (f\<lparr>mf_buffer := mf_buffer f + 1\<rparr>, m(mf_buffer f := m bp))
        else memfile_loop bp (n - 1) i (f, m)
      else (i, f, m))"
  by pat_completeness auto
termination
  by (relation "measure (\<lambda>(bp, n, i, fm). unat n)") (auto simp: unat_pred_less)

declare fgets_loop.simps [simp del] memfile_loop.simps [simp del]

definition memfile_write :: "addr \<Rightarrow> uint \<Rightarrow> memfile \<times> mem \<Rightarrow> (uint \<times> memfile \<times> mem) option" where
  "memfile_write bp n fm = Some (memfile_loop bp n 0 fm)"

definition MemFile_methods :: "addr \<Rightarrow> (memfile \<times> mem) FILE" where
  "MemFile_methods stack = \<lparr>f_write = Some memfile_write, f_read = None, f_mem = snd, f_set = (\<lambda>m (f, _). (f, m)), f_slot = stack\<rparr>"

definition fmemopen_w :: "addr \<Rightarrow> uint \<Rightarrow> memfile" where
  "fmemopen_w buffer sz = \<lparr>mf_buffer = buffer, mf_bytes_written = 0, mf_size = sz\<rparr>"

subsection \<open>The UART's file\<close>

text \<open>The state is a ring with the memory, and the interrupts that come while a call waits.\<close>

definition uart0_file :: "addr \<Rightarrow> (ring \<times> (ring \<Rightarrow> ring) list) FILE" where
  "uart0_file stack =
     \<lparr>f_write = Some (\<lambda>buf len (r, ivs). uart0_blocking_write_multiple r buf len 0 ivs),
      f_read = Some (\<lambda>buf len (r, ivs). uart0_blocking_read_multiple r buf len 0 ivs),
      f_mem = (\<lambda>(r, ivs). snd r), f_set = (\<lambda>m (r, ivs). ((fst r, m), ivs)), f_slot = stack\<rparr>"

section \<open>The contract of an output stream\<close>

text \<open>
  What formatted output relies on: putting a character appends it to what the stream has received, and changes no
  memory outside the stream's own addresses.  \<open>sink xs w\<close> says that the stream has received \<open>xs\<close>; up to \<open>cap\<close> characters
  can be put.  The result of \<open>fputc\<close> is not part of the contract: a full memory file reports \<open>EOF\<close>.
\<close>

locale byte_sink =
  fixes f :: "'w FILE"
    and sink :: "byte list \<Rightarrow> 'w \<Rightarrow> bool"
    and own :: "addr set"
    and cap :: nat
  assumes put: "sink xs w \<Longrightarrow> length xs < cap \<Longrightarrow>
    \<exists>r w'. fputc f c w = Some (r, w') \<and> sink (xs @ [c]) w' \<and> (\<forall>a. a \<notin> own \<longrightarrow> f_mem f w' a = f_mem f w a)"

subsection \<open>Memory files\<close>

lemma bytes_at_snoc: "bytes_at m p (Suc n) = bytes_at m p n @ [m (p + of_nat n)]"
  using bytes_at_append [of m p n 1] by simp

definition mf_sink :: "addr \<Rightarrow> addr \<Rightarrow> uint \<Rightarrow> nat \<Rightarrow> byte list \<Rightarrow> memfile \<times> mem \<Rightarrow> bool" where
  "mf_sink stack str sz n xs w \<longleftrightarrow> (case w of (g, m) \<Rightarrow>
     n < 2 ^ 32 \<and> length xs \<le> n \<and> stack \<notin> region str (min n (unat sz)) \<and> mf_size g = sz
     \<and> mf_bytes_written g = of_nat (length xs) \<and> mf_buffer g = str + of_nat (min (length xs) (unat sz))
     \<and> bytes_at m str (min (length xs) (unat sz)) = take (unat sz) xs)"

lemma mf_sink_start: "n < 2 ^ 32 \<Longrightarrow> stack \<notin> region str (min n (unat sz)) \<Longrightarrow> mf_sink stack str sz n [] (fmemopen_w str sz, m)"
  by (simp add: mf_sink_def fmemopen_w_def)

lemma memfile_fputc:
  "fputc (MemFile_methods stack) c (g, m) = Some (
     let m1 = m(stack := c); g1 = g\<lparr>mf_bytes_written := mf_bytes_written g + 1\<rparr> in
     if mf_bytes_written g + 1 \<le> mf_size g
     then (uint c, g1\<lparr>mf_buffer := mf_buffer g + 1\<rparr>, m1(mf_buffer g := c)) else (EOF, g1, m1))"
  by (simp add: fputc_def fwrite_def MemFile_methods_def memfile_write_def memfile_loop.simps Let_def)

lemma memfile_put:
  assumes "mf_sink stack str sz n xs w" and "length xs < n"
  shows "\<exists>r w'. fputc (MemFile_methods stack) c w = Some (r, w') \<and> mf_sink stack str sz n (xs @ [c]) w'
    \<and> (\<forall>a. a \<notin> insert stack (region str (min n (unat sz))) \<longrightarrow> snd w' a = snd w a)"
proof (cases w)
  case (Pair g m)
  have s: "n < 2 ^ 32" "stack \<notin> region str (min n (unat sz))" "mf_size g = sz" "mf_bytes_written g = of_nat (length xs)"
    "mf_buffer g = str + of_nat (min (length xs) (unat sz))" "bytes_at m str (min (length xs) (unat sz)) = take (unat sz) xs"
    using assms Pair by (auto simp: mf_sink_def)
  have bw: "unat (mf_bytes_written g + 1) = Suc (length xs)" using s(1,4) assms(2) by (simp add: unat_word_ariths unat_of_nat)
  have st: "stack \<notin> region str (min (length xs) (unat sz))" 
  proof -
    have "region str (min (length xs) (unat sz)) \<subseteq> region str (min n (unat sz))" using assms(2) by (intro region_mono) auto
    then show ?thesis using s(2) by blast
  qed
  show ?thesis
  proof (cases "Suc (length xs) \<le> unat sz")
    case True
    have "str + of_nat (length xs) \<notin> region str (length xs)" using s(1) assms(2) by (intro offset_notin_region) auto
    then have "bytes_at (m(stack := c, str + of_nat (length xs) := c)) str (length xs) = xs"
      using st s(6) True by (simp add: bytes_at_upd_other)
    then have b: "bytes_at (m(stack := c, str + of_nat (length xs) := c)) str (Suc (length xs)) = xs @ [c]"
      unfolding bytes_at_snoc by simp
    have l: "min (length xs) (unat sz) = length xs" "min (length (xs @ [c])) (unat sz) = Suc (length xs)" "take (unat sz) (xs @ [c]) = xs @ [c]"
      using True by auto
    have "mf_sink stack str sz n (xs @ [c]) (g\<lparr>mf_bytes_written := mf_bytes_written g + 1, mf_buffer := mf_buffer g + 1\<rparr>,
        m(stack := c, str + of_nat (length xs) := c))"
    proof -
      have "mf_bytes_written g + 1 = of_nat (length (xs @ [c]))" using s(4) by (simp add: add.commute)
      moreover have "mf_buffer g + 1 = str + of_nat (Suc (length xs))" unfolding s(5) l(1) by (simp add: add.commute add.left_commute)
      ultimately show ?thesis unfolding mf_sink_def prod.case l b using s(1-3) assms(2) by simp
    qed
    moreover have "str + of_nat (length xs) \<in> region str (min n (unat sz))" using True assms(2) by (auto simp: region_def)
    moreover have "fputc (MemFile_methods stack) c w = Some (uint c, g\<lparr>mf_bytes_written := mf_bytes_written g + 1, mf_buffer := mf_buffer g + 1\<rparr>,
        m(stack := c, str + of_nat (length xs) := c))"
      using True bw s(3,5) Pair by (simp add: memfile_fputc word_le_nat_alt)
    ultimately show ?thesis using Pair by auto
  next
    case False
    then have "fputc (MemFile_methods stack) c w = Some (EOF, g\<lparr>mf_bytes_written := mf_bytes_written g + 1\<rparr>, m(stack := c))"
      using bw s(3) Pair by (simp add: memfile_fputc word_le_nat_alt)
    moreover have "min (length xs) (unat sz) = unat sz" "min (length (xs @ [c])) (unat sz) = unat sz" using False by auto
    ultimately show ?thesis
      using s st assms(2) Pair False unfolding mf_sink_def by (simp add: bytes_at_upd_other)
  qed
qed

interpretation memfile: byte_sink "MemFile_methods stack" "mf_sink stack str sz n" "insert stack (region str (min n (unat sz)))" n
  for stack str sz n
proof
  show "\<exists>r w'. fputc (MemFile_methods stack) c w = Some (r, w') \<and> mf_sink stack str sz n (xs @ [c]) w'
      \<and> (\<forall>a. a \<notin> insert stack (region str (min n (unat sz))) \<longrightarrow> f_mem (MemFile_methods stack) w' a = f_mem (MemFile_methods stack) w a)"
    if "mf_sink stack str sz n xs w" "length xs < n" for xs w c
    using memfile_put [OF that] by (simp add: MemFile_methods_def)
qed

subsection \<open>The UART\<close>

text \<open>The transmit ring \<open>cp0\<close> with content \<open>c0\<close> has received \<open>xs\<close>; interrupts have drained some of it; \<open>A\<close> is memory that
  neither the ring nor the interrupt handler uses.\<close>

definition tx_sink :: "addr \<Rightarrow> consprod \<Rightarrow> byte list \<Rightarrow> addr set \<Rightarrow> nat \<Rightarrow> byte list \<Rightarrow> ring \<times> (ring \<Rightarrow> ring) list \<Rightarrow> bool" where
  "tx_sink stack cp0 c0 A n xs w \<longleftrightarrow> (case w of ((cp, m), ivs) \<Rightarrow>
     cp_inv cp \<and> same_ring cp0 cp \<and> 3 \<le> ring_size cp0 \<and> (\<forall>f \<in> set ivs. drainer cp0 A f) \<and> stack \<in> A \<and> (\<forall>a \<in> A. \<not> in_ring cp0 a)
     \<and> n \<le> length xs + length ivs + room cp \<and> (\<exists>k. content cp m = drop k (c0 @ xs)))"

lemma uart_fputc:
  assumes "consprod_produce cp (m(stack := c)) stack 1 1 ivs = Some (r, (cp', m'), ivs')"
  shows "fputc (uart0_file stack) c ((cp, m), ivs) = Some (uint c, (cp', m'), ivs')"
proof -
  have "min255 1 = 1" by (simp add: min255_def word_le_nat_alt)
  then have "uart0_blocking_write_multiple (cp, m(stack := c)) stack 1 0 ivs = Some (1, (cp', m'), ivs')"
    using assms uart0_blocking_write_multiple.simps [where w = 0] uart0_blocking_write_multiple.simps [where w = 1]
    by (simp add: uart0_stream_write_def Let_def)
  then show ?thesis by (simp add: fputc_def fwrite_def uart0_file_def Let_def)
qed

lemma drainer_ring: "drainer cp0 A f \<Longrightarrow> same_ring cp0 cp \<Longrightarrow> drainer cp A f"
  by (auto simp: drainer_def same_ring_def)

lemma uart_put:
  assumes "tx_sink stack cp0 c0 A n xs w" and "length xs < n"
  shows "\<exists>r w'. fputc (uart0_file stack) c w = Some (r, w') \<and> tx_sink stack cp0 c0 A n (xs @ [c]) w'
    \<and> (\<forall>a. a \<in> A - {stack} \<longrightarrow> snd (fst w') a = snd (fst w) a)"
proof -
  obtain cp m ivs where w: "w = ((cp, m), ivs)" by (metis surj_pair)
  have s: "cp_inv cp" "same_ring cp0 cp" "3 \<le> ring_size cp0" "\<forall>f \<in> set ivs. drainer cp0 A f" "stack \<in> A" "\<forall>a \<in> A. \<not> in_ring cp0 a"
    "n \<le> length xs + length ivs + room cp" using assms w by (auto simp: tx_sink_def)
  obtain k0 where k0: "content cp m = drop k0 (c0 @ xs)" using assms w by (auto simp: tx_sink_def)
  have ring: "in_ring cp = in_ring cp0" "ring_size cp = ring_size cp0" using same_ring_in_ring [OF s(2)] same_ring_size [OF s(2)] by auto
  have "content cp (m(stack := c)) = content cp m" using s ring by (intro content_store_outside) auto
  moreover have slot: "region stack (unat (1::uint)) \<subseteq> A" using s(5) by (auto simp: region_def)
  moreover obtain r cp' m' ivs' k where
    p: "consprod_produce cp (m(stack := c)) stack 1 1 ivs = Some (r, (cp', m'), ivs')" "cp_inv cp'" "same_ring cp cp'"
      "content cp' m' = drop k (content cp (m(stack := c)) @ bytes_at (m(stack := c)) stack 1)" "set ivs' \<subseteq> set ivs"
      "length ivs + room cp \<le> length ivs' + room cp' + 1" "\<forall>a \<in> A. m' a = (m(stack := c)) a"
    using produce_wait_ok [where ivs = ivs and A = A and len = 1 and cp = cp and buf = stack and m = "m(stack := c)"]
      s ring drainer_ring [OF _ s(2)] assms(2) slot by auto
  moreover have "bytes_at (m(stack := c)) stack 1 = [c]" by simp
  ultimately have "content cp' m' = drop k (drop (min k0 (length (c0 @ xs))) ((c0 @ xs) @ [c]))"
    by (simp only: k0 drop_append_min)
  then have "\<exists>k. content cp' m' = drop k (c0 @ xs @ [c])" unfolding drop_drop by (auto simp del: drop_append)
  moreover have "same_ring cp0 cp'" using s(2) p(3) by (simp add: same_ring_def)
  ultimately have "tx_sink stack cp0 c0 A n (xs @ [c]) ((cp', m'), ivs')"
    using s p by (auto simp: tx_sink_def)
  then show ?thesis using uart_fputc [OF p(1)] p(7) w by auto
qed

interpretation uart: byte_sink "uart0_file stack" "tx_sink stack cp0 c0 A n" "- A \<union> {stack}" n for stack cp0 c0 A n
proof
  show "\<exists>r w'. fputc (uart0_file stack) c w = Some (r, w') \<and> tx_sink stack cp0 c0 A n (xs @ [c]) w'
      \<and> (\<forall>a. a \<notin> - A \<union> {stack} \<longrightarrow> f_mem (uart0_file stack) w' a = f_mem (uart0_file stack) w a)"
    if "tx_sink stack cp0 c0 A n xs w" "length xs < n" for xs w c
    using uart_put [OF that, of c] by (auto simp: uart0_file_def split: prod.splits)
qed

end
