(* ===== verification/Printf.thy ===== *)
theory Printf
  imports Stdio Str_Num Malloc
begin

text \<open>
  Formatted output (\<open>sw/sys-libs/libc/tinyprintf.c\<close>, \<open>sprintf.c\<close>, \<open>vsprintf.c\<close>, \<open>vprintf.c\<close>, \<open>asprintf.c\<close>,
  \<open>vasprintf.c\<close>).  \<open>PRINTF_LONG_SUPPORT\<close> is not defined by the build.

  A \<open>va_list\<close> is the list of 32-bit argument words; taking an argument that is not there is \<open>None\<close>.  The pointer
  \<open>bf\<close> of \<open>struct param\<close> points into the local buffer of \<open>tfp_format\<close> or, for \<open>%s\<close>, to a string in memory.
\<close>

section \<open>Definitions\<close>

datatype text_ptr = Local "byte list" | Mem addr

text \<open>\<open>*bf++\<close>: the character and the next position; the local buffer's characters are followed by a null byte.\<close>

fun fetch :: "mem \<Rightarrow> text_ptr \<Rightarrow> byte \<times> text_ptr" where
  "fetch m (Local []) = (0, Local [])"
| "fetch m (Local (x # xs)) = (x, Local xs)"
| "fetch m (Mem a) = (m a, Mem (a + 1))"

record param =
  p_width :: int
  p_lz :: bool
  p_sign :: byte
  p_alt :: bool
  p_base :: byte
  p_uc :: bool
  p_bf :: text_ptr

partial_function (option) ui2a_scale :: "uint \<Rightarrow> uint \<Rightarrow> uint \<Rightarrow> uint option" where
  "ui2a_scale num base d = (if num div d \<ge> base then ui2a_scale num base (d * base) else Some d)"

definition digit_text :: "bool \<Rightarrow> uint \<Rightarrow> byte" where
  "digit_text uc dgt = ucast (dgt + (if sint dgt < 10 then of_char (CHR ''0'') else (if uc then of_char (CHR ''A'') else of_char (CHR ''a'')) - 10))"

partial_function (option) ui2a_digits :: "bool \<Rightarrow> uint \<Rightarrow> uint \<Rightarrow> uint \<Rightarrow> byte list \<Rightarrow> byte list option" where
  "ui2a_digits uc base num d bf =
     (if d \<noteq> 0 then
        let dgt = num div d; num = num mod d; d = d div base in
        ui2a_digits uc base num d (if bf \<noteq> [] \<or> sint dgt > 0 \<or> d = 0 then bf @ [digit_text uc dgt] else bf)
      else Some bf)"

definition ui2a :: "uint \<Rightarrow> param \<Rightarrow> param option" where
  "ui2a num p = do {
     d \<leftarrow> ui2a_scale num (ucast (p_base p)) 1;
     bf \<leftarrow> ui2a_digits (p_uc p) (ucast (p_base p)) num d [];
     Some (p\<lparr>p_bf := Local bf\<rparr>) }"

definition i2a :: "uint \<Rightarrow> param \<Rightarrow> param option" where
  "i2a num p = (if sint num < 0 then ui2a (- num) (p\<lparr>p_sign := ch (CHR ''-'')\<rparr>) else ui2a num p)"

definition a2d :: "byte \<Rightarrow> int" where
  "a2d c =
     (if c \<ge> ch (CHR ''0'') \<and> c \<le> ch (CHR ''9'') then uint c - chi (CHR ''0'')
      else if c \<ge> ch (CHR ''a'') \<and> c \<le> ch (CHR ''f'') then uint c - chi (CHR ''a'') + 10
      else if c \<ge> ch (CHR ''A'') \<and> c \<le> ch (CHR ''F'') then uint c - chi (CHR ''A'') + 10
      else -1)"

partial_function (option) a2i_loop :: "mem \<Rightarrow> int \<Rightarrow> byte \<Rightarrow> addr \<Rightarrow> int \<Rightarrow> (byte \<times> addr \<times> int) option" where
  "a2i_loop m base c p num =
     (let digit = a2d c in
      if digit \<ge> 0 then
        if digit > base then Some (c, p, num)
        else a2i_loop m base (m p) (p + 1) (i32 (num * base + digit))
      else Some (c, p, num))"

definition a2i :: "mem \<Rightarrow> byte \<Rightarrow> addr \<Rightarrow> int \<Rightarrow> (byte \<times> addr \<times> int) option" where
  "a2i m c src base = a2i_loop m base c src 0"

definition putf :: "'w FILE \<Rightarrow> byte \<Rightarrow> 'w \<Rightarrow> (uint \<times> 'w) option" where
  "putf f c w = do { (r, w) \<leftarrow> fputc f c w; Some (if r = EOF then 0 else 1, w) }"

text \<open>The loops of \<open>putchw\<close>: the filling count, the filling, and the text.\<close>

function fill_count :: "mem \<Rightarrow> text_ptr \<Rightarrow> int \<Rightarrow> int" where
  "fill_count m bf n = (case fetch m bf of (c, bf') \<Rightarrow> if c \<noteq> 0 \<and> n > 0 then fill_count m bf' (n - 1) else n)"
  by pat_completeness auto
termination
  by (relation "measure (\<lambda>(m, bf, n). nat n)") auto

function fill_loop :: "'w FILE \<Rightarrow> byte \<Rightarrow> int \<Rightarrow> uint \<Rightarrow> 'w \<Rightarrow> (uint \<times> 'w) option" where
  "fill_loop f c n k w =
     (if n > 0 then (case putf f c w of None \<Rightarrow> None | Some (j, w) \<Rightarrow> fill_loop f c (n - 1) (k + j) w)
      else Some (k, w))"
  by pat_completeness auto
termination
  by (relation "measure (\<lambda>(f, c, n, k, w). nat n)") auto

partial_function (option) text_loop :: "'w FILE \<Rightarrow> text_ptr \<Rightarrow> uint \<Rightarrow> 'w \<Rightarrow> (uint \<times> 'w) option" where
  "text_loop f bf k w =
     (let (c, bf) = fetch (f_mem f w) bf in
      if c \<noteq> 0 then do { (j, w) \<leftarrow> putf f c w; text_loop f bf (k + j) w } else Some (k, w))"

definition putchw :: "'w FILE \<Rightarrow> param \<Rightarrow> 'w \<Rightarrow> (uint \<times> 'w) option" where
  "putchw f p w =
     (let n = fill_count (f_mem f w) (p_bf p) (p_width p);
          n = (if p_sign p \<noteq> 0 then i32 (n - 1) else n);
          n = (if p_alt p \<and> p_base p = 16 then i32 (n - 2) else if p_alt p \<and> p_base p = 8 then i32 (n - 1) else n)
      in do {
        (k, w) \<leftarrow> (if \<not> p_lz p then fill_loop f (ch (CHR '' '')) n 0 w else Some (0, w));
        (k, w) \<leftarrow> (if p_sign p \<noteq> 0 then do { (j, w) \<leftarrow> putf f (p_sign p) w; Some (k + j, w) } else Some (k, w));
        (k, w) \<leftarrow>
          (if p_alt p \<and> p_base p = 16 then do {
             (i, w) \<leftarrow> putf f (ch (CHR ''0'')) w;
             (j, w) \<leftarrow> putf f (if p_uc p then ch (CHR ''X'') else ch (CHR ''x'')) w;
             Some (k + i + j, w) }
           else if p_alt p \<and> p_base p = 8 then do { (j, w) \<leftarrow> putf f (ch (CHR ''0'')) w; Some (k + j, w) }
           else Some (k, w));
        (k, w) \<leftarrow> (if p_lz p then fill_loop f (ch (CHR ''0'')) n k w else Some (k, w));
        text_loop f (p_bf p) k w })"

definition va_arg :: "uint list \<Rightarrow> (uint \<times> uint list) option" where
  "va_arg va = (case va of [] \<Rightarrow> None | x # va \<Rightarrow> Some (x, va))"

partial_function (option) flags_loop :: "mem \<Rightarrow> addr \<Rightarrow> param \<Rightarrow> (byte \<times> addr \<times> param) option" where
  "flags_loop m fmt p =
     (let c = m fmt in
      if c = ch (CHR ''0'') then flags_loop m (fmt + 1) (p\<lparr>p_lz := True\<rparr>)
      else if c = ch (CHR ''#'') then flags_loop m (fmt + 1) (p\<lparr>p_alt := True\<rparr>)
      else Some (c, fmt + 1, p))"

text \<open>The switch on the conversion character.  A null byte, which ends the format, is handled by the caller.\<close>

definition conversion :: "'w FILE \<Rightarrow> byte \<Rightarrow> uint list \<Rightarrow> param \<Rightarrow> 'w \<Rightarrow> (uint \<times> uint list \<times> param \<times> 'w) option" where
  "conversion f c va p w =
     (if c = ch (CHR ''u'') then do {
        (x, va) \<leftarrow> va_arg va; p \<leftarrow> ui2a x (p\<lparr>p_base := 10\<rparr>); (k, w) \<leftarrow> putchw f p w; Some (k, va, p, w) }
      else if c = ch (CHR ''d'') \<or> c = ch (CHR ''i'') then do {
        (x, va) \<leftarrow> va_arg va; p \<leftarrow> i2a x (p\<lparr>p_base := 10\<rparr>); (k, w) \<leftarrow> putchw f p w; Some (k, va, p, w) }
      else if c = ch (CHR ''x'') \<or> c = ch (CHR ''X'') then do {
        (x, va) \<leftarrow> va_arg va; p \<leftarrow> ui2a x (p\<lparr>p_base := 16, p_uc := (c = ch (CHR ''X''))\<rparr>); (k, w) \<leftarrow> putchw f p w; Some (k, va, p, w) }
      else if c = ch (CHR ''o'') then do {
        (x, va) \<leftarrow> va_arg va; p \<leftarrow> ui2a x (p\<lparr>p_base := 8\<rparr>); (k, w) \<leftarrow> putchw f p w; Some (k, va, p, w) }
      else if c = ch (CHR ''c'') then do {
        (x, va) \<leftarrow> va_arg va; (k, w) \<leftarrow> putf f (ucast x) w; Some (k, va, p, w) }
      else if c = ch (CHR ''s'') then do {
        (x, va) \<leftarrow> va_arg va; (k, w) \<leftarrow> putchw f (p\<lparr>p_bf := Mem x\<rparr>) w; Some (k, va, p, w) }
      else if c = ch (CHR ''%'') then do { (k, w) \<leftarrow> putf f c w; Some (k, va, p, w) }
      else Some (0, va, p, w))"

definition directive :: "mem \<Rightarrow> addr \<Rightarrow> param \<Rightarrow> (byte \<times> addr \<times> param) option" where
  "directive m fmt p = do {
     (c, fmt, p) \<leftarrow> flags_loop m fmt (p\<lparr>p_lz := False, p_alt := False, p_width := 0, p_sign := 0\<rparr>);
     (c, fmt, p) \<leftarrow>
       (if c \<ge> ch (CHR ''0'') \<and> c \<le> ch (CHR ''9'') then do { (c, fmt, n) \<leftarrow> a2i m c fmt 10; Some (c, fmt, p\<lparr>p_width := n\<rparr>) }
        else Some (c, fmt, p));
     Some (if c = ch (CHR ''l'') then (m fmt, fmt + 1, p) else (c, fmt, p)) }"

partial_function (option) format_loop ::
  "'w FILE \<Rightarrow> addr \<Rightarrow> uint list \<Rightarrow> param \<Rightarrow> uint \<Rightarrow> 'w \<Rightarrow> (uint \<times> 'w) option" where
  "format_loop f fmt va p written w =
     (let c = f_mem f w fmt; fmt = fmt + 1 in
      if c = 0 then Some (written, w)
      else if c \<noteq> ch (CHR ''%'') then do {
        (k, w) \<leftarrow> putf f c w;
        format_loop f fmt va p (written + k) w }
      else do {
        (c, fmt, p) \<leftarrow> directive (f_mem f w) fmt p;
        if c = 0 then Some (written, w)
        else do {
          (k, va, p, w) \<leftarrow> conversion f c va p w;
          format_loop f fmt va p (written + k) w } })"

text \<open>The parameter structure is a local variable that starts uninitialised: \<open>p\<close> is whatever it holds.\<close>

definition tfp_format :: "'w FILE \<Rightarrow> param \<Rightarrow> addr \<Rightarrow> uint list \<Rightarrow> 'w \<Rightarrow> (uint \<times> 'w) option" where
  "tfp_format f p fmt va w = format_loop f fmt va (p\<lparr>p_bf := Local []\<rparr>) 0 w"

definition vfprintf :: "'w FILE \<Rightarrow> param \<Rightarrow> addr \<Rightarrow> uint list \<Rightarrow> 'w \<Rightarrow> (int \<times> 'w) option" where
  "vfprintf f p fmt va w = do { (k, w) \<leftarrow> tfp_format f p fmt va w; Some (sint k, w) }"

definition fprintf :: "'w FILE \<Rightarrow> param \<Rightarrow> addr \<Rightarrow> uint list \<Rightarrow> 'w \<Rightarrow> (int \<times> 'w) option" where
  "fprintf f p fmt va w = vfprintf f p fmt va w"

definition printf :: "addr \<Rightarrow> param \<Rightarrow> addr \<Rightarrow> uint list \<Rightarrow> ring \<times> (ring \<Rightarrow> ring) list \<Rightarrow> (int \<times> ring \<times> (ring \<Rightarrow> ring) list) option" where
  "printf stack p fmt va w = vfprintf (uart0_file stack) p fmt va w"

definition vprintf :: "addr \<Rightarrow> param \<Rightarrow> addr \<Rightarrow> uint list \<Rightarrow> ring \<times> (ring \<Rightarrow> ring) list \<Rightarrow> (int \<times> ring \<times> (ring \<Rightarrow> ring) list) option" where
  "vprintf stack p fmt va w = vfprintf (uart0_file stack) p fmt va w"

text \<open>The state of the memory file is a local variable too; \<open>stack\<close> is the address of the character below it.\<close>

definition vsnprintf :: "addr \<Rightarrow> param \<Rightarrow> addr \<Rightarrow> uint \<Rightarrow> addr \<Rightarrow> uint list \<Rightarrow> mem \<Rightarrow> (int \<times> mem) option" where
  "vsnprintf stack p str sz fmt va m = do {
     (_, state, m) \<leftarrow> tfp_format (MemFile_methods stack) p fmt va (fmemopen_w str (sz - 1), m);
     Some (sint (mf_bytes_written state), m(mf_buffer state := 0)) }"

definition snprintf :: "addr \<Rightarrow> param \<Rightarrow> addr \<Rightarrow> uint \<Rightarrow> addr \<Rightarrow> uint list \<Rightarrow> mem \<Rightarrow> (int \<times> mem) option" where
  "snprintf stack p str sz fmt va m = vsnprintf stack p str sz fmt va m"

definition PTRDIFF_MAX :: uint where "PTRDIFF_MAX = 0x7fffffff"

definition vsprintf :: "addr \<Rightarrow> param \<Rightarrow> addr \<Rightarrow> addr \<Rightarrow> uint list \<Rightarrow> mem \<Rightarrow> (int \<times> mem) option" where
  "vsprintf stack p buffer fmt va m = vsnprintf stack p buffer PTRDIFF_MAX fmt va m"

definition sprintf :: "addr \<Rightarrow> param \<Rightarrow> addr \<Rightarrow> addr \<Rightarrow> uint list \<Rightarrow> mem \<Rightarrow> (int \<times> mem) option" where
  "sprintf stack p buffer fmt va m = vsnprintf stack p buffer PTRDIFF_MAX fmt va m"

text \<open>The pointer \<open>*bufp\<close> is part of the result.\<close>

definition vasprintf :: "addr \<Rightarrow> param \<Rightarrow> addr \<Rightarrow> uint list \<Rightarrow> heap \<times> mem \<Rightarrow> (int \<times> addr \<times> heap \<times> mem) option" where
  "vasprintf stack p fmt va hm = (case hm of (h, m) \<Rightarrow> do {
     (n, m) \<leftarrow> vsnprintf stack p NULL 0 fmt va m;
     let bytes = i32 (n + 1);
     (q, h) \<leftarrow> malloc (word_of_int bytes) h;
     if q = NULL then Some (-1, q, h, m)
     else do { (rv, m) \<leftarrow> vsnprintf stack p q (word_of_int bytes) fmt va m; Some (rv, q, h, m) } })"

definition asprintf :: "addr \<Rightarrow> param \<Rightarrow> addr \<Rightarrow> uint list \<Rightarrow> heap \<times> mem \<Rightarrow> (int \<times> addr \<times> heap \<times> mem) option" where
  "asprintf stack p fmt va hm = vasprintf stack p fmt va hm"

declare fill_count.simps [simp del] fill_loop.simps [simp del]

section \<open>Digits\<close>

text \<open>The digits of a number at a fixed number of places, which is the order in which \<open>ui2a\<close> produces them.\<close>

primrec fixed_text :: "bool \<Rightarrow> nat \<Rightarrow> nat \<Rightarrow> nat \<Rightarrow> byte list" where
  "fixed_text uc b n 0 = [digit_char uc n]"
| "fixed_text uc b n (Suc k) = digit_char uc (n div b ^ Suc k) # fixed_text uc b (n mod b ^ Suc k) k"

lemma fixed_text_snoc:
  assumes "0 < b"
  shows "fixed_text uc b n (Suc k) = fixed_text uc b (n div b) k @ [digit_char uc (n mod b)]"
proof (induction k arbitrary: n)
  case (Suc k)
  have "fixed_text uc b n (Suc (Suc k)) = digit_char uc (n div b ^ Suc (Suc k)) # fixed_text uc b (n mod b ^ Suc (Suc k)) (Suc k)" by simp
  also have "\<dots> = digit_char uc (n div b ^ Suc (Suc k)) # fixed_text uc b (n mod b ^ Suc (Suc k) div b) k @ [digit_char uc (n mod b ^ Suc (Suc k) mod b)]"
    by (simp only: Suc.IH append_Cons)
  also have "n div b ^ Suc (Suc k) = n div b div b ^ Suc k" by (simp add: div_mult2_eq)
  also have "n mod b ^ Suc (Suc k) div b = n div b mod b ^ Suc k"
    using assms by (simp add: mod_mult2_eq div_mult2_eq)
  also have "n mod b ^ Suc (Suc k) mod b = n mod b" by (simp add: mod_mod_cancel)
  finally show ?case by simp
qed simp

lemma fixed_text_num:
  assumes "1 < b" and "n < b ^ Suc k" and "k = 0 \<or> b ^ k \<le> n"
  shows "fixed_text uc b n k = num_text uc b n"
  using assms(2,3)
proof (induction k arbitrary: n)
  case 0
  then show ?case by (subst num_text.simps) simp
next
  case (Suc k)
  have "b ^ Suc k \<le> n" using Suc.prems by auto
  then have "b \<le> n" using assms(1) by (metis le_trans mult.commute mult_le_mono2 one_le_power power_Suc mult_1_right less_imp_le nat_mult_1_right)
  then have "num_text uc b n = num_text uc b (n div b) @ [digit_char uc (n mod b)]"
    using assms(1) by (subst num_text.simps) simp
  moreover have "fixed_text uc b (n div b) k = num_text uc b (n div b)"
  proof (rule Suc.IH)
    show "n div b < b ^ Suc k" using Suc.prems(1) assms(1) by (simp add: less_mult_imp_div_less mult.commute)
    have "b ^ k \<le> n div b" using \<open>b ^ Suc k \<le> n\<close> assms(1) by (simp add: less_eq_div_iff_mult_less_eq mult.commute)
    then show "k = 0 \<or> b ^ k \<le> n div b" by simp
  qed
  ultimately show ?case using fixed_text_snoc [of b uc n k] assms(1) by simp
qed

lemma num_text_length_pow: "1 < b \<Longrightarrow> n < b ^ Suc k \<Longrightarrow> length (num_text uc b n) \<le> Suc k"
proof (induction k arbitrary: n)
  case 0
  then show ?case by (subst num_text.simps) simp
next
  case (Suc k)
  then have "n div b < b ^ Suc k" by (simp add: less_mult_imp_div_less mult.commute)
  then show ?case using Suc by (subst num_text.simps) simp
qed

lemma digit_text_char:
  assumes "unat d < 36"
  shows "digit_text uc d = digit_char uc (unat d)"
proof -
  have t: "list_all (\<lambda>n. digit_text True (word_of_nat n) = digit_char True n) [0..<36]" by code_simp
  have f: "list_all (\<lambda>n. digit_text False (word_of_nat n) = digit_char False n) [0..<36]" by code_simp
  have "unat d \<in> set [0..<36]" using assms by simp
  then show ?thesis using t f by (cases uc) (auto simp only: list_all_iff of_nat_unat_word)
qed

lemma sint_small:
  fixes w :: "32 word"
  assumes "unat w < 2 ^ 31"
  shows "sint w = uint w"
proof -
  have "int (unat w) < int (2 ^ 31)" using assms by (simp only: of_nat_less_iff)
  then have "uint w < 2 ^ 31" by simp
  moreover have "- (2 ^ 31) \<le> uint w" by (rule order_trans [of _ 0]) simp_all
  ultimately have "signed_take_bit 31 (uint w) = uint w" by (intro signed_take_bit_int_eq_self)
  then show ?thesis by (simp add: sint_uint)
qed

lemma ui2a_scale_ok:
  fixes b num :: uint
  assumes "1 < unat b" and "unat d = unat b ^ k" and "k = 0 \<or> unat b ^ k \<le> unat num"
  shows "\<exists>d' k'. ui2a_scale num b d = Some d' \<and> unat d' = unat b ^ k' \<and> unat num < unat b ^ Suc k' \<and> (k' = 0 \<or> unat b ^ k' \<le> unat num)"
  using assms(2,3)
proof (induction "unat num - k" arbitrary: d k rule: less_induct)
  case less
  show ?case
  proof (cases "b \<le> num div d")
    case False
    then have "unat num div unat d < unat b" by (simp add: word_less_nat_alt unat_div not_le)
    then have "unat num < unat b ^ Suc k"
      using less.prems(1) assms(1) by (simp add: div_less_iff_less_mult mult.commute)
    then show ?thesis using False less.prems by (subst ui2a_scale.simps) auto
  next
    case True
    then have "unat b \<le> unat num div unat d" by (simp add: word_le_nat_alt unat_div)
    then have le: "unat b ^ Suc k \<le> unat num"
      using less.prems(1) assms(1) by (simp add: less_eq_div_iff_mult_less_eq mult.commute)
    then have d: "unat (d * b) = unat b ^ Suc k"
      using less.prems(1) unat32_less [of num] by (simp add: unat_word_ariths mult.commute)
    have "k < unat b ^ k" using assms(1) by (intro order_less_le_trans [OF less_exp] power_mono) auto
    moreover have "unat b ^ k \<le> unat b ^ Suc k" using assms(1) by (intro power_increasing) auto
    ultimately have "unat num - Suc k < unat num - k" using le by linarith
    then show ?thesis using less.hyps [of "Suc k" "d * b"] le True d by (subst ui2a_scale.simps) auto
  qed
qed

lemma ui2a_digits_ok:
  fixes b num d :: uint
  assumes b: "1 < unat b" "unat b \<le> 36" and "unat d = unat b ^ k" and "unat num < unat b ^ Suc k"
    and "bf \<noteq> [] \<or> k = 0 \<or> unat b ^ k \<le> unat num"
  shows "ui2a_digits uc b num d bf = Some (bf @ fixed_text uc (unat b) (unat num) k)"
  using assms(3-5)
proof (induction k arbitrary: d num bf)
  case 0
  then have "d = 1" by (simp add: word_unat_eq_iff)
  moreover have "(1::uint) div b = 0" using b by (simp add: word_unat_eq_iff unat_div)
  moreover have "digit_text uc num = digit_char uc (unat num)" using 0 b by (intro digit_text_char) simp
  ultimately show ?case using 0 by (subst ui2a_digits.simps, subst ui2a_digits.simps) simp
next
  case (Suc k)
  have d: "d \<noteq> 0" "unat (d div b) = unat b ^ k" using Suc.prems(1) b by (auto simp: unat_div)
  then have dn: "d div b \<noteq> 0" using b by (metis unat_0 power_not_zero not_less_zero)
  have q: "unat (num div d) = unat num div unat b ^ Suc k" "unat (num mod d) = unat num mod unat b ^ Suc k"
    using Suc.prems(1) by (simp_all add: unat_div unat_mod)
  have lt: "unat (num div d) < unat b"
    unfolding q(1) using Suc.prems(2) by (simp add: less_mult_imp_div_less mult.commute)
  have lead: "bf \<noteq> [] \<or> sint (num div d) > 0"
  proof (cases "bf = []")
    case True
    then have "0 < unat (num div d)" using Suc.prems(3) b by (simp add: q div_greater_zero_iff)
    then have "num div d \<noteq> 0" by auto
    then have "0 < uint (num div d)" using uint_0_iff [of "num div d"] uint_ge_0 [of "num div d"] by linarith
    moreover have "sint (num div d) = uint (num div d)" using lt b by (intro sint_small) simp
    ultimately show ?thesis by simp
  qed simp
  have "ui2a_digits uc b num d bf = ui2a_digits uc b (num mod d) (d div b) (bf @ [digit_text uc (num div d)])"
    using d lead by (subst ui2a_digits.simps) (auto simp: Let_def)
  also have "\<dots> = Some ((bf @ [digit_text uc (num div d)]) @ fixed_text uc (unat b) (unat (num mod d)) k)"
    using d b by (intro Suc.IH) (auto simp: q)
  finally show ?case using digit_text_char [of "num div d" uc] lt b by (simp add: q)
qed

lemma ui2a_ok:
  assumes "1 < unat (p_base p)" and "unat (p_base p) \<le> 36"
  shows "ui2a num p = Some (p\<lparr>p_bf := Local (num_text (p_uc p) (unat (p_base p)) (unat num))\<rparr>)"
proof -
  let ?b = "ucast (p_base p) :: uint"
  have b: "unat ?b = unat (p_base p)" using unsigned_less [of "p_base p", where ?'a = nat] by (simp add: unsigned_ucast_eq take_bit_nat_eq_self)
  obtain d k where d: "ui2a_scale num ?b 1 = Some d" "unat d = unat ?b ^ k" "unat num < unat ?b ^ Suc k" "k = 0 \<or> unat ?b ^ k \<le> unat num"
    using ui2a_scale_ok [of ?b 1 0 num] assms b by auto
  have "ui2a_digits (p_uc p) ?b num d [] = Some (fixed_text (p_uc p) (unat ?b) (unat num) k)"
    using ui2a_digits_ok [OF _ _ d(2,3), of "[]" "p_uc p"] assms b d(4) by auto
  then show ?thesis using d fixed_text_num [of "unat ?b" "unat num" k "p_uc p"] assms b by (simp add: ui2a_def)
qed

section \<open>Fields\<close>

text \<open>The text of a field: sign, prefix and text, filled to the width with spaces in front or zeros behind the prefix.\<close>

definition prefix_text :: "param \<Rightarrow> byte list" where
  "prefix_text p = (if p_sign p \<noteq> 0 then [p_sign p] else []) @
     (if p_alt p \<and> p_base p = 16 then [ch (CHR ''0''), if p_uc p then ch (CHR ''X'') else ch (CHR ''x'')]
      else if p_alt p \<and> p_base p = 8 then [ch (CHR ''0'')] else [])"

definition field :: "param \<Rightarrow> byte list \<Rightarrow> byte list" where
  "field p xs =
     (let k = nat (p_width p) - length xs - length (prefix_text p) in
      if p_lz p then prefix_text p @ replicate k (ch (CHR ''0'')) @ xs
      else replicate k (ch (CHR '' '')) @ prefix_text p @ xs)"

text \<open>A text pointer leads to \<open>xs\<close>, which the stream does not change.\<close>

fun text_is :: "addr set \<Rightarrow> mem \<Rightarrow> text_ptr \<Rightarrow> byte list \<Rightarrow> bool" where
  "text_is own m (Local zs) xs \<longleftrightarrow> zs = xs \<and> 0 \<notin> set xs"
| "text_is own m (Mem a) xs \<longleftrightarrow> cstr m a xs \<and> region a (Suc (length xs)) \<inter> own = {}"

lemma text_is_Nil: "text_is own m bf [] \<Longrightarrow> fst (fetch m bf) = 0"
  by (cases bf) auto

lemma text_is_Cons: "text_is own m bf (x # xs) \<Longrightarrow> \<exists>bf'. fetch m bf = (x, bf') \<and> x \<noteq> 0 \<and> text_is own m bf' xs"
  by (cases bf) (auto simp: region_Suc)

lemma text_is_frame:
  assumes "text_is own m bf xs" and "\<forall>a. a \<notin> own \<longrightarrow> m' a = m a"
  shows "text_is own m' bf xs"
proof (cases bf)
  case (Mem a)
  then have "cstr m' a xs = cstr m a xs" using assms by (intro cstr_cong) auto
  then show ?thesis using assms(1) Mem by simp
qed (use assms in simp)

lemma fill_count_ok: "text_is own m bf xs \<Longrightarrow> 0 \<le> n \<Longrightarrow> fill_count m bf n = int (nat n - length xs)"
proof (induction xs arbitrary: bf n)
  case Nil
  then show ?case using text_is_Nil [OF Nil.prems(1)] by (subst fill_count.simps) (auto split: prod.splits)
next
  case (Cons x xs)
  obtain bf' where bf: "fetch m bf = (x, bf')" "x \<noteq> 0" "text_is own m bf' xs" using text_is_Cons [OF Cons.prems(1)] by blast
  show ?case
  proof (cases "0 < n")
    case True
    then have "fill_count m bf n = fill_count m bf' (n - 1)" using bf by (subst fill_count.simps) simp
    also have "\<dots> = int (nat (n - 1) - length xs)" using True by (intro Cons.IH [OF bf(3)]) simp
    finally show ?thesis using True by (simp add: nat_diff_distrib)
  next
    case False
    then show ?thesis using bf Cons.prems(2) by (subst fill_count.simps) simp
  qed
qed

context byte_sink
begin

text \<open>A program that makes the stream receive \<open>xs\<close>.\<close>

definition emits :: "('w \<Rightarrow> (uint \<times> 'w) option) \<Rightarrow> 'w \<Rightarrow> byte list \<Rightarrow> bool" where
  "emits prog w xs \<longleftrightarrow> (\<forall>ys. sink ys w \<longrightarrow> length ys + length xs \<le> cap \<longrightarrow>
     (\<exists>k w'. prog w = Some (k, w') \<and> sink (ys @ xs) w' \<and> (\<forall>a. a \<notin> own \<longrightarrow> f_mem f w' a = f_mem f w a)))"

lemma emitsE:
  assumes "emits prog w xs" and "sink ys w" and "length ys + length xs \<le> cap"
  obtains k w' where "prog w = Some (k, w')" "sink (ys @ xs) w'" "\<forall>a. a \<notin> own \<longrightarrow> f_mem f w' a = f_mem f w a"
  using assms by (auto simp: emits_def)

lemma emits_Nil: "emits (\<lambda>w. Some (k, w)) w []"
  by (simp add: emits_def)

text \<open>Sequencing: the second part starts in a state that agrees with the first on all memory that is not the stream's.\<close>

lemma emits_bind:
  assumes "emits prog w xs"
    and "\<And>k w'. \<forall>a. a \<notin> own \<longrightarrow> f_mem f w' a = f_mem f w a \<Longrightarrow> emits (rest k) w' ys"
  shows "emits (\<lambda>w. Option.bind (prog w) (\<lambda>(k, w). rest k w)) w (xs @ ys)"
  unfolding emits_def
proof (intro allI impI)
  fix zs assume z: "sink zs w" "length zs + length (xs @ ys) \<le> cap"
  then obtain k w1 where 1: "prog w = Some (k, w1)" "sink (zs @ xs) w1" "\<forall>a. a \<notin> own \<longrightarrow> f_mem f w1 a = f_mem f w a"
    using emitsE [OF assms(1) z(1)] by auto
  then obtain j w2 where 2: "rest k w1 = Some (j, w2)" "sink ((zs @ xs) @ ys) w2" "\<forall>a. a \<notin> own \<longrightarrow> f_mem f w2 a = f_mem f w1 a"
    using emitsE [OF assms(2) [OF 1(3), of k] 1(2)] z(2) by auto
  then show "\<exists>k w'. Option.bind (prog w) (\<lambda>(k, w). rest k w) = Some (k, w') \<and> sink (zs @ xs @ ys) w'
      \<and> (\<forall>a. a \<notin> own \<longrightarrow> f_mem f w' a = f_mem f w a)" using 1 by auto
qed

lemma emits_putf: "emits (putf f c) w [c]"
  unfolding emits_def
proof (intro allI impI)
  fix ys assume "sink ys w" "length ys + length [c] \<le> cap"
  then show "\<exists>k w'. putf f c w = Some (k, w') \<and> sink (ys @ [c]) w' \<and> (\<forall>a. a \<notin> own \<longrightarrow> f_mem f w' a = f_mem f w a)"
    using put [of ys w c] by (auto simp: putf_def)
qed

lemma emits_fill: "emits (fill_loop f c n k) w (replicate (nat n) c)"
proof (induction "nat n" arbitrary: n k w)
  case 0
  then show ?case using emits_Nil [of k w] by (simp add: emits_def fill_loop.simps)
next
  case (Suc i)
  then have n: "nat n = Suc i" "i = nat (n - 1)" "n > 0" by auto
  have "emits (\<lambda>w. Option.bind (putf f c w) (\<lambda>(j, w). fill_loop f c (n - 1) (k + j) w)) w ([c] @ replicate i c)"
    using emits_bind [OF emits_putf] Suc(1) [OF n(2)] n(2) by simp
  moreover have "fill_loop f c n k w = Option.bind (putf f c w) (\<lambda>(j, w). fill_loop f c (n - 1) (k + j) w)" for w
    using n(3) by (subst fill_loop.simps) (auto split: option.splits)
  ultimately show ?case by (simp add: n(1) emits_def)
qed

lemma emits_text: "text_is own (f_mem f w) bf xs \<Longrightarrow> emits (text_loop f bf k) w xs"
proof (induction xs arbitrary: bf k w)
  case Nil
  then show ?case using text_is_Nil [OF Nil] emits_Nil [of k w]
    by (simp add: emits_def, subst text_loop.simps) (auto split: prod.splits)
next
  case (Cons x xs)
  obtain bf' where bf: "fetch (f_mem f w) bf = (x, bf')" "x \<noteq> 0" "text_is own (f_mem f w) bf' xs"
    using text_is_Cons [OF Cons.prems] by blast
  have "emits (\<lambda>w. Option.bind (putf f x w) (\<lambda>(j, w). text_loop f bf' (k + j) w)) w ([x] @ xs)"
    by (rule emits_bind [OF emits_putf]) (rule Cons.IH, rule text_is_frame [OF bf(3)])
  moreover have "text_loop f bf k w = Option.bind (putf f x w) (\<lambda>(j, w). text_loop f bf' (k + j) w)"
    using bf by (subst text_loop.simps) simp
  ultimately show ?case by (simp add: emits_def)
qed

lemma emits_cond: "(b \<Longrightarrow> emits p w xs) \<Longrightarrow> (\<not> b \<Longrightarrow> emits q w ys) \<Longrightarrow> emits (\<lambda>w. if b then p w else q w) w (if b then xs else ys)"
  by simp

lemma emits_cong: "prog w = prog' w \<Longrightarrow> emits prog' w xs \<Longrightarrow> emits prog w xs"
  by (simp add: emits_def)

end

context byte_sink
begin

lemma emits_putchw:
  assumes "text_is own (f_mem f w) (p_bf p) xs" and "0 \<le> p_width p" and "p_width p < 2 ^ 31"
  shows "emits (putchw f p) w (field p xs)"
proof -
  define n0 where "n0 = fill_count (f_mem f w) (p_bf p) (p_width p)"
  define n1 where "n1 = (if p_sign p \<noteq> 0 then i32 (n0 - 1) else n0)"
  define n where "n = (if p_alt p \<and> p_base p = 16 then i32 (n1 - 2) else if p_alt p \<and> p_base p = 8 then i32 (n1 - 1) else n1)"
  have n0: "n0 = int (nat (p_width p) - length xs)" using fill_count_ok [OF assms(1,2)] by (simp add: n0_def)
  then have "n1 = n0 - (if p_sign p \<noteq> 0 then 1 else 0)" using assms(3) by (auto simp: n1_def intro!: i32_id)
  moreover from this n0 have "n = n1 - (if p_alt p \<and> p_base p = 16 then 2 else if p_alt p \<and> p_base p = 8 then 1 else 0)"
    using assms(3) by (auto simp: n_def intro!: i32_id)
  ultimately have "n = int (nat (p_width p) - length xs) - int (length (prefix_text p))"
    using n0 by (auto simp: prefix_text_def)
  then have n: "nat n = nat (p_width p) - length xs - length (prefix_text p)" by linarith
  let ?A = "\<lambda>w. if \<not> p_lz p then fill_loop f (ch (CHR '' '')) n 0 w else Some (0, w)"
  let ?B = "\<lambda>k w. if p_sign p \<noteq> 0 then Option.bind (putf f (p_sign p) w) (\<lambda>(j, w). Some (k + j, w)) else Some (k, w)"
  let ?C = "\<lambda>k w. if p_alt p \<and> p_base p = 16
      then Option.bind (putf f (ch (CHR ''0'')) w) (\<lambda>(i, w). Option.bind (putf f (if p_uc p then ch (CHR ''X'') else ch (CHR ''x'')) w) (\<lambda>(j, w). Some (k + i + j, w)))
      else if p_alt p \<and> p_base p = 8 then Option.bind (putf f (ch (CHR ''0'')) w) (\<lambda>(j, w). Some (k + j, w)) else Some (k, w)"
  let ?D = "\<lambda>k w. if p_lz p then fill_loop f (ch (CHR ''0'')) n k w else Some (k, w)"
  have A: "emits ?A w (if p_lz p then [] else replicate (nat n) (ch (CHR '' '')))" for w
    using emits_fill emits_Nil by simp
  have B: "emits (?B k) w (if p_sign p \<noteq> 0 then [p_sign p] else [])" for k w
    using emits_bind [OF emits_putf emits_Nil] emits_Nil by simp
  have C: "emits (?C k) w (if p_alt p \<and> p_base p = 16 then [ch (CHR ''0''), if p_uc p then ch (CHR ''X'') else ch (CHR ''x'')]
      else if p_alt p \<and> p_base p = 8 then [ch (CHR ''0'')] else [])" for k w
    by (intro emits_cond emits_Nil) (use emits_bind [OF emits_putf emits_bind [OF emits_putf emits_Nil]] emits_bind [OF emits_putf emits_Nil] in simp_all)
  have D: "emits (?D k) w (if p_lz p then replicate (nat n) (ch (CHR ''0'')) else [])" for k w
    using emits_fill emits_Nil by simp
  have T: "emits (text_loop f (p_bf p) k) w' xs" if "\<forall>a. a \<notin> own \<longrightarrow> f_mem f w' a = f_mem f w a" for k w'
    using emits_text [OF text_is_frame [OF assms(1) that]] .
  let ?chain = "\<lambda>w. Option.bind (?A w) (\<lambda>(k, w). Option.bind (?B k w) (\<lambda>(k, w). Option.bind (?C k w) (\<lambda>(k, w).
      Option.bind (?D k w) (\<lambda>(k, w). text_loop f (p_bf p) k w))))"
  let ?text = "(if p_lz p then [] else replicate (nat n) (ch (CHR '' ''))) @ (if p_sign p \<noteq> 0 then [p_sign p] else []) @
       (if p_alt p \<and> p_base p = 16 then [ch (CHR ''0''), if p_uc p then ch (CHR ''X'') else ch (CHR ''x'')]
        else if p_alt p \<and> p_base p = 8 then [ch (CHR ''0'')] else []) @
       (if p_lz p then replicate (nat n) (ch (CHR ''0'')) else []) @ xs"
  have e: "emits ?chain w ?text"
    by (rule emits_bind [OF A], rule emits_bind [OF B], rule emits_bind [OF C], rule emits_bind [OF D], rule T) simp
  have whole: "?text = field p xs" unfolding field_def Let_def n [symmetric] by (simp add: prefix_text_def)
  have "putchw f p w = ?chain w" unfolding putchw_def Let_def n_def n1_def n0_def ..
  then show ?thesis using emits_cong [OF _ e, of "putchw f p"] unfolding whole by simp
qed

end

section \<open>Formats\<close>

text \<open>The reference: formats as lists of characters.  \<open>S\<close> gives the strings that \<open>%s\<close> arguments point to.\<close>

definition is_dec :: "byte \<Rightarrow> bool" where
  "is_dec c \<longleftrightarrow> ch (CHR ''0'') \<le> c \<and> c \<le> ch (CHR ''9'')"

definition dec_val :: "byte list \<Rightarrow> int" where
  "dec_val ds = foldl (\<lambda>n d. n * 10 + (uint d - 48)) 0 ds"

fun spec_flags :: "byte list \<Rightarrow> bool \<times> bool \<Rightarrow> byte list \<times> bool \<times> bool" where
  "spec_flags [] fl = ([], fl)"
| "spec_flags (c # cs) (lz, alt) =
     (if c = ch (CHR ''0'') then spec_flags cs (True, alt)
      else if c = ch (CHR ''#'') then spec_flags cs (lz, True)
      else (c # cs, lz, alt))"

definition spec_directive :: "byte list \<Rightarrow> (byte list \<times> param) option" where
  "spec_directive cs =
     (let (cs, lz, alt) = spec_flags cs (False, False); ds = takeWhile is_dec cs; cs = dropWhile is_dec cs;
          cs' = (case cs of c # r \<Rightarrow> if c = ch (CHR ''l'') then r else cs | [] \<Rightarrow> []) in
      if dec_val ds < 2 ^ 31 \<and> (ds = [] \<or> cs = [] \<or> hd cs \<notin> {ch (CHR ''a''), ch (CHR ''A'')})
      then Some (cs', \<lparr>p_width = dec_val ds, p_lz = lz, p_sign = 0, p_alt = alt, p_base = 0, p_uc = False, p_bf = Local []\<rparr>)
      else None)"

definition spec_conversion :: "(addr \<Rightarrow> byte list option) \<Rightarrow> byte \<Rightarrow> uint list \<Rightarrow> param \<Rightarrow> (byte list \<times> uint list) option" where
  "spec_conversion S c va p =
     (if c = ch (CHR ''u'') then do {
        (x, va) \<leftarrow> va_arg va; Some (field (p\<lparr>p_base := 10\<rparr>) (num_text False 10 (unat x)), va) }
      else if c = ch (CHR ''d'') \<or> c = ch (CHR ''i'') then do {
        (x, va) \<leftarrow> va_arg va;
        Some (field (p\<lparr>p_base := 10, p_sign := (if sint x < 0 then ch (CHR ''-'') else 0)\<rparr>) (num_text False 10 (nat \<bar>sint x\<bar>)), va) }
      else if c = ch (CHR ''x'') \<or> c = ch (CHR ''X'') then do {
        (x, va) \<leftarrow> va_arg va;
        let uc = (c = ch (CHR ''X''));
        Some (field (p\<lparr>p_base := 16, p_uc := uc\<rparr>) (num_text uc 16 (unat x)), va) }
      else if c = ch (CHR ''o'') then do {
        (x, va) \<leftarrow> va_arg va; Some (field (p\<lparr>p_base := 8\<rparr>) (num_text False 8 (unat x)), va) }
      else if c = ch (CHR ''c'') then do { (x, va) \<leftarrow> va_arg va; Some ([ucast x], va) }
      else if c = ch (CHR ''s'') then do {
        (x, va) \<leftarrow> va_arg va; s \<leftarrow> S x; if p_alt p then None else Some (field p s, va) }
      else if c = ch (CHR ''%'') then Some ([c], va)
      else Some ([], va))"

lemma spec_flags_length: "length (fst (spec_flags cs fl)) \<le> length cs"
  by (induction cs fl rule: spec_flags.induct) auto

lemma spec_directive_length: "spec_directive cs = Some (cs', p) \<Longrightarrow> length cs' \<le> length cs"
proof -
  assume d: "spec_directive cs = Some (cs', p)"
  obtain cs1 lz alt where s: "spec_flags cs (False, False) = (cs1, lz, alt)" by (metis prod_cases3)
  have "length (dropWhile is_dec cs1) \<le> length cs1" by (simp add: length_dropWhile_le)
  moreover have "length cs' \<le> length (dropWhile is_dec cs1)"
    using d s by (auto simp: spec_directive_def Let_def split: if_splits list.splits)
  moreover have "length cs1 \<le> length cs" using spec_flags_length [of cs "(False, False)"] s by simp
  ultimately show ?thesis by linarith
qed

function render :: "(addr \<Rightarrow> byte list option) \<Rightarrow> byte list \<Rightarrow> uint list \<Rightarrow> byte list option" where
  "render S [] va = Some []"
| "render S (c # cs) va =
     (if c \<noteq> ch (CHR ''%'') then do { t \<leftarrow> render S cs va; Some (c # t) }
      else case spec_directive cs of None \<Rightarrow> None
        | Some ([], p) \<Rightarrow> Some []
        | Some (c' # cs', p) \<Rightarrow> do {
            (t, va') \<leftarrow> spec_conversion S c' va p;
            t' \<leftarrow> render S cs' va';
            Some (t @ t') })"
  by pat_completeness auto
termination
  by (relation "measure (\<lambda>(S, cs, va). length cs)") (auto dest: spec_directive_length)

declare render.simps [simp del]

subsection \<open>Reading a directive\<close>

text \<open>\<open>q\<close> points to the rest \<open>cs'\<close> of the string \<open>cs\<close> at \<open>s\<close>.\<close>

definition suffix_at :: "mem \<Rightarrow> addr \<Rightarrow> byte list \<Rightarrow> addr \<Rightarrow> byte list \<Rightarrow> bool" where
  "suffix_at m s cs q cs' \<longleftrightarrow> cstr m q cs' \<and> region q (Suc (length cs')) \<subseteq> region s (Suc (length cs))"

lemma suffix_at_refl: "cstr m s cs \<Longrightarrow> suffix_at m s cs s cs"
  by (simp add: suffix_at_def)

lemma suffix_at_Cons: "suffix_at m s cs q (c # cs') \<Longrightarrow> m q = c \<and> c \<noteq> 0 \<and> suffix_at m s cs (q + 1) cs'"
  by (auto simp: suffix_at_def region_Suc)

lemma suffix_at_Nil: "suffix_at m s cs q [] \<Longrightarrow> m q = 0"
  by (simp add: suffix_at_def)

lemma suffix_at_char: "suffix_at m s cs q cs' \<Longrightarrow> m q = (case cs' of [] \<Rightarrow> 0 | c # _ \<Rightarrow> c)"
  by (auto simp: suffix_at_def split: list.splits)

lemma flags_loop_ok:
  "suffix_at m s cs0 q cs \<Longrightarrow> \<exists>q'. flags_loop m q p = Some (m q', q' + 1, p\<lparr>p_lz := fst (snd (spec_flags cs (p_lz p, p_alt p))),
     p_alt := snd (snd (spec_flags cs (p_lz p, p_alt p)))\<rparr>) \<and> suffix_at m s cs0 q' (fst (spec_flags cs (p_lz p, p_alt p)))"
proof (induction cs arbitrary: q p)
  case Nil
  then show ?case using suffix_at_Nil [OF Nil] by (subst flags_loop.simps) auto
next
  case (Cons c cs)
  note c = suffix_at_Cons [OF Cons.prems]
  show ?case
    using c Cons.IH [of "q + 1" "p\<lparr>p_lz := True\<rparr>"] Cons.IH [of "q + 1" "p\<lparr>p_alt := True\<rparr>"] Cons.prems
    by (subst flags_loop.simps) (auto simp: Let_def)
qed

lemma a2d_dec: "is_dec c \<Longrightarrow> a2d c = uint c - 48 \<and> 0 \<le> a2d c \<and> a2d c \<le> 9"
  by (auto simp: is_dec_def a2d_def word_le_def)

lemma a2d_stop: "\<not> is_dec c \<Longrightarrow> c \<notin> {ch (CHR ''a''), ch (CHR ''A'')} \<Longrightarrow> a2d c < 0 \<or> a2d c > 10"
proof -
  assume c: "\<not> is_dec c" "c \<notin> {ch (CHR ''a''), ch (CHR ''A'')}"
  have "uint c \<noteq> 97" "uint c \<noteq> 65" using c(2) by (auto simp: word_uint_eq_iff)
  then show ?thesis using c(1) by (auto simp: is_dec_def a2d_def word_le_def)
qed

lemma dec_fold_mono: "0 \<le> n \<Longrightarrow> \<forall>d \<in> set ds. is_dec d \<Longrightarrow> n \<le> foldl (\<lambda>n d. n * 10 + (uint d - 48)) n ds"
proof (induction ds arbitrary: n)
  case (Cons d ds)
  have "0 \<le> uint d - 48" using Cons.prems(2) a2d_dec [of d] by simp
  then have "n \<le> n * 10 + (uint d - 48)" "0 \<le> n * 10 + (uint d - 48)" using Cons.prems(1) by linarith+
  then show ?case using Cons.IH [of "n * 10 + (uint d - 48)"] Cons.prems(2) by force
qed simp

lemma a2i_loop_ok:
  assumes "suffix_at m s cs0 q (ds @ cs)" and "\<forall>d \<in> set ds. is_dec d" and "cs = [] \<or> \<not> is_dec (hd cs)"
    and "cs = [] \<or> hd cs \<notin> {ch (CHR ''a''), ch (CHR ''A'')}" and "0 \<le> n" and "foldl (\<lambda>n d. n * 10 + (uint d - 48)) n ds < 2 ^ 31"
  shows "\<exists>q'. a2i_loop m 10 (m q) (q + 1) n = Some (m q', q' + 1, foldl (\<lambda>n d. n * 10 + (uint d - 48)) n ds) \<and> suffix_at m s cs0 q' cs"
  using assms
proof (induction ds arbitrary: q n)
  case Nil
  have "a2d (m q) < 0 \<or> a2d (m q) > 10"
  proof (cases cs)
    case Nil
    then have "m q = 0" using suffix_at_Nil [of m s cs0 q] \<open>suffix_at m s cs0 q ([] @ cs)\<close> by simp
    then show ?thesis by (simp add: a2d_def)
  next
    case (Cons c cs')
    then show ?thesis using suffix_at_Cons [of m s cs0 q c cs'] Nil.prems a2d_stop by simp
  qed
  then show ?case using Nil.prems by (subst a2i_loop.simps) (auto simp: Let_def)
next
  case (Cons d ds)
  have q: "m q = d" "suffix_at m s cs0 (q + 1) (ds @ cs)" using suffix_at_Cons [of m s cs0 q d "ds @ cs"] Cons.prems(1) by auto
  have d: "a2d d = uint d - 48" "0 \<le> a2d d" "a2d d \<le> 9" using a2d_dec [of d] Cons.prems(2) by simp_all
  let ?n = "n * 10 + (uint d - 48)"
  have n: "0 \<le> ?n" using d Cons.prems(5) by simp
  moreover have "?n < 2 ^ 31" using dec_fold_mono [OF n, of ds] Cons.prems(2,6) by simp
  ultimately have i: "i32 ?n = ?n" by (intro i32_id) auto
  have "a2i_loop m 10 (m q) (q + 1) n = a2i_loop m 10 (m (q + 1)) (q + 1 + 1) ?n"
    using d q i by (subst a2i_loop.simps) (simp add: Let_def)
  then show ?case using Cons.IH [OF q(2) _ Cons.prems(3,4) n] Cons.prems(2,6) by simp
qed

definition alike :: "param \<Rightarrow> param \<Rightarrow> bool" where
  "alike p q \<longleftrightarrow> p_width p = p_width q \<and> p_lz p = p_lz q \<and> p_sign p = p_sign q \<and> p_alt p = p_alt q"

text \<open>The width of a directive, read from the place behind the flags.\<close>

lemma width_ok:
  assumes q: "suffix_at m s cs0 q cs" and w: "dec_val (takeWhile is_dec cs) < 2 ^ 31"
    and a: "takeWhile is_dec cs = [] \<or> dropWhile is_dec cs = [] \<or> hd (dropWhile is_dec cs) \<notin> {ch (CHR ''a''), ch (CHR ''A'')}"
  shows "\<exists>q'. (if m q \<ge> ch (CHR ''0'') \<and> m q \<le> ch (CHR ''9'') then do { (c, fmt, n) \<leftarrow> a2i m (m q) (q + 1) 10; Some (c, fmt, p\<lparr>p_width := n\<rparr>) }
      else Some (m q, q + 1, p\<lparr>p_width := 0\<rparr>)) = Some (m q', q' + 1, p\<lparr>p_width := dec_val (takeWhile is_dec cs)\<rparr>)
    \<and> suffix_at m s cs0 q' (dropWhile is_dec cs)"
proof (cases "takeWhile is_dec cs = []")
  case True
  then have "\<not> is_dec (m q)" using suffix_at_char [OF q] by (cases cs) (auto simp: is_dec_def split: if_splits)
  moreover have "dropWhile is_dec cs = cs" using True by (metis append_Nil takeWhile_dropWhile_id)
  ultimately show ?thesis using q True by (auto simp: is_dec_def dec_val_def)
next
  case False
  then have "is_dec (m q)" using suffix_at_char [OF q] by (cases cs) (auto split: if_splits)
  moreover have "dropWhile is_dec cs = [] \<or> \<not> is_dec (hd (dropWhile is_dec cs))" using hd_dropWhile by blast
  then have "\<exists>q'. a2i_loop m 10 (m q) (q + 1) 0 = Some (m q', q' + 1, dec_val (takeWhile is_dec cs)) \<and> suffix_at m s cs0 q' (dropWhile is_dec cs)"
    unfolding dec_val_def using q w a False
    by (intro a2i_loop_ok) (auto dest: set_takeWhileD simp: dec_val_def)
  ultimately show ?thesis by (auto simp: is_dec_def a2i_def)
qed

lemma directive_ok:
  assumes q: "suffix_at m s cs0 q cs" and d: "spec_directive cs = Some (cs', sp)"
  shows "\<exists>q' p'. directive m q p = Some (m q', q' + 1, p') \<and> suffix_at m s cs0 q' cs' \<and> alike p' sp"
proof -
  let ?p0 = "p\<lparr>p_lz := False, p_alt := False, p_width := 0, p_sign := 0\<rparr>"
  obtain cs1 lz alt where s: "spec_flags cs (False, False) = (cs1, lz, alt)" by (metis prod_cases3)
  let ?ds = "takeWhile is_dec cs1" and ?cs2 = "dropWhile is_dec cs1"
  have sp: "dec_val ?ds < 2 ^ 31" "?ds = [] \<or> ?cs2 = [] \<or> hd ?cs2 \<notin> {ch (CHR ''a''), ch (CHR ''A'')}"
    "cs' = (case ?cs2 of c # r \<Rightarrow> if c = ch (CHR ''l'') then r else ?cs2 | [] \<Rightarrow> [])"
    "sp = \<lparr>p_width = dec_val ?ds, p_lz = lz, p_sign = 0, p_alt = alt, p_base = 0, p_uc = False, p_bf = Local []\<rparr>"
    using d s by (auto simp: spec_directive_def Let_def split: if_splits)
  let ?p1 = "?p0\<lparr>p_lz := lz, p_alt := alt\<rparr>"
  obtain q1 where f: "flags_loop m q ?p0 = Some (m q1, q1 + 1, ?p1)" "suffix_at m s cs0 q1 cs1"
    using flags_loop_ok [OF q, of ?p0] s by auto
  have w0: "?p1\<lparr>p_width := 0\<rparr> = ?p1" by simp
  obtain q2 where w: "(if m q1 \<ge> ch (CHR ''0'') \<and> m q1 \<le> ch (CHR ''9'') then do { (c, fmt, n) \<leftarrow> a2i m (m q1) (q1 + 1) 10; Some (c, fmt, ?p1\<lparr>p_width := n\<rparr>) }
      else Some (m q1, q1 + 1, ?p1)) = Some (m q2, q2 + 1, ?p1\<lparr>p_width := dec_val ?ds\<rparr>)" "suffix_at m s cs0 q2 ?cs2"
    using width_ok [OF f(2) sp(1,2), of ?p1] unfolding w0 by blast
  let ?q3 = "if m q2 = ch (CHR ''l'') then q2 + 1 else q2"
  have "directive m q p = Some (m ?q3, ?q3 + 1, ?p1\<lparr>p_width := dec_val ?ds\<rparr>)"
    unfolding directive_def f(1) bind.bind_lunit prod.case w(1) by simp
  moreover have "suffix_at m s cs0 ?q3 cs'"
  proof (cases ?cs2)
    case Nil
    show ?thesis using w(2) suffix_at_Nil [of m s cs0 q2] unfolding sp(3) Nil by simp
  next
    case (Cons c r)
    then show ?thesis using w(2) sp(3) suffix_at_Cons [of m s cs0 q2 c r] by simp
  qed
  moreover have "alike (?p1\<lparr>p_width := dec_val ?ds\<rparr>) sp" using sp(4) by (simp add: alike_def)
  ultimately show ?thesis by blast
qed

lemma num_text_small: "1 < b \<Longrightarrow> b \<le> 10 \<Longrightarrow> num_text uc b n = num_text False b n"
proof (induction uc b n rule: num_text.induct)
  case (1 uc b n)
  have d: "digit_char uc k = digit_char False k" if "k < b" for k using that 1 by (simp add: digit_char_def)
  show ?case using 1 d [of n] d [of "n mod b"] by (subst (1 2) num_text.simps) auto
qed

lemma num_text_no_nul: "1 < b \<Longrightarrow> b \<le> 36 \<Longrightarrow> 0 \<notin> set (num_text uc b n)"
  using num_text_val [of b uc n] by (auto simp: is_digit_def digitval_def)

lemma field_alike: "alike p q \<Longrightarrow> p_base p = p_base q \<Longrightarrow> p_base p \<noteq> 16 \<or> p_uc p = p_uc q \<Longrightarrow> field p xs = field q xs"
  by (auto simp: field_def prefix_text_def alike_def Let_def)

lemma sint_if: "sint w = (if 2 ^ 31 \<le> uint w then uint w - 2 ^ 32 else uint w)" for w :: "32 word"
proof -
  have u: "0 \<le> uint w" "uint w < 2 ^ 32" using uint_lt2p [of w] by simp_all
  have "x div 2147483648 = (if 2147483648 \<le> x then 1 else 0)" if "0 \<le> x" "x < 4294967296" for x :: int
    using that by (auto simp: div_pos_geq div_pos_pos_trivial)
  then have "uint w div 2 ^ 31 = (if 2 ^ 31 \<le> uint w then 1 else 0)" using u by simp
  then have "bit (uint w) 31 \<longleftrightarrow> 2 ^ 31 \<le> uint w" by (simp add: bit_iff_odd)
  moreover have "sint w = take_bit 32 (uint w) - 2 ^ 32 * of_bool (bit (uint w) 31)"
    by (simp add: sint_uint signed_take_bit_eq_take_bit_minus)
  moreover have "take_bit 32 (uint w) = uint w" using u by (intro take_bit_int_eq_self)
  ultimately show ?thesis by simp
qed

lemma unat_abs: "unat (if sint num < 0 then - num else num) = nat \<bar>sint num\<bar>" for num :: "32 word"
proof (cases "2 ^ 31 \<le> uint num")
  case True
  then have "sint num < 0" "\<bar>sint num\<bar> = 2 ^ 32 - uint num" using uint_lt2p [of num] by (auto simp: sint_if)
  moreover have "uint (- num) = 2 ^ 32 - uint num" using True uint_lt2p [of num] by (auto simp: uint_word_ariths zmod_zminus1_eq_if)
  ultimately show ?thesis by (simp add: unat_eq_nat_uint)
next
  case False
  then show ?thesis by (simp add: sint_if)
qed

lemma i2a_ok:
  assumes "p_base p = 10" and "p_sign p = 0"
  shows "i2a num p = Some (p\<lparr>p_sign := (if sint num < 0 then ch (CHR ''-'') else 0),
    p_bf := Local (num_text (p_uc p) 10 (nat \<bar>sint num\<bar>))\<rparr>)"
proof -
  have u: "ui2a x q = Some (q\<lparr>p_bf := Local (num_text (p_uc q) 10 (unat x))\<rparr>)" if "p_base q = 10" for x q
    using ui2a_ok [of q x] that by simp
  show ?thesis using assms u unat_abs [of num] by (cases "sint num < 0") (simp_all add: i2a_def)
qed

text \<open>The strings that the arguments point to, in memory that the stream does not change.\<close>

definition strings_at :: "addr set \<Rightarrow> mem \<Rightarrow> (addr \<Rightarrow> byte list option) \<Rightarrow> bool" where
  "strings_at own m S \<longleftrightarrow> (\<forall>a s. S a = Some s \<longrightarrow> cstr m a s \<and> region a (Suc (length s)) \<inter> own = {})"

lemma strings_at_frame:
  assumes "strings_at own m S" and "\<forall>a. a \<notin> own \<longrightarrow> m' a = m a"
  shows "strings_at own m' S"
  unfolding strings_at_def
proof (intro allI impI)
  fix a s assume "S a = Some s"
  then have s: "cstr m a s" "region a (Suc (length s)) \<inter> own = {}" using assms(1) by (auto simp: strings_at_def)
  then have "cstr m' a s = cstr m a s" using assms(2) by (intro cstr_cong) auto
  then show "cstr m' a s \<and> region a (Suc (length s)) \<inter> own = {}" using s by simp
qed

context byte_sink
begin

text \<open>A number in base \<open>b\<close>, whose field is that of a parameter structure which agrees in what the field depends on.\<close>

lemma emits_number:
  assumes "p_bf p = Local (num_text uc b n)" and "1 < b" and "b \<le> 36" and "0 \<le> p_width q" and "p_width q < 2 ^ 31"
    and "alike p q" and "p_base p = p_base q" and "p_base p \<noteq> 16 \<or> p_uc p = p_uc q" and "uc = uc' \<or> b \<le> 10"
  shows "emits (putchw f p) w (field q (num_text uc' b n))"
proof -
  have "num_text uc b n = num_text uc' b n" using assms(2,9) num_text_small [of b uc n] num_text_small [of b uc' n] by auto
  moreover have "emits (putchw f p) w (field p (num_text uc b n))"
    using assms num_text_no_nul [of b uc n] by (intro emits_putchw) (auto simp: alike_def)
  ultimately show ?thesis using field_alike [OF assms(6-8)] by simp
qed

lemma conversion_number:
  assumes c: "spec_conversion S c va sp = Some (t, va')" and p: "alike p sp" "p_sign sp = 0" "0 \<le> p_width sp" "p_width sp < 2 ^ 31"
    and num: "c \<in> {ch (CHR ''u''), ch (CHR ''d''), ch (CHR ''i''), ch (CHR ''x''), ch (CHR ''X''), ch (CHR ''o'')}"
  shows "\<exists>prog p'. conversion f c va p w = Option.bind (prog w) (\<lambda>(k, w). Some (k, va', p', w)) \<and> emits prog w t"
proof -
  have a: "p_sign p = 0" using p by (auto simp: alike_def)
  note defs = spec_conversion_def va_arg_def
  consider (u) "c = ch (CHR ''u'')" | (d) "c = ch (CHR ''d'') \<or> c = ch (CHR ''i'')" | (x) "c = ch (CHR ''x'') \<or> c = ch (CHR ''X'')"
    | (o) "c = ch (CHR ''o'')" using num by auto
  then show ?thesis
  proof cases
    case u
    then obtain x where v: "va = x # va'" and t: "t = field (sp\<lparr>p_base := 10\<rparr>) (num_text False 10 (unat x))"
      using c by (cases va) (auto simp: defs)
    let ?p = "p\<lparr>p_base := 10, p_bf := Local (num_text (p_uc p) 10 (unat x))\<rparr>"
    have "emits (putchw f ?p) w t" unfolding t using p by (intro emits_number) (auto simp: alike_def)
    moreover have "conversion f c va p w = Option.bind (putchw f ?p w) (\<lambda>(k, w). Some (k, va', ?p, w))"
      using u v ui2a_ok [of "p\<lparr>p_base := 10\<rparr>" x] by (simp add: conversion_def va_arg_def)
    ultimately show ?thesis by blast
  next
    case d
    then obtain x where v: "va = x # va'" and t: "t = field (sp\<lparr>p_base := 10, p_sign := (if sint x < 0 then ch (CHR ''-'') else 0)\<rparr>)
        (num_text False 10 (nat \<bar>sint x\<bar>))"
      using c by (cases va) (auto simp: defs)
    let ?p = "p\<lparr>p_base := 10, p_sign := (if sint x < 0 then ch (CHR ''-'') else 0), p_bf := Local (num_text (p_uc p) 10 (nat \<bar>sint x\<bar>))\<rparr>"
    have "emits (putchw f ?p) w t" unfolding t using p by (intro emits_number) (auto simp: alike_def)
    moreover have "conversion f c va p w = Option.bind (putchw f ?p w) (\<lambda>(k, w). Some (k, va', ?p, w))"
      using d v i2a_ok [of "p\<lparr>p_base := 10\<rparr>" x] a by (auto simp: conversion_def va_arg_def)
    ultimately show ?thesis by blast
  next
    case x
    then obtain x where v: "va = x # va'" and t: "t = field (sp\<lparr>p_base := 16, p_uc := (c = ch (CHR ''X''))\<rparr>) (num_text (c = ch (CHR ''X'')) 16 (unat x))"
      using c by (cases va) (auto simp: defs)
    let ?p = "p\<lparr>p_base := 16, p_uc := (c = ch (CHR ''X'')), p_bf := Local (num_text (c = ch (CHR ''X'')) 16 (unat x))\<rparr>"
    have "emits (putchw f ?p) w t" unfolding t using p by (intro emits_number) (auto simp: alike_def)
    moreover have "conversion f c va p w = Option.bind (putchw f ?p w) (\<lambda>(k, w). Some (k, va', ?p, w))"
      using x v ui2a_ok [of "p\<lparr>p_base := 16, p_uc := (c = ch (CHR ''X''))\<rparr>" x] by (auto simp: conversion_def va_arg_def)
    ultimately show ?thesis by blast
  next
    case o
    then obtain x where v: "va = x # va'" and t: "t = field (sp\<lparr>p_base := 8\<rparr>) (num_text False 8 (unat x))"
      using c by (cases va) (auto simp: defs)
    let ?p = "p\<lparr>p_base := 8, p_bf := Local (num_text (p_uc p) 8 (unat x))\<rparr>"
    have "emits (putchw f ?p) w t" unfolding t using p by (intro emits_number) (auto simp: alike_def)
    moreover have "conversion f c va p w = Option.bind (putchw f ?p w) (\<lambda>(k, w). Some (k, va', ?p, w))"
      using o v ui2a_ok [of "p\<lparr>p_base := 8\<rparr>" x] by (simp add: conversion_def va_arg_def)
    ultimately show ?thesis by blast
  qed
qed

lemma conversion_ok:
  assumes c: "spec_conversion S c va sp = Some (t, va')" and p: "alike p sp" "p_sign sp = 0" "0 \<le> p_width sp" "p_width sp < 2 ^ 31"
    and S: "strings_at own (f_mem f w) S"
  shows "\<exists>prog p'. conversion f c va p w = Option.bind (prog w) (\<lambda>(k, w). Some (k, va', p', w)) \<and> emits prog w t"
proof -
  have a: "0 \<le> p_width p" "p_width p < 2 ^ 31" using p by (auto simp: alike_def)
  note defs = spec_conversion_def va_arg_def
  consider (num) "c \<in> {ch (CHR ''u''), ch (CHR ''d''), ch (CHR ''i''), ch (CHR ''x''), ch (CHR ''X''), ch (CHR ''o'')}"
    | (c) "c = ch (CHR ''c'')" | (s) "c = ch (CHR ''s'')" | (pc) "c = ch (CHR ''%'')"
    | (other) "c \<notin> {ch (CHR ''u''), ch (CHR ''d''), ch (CHR ''i''), ch (CHR ''x''), ch (CHR ''X''), ch (CHR ''o''), ch (CHR ''c''), ch (CHR ''s''), ch (CHR ''%'')}"
    by auto
  then show ?thesis
  proof cases
    case num
    then show ?thesis using conversion_number [OF c p] by blast
  next
    case c
    then obtain x where "va = x # va'" "t = [ucast x]" using assms(1) by (cases va) (auto simp: defs)
    then show ?thesis using emits_putf c by (auto simp: conversion_def va_arg_def)
  next
    case s
    then obtain x s where v: "va = x # va'" "S x = Some s" "\<not> p_alt sp" and t: "t = field sp s"
      using assms(1) by (cases va) (auto simp: defs split: bind_splits if_splits)
    let ?p = "p\<lparr>p_bf := Mem x\<rparr>"
    have "emits (putchw f ?p) w (field ?p s)" using S v(2) a by (intro emits_putchw) (auto simp: strings_at_def)
    moreover have "field ?p s = t" unfolding t using p v(3) by (simp add: field_def prefix_text_def alike_def Let_def)
    ultimately show ?thesis using s v(1) by (auto simp: conversion_def va_arg_def)
  next
    case pc
    then have "va' = va" "t = [c]" using assms(1) by (auto simp: defs)
    then show ?thesis using emits_putf pc by (auto simp: conversion_def)
  next
    case other
    then have "va' = va" "t = []" using assms(1) by (auto simp: defs)
    then show ?thesis using other by (intro exI [of _ "\<lambda>w. Some (0, w)"]) (auto simp: conversion_def emits_def)
  qed
qed

end

lemma suffix_at_frame:
  assumes "suffix_at m s cs0 q cs" and "region s (Suc (length cs0)) \<inter> own = {}" and "\<forall>a. a \<notin> own \<longrightarrow> m' a = m a"
  shows "suffix_at m' s cs0 q cs"
proof -
  have "cstr m' q cs = cstr m q cs" using assms by (intro cstr_cong) (auto simp: suffix_at_def)
  then show ?thesis using assms(1) by (simp add: suffix_at_def)
qed

lemma spec_directive_sane: "spec_directive cs = Some (cs', sp) \<Longrightarrow> p_sign sp = 0 \<and> 0 \<le> p_width sp \<and> p_width sp < 2 ^ 31"
proof -
  assume d: "spec_directive cs = Some (cs', sp)"
  have "0 \<le> dec_val (takeWhile is_dec ds)" for ds
    using dec_fold_mono [of 0 "takeWhile is_dec ds"] by (auto simp: dec_val_def dest: set_takeWhileD)
  moreover have "dec_val [] = 0" by (simp add: dec_val_def)
  ultimately show ?thesis using d by (auto simp: spec_directive_def Let_def split: prod.splits if_splits)
qed

context byte_sink
begin

text \<open>Formatted output makes the stream receive the text of the format.\<close>

lemma format_ok:
  assumes "render S cs va = Some t" and "suffix_at (f_mem f w) s cs0 fmt cs" and "region s (Suc (length cs0)) \<inter> own = {}"
    and "strings_at own (f_mem f w) S"
  shows "emits (format_loop f fmt va p k) w t"
  using assms
proof (induction S cs va arbitrary: fmt p k w t rule: render.induct)
  case (1 S va)
  then have "format_loop f fmt va p k w = Some (k, w)" using suffix_at_Nil [OF 1(2)] by (subst format_loop.simps) simp
  then show ?case using 1(1) by (simp add: emits_def render.simps)
next
  case (2 S c cs va)
  let ?m = "f_mem f w"
  have c: "?m fmt = c" "c \<noteq> 0" and q: "suffix_at ?m s cs0 (fmt + 1) cs" using suffix_at_Cons [OF 2(4)] by auto
  note frame = suffix_at_frame [OF _ 2(5)] strings_at_frame [OF 2(6)]
  show ?case
  proof (cases "c = ch (CHR ''%'')")
    case False
    then obtain t' where t: "render S cs va = Some t'" "t = [c] @ t'" using 2(3) by (auto simp: render.simps split: bind_splits)
    have "emits (\<lambda>w. Option.bind (putf f c w) (\<lambda>(j, w). format_loop f (fmt + 1) va p (k + j) w)) w t" unfolding t(2)
      by (rule emits_bind [OF emits_putf], rule 2(1) [OF False t(1) frame(1) [OF q] 2(5) frame(2)])
    moreover have "format_loop f fmt va p k w = Option.bind (putf f c w) (\<lambda>(j, w). format_loop f (fmt + 1) va p (k + j) w)"
      using c False by (subst format_loop.simps) simp
    ultimately show ?thesis by (simp add: emits_def)
  next
    case True
    then obtain cs' sp where d: "spec_directive cs = Some (cs', sp)" using 2(3) by (auto simp: render.simps split: option.splits)
    obtain q' p' where q': "directive ?m (fmt + 1) p = Some (?m q', q' + 1, p')" "suffix_at ?m s cs0 q' cs'" "alike p' sp"
      using directive_ok [OF q d] by blast
    show ?thesis
    proof (cases cs')
      case Nil
      then have "format_loop f fmt va p k w = Some (k, w)" using c True q' suffix_at_Nil by (subst format_loop.simps) simp
      moreover have "t = []" using 2(3) True d Nil by (simp add: render.simps)
      ultimately show ?thesis by (simp add: emits_def)
    next
      case (Cons c' cs2)
      then obtain t1 va' t2 where t: "spec_conversion S c' va sp = Some (t1, va')" "render S cs2 va' = Some t2" "t = t1 @ t2"
        using 2(3) True d by (auto simp: render.simps split: bind_splits)
      have c': "?m q' = c'" "c' \<noteq> 0" and q2: "suffix_at ?m s cs0 (q' + 1) cs2" using suffix_at_Cons q'(2) Cons by auto
      obtain prog p2 where v: "conversion f c' va p' w = Option.bind (prog w) (\<lambda>(k, w). Some (k, va', p2, w))" "emits prog w t1"
        using conversion_ok [OF t(1) q'(3) _ _ _ 2(6)] spec_directive_sane [OF d] by auto
      have ih: "emits (format_loop f (q' + 1) va' p2 k') w' t2"
        if "\<forall>a. a \<notin> own \<longrightarrow> f_mem f w' a = f_mem f w a" for w' k'
        using 2(2) [of "(cs', sp)" cs' sp c' cs2 "(t1, va')" t1 va' t2 w' "q' + 1" p2 k'] True d Cons t frame(1) [OF q2 that] 2(5) frame(2) [OF that]
        by simp
      have "emits (\<lambda>w. Option.bind (prog w) (\<lambda>(j, w). format_loop f (q' + 1) va' p2 (k + j) w)) w t" unfolding t(3)
        by (rule emits_bind [OF v(2)], rule ih)
      moreover have "format_loop f fmt va p k w = Option.bind (prog w) (\<lambda>(j, w). format_loop f (q' + 1) va' p2 (k + j) w)"
        using c True q'(1) c' v(1) by (subst format_loop.simps) (cases "prog w"; auto)
      ultimately show ?thesis by (simp add: emits_def)
    qed
  qed
qed

end

section \<open>Printing to memory\<close>

lemma strings_at_mono: "strings_at own m S \<Longrightarrow> own' \<subseteq> own \<Longrightarrow> strings_at own' m S"
  by (fastforce simp: strings_at_def)

text \<open>The number of characters that a buffer of \<open>sz\<close> bytes takes; a size of 0 becomes the largest \<open>size_t\<close>.\<close>

lemma vsnprintf_ok:
  assumes r: "render S cs va = Some t" and t: "length t < 2 ^ 31" and fmt: "cstr m fmt cs"
    and L: "L = min (length t) (unat (sz - 1))" and own: "own = insert stack (region str L)" and st: "stack \<notin> region str L"
    and f: "region fmt (Suc (length cs)) \<inter> own = {}" and S: "strings_at own m S"
  shows "\<exists>m'. vsnprintf stack p str sz fmt va m = Some (int (length t), m') \<and> bytes_at m' str L = take L t
    \<and> m' (str + of_nat L) = 0 \<and> (\<forall>a. a \<notin> insert stack (region str (Suc L)) \<longrightarrow> m' a = m a)"
proof -
  let ?f = "MemFile_methods stack" and ?w = "(fmemopen_w str (sz - 1), m)" and ?n = "length t"
  have mem: "f_mem ?f w = snd w" for w by (simp add: MemFile_methods_def)
  have o: "insert stack (region str (min ?n (unat (sz - 1)))) = own" using own L by simp
  note format = memfile.format_ok [where stack = stack and str = str and sz = "sz - 1" and n = ?n and w = ?w, unfolded mem snd_conv]
  have em: "memfile.emits stack str (sz - 1) ?n (format_loop ?f fmt va (p\<lparr>p_bf := Local []\<rparr>) 0) ?w t"
    by (rule format [OF r suffix_at_refl [OF fmt]]) (unfold o, rule f, rule S)
  have "mf_sink stack str (sz - 1) ?n [] ?w" using t st L by (intro mf_sink_start) auto
  from memfile.emitsE [OF em this] obtain k w' where e: "format_loop ?f fmt va (p\<lparr>p_bf := Local []\<rparr>) 0 ?w = Some (k, w')"
    "mf_sink stack str (sz - 1) ?n t w'" "\<forall>a. a \<notin> own \<longrightarrow> snd w' a = m a"
    unfolding o mem by auto
  obtain g m1 where w': "w' = (g, m1)" by fastforce
  have g: "mf_bytes_written g = of_nat (length t)" "mf_buffer g = str + of_nat L" "bytes_at m1 str L = take L t"
    using e(2) L w' by (auto simp: mf_sink_def min_def)
  have "sint (of_nat (length t) :: uint) = int (length t)" using t by (subst sint_small) (simp_all add: unat_of_nat unsigned_of_nat take_bit_nat_eq_self)
  then have "vsnprintf stack p str sz fmt va m = Some (int (length t), m1(str + of_nat L := 0))"
    using e(1) g w' by (simp add: vsnprintf_def tfp_format_def)
  moreover have "L < 2 ^ 32" using L t by simp
  then have "str + of_nat L \<notin> region str L" by (intro offset_notin_region) auto
  then have "bytes_at (m1(str + of_nat L := 0)) str L = take L t" using g(3) by (simp add: bytes_at_upd_other)
  moreover have "str + of_nat L \<in> region str (Suc L)" "region str L \<subseteq> region str (Suc L)" by (auto simp: region_def)
  then have "\<forall>a. a \<notin> insert stack (region str (Suc L)) \<longrightarrow> (m1(str + of_nat L := 0)) a = m a" using e(3) own w' by auto
  ultimately show ?thesis by simp
qed

text \<open>The text of \<open>%d\<close>.\<close>

definition int_text :: "int \<Rightarrow> byte list" where
  "int_text x = (if x < 0 then [ch (CHR ''-'')] else []) @ num_text False 10 (nat \<bar>x\<bar>)"

lemma render_int: "render S [ch (CHR ''%''), ch (CHR ''d'')] [x] = Some (int_text (sint x))"
  by (simp add: render.simps spec_directive_def Let_def is_dec_def dec_val_def spec_conversion_def va_arg_def field_def
      prefix_text_def int_text_def)

lemma int_text_length: "length (int_text (sint x)) \<le> 11" for x :: uint
proof -
  have "nat \<bar>sint x\<bar> < 10 ^ Suc 9" using unat_abs [of x] unat32_less [of "if sint x < 0 then - x else x"] by simp
  then have "length (num_text False 10 (nat \<bar>sint x\<bar>)) \<le> Suc 9" by (intro num_text_length_pow) simp_all
  then show ?thesis by (auto simp: int_text_def abs_if split: if_splits)
qed

lemma int_text_no_nul: "0 \<notin> set (int_text x)"
  using num_text_no_nul [of 10 False "nat \<bar>x\<bar>"] by (auto simp: int_text_def)

lemma atoi_int_text:
  assumes "cstr m s (int_text (sint x))"
  shows "atoi m s = sint (x :: uint)"
proof -
  let ?n = "nat \<bar>sint x\<bar>" and ?sg = "if sint x < 0 then [ch (CHR ''-'')] else []"
  have v: "digits_val 10 (num_text False 10 ?n) = int ?n" using num_text_val [of 10 False ?n] by simp
  have "strntoumax m s 10 (NOT 0) = ((if ?sg = [ch (CHR ''-'')] then - word_of_int (int ?n) else word_of_int (int ?n)),
      s + of_nat (length ([] @ ?sg @ [] @ num_text False 10 ?n)))"
    using strntoumax_ok [of m s "[]" ?sg "[]" "num_text False 10 ?n" "[]" 10 10 "NOT 0"] assms
      num_text_numeral [of 10 False ?n] int_text_length [of x] v
    by (simp add: is_sign_def int_text_def unsigned_minus_1_eq_mask mask_eq_exp_minus_1)
  then have "atoi m s = sint (word_of_int (sint x) :: uint)" by (auto simp: atoi_def)
  then show ?thesis by simp
qed

section \<open>Properties\<close>

text \<open>\<open>ui2a\<close> terminates for the three bases that are used; it leaves the digits of the number, without leading zeros,
  and they fit with the terminating null byte into the 12 bytes of the local buffer.\<close>

lemma ui2a_fits_buffer:
  assumes "p_base p = 8 \<or> p_base p = 10 \<or> p_base p = 16"
  shows "\<exists>ds. ui2a num p = Some (p\<lparr>p_bf := Local ds\<rparr>) \<and> length ds + 1 \<le> 12
    \<and> digits_val (uint (p_base p)) ds = uint num \<and> ds = num_text (p_uc p) (unat (p_base p)) (unat num)"
proof -
  let ?b = "unat (p_base p)"
  have b: "1 < ?b" "8 \<le> ?b" "?b \<le> 36" using assms by auto
  have "unat num < 8 ^ Suc 10" using unat32_less [of num] by simp
  also have "(8::nat) ^ Suc 10 \<le> ?b ^ Suc 10" using b(2) by (intro power_mono) auto
  finally have "length (num_text (p_uc p) ?b (unat num)) \<le> Suc 10" by (rule num_text_length_pow [OF b(1)])
  moreover have "digits_val (int ?b) (num_text (p_uc p) ?b (unat num)) = int (unat num)"
    using num_text_val [OF b(1,3)] by blast
  ultimately show ?thesis using ui2a_ok [OF b(1,3)] by simp
qed

lemma ui2a_fits_buffer_witness:
  "\<exists>ds. ui2a 255 \<lparr>p_width = 0, p_lz = False, p_sign = 0, p_alt = False, p_base = 16, p_uc = False, p_bf = Local []\<rparr>
     = Some \<lparr>p_width = 0, p_lz = False, p_sign = 0, p_alt = False, p_base = 16, p_uc = False, p_bf = Local ds\<rparr> \<and> length ds \<le> 11"
  using ui2a_fits_buffer [of "\<lparr>p_width = 0, p_lz = False, p_sign = 0, p_alt = False, p_base = 16, p_uc = False, p_bf = Local []\<rparr>" 255]
  by auto

text \<open>C20 \<open>vsnprintf\<close> with a size of at least 1 returns the length of the formatted text, leaves as much of it as fits in
  the buffer followed by a null byte, and writes nothing behind the buffer.\<close>

theorem vsnprintf_truncates:
  assumes "render S cs va = Some t" and "length t < 2 ^ 31" and "cstr m fmt cs" and "sz \<noteq> 0"
    and "stack \<notin> region str (unat sz)" and "region fmt (Suc (length cs)) \<inter> insert stack (region str (unat sz)) = {}"
    and "strings_at (insert stack (region str (unat sz))) m S"
  shows "\<exists>m' k. vsnprintf stack p str sz fmt va m = Some (int (length t), m') \<and> k = min (length t) (unat sz - 1)
    \<and> bytes_at m' str k = take k t \<and> m' (str + of_nat k) = 0 \<and> (\<forall>a. a \<in> insert stack (region str (unat sz)) \<or> m' a = m a)"
proof -
  let ?L = "min (length t) (unat sz - 1)"
  have s: "unat (sz - 1) = unat sz - 1" using assms(4) by (simp add: unat_minus_one)
  have "0 < unat sz" using assms(4) by (simp add: unat_gt_0)
  then have sub: "region str ?L \<subseteq> region str (unat sz)" "region str (Suc ?L) \<subseteq> region str (unat sz)" by (auto intro!: region_mono)
  have "\<exists>m'. vsnprintf stack p str sz fmt va m = Some (int (length t), m') \<and> bytes_at m' str ?L = take ?L t
    \<and> m' (str + of_nat ?L) = 0 \<and> (\<forall>a. a \<notin> insert stack (region str (Suc ?L)) \<longrightarrow> m' a = m a)"
    using assms sub by (intro vsnprintf_ok [OF assms(1-3), where own = "insert stack (region str ?L)"])
      (auto simp: s intro: strings_at_mono)
  then show ?thesis using sub by blast
qed


text \<open>Printing and reading are inverse: for every \<open>int\<close>, the string that \<open>snprintf\<close> makes with \<open>%d\<close> in a buffer of at least 12
  bytes is read back by \<open>atoi\<close> as the same number.\<close>

lemma snprintf_atoi_roundtrip:
  assumes "cstr m fmt [ch (CHR ''%''), ch (CHR ''d'')]" and "12 \<le> unat sz" and "stack \<notin> region str (unat sz)"
    and "region fmt 3 \<inter> insert stack (region str (unat sz)) = {}"
  shows "\<exists>n m'. snprintf stack p str sz fmt [x] m = Some (n, m') \<and> atoi m' str = sint x"
proof -
  let ?t = "int_text (sint x)" and ?L = "min (length (int_text (sint x))) (unat (sz - 1))"
  have s: "unat (sz - 1) = unat sz - 1" using assms(2) by (intro unat_minus_one) auto
  have L: "?L = length ?t" using s assms(2) int_text_length [of x] by simp
  have sub: "region str (length ?t) \<subseteq> region str (unat sz)" using assms(2) int_text_length [of x] by (intro region_mono) simp
  have "\<exists>m'. vsnprintf stack p str sz fmt [x] m = Some (int (length ?t), m') \<and> bytes_at m' str ?L = take ?L ?t
    \<and> m' (str + of_nat ?L) = 0 \<and> (\<forall>a. a \<notin> insert stack (region str (Suc ?L)) \<longrightarrow> m' a = m a)"
  proof (rule vsnprintf_ok [OF render_int [of "\<lambda>_. None"] _ assms(1) refl refl])
    show "length ?t < 2 ^ 31" using int_text_length [of x] by simp
    show "stack \<notin> region str ?L" unfolding L using assms(3) sub by blast
    show "region fmt (Suc (length [ch (CHR ''%''), ch (CHR ''d'')])) \<inter> insert stack (region str ?L) = {}"
      unfolding L using assms(4) sub by (auto simp: numeral_3_eq_3)
    show "strings_at (insert stack (region str ?L)) m (\<lambda>_. None)" by (simp add: strings_at_def)
  qed
  then obtain m' where m': "vsnprintf stack p str sz fmt [x] m = Some (int (length ?t), m')" "bytes_at m' str (length ?t) = ?t"
    "m' (str + of_nat (length ?t)) = 0" unfolding L by auto
  then have "cstr m' str ?t" using int_text_no_nul [of "sint x"] by (simp add: cstr_iff)
  then show ?thesis using atoi_int_text m'(1) by (auto simp: snprintf_def)
qed

definition any_param :: param where
  "any_param = \<lparr>p_width = 0, p_lz = False, p_sign = 0, p_alt = False, p_base = 0, p_uc = False, p_bf = Local []\<rparr>"

lemma snprintf_atoi_roundtrip_witness:
  "\<exists>n m'. snprintf 0x1000 any_param 0x100 16 0x200 [-42] ((\<lambda>_. 0)(0x200 := 37, 0x201 := 100)) = Some (n, m') \<and> atoi m' 0x100 = -42"
proof -
  have "region 0x200 3 \<inter> insert 0x1000 (region 0x100 (unat (16 :: uint))) = {}" "0x1000 \<notin> region 0x100 (unat (16 :: uint))"
    using region_disjoint [of "0x100" "16" "0x200" 3] by (auto simp: region_eq_uint)
  then show ?thesis
    using snprintf_atoi_roundtrip [of "(\<lambda>_. 0)(0x200 := 37, 0x201 := 100)" "0x200" 16 "0x1000" "0x100" any_param "-42"] by simp
qed

theorem vsnprintf_truncates_witness:
  "\<exists>m'. vsnprintf 0x1000 any_param 0x100 2 0x200 [-42] ((\<lambda>_. 0)(0x200 := 37, 0x201 := 100)) = Some (int (length (int_text (-42))), m')
     \<and> m' 0x101 = 0"
proof -
  let ?m = "(\<lambda>_. 0)(0x200 := 37, 0x201 := 100) :: mem"
  have r: "region 0x200 3 \<inter> insert 0x1000 (region 0x100 (unat (2 :: uint))) = {}" "0x1000 \<notin> region 0x100 (unat (2 :: uint))"
    using region_disjoint [of "0x100" "2" "0x200" 3] by (auto simp: region_eq_uint)
  have t: "render (\<lambda>_. None) [37, 100] [-42] = Some (int_text (-42))" using render_int [of "\<lambda>_. None" "-42"] by simp
  have l: "length (int_text (-42)) < 2 ^ 31" "min (length (int_text (-42))) (unat (2::uint) - 1) = 1"
    using int_text_length [of "-42"] num_text_nonempty [of False 10 42] by (auto simp: int_text_def Suc_le_eq)
  show ?thesis
    using vsnprintf_truncates [OF t l(1), of ?m "0x200" 2 "0x1000" "0x100" any_param] r l(2) by (auto simp: strings_at_def numeral_3_eq_3)
qed




end
