(* ===== verification/Scanf.thy ===== *)
theory Scanf
  imports Printf
begin

text \<open>
  Formatted input (\<open>sw/sys-libs/libc/vsscanf.c\<close>, \<open>sscanf.c\<close>).  The local variables of \<open>vsscanf\<close> that live across
  iterations of its loop are a record, with the memory and the argument list beside them; \<open>scan_step\<close> is the body of
  the loop, with one definition for each large case of its switch.  An argument is the address that the value is
  stored to; taking one that is not there is \<open>None\<close>.
\<close>

section \<open>Definitions\<close>

abbreviation (input) FL_SPLAT :: uint where "FL_SPLAT \<equiv> 0x01"
abbreviation (input) FL_INV :: uint where "FL_INV \<equiv> 0x02"
abbreviation (input) FL_WIDTH :: uint where "FL_WIDTH \<equiv> 0x04"

abbreviation (input) rank_char :: int where "rank_char \<equiv> - 2"
abbreviation (input) rank_short :: int where "rank_short \<equiv> - 1"
abbreviation (input) rank_int :: int where "rank_int \<equiv> 0"
abbreviation (input) rank_long :: int where "rank_long \<equiv> 1"
abbreviation (input) rank_longlong :: int where "rank_longlong \<equiv> 2"
abbreviation (input) rank_ptr :: int where "rank_ptr \<equiv> 2 ^ 31 - 1"

datatype bail = bail_none | bail_eof | bail_err

datatype scan_state = st_normal | st_flags | st_width | st_modifiers | st_match_init | st_match | st_match_range

record scan =
  sc_p :: addr
  sc_q :: addr
  sc_rank :: int
  sc_width :: uint
  sc_flags :: uint
  sc_state :: scan_state
  sc_sarg :: addr
  sc_bail :: bail
  sc_converted :: int
  sc_matchmap :: "uint list"
  sc_matchinv :: uint
  sc_range_start :: byte
  sc_ap :: "uint list"
  sc_mem :: mem

partial_function (option) skipspace :: "mem \<Rightarrow> addr \<Rightarrow> addr option" where
  "skipspace m p = (if isspace (uint (m p)) then skipspace m (p + 1) else Some p)"

text \<open>The match map: 256 bits in eight words of \<open>LONG_BIT = 32\<close> bits.\<close>

definition set_bit_ul :: "uint list \<Rightarrow> uint \<Rightarrow> uint list" where
  "set_bit_ul bitmap b = (let i = unat (b div 32) in bitmap[i := bitmap ! i OR push_bit (unat (b mod 32)) 1])"

definition test_bit :: "uint list \<Rightarrow> uint \<Rightarrow> uint" where
  "test_bit bitmap b = drop_bit (unat (b mod 32)) (bitmap ! unat (b div 32)) AND 1"

text \<open>\<open>st_normal\<close>, \<open>st_flags\<close> and \<open>st_width\<close>.\<close>

definition scan_normal :: "byte \<Rightarrow> scan \<Rightarrow> scan option" where
  "scan_normal c s =
     (if c = ch (CHR ''%'') then
        Some (s\<lparr>sc_state := st_flags, sc_flags := 0, sc_rank := rank_int, sc_width := NOT 0\<rparr>)
      else if isspace (uint c) then
        (case skipspace (sc_mem s) (sc_q s) of None \<Rightarrow> None | Some q \<Rightarrow> Some (s\<lparr>sc_q := q\<rparr>))
      else if sc_mem s (sc_q s) = c then Some (s\<lparr>sc_q := sc_q s + 1\<rparr>)
      else Some (s\<lparr>sc_bail := bail_err\<rparr>))"

definition scan_flags :: "byte \<Rightarrow> scan \<Rightarrow> scan" where
  "scan_flags c s =
     (if c = ch (CHR ''*'') then s\<lparr>sc_flags := sc_flags s OR FL_SPLAT\<rparr>
      else if ch (CHR ''0'') \<le> c \<and> c \<le> ch (CHR ''9'') then
        s\<lparr>sc_width := ucast c - of_char (CHR ''0''), sc_state := st_width, sc_flags := sc_flags s OR FL_WIDTH\<rparr>
      else s\<lparr>sc_state := st_modifiers, sc_p := sc_p s - 1\<rparr>)"

definition scan_width :: "byte \<Rightarrow> scan \<Rightarrow> scan" where
  "scan_width c s =
     (if ch (CHR ''0'') \<le> c \<and> c \<le> ch (CHR ''9'') then
        s\<lparr>sc_width := sc_width s * 10 + (ucast c - of_char (CHR ''0''))\<rparr>
      else s\<lparr>sc_state := st_modifiers, sc_p := sc_p s - 1\<rparr>)"

text \<open>The labels \<open>set_integer\<close> and \<open>scan_int\<close>: a value of 32 bits is stored at the width of the rank.\<close>

definition set_integer :: "uint \<Rightarrow> scan \<Rightarrow> scan option" where
  "set_integer val s =
     (if sc_flags s AND FL_SPLAT = 0 then
        if sc_rank s \<in> {rank_char, rank_short, rank_int, rank_long, rank_longlong, rank_ptr} then do {
          (a, ap) \<leftarrow> va_arg (sc_ap s);
          Some (s\<lparr>sc_ap := ap, sc_mem :=
            (if sc_rank s = rank_char then (sc_mem s)(a := ucast val)
             else if sc_rank s = rank_short then store_bytes (sc_mem s) a [ucast val, ucast (drop_bit 8 val)]
             else if sc_rank s = rank_longlong then store_bytes (sc_mem s) a (le_bytes val @ le_bytes 0)
             else store32 (sc_mem s) a val)\<rparr>) }
        else Some s
      else Some s)"

definition scan_int :: "int \<Rightarrow> scan \<Rightarrow> scan option" where
  "scan_int base s = do {
     q \<leftarrow> skipspace (sc_mem s) (sc_q s);
     let s = s\<lparr>sc_q := q\<rparr>;
     if sc_mem s q = 0 then Some (s\<lparr>sc_bail := bail_eof\<rparr>)
     else
       let (val, qq) = strntoumax (sc_mem s) q base (sc_width s) in
       if qq = q then Some (s\<lparr>sc_bail := bail_err\<rparr>)
       else
         let s = s\<lparr>sc_q := qq\<rparr>;
             s = (if sc_flags s AND FL_SPLAT = 0 then s\<lparr>sc_converted := i32 (sc_converted s + 1)\<rparr> else s)
         in set_integer val s }"

text \<open>\<open>%c\<close>: the loop that drops the characters tests them and does not advance.\<close>

function drop_chars :: "mem \<Rightarrow> addr \<Rightarrow> uint \<Rightarrow> bail \<Rightarrow> bail" where
  "drop_chars m q width b =
     (if width \<noteq> 0 then if m q = 0 then bail_eof else drop_chars m q (width - 1) b else b)"
  by pat_completeness auto
termination
  by (relation "measure (\<lambda>(m, q, n, b). unat n)") (auto simp: unat_pred_less)

function copy_chars :: "addr \<Rightarrow> addr \<Rightarrow> uint \<Rightarrow> bail \<Rightarrow> mem \<Rightarrow> addr \<times> addr \<times> bail \<times> mem" where
  "copy_chars q sarg width b m =
     (if width \<noteq> 0 then
        if m q = 0 then (q, sarg, bail_eof, m)
        else copy_chars (q + 1) (sarg + 1) (width - 1) b (m(sarg := m q))
      else (q, sarg, b, m))"
  by pat_completeness auto
termination
  by (relation "measure (\<lambda>(q, p, n, b, m). unat n)") (auto simp: unat_pred_less)

definition scan_char :: "scan \<Rightarrow> scan option" where
  "scan_char s =
     (let width = (if sc_flags s AND FL_WIDTH \<noteq> 0 then sc_width s else 1) in
      if sc_flags s AND FL_SPLAT \<noteq> 0 then
        Some (s\<lparr>sc_bail := drop_chars (sc_mem s) (sc_q s) width (sc_bail s)\<rparr>)
      else do {
        (sarg, ap) \<leftarrow> va_arg (sc_ap s);
        let (q, sarg, b, m) = copy_chars (sc_q s) sarg width (sc_bail s) (sc_mem s);
        Some (s\<lparr>sc_ap := ap, sc_q := q, sc_sarg := sarg, sc_bail := b, sc_mem := m,
          sc_converted := (if b = bail_none then i32 (sc_converted s + 1) else sc_converted s)\<rparr>) })"

text \<open>\<open>%s\<close>.  The loops return the last character they looked at.\<close>

function drop_word :: "mem \<Rightarrow> addr \<Rightarrow> uint \<Rightarrow> byte \<Rightarrow> addr \<times> byte" where
  "drop_word m q width uc =
     (if width \<noteq> 0 then
        if m q \<noteq> 0 \<and> \<not> isspace (uint (m q)) then drop_word m (q + 1) (width - 1) (m q) else (q, m q)
      else (q, uc))"
  by pat_completeness auto
termination
  by (relation "measure (\<lambda>(m, q, n, uc). unat n)") (auto simp: unat_pred_less)

function copy_word :: "addr \<Rightarrow> addr \<Rightarrow> uint \<Rightarrow> byte \<Rightarrow> mem \<Rightarrow> addr \<times> addr \<times> byte \<times> mem" where
  "copy_word q sp width uc m =
     (if width \<noteq> 0 then
        if m q \<noteq> 0 \<and> \<not> isspace (uint (m q))
        then copy_word (q + 1) (sp + 1) (width - 1) (m q) (m(sp := m q)) else (q, sp, m q, m)
      else (q, sp, uc, m))"
  by pat_completeness auto
termination
  by (relation "measure (\<lambda>(q, p, n, uc, m). unat n)") (auto simp: unat_pred_less)

definition scan_string :: "scan \<Rightarrow> scan option" where
  "scan_string s =
     (if sc_flags s AND FL_SPLAT \<noteq> 0 then
        let (q, uc) = drop_word (sc_mem s) (sc_q s) (sc_width s) 1 in
        Some (s\<lparr>sc_q := q, sc_bail := (if uc = 0 then bail_eof else sc_bail s)\<rparr>)
      else do {
        (sarg, ap) \<leftarrow> va_arg (sc_ap s);
        let (q, sp, uc, m) = copy_word (sc_q s) sarg (sc_width s) 1 (sc_mem s);
        let s = s\<lparr>sc_ap := ap, sc_sarg := sarg, sc_q := q, sc_mem := m\<rparr>;
        let s = (if sarg \<noteq> sp then s\<lparr>sc_mem := m(sp := 0), sc_converted := i32 (sc_converted s + 1)\<rparr> else s);
        Some (if uc = 0 then s\<lparr>sc_bail := bail_eof\<rparr> else s) })"

text \<open>\<open>st_modifiers\<close>: the length modifiers, and behind them the conversion.\<close>

definition scan_conversion :: "addr \<Rightarrow> byte \<Rightarrow> scan \<Rightarrow> scan option" where
  "scan_conversion buffer c s =
     (if c = ch (CHR ''P'') \<or> c = ch (CHR ''p'') then scan_int 0 (s\<lparr>sc_rank := rank_ptr\<rparr>)
      else if c = ch (CHR ''i'') then scan_int 0 s
      else if c = ch (CHR ''d'') then scan_int 10 s
      else if c = ch (CHR ''o'') then scan_int 8 s
      else if c = ch (CHR ''u'') then scan_int 10 s
      else if c = ch (CHR ''x'') \<or> c = ch (CHR ''X'') then scan_int 16 s
      else if c = ch (CHR ''n'') then set_integer (sc_q s - buffer) s
      else if c = ch (CHR ''c'') then scan_char s
      else if c = ch (CHR ''s'') then scan_string s
      else if c = ch (CHR ''['') then do {
        (sarg, ap) \<leftarrow> (if sc_flags s AND FL_SPLAT \<noteq> 0 then Some (NULL, sc_ap s) else va_arg (sc_ap s));
        Some (s\<lparr>sc_sarg := sarg, sc_ap := ap, sc_state := st_match_init, sc_matchinv := 0, sc_matchmap := replicate 8 0\<rparr>) }
      else if c = ch (CHR ''%'') then
        (if sc_mem s (sc_q s) = ch (CHR ''%'') then Some (s\<lparr>sc_q := sc_q s + 1\<rparr>) else Some (s\<lparr>sc_bail := bail_err\<rparr>))
      else Some (s\<lparr>sc_bail := bail_err\<rparr>))"

definition scan_modifiers :: "addr \<Rightarrow> byte \<Rightarrow> scan \<Rightarrow> scan option" where
  "scan_modifiers buffer c s =
     (if c = ch (CHR ''h'') then Some (s\<lparr>sc_rank := i32 (sc_rank s - 1)\<rparr>)
      else if c = ch (CHR ''l'') then Some (s\<lparr>sc_rank := i32 (sc_rank s + 1)\<rparr>)
      else if c = ch (CHR ''j'') then Some (s\<lparr>sc_rank := rank_longlong\<rparr>)
      else if c = ch (CHR ''z'') then Some (s\<lparr>sc_rank := rank_long\<rparr>)
      else if c = ch (CHR ''t'') then Some (s\<lparr>sc_rank := rank_long\<rparr>)
      else if c = ch (CHR ''L'') \<or> c = ch (CHR ''q'') then Some (s\<lparr>sc_rank := rank_longlong\<rparr>)
      else scan_conversion buffer c (s\<lparr>sc_state := st_normal, sc_rank :=
        (if sc_rank s < rank_char then rank_char else if sc_rank s > rank_longlong then rank_longlong else sc_rank s)\<rparr>))"

text \<open>The states of a \<open>%[\<close> sequence and \<open>match_run\<close>, which leaves the state as it is.\<close>

partial_function (option) match_loop ::
  "uint list \<Rightarrow> uint \<Rightarrow> uint \<Rightarrow> addr \<Rightarrow> addr \<Rightarrow> byte \<Rightarrow> mem \<Rightarrow> (addr \<times> addr \<times> byte \<times> mem) option" where
  "match_loop matchmap matchinv width q sarg uc m =
     (if width \<noteq> 0 then
        if m q \<noteq> 0 \<and> test_bit matchmap (ucast (m q)) XOR matchinv \<noteq> 0
        then match_loop matchmap matchinv width (q + 1) (if sarg \<noteq> NULL then sarg + 1 else sarg) (m q)
               (if sarg \<noteq> NULL then m(sarg := m q) else m)
        else Some (q, sarg, m q, m)
      else Some (q, sarg, uc, m))"

definition match_run :: "scan \<Rightarrow> scan option" where
  "match_run s = do {
     (q, sarg, uc, m) \<leftarrow>
       match_loop (sc_matchmap s) (sc_matchinv s) (sc_width s) (sc_q s) (sc_sarg s) 1 (sc_mem s);
     let s' = s\<lparr>sc_q := q, sc_sarg := sarg, sc_mem := m\<rparr>;
     let s' = (if q \<noteq> sc_q s \<and> sarg \<noteq> NULL
               then s'\<lparr>sc_mem := m(sarg := 0), sc_converted := i32 (sc_converted s + 1)\<rparr>
               else s'\<lparr>sc_bail := bail_err\<rparr>);
     Some (if uc = 0 then s'\<lparr>sc_bail := bail_eof\<rparr> else s') }"

definition scan_match_init :: "byte \<Rightarrow> scan \<Rightarrow> scan" where
  "scan_match_init c s =
     (if c = ch (CHR ''^'') \<and> sc_flags s AND FL_INV = 0 then s\<lparr>sc_matchinv := 1\<rparr>
      else s\<lparr>sc_matchmap := set_bit_ul (sc_matchmap s) (ucast c), sc_state := st_match\<rparr>)"

definition scan_match :: "byte \<Rightarrow> scan \<Rightarrow> scan option" where
  "scan_match c s =
     (if c = ch (CHR '']'') then match_run s
      else if c = ch (CHR ''-'') then Some (s\<lparr>sc_range_start := c, sc_state := st_match_range\<rparr>)
      else Some (s\<lparr>sc_matchmap := set_bit_ul (sc_matchmap s) (ucast c)\<rparr>))"

definition scan_match_range :: "byte \<Rightarrow> scan \<Rightarrow> scan option" where
  "scan_match_range c s =
     (if c = ch (CHR '']'') then match_run (s\<lparr>sc_matchmap := set_bit_ul (sc_matchmap s) (of_char (CHR ''-''))\<rparr>)
      else Some (s\<lparr>sc_matchmap := foldl (\<lambda>mm i. set_bit_ul mm (of_nat i)) (sc_matchmap s) [unat (sc_range_start s)..<unat c],
             sc_state := st_match\<rparr>))"

definition scan_step :: "addr \<Rightarrow> byte \<Rightarrow> scan \<Rightarrow> scan option" where
  "scan_step buffer c s =
     (case sc_state s of
        st_normal \<Rightarrow> scan_normal c s
      | st_flags \<Rightarrow> Some (scan_flags c s)
      | st_width \<Rightarrow> Some (scan_width c s)
      | st_modifiers \<Rightarrow> scan_modifiers buffer c s
      | st_match_init \<Rightarrow> Some (scan_match_init c s)
      | st_match \<Rightarrow> scan_match c s
      | st_match_range \<Rightarrow> scan_match_range c s)"

partial_function (option) vsscanf_loop :: "addr \<Rightarrow> scan \<Rightarrow> scan option" where
  "vsscanf_loop buffer s =
     (let c = sc_mem s (sc_p s); s = s\<lparr>sc_p := sc_p s + 1\<rparr> in
      if c \<noteq> 0 \<and> sc_bail s = bail_none then
        (case scan_step buffer c s of None \<Rightarrow> None | Some s \<Rightarrow> vsscanf_loop buffer s)
      else Some s)"

text \<open>The match map has no initial value in the source: \<open>mm\<close> is what it holds.\<close>

definition scan_init :: "uint list \<Rightarrow> addr \<Rightarrow> addr \<Rightarrow> uint list \<Rightarrow> mem \<Rightarrow> scan" where
  "scan_init mm buffer format ap m =
     \<lparr>sc_p = format, sc_q = buffer, sc_rank = rank_int, sc_width = NOT 0, sc_flags = 0, sc_state = st_normal,
      sc_sarg = NULL, sc_bail = bail_none, sc_converted = 0, sc_matchmap = mm, sc_matchinv = 0,
      sc_range_start = 0, sc_ap = ap, sc_mem = m\<rparr>"

definition vsscanf :: "uint list \<Rightarrow> addr \<Rightarrow> addr \<Rightarrow> uint list \<Rightarrow> mem \<Rightarrow> (int \<times> mem) option" where
  "vsscanf mm buffer format ap m = do {
     s \<leftarrow> vsscanf_loop buffer (scan_init mm buffer format ap m);
     Some (if sc_bail s = bail_eof \<and> sc_converted s = 0 then -1 else sc_converted s, sc_mem s) }"

definition sscanf :: "uint list \<Rightarrow> addr \<Rightarrow> addr \<Rightarrow> uint list \<Rightarrow> mem \<Rightarrow> (int \<times> mem) option" where
  "sscanf mm str format ap m = vsscanf mm str format ap m"

declare drop_chars.simps [simp del] copy_chars.simps [simp del] drop_word.simps [simp del] copy_word.simps [simp del]

section \<open>The match map\<close>

text \<open>A map of eight words holds the bits of the 256 characters.\<close>

lemma test_set_bit:
  assumes "length mm = 8" and "i < 256" and "j < 256"
  shows "test_bit (set_bit_ul mm (of_nat i)) (of_nat j) = (if i = j then 1 else test_bit mm (of_nat j))"
proof -
  have u: "unat (of_nat k div 32 :: uint) = k div 32" "unat (of_nat k mod 32 :: uint) = k mod 32" if "k < 256" for k
    using that by (simp_all add: unat_div unat_mod unat_of_nat)
  have b: "drop_bit k w AND 1 = of_bool (bit w k)" for k and w :: uint
    by (simp add: and_one_eq mod2_eq_if bit_iff_odd_drop_bit)
  have "bit (w OR push_bit k 1) l \<longleftrightarrow> bit w l \<or> l = k" if "l < 32" for k l and w :: uint
    using that by (auto simp: bit_simps)
  moreover have "j mod 32 < 32" "i div 32 < 8" "j div 32 < 8" using assms by simp_all
  moreover have "i = j \<longleftrightarrow> i div 32 = j div 32 \<and> i mod 32 = j mod 32" by (metis div_mult_mod_eq)
  ultimately show ?thesis
    using assms unfolding test_bit_def set_bit_ul_def Let_def u [OF assms(2)] u [OF assms(3)] b
    by (auto simp: nth_list_update)
qed

lemma length_set_bit [simp]: "length (set_bit_ul mm b) = length mm"
  by (simp add: set_bit_ul_def Let_def)

lemma test_set_range:
  assumes "length mm = 8" and "hi \<le> 256" and "j < 256"
  shows "test_bit (foldl (\<lambda>mm i. set_bit_ul mm (of_nat i)) mm [lo..<hi]) (of_nat j)
    = (if lo \<le> j \<and> j < hi then 1 else test_bit mm (of_nat j))"
    and "length (foldl (\<lambda>mm i. set_bit_ul mm (of_nat i)) mm [lo..<hi]) = 8"
proof -
  have l: "length (foldl (\<lambda>mm i. set_bit_ul mm (of_nat i)) mm ks) = length mm" for ks and mm :: "uint list"
    by (induction ks arbitrary: mm) simp_all
  show "length (foldl (\<lambda>mm i. set_bit_ul mm (of_nat i)) mm [lo..<hi]) = 8" using assms(1) l by simp
  show "test_bit (foldl (\<lambda>mm i. set_bit_ul mm (of_nat i)) mm [lo..<hi]) (of_nat j)
    = (if lo \<le> j \<and> j < hi then 1 else test_bit mm (of_nat j))"
    using assms(2)
  proof (induction hi)
    case (Suc hi)
    then show ?case using assms(1,3) l [of mm "[lo..<hi]"] by (auto simp: test_set_bit less_Suc_eq)
  qed simp
qed

text \<open>A range \<open>%[lo-hi]\<close> of the format runs from the hyphen itself to the character before \<open>hi\<close>: the start of the range that the
  code keeps is the hyphen and not \<open>lo\<close>.\<close>

lemma match_range_set:
  assumes "length (sc_matchmap s) = 8" and "hi \<noteq> ch (CHR '']'')"
  shows "\<exists>s1 s2. scan_match (ch (CHR ''-'')) s = Some s1 \<and> scan_match_range hi s1 = Some s2 \<and> sc_state s2 = st_match
    \<and> (\<forall>j < 256. test_bit (sc_matchmap s2) (of_nat j)
        = (if 45 \<le> j \<and> j < unat hi then 1 else test_bit (sc_matchmap s) (of_nat j)))"
proof -
  have "unat hi \<le> 256" using unsigned_less [of hi, where 'a = nat] by simp
  then show ?thesis
    using assms by (simp add: scan_match_def scan_match_range_def test_set_range(1))
qed

text \<open>\<open>%*c\<close> does not advance in the buffer.\<close>

lemma splat_char_stays: "sc_flags s AND FL_SPLAT \<noteq> 0 \<Longrightarrow> \<exists>s'. scan_char s = Some s' \<and> sc_q s' = sc_q s"
  by (simp add: scan_char_def Let_def)

section \<open>Reading back what was printed\<close>

text \<open>Formats of literal characters and integer conversions, and the text that \<open>printf\<close> makes of them.\<close>

datatype item = Lit byte | Num byte

fun item_fmt :: "item \<Rightarrow> byte list" where
  "item_fmt (Lit c) = [c]"
| "item_fmt (Num c) = [ch (CHR ''%''), c]"

definition items_fmt :: "item list \<Rightarrow> byte list" where
  "items_fmt its = concat (map item_fmt its)"

definition int_conv :: "byte \<Rightarrow> bool" where
  "int_conv c \<longleftrightarrow> c \<in> {ch (CHR ''d''), ch (CHR ''u''), ch (CHR ''x''), ch (CHR ''X''), ch (CHR ''o'')}"

definition conv_base :: "byte \<Rightarrow> nat" where
  "conv_base c = (if c = ch (CHR ''o'') then 8 else if c = ch (CHR ''x'') \<or> c = ch (CHR ''X'') then 16 else 10)"

definition conv_text :: "byte \<Rightarrow> uint \<Rightarrow> byte list" where
  "conv_text c x = (if c = ch (CHR ''d'') then int_text (sint x) else num_text (c = ch (CHR ''X'')) (conv_base c) (unat x))"

fun items_text :: "item list \<Rightarrow> uint list \<Rightarrow> byte list" where
  "items_text (Lit c # its) xs = c # items_text its xs"
| "items_text (Num c # its) (x # xs) = conv_text c x @ items_text its xs"
| "items_text [] xs = []"
| "items_text (Num c # its) [] = []"

fun num_args :: "item list \<Rightarrow> nat" where
  "num_args [] = 0"
| "num_args (Lit c # its) = num_args its"
| "num_args (Num c # its) = Suc (num_args its)"

text \<open>What follows a number may not be a letter, a digit or another number.\<close>

fun separated :: "item list \<Rightarrow> bool" where
  "separated [] \<longleftrightarrow> True"
| "separated (Lit c # its) \<longleftrightarrow> c \<noteq> 0 \<and> c \<noteq> ch (CHR ''%'') \<and> separated its"
| "separated (Num c # its) \<longleftrightarrow> int_conv c \<and> separated its
     \<and> (case its of [] \<Rightarrow> True | Lit d # _ \<Rightarrow> digitval (uint d) < 0 | Num _ # _ \<Rightarrow> False)"

lemma int_conv_directive:
  assumes "int_conv c"
  shows "spec_directive (c # cs) = Some (c # cs, \<lparr>p_width = 0, p_lz = False, p_sign = 0, p_alt = False, p_base = 0, p_uc = False, p_bf = Local []\<rparr>)"
  using assms by (auto simp: int_conv_def spec_directive_def is_dec_def dec_val_def)

lemma int_conv_text:
  assumes "int_conv c"
  shows "spec_conversion S c (x # xs) \<lparr>p_width = 0, p_lz = False, p_sign = 0, p_alt = False, p_base = 0, p_uc = False, p_bf = Local []\<rparr>
    = Some (conv_text c x, xs)"
  using assms
  by (auto simp: int_conv_def spec_conversion_def conv_text_def conv_base_def va_arg_def field_def prefix_text_def int_text_def)

lemma render_items:
  "separated its \<Longrightarrow> length xs = num_args its \<Longrightarrow> render S (items_fmt its) xs = Some (items_text its xs)"
proof (induction its xs rule: items_text.induct)
  case (1 c its xs)
  then show ?case by (simp add: items_fmt_def render.simps)
next
  case (2 c its x xs)
  then show ?case
    by (simp add: items_fmt_def render.simps int_conv_directive int_conv_text)
qed (auto simp: items_fmt_def render.simps)

lemma num_text_numeral_rest:
  assumes b: "b \<in> {8, 10, 16}" and rest: "rest \<noteq> [] \<longrightarrow> digitval (uint (hd rest)) < 0"
  shows "numeral_text (int b) [] (int b) (num_text uc b n) rest"
proof -
  have v: "\<forall>d \<in> set (num_text uc b n). is_digit (int b) d" using num_text_val [of b uc n] b by auto
  have "\<not> hex_like (num_text uc b n @ rest)" if "b = 16"
  proof
    let ?ds = "num_text uc b n"
    assume h: "hex_like (?ds @ rest)"
    then have x: "digitval (uint ((?ds @ rest) ! 1)) = 33" "1 < length (?ds @ rest)"
      by (auto simp: hex_like_def digitval_def)
    show False
    proof (cases "1 < length ?ds")
      case True
      then have "is_digit 16 (?ds ! 1)" using v that nth_mem by fastforce
      then show False using x True by (simp add: is_digit_def nth_append)
    next
      case False
      then have "length ?ds = 1" using num_text_nonempty [of uc b n] by (cases ?ds) auto
      then show False using x rest by (cases rest) (auto simp: nth_append)
    qed
  qed
  then show ?thesis using b v rest num_text_nonempty by (auto simp: numeral_text_def is_digit_def)
qed

lemma conv_split:
  "conv_text c x = (if c = ch (CHR ''d'') \<and> sint x < 0 then [ch (CHR ''-'')] else [])
     @ num_text (c = ch (CHR ''X'')) (conv_base c) (unat (if c = ch (CHR ''d'') \<and> sint x < 0 then - x else x))"
  using unat_abs [of x] by (auto simp: conv_text_def int_text_def conv_base_def)

lemma conv_read:
  assumes "cstr m q (conv_text c x @ rest)" and "rest \<noteq> [] \<longrightarrow> digitval (uint (hd rest)) < 0"
    and "length (conv_text c x @ rest) < 2 ^ 31"
  shows "strntoumax m q (int (conv_base c)) (NOT 0) = (x, q + of_nat (length (conv_text c x)))"
proof -
  let ?neg = "c = ch (CHR ''d'') \<and> sint x < 0"
  let ?sg = "if ?neg then [ch (CHR ''-'')] else []" and ?y = "if ?neg then - x else x"
  let ?ds = "num_text (c = ch (CHR ''X'')) (conv_base c) (unat ?y)"
  have b: "conv_base c \<in> {8, 10, 16}" by (simp add: conv_base_def)
  have t: "[] @ ?sg @ [] @ ?ds @ rest = conv_text c x @ rest" "length ([] @ ?sg @ [] @ ?ds) = length (conv_text c x)"
    unfolding conv_split by simp_all
  have "unat (NOT 0 :: uint) = 2 ^ 32 - 1" by (simp add: unsigned_minus_1_eq_mask mask_eq_exp_minus_1)
  then have "strntoumax m q (int (conv_base c)) (NOT 0)
    = ((if ?sg = [ch (CHR ''-'')] then - word_of_int (digits_val (int (conv_base c)) ?ds) else word_of_int (digits_val (int (conv_base c)) ?ds)),
       q + of_nat (length ([] @ ?sg @ [] @ ?ds)))"
    using assms by (intro strntoumax_ok [where rest = rest]) (simp_all only: t num_text_numeral_rest [OF b], simp_all add: is_sign_def)
  moreover have "digits_val (int (conv_base c)) ?ds = uint ?y"
    using num_text_val [of "conv_base c" "c = ch (CHR ''X'')" "unat ?y"] b by auto
  ultimately show ?thesis unfolding t(2) by simp
qed

lemma digit_plain: "0 \<le> digitval (uint d) \<Longrightarrow> d \<noteq> 0 \<and> \<not> isspace (uint d)"
  by (auto simp: digitval_def isspace_def)

lemma num_text_hd: "1 < b \<Longrightarrow> b \<le> 36 \<Longrightarrow> \<exists>d ds. num_text uc b n = d # ds \<and> d \<noteq> 0 \<and> \<not> isspace (uint d)"
  using num_text_val [of b uc n] num_text_nonempty [of uc b n] digit_plain
  by (cases "num_text uc b n") (auto simp: is_digit_def)

lemma conv_text_hd: "\<exists>d ds. conv_text c x = d # ds \<and> d \<noteq> 0 \<and> \<not> isspace (uint d)"
  using num_text_hd [of "conv_base c"] unfolding conv_split by (auto simp: conv_base_def isspace_def)

lemma skipspace_ok:
  assumes "cstr m p (ws @ xs)" and "\<forall>w \<in> set ws. isspace (uint w)" and "xs = [] \<or> \<not> isspace (uint (hd xs))"
  shows "skipspace m p = Some (p + of_nat (length ws))"
  using assms
proof (induction ws arbitrary: p)
  case Nil
  then have "\<not> isspace (uint (m p))" by (cases xs) (auto simp: isspace_def)
  then show ?case by (subst skipspace.simps) simp
next
  case (Cons w ws)
  then show ?case by (subst skipspace.simps) simp
qed

text \<open>A conversion of the format, from the percent sign to the store.\<close>

lemma vsscanf_loop_step:
  assumes "sc_mem s (sc_p s) = c" and "c \<noteq> 0" and "sc_bail s = bail_none"
  shows "vsscanf_loop buffer s
    = (case scan_step buffer c (s\<lparr>sc_p := sc_p s + 1\<rparr>) of None \<Rightarrow> None | Some s \<Rightarrow> vsscanf_loop buffer s)"
  using assms by (subst vsscanf_loop.simps) (simp add: Let_def)

lemma scan_conversion_int:
  "int_conv c \<Longrightarrow> scan_conversion buffer c s = scan_int (int (conv_base c)) s"
  by (auto simp: int_conv_def scan_conversion_def conv_base_def)

lemma scan_modifiers_int:
  "int_conv c \<Longrightarrow> sc_rank s = 0 \<Longrightarrow> scan_modifiers buffer c s = scan_int (int (conv_base c)) (s\<lparr>sc_state := st_normal, sc_rank := 0\<rparr>)"
  using scan_conversion_int [of c buffer "s\<lparr>sc_state := st_normal, sc_rank := 0\<rparr>"]
  by (auto simp: int_conv_def scan_modifiers_def)

lemma scan_flags_int: "int_conv c \<Longrightarrow> scan_flags c s = s\<lparr>sc_state := st_modifiers, sc_p := sc_p s - 1\<rparr>"
  by (auto simp: int_conv_def scan_flags_def)

definition conv_start :: "scan \<Rightarrow> scan" where
  "conv_start s = s\<lparr>sc_flags := 0, sc_width := NOT 0, sc_p := sc_p s + 2, sc_state := st_normal, sc_rank := 0\<rparr>"

lemma scan_directive:
  assumes c: "int_conv c" and st: "sc_state s = st_normal" "sc_bail s = bail_none"
    and p: "sc_mem s (sc_p s) = ch (CHR ''%'')" "sc_mem s (sc_p s + 1) = c"
  shows "vsscanf_loop buffer s = (case scan_int (int (conv_base c)) (conv_start s) of None \<Rightarrow> None | Some s \<Rightarrow> vsscanf_loop buffer s)"
proof -
  have cc: "c \<noteq> 0" using c by (auto simp: int_conv_def)
  let ?s1 = "s\<lparr>sc_p := sc_p s + 1, sc_state := st_flags, sc_flags := 0, sc_rank := 0, sc_width := NOT 0\<rparr>"
  have 1: "scan_step buffer (ch (CHR ''%'')) (s\<lparr>sc_p := sc_p s + 1\<rparr>) = Some ?s1"
    using st by (simp add: scan_step_def scan_normal_def)
  have 2: "scan_step buffer c (?s1\<lparr>sc_p := sc_p ?s1 + 1\<rparr>) = Some (?s1\<lparr>sc_state := st_modifiers\<rparr>)"
    by (simp add: scan_step_def scan_flags_int [OF c])
  have 3: "scan_step buffer c (?s1\<lparr>sc_state := st_modifiers, sc_p := sc_p s + 2\<rparr>) = scan_int (int (conv_base c)) (conv_start s)"
    using scan_modifiers_int [OF c, of "?s1\<lparr>sc_state := st_modifiers, sc_p := sc_p s + 2\<rparr>" buffer]
    by (simp add: scan_step_def conv_start_def)
  have "vsscanf_loop buffer s = vsscanf_loop buffer ?s1"
    using vsscanf_loop_step [OF p(1) _ st(2)] 1 by simp
  also have "\<dots> = vsscanf_loop buffer (?s1\<lparr>sc_state := st_modifiers\<rparr>)"
    using vsscanf_loop_step [of ?s1 c buffer] p(2) cc st(2) 2 by simp
  also have "\<dots> = (case scan_int (int (conv_base c)) (conv_start s) of None \<Rightarrow> None | Some s \<Rightarrow> vsscanf_loop buffer s)"
    using vsscanf_loop_step [of "?s1\<lparr>sc_state := st_modifiers\<rparr>" c buffer] p(2) cc st(2) 3 by (simp add: add.commute)
  finally show ?thesis .
qed

lemma scan_int_ok:
  assumes "sc_flags s = 0" and "sc_rank s = 0" and "sc_width s = NOT 0" and "sc_ap s = a # ap"
    and q: "cstr (sc_mem s) (sc_q s) (conv_text c x @ rest)"
    and rest: "rest \<noteq> [] \<longrightarrow> digitval (uint (hd rest)) < 0" and l: "length (conv_text c x @ rest) < 2 ^ 31"
  shows "scan_int (int (conv_base c)) s = Some (s\<lparr>sc_q := sc_q s + of_nat (length (conv_text c x)),
    sc_converted := i32 (sc_converted s + 1), sc_ap := ap, sc_mem := store32 (sc_mem s) a x\<rparr>)"
proof -
  obtain d ds where t: "conv_text c x = d # ds" "d \<noteq> 0" "\<not> isspace (uint d)" using conv_text_hd [of c x] by blast
  have "skipspace (sc_mem s) (sc_q s) = Some (sc_q s)" "sc_mem s (sc_q s) \<noteq> 0"
    using skipspace_ok [of "sc_mem s" "sc_q s" "[]" "conv_text c x @ rest"] q t by auto
  moreover have "strntoumax (sc_mem s) (sc_q s) (int (conv_base c)) (NOT 0) = (x, sc_q s + of_nat (length (conv_text c x)))"
    by (rule conv_read [OF q rest l])
  moreover have "sc_q s + of_nat (length (conv_text c x)) \<noteq> sc_q s"
    using l t by (intro offset_eq_self) auto
  ultimately show ?thesis
    using assms(1-4) by (simp add: scan_int_def set_integer_def va_arg_def)
qed

text \<open>The stores of the values, and what they keep.\<close>

definition store_all :: "mem \<Rightarrow> (addr \<times> uint) list \<Rightarrow> mem" where
  "store_all m axs = foldl (\<lambda>m (a, x). store32 m a x) m axs"

definition args_area :: "addr list \<Rightarrow> addr set" where
  "args_area as = (\<Union>a \<in> set as. region a 4)"

fun apart :: "addr list \<Rightarrow> bool" where
  "apart [] \<longleftrightarrow> True"
| "apart (a # as) \<longleftrightarrow> region a 4 \<inter> args_area as = {} \<and> apart as"

lemma store_all_other: "b \<notin> args_area (map fst axs) \<Longrightarrow> store_all m axs b = m b"
  unfolding store_all_def args_area_def
  by (induction axs arbitrary: m) (auto simp: store32_other)

lemma store_all_load:
  "apart (map fst axs) \<Longrightarrow> map (load32 (store_all m axs)) (map fst axs) = map snd axs"
proof (induction axs arbitrary: m)
  case (Cons ax axs)
  obtain a x where ax: "ax = (a, x)" by (cases ax)
  have s: "store_all m (ax # axs) = store_all (store32 m a x) axs" by (simp add: ax store_all_def)
  have "bytes_at (store_all (store32 m a x) axs) a 4 = bytes_at (store32 m a x) a 4"
    using Cons.prems ax by (intro bytes_at_cong store_all_other) auto
  then have "load32 (store_all (store32 m a x) axs) a = x"
    using load32_bytes [of "store_all (store32 m a x) axs" a "store32 m a x"] by (simp add: load32_store32)
  then show ?case unfolding s using Cons by (simp add: ax)
qed (simp add: store_all_def)

text \<open>The loop over a whole format: \<open>q\<close> is at the rest of the text, or white space of it has been skipped already.\<close>

lemma items_text_rest:
  "separated (Num c # its) \<Longrightarrow> items_text its xs \<noteq> [] \<longrightarrow> digitval (uint (hd (items_text its xs))) < 0"
  by (cases its) (auto split: item.splits)

lemma dropWhile_plain: "dropWhile (\<lambda>c. isspace (uint c)) (conv_text c x @ t) = conv_text c x @ t"
  using conv_text_hd [of c x] by auto

lemma cstr_store_area:
  "cstr m p xs \<Longrightarrow> region p (Suc (length xs)) \<inter> region a 4 = {} \<Longrightarrow> cstr (store32 m a x) p xs"
  using cstr_cong [of p xs m "store32 m a x"] by (simp add: store32_other disjoint_iff)

abbreviation (input) blank :: "byte \<Rightarrow> bool" where
  "blank \<equiv> \<lambda>c. isspace (uint c)"

lemma region_suffix: "region (p + of_nat k) (Suc (length (drop k xs))) \<subseteq> region p (Suc (length xs))" if "k \<le> length xs"
  using that by (intro region_shift) simp

text \<open>\<open>reads its xs as s\<close>: the scan is between two directives, \<open>its\<close> is ahead in the format and the text of \<open>xs\<close> in the
  buffer, and the arguments lead to places away from both.\<close>

definition reads :: "item list \<Rightarrow> uint list \<Rightarrow> addr list \<Rightarrow> scan \<Rightarrow> bool" where
  "reads its xs as s \<longleftrightarrow> separated its \<and> length xs = num_args its \<and> length as = length xs
     \<and> sc_state s = st_normal \<and> sc_bail s = bail_none \<and> sc_ap s = as
     \<and> cstr (sc_mem s) (sc_p s) (items_fmt its) \<and> region (sc_p s) (Suc (length (items_fmt its))) \<inter> args_area as = {}
     \<and> 0 \<le> sc_converted s \<and> sc_converted s + int (length xs) < 2 ^ 31
     \<and> (\<exists>t. (t = items_text its xs \<or> t = dropWhile blank (items_text its xs)) \<and> length t < 2 ^ 31
          \<and> cstr (sc_mem s) (sc_q s) t \<and> region (sc_q s) (Suc (length t)) \<inter> args_area as = {})"

lemma reads_blank:
  assumes r: "reads (Lit c # its) xs as s" and c: "blank c"
  shows "\<exists>q. vsscanf_loop buffer s = vsscanf_loop buffer (s\<lparr>sc_p := sc_p s + 1, sc_q := q\<rparr>)
    \<and> reads its xs as (s\<lparr>sc_p := sc_p s + 1, sc_q := q\<rparr>)"
proof -
  obtain t where t: "t = items_text (Lit c # its) xs \<or> t = dropWhile blank (items_text (Lit c # its) xs)" "length t < 2 ^ 31"
    "cstr (sc_mem s) (sc_q s) t" "region (sc_q s) (Suc (length t)) \<inter> args_area as = {}" using r unfolding reads_def by blast
  let ?k = "length (takeWhile blank t)" and ?t = "dropWhile blank t"
  let ?q = "sc_q s + of_nat ?k"
  have dw: "?t = dropWhile blank (items_text its xs)" using t(1) c by (auto simp: dropWhile_idem)
  have dd: "?t = drop ?k t" by (simp add: dropWhile_eq_drop)
  have k: "?k \<le> length t" by (simp add: length_takeWhile_le)
  have sk: "skipspace (sc_mem s) (sc_q s) = Some ?q"
    using t(3) hd_dropWhile [of blank t] by (intro skipspace_ok [where xs = ?t]) (auto dest: set_takeWhileD)
  have cp: "sc_mem s (sc_p s) = c" "c \<noteq> 0" "c \<noteq> ch (CHR ''%'')" "sc_bail s = bail_none" "sc_state s = st_normal"
    using r by (auto simp: reads_def items_fmt_def)
  have "vsscanf_loop buffer s = vsscanf_loop buffer (s\<lparr>sc_p := sc_p s + 1, sc_q := ?q\<rparr>)"
    using vsscanf_loop_step [OF cp(1,2,4), of buffer] cp(3,5) c sk by (simp add: scan_step_def scan_normal_def)
  moreover have "cstr (sc_mem s) ?q ?t" unfolding dd by (rule cstr_drop [OF t(3) k])
  moreover have "region ?q (Suc (length ?t)) \<inter> args_area as = {}" unfolding dd using region_suffix [OF k] t(4) by blast
  moreover have "length ?t < 2 ^ 31" using t(2) length_dropWhile_le [of blank t] by linarith
  ultimately show ?thesis using r dw by (intro exI [of _ ?q]) (auto simp: reads_def items_fmt_def region_Suc)
qed

lemma reads_plain:
  assumes r: "reads (Lit c # its) xs as s" and c: "\<not> blank c"
  shows "vsscanf_loop buffer s = vsscanf_loop buffer (s\<lparr>sc_p := sc_p s + 1, sc_q := sc_q s + 1\<rparr>)
    \<and> reads its xs as (s\<lparr>sc_p := sc_p s + 1, sc_q := sc_q s + 1\<rparr>)"
proof -
  have t: "cstr (sc_mem s) (sc_q s) (c # items_text its xs)" "region (sc_q s) (Suc (length (c # items_text its xs))) \<inter> args_area as = {}"
    "length (c # items_text its xs) < 2 ^ 31" using r c unfolding reads_def by auto
  have cp: "sc_mem s (sc_p s) = c" "c \<noteq> 0" "c \<noteq> ch (CHR ''%'')" "sc_bail s = bail_none" "sc_state s = st_normal"
    using r by (auto simp: reads_def items_fmt_def)
  have "sc_mem s (sc_q s) = c" using t(1) by simp
  then have "vsscanf_loop buffer s = vsscanf_loop buffer (s\<lparr>sc_p := sc_p s + 1, sc_q := sc_q s + 1\<rparr>)"
    using vsscanf_loop_step [OF cp(1,2,4), of buffer] cp(3,5) c by (simp add: scan_step_def scan_normal_def)
  then show ?thesis using r t by (auto simp: reads_def items_fmt_def region_Suc)
qed

lemma reads_number:
  assumes r: "reads (Num c # its) (x # xs) (a # as) s"
  shows "\<exists>s'. vsscanf_loop buffer s = vsscanf_loop buffer s' \<and> reads its xs as s'
    \<and> sc_mem s' = store32 (sc_mem s) a x \<and> sc_converted s' = sc_converted s + 1"
proof -
  let ?m = "sc_mem s" and ?t = "conv_text c x" and ?rest = "items_text its xs"
  have t: "cstr ?m (sc_q s) (?t @ ?rest)" "region (sc_q s) (Suc (length (?t @ ?rest))) \<inter> args_area (a # as) = {}" "length (?t @ ?rest) < 2 ^ 31"
    using r dropWhile_plain [of c x ?rest] unfolding reads_def by auto
  have sep: "separated (Num c # its)" and c: "int_conv c" using r by (auto simp: reads_def)
  have st: "sc_state s = st_normal" "sc_bail s = bail_none" "sc_ap s = a # as" "0 \<le> sc_converted s"
    "sc_converted s + 1 + int (length xs) < 2 ^ 31" "length xs = num_args its" "length as = length xs"
    "sc_mem s (sc_p s) = ch (CHR ''%'')" "sc_mem s (sc_p s + 1) = c" using r by (auto simp: reads_def items_fmt_def)
  have "region (sc_p s + of_nat 2) (Suc (length (drop 2 (items_fmt (Num c # its))))) \<inter> args_area (a # as) = {}"
    using r region_suffix [of 2 "items_fmt (Num c # its)" "sc_p s"] unfolding reads_def by (auto simp: items_fmt_def)
  then have f: "cstr ?m (sc_p s + 2) (items_fmt its)" "region (sc_p s + 2) (Suc (length (items_fmt its))) \<inter> args_area (a # as) = {}"
    using r by (auto simp: reads_def items_fmt_def add.assoc)
  let ?s' = "(conv_start s)\<lparr>sc_q := sc_q s + of_nat (length ?t), sc_converted := sc_converted s + 1, sc_ap := as, sc_mem := store32 ?m a x\<rparr>"
  have i: "i32 (sc_converted s + 1) = sc_converted s + 1" using st by (intro i32_id) auto
  have "scan_int (int (conv_base c)) (conv_start s) = Some ?s'"
    using scan_int_ok [of "conv_start s" a as c x ?rest] t st items_text_rest [OF sep, of xs] i by (simp add: conv_start_def)
  then have "vsscanf_loop buffer s = vsscanf_loop buffer ?s'" using scan_directive [OF c, of s buffer] st by simp
  moreover have "cstr (store32 ?m a x) (sc_p s + 2) (items_fmt its)"
    using f by (intro cstr_store_area) (auto simp: args_area_def)
  moreover have "cstr (store32 ?m a x) (sc_q s + of_nat (length ?t)) ?rest"
    using t(1,2) region_suffix [of "length ?t" "?t @ ?rest" "sc_q s"]
    by (intro cstr_store_area) (auto simp: cstr_append args_area_def)
  moreover have "region (sc_q s + of_nat (length ?t)) (Suc (length ?rest)) \<inter> args_area as = {}"
    using t(2) region_suffix [of "length ?t" "?t @ ?rest" "sc_q s"] by (auto simp: args_area_def)
  moreover have "region (sc_p s + 2) (Suc (length (items_fmt its))) \<inter> args_area as = {}"
    using f(2) by (auto simp: args_area_def)
  ultimately show ?thesis using st t(3) c sep
    by (intro exI [of _ ?s']) (auto simp: reads_def conv_start_def items_fmt_def)
qed

lemma scan_items:
  "reads its xs as s \<Longrightarrow> \<exists>s'. vsscanf_loop buffer s = Some s' \<and> sc_bail s' = bail_none
     \<and> sc_converted s' = sc_converted s + int (length xs) \<and> sc_mem s' = store_all (sc_mem s) (zip as xs)"
proof (induction its xs arbitrary: as s rule: items_text.induct)
  case (1 c its xs)
  show ?case
  proof (cases "blank c")
    case True
    then show ?thesis using reads_blank [OF 1(2), of buffer] 1(1) by fastforce
  next
    case False
    then show ?thesis using reads_plain [OF 1(2), of buffer] 1(1) by fastforce
  qed
next
  case (2 c its x xs)
  then obtain a as' where as: "as = a # as'" by (cases as) (auto simp: reads_def)
  from reads_number [OF 2(2) [unfolded as], of buffer] 2(1) show ?case
    unfolding as by (fastforce simp: store_all_def)
next
  case (3 xs)
  then have "sc_mem s (sc_p s) = 0" "sc_bail s = bail_none" "xs = []" "as = []" by (auto simp: reads_def items_fmt_def)
  then show ?case by (subst vsscanf_loop.simps) (simp add: store_all_def)
qed (auto simp: reads_def)

text \<open>The direct statement for \<open>sscanf\<close>: on a text that fits the format it converts every item and stores every value.\<close>

lemma sscanf_items:
  assumes "separated its" and "length xs = num_args its" and "length as = length xs" and "length xs < 2 ^ 31"
    and "cstr m fmt (items_fmt its)" and "region fmt (Suc (length (items_fmt its))) \<inter> args_area as = {}"
    and "cstr m str (items_text its xs)" and "region str (Suc (length (items_text its xs))) \<inter> args_area as = {}"
    and "length (items_text its xs) < 2 ^ 31"
  shows "sscanf mm str fmt as m = Some (int (length xs), store_all m (zip as xs))"
proof -
  have "reads its xs as (scan_init mm str fmt as m)"
    using assms unfolding reads_def by (auto simp: scan_init_def)
  from scan_items [OF this, of str] show ?thesis by (auto simp: sscanf_def vsscanf_def scan_init_def)
qed

lemma items_text_no_nul: "separated its \<Longrightarrow> 0 \<notin> set (items_text its xs)"
proof (induction its xs rule: items_text.induct)
  case (2 c its x xs)
  have "0 \<notin> set (conv_text c x)"
    using num_text_no_nul [of "conv_base c"] unfolding conv_split by (auto simp: conv_base_def)
  then show ?case using 2 by simp
qed auto

section \<open>Properties\<close>

text \<open>C28 Scanning inverts printing: when \<open>sprintf\<close> has printed any words with a format of literal characters and the conversions
  \<open>%d\<close>, \<open>%u\<close>, \<open>%x\<close>, \<open>%X\<close>, \<open>%o\<close>, in which a conversion is not followed by a letter, a digit or another conversion, \<open>sscanf\<close>
  with the same format converts them all, stores every word to its argument and writes nothing else.\<close>

theorem sscanf_inverts_sprintf:
  assumes "separated its" and "length xs = num_args its" and "length as = length xs"
    and "t = items_text its xs" and "length t < 2 ^ 31 - 2" and "cstr m fmt (items_fmt its)"
    and "region fmt (Suc (length (items_fmt its))) \<inter> (insert stack (region str (Suc (length t))) \<union> args_area as) = {}"
    and "stack \<notin> region str (Suc (length t))" and "region str (Suc (length t)) \<inter> args_area as = {}" and "apart as"
  shows "\<exists>m1 m2. sprintf stack p str fmt xs m = Some (int (length t), m1) \<and> sscanf mm str fmt as m1 = Some (int (length xs), m2)
    \<and> map (load32 m2) as = xs \<and> (\<forall>a. a \<in> args_area as \<or> m2 a = m1 a)"
proof -
  have z: "unat (PTRDIFF_MAX - 1) = 2 ^ 31 - 2" by (simp add: PTRDIFF_MAX_def)
  have L: "min (length t) (unat (PTRDIFF_MAX - 1)) = length t" unfolding z using assms(5) by simp
  have sub: "region str (length t) \<subseteq> region str (Suc (length t))" by (rule region_mono) simp
  have len: "length xs \<le> length t"
    using assms(1,2) unfolding assms(4)
  proof (induction its xs rule: items_text.induct)
    case (2 c its x xs)
    then show ?case using conv_text_hd [of c x] by auto
  qed auto
  have "\<exists>m'. vsnprintf stack p str PTRDIFF_MAX fmt xs m = Some (int (length t), m') \<and> bytes_at m' str (length t) = take (length t) t
    \<and> m' (str + of_nat (length t)) = 0 \<and> (\<forall>a. a \<notin> insert stack (region str (Suc (length t))) \<longrightarrow> m' a = m a)"
    by (rule vsnprintf_ok [OF render_items [OF assms(1,2), of "\<lambda>_. None", folded assms(4)] _ assms(6), of _ PTRDIFF_MAX "insert stack (region str (length t))"])
      (use assms(5,7,8) sub L in \<open>auto simp: strings_at_def\<close>)
  then obtain m1 where m1: "vsnprintf stack p str PTRDIFF_MAX fmt xs m = Some (int (length t), m1)" "bytes_at m1 str (length t) = t"
    "m1 (str + of_nat (length t)) = 0" "\<And>a. a \<notin> insert stack (region str (Suc (length t))) \<Longrightarrow> m1 a = m a" by auto
  have "cstr m1 str t" using m1(2,3) items_text_no_nul [OF assms(1)] assms(4) by (simp add: cstr_iff)
  moreover have "cstr m1 fmt (items_fmt its)"
    using assms(6,7) m1(4) cstr_cong [of fmt "items_fmt its" m1 m] by blast
  ultimately have "sscanf mm str fmt as m1 = Some (int (length xs), store_all m1 (zip as xs))"
    using assms len by (intro sscanf_items) auto
  moreover have "map fst (zip as xs) = as" "map snd (zip as xs) = xs" using assms(3) by simp_all
  then have "map (load32 (store_all m1 (zip as xs))) as = xs" "\<And>a. a \<notin> args_area as \<Longrightarrow> store_all m1 (zip as xs) a = m1 a"
    using store_all_load [of "zip as xs" m1] store_all_other [of _ "zip as xs" m1] assms(10) by auto
  ultimately show ?thesis using m1(1) by (auto simp: sprintf_def)
qed

theorem sscanf_inverts_sprintf_witness:
  "\<exists>m1 m2. sprintf 0x1000 any_param 0x100 0x200 [-42, 255] (store_bytes (\<lambda>_. 0) 0x200 [37, 100, 44, 32, 37, 120]) = Some (7, m1)
     \<and> sscanf [] 0x100 0x200 [0x300, 0x304] m1 = Some (2, m2) \<and> map (load32 m2) [0x300, 0x304] = [-42, 255]"
proof -
  let ?its = "[Num 100, Lit 44, Lit 32, Num 120]" and ?m = "store_bytes (\<lambda>_. 0) 0x200 [37, 100, 44, 32, 37, 120] :: mem"
  have t: "items_text ?its [-42, 255] = [45, 52, 50, 44, 32, 102, 102]"
    by (simp add: conv_text_def conv_base_def int_text_def num_text.simps digit_char_def)
  have s: "separated ?its" by (simp add: int_conv_def digitval_def)
  have f: "items_fmt ?its = [37, 100, 44, 32, 37, 120]" by (simp add: items_fmt_def)
  have a: "args_area [0x300, 0x304] = region 0x300 4 \<union> region 0x304 4" by (auto simp: args_area_def)
  have r: "region 0x200 7 \<inter> region 0x100 8 = {}" "region 0x200 7 \<inter> region 0x300 4 = {}" "region 0x200 7 \<inter> region 0x304 4 = {}"
    "region 0x100 8 \<inter> region 0x300 4 = {}" "region 0x100 8 \<inter> region 0x304 4 = {}" "region 0x300 4 \<inter> region 0x304 4 = {}"
    by (rule region_disjoint; simp)+
  have n: "0x1000 \<notin> region 0x200 7" "0x1000 \<notin> region 0x100 8" by (simp_all add: region_eq_uint)
  have l: "Suc (length [45, 52, 50, 44, 32, 102, 102 :: byte]) = 8" "Suc (length [37, 100, 44, 32, 37, 120 :: byte]) = 7" by simp_all
  have "apart [0x300, 0x304]" using r(6) by (simp add: args_area_def)
  moreover have "region 0x200 7 \<inter> (insert 0x1000 (region 0x100 8) \<union> args_area [0x300, 0x304]) = {}" "region 0x100 8 \<inter> args_area [0x300, 0x304] = {}"
    using r n unfolding a by blast+
  ultimately have "\<exists>m1 m2. sprintf 0x1000 any_param 0x100 0x200 [-42, 255] ?m = Some (int (length [45, 52, 50, 44, 32, 102, 102 :: byte]), m1)
      \<and> sscanf [] 0x100 0x200 [0x300, 0x304] m1 = Some (int (length [-42, 255 :: uint]), m2) \<and> map (load32 m2) [0x300, 0x304] = [-42, 255]
      \<and> (\<forall>a. a \<in> args_area [0x300, 0x304] \<or> m2 a = m1 a)"
    using n by (intro sscanf_inverts_sprintf [OF s _ _ t [symmetric]]) (simp_all only: f l, simp_all)
  then show ?thesis by auto
qed

end
