(* ===== verification/Core_Util.thy ===== *)
theory Core_Util
  imports Prelude
begin

text \<open>
  The CoreMark utilities (\<open>core_util.c\<close>): the 16-bit CRC that every benchmark folds its results into, and the
  seed parser of the configuration in use (\<open>SEED_METHOD\<close> is \<open>SEED_ARG\<close>).  \<open>ee_s16\<close> and \<open>ee_s32\<close> values are
  words of their width; the numeric reading of one is its \<open>sint\<close>.  Plain \<open>char\<close> is unsigned on this target.

  The CRC is shown to be what it should be: the remainder of the message, as a polynomial over GF(2),
  by the CRC-16 polynomial.
\<close>

type_synonym ee_u8 = "8 word"
type_synonym ee_u16 = "16 word"
type_synonym ee_s16 = "16 word"
type_synonym ee_u32 = "32 word"
type_synonym ee_s32 = "32 word"

section \<open>Definitions\<close>

definition crc_round :: "ee_u8 \<Rightarrow> ee_u16 \<Rightarrow> ee_u8 \<times> ee_u16" where
  "crc_round data crc =
     (let x16 = (data AND 1) XOR ((ucast crc :: ee_u8) AND 1);
          data = drop_bit 1 data;
          (crc, carry) = (if x16 = 1 then (crc XOR 0x4002, True) else (crc, False));
          crc = drop_bit 1 crc
      in (data, if carry then crc OR 0x8000 else crc AND 0x7fff))"

primrec crc_loop :: "nat \<Rightarrow> ee_u8 \<Rightarrow> ee_u16 \<Rightarrow> ee_u16" where
  "crc_loop 0 data crc = crc"
| "crc_loop (Suc i) data crc = (let (data, crc) = crc_round data crc in crc_loop i data crc)"

definition crcu8 :: "ee_u8 \<Rightarrow> ee_u16 \<Rightarrow> ee_u16" where
  "crcu8 data crc = crc_loop 8 data crc"

definition crcu16 :: "ee_u16 \<Rightarrow> ee_u16 \<Rightarrow> ee_u16" where
  "crcu16 newval crc =
     (let crc = crcu8 (ucast newval) crc;
          crc = crcu8 (ucast (drop_bit 8 newval)) crc
      in crc)"

definition crc16 :: "ee_s16 \<Rightarrow> ee_u16 \<Rightarrow> ee_u16" where
  "crc16 newval crc = crcu16 newval crc"

definition crcu32 :: "ee_u32 \<Rightarrow> ee_u16 \<Rightarrow> ee_u16" where
  "crcu32 newval crc =
     (let crc = crc16 (ucast newval) crc;
          crc = crc16 (ucast (drop_bit 16 newval)) crc
      in crc)"

text \<open>
  The data types have the sizes that \<open>check_data_types\<close> tests for (in bytes, of the types of
  \<open>core_portme.h\<close> and of a pointer); it counts the wrong ones.
\<close>

definition check_data_types :: "nat \<Rightarrow> nat \<Rightarrow> nat \<Rightarrow> nat \<Rightarrow> nat \<Rightarrow> nat \<Rightarrow> nat \<Rightarrow> ee_u8" where
  "check_data_types sz_u8 sz_u16 sz_s16 sz_s32 sz_u32 sz_ptr_int sz_ptr =
     (let retval = 0;
          retval = (if sz_u8 \<noteq> 1 then retval + 1 else retval);
          retval = (if sz_u16 \<noteq> 2 then retval + 1 else retval);
          retval = (if sz_s16 \<noteq> 2 then retval + 1 else retval);
          retval = (if sz_s32 \<noteq> 4 then retval + 1 else retval);
          retval = (if sz_u32 \<noteq> 4 then retval + 1 else retval);
          retval = (if sz_ptr_int \<noteq> sz_ptr then retval + 1 else retval)
      in retval)"

partial_function (option) parse_hex :: "mem \<Rightarrow> addr \<Rightarrow> ee_s32 \<Rightarrow> (ee_s32 \<times> addr) option" where
  "parse_hex m valstring retval =
     (let c = uint (m valstring) in
      if (c \<ge> chi (CHR ''0'') \<and> c \<le> chi (CHR ''9'')) \<or> (c \<ge> chi (CHR ''a'') \<and> c \<le> chi (CHR ''f''))
      then let digit = c - chi (CHR ''0'');
               digit = (if digit > 9 then 10 + c - chi (CHR ''a'') else digit)
           in parse_hex m (valstring + 1) (retval * 16 + word_of_int digit)
      else Some (retval, valstring))"

partial_function (option) parse_dec :: "mem \<Rightarrow> addr \<Rightarrow> ee_s32 \<Rightarrow> (ee_s32 \<times> addr) option" where
  "parse_dec m valstring retval =
     (let c = uint (m valstring) in
      if c \<ge> chi (CHR ''0'') \<and> c \<le> chi (CHR ''9'')
      then let digit = c - chi (CHR ''0'')
           in parse_dec m (valstring + 1) (retval * 10 + word_of_int digit)
      else Some (retval, valstring))"

definition parseval :: "mem \<Rightarrow> addr \<Rightarrow> ee_s32 option" where
  "parseval m valstring =
     (let (neg, valstring) = (if m valstring = ch (CHR ''-'') then (- 1, valstring + 1) else (1, valstring));
          (hexmode, valstring) =
            (if m valstring = ch (CHR ''0'') \<and> m (valstring + 1) = ch (CHR ''x'') then (True, valstring + 2)
             else (False, valstring))
      in case (if hexmode then parse_hex m valstring 0 else parse_dec m valstring 0) of
           None \<Rightarrow> None
         | Some (retval, valstring) \<Rightarrow>
             let retval = (if m valstring = ch (CHR ''K'') then retval * 1024 else retval);
                 retval = (if m valstring = ch (CHR ''M'') then retval * (1024 * 1024) else retval)
             in Some (retval * neg))"

definition get_seed_args :: "mem \<Rightarrow> int \<Rightarrow> int \<Rightarrow> addr \<Rightarrow> ee_s32 option" where
  "get_seed_args m i argc argv =
     (if argc > i then parseval m (load32 m (argv + 4 * word_of_int i)) else Some 0)"

section \<open>The CRC is a polynomial remainder\<close>

text \<open>
  A polynomial over GF(2) is an integer whose bit \<open>i\<close> is the coefficient of \<open>x\<close> to the \<open>i\<close>.  The register is
  kept bit-reversed, and the bits of a byte are sent from the lowest.
\<close>

primrec clmul :: "bool list \<Rightarrow> int \<Rightarrow> int" where
  "clmul [] p = 0"
| "clmul (q # qs) p = push_bit (length qs) (of_bool q * p) XOR clmul qs p"

definition poly_crc16 :: int where
  "poly_crc16 = 0x18005"

definition reflect :: "ee_u16 \<Rightarrow> int" where
  "reflect w = horner_sum of_bool 2 (map (\<lambda>i. bit w (15 - i)) [0..<16])"

definition sent_bits :: "ee_u8 \<Rightarrow> bool list" where
  "sent_bits b = map (bit b) [0..<8]"

primrec poly_of :: "bool list \<Rightarrow> int" where
  "poly_of [] = 0"
| "poly_of (b # bs) = push_bit (length bs) (of_bool b) XOR poly_of bs"

lemma bit_reflect: "bit (reflect w) i \<longleftrightarrow> i < 16 \<and> bit w (15 - i)"
  by (cases "i < 16") (simp_all add: reflect_def bit_horner_sum_bit_iff nth_map_upt del: upt_conv_Cons upt_rec_numeral)

lemma reflect_bounds: "0 \<le> reflect w" "reflect w < 2 ^ 16"
proof -
  show "0 \<le> reflect w" by (simp add: reflect_def horner_sum_nonnegative)
  have "take_bit 16 (reflect w) = reflect w"
    by (rule bit_eqI) (auto simp: bit_take_bit_iff bit_reflect)
  then show "reflect w < 2 ^ 16" by (metis take_bit_int_less_exp)
qed

lemma round_data [simp]: "fst (crc_round data crc) = drop_bit 1 data"
  by (simp add: crc_round_def Let_def split: if_splits)

lemma x16_one: "(data AND 1) XOR ((ucast crc :: ee_u8) AND 1) = 1 \<longleftrightarrow> bit data 0 \<noteq> bit crc 0"
  for data :: ee_u8 and crc :: ee_u16
proof -
  have "(data AND 1) XOR ((ucast crc :: ee_u8) AND 1) = of_bool (bit data 0) XOR of_bool (bit crc 0)"
    by (rule bit_word_eqI) (auto simp: bit_simps bit_1_iff)
  then show ?thesis by simp
qed

lemma bit_poly_crc16: "bit poly_crc16 n \<longleftrightarrow> n = 0 \<or> n = 2 \<or> n = 15 \<or> n = 16"
proof -
  have "poly_crc16 = 2 ^ 16 OR 2 ^ 15 OR 2 ^ 2 OR 2 ^ 0" by (simp add: poly_crc16_def)
  show ?thesis
    unfolding \<open>poly_crc16 = _\<close> by (simp only: bit_or_iff bit_exp_iff possible_bit_int) auto
qed

lemma bit_crc_masks:
  "bit (0x4002 :: ee_u16) n \<longleftrightarrow> n = 1 \<or> n = 14"
  "bit (0x8000 :: ee_u16) n \<longleftrightarrow> n = 15"
  "bit (0x7fff :: ee_u16) n \<longleftrightarrow> n < 15"
  "bit (0xa001 :: ee_u16) n \<longleftrightarrow> n = 0 \<or> n = 13 \<or> n = 15"
proof -
  have c: "(0x4002 :: ee_u16) = 2 ^ 14 OR 2 ^ 1" "(0x8000 :: ee_u16) = 2 ^ 15"
    "(0x7fff :: ee_u16) = mask 15" "(0xa001 :: ee_u16) = 2 ^ 15 OR 2 ^ 13 OR 2 ^ 0"
    by (simp_all add: mask_eq_exp_minus_1)
  show "bit (0x4002 :: ee_u16) n \<longleftrightarrow> n = 1 \<or> n = 14" "bit (0x8000 :: ee_u16) n \<longleftrightarrow> n = 15"
    "bit (0xa001 :: ee_u16) n \<longleftrightarrow> n = 0 \<or> n = 13 \<or> n = 15"
    unfolding c by (simp_all only: bit_or_iff bit_exp_iff possible_bit_word) auto
  show "bit (0x7fff :: ee_u16) n \<longleftrightarrow> n < 15"
    unfolding c by (auto simp: bit_mask_iff)
qed

lemma round_crc:
  "snd (crc_round data crc) = drop_bit 1 crc XOR (if bit data 0 \<noteq> bit crc 0 then 0xa001 else 0)"
proof (rule bit_word_eqI)
  fix n assume n: "n < LENGTH(16)"
  have c: "\<not> bit crc (Suc 15)" by (auto dest: bit_imp_le_length)
  have s: "snd (crc_round data crc) =
    (if bit data 0 \<noteq> bit crc 0 then drop_bit 1 (crc XOR 0x4002) OR 0x8000 else drop_bit 1 crc AND 0x7fff)"
    unfolding crc_round_def x16_one Let_def by (simp only: if_distrib prod.case snd_conv split: if_split) simp
  show "bit (snd (crc_round data crc)) n =
    bit (drop_bit 1 crc XOR (if bit data 0 \<noteq> bit crc 0 then 0xa001 else 0)) n"
  proof (cases "bit data 0 \<noteq> bit crc 0")
    case True
    show ?thesis
      unfolding s if_P [OF True] bit_xor_iff bit_or_iff bit_drop_bit_eq o_apply bit_crc_masks
      using n c by (cases "n = 15") auto
  next
    case False
    show ?thesis
      unfolding s if_not_P [OF False] bit_xor_iff bit_and_iff bit_drop_bit_eq o_apply bit_crc_masks
      using n c by (cases "n = 15") auto
  qed
qed

lemma reflect_round:
  "reflect (snd (crc_round data crc)) =
     push_bit 1 (reflect crc) XOR push_bit 16 (of_bool (bit data 0))
       XOR of_bool (bit data 0 \<noteq> bit crc 0) * poly_crc16"
  (is "?l = ?r")
proof (rule bit_eqI)
  fix n :: nat
  have m: "bit (of_bool b * poly_crc16) n \<longleftrightarrow> b \<and> bit poly_crc16 n" for b by simp
  have o: "bit (of_bool b :: int) k \<longleftrightarrow> b \<and> k = 0" for b k by (auto simp: bit_of_bool_iff)
  have r: "bit ?r n \<longleftrightarrow> ((1 \<le> n \<and> bit (reflect crc) (n - 1)) \<noteq> (n = 16 \<and> bit data 0))
      \<noteq> (bit data 0 \<noteq> bit crc 0 \<and> bit poly_crc16 n)"
    unfolding bit_xor_iff bit_push_bit_iff_int m o by auto
  have l: "bit ?l n \<longleftrightarrow> n < 16 \<and>
      (bit crc (Suc (15 - n)) \<noteq> (bit data 0 \<noteq> bit crc 0 \<and> bit (0xa001 :: ee_u16) (15 - n)))"
    unfolding bit_reflect round_crc bit_xor_iff bit_drop_bit_eq by auto
  consider "n = 0" | "1 \<le> n" "n \<le> 15" | "n = 16" | "n \<ge> 17" by linarith
  then show "bit ?l n \<longleftrightarrow> bit ?r n"
  proof cases
    case 1
    then show ?thesis unfolding l r by (auto simp: bit_crc_masks bit_poly_crc16 dest: bit_imp_le_length)
  next
    case 2
    then have "15 - (n - 1) = Suc (15 - n)" "n - 1 < 16" by simp_all
    then have "bit (reflect crc) (n - 1) \<longleftrightarrow> bit crc (Suc (15 - n))" by (simp only: bit_reflect simp_thms)
    with 2 show ?thesis unfolding l r bit_crc_masks bit_poly_crc16 by auto
  next
    case 3
    then show ?thesis unfolding l r by (auto simp: bit_reflect bit_poly_crc16)
  next
    case 4
    then show ?thesis unfolding l r by (auto simp: bit_reflect bit_poly_crc16)
  qed
qed

lemma clmul_append: "clmul (ps @ qs) p = push_bit (length qs) (clmul ps p) XOR clmul qs p"
  by (induction ps) (simp_all add: push_bit_xor push_bit_push_bit add.commute xor.assoc)

lemma poly_of_append: "poly_of (xs @ ys) = push_bit (length ys) (poly_of xs) XOR poly_of ys"
  by (induction xs) (simp_all add: push_bit_xor push_bit_push_bit add.commute xor.assoc)

lemma crc_loop_remainder:
  "\<exists>qs. length qs = k \<and> push_bit k (reflect crc) XOR push_bit 16 (poly_of (map (bit data) [0..<k]))
     = clmul qs poly_crc16 XOR reflect (crc_loop k data crc)"
proof (induction k arbitrary: data crc)
  case 0
  show ?case by simp
next
  case (Suc k)
  let ?c = "snd (crc_round data crc)"
  let ?q = "bit data 0 \<noteq> bit crc 0"
  let ?rest = "poly_of (map (bit (drop_bit 1 data)) [0..<k])"
  obtain qs where qs: "length qs = k"
    "push_bit k (reflect ?c) XOR push_bit 16 ?rest = clmul qs poly_crc16 XOR reflect (crc_loop k (drop_bit 1 data) ?c)"
    using Suc.IH by blast
  have bits: "map (bit data) [0..<Suc k] = bit data 0 # map (bit (drop_bit 1 data)) [0..<k]"
    by (simp add: upt_conv_Cons map_Suc_upt [symmetric] bit_drop_bit_eq comp_def del: upt_Suc)
  have "push_bit (Suc k) (reflect crc) XOR push_bit 16 (poly_of (map (bit data) [0..<Suc k]))
      = push_bit k (push_bit 1 (reflect crc) XOR push_bit 16 (of_bool (bit data 0))) XOR push_bit 16 ?rest"
    by (simp only: bits poly_of.simps push_bit_xor push_bit_push_bit length_map length_upt xor.assoc) (simp add: add.commute)
  also have "push_bit 1 (reflect crc) XOR push_bit 16 (of_bool (bit data 0)) = reflect ?c XOR of_bool ?q * poly_crc16"
    unfolding reflect_round by (simp add: xor.assoc)
  also have "push_bit k (reflect ?c XOR of_bool ?q * poly_crc16) XOR push_bit 16 ?rest
      = push_bit k (of_bool ?q * poly_crc16) XOR (push_bit k (reflect ?c) XOR push_bit 16 ?rest)"
    by (simp only: push_bit_xor xor.assoc xor.left_commute)
  also have "\<dots> = clmul (?q # qs) poly_crc16 XOR reflect (crc_loop k (drop_bit 1 data) ?c)"
    unfolding qs(2) clmul.simps qs(1) by (simp only: xor.assoc)
  finally show ?case
    using qs(1) by (intro exI [of _ "?q # qs"]) (simp add: case_prod_unfold)
qed

lemma crcu8_remainder:
  "\<exists>qs. length qs = 8 \<and> push_bit 8 (reflect crc) XOR push_bit 16 (poly_of (sent_bits data))
     = clmul qs poly_crc16 XOR reflect (crcu8 data crc)"
  unfolding crcu8_def sent_bits_def by (rule crc_loop_remainder)

lemma length_sent_bits [simp]: "length (sent_bits b) = 8"
  by (simp add: sent_bits_def)

lemma length_concat_sent [simp]: "length (concat (map sent_bits bs)) = 8 * length bs"
  by (induction bs) simp_all

lemma crc_bytes_remainder:
  "\<exists>qs. length qs = 8 * length bs \<and>
     push_bit (8 * length bs) (reflect crc) XOR push_bit 16 (poly_of (concat (map sent_bits bs)))
     = clmul qs poly_crc16 XOR reflect (fold crcu8 bs crc)"
proof (induction bs arbitrary: crc)
  case Nil
  show ?case by simp
next
  case (Cons b bs)
  let ?n = "8 * length bs"
  let ?rest = "poly_of (concat (map sent_bits bs))"
  obtain q where q: "length q = 8" "push_bit 8 (reflect crc) XOR push_bit 16 (poly_of (sent_bits b))
      = clmul q poly_crc16 XOR reflect (crcu8 b crc)"
    using crcu8_remainder by blast
  obtain qs where qs: "length qs = ?n" "push_bit ?n (reflect (crcu8 b crc)) XOR push_bit 16 ?rest
      = clmul qs poly_crc16 XOR reflect (fold crcu8 bs (crcu8 b crc))"
    using Cons.IH by blast
  have "push_bit (8 + ?n) (reflect crc) XOR push_bit 16 (poly_of (sent_bits b @ concat (map sent_bits bs)))
      = push_bit ?n (push_bit 8 (reflect crc) XOR push_bit 16 (poly_of (sent_bits b))) XOR push_bit 16 ?rest"
    by (simp only: poly_of_append push_bit_xor push_bit_push_bit length_concat_sent xor.assoc) (simp add: add.commute)
  also have "\<dots> = push_bit ?n (clmul q poly_crc16)
      XOR (push_bit ?n (reflect (crcu8 b crc)) XOR push_bit 16 ?rest)"
    unfolding q(2) by (simp only: push_bit_xor xor.assoc)
  also have "\<dots> = clmul (q @ qs) poly_crc16 XOR reflect (fold crcu8 bs (crcu8 b crc))"
    unfolding qs(2) clmul_append qs(1) by (simp only: xor.assoc)
  finally show ?case
    using q(1) qs(1) by (intro exI [of _ "q @ qs"]) simp
qed

lemma crcu16_bytes: "crcu16 v crc = fold crcu8 [ucast v, ucast (drop_bit 8 v)] crc"
  by (simp add: crcu16_def)

lemma crcu32_bytes: "crcu32 v crc = fold crcu8 (le_bytes v) crc"
proof -
  have "ucast (ucast v :: ee_u16) = (ucast v :: ee_u8)"
    "ucast (drop_bit 8 (ucast v :: ee_u16)) = (ucast (drop_bit 8 v) :: ee_u8)"
    "ucast (ucast (drop_bit 16 v) :: ee_u16) = (ucast (drop_bit 16 v) :: ee_u8)"
    "ucast (drop_bit 8 (ucast (drop_bit 16 v) :: ee_u16)) = (ucast (drop_bit 24 v) :: ee_u8)"
    by (auto intro!: bit_word_eqI simp: bit_simps)
  then show ?thesis by (simp add: crcu32_def crc16_def crcu16_bytes le_bytes_def)
qed

text \<open>C22 The CRC functions compute CRC-16: after any sequence of bytes the register is the remainder, of degree
  below 16, of the initial register and the message (times \<open>x\<close> to the 16) by the polynomial
  \<open>x^16 + x^15 + x^2 + 1\<close>, and the 16 and 32 bit versions feed the bytes of their argument from the lowest.\<close>

theorem crc_is_remainder:
  "(\<exists>qs. push_bit (8 * length bs) (reflect crc) XOR push_bit 16 (poly_of (concat (map sent_bits bs)))
       = clmul qs poly_crc16 XOR reflect (fold crcu8 bs crc))
   \<and> 0 \<le> reflect (fold crcu8 bs crc) \<and> reflect (fold crcu8 bs crc) < 2 ^ 16
   \<and> crcu16 v crc = fold crcu8 [ucast v, ucast (drop_bit 8 v)] crc
   \<and> crcu32 w crc = fold crcu8 (le_bytes w) crc"
  using crc_bytes_remainder [of bs crc] reflect_bounds crcu16_bytes crcu32_bytes by blast

section \<open>Seeds\<close>

definition dec_digit :: "byte \<Rightarrow> bool" where
  "dec_digit c \<longleftrightarrow> 48 \<le> uint c \<and> uint c \<le> 57"

definition hex_digit :: "byte \<Rightarrow> bool" where
  "hex_digit c \<longleftrightarrow> dec_digit c \<or> 97 \<le> uint c \<and> uint c \<le> 102"

definition digit_of :: "byte \<Rightarrow> int" where
  "digit_of c = (if dec_digit c then uint c - 48 else uint c - 87)"

definition value_of :: "int \<Rightarrow> byte list \<Rightarrow> int" where
  "value_of b ds = foldl (\<lambda>v c. v * b + digit_of c) 0 ds"

lemma value_foldl:
  "foldl (\<lambda>v c. v * word_of_int b + word_of_int (digit_of c)) (word_of_int v) ds
   = (word_of_int (foldl (\<lambda>v c. v * b + digit_of c) v ds) :: ee_s32)"
proof (induction ds arbitrary: v)
  case (Cons d ds)
  have "(word_of_int v * word_of_int b + word_of_int (digit_of d) :: ee_s32) = word_of_int (v * b + digit_of d)"
    by simp
  then show ?case by (simp only: foldl_Cons Cons.IH)
qed simp

lemma parse_dec_ok:
  assumes "cstr m p (ds @ rest)" and "\<forall>d \<in> set ds. dec_digit d" and "rest \<noteq> [] \<longrightarrow> \<not> dec_digit (hd rest)"
  shows "parse_dec m p v = Some (foldl (\<lambda>v c. v * word_of_int 10 + word_of_int (digit_of c)) v ds, p + of_nat (length ds))"
  using assms
proof (induction ds arbitrary: p v)
  case Nil
  then have "\<not> dec_digit (m p)" by (cases rest) (auto simp: dec_digit_def)
  then show ?case by (subst parse_dec.simps) (auto simp: dec_digit_def Let_def)
next
  case (Cons d ds)
  then have "dec_digit (m p)" "m p = d" by auto
  then show ?case using Cons by (subst parse_dec.simps) (simp add: dec_digit_def digit_of_def Let_def)
qed

lemma parse_hex_ok:
  assumes "cstr m p (ds @ rest)" and "\<forall>d \<in> set ds. hex_digit d" and "rest \<noteq> [] \<longrightarrow> \<not> hex_digit (hd rest)"
  shows "parse_hex m p v = Some (foldl (\<lambda>v c. v * word_of_int 16 + word_of_int (digit_of c)) v ds, p + of_nat (length ds))"
  using assms
proof (induction ds arbitrary: p v)
  case Nil
  then have "\<not> hex_digit (m p)" by (cases rest) (auto simp: dec_digit_def hex_digit_def)
  then show ?case by (subst parse_hex.simps) (auto simp: dec_digit_def hex_digit_def Let_def)
next
  case (Cons d ds)
  then have "hex_digit (m p)" "m p = d" by auto
  then show ?case using Cons
    by (subst parse_hex.simps) (auto simp: dec_digit_def hex_digit_def digit_of_def Let_def)
qed

definition unit_of :: "byte list \<Rightarrow> int" where
  "unit_of rest = (if rest \<noteq> [] \<and> hd rest = ch (CHR ''K'') then 1024
     else if rest \<noteq> [] \<and> hd rest = ch (CHR ''M'') then 1024 * 1024 else 1)"

text \<open>A seed argument is read as its value in decimal, or in hexadecimal after \<open>0x\<close>, scaled by its unit, modulo \<open>2^32\<close>.\<close>

lemma parseval_dec:
  assumes "cstr m p (ds @ rest)" and "\<forall>d \<in> set ds. dec_digit d" and "rest \<noteq> [] \<longrightarrow> \<not> dec_digit (hd rest)"
    and "ds \<noteq> []" and "ds = [48] \<longrightarrow> rest \<noteq> [] \<longrightarrow> hd rest \<noteq> ch (CHR ''x'')"
  shows "parseval m p = Some (word_of_int (value_of 10 ds * unit_of rest))"
proof -
  obtain d ds' where ds: "ds = d # ds'" using assms(4) by (cases ds) auto
  have "m p = d" "dec_digit d" using assms(1,2) ds by auto
  then have "m p \<noteq> ch (CHR ''-'')" by (auto simp: dec_digit_def)
  moreover have "\<not> (m p = ch (CHR ''0'') \<and> m (p + 1) = ch (CHR ''x''))"
    using assms ds by (cases ds'; cases rest) (auto simp: dec_digit_def)
  moreover have "cstr m (p + of_nat (length ds)) rest" using assms(1) by (simp add: cstr_append)
  ultimately show ?thesis
    using value_foldl [of 10 0 ds]
    by (cases rest) (auto simp: parseval_def parse_dec_ok [OF assms(1-3)] value_of_def Let_def unit_of_def)
qed

lemma parseval_hex:
  assumes "cstr m p (ch (CHR ''0'') # ch (CHR ''x'') # ds @ rest)" and "\<forall>d \<in> set ds. hex_digit d"
    and "rest \<noteq> [] \<longrightarrow> \<not> hex_digit (hd rest)"
  shows "parseval m p = Some (word_of_int (value_of 16 ds * unit_of rest))"
proof -
  have p2: "cstr m (p + 2) (ds @ rest)" using assms(1) by (simp add: add.assoc)
  have "m p = ch (CHR ''0'')" "m (p + 1) = ch (CHR ''x'')" using assms(1) by auto
  moreover have "cstr m (p + 2 + of_nat (length ds)) rest" using p2 by (simp add: cstr_append)
  ultimately show ?thesis
    using value_foldl [of 16 0 ds]
    by (cases rest) (auto simp: parseval_def parse_hex_ok [OF p2 assms(2,3)] value_of_def Let_def unit_of_def)
qed

end
