(* ===== verification/Core_State.thy ===== *)
theory Core_State
  imports Core_Util
begin

text \<open>
  The CoreMark state machine benchmark (\<open>core_state.c\<close>): \<open>core_init_state\<close> fills the block with comma-separated
  number patterns, \<open>core_state_transition\<close> scans one token, and \<open>core_bench_state\<close> scans the block, corrupts it,
  scans it again and undoes the corruption.  The counters are arrays indexed by \<open>enum CORE_STATE\<close>; a memory
  in which a scan or a stepping loop does not end gives \<open>None\<close>.
\<close>

section \<open>Definitions\<close>

datatype CORE_STATE = CORE_START | CORE_INVALID | CORE_S1 | CORE_S2 | CORE_INT | CORE_FLOAT
  | CORE_EXPONENT | CORE_SCIENTIFIC

type_synonym counts = "CORE_STATE \<Rightarrow> ee_u32"

definition ee_isdigit :: "ee_u8 \<Rightarrow> ee_u8" where
  "ee_isdigit c = (if c \<ge> ch (CHR ''0'') \<and> c \<le> ch (CHR ''9'') then 1 else 0)"

definition inc :: "counts \<Rightarrow> CORE_STATE \<Rightarrow> counts" where
  "inc counts s = counts(s := counts s + 1)"

definition state_switch :: "CORE_STATE \<Rightarrow> ee_u8 \<Rightarrow> counts \<Rightarrow> CORE_STATE \<times> counts" where
  "state_switch state NEXT_SYMBOL transition_count =
     (case state of
        CORE_START \<Rightarrow>
          let (state, transition_count) =
            (if ee_isdigit NEXT_SYMBOL \<noteq> 0 then (CORE_INT, transition_count)
             else if NEXT_SYMBOL = ch (CHR ''+'') \<or> NEXT_SYMBOL = ch (CHR ''-'') then (CORE_S1, transition_count)
             else if NEXT_SYMBOL = ch (CHR ''.'') then (CORE_FLOAT, transition_count)
             else (CORE_INVALID, inc transition_count CORE_INVALID))
          in (state, inc transition_count CORE_START)
      | CORE_S1 \<Rightarrow>
          if ee_isdigit NEXT_SYMBOL \<noteq> 0 then (CORE_INT, inc transition_count CORE_S1)
          else if NEXT_SYMBOL = ch (CHR ''.'') then (CORE_FLOAT, inc transition_count CORE_S1)
          else (CORE_INVALID, inc transition_count CORE_S1)
      | CORE_INT \<Rightarrow>
          if NEXT_SYMBOL = ch (CHR ''.'') then (CORE_FLOAT, inc transition_count CORE_INT)
          else if ee_isdigit NEXT_SYMBOL = 0 then (CORE_INVALID, inc transition_count CORE_INT)
          else (state, transition_count)
      | CORE_FLOAT \<Rightarrow>
          if NEXT_SYMBOL = ch (CHR ''E'') \<or> NEXT_SYMBOL = ch (CHR ''e'')
          then (CORE_S2, inc transition_count CORE_FLOAT)
          else if ee_isdigit NEXT_SYMBOL = 0 then (CORE_INVALID, inc transition_count CORE_FLOAT)
          else (state, transition_count)
      | CORE_S2 \<Rightarrow>
          if NEXT_SYMBOL = ch (CHR ''+'') \<or> NEXT_SYMBOL = ch (CHR ''-'')
          then (CORE_EXPONENT, inc transition_count CORE_S2)
          else (CORE_INVALID, inc transition_count CORE_S2)
      | CORE_EXPONENT \<Rightarrow>
          if ee_isdigit NEXT_SYMBOL \<noteq> 0 then (CORE_SCIENTIFIC, inc transition_count CORE_EXPONENT)
          else (CORE_INVALID, inc transition_count CORE_EXPONENT)
      | CORE_SCIENTIFIC \<Rightarrow>
          if ee_isdigit NEXT_SYMBOL = 0 then (CORE_INVALID, inc transition_count CORE_INVALID)
          else (state, transition_count)
      | CORE_INVALID \<Rightarrow> (state, transition_count))"

partial_function (option) transition_loop ::
  "mem \<Rightarrow> addr \<Rightarrow> CORE_STATE \<Rightarrow> counts \<Rightarrow> (CORE_STATE \<times> addr \<times> counts) option" where
  "transition_loop m str state transition_count =
     (if m str \<noteq> 0 \<and> state \<noteq> CORE_INVALID then
        let NEXT_SYMBOL = m str in
        if NEXT_SYMBOL = ch (CHR '','') then Some (state, str + 1, transition_count)
        else let (state, transition_count) = state_switch state NEXT_SYMBOL transition_count
             in transition_loop m (str + 1) state transition_count
      else Some (state, str, transition_count))"

definition core_state_transition :: "mem \<Rightarrow> addr \<Rightarrow> counts \<Rightarrow> (CORE_STATE \<times> addr \<times> counts) option" where
  "core_state_transition m instr transition_count = transition_loop m instr CORE_START transition_count"

partial_function (option) scan_loop ::
  "mem \<Rightarrow> addr \<Rightarrow> counts \<Rightarrow> counts \<Rightarrow> (counts \<times> counts) option" where
  "scan_loop m p final_counts track_counts =
     (if m p \<noteq> 0 then
        case core_state_transition m p track_counts of
          None \<Rightarrow> None
        | Some (fstate, p, track_counts) \<Rightarrow> scan_loop m p (inc final_counts fstate) track_counts
      else Some (final_counts, track_counts))"

partial_function (option) corrupt_loop :: "mem \<Rightarrow> addr \<Rightarrow> addr \<Rightarrow> ee_s16 \<Rightarrow> ee_u8 \<Rightarrow> mem option" where
  "corrupt_loop m p e step seed =
     (if p < e then
        let m = (if m p \<noteq> ch (CHR '','') then m(p := m p XOR seed) else m)
        in corrupt_loop m (p + scast step) e step seed
      else Some m)"

definition crc_counts :: "counts \<Rightarrow> counts \<Rightarrow> ee_u16 \<Rightarrow> ee_u16" where
  "crc_counts final_counts track_counts crc =
     fold (\<lambda>i crc. crcu32 (track_counts i) (crcu32 (final_counts i) crc))
       [CORE_START, CORE_INVALID, CORE_S1, CORE_S2, CORE_INT, CORE_FLOAT, CORE_EXPONENT, CORE_SCIENTIFIC] crc"

definition core_bench_state ::
  "mem \<Rightarrow> ee_u32 \<Rightarrow> addr \<Rightarrow> ee_s16 \<Rightarrow> ee_s16 \<Rightarrow> ee_s16 \<Rightarrow> ee_u16 \<Rightarrow> (mem \<times> ee_u16) option" where
  "core_bench_state m blksize memblock seed1 seed2 step crc =
     (case scan_loop m memblock (\<lambda>_. 0) (\<lambda>_. 0) of
        None \<Rightarrow> None
      | Some (final_counts, track_counts) \<Rightarrow>
          case corrupt_loop m memblock (memblock + blksize) step (ucast seed1) of
            None \<Rightarrow> None
          | Some m \<Rightarrow>
              case scan_loop m memblock final_counts track_counts of
                None \<Rightarrow> None
              | Some (final_counts, track_counts) \<Rightarrow>
                  case corrupt_loop m memblock (memblock + blksize) step (ucast seed2) of
                    None \<Rightarrow> None
                  | Some m \<Rightarrow> Some (m, crc_counts final_counts track_counts crc))"

text \<open>The pattern tables.\<close>

definition intpat :: "byte list list" where
  "intpat = map (map of_char) [''5012'', ''1234'', ''-874'', ''+122'']"

definition floatpat :: "byte list list" where
  "floatpat = map (map of_char) [''35.54400'', ''.1234500'', ''-110.700'', ''+0.64400'']"

definition scipat :: "byte list list" where
  "scipat = map (map of_char) [''5.500e+3'', ''-.123e-2'', ''-87e+832'', ''+0.6e-12'']"

definition errpat :: "byte list list" where
  "errpat = map (map of_char) [''T0.3e-1F'', ''-T.T++Tq'', ''1T3.4e4z'', ''34.0e-T^'']"

text \<open>The shifted seed is masked to its bits 3 and 4, which the sign extension of \<open>seed >> 3\<close> does not reach.\<close>

definition pick_pattern :: "ee_s16 \<Rightarrow> byte list \<times> ee_u32" where
  "pick_pattern seed =
     (let s = unat (seed AND 7); k = unat (drop_bit 3 seed AND 3) in
      if s = 0 \<or> s = 1 \<or> s = 2 then (intpat ! k, 4)
      else if s = 3 \<or> s = 4 then (floatpat ! k, 8)
      else if s = 5 \<or> s = 6 then (scipat ! k, 8)
      else (errpat ! k, 8))"

partial_function (option) init_state_loop ::
  "mem \<Rightarrow> addr \<Rightarrow> ee_u32 \<Rightarrow> ee_s16 \<Rightarrow> ee_u32 \<Rightarrow> ee_u32 \<Rightarrow> byte list \<Rightarrow> (mem \<times> ee_u32) option" where
  "init_state_loop m p sz seed tot nxt buf =
     (if tot + nxt + 1 < sz then
        let (m, tot) =
              (if nxt > 0
               then (store_bytes m (p + tot) (take (unat nxt) buf @ [ch (CHR '','')]), tot + (nxt + 1))
               else (m, tot));
            seed = seed + 1;
            (buf, nxt) = pick_pattern seed
        in init_state_loop m p sz seed tot nxt buf
      else Some (m, tot))"

function zero_fill :: "mem \<Rightarrow> addr \<Rightarrow> ee_u32 \<Rightarrow> ee_u32 \<Rightarrow> mem" where
  "zero_fill m p tot sz =
     (if tot < sz then zero_fill (m(p + tot := 0)) p (tot + 1) sz else m)"
  by pat_completeness auto
termination
  by (relation "measure (\<lambda>(m, p, tot, sz). unat sz - unat tot)")
     (auto simp: unat_succ_less word_less_nat_alt)

definition core_init_state :: "mem \<Rightarrow> ee_u32 \<Rightarrow> ee_s16 \<Rightarrow> addr \<Rightarrow> mem option" where
  "core_init_state m sz seed p =
     (let sz = sz - 1 in
      case init_state_loop m p sz seed 0 0 [] of
        None \<Rightarrow> None
      | Some (m, tot) \<Rightarrow>
          let sz = sz + 1
          in Some (zero_fill m p tot sz))"

declare zero_fill.simps [simp del]

section \<open>The scanner\<close>

text \<open>One token, without its separator, drives the machine as a word drives an automaton.\<close>

definition next_state :: "CORE_STATE \<Rightarrow> ee_u8 \<Rightarrow> CORE_STATE" where
  "next_state s c = fst (state_switch s c (\<lambda>_. 0))"

definition run :: "CORE_STATE \<Rightarrow> byte list \<Rightarrow> CORE_STATE" where
  "run s xs = foldl next_state s xs"

definition digits :: "byte list \<Rightarrow> bool" where
  "digits xs \<longleftrightarrow> (\<forall>x \<in> set xs. dec_digit x)"

definition signs :: "byte set" where
  "signs = {ch (CHR ''+''), ch (CHR ''-'')}"

definition exps :: "byte set" where
  "exps = {ch (CHR ''e''), ch (CHR ''E'')}"

lemma ee_isdigit_iff: "ee_isdigit c = 0 \<longleftrightarrow> \<not> dec_digit c"
  by (auto simp: ee_isdigit_def dec_digit_def word_le_def)

lemma switch_fst: "fst (state_switch s c k) = next_state s c"
  unfolding next_state_def by (cases s) (simp_all add: state_switch_def Let_def)

lemma next_state_simps:
  "next_state CORE_START c = (if dec_digit c then CORE_INT else if c \<in> signs then CORE_S1
     else if c = 46 then CORE_FLOAT else CORE_INVALID)"
  "next_state CORE_S1 c = (if dec_digit c then CORE_INT else if c = 46 then CORE_FLOAT else CORE_INVALID)"
  "next_state CORE_INT c = (if c = 46 then CORE_FLOAT else if dec_digit c then CORE_INT else CORE_INVALID)"
  "next_state CORE_FLOAT c = (if c \<in> exps then CORE_S2 else if dec_digit c then CORE_FLOAT else CORE_INVALID)"
  "next_state CORE_S2 c = (if c \<in> signs then CORE_EXPONENT else CORE_INVALID)"
  "next_state CORE_EXPONENT c = (if dec_digit c then CORE_SCIENTIFIC else CORE_INVALID)"
  "next_state CORE_SCIENTIFIC c = (if dec_digit c then CORE_SCIENTIFIC else CORE_INVALID)"
  "next_state CORE_INVALID c = CORE_INVALID"
  unfolding next_state_def by (auto simp: state_switch_def ee_isdigit_iff signs_def exps_def)

lemma not_dec_digit [simp]: "\<not> dec_digit 46" "c \<in> signs \<Longrightarrow> \<not> dec_digit c" "c \<in> exps \<Longrightarrow> \<not> dec_digit c"
  by (auto simp: dec_digit_def signs_def exps_def)

lemma run_simps [simp]: "run s [] = s" "run s (x # xs) = run (next_state s x) xs"
  by (simp_all add: run_def)

lemma run_invalid [simp]: "run CORE_INVALID xs = CORE_INVALID"
  by (induction xs) (simp_all add: next_state_simps)

lemma digits_simps [simp]: "digits []" "digits (x # xs) \<longleftrightarrow> dec_digit x \<and> digits xs"
  by (auto simp: digits_def)

text \<open>The number formats, as the machine knows them.\<close>

definition sign_opt :: "byte list \<Rightarrow> bool" where
  "sign_opt sg \<longleftrightarrow> sg = [] \<or> (\<exists>s \<in> signs. sg = [s])"

definition exponent_part :: "byte list \<Rightarrow> bool" where
  "exponent_part xs \<longleftrightarrow> (\<exists>e s ds. xs = e # s # ds \<and> e \<in> exps \<and> s \<in> signs \<and> ds \<noteq> [] \<and> digits ds)"

definition is_integer :: "byte list \<Rightarrow> bool" where
  "is_integer xs \<longleftrightarrow> (\<exists>sg ds. xs = sg @ ds \<and> sign_opt sg \<and> ds \<noteq> [] \<and> digits ds)"

definition is_floating :: "byte list \<Rightarrow> bool" where
  "is_floating xs \<longleftrightarrow> (\<exists>sg as bs. xs = sg @ as @ 46 # bs \<and> sign_opt sg \<and> digits as \<and> digits bs)"

definition is_scientific :: "byte list \<Rightarrow> bool" where
  "is_scientific xs \<longleftrightarrow>
     (\<exists>sg as bs es. xs = sg @ as @ 46 # bs @ es \<and> sign_opt sg \<and> digits as \<and> digits bs \<and> exponent_part es)"

lemma run_sci: "run CORE_SCIENTIFIC xs = (if digits xs then CORE_SCIENTIFIC else CORE_INVALID)"
  by (induction xs) (simp_all add: next_state_simps)

lemma run_tail:
  "run CORE_EXPONENT xs \<in> {CORE_EXPONENT, CORE_SCIENTIFIC, CORE_INVALID}"
  "run CORE_S2 xs \<in> {CORE_S2, CORE_EXPONENT, CORE_SCIENTIFIC, CORE_INVALID}"
  by (cases xs; cases "List.tl xs"; simp add: next_state_simps run_sci)+

lemma run_float:
  "run CORE_FLOAT xs \<noteq> CORE_INT"
  "run CORE_FLOAT xs = CORE_FLOAT \<longleftrightarrow> digits xs"
proof -
  have "run CORE_FLOAT xs \<noteq> CORE_INT \<and> (run CORE_FLOAT xs = CORE_FLOAT \<longleftrightarrow> digits xs)"
  proof (induction xs)
    case (Cons x xs)
    then show ?case using run_tail(2) [of xs] by (auto simp: next_state_simps)
  qed simp
  then show "run CORE_FLOAT xs \<noteq> CORE_INT" "run CORE_FLOAT xs = CORE_FLOAT \<longleftrightarrow> digits xs" by auto
qed

lemma run_S2_sci: "e \<in> exps \<Longrightarrow> run CORE_S2 xs = CORE_SCIENTIFIC \<longleftrightarrow> exponent_part (e # xs)"
  by (cases xs; cases "List.tl xs"; simp add: next_state_simps run_sci exponent_part_def)

definition after_digits :: "(byte list \<Rightarrow> bool) \<Rightarrow> byte list \<Rightarrow> bool" where
  "after_digits Q xs \<longleftrightarrow> (\<exists>as es. xs = as @ es \<and> digits as \<and> Q es)"

lemma after_digits_simps [simp]:
  "after_digits Q [] \<longleftrightarrow> Q []"
  "after_digits Q (x # xs) \<longleftrightarrow> Q (x # xs) \<or> dec_digit x \<and> after_digits Q xs"
proof -
  show "after_digits Q [] \<longleftrightarrow> Q []" by (auto simp: after_digits_def)
  show "after_digits Q (x # xs) \<longleftrightarrow> Q (x # xs) \<or> dec_digit x \<and> after_digits Q xs"
  proof
    assume "after_digits Q (x # xs)"
    then show "Q (x # xs) \<or> dec_digit x \<and> after_digits Q xs"
      unfolding after_digits_def Cons_eq_append_conv by (auto 4 3)
  next
    assume "Q (x # xs) \<or> dec_digit x \<and> after_digits Q xs"
    then show "after_digits Q (x # xs)"
      unfolding after_digits_def by (metis append_Cons append_Nil digits_simps)
  qed
qed

definition point_then :: "(byte list \<Rightarrow> bool) \<Rightarrow> byte list \<Rightarrow> bool" where
  "point_then Q xs \<longleftrightarrow> (\<exists>ys. xs = 46 # ys \<and> Q ys)"

lemma point_then_simps [simp]: "\<not> point_then Q []" "point_then Q (x # xs) \<longleftrightarrow> x = 46 \<and> Q xs"
  by (auto simp: point_then_def)

lemma exponent_part_simps [simp]: "\<not> exponent_part []" "x \<notin> exps \<Longrightarrow> \<not> exponent_part (x # xs)"
  by (auto simp: exponent_part_def)

lemma run_float_sci: "run CORE_FLOAT xs = CORE_SCIENTIFIC \<longleftrightarrow> after_digits exponent_part xs"
proof (induction xs)
  case (Cons x xs)
  then show ?case by (cases "x \<in> exps") (auto simp: next_state_simps run_S2_sci)
qed simp

lemma run_int:
  "run CORE_INT xs = CORE_INT \<longleftrightarrow> digits xs"
  "run CORE_INT xs = CORE_FLOAT \<longleftrightarrow> after_digits (point_then digits) xs"
  "run CORE_INT xs = CORE_SCIENTIFIC \<longleftrightarrow> after_digits (point_then (after_digits exponent_part)) xs"
  by (induction xs) (auto simp: next_state_simps run_float run_float_sci)

lemma run_S1:
  "run CORE_S1 xs = CORE_INT \<longleftrightarrow> xs \<noteq> [] \<and> digits xs"
  "run CORE_S1 xs = CORE_FLOAT \<longleftrightarrow> after_digits (point_then digits) xs"
  "run CORE_S1 xs = CORE_SCIENTIFIC \<longleftrightarrow> after_digits (point_then (after_digits exponent_part)) xs"
  by (cases xs; auto simp: next_state_simps run_float run_float_sci run_int)+

definition signed :: "(byte list \<Rightarrow> bool) \<Rightarrow> byte list \<Rightarrow> bool" where
  "signed Q xs \<longleftrightarrow> (\<exists>sg ys. xs = sg @ ys \<and> sign_opt sg \<and> Q ys)"

lemma signed_simps [simp]:
  "signed Q [] \<longleftrightarrow> Q []"
  "signed Q (x # xs) \<longleftrightarrow> Q (x # xs) \<or> x \<in> signs \<and> Q xs"
proof -
  show "signed Q [] \<longleftrightarrow> Q []" by (auto simp: signed_def sign_opt_def)
  have "signed Q (x # xs) \<longleftrightarrow> (\<exists>ys. x # xs = ys \<and> Q ys) \<or> (\<exists>s \<in> signs. \<exists>ys. x # xs = s # ys \<and> Q ys)"
    unfolding signed_def sign_opt_def by (metis append_Cons append_Nil)
  then show "signed Q (x # xs) \<longleftrightarrow> Q (x # xs) \<or> x \<in> signs \<and> Q xs" by auto
qed

lemma formats_signed:
  "is_integer xs \<longleftrightarrow> signed (\<lambda>ys. ys \<noteq> [] \<and> digits ys) xs"
  "is_floating xs \<longleftrightarrow> signed (after_digits (point_then digits)) xs"
  "is_scientific xs \<longleftrightarrow> signed (after_digits (point_then (after_digits exponent_part))) xs"
  unfolding is_integer_def is_floating_def is_scientific_def signed_def after_digits_def point_then_def by blast+

lemma signs_not_point [simp]: "46 \<notin> signs" "x \<in> signs \<Longrightarrow> x \<noteq> 46"
  by (auto simp: signs_def)

lemma run_start:
  "run CORE_START xs = CORE_INT \<longleftrightarrow> is_integer xs"
  "run CORE_START xs = CORE_FLOAT \<longleftrightarrow> is_floating xs"
  "run CORE_START xs = CORE_SCIENTIFIC \<longleftrightarrow> is_scientific xs"
  unfolding formats_signed
  by (cases xs; auto simp: next_state_simps run_float run_float_sci run_int run_S1)+

text \<open>The loop over memory follows the run until the machine rejects or the token ends.\<close>

lemma transition_loop_run:
  assumes "cstr m p (xs @ rest)" and "ch (CHR '','') \<notin> set xs" and "rest \<noteq> [] \<longrightarrow> hd rest = ch (CHR '','')"
    and "s \<noteq> CORE_INVALID"
  shows "\<exists>q k'. transition_loop m p s k = Some (run s xs, q, k') \<and>
     (\<exists>n. q = p + of_nat n \<and> n \<le> length (xs @ rest) \<and> (xs @ rest \<noteq> [] \<longrightarrow> 0 < n) \<and>
        (run s xs \<noteq> CORE_INVALID \<longrightarrow> n = length xs + (if rest = [] then 0 else 1)))"
  using assms
proof (induction xs arbitrary: p s k)
  case Nil
  then show ?case
    by (cases rest) (auto simp: transition_loop.simps [of m p] intro: exI [of _ 1] exI [of _ 0])
next
  case (Cons x xs)
  obtain s' k1 where sw: "state_switch s x k = (s', k1)" by fastforce
  then have s': "s' = next_state s x" using switch_fst [of s x k] by simp
  have step: "transition_loop m p s k = transition_loop m (p + 1) s' k1"
    using Cons.prems sw by (subst transition_loop.simps) (auto simp: Let_def)
  show ?case
  proof (cases "s' = CORE_INVALID")
    case True
    then show ?thesis unfolding step using s'
      by (subst transition_loop.simps) (auto intro!: exI [of _ 1])
  next
    case False
    obtain q k' n where "transition_loop m (p + 1) s' k1 = Some (run s' xs, q, k')" "q = p + 1 + of_nat n"
      "n \<le> length (xs @ rest)" "run s' xs \<noteq> CORE_INVALID \<longrightarrow> n = length xs + (if rest = [] then 0 else 1)"
      using Cons.IH [of "p + 1" s' k1] Cons.prems False by fastforce
    then show ?thesis unfolding step using s'
      by (auto intro!: exI [of _ "Suc n"])
  qed
qed

text \<open>C23 The state machine classifies tokens.  On a token that ends at a comma or at the end of the string the scan
  returns, the state is \<open>CORE_INT\<close>, \<open>CORE_FLOAT\<close> or \<open>CORE_SCIENTIFIC\<close> exactly for the numerals of that
  format, and unless the token is rejected the input pointer is past the token and its comma.\<close>

theorem state_transition_classifies:
  assumes "cstr m p (xs @ rest)" and "ch (CHR '','') \<notin> set xs" and "rest \<noteq> [] \<longrightarrow> hd rest = ch (CHR '','')"
  shows "\<exists>s q k'. core_state_transition m p k = Some (s, q, k')
    \<and> (s = CORE_INT \<longleftrightarrow> is_integer xs) \<and> (s = CORE_FLOAT \<longleftrightarrow> is_floating xs)
    \<and> (s = CORE_SCIENTIFIC \<longleftrightarrow> is_scientific xs)
    \<and> (s \<noteq> CORE_INVALID \<longrightarrow> q = p + of_nat (length xs + (if rest = [] then 0 else 1)))"
proof -
  obtain q k' n where r: "transition_loop m p CORE_START k = Some (run CORE_START xs, q, k')" "q = p + of_nat n"
      "run CORE_START xs \<noteq> CORE_INVALID \<longrightarrow> n = length xs + (if rest = [] then 0 else 1)"
    using transition_loop_run [OF assms, of CORE_START k] by blast
  show ?thesis
    unfolding core_state_transition_def r(1) using r(2,3) run_start [of xs] by blast
qed

definition scan_sample :: mem where
  "scan_sample = store_bytes (\<lambda>_. 0) 0x20000 (map of_char ''-1.5e+3,7'' @ [0])"

theorem state_transition_classifies_witness:
  "\<exists>s q k'. core_state_transition scan_sample 0x20000 (\<lambda>_. 0) = Some (s, q, k')
    \<and> s = CORE_SCIENTIFIC \<and> q = 0x20008"
proof -
  let ?xs = "map of_char ''-1.5e+3'' :: byte list" and ?rest = "map of_char '',7'' :: byte list"
  have "0 \<notin> set (?xs @ ?rest)" by simp
  from cstr_store [OF this, of "\<lambda>_. 0" "0x20000"] have c: "cstr scan_sample 0x20000 (?xs @ ?rest)"
    by (simp add: scan_sample_def)
  have "run CORE_START ?xs = CORE_SCIENTIFIC"
    by (simp add: next_state_simps dec_digit_def signs_def exps_def)
  then have "is_scientific ?xs" using run_start(3) by blast
  with state_transition_classifies [OF c, of "\<lambda>_. 0"] show ?thesis by fastforce
qed

section \<open>Scanning a block always ends\<close>

lemma transition_advances:
  assumes "cstr m p xs" and "xs \<noteq> []"
  shows "\<exists>s n k'. core_state_transition m p k = Some (s, p + of_nat n, k') \<and> 0 < n \<and> n \<le> length xs"
proof -
  let ?a = "takeWhile (\<lambda>x. x \<noteq> 44) xs" and ?b = "dropWhile (\<lambda>x. x \<noteq> 44) xs"
  have "cstr m p (?a @ ?b)" "ch (CHR '','') \<notin> set ?a" "?b \<noteq> [] \<longrightarrow> hd ?b = ch (CHR '','')"
    using assms hd_dropWhile [of "\<lambda>x. x \<noteq> 44" xs] by (auto dest: set_takeWhileD)
  from transition_loop_run [OF this, of CORE_START k] show ?thesis
    using assms(2) unfolding core_state_transition_def by auto
qed

lemma scan_loop_returns:
  assumes "cstr m p xs"
  shows "\<exists>r. scan_loop m p f k = Some r"
  using assms
proof (induction xs arbitrary: p f k rule: length_induct)
  case (1 xs)
  show ?case
  proof (cases "xs = []")
    case True
    with 1 show ?thesis by (subst scan_loop.simps) simp
  next
    case False
    then obtain s n k' where t: "core_state_transition m p k = Some (s, p + of_nat n, k')" "0 < n" "n \<le> length xs"
      using transition_advances [OF 1(2)] by blast
    have "m p \<noteq> 0" using 1(2) False by (cases xs) auto
    then have "scan_loop m p f k = scan_loop m (p + of_nat n) (inc f s) k'"
      using t by (subst scan_loop.simps) simp
    moreover have "length (drop n xs) < length xs" using t False by simp
    ultimately show ?thesis using 1(1) cstr_drop [OF 1(2) t(3)] by metis
  qed
qed

lemma nul_cstr: "m (p + of_nat n) = 0 \<Longrightarrow> \<exists>xs. cstr m p xs"
proof (induction n arbitrary: p)
  case 0
  then show ?case by (intro exI [of _ "[]"]) simp
next
  case (Suc n)
  show ?case
  proof (cases "m p = 0")
    case True
    then show ?thesis by (intro exI [of _ "[]"]) simp
  next
    case False
    obtain xs where "cstr m (p + 1) xs" using Suc by fastforce
    with False show ?thesis by (intro exI [of _ "m p # xs"]) simp
  qed
qed

section \<open>Corruption and its undoing\<close>

definition hit :: "addr \<Rightarrow> addr \<Rightarrow> nat \<Rightarrow> addr \<Rightarrow> bool" where
  "hit p e step a \<longleftrightarrow> p \<le> a \<and> a < e \<and> (unat a - unat p) mod step = 0"

definition corrupted :: "mem \<Rightarrow> addr \<Rightarrow> addr \<Rightarrow> nat \<Rightarrow> ee_u8 \<Rightarrow> mem" where
  "corrupted m p e step seed = (\<lambda>a. if hit p e step a \<and> m a \<noteq> 44 then m a XOR seed else m a)"

lemma hit_step:
  assumes "p < e" and "0 < k" and "unat p + k < 2 ^ 32"
  shows "hit p e k a \<longleftrightarrow> a = p \<or> hit (p + of_nat k) e k a"
proof -
  have u: "unat (p + of_nat k) = unat p + k"
    using assms(3) by (simp add: unat_word_ariths unat_of_nat)
  have "(unat a - unat p) mod k = 0 \<longleftrightarrow> unat a = unat p \<or> (unat p + k \<le> unat a \<and> (unat a - (unat p + k)) mod k = 0)"
    if "unat p \<le> unat a"
  proof (cases "unat a < unat p + k")
    case True
    then show ?thesis using that by auto
  next
    case False
    then have "unat a - unat p = (unat a - (unat p + k)) + k" by simp
    then have "(unat a - unat p) mod k = (unat a - (unat p + k)) mod k" by (simp only: mod_add_self2)
    then show ?thesis using False assms(2) by auto
  qed
  then show ?thesis
    using assms(1) unfolding hit_def word_le_nat_alt word_less_nat_alt u by (auto simp: word_unat_eq_iff)
qed

lemma corrupt_loop_ok:
  assumes "scast step = (of_nat k :: addr)" and "0 < k" and "unat e + k < 2 ^ 32"
  shows "corrupt_loop m p e step seed = Some (corrupted m p e k seed)"
proof (induction "unat e - unat p" arbitrary: m p rule: less_induct)
  case less
  show ?case
  proof (cases "p < e")
    case False
    then have "corrupted m p e k seed = m" by (auto simp: corrupted_def hit_def fun_eq_iff)
    with False show ?thesis by (subst corrupt_loop.simps) simp
  next
    case True
    let ?m = "if m p \<noteq> 44 then m(p := m p XOR seed) else m" and ?q = "p + of_nat k"
    have bound: "unat p + k < 2 ^ 32" using True assms(3) by (simp add: word_less_nat_alt)
    then have u: "unat ?q = unat p + k" by (simp add: unat_word_ariths unat_of_nat)
    have "corrupt_loop m p e step seed = corrupt_loop ?m ?q e step seed"
      using True assms(1) by (subst corrupt_loop.simps) (simp add: Let_def)
    also have "\<dots> = Some (corrupted ?m ?q e k seed)"
      using True u assms(2) by (intro less) (simp add: word_less_nat_alt)
    also have "corrupted ?m ?q e k seed = corrupted m p e k seed"
    proof
      fix a
      have "\<not> hit ?q e k p" using u assms(2) by (simp add: hit_def word_le_nat_alt)
      then show "corrupted ?m ?q e k seed a = corrupted m p e k seed a"
        using hit_step [OF True assms(2) bound] by (auto simp: corrupted_def)
    qed
    finally show ?thesis .
  qed
qed

lemma corrupted_twice:
  assumes "\<And>a. hit p e k a \<Longrightarrow> m a \<noteq> 44 \<Longrightarrow> m a XOR seed \<noteq> 44"
  shows "corrupted (corrupted m p e k seed) p e k seed = m"
  using assms by (auto simp: corrupted_def fun_eq_iff xor.assoc)

lemma bench_state_restores_block:
  assumes "scast step = (of_nat k :: addr)" and "0 < k" and "unat (p + blksize) + k < 2 ^ 32"
    and "\<And>a. hit p (p + blksize) k a \<Longrightarrow> m a \<noteq> 44 \<Longrightarrow> m a XOR ucast seed \<noteq> 44"
    and "m a = 0" and "\<not> hit p (p + blksize) k a"
  shows "\<exists>crc'. core_bench_state m blksize p seed seed step crc = Some (m, crc')"
proof -
  let ?c = "corrupted m p (p + blksize) k (ucast seed)"
  have a: "a = p + of_nat (unat (a - p))" by simp
  obtain xs ys where "cstr m p xs" "cstr ?c p ys"
    using nul_cstr [of m p "unat (a - p)"] nul_cstr [of ?c p "unat (a - p)"] assms(5,6) a
    by (auto simp: corrupted_def)
  obtain f1 k1 where s1: "scan_loop m p (\<lambda>_. 0) (\<lambda>_. 0) = Some (f1, k1)"
    using scan_loop_returns [OF \<open>cstr m p xs\<close>] by fastforce
  obtain f2 k2 where s2: "scan_loop ?c p f1 k1 = Some (f2, k2)"
    using scan_loop_returns [OF \<open>cstr ?c p ys\<close>] by fastforce
  have "corrupted ?c p (p + blksize) k (ucast seed) = m" using assms(4) by (rule corrupted_twice)
  then show ?thesis
    by (simp add: core_bench_state_def s1 s2 corrupt_loop_ok [OF assms(1-3)])
qed

section \<open>The initial block\<close>

definition patterns :: "byte list list" where
  "patterns = intpat @ floatpat @ scipat @ errpat"

definition joined :: "byte list list \<Rightarrow> byte list" where
  "joined bs = concat (map (\<lambda>b. b @ [44]) bs)"

lemma joined_Cons [simp]: "joined (b # bs) = b @ 44 # joined bs" and joined_Nil [simp]: "joined [] = []"
  by (simp_all add: joined_def)

lemma joined_app: "joined (b # bs) = (b @ [44]) @ joined bs"
  by simp

lemma and3_less: "unat (w AND 3) < 4" for w :: ee_s16
proof -
  have "w AND 3 = take_bit 2 w" by (simp add: take_bit_eq_mask mask_eq_exp_minus_1)
  then show ?thesis using take_bit_nat_less_exp [of 2 "unat w"] by (simp add: unsigned_take_bit_eq)
qed

lemma pick_pattern_ok:
  "\<exists>b n. pick_pattern seed = (b, n) \<and> b \<in> set patterns \<and> length b = unat n \<and> (n = 4 \<or> n = 8)"
proof -
  let ?k = "unat (drop_bit 3 seed AND 3)"
  have "?k = 0 \<or> ?k = 1 \<or> ?k = 2 \<or> ?k = 3" using and3_less [of "drop_bit 3 seed"] by linarith
  then show ?thesis
    unfolding pick_pattern_def Let_def patterns_def intpat_def floatpat_def scipat_def errpat_def
    by (elim disjE) simp_all
qed

lemma zero_fill_ok:
  "tot \<le> sz \<Longrightarrow> zero_fill m p tot sz = store_bytes m (p + tot) (replicate (unat sz - unat tot) 0)"
proof (induction m p tot sz rule: zero_fill.induct)
  case (1 m p tot sz)
  show ?case
  proof (cases "tot < sz")
    case True
    then have u: "unat (tot + 1) = Suc (unat tot)" by (rule unat_succ_less)
    then have le: "tot + 1 \<le> sz" using True by (simp add: word_less_nat_alt word_le_nat_alt)
    have n: "unat sz - unat tot = Suc (unat sz - unat (tot + 1))" using True u by (simp add: word_less_nat_alt)
    show ?thesis using True 1(1) [OF True le] by (subst zero_fill.simps) (simp add: n add.assoc fun_upd_def)
  next
    case False
    then show ?thesis using 1(2) by (subst zero_fill.simps) simp
  qed
qed

lemma init_state_loop_ok:
  assumes "unat sz + 16 < 2 ^ 32" and "tot \<le> sz" and "length b = unat n" and "n = 4 \<or> n = 8" and "b \<in> set patterns"
  shows "\<exists>bs tot'. init_state_loop m p sz seed tot n b = Some (store_bytes m (p + tot) (joined bs), tot')
     \<and> set bs \<subseteq> set patterns \<and> tot' = tot + of_nat (length (joined bs)) \<and> unat tot' = unat tot + length (joined bs) \<and> tot' \<le> sz"
  using assms
proof (induction "unat sz - unat tot" arbitrary: m tot n b seed rule: less_induct)
  case less
  have u: "unat (tot + (n + 1)) = unat tot + unat n + 1" using less.prems by (auto simp: unat_word_ariths word_le_nat_alt)
  show ?case
  proof (cases "tot + n + 1 < sz")
    case False
    then have "init_state_loop m p sz seed tot n b = Some (m, tot)" by (subst init_state_loop.simps) simp
    with less.prems show ?thesis by (intro exI [of _ "[]"]) simp
  next
    case True
    let ?t = "tot + (n + 1)" and ?m = "store_bytes m (p + tot) (b @ [44])"
    have lt: "?t < sz" using True by (simp add: add.assoc)
    obtain b' n' where p': "pick_pattern (seed + 1) = (b', n')" "b' \<in> set patterns" "length b' = unat n'" "n' = 4 \<or> n' = 8"
      using pick_pattern_ok by blast
    have "n > 0" using less.prems(4) by auto
    then have step: "init_state_loop m p sz seed tot n b = init_state_loop ?m p sz (seed + 1) ?t n' b'"
      using True less.prems(3) p'(1) by (subst init_state_loop.simps) (simp add: Let_def)
    have "unat sz - unat ?t < unat sz - unat tot" using lt u by (simp add: word_less_nat_alt)
    from less.hyps [OF this less.prems(1) less_imp_le [OF lt] p'(3,4,2), of ?m "seed + 1"]
    obtain bs tot' where r: "init_state_loop ?m p sz (seed + 1) ?t n' b' = Some (store_bytes ?m (p + ?t) (joined bs), tot')"
      "set bs \<subseteq> set patterns" "tot' = ?t + of_nat (length (joined bs))" "unat tot' = unat ?t + length (joined bs)" "tot' \<le> sz"
      by blast
    have nb: "(n + 1) = (of_nat (length (b @ [44])) :: addr)" using less.prems(3) by simp
    have "store_bytes ?m (p + ?t) (joined bs) = store_bytes m (p + tot) (joined (b # bs))"
      unfolding nb by (simp only: joined_app store_bytes_append add.assoc)
    with r u less.prems show ?thesis
      unfolding step by (intro exI [of _ "b # bs"] exI [of _ tot']) (simp add: nb)
  qed
qed

lemma core_init_state_fills:
  assumes "0 < sz" and "unat sz + 16 < 2 ^ 32"
  shows "\<exists>bs. core_init_state m sz seed p = Some (store_bytes m p (joined bs @ replicate (unat sz - length (joined bs)) 0))
    \<and> set bs \<subseteq> set patterns \<and> length (joined bs) < unat sz"
proof -
  let ?s = "sz - 1"
  have u: "unat ?s = unat sz - 1" "0 < unat sz" using assms(1) by (auto simp: unat_minus_one unat_gt_0)
  have b: "unat ?s + 16 < 2 ^ 32" using assms(2) u by simp
  obtain b n where p': "pick_pattern (seed + 1) = (b, n)" "b \<in> set patterns" "length b = unat n" "n = 4 \<or> n = 8"
    using pick_pattern_ok by blast
  have "\<exists>bs tot'. init_state_loop m p ?s seed 0 0 [] = Some (store_bytes m p (joined bs), tot')
     \<and> set bs \<subseteq> set patterns \<and> tot' = of_nat (length (joined bs)) \<and> unat tot' = length (joined bs) \<and> tot' \<le> ?s"
  proof (cases "1 < ?s")
    case True
    then have "init_state_loop m p ?s seed 0 0 [] = init_state_loop m p ?s (seed + 1) 0 n b"
      using p'(1) by (subst init_state_loop.simps) (simp add: Let_def)
    then show ?thesis
      using init_state_loop_ok [OF b _ p'(3,4,2), of 0 m p "seed + 1"] by auto
  next
    case False
    then have "init_state_loop m p ?s seed 0 0 [] = Some (m, 0)" by (subst init_state_loop.simps) simp
    then show ?thesis by (intro exI [of _ "[]"]) simp
  qed
  then obtain bs tot' where r: "init_state_loop m p ?s seed 0 0 [] = Some (store_bytes m p (joined bs), tot')"
     "set bs \<subseteq> set patterns" "tot' = of_nat (length (joined bs))" "unat tot' = length (joined bs)" "tot' \<le> ?s"
    by blast
  have len: "length (joined bs) < unat sz" using r(4,5) u by (simp add: word_le_nat_alt)
  then have "tot' \<le> sz" using r(4) by (simp add: word_le_nat_alt)
  then have "core_init_state m sz seed p = Some (store_bytes m p (joined bs @ replicate (unat sz - length (joined bs)) 0))"
    using r(4) by (simp add: core_init_state_def r(1) zero_fill_ok store_bytes_append r(3))
  with r(2) len show ?thesis by blast
qed

section \<open>The benchmark leaves its block as it was\<close>

definition alphabet :: "byte set" where
  "alphabet = insert 0 (set (concat patterns))"

lemma joined_alphabet: "set bs \<subseteq> set patterns \<Longrightarrow> set (joined bs) \<subseteq> insert 44 alphabet"
  by (auto simp: joined_def alphabet_def)

lemma scast_step: "0 < sint step \<Longrightarrow> scast step = (of_nat (nat (sint step)) :: addr)" for step :: ee_s16
  by (simp only: scast_eq of_nat_nat less_imp_le)

lemma step_less: "nat (sint step) < 2 ^ 15" for step :: ee_s16
  using sint_less [of step] by (simp add: nat_less_iff)

text \<open>A block that \<open>core_init_state\<close> filled is unchanged by \<open>core_bench_state\<close> with equal seeds, which then
  returns: every iteration of the benchmark scans the same input.  The seed must not turn a character of the patterns,
  or the padding, into a comma, and the last byte of the block must not be one of those stepped on.\<close>

lemma state_block_restored:
  assumes "0 < sz" and "unat p + unat sz + 2 ^ 15 < 2 ^ 32" and "0 < sint step"
    and "(unat sz - 1) mod nat (sint step) \<noteq> 0" and "\<forall>x \<in> alphabet. x XOR ucast seed \<noteq> 44"
  shows "\<exists>m'. core_init_state m sz seed0 p = Some m'
    \<and> (\<forall>crc. \<exists>crc'. core_bench_state m' sz p seed seed step crc = Some (m', crc'))"
proof -
  let ?k = "nat (sint step)"
  have k: "scast step = (of_nat ?k :: addr)" "0 < ?k" using scast_step [OF assms(3)] assms(3) by simp_all
  have e: "unat (p + sz) = unat p + unat sz" using assms(2) by (simp add: unat_word_ariths)
  have bound: "unat (p + sz) + ?k < 2 ^ 32" using e assms(2) step_less [of step] by linarith
  have "unat sz + 16 < 2 ^ 32" using assms(2) by simp
  from core_init_state_fills [OF assms(1) this] obtain bs where
    init: "core_init_state m sz seed0 p = Some (store_bytes m p (joined bs @ replicate (unat sz - length (joined bs)) 0))"
      "set bs \<subseteq> set patterns" "length (joined bs) < unat sz" by blast
  let ?xs = "joined bs @ replicate (unat sz - length (joined bs)) (0 :: byte)"
  let ?m = "store_bytes m p ?xs"
  have len: "length ?xs = unat sz" using init(3) by simp
  have nth: "?m (p + of_nat i) = ?xs ! i" if "i < unat sz" for i
    using that len unat32_less [of sz] by (intro store_bytes_nth) simp_all
  have xs: "set ?xs \<subseteq> insert 44 alphabet" using joined_alphabet [OF init(2)] by (auto simp: alphabet_def)
  have clean: "?m a XOR ucast seed \<noteq> 44" if h: "hit p (p + sz) ?k a" "?m a \<noteq> 44" for a
  proof -
    have "unat a - unat p < unat sz" "a = p + of_nat (unat a - unat p)"
      using h(1) e by (auto simp: hit_def word_le_nat_alt word_less_nat_alt of_nat_diff)
    then have "?m a \<in> set ?xs" using nth len by (metis nth_mem)
    then show ?thesis using xs assms(5) h(2) by auto
  qed
  let ?l = "p + of_nat (unat sz - 1)"
  have "0 < unat sz" using init(3) by simp
  moreover have "?xs ! (unat sz - 1) = 0" using init(3) by (auto simp: nth_append)
  ultimately have "?m ?l = 0" using nth [of "unat sz - 1"] by simp
  moreover have "unat (p + of_nat i) = unat p + i" if "i < unat sz" for i
    using that assms(2) by (simp add: unat_word_ariths unat_of_nat)
  then have "unat ?l = unat p + (unat sz - 1)" using \<open>0 < unat sz\<close> by (meson diff_less zero_less_one)
  then have "\<not> hit p (p + sz) ?k ?l" using assms(4) by (simp add: hit_def)
  ultimately have "\<exists>crc'. core_bench_state ?m sz p seed seed step crc = Some (?m, crc')" for crc
    by (intro bench_state_restores_block [OF k bound, where a = ?l] clean)
  with init(1) show ?thesis by blast
qed

lemma alphabet_eq:
  "alphabet = {0, 43, 45, 46, 48, 49, 50, 51, 52, 53, 54, 55, 56, 70, 84, 94, 101, 113, 122}"
  unfolding alphabet_def patterns_def intpat_def floatpat_def scipat_def errpat_def by auto

lemma state_block_restored_witness:
  "\<exists>m'. core_init_state (\<lambda>_. 0) 666 0x3415 0x20000 = Some m'
    \<and> (\<forall>crc. \<exists>crc'. core_bench_state m' 666 0x20000 0x3415 0x3415 0x66 crc = Some (m', crc'))"
  by (rule state_block_restored) (simp_all add: alphabet_eq)

text \<open>Equal seeds alone do not undo the corruption: a digit that becomes a comma stays one.\<close>

lemma equal_seeds_not_enough:
  "\<exists>m' crc'. core_bench_state ((\<lambda>_. 0)(0x20000 := 49)) 1 0x20000 0x1d 0x1d 1 0 = Some (m', crc') \<and> m' 0x20000 = 44"
proof -
  let ?m = "(\<lambda>_. 0)(0x20000 := 49) :: mem"
  let ?c = "(\<lambda>_. 0)(0x20000 := 44) :: mem"
  have h: "hit 0x20000 0x20001 1 a \<longleftrightarrow> a = 0x20000" for a
    using hit_step [of "0x20000" "0x20001" 1 a] by (auto simp: hit_def dest: leD)
  have l: "corrupt_loop m 0x20000 0x20001 1 0x1d = Some (corrupted m 0x20000 0x20001 1 0x1d)" for m
    using corrupt_loop_ok [of 1 1 "0x20001" m "0x20000" "0x1d"] by simp
  have c: "corrupted ?m 0x20000 0x20001 1 0x1d = ?c" "corrupted ?c 0x20000 0x20001 1 0x1d = ?c"
    by (simp_all only: corrupted_def h) (auto simp: fun_eq_iff)
  have "cstr ?m 0x20000 [49]" "cstr ?c 0x20000 [44]" by simp_all
  moreover from scan_loop_returns [OF this(1)] obtain f1 k1
    where "scan_loop ?m 0x20000 (\<lambda>_. 0) (\<lambda>_. 0) = Some (f1, k1)" by fastforce
  moreover from scan_loop_returns [OF \<open>cstr ?c 0x20000 [44]\<close>] obtain f2 k2
    where "scan_loop ?c 0x20000 f1 k1 = Some (f2, k2)" by fastforce
  ultimately show ?thesis by (simp add: core_bench_state_def l c [simplified])
qed

end
