(* ===== verification/Core_Matrix.thy ===== *)
theory Core_Matrix
  imports Core_Util "HOL-Library.Signed_Division"
begin

text \<open>
  The CoreMark matrix benchmark (\<open>core_matrix.c\<close>).  The matrices live in byte memory as the C code has them:
  \<open>A\<close> and \<open>B\<close> are arrays of 16-bit elements, \<open>C\<close> of 32-bit elements, \<open>N * N\<close> each, addressed as
  \<open>A[i*N+j]\<close> in 32-bit arithmetic.  The \<open>for\<close> loops run over \<open>0 .. N - 1\<close> and always end.
\<close>

section \<open>Definitions\<close>

definition load16 :: "mem \<Rightarrow> addr \<Rightarrow> 16 word" where
  "load16 m p = ucast (m p) OR push_bit 8 (ucast (m (p + 1)))"

definition store16 :: "mem \<Rightarrow> addr \<Rightarrow> 16 word \<Rightarrow> mem" where
  "store16 m p w = store_bytes m p [ucast w, ucast (drop_bit 8 w)]"

definition for_to :: "ee_u32 \<Rightarrow> (ee_u32 \<Rightarrow> 's \<Rightarrow> 's) \<Rightarrow> 's \<Rightarrow> 's" where
  "for_to N body s = fold (\<lambda>i. body (of_nat i)) [0..<unat N] s"

record mat_params =
  mp_N :: ee_u32
  mp_A :: addr
  mp_B :: addr
  mp_C :: addr

abbreviation (input) ix16 :: "addr \<Rightarrow> ee_u32 \<Rightarrow> addr" where
  "ix16 A i \<equiv> A + 2 * i"

abbreviation (input) ix32 :: "addr \<Rightarrow> ee_u32 \<Rightarrow> addr" where
  "ix32 C i \<equiv> C + 4 * i"

definition matrix_clip :: "16 word \<Rightarrow> bool \<Rightarrow> 16 word" where
  "matrix_clip x y = ucast (if y then (scast x :: 32 word) AND 0x0ff else scast x AND 0x0ffff)"

definition matrix_big :: "16 word \<Rightarrow> 16 word" where
  "matrix_big x = ucast (0xf000 OR (scast x :: 32 word))"

definition bit_extract :: "32 word \<Rightarrow> nat \<Rightarrow> nat \<Rightarrow> 32 word" where
  "bit_extract x lo n = signed_drop_bit lo x AND NOT (push_bit n 0xffffffff)"

definition matrix_add_const :: "mem \<Rightarrow> ee_u32 \<Rightarrow> addr \<Rightarrow> 16 word \<Rightarrow> mem" where
  "matrix_add_const m N A val =
     for_to N (\<lambda>i. for_to N (\<lambda>j m.
       store16 m (ix16 A (i * N + j)) (load16 m (ix16 A (i * N + j)) + val))) m"

definition matrix_mul_const :: "mem \<Rightarrow> ee_u32 \<Rightarrow> addr \<Rightarrow> addr \<Rightarrow> 16 word \<Rightarrow> mem" where
  "matrix_mul_const m N C A val =
     for_to N (\<lambda>i. for_to N (\<lambda>j m.
       store32 m (ix32 C (i * N + j)) (scast (load16 m (ix16 A (i * N + j))) * scast val))) m"

definition matrix_mul_vect :: "mem \<Rightarrow> ee_u32 \<Rightarrow> addr \<Rightarrow> addr \<Rightarrow> addr \<Rightarrow> mem" where
  "matrix_mul_vect m N C A B =
     for_to N (\<lambda>i m.
       for_to N (\<lambda>j m.
         store32 m (ix32 C i)
           (load32 m (ix32 C i) + scast (load16 m (ix16 A (i * N + j))) * scast (load16 m (ix16 B j))))
         (store32 m (ix32 C i) 0)) m"

definition matrix_mul_matrix :: "mem \<Rightarrow> ee_u32 \<Rightarrow> addr \<Rightarrow> addr \<Rightarrow> addr \<Rightarrow> mem" where
  "matrix_mul_matrix m N C A B =
     for_to N (\<lambda>i. for_to N (\<lambda>j m.
       for_to N (\<lambda>k m.
         store32 m (ix32 C (i * N + j))
           (load32 m (ix32 C (i * N + j))
            + scast (load16 m (ix16 A (i * N + k))) * scast (load16 m (ix16 B (k * N + j)))))
         (store32 m (ix32 C (i * N + j)) 0))) m"

definition matrix_mul_matrix_bitextract :: "mem \<Rightarrow> ee_u32 \<Rightarrow> addr \<Rightarrow> addr \<Rightarrow> addr \<Rightarrow> mem" where
  "matrix_mul_matrix_bitextract m N C A B =
     for_to N (\<lambda>i. for_to N (\<lambda>j m.
       for_to N (\<lambda>k m.
         let tmp = scast (load16 m (ix16 A (i * N + k))) * scast (load16 m (ix16 B (k * N + j)))
         in store32 m (ix32 C (i * N + j))
              (load32 m (ix32 C (i * N + j)) + bit_extract tmp 2 4 * bit_extract tmp 5 7))
         (store32 m (ix32 C (i * N + j)) 0))) m"

definition sum_step :: "16 word \<Rightarrow> 32 word \<Rightarrow> 32 word \<times> 32 word \<times> ee_s16 \<Rightarrow> 32 word \<times> 32 word \<times> ee_s16" where
  "sum_step clipval cur = (\<lambda>(tmp, prev, ret).
     let tmp = tmp + cur in
     if sint tmp > sint clipval then (0, cur, ret + 10)
     else (tmp, cur, ret + (if sint cur > sint prev then 1 else 0)))"

definition matrix_sum :: "mem \<Rightarrow> ee_u32 \<Rightarrow> addr \<Rightarrow> 16 word \<Rightarrow> ee_s16" where
  "matrix_sum m N C clipval =
     snd (snd (for_to N (\<lambda>i. for_to N (\<lambda>j. sum_step clipval (load32 m (ix32 C (i * N + j))))) (0, 0, 0)))"

definition matrix_test :: "mem \<Rightarrow> ee_u32 \<Rightarrow> addr \<Rightarrow> addr \<Rightarrow> addr \<Rightarrow> 16 word \<Rightarrow> mem \<times> ee_s16" where
  "matrix_test m N C A B val =
     (let crc = 0;
          clipval = matrix_big val;
          m = matrix_add_const m N A val;
          m = matrix_mul_const m N C A val;
          crc = crc16 (matrix_sum m N C clipval) crc;
          m = matrix_mul_vect m N C A B;
          crc = crc16 (matrix_sum m N C clipval) crc;
          m = matrix_mul_matrix m N C A B;
          crc = crc16 (matrix_sum m N C clipval) crc;
          m = matrix_mul_matrix_bitextract m N C A B;
          crc = crc16 (matrix_sum m N C clipval) crc;
          m = matrix_add_const m N A (- val)
      in (m, crc))"

definition core_bench_matrix :: "mem \<Rightarrow> mat_params \<Rightarrow> ee_s16 \<Rightarrow> ee_u16 \<Rightarrow> mem \<times> ee_u16" where
  "core_bench_matrix m p seed crc =
     (let N = mp_N p; C = mp_C p; A = mp_A p; B = mp_B p; val = seed;
          (m, r) = matrix_test m N C A B val
      in (m, crc16 r crc))"

definition align_mem :: "addr \<Rightarrow> addr" where
  "align_mem x = 4 + ((x - 1) AND NOT 3)"

partial_function (option) matrix_dim :: "ee_u32 \<Rightarrow> ee_u32 \<Rightarrow> ee_u32 \<Rightarrow> ee_u32 option" where
  "matrix_dim i j blksize =
     (if j < blksize then let i = i + 1; j = i * i * 2 * 4 in matrix_dim i j blksize else Some i)"

definition init_matrix_elem ::
  "addr \<Rightarrow> addr \<Rightarrow> ee_u32 \<Rightarrow> mem \<times> ee_s32 \<times> ee_s32 \<Rightarrow> mem \<times> ee_s32 \<times> ee_s32" where
  "init_matrix_elem A B idx = (\<lambda>(m, seed, order).
     let seed = word_of_int (sint (order * seed) smod 65536);
         val = (ucast (seed + order) :: 16 word);
         val = matrix_clip val False;
         m = store16 m (ix16 B idx) val;
         val = ucast ((scast val :: 32 word) + order);
         val = matrix_clip val True;
         m = store16 m (ix16 A idx) val
     in (m, seed, order + 1))"

definition core_init_matrix :: "mem \<Rightarrow> ee_u32 \<Rightarrow> addr \<Rightarrow> ee_s32 \<Rightarrow> (mem \<times> mat_params \<times> ee_u32) option" where
  "core_init_matrix m blksize memblk seed =
     (let seed = (if seed = 0 then 1 else seed) in
      case matrix_dim 0 0 blksize of
        None \<Rightarrow> None
      | Some i \<Rightarrow>
          let N = i - 1;
              A = align_mem memblk;
              B = ix16 A (N * N);
              (m, seed, order) =
                for_to N (\<lambda>i. for_to N (\<lambda>j. init_matrix_elem A B (i * N + j))) (m, seed, 1)
          in Some (m, \<lparr>mp_N = N, mp_A = A, mp_B = B, mp_C = align_mem (ix16 B (N * N))\<rparr>, N))"

section \<open>Elements in memory\<close>

lemma in_region_offset:
  "k + n \<le> 2 ^ 32 \<Longrightarrow> a \<in> region (p + of_nat k) n \<longleftrightarrow> k \<le> unat (a - p) \<and> unat (a - p) < k + n"
proof -
  assume b: "k + n \<le> 2 ^ 32"
  show ?thesis
  proof
    assume "a \<in> region (p + of_nat k) n"
    then obtain i where "i < n" "a = p + of_nat (k + i)" by (auto simp: region_def add.assoc)
    then show "k \<le> unat (a - p) \<and> unat (a - p) < k + n" using b by (simp add: unat_of_nat del: of_nat_add)
  next
    assume "k \<le> unat (a - p) \<and> unat (a - p) < k + n"
    then have "a = p + of_nat k + of_nat (unat (a - p) - k)" "unat (a - p) - k < n" by (auto simp: of_nat_diff)
    then show "a \<in> region (p + of_nat k) n" using in_regionI by metis
  qed
qed

lemma elem_region: "x < K \<Longrightarrow> s * K \<le> M \<Longrightarrow> region (p + of_nat (s * x)) s \<subseteq> region p M"
proof -
  assume "x < K" "s * K \<le> M"
  then have "s * x + s \<le> M" using mult_le_mono2 [of "Suc x" K s] by simp
  then show ?thesis by (rule region_shift)
qed

lemma elem_disjoint:
  assumes "x < K" "y < K" "x \<noteq> y" "s * K \<le> 2 ^ 32"
  shows "region (p + of_nat (s * x)) s \<inter> region (p + of_nat (s * y)) s = {}"
proof -
  have "s * Suc x \<le> 2 ^ 32" "s * Suc y \<le> 2 ^ 32"
    using assms mult_le_mono2 [of "Suc x" K s] mult_le_mono2 [of "Suc y" K s] by linarith+
  then have "s * x + s \<le> 2 ^ 32" "s * y + s \<le> 2 ^ 32" by simp_all
  moreover have "s * x + s \<le> s * y \<or> s * y + s \<le> s * x"
    using assms(3) mult_le_mono2 [of "Suc x" y s] mult_le_mono2 [of "Suc y" x s] by (cases "x < y") simp_all
  ultimately show ?thesis by (auto simp: in_region_offset simp del: of_nat_mult)
qed

lemma load16_store16 [mem_simps]: "load16 (store16 m p w) p = w"
proof -
  have "store16 m p w p = ucast w" "store16 m p w (p + 1) = ucast (drop_bit 8 w)" by (simp_all add: store16_def)
  moreover have "ucast (ucast w :: byte) OR push_bit 8 (ucast (ucast (drop_bit 8 w) :: byte)) = w"
    by (rule bit_word_eqI) (auto simp: bit_simps)
  ultimately show ?thesis by (simp add: load16_def)
qed

lemma region2: "region p 2 = {p, p + 1}"
  by (simp add: numeral_2_eq_2 region_simps)

lemma store16_other [mem_simps]: "a \<notin> region p 2 \<Longrightarrow> store16 m p w a = m a"
  by (auto simp: store16_def region2)

lemma load16_cong: "(\<And>a. a \<in> region p 2 \<Longrightarrow> m a = m' a) \<Longrightarrow> load16 m p = load16 m' p"
  by (simp add: load16_def region2)

lemma load32_cong: "(\<And>a. a \<in> region p 4 \<Longrightarrow> m a = m' a) \<Longrightarrow> load32 m p = load32 m' p"
  by (intro load32_bytes bytes_at_cong) blast

lemma load16_bytes: "load16 m p = load16 m' p \<Longrightarrow> m p = m' p \<and> m (p + 1) = m' (p + 1)"
proof -
  have "ucast (ucast a OR push_bit 8 (ucast b) :: 16 word) = a" "ucast (drop_bit 8 (ucast a OR push_bit 8 (ucast b) :: 16 word)) = b"
    for a b :: byte
    by (auto intro!: bit_word_eqI simp: bit_simps byte_high_bits)
  then show "load16 m p = load16 m' p \<Longrightarrow> ?thesis" unfolding load16_def by metis
qed

lemma store32_store32 [simp]: "store32 (store32 m p v) p w = store32 m p w"
proof
  fix a
  show "store32 (store32 m p v) p w a = store32 m p w a"
  proof (cases "a \<in> region p 4")
    case True
    then obtain i where "i < 4" "a = p + of_nat i" by (auto simp: region_def)
    then show ?thesis by (simp add: store32_def store_bytes_nth)
  qed (simp add: mem_simps)
qed

section \<open>Loops\<close>

lemma for_for:
  "for_to N (\<lambda>i. for_to N (\<lambda>j. f i j)) s
   = fold (\<lambda>x. f (of_nat (x div unat N)) (of_nat (x mod unat N))) [0..<unat N * unat N] s"
proof -
  let ?n = "unat N"
  have "fold (\<lambda>i. fold (\<lambda>j. f (of_nat i) (of_nat j)) [0..<?n]) [0..<k] s
    = fold (\<lambda>x. f (of_nat (x div ?n)) (of_nat (x mod ?n))) [0..<k * ?n] s" for k
  proof (induction k)
    case (Suc k)
    have "[0..<Suc k * ?n] = [0..<k * ?n] @ map (\<lambda>i. i + k * ?n) [0..<?n]"
      using upt_add_eq_append [of 0 "k * ?n" ?n] map_add_upt [of "k * ?n" ?n] by (simp add: add.commute)
    moreover have "fold (\<lambda>x. f (of_nat (x div ?n)) (of_nat (x mod ?n))) (map (\<lambda>i. i + k * ?n) [0..<?n]) r
        = fold (\<lambda>j. f (of_nat k) (of_nat j)) [0..<?n] r" for r
      unfolding fold_map by (rule fold_cong) auto
    ultimately show ?case using Suc by simp
  qed simp
  from this [of ?n] show ?thesis unfolding for_to_def .
qed

lemma div_mod_index: "of_nat (x div unat N) * N + of_nat (x mod unat N) = (of_nat x :: ee_u32)"
  using of_nat_add [of "x div unat N * unat N" "x mod unat N", where 'a = ee_u32] by simp

lemma fill32:
  assumes "4 * M \<le> 2 ^ 32" and "K \<le> M"
    and step: "\<And>x r. x < K \<Longrightarrow> (\<And>a. a \<notin> region C (4 * M) \<Longrightarrow> r a = m a) \<Longrightarrow>
                 f x r = store32 r (C + of_nat (4 * x)) (h x)"
  shows "(\<forall>a. a \<notin> region C (4 * K) \<longrightarrow> fold f [0..<K] m a = m a)
    \<and> (\<forall>x < K. load32 (fold f [0..<K] m) (C + of_nat (4 * x)) = h x)"
  using assms(2) step
proof (induction K)
  case (Suc K)
  let ?r = "fold f [0..<K] m" and ?c = "C + of_nat (4 * K)"
  have IH: "\<And>a. a \<notin> region C (4 * K) \<Longrightarrow> ?r a = m a" "\<And>x. x < K \<Longrightarrow> load32 ?r (C + of_nat (4 * x)) = h x"
    using Suc.IH Suc.prems by auto
  have sub: "region C (4 * K) \<subseteq> region C (4 * Suc K)" "region C (4 * K) \<subseteq> region C (4 * M)"
    using Suc.prems(1) by (auto intro!: region_mono)
  have r: "fold f [0..<Suc K] m = store32 ?r ?c (h K)"
    using Suc.prems(2) [of K ?r] IH(1) sub(2) by auto
  have "region ?c 4 \<subseteq> region C (4 * Suc K)" by (rule elem_region [of K "Suc K"]) simp_all
  then have "store32 ?r ?c (h K) a = m a" if "a \<notin> region C (4 * Suc K)" for a
    using that IH(1) [of a] sub(1) by (subst store32_other) auto
  moreover have "load32 (store32 ?r ?c (h K)) (C + of_nat (4 * x)) = h x" if "x < Suc K" for x
  proof (cases "x = K")
    case False
    then have "load32 (store32 ?r ?c (h K)) (C + of_nat (4 * x)) = load32 ?r (C + of_nat (4 * x))"
      using elem_disjoint [of x M K 4 C] that Suc.prems(1) assms(1) by (intro load32_cong store32_other) auto
    with False that IH(2) show ?thesis by simp
  qed (simp only: load32_store32)
  ultimately show ?case unfolding r by blast
qed simp

lemma accumulate:
  assumes "\<And>k v. k < unat N \<Longrightarrow> t (of_nat k) (store32 m c v) = s k"
  shows "for_to N (\<lambda>k r. store32 r c (load32 r c + t k r)) (store32 m c 0) = store32 m c (\<Sum>k<unat N. s k)"
proof -
  have "fold (\<lambda>k r. store32 r c (load32 r c + t (of_nat k) r)) [0..<n] (store32 m c 0)
      = store32 m c (\<Sum>k<n. s k)" if "n \<le> unat N" for n
    using that by (induction n) (simp_all add: assms load32_store32)
  then show ?thesis by (simp add: for_to_def)
qed

section \<open>What the operations compute\<close>

text \<open>Matrices as functions of the element index, and the operations on them.\<close>

definition elems16 :: "mem \<Rightarrow> addr \<Rightarrow> nat \<Rightarrow> 16 word" where
  "elems16 m A x = load16 m (A + of_nat (2 * x))"

definition elems32 :: "mem \<Rightarrow> addr \<Rightarrow> nat \<Rightarrow> 32 word" where
  "elems32 m C x = load32 m (C + of_nat (4 * x))"

definition prod_const :: "(nat \<Rightarrow> 16 word) \<Rightarrow> 16 word \<Rightarrow> nat \<Rightarrow> 32 word" where
  "prod_const a val x = scast (a x) * scast val"

definition prod_vect :: "nat \<Rightarrow> (nat \<Rightarrow> 16 word) \<Rightarrow> (nat \<Rightarrow> 16 word) \<Rightarrow> nat \<Rightarrow> 32 word" where
  "prod_vect n a b i = (\<Sum>k<n. scast (a (i * n + k)) * scast (b k))"

definition prod_mat :: "(32 word \<Rightarrow> 32 word) \<Rightarrow> nat \<Rightarrow> (nat \<Rightarrow> 16 word) \<Rightarrow> (nat \<Rightarrow> 16 word) \<Rightarrow> nat \<Rightarrow> 32 word" where
  "prod_mat g n a b x = (\<Sum>k<n. g (scast (a (x div n * n + k)) * scast (b (k * n + x mod n))))"

definition extract_bits :: "32 word \<Rightarrow> 32 word" where
  "extract_bits v = bit_extract v 2 4 * bit_extract v 5 7"

definition sum_of :: "nat \<Rightarrow> (nat \<Rightarrow> 32 word) \<Rightarrow> 16 word \<Rightarrow> ee_s16" where
  "sum_of n c clipval = snd (snd (fold (\<lambda>x. sum_step clipval (c x)) [0..<n * n] (0, 0, 0)))"

text \<open>The layout the operations rely on: three arrays that do not overlap.\<close>

definition mat_layout :: "ee_u32 \<Rightarrow> addr \<Rightarrow> addr \<Rightarrow> addr \<Rightarrow> bool" where
  "mat_layout N A B C \<longleftrightarrow>
     (let n = unat N in 4 * (n * n) \<le> 2 ^ 32
      \<and> region A (2 * (n * n)) \<inter> region C (4 * (n * n)) = {}
      \<and> region B (2 * (n * n)) \<inter> region C (4 * (n * n)) = {}
      \<and> region A (2 * (n * n)) \<inter> region B (2 * (n * n)) = {})"

definition agree_off :: "addr set \<Rightarrow> mem \<Rightarrow> mem \<Rightarrow> bool" where
  "agree_off S m m' \<longleftrightarrow> (\<forall>a. a \<notin> S \<longrightarrow> m a = m' a)"

lemma agree_off_mono: "agree_off S m m' \<Longrightarrow> S \<subseteq> T \<Longrightarrow> agree_off T m m'"
  by (auto simp: agree_off_def)

lemma agree_off_store:
  "agree_off S r m \<Longrightarrow> region p 4 \<subseteq> S \<Longrightarrow> agree_off S (store32 r p v) m"
  "agree_off S r m \<Longrightarrow> region p 2 \<subseteq> S \<Longrightarrow> agree_off S (store16 r p w) m"
proof -
  show "agree_off S (store32 r p v) m" if "agree_off S r m" "region p 4 \<subseteq> S"
    unfolding agree_off_def
  proof (intro allI impI)
    fix a assume "a \<notin> S"
    with that(2) have "a \<notin> region p 4" by blast
    with that(1) \<open>a \<notin> S\<close> show "store32 r p v a = m a" by (simp add: store32_other agree_off_def)
  qed
  show "agree_off S (store16 r p w) m" if "agree_off S r m" "region p 2 \<subseteq> S"
    unfolding agree_off_def
  proof (intro allI impI)
    fix a assume "a \<notin> S"
    with that(2) have "a \<notin> region p 2" by blast
    with that(1) \<open>a \<notin> S\<close> show "store16 r p w a = m a" by (simp add: store16_other agree_off_def)
  qed
qed

lemma elems16_off:
  assumes "agree_off S m m'" and "region A (2 * K) \<inter> S = {}" and "x < K"
  shows "elems16 m A x = elems16 m' A x"
  unfolding elems16_def using assms elem_region [of x K 2 "2 * K" A]
  by (intro load16_cong) (auto simp: agree_off_def)

lemma index_less: "i < n \<Longrightarrow> j < n \<Longrightarrow> i * n + j < n * n" for i j n :: nat
proof -
  assume "i < n" "j < n"
  then have "i * n + j < Suc i * n" by simp
  also have "\<dots> \<le> n * n" using \<open>i < n\<close> by (intro mult_le_mono1) simp
  finally show ?thesis .
qed

lemma of_nat_index: "of_nat i * N + of_nat j = (of_nat (i * unat N + j) :: ee_u32)"
  by simp

lemma ix_elems:
  "load16 m (ix16 A (of_nat x)) = elems16 m A x" "load32 m (ix32 A (of_nat x)) = elems32 m A x"
  by (simp_all add: elems16_def elems32_def)

lemma matrix_sum_ok: "matrix_sum m N C clipval = sum_of (unat N) (elems32 m C) clipval"
  unfolding matrix_sum_def sum_of_def for_for div_mod_index ix_elems ..

lemma matrix_mul_const_ok:
  assumes "mat_layout N A B C"
  shows "agree_off (region C (4 * (unat N * unat N))) (matrix_mul_const m N C A val) m"
    and "x < unat N * unat N \<Longrightarrow> elems32 (matrix_mul_const m N C A val) C x = prod_const (elems16 m A) val x"
proof -
  let ?K = "unat N * unat N"
  have l: "4 * ?K \<le> 2 ^ 32" "region A (2 * ?K) \<inter> region C (4 * ?K) = {}"
    using assms by (simp_all add: mat_layout_def Let_def)
  have "scast (load16 r (ix16 A (of_nat x))) * scast val = prod_const (elems16 m A) val x"
    if "x < ?K" "\<And>a. a \<notin> region C (4 * ?K) \<Longrightarrow> r a = m a" for x r
    unfolding ix_elems prod_const_def using that elems16_off [OF _ l(2) that(1), of r m] by (simp add: agree_off_def)
  then have r: "(\<forall>a. a \<notin> region C (4 * ?K) \<longrightarrow> matrix_mul_const m N C A val a = m a)
    \<and> (\<forall>x < ?K. load32 (matrix_mul_const m N C A val) (C + of_nat (4 * x)) = prod_const (elems16 m A) val x)"
    unfolding matrix_mul_const_def for_for div_mod_index by (intro fill32 [OF l(1)]) simp_all
  then show "agree_off (region C (4 * ?K)) (matrix_mul_const m N C A val) m"
    "x < ?K \<Longrightarrow> elems32 (matrix_mul_const m N C A val) C x = prod_const (elems16 m A) val x"
    by (simp_all add: agree_off_def elems32_def)
qed

text \<open>The two products of matrices differ in what is added up for each pair of elements.\<close>

definition mul_loop :: "(32 word \<Rightarrow> 32 word) \<Rightarrow> mem \<Rightarrow> ee_u32 \<Rightarrow> addr \<Rightarrow> addr \<Rightarrow> addr \<Rightarrow> mem" where
  "mul_loop g m N C A B =
     for_to N (\<lambda>i. for_to N (\<lambda>j m.
       for_to N (\<lambda>k m.
         store32 m (ix32 C (i * N + j))
           (load32 m (ix32 C (i * N + j))
            + g (scast (load16 m (ix16 A (i * N + k))) * scast (load16 m (ix16 B (k * N + j))))))
         (store32 m (ix32 C (i * N + j)) 0))) m"

lemma mul_loop_instances:
  "matrix_mul_matrix m N C A B = mul_loop (\<lambda>v. v) m N C A B"
  "matrix_mul_matrix_bitextract m N C A B = mul_loop extract_bits m N C A B"
  by (simp_all add: matrix_mul_matrix_def matrix_mul_matrix_bitextract_def mul_loop_def extract_bits_def Let_def)

lemma elems16_store32:
  assumes "region A (2 * K) \<inter> region C (4 * K) = {}" and "y < K" and "x < K"
    and "\<And>a. a \<notin> region C (4 * K) \<Longrightarrow> r a = m a"
  shows "elems16 (store32 r (C + of_nat (4 * x)) v) A y = elems16 m A y"
proof (rule elems16_off [OF _ assms(1,2)])
  show "agree_off (region C (4 * K)) (store32 r (C + of_nat (4 * x)) v) m"
    by (rule agree_off_store(1)) (use assms(3,4) elem_region [of x K 4 "4 * K" C] in \<open>auto simp: agree_off_def\<close>)
qed

lemma mul_loop_ok:
  assumes "mat_layout N A B C"
  shows "agree_off (region C (4 * (unat N * unat N))) (mul_loop g m N C A B) m"
    and "x < unat N * unat N \<Longrightarrow> elems32 (mul_loop g m N C A B) C x = prod_mat g (unat N) (elems16 m A) (elems16 m B) x"
proof -
  let ?n = "unat N"
  let ?K = "?n * ?n"
  have l: "4 * ?K \<le> 2 ^ 32" "region A (2 * ?K) \<inter> region C (4 * ?K) = {}" "region B (2 * ?K) \<inter> region C (4 * ?K) = {}"
    using assms by (simp_all add: mat_layout_def Let_def)
  have "for_to N (\<lambda>k r. store32 r (ix32 C (of_nat x))
           (load32 r (ix32 C (of_nat x)) + g (scast (load16 r (ix16 A (of_nat (x div ?n) * N + k)))
              * scast (load16 r (ix16 B (k * N + of_nat (x mod ?n)))))))
         (store32 r (ix32 C (of_nat x)) 0)
      = store32 r (C + of_nat (4 * x)) (prod_mat g ?n (elems16 m A) (elems16 m B) x)"
    if x: "x < ?K" and r: "\<And>a. a \<notin> region C (4 * ?K) \<Longrightarrow> r a = m a" for x r
  proof -
    have b: "x div ?n < ?n" "x mod ?n < ?n" using x by (simp_all add: less_mult_imp_div_less) (metis mod_less_divisor mult_0 not_gr_zero not_less0)
    have c: "ix32 C (of_nat x) = C + of_nat (4 * x)" by simp
    show ?thesis
      unfolding c prod_mat_def
    proof (rule accumulate)
      fix k v assume k: "k < ?n"
      have "x div ?n * ?n + k < ?K" "k * ?n + x mod ?n < ?K" using b k by (simp_all add: index_less)
      then show "g (scast (load16 (store32 r (C + of_nat (4 * x)) v) (ix16 A (of_nat (x div ?n) * N + of_nat k)))
          * scast (load16 (store32 r (C + of_nat (4 * x)) v) (ix16 B (of_nat k * N + of_nat (x mod ?n)))))
        = g (scast (elems16 m A (x div ?n * ?n + k)) * scast (elems16 m B (k * ?n + x mod ?n)))"
        unfolding of_nat_index ix_elems using elems16_store32 [OF l(2) _ x r] elems16_store32 [OF l(3) _ x r] by simp
    qed
  qed
  then have r: "(\<forall>a. a \<notin> region C (4 * ?K) \<longrightarrow> mul_loop g m N C A B a = m a)
    \<and> (\<forall>x < ?K. load32 (mul_loop g m N C A B) (C + of_nat (4 * x)) = prod_mat g ?n (elems16 m A) (elems16 m B) x)"
    unfolding mul_loop_def for_for div_mod_index by (intro fill32 [OF l(1)]) simp_all
  then show "agree_off (region C (4 * ?K)) (mul_loop g m N C A B) m"
    "x < ?K \<Longrightarrow> elems32 (mul_loop g m N C A B) C x = prod_mat g ?n (elems16 m A) (elems16 m B) x"
    by (simp_all add: agree_off_def elems32_def)
qed

lemma matrix_mul_vect_ok:
  assumes "mat_layout N A B C"
  shows "agree_off (region C (4 * unat N)) (matrix_mul_vect m N C A B) m"
    and "i < unat N \<Longrightarrow> elems32 (matrix_mul_vect m N C A B) C i = prod_vect (unat N) (elems16 m A) (elems16 m B) i"
proof -
  let ?n = "unat N"
  let ?K = "?n * ?n"
  have l: "4 * ?K \<le> 2 ^ 32" "region A (2 * ?K) \<inter> region C (4 * ?K) = {}" "region B (2 * ?K) \<inter> region C (4 * ?K) = {}"
    using assms by (simp_all add: mat_layout_def Let_def)
  have "for_to N (\<lambda>j r. store32 r (ix32 C (of_nat i))
           (load32 r (ix32 C (of_nat i)) + scast (load16 r (ix16 A (of_nat i * N + j))) * scast (load16 r (ix16 B j))))
         (store32 r (ix32 C (of_nat i)) 0)
      = store32 r (C + of_nat (4 * i)) (prod_vect ?n (elems16 m A) (elems16 m B) i)"
    if i: "i < ?n" and r: "\<And>a. a \<notin> region C (4 * ?K) \<Longrightarrow> r a = m a" for i r
  proof -
    have iK: "i < ?K" using i index_less [of 0 ?n i] by simp
    have c: "ix32 C (of_nat i) = C + of_nat (4 * i)" by simp
    show ?thesis
      unfolding c prod_vect_def
    proof (rule accumulate)
      fix k v assume k: "k < ?n"
      have "i * ?n + k < ?K" "k < ?K" using i k index_less [of 0 ?n k] by (simp_all add: index_less)
      then show "scast (load16 (store32 r (C + of_nat (4 * i)) v) (ix16 A (of_nat i * N + of_nat k)))
          * scast (load16 (store32 r (C + of_nat (4 * i)) v) (ix16 B (of_nat k)))
        = scast (elems16 m A (i * ?n + k)) * scast (elems16 m B k)"
        unfolding of_nat_index ix_elems using elems16_store32 [OF l(2) _ iK r] elems16_store32 [OF l(3) _ iK r] by simp
    qed
  qed
  moreover have "?n \<le> ?K" by (cases ?n) simp_all
  ultimately have r: "(\<forall>a. a \<notin> region C (4 * ?n) \<longrightarrow> matrix_mul_vect m N C A B a = m a)
    \<and> (\<forall>i < ?n. load32 (matrix_mul_vect m N C A B) (C + of_nat (4 * i)) = prod_vect ?n (elems16 m A) (elems16 m B) i)"
    unfolding matrix_mul_vect_def for_to_def [of N "\<lambda>i m. for_to N (f i m) (g i m)" for f g]
    by (intro fill32 [OF l(1)]) simp_all
  then show "agree_off (region C (4 * ?n)) (matrix_mul_vect m N C A B) m"
    "i < ?n \<Longrightarrow> elems32 (matrix_mul_vect m N C A B) C i = prod_vect ?n (elems16 m A) (elems16 m B) i"
    by (simp_all add: agree_off_def elems32_def)
qed

lemma add_const_fold:
  fixes A :: addr and val :: "16 word"
  assumes "2 * M \<le> 2 ^ 32" and "K \<le> M"
  defines "f \<equiv> \<lambda>x r. store16 r (A + of_nat (2 * x)) (load16 r (A + of_nat (2 * x)) + val)"
  shows "agree_off (region A (2 * K)) (fold f [0..<K] m) m
    \<and> (\<forall>x < M. elems16 (fold f [0..<K] m) A x = (if x < K then elems16 m A x + val else elems16 m A x))"
  using assms(2)
proof (induction K)
  case (Suc K)
  let ?r = "fold f [0..<K] m" and ?c = "A + of_nat (2 * K)"
  have IH: "agree_off (region A (2 * K)) ?r m"
    "\<And>x. x < M \<Longrightarrow> elems16 ?r A x = (if x < K then elems16 m A x + val else elems16 m A x)"
    using Suc by auto
  have r: "fold f [0..<Suc K] m = store16 ?r ?c (load16 ?r ?c + val)" by (simp add: f_def)
  have "region ?c 2 \<subseteq> region A (2 * Suc K)" by (rule elem_region [of K "Suc K"]) simp_all
  moreover have "region A (2 * K) \<subseteq> region A (2 * Suc K)" by (rule region_mono) simp
  ultimately have "agree_off (region A (2 * Suc K)) (store16 ?r ?c v) m" for v
    using agree_off_store(2) agree_off_mono [OF IH(1)] by blast
  moreover have "elems16 (store16 ?r ?c (load16 ?r ?c + val)) A x = (if x < Suc K then elems16 m A x + val else elems16 m A x)"
    if "x < M" for x
  proof (cases "x = K")
    case True
    then show ?thesis using IH(2) [OF that] by (simp add: elems16_def load16_store16)
  next
    case False
    then have "elems16 (store16 ?r ?c v) A x = elems16 ?r A x" for v
      unfolding elems16_def using elem_disjoint [of x M K 2 A] that Suc.prems assms(1)
      by (intro load16_cong store16_other) auto
    with False show ?thesis using IH(2) [OF that] by simp
  qed
  ultimately show ?case unfolding r by blast
qed (simp add: agree_off_def)

lemma matrix_add_const_ok:
  assumes "2 * (unat N * unat N) \<le> 2 ^ 32"
  shows "agree_off (region A (2 * (unat N * unat N))) (matrix_add_const m N A val) m"
    and "x < unat N * unat N \<Longrightarrow> elems16 (matrix_add_const m N A val) A x = elems16 m A x + val"
proof -
  have e: "ix16 A (of_nat x) = A + of_nat (2 * x)" for x by simp
  show "agree_off (region A (2 * (unat N * unat N))) (matrix_add_const m N A val) m"
    "x < unat N * unat N \<Longrightarrow> elems16 (matrix_add_const m N A val) A x = elems16 m A x + val"
    using add_const_fold [OF assms order_refl, of A val m]
    unfolding matrix_add_const_def for_for div_mod_index e by simp_all
qed

lemma elems16_region:
  assumes "\<And>x. x < K \<Longrightarrow> elems16 m A x = elems16 m' A x" and "a \<in> region A (2 * K)"
  shows "m a = m' a"
proof -
  obtain i where i: "i < 2 * K" "a = A + of_nat i" using assms(2) by (auto simp: region_def)
  have "load16 m (A + of_nat (2 * (i div 2))) = load16 m' (A + of_nat (2 * (i div 2)))"
    using assms(1) [of "i div 2"] i(1) by (simp add: elems16_def)
  note b = load16_bytes [OF this]
  have "i = 2 * (i div 2) \<or> i = Suc (2 * (i div 2))" by presburger
  then show ?thesis
  proof
    assume e: "i = 2 * (i div 2)"
    show ?thesis unfolding i(2) by (subst (1 2) e) (rule conjunct1 [OF b])
  next
    assume e: "i = Suc (2 * (i div 2))"
    have "a = A + of_nat (2 * (i div 2)) + 1" unfolding i(2) by (subst e) (simp add: algebra_simps)
    then show ?thesis using b by simp
  qed
qed

lemma sum_of_cong: "(\<And>x. x < n * n \<Longrightarrow> c x = c' x) \<Longrightarrow> sum_of n c v = sum_of n c' v"
  unfolding sum_of_def by (intro arg_cong [where f = "\<lambda>x. snd (snd x)"] fold_cong) auto

lemma prod_cong:
  assumes "\<And>x. x < n * n \<Longrightarrow> a x = a' x" and "\<And>x. x < n * n \<Longrightarrow> b x = b' x"
  shows "i < n \<Longrightarrow> prod_vect n a b i = prod_vect n a' b' i"
    and "x < n * n \<Longrightarrow> prod_mat g n a b x = prod_mat g n a' b' x"
proof -
  show "prod_vect n a b i = prod_vect n a' b' i" if "i < n"
    unfolding prod_vect_def
  proof (rule sum.cong [OF refl])
    fix k assume "k \<in> {..<n}"
    then show "scast (a (i * n + k)) * scast (b k) = (scast (a' (i * n + k)) * scast (b' k) :: 32 word)"
      using that assms index_less [of i n k] index_less [of 0 n k] by simp
  qed
  show "prod_mat g n a b x = prod_mat g n a' b' x" if "x < n * n"
    unfolding prod_mat_def
  proof (rule sum.cong [OF refl])
    fix k assume "k \<in> {..<n}"
    moreover have "x div n < n" using that by (simp add: less_mult_imp_div_less)
    moreover have "x mod n < n" using that by (cases n) simp_all
    ultimately show "g (scast (a (x div n * n + k)) * scast (b (k * n + x mod n)))
        = g (scast (a' (x div n * n + k)) * scast (b' (k * n + x mod n)))"
      using assms index_less [of "x div n" n k] index_less [of k n "x mod n"] by simp
  qed
qed

definition vect_over :: "nat \<Rightarrow> (nat \<Rightarrow> 32 word) \<Rightarrow> (nat \<Rightarrow> 32 word) \<Rightarrow> nat \<Rightarrow> 32 word" where
  "vect_over n v c x = (if x < n then v x else c x)"

lemma agree_off_trans: "agree_off S m1 m2 \<Longrightarrow> agree_off S m2 m3 \<Longrightarrow> agree_off S m1 m3"
  by (auto simp: agree_off_def)

lemma elems32_off:
  assumes "agree_off S m m'" and "region (C + of_nat (4 * x)) 4 \<inter> S = {}"
  shows "elems32 m C x = elems32 m' C x"
  unfolding elems32_def using assms by (intro load32_cong) (auto simp: agree_off_def)

lemma vect_elems:
  assumes "mat_layout N A B C" and "x < unat N * unat N"
  shows "elems32 (matrix_mul_vect m N C A B) C x
    = vect_over (unat N) (prod_vect (unat N) (elems16 m A) (elems16 m B)) (elems32 m C) x"
proof (cases "x < unat N")
  case True
  then show ?thesis using matrix_mul_vect_ok(2) [OF assms(1)] by (simp add: vect_over_def)
next
  case False
  have l: "4 * (unat N * unat N) \<le> 2 ^ 32" using assms by (simp add: mat_layout_def Let_def)
  then have "4 * x + 4 \<le> 2 ^ 32" "0 + 4 * unat N \<le> 2 ^ 32" using assms(2) False by linarith+
  from in_region_offset [OF this(1), of _ C] in_region_offset [OF this(2), of _ C]
  have "region (C + of_nat (4 * x)) 4 \<inter> region C (4 * unat N) = {}" using False by auto
  from elems32_off [OF matrix_mul_vect_ok(1) [OF assms(1)] this] False show ?thesis
    by (simp add: vect_over_def)
qed

lemma add_sub_const:
  assumes "mat_layout N A B C" and "agree_off (region C (4 * (unat N * unat N))) r (matrix_add_const m N A val)"
  shows "agree_off (region C (4 * (unat N * unat N))) (matrix_add_const r N A (- val)) m"
    and "x < unat N * unat N \<Longrightarrow> elems32 (matrix_add_const r N A (- val)) C x = elems32 r C x"
proof -
  let ?K = "unat N * unat N"
  let ?S = "region C (4 * ?K)" and ?r = "matrix_add_const r N A (- val)"
  have l: "2 * ?K \<le> 2 ^ 32" "region A (2 * ?K) \<inter> ?S = {}" using assms(1) by (auto simp: mat_layout_def Let_def)
  have el: "elems16 ?r A x = elems16 m A x" if "x < ?K" for x
    using matrix_add_const_ok(2) [OF l(1) that] elems16_off [OF assms(2) l(2) that] by simp
  have "?r a = m a" if "a \<notin> ?S" for a
  proof (cases "a \<in> region A (2 * ?K)")
    case True
    with el show ?thesis by (rule elems16_region)
  next
    case False
    then show ?thesis
      using that assms(2) matrix_add_const_ok(1) [OF l(1), of A] by (simp add: agree_off_def)
  qed
  then show "agree_off ?S ?r m" by (simp add: agree_off_def)
  show "elems32 ?r C x = elems32 r C x" if "x < ?K"
    using elem_region [OF that, of 4 "4 * ?K" C] l(2)
    by (intro elems32_off [OF matrix_add_const_ok(1) [OF l(1)]]) auto
qed

lemma matrix_test_spec:
  assumes "mat_layout N A B C"
  shows "let n = unat N; a = (\<lambda>x. elems16 m A x + val); b = elems16 m B; clipval = matrix_big val;
             c1 = prod_const a val; c2 = vect_over n (prod_vect n a b) c1;
             c3 = prod_mat (\<lambda>v. v) n a b; c4 = prod_mat extract_bits n a b;
             (m', crc) = matrix_test m N C A B val
         in agree_off (region C (4 * (n * n))) m' m \<and> (\<forall>x < n * n. elems32 m' C x = c4 x)
            \<and> crc = crc16 (sum_of n c4 clipval) (crc16 (sum_of n c3 clipval)
                     (crc16 (sum_of n c2 clipval) (crc16 (sum_of n c1 clipval) 0)))"
proof -
  define n a b S where "n = unat N" and "a = (\<lambda>x. elems16 m A x + val)" and "b = elems16 m B"
    and "S = region C (4 * (n * n))"
  define m1 where "m1 = matrix_add_const m N A val"
  define m2 where "m2 = matrix_mul_const m1 N C A val"
  define m3 where "m3 = matrix_mul_vect m2 N C A B"
  define m4 where "m4 = matrix_mul_matrix m3 N C A B"
  define m5 where "m5 = matrix_mul_matrix_bitextract m4 N C A B"
  define m6 where "m6 = matrix_add_const m5 N A (- val)"
  have l: "2 * (n * n) \<le> 2 ^ 32" "region A (2 * (n * n)) \<inter> S = {}" "region B (2 * (n * n)) \<inter> S = {}"
    "region B (2 * (n * n)) \<inter> region A (2 * (n * n)) = {}"
    using assms by (auto simp: mat_layout_def Let_def n_def S_def)
  have "region C (4 * n) \<subseteq> S" unfolding S_def by (intro region_mono) (cases n, simp_all)
  then have "agree_off S m3 m2"
    using agree_off_mono [OF matrix_mul_vect_ok(1) [OF assms]] by (simp only: n_def m3_def)
  moreover have "agree_off S m2 m1" "agree_off S m4 m3" "agree_off S m5 m4"
    using matrix_mul_const_ok(1) [OF assms] mul_loop_ok(1) [OF assms]
    by (simp_all only: mul_loop_instances n_def S_def m2_def m4_def m5_def)
  ultimately have off: "agree_off S m2 m1" "agree_off S m3 m1" "agree_off S m4 m1" "agree_off S m5 m1"
    by (blast intro: agree_off_trans)+
  have a: "elems16 r A x = a x" and b: "elems16 r B x = b x" if "agree_off S r m1" "x < n * n" for r x
    using elems16_off [OF that(1) l(2) that(2)] elems16_off [OF that(1) l(3) that(2)]
      matrix_add_const_ok(2) [where N = N and A = A and m = m and val = val and x = x]
      elems16_off [OF matrix_add_const_ok(1) l(4) [unfolded n_def] that(2) [unfolded n_def]] l(1) that(2)
    by (simp_all add: a_def b_def m1_def n_def)
  note pc = prod_cong [of n _ a _ b]
  have "elems32 m2 C x = prod_const a val x" if "x < n * n" for x
    using matrix_mul_const_ok(2) [OF assms] a [of m1] that by (simp add: m2_def n_def prod_const_def agree_off_def)
  moreover have "elems32 m3 C x = vect_over n (prod_vect n a b) (elems32 m2 C) x" if "x < n * n" for x
    using vect_elems [OF assms] pc(1) [OF a [OF off(1)] b [OF off(1)]] that by (simp add: m3_def n_def vect_over_def)
  moreover have "elems32 m4 C x = prod_mat (\<lambda>v. v) n a b x" if "x < n * n" for x
    using mul_loop_ok(2) [OF assms] pc(2) [OF a [OF off(2)] b [OF off(2)]] that by (simp add: m4_def n_def mul_loop_instances)
  moreover have c4: "elems32 m5 C x = prod_mat extract_bits n a b x" if "x < n * n" for x
    using mul_loop_ok(2) [OF assms] pc(2) [OF a [OF off(3)] b [OF off(3)]] that by (simp add: m5_def n_def mul_loop_instances)
  moreover have "agree_off S m6 m" and "\<And>x. x < n * n \<Longrightarrow> elems32 m6 C x = elems32 m5 C x"
    using add_sub_const [OF assms, of m5 m val] off(4) by (simp_all add: m1_def m6_def n_def S_def)
  ultimately show ?thesis
    unfolding matrix_test_def matrix_sum_ok Let_def
    unfolding m1_def [symmetric] m2_def [symmetric] m3_def [symmetric] m4_def [symmetric] m5_def [symmetric]
      m6_def [symmetric] n_def [symmetric] S_def [symmetric] a_def [symmetric] b_def [symmetric]
    by (simp add: sum_of_cong [of n "elems32 m2 C" "prod_const a val"] sum_of_cong [of n "elems32 m4 C"] 
        sum_of_cong [of n "elems32 m5 C"] sum_of_cong [of n "elems32 m3 C" "vect_over n (prod_vect n a b) (prod_const a val)"] vect_over_def)
qed

text \<open>C24 \<open>matrix_test\<close> on non-overlapping matrices returns with \<open>A\<close>, \<open>B\<close> and all other memory outside \<open>C\<close> as before
  and with the bit-extracted product in \<open>C\<close>; the value it returns is the CRC of the sums of the four matrices it
  forms from \<open>A\<close> with the constant added: the constant multiple, the product with the first row of \<open>B\<close> written over its
  first row, the matrix product modulo \<open>2^32\<close>, and the bit-extracted product.\<close>

theorem matrix_test_ok:
  assumes "mat_layout N A B C"
  shows "let n = unat N; a = (\<lambda>x. elems16 m A x + val); b = elems16 m B; clipval = matrix_big val;
             c1 = prod_const a val; c2 = vect_over n (prod_vect n a b) c1;
             c3 = prod_mat (\<lambda>v. v) n a b; c4 = prod_mat extract_bits n a b;
             (m', crc) = matrix_test m N C A B val
         in agree_off (region C (4 * (n * n))) m' m \<and> (\<forall>x < n * n. elems32 m' C x = c4 x)
            \<and> crc = crc16 (sum_of n c4 clipval) (crc16 (sum_of n c3 clipval)
                     (crc16 (sum_of n c2 clipval) (crc16 (sum_of n c1 clipval) 0)))"
  using assms by (rule matrix_test_spec)

lemma layout_small: "mat_layout 2 0x1000 0x1008 0x1010"
  by (simp add: mat_layout_def Let_def region_disjoint)

theorem matrix_test_ok_witness:
  "case matrix_test (\<lambda>_. 1) 2 0x1010 0x1000 0x1008 3 of (m', crc) \<Rightarrow> agree_off (region 0x1010 16) m' (\<lambda>_. 1)"
  using matrix_test_ok [OF layout_small, of "\<lambda>_. 1" 3] by (simp add: Let_def case_prod_unfold)

section \<open>Initialisation\<close>

lemma matrix_dim_ok:
  assumes "unat b \<le> 2 ^ 31" and "unat i \<le> 2 ^ 14" and "unat j = 8 * (unat i * unat i)" and "i \<noteq> 0 \<longrightarrow> 8 * ((unat i - 1) * (unat i - 1)) < unat b"
  shows "\<exists>r. matrix_dim i j b = Some r \<and> unat b \<le> 8 * (unat r * unat r) \<and> unat r \<le> 2 ^ 14
    \<and> (r \<noteq> 0 \<longrightarrow> 8 * ((unat r - 1) * (unat r - 1)) < unat b)"
  using assms(2-)
proof (induction "2 ^ 14 - unat i" arbitrary: i j rule: less_induct)
  case less
  show ?case
  proof (cases "j < b")
    case False
    then have "matrix_dim i j b = Some i" by (subst matrix_dim.simps) simp
    then show ?thesis using less.prems False by (simp add: word_less_nat_alt)
  next
    case True
    let ?i = "i + 1" and ?j = "(i + 1) * (i + 1) * 2 * 4"
    have lt: "unat i < 2 ^ 14"
    proof (rule ccontr)
      assume "\<not> unat i < 2 ^ 14"
      then have "unat i = 2 ^ 14" using less.prems(1) by simp
      then have "unat j = 2 ^ 31" using less.prems(2) by simp
      then show False using True assms(1) by (simp add: word_less_nat_alt)
    qed
    then have u: "unat ?i = Suc (unat i)" by (simp add: unat_word_ariths)
    have "Suc (unat i) * Suc (unat i) \<le> 2 ^ 14 * 2 ^ 14" using lt by (intro mult_le_mono) simp_all
    then have uj: "unat ?j = 8 * (unat ?i * unat ?i)" by (simp add: unat_word_ariths u)
    have "matrix_dim i j b = matrix_dim ?i ?j b" using True by (subst matrix_dim.simps) (simp add: Let_def)
    moreover have "8 * ((unat ?i - 1) * (unat ?i - 1)) < unat b"
      using True less.prems(2) u by (simp add: word_less_nat_alt)
    ultimately show ?thesis using less.hyps [OF _ _ uj] lt u by simp
  qed
qed

lemma align_mem_bounds:
  assumes "0 < x" and "unat x + 3 < 2 ^ 32"
  shows "unat x \<le> unat (align_mem x)" "unat (align_mem x) \<le> unat x + 3" "unat (align_mem x) mod 4 = 0"
proof -
  have e: "(x - 1) AND NOT 3 = push_bit 2 (drop_bit 2 (x - 1))"
  proof -
    have "(3 :: addr) = mask 2" by (simp add: mask_eq_exp_minus_1)
    then have "(x - 1) AND NOT 3 = (x - 1) AND NOT (mask 2)" by (simp only:)
    also have "\<dots> = push_bit 2 (drop_bit 2 (x - 1))"
    proof (rule bit_word_eqI)
      fix n assume "n < LENGTH(32)"
      moreover have "Suc (Suc (n - 2)) = n" if "2 \<le> n" using that by simp
      ultimately show "bit ((x - 1) AND NOT (mask 2)) n \<longleftrightarrow> bit (push_bit 2 (drop_bit 2 (x - 1))) n"
        by (cases "2 \<le> n") (auto simp: bit_simps)
    qed
    finally show ?thesis .
  qed
  have x: "unat (x - 1) = unat x - 1" "0 < unat x" using assms(1) by (auto simp: unat_minus_one unat_gt_0)
  have "unat ((x - 1) AND NOT 3) = 4 * ((unat x - 1) div 4)"
    unfolding e using x assms(2) by (simp add: push_bit_eq_mult drop_bit_eq_div unat_word_ariths unat_div_distrib mult.commute)
  moreover have "4 + 4 * ((unat x - 1) div 4) \<le> unat x + 3" using x(2) by linarith
  ultimately have "unat (align_mem x) = 4 + 4 * ((unat x - 1) div 4)"
    using assms(2) by (simp add: align_mem_def unat_word_ariths)
  with x(2) show "unat x \<le> unat (align_mem x)" "unat (align_mem x) \<le> unat x + 3" "unat (align_mem x) mod 4 = 0"
    by presburger+
qed

text \<open>The matrices that \<open>core_init_matrix\<close> lays out do not overlap, and with the alignment they need at most three bytes
  more than eight times the square of the dimension.\<close>

lemma core_init_matrix_layout:
  assumes "0 < memblk" and "0 < blksize" and "unat blksize \<le> 2 ^ 31" and "unat memblk + unat blksize + 8 < 2 ^ 32"
  shows "\<exists>m' p. core_init_matrix m blksize memblk seed = Some (m', p, mp_N p)
    \<and> mat_layout (mp_N p) (mp_A p) (mp_B p) (mp_C p)
    \<and> 8 * (unat (mp_N p) * unat (mp_N p)) < unat blksize
    \<and> unat memblk \<le> unat (mp_A p) \<and> unat (mp_C p) + 4 * (unat (mp_N p) * unat (mp_N p)) \<le> unat memblk + 8 * (unat (mp_N p) * unat (mp_N p)) + 3"
proof -
  have b: "0 < unat blksize" using assms(2) by (simp add: unat_gt_0)
  obtain i where i: "matrix_dim 0 0 blksize = Some i" "unat blksize \<le> 8 * (unat i * unat i)"
      "i \<noteq> 0 \<longrightarrow> 8 * ((unat i - 1) * (unat i - 1)) < unat blksize"
    using matrix_dim_ok [OF assms(3), of 0 0] by auto
  have "i \<noteq> 0" using i(2) b by auto
  define N where "N = i - 1"
  define n where "n = unat N"
  have n: "8 * (n * n) < unat blksize" using i(3) \<open>i \<noteq> 0\<close> by (simp add: n_def N_def unat_minus_one)
  define A where "A = align_mem memblk"
  have A: "unat memblk \<le> unat A" "unat A \<le> unat memblk + 3" "unat A mod 4 = 0"
    using align_mem_bounds [of memblk] assms(1,4) by (simp_all add: A_def)
  define B where "B = ix16 A (N * N)"
  have NN: "unat (N * N) = n * n" using n assms(3) by (simp add: unat_word_ariths n_def)
  have uB: "unat B = unat A + 2 * (n * n)"
    using NN n A(2) assms(4) by (simp add: B_def unat_word_ariths)
  have uBN: "unat (ix16 B (N * N)) = unat A + 4 * (n * n)"
    using NN uB n A(2) assms(4) by (simp add: unat_word_ariths)
  define C where "C = align_mem (ix16 B (N * N))"
  have "0 < unat memblk" using assms(1) by (simp add: unat_gt_0)
  then have "0 < ix16 B (N * N)" "unat (ix16 B (N * N)) + 3 < 2 ^ 32"
    using uBN A(1,2) assms(4) n unfolding word_less_nat_alt by simp_all
  from align_mem_bounds [OF this] have "unat C mod 4 = 0" "unat A + 4 * (n * n) \<le> unat C" "unat C \<le> unat A + 4 * (n * n) + 3"
    by (simp_all only: C_def uBN)
  then have uC: "unat C = unat A + 4 * (n * n)" using A(3) by presburger
  have lay: "mat_layout N A B C"
    unfolding mat_layout_def Let_def n_def [symmetric]
    using n assms(3,4) uB uC A by (intro conjI region_disjoint(1)) simp_all
  obtain m' s' o' where f: "for_to N (\<lambda>i. for_to N (\<lambda>j. init_matrix_elem A B (i * N + j))) (m, (if seed = 0 then 1 else seed), 1) = (m', s', o')"
    by (metis prod_cases3)
  have "core_init_matrix m blksize memblk seed = Some (m', \<lparr>mp_N = N, mp_A = A, mp_B = B, mp_C = C\<rparr>, N)"
    unfolding core_init_matrix_def i(1) Let_def option.case
    unfolding N_def [symmetric] A_def [symmetric] B_def [symmetric] C_def [symmetric] f by simp
  then show ?thesis
    using lay n uC A by (intro exI [of _ m'] exI [of _ "\<lparr>mp_N = N, mp_A = A, mp_B = B, mp_C = C\<rparr>"]) (simp add: n_def)
qed

end
