(* ===== verification/Core_List.thy ===== *)
theory Core_List
  imports Core_State Core_Matrix
begin

text \<open>
  The linked-list benchmark of CoreMark (\<open>core_list_join.c\<close>): its data and the operations on lists.

  The list nodes (\<open>struct list_head\<close>) and their data (\<open>struct list_data\<close>) are kept as one map per field,
  indexed by the address of the structure; the rest of memory, with the blocks of the matrix and state
  benchmarks that the list benchmark calls, is byte memory.  \<open>core_results\<close> is part of the same state.
  A walk over a list that does not end at a null pointer gives \<open>None\<close>.
\<close>

section \<open>Definitions\<close>

record core_results =
  r_seed1 :: ee_s16
  r_seed2 :: ee_s16
  r_seed3 :: ee_s16
  r_memblock0 :: addr
  r_memblock1 :: addr
  r_memblock2 :: addr
  r_memblock3 :: addr
  r_size :: ee_u32
  r_iterations :: ee_u32
  r_execs :: ee_u32
  r_list :: addr
  r_mat :: mat_params
  r_crc :: ee_u16
  r_crclist :: ee_u16
  r_crcmatrix :: ee_u16
  r_crcstate :: ee_u16
  r_err :: ee_s16
  r_portable_id :: ee_u8

record world =
  w_next :: "addr \<Rightarrow> addr"
  w_info :: "addr \<Rightarrow> addr"
  w_data16 :: "addr \<Rightarrow> ee_s16"
  w_idx :: "addr \<Rightarrow> ee_s16"
  w_mem :: mem
  w_res :: core_results

abbreviation (input) set_next :: "addr \<Rightarrow> addr \<Rightarrow> world \<Rightarrow> world" where
  "set_next p q w \<equiv> w\<lparr>w_next := (w_next w)(p := q)\<rparr>"

abbreviation (input) set_info :: "addr \<Rightarrow> addr \<Rightarrow> world \<Rightarrow> world" where
  "set_info p q w \<equiv> w\<lparr>w_info := (w_info w)(p := q)\<rparr>"

abbreviation (input) set_data16 :: "addr \<Rightarrow> ee_s16 \<Rightarrow> world \<Rightarrow> world" where
  "set_data16 p v w \<equiv> w\<lparr>w_data16 := (w_data16 w)(p := v)\<rparr>"

abbreviation (input) set_idx :: "addr \<Rightarrow> ee_s16 \<Rightarrow> world \<Rightarrow> world" where
  "set_idx p v w \<equiv> w\<lparr>w_idx := (w_idx w)(p := v)\<rparr>"

abbreviation (input) upd_res :: "(core_results \<Rightarrow> core_results) \<Rightarrow> world \<Rightarrow> world" where
  "upd_res f w \<equiv> w\<lparr>w_res := f (w_res w)\<rparr>"

text \<open>The values computed from the data of an item: the operation that bits 0 to 2 select.\<close>

definition calc_switch :: "ee_s16 \<Rightarrow> world \<Rightarrow> (ee_s16 \<times> world) option" where
  "calc_switch data w =
     (let flag = data AND 0x7;
          dtype = drop_bit 3 data AND 0xf;
          dtype = dtype OR push_bit 4 dtype;
          res = w_res w
      in if flag = 0 then
           let dtype = (if sint dtype < 0x22 then 0x22 else dtype) in
           case core_bench_state (w_mem w) (r_size res) (r_memblock3 res) (r_seed1 res) (r_seed2 res) dtype (r_crc res) of
             None \<Rightarrow> None
           | Some (m, retval) \<Rightarrow>
               let w = w\<lparr>w_mem := m\<rparr>;
                   w = (if r_crcstate (w_res w) = 0 then upd_res (\<lambda>r. r\<lparr>r_crcstate := retval\<rparr>) w else w)
               in Some (retval, w)
         else if flag = 1 then
           let (m, retval) = core_bench_matrix (w_mem w) (r_mat res) dtype (r_crc res);
               w = w\<lparr>w_mem := m\<rparr>;
               w = (if r_crcmatrix (w_res w) = 0 then upd_res (\<lambda>r. r\<lparr>r_crcmatrix := retval\<rparr>) w else w)
           in Some (retval, w)
         else Some (data, w))"

definition calc_func :: "addr \<Rightarrow> world \<Rightarrow> (ee_s16 \<times> world) option" where
  "calc_func pdata w =
     (let data = w_data16 w pdata;
          optype = drop_bit 7 data AND 1
      in if optype \<noteq> 0 then Some (data AND 0x007f, w)
         else case calc_switch data w of
                None \<Rightarrow> None
              | Some (retval, w) \<Rightarrow>
                  let w = upd_res (\<lambda>r. r\<lparr>r_crc := crcu16 retval (r_crc r)\<rparr>) w;
                      retval = retval AND 0x007f;
                      w = set_data16 pdata ((data AND 0xff00) OR 0x0080 OR retval) w
                  in Some (retval, w))"

definition cmp_complex :: "addr \<Rightarrow> addr \<Rightarrow> world \<Rightarrow> (int \<times> world) option" where
  "cmp_complex a b w =
     (case calc_func a w of
        None \<Rightarrow> None
      | Some (val1, w) \<Rightarrow>
          case calc_func b w of
            None \<Rightarrow> None
          | Some (val2, w) \<Rightarrow> Some (sint val1 - sint val2, w))"

definition regen :: "ee_s16 \<Rightarrow> ee_s16" where
  "regen d = (d AND 0xff00) OR (0x00ff AND signed_drop_bit 8 d)"

definition cmp_idx :: "bool \<Rightarrow> addr \<Rightarrow> addr \<Rightarrow> world \<Rightarrow> (int \<times> world) option" where
  "cmp_idx res_null a b w =
     (let w = (if res_null then
                 let w = set_data16 a (regen (w_data16 w a)) w
                 in set_data16 b (regen (w_data16 w b)) w
               else w)
      in Some (sint (w_idx w a) - sint (w_idx w b), w))"

text \<open>A \<open>list_data\<close> local variable is the pair of its data and its index.\<close>

definition copy_info :: "addr \<Rightarrow> ee_s16 \<times> ee_s16 \<Rightarrow> world \<Rightarrow> world" where
  "copy_info to_p from_v w = (let w = set_data16 to_p (fst from_v) w in set_idx to_p (snd from_v) w)"

definition core_list_insert_new ::
  "addr \<Rightarrow> ee_s16 \<times> ee_s16 \<Rightarrow> addr \<Rightarrow> addr \<Rightarrow> addr \<Rightarrow> addr \<Rightarrow> world \<Rightarrow> addr \<times> addr \<times> addr \<times> world" where
  "core_list_insert_new insert_point info memblock datablock memblock_end datablock_end w =
     (if memblock + 8 \<ge> memblock_end then (NULL, memblock, datablock, w)
      else if datablock + 4 \<ge> datablock_end then (NULL, memblock, datablock, w)
      else
        let newitem = memblock;
            memblock = memblock + 8;
            w = set_next newitem (w_next w insert_point) w;
            w = set_next insert_point newitem w;
            w = set_info newitem datablock w;
            datablock = datablock + 4;
            w = copy_info (w_info w newitem) info w
        in (newitem, memblock, datablock, w))"

definition core_list_remove :: "addr \<Rightarrow> world \<Rightarrow> addr \<times> world" where
  "core_list_remove item w =
     (let ret = w_next w item;
          tmp = w_info w item;
          w = set_info item (w_info w ret) w;
          w = set_info ret tmp w;
          w = set_next item (w_next w (w_next w item)) w;
          w = set_next ret NULL w
      in (ret, w))"

definition core_list_undo_remove :: "addr \<Rightarrow> addr \<Rightarrow> world \<Rightarrow> addr \<times> world" where
  "core_list_undo_remove item_removed item_modified w =
     (let tmp = w_info w item_removed;
          w = set_info item_removed (w_info w item_modified) w;
          w = set_info item_modified tmp w;
          w = set_next item_removed (w_next w item_modified) w;
          w = set_next item_modified item_removed w
      in (item_removed, w))"

partial_function (option) find_idx :: "addr \<Rightarrow> ee_s16 \<Rightarrow> world \<Rightarrow> addr option" where
  "find_idx list idx w =
     (if list \<noteq> NULL \<and> w_idx w (w_info w list) \<noteq> idx then find_idx (w_next w list) idx w else Some list)"

partial_function (option) find_data :: "addr \<Rightarrow> ee_s16 \<Rightarrow> world \<Rightarrow> addr option" where
  "find_data list data16 w =
     (if list \<noteq> NULL \<and> w_data16 w (w_info w list) AND 0xff \<noteq> data16
      then find_data (w_next w list) data16 w else Some list)"

definition core_list_find :: "addr \<Rightarrow> ee_s16 \<times> ee_s16 \<Rightarrow> world \<Rightarrow> addr option" where
  "core_list_find list info w =
     (if sint (snd info) \<ge> 0 then find_idx list (snd info) w else find_data list (fst info) w)"

partial_function (option) reverse_loop :: "addr \<Rightarrow> addr \<Rightarrow> world \<Rightarrow> (addr \<times> world) option" where
  "reverse_loop list nxt w =
     (if list \<noteq> NULL then
        let tmp = w_next w list;
            w = set_next list nxt w
        in reverse_loop tmp list w
      else Some (nxt, w))"

definition core_list_reverse :: "addr \<Rightarrow> world \<Rightarrow> (addr \<times> world) option" where
  "core_list_reverse list w = reverse_loop list NULL w"

section \<open>List segments\<close>

primrec lseg :: "(addr \<Rightarrow> addr) \<Rightarrow> addr \<Rightarrow> addr list \<Rightarrow> addr \<Rightarrow> bool" where
  "lseg nx p [] e = (p = e)"
| "lseg nx p (x # xs) e = (p = x \<and> x \<noteq> 0 \<and> lseg nx (nx x) xs e)"

abbreviation (input) is_list :: "world \<Rightarrow> addr \<Rightarrow> addr list \<Rightarrow> bool" where
  "is_list w p xs \<equiv> lseg (w_next w) p xs NULL"

lemma lseg_append: "lseg nx p (xs @ ys) e \<longleftrightarrow> (\<exists>q. lseg nx p xs q \<and> lseg nx q ys e)"
  by (induction xs arbitrary: p) auto

lemma lseg_upd_other [simp]: "x \<notin> set xs \<Longrightarrow> lseg (nx(x := v)) p xs e \<longleftrightarrow> lseg nx p xs e"
  by (induction xs arbitrary: p) auto

lemma lseg_cong: "(\<And>x. x \<in> set xs \<Longrightarrow> nx x = nx' x) \<Longrightarrow> lseg nx p xs e = lseg nx' p xs e"
  by (induction xs arbitrary: p) auto

lemma lseg_not_null: "lseg nx p xs e \<Longrightarrow> 0 \<notin> set xs"
  by (induction xs arbitrary: p) auto

lemma lseg_null_unique: "lseg nx p xs 0 \<Longrightarrow> lseg nx p ys 0 \<Longrightarrow> xs = ys"
proof (induction xs arbitrary: p ys)
  case Nil
  then show ?case by (cases ys) auto
next
  case (Cons x xs)
  then show ?case by (cases ys) auto
qed

lemma lseg_distinct: "lseg nx p xs 0 \<Longrightarrow> distinct xs"
proof (induction xs arbitrary: p)
  case (Cons x xs)
  have "x \<notin> set xs"
  proof
    assume "x \<in> set xs"
    then obtain us vs where xs: "xs = us @ x # vs" by (meson split_list)
    then have "lseg nx x (x # vs) 0" using Cons.prems by (auto simp: lseg_append)
    moreover have "lseg nx x (x # xs) 0" using Cons.prems by simp
    ultimately have "x # vs = x # xs" by (rule lseg_null_unique)
    with xs show False by simp
  qed
  with Cons show ?case by auto
qed simp

section \<open>Operations on lists\<close>

lemma reverse_loop_ok:
  assumes "lseg (w_next w) p xs 0" and "lseg (w_next w) q ys 0" and "set xs \<inter> set ys = {}"
  shows "\<exists>r nx. reverse_loop p q w = Some (r, w\<lparr>w_next := nx\<rparr>) \<and> lseg nx r (rev xs @ ys) 0
    \<and> (\<forall>x. x \<notin> set xs \<longrightarrow> nx x = w_next w x)"
  using assms
proof (induction xs arbitrary: p q ys w)
  case Nil
  then show ?case by (intro exI [of _ q] exI [of _ "w_next w"]) (simp add: reverse_loop.simps)
next
  case (Cons x xs)
  let ?w = "set_next x q w"
  have x: "p = x" "x \<noteq> 0" "lseg (w_next w) (w_next w x) xs 0" "x \<notin> set xs" "x \<notin> set ys"
    using Cons.prems lseg_distinct [OF Cons.prems(1)] by auto
  then have "lseg (w_next ?w) (w_next w x) xs 0" "lseg (w_next ?w) x (x # ys) 0"
    using Cons.prems(2) by simp_all
  moreover have "set xs \<inter> set (x # ys) = {}" using x Cons.prems(3) by auto
  ultimately obtain r nx where r: "reverse_loop (w_next w x) x ?w = Some (r, ?w\<lparr>w_next := nx\<rparr>)"
    "lseg nx r (rev xs @ x # ys) 0" "\<forall>y. y \<notin> set xs \<longrightarrow> nx y = w_next ?w y"
    using Cons.IH by blast
  have "reverse_loop p q w = Some (r, w\<lparr>w_next := nx\<rparr>)"
    using r(1) x(1,2) by (subst reverse_loop.simps) (simp add: Let_def)
  with r(2,3) show ?case by (intro exI [of _ r] exI [of _ nx]) simp
qed

lemma core_list_reverse_ok:
  assumes "is_list w p xs"
  shows "\<exists>r nx. core_list_reverse p w = Some (r, w\<lparr>w_next := nx\<rparr>) \<and> lseg nx r (rev xs) 0
    \<and> (\<forall>x. x \<notin> set xs \<longrightarrow> nx x = w_next w x)"
  using reverse_loop_ok [OF assms, of 0 "[]"] by (simp add: core_list_reverse_def)

definition first_node :: "(addr \<Rightarrow> bool) \<Rightarrow> addr list \<Rightarrow> addr" where
  "first_node P xs = (case List.find P xs of None \<Rightarrow> 0 | Some x \<Rightarrow> x)"

lemma core_list_find_ok:
  assumes "is_list w p xs"
  shows "core_list_find p (d, i) w = Some (if 0 \<le> sint i
     then first_node (\<lambda>x. w_idx w (w_info w x) = i) xs
     else first_node (\<lambda>x. w_data16 w (w_info w x) AND 0xff = d) xs)"
proof -
  have "find_idx p i w = Some (first_node (\<lambda>x. w_idx w (w_info w x) = i) xs)"
    using assms by (induction xs arbitrary: p) (auto simp: first_node_def find_idx.simps)
  moreover have "find_data p d w = Some (first_node (\<lambda>x. w_data16 w (w_info w x) AND 0xff = d) xs)"
    using assms by (induction xs arbitrary: p) (auto simp: first_node_def find_data.simps)
  ultimately show ?thesis by (simp add: core_list_find_def)
qed

lemma list_remove_undo_spec:
  assumes "is_list w p (us @ item # nxt # vs)"
  shows "\<exists>w'. core_list_remove item w = (nxt, w') \<and> is_list w' p (us @ item # vs)
    \<and> map (w_info w') (us @ item # vs) = map (w_info w) (us @ nxt # vs)
    \<and> core_list_undo_remove nxt item w' = (nxt, w)"
proof -
  let ?w = "w\<lparr>w_next := (w_next w)(item := w_next w nxt, nxt := 0),
      w_info := (w_info w)(item := w_info w nxt, nxt := w_info w item)\<rparr>"
  have d: "distinct (us @ item # nxt # vs)" using lseg_distinct [OF assms] .
  have n: "w_next w item = nxt" using assms by (auto simp: lseg_append)
  have "core_list_remove item w = (nxt, ?w)"
    using d by (simp add: core_list_remove_def n fun_upd_twist)
  moreover have "is_list ?w p (us @ item # vs)"
    using assms d by (auto simp: lseg_append)
  moreover have "map (w_info ?w) (us @ item # vs) = map (w_info w) (us @ nxt # vs)"
    using d by (auto intro: map_cong)
  moreover have "core_list_undo_remove nxt item ?w = (nxt, w)"
    using d n by (auto simp: core_list_undo_remove_def fun_upd_twist)
  ultimately show ?thesis by blast
qed

text \<open>C27 Removing an item unlinks the following node of the list and gives its data to the item, so that the data of
  the item leaves the list and the order of the others is kept; undoing the removal with the returned node restores the
  state exactly.\<close>

theorem list_remove_undo:
  assumes "is_list w p (us @ item # nxt # vs)"
  shows "\<exists>w'. core_list_remove item w = (nxt, w') \<and> is_list w' p (us @ item # vs)
    \<and> map (w_info w') (us @ item # vs) = map (w_info w) (us @ nxt # vs)
    \<and> core_list_undo_remove nxt item w' = (nxt, w)"
  using assms by (rule list_remove_undo_spec)

definition sample_results :: core_results where
  "sample_results = \<lparr>r_seed1 = 0, r_seed2 = 0, r_seed3 = 0x66, r_memblock0 = 0, r_memblock1 = 0, r_memblock2 = 0,
     r_memblock3 = 0, r_size = 666, r_iterations = 1, r_execs = 7, r_list = 8,
     r_mat = \<lparr>mp_N = 0, mp_A = 0, mp_B = 0, mp_C = 0\<rparr>, r_crc = 0, r_crclist = 0, r_crcmatrix = 0, r_crcstate = 0,
     r_err = 0, r_portable_id = 1\<rparr>"

definition sample_world :: world where
  "sample_world = \<lparr>w_next = (\<lambda>_. 0)(8 := 16, 16 := 24), w_info = (\<lambda>x. x + 0x100),
     w_data16 = (\<lambda>_. 0), w_idx = (\<lambda>_. 0), w_mem = (\<lambda>_. 0), w_res = sample_results\<rparr>"

theorem list_remove_undo_witness:
  "\<exists>w'. core_list_remove 16 sample_world = (24, w') \<and> is_list w' 8 [8, 16]
    \<and> map (w_info w') [8, 16] = [0x108, 0x118] \<and> core_list_undo_remove 24 16 w' = (24, sample_world)"
proof -
  have "is_list sample_world 8 ([8] @ 16 # 24 # [])" by (simp add: sample_world_def)
  from list_remove_undo [OF this] show ?thesis by (simp add: sample_world_def)
qed

end
