(* ===== verification/Core_Sort.thy ===== *)
theory Core_Sort
  imports Core_List "HOL-Library.Multiset"
begin

text \<open>
  The list merge sort of CoreMark (\<open>core_list_mergesort\<close> of \<open>core_list_join.c\<close>), on the linked nodes.  The comparison
  function is called with the \<open>info\<close> pointers of two nodes and may change the state: \<open>cmp_complex\<close> runs
  other benchmarks and caches their result.  The interface \<open>list_order\<close> says what the sort relies on, and in it
  the sort is shown to return, and to leave the nodes linked as the stable sort by the key has them.
\<close>

section \<open>Definitions\<close>

type_synonym list_cmp = "addr \<Rightarrow> addr \<Rightarrow> world \<Rightarrow> (int \<times> world) option"

partial_function (option) step_along :: "int \<Rightarrow> int \<Rightarrow> addr \<Rightarrow> int \<Rightarrow> world \<Rightarrow> (addr \<times> int) option" where
  "step_along i insize q psize w =
     (if i < insize then
        let psize = i32 (psize + 1);
            q = w_next w q
        in if q = NULL then Some (q, psize) else step_along (i32 (i + 1)) insize q psize w
      else Some (q, psize))"

definition append_node :: "addr \<Rightarrow> addr \<Rightarrow> addr \<Rightarrow> world \<Rightarrow> addr \<times> addr \<times> world" where
  "append_node e list tail w = (if tail \<noteq> NULL then (list, e, set_next tail e w) else (e, e, w))"

text \<open>Whether the next element comes from \<open>p\<close>.\<close>

definition from_p :: "list_cmp \<Rightarrow> addr \<Rightarrow> addr \<Rightarrow> int \<Rightarrow> int \<Rightarrow> world \<Rightarrow> (bool \<times> world) option" where
  "from_p cmp p q psize qsize w =
     (if psize = 0 then Some (False, w)
      else if qsize = 0 \<or> q = NULL then Some (True, w)
      else case cmp (w_info w p) (w_info w q) w of
             None \<Rightarrow> None
           | Some (c, w) \<Rightarrow> Some (c \<le> 0, w))"

partial_function (option) merge_loop ::
  "list_cmp \<Rightarrow> addr \<Rightarrow> addr \<Rightarrow> int \<Rightarrow> int \<Rightarrow> addr \<Rightarrow> addr \<Rightarrow> world \<Rightarrow> (addr \<times> addr \<times> addr \<times> world) option" where
  "merge_loop cmp p q psize qsize list tail w =
     (if psize > 0 \<or> (qsize > 0 \<and> q \<noteq> NULL) then
        case from_p cmp p q psize qsize w of
          None \<Rightarrow> None
        | Some (b, w) \<Rightarrow>
            let (e, p, psize, q, qsize) =
                  (if b then (p, w_next w p, i32 (psize - 1), q, qsize)
                   else (q, p, psize, w_next w q, i32 (qsize - 1)));
                (list, tail, w) = append_node e list tail w
            in merge_loop cmp p q psize qsize list tail w
      else Some (list, tail, q, w))"

partial_function (option) pass_loop ::
  "list_cmp \<Rightarrow> int \<Rightarrow> addr \<Rightarrow> addr \<Rightarrow> addr \<Rightarrow> int \<Rightarrow> world \<Rightarrow> (addr \<times> addr \<times> int \<times> world) option" where
  "pass_loop cmp insize p list tail nmerges w =
     (if p \<noteq> NULL then
        let nmerges = i32 (nmerges + 1) in
        case step_along 0 insize p 0 w of
          None \<Rightarrow> None
        | Some (q, psize) \<Rightarrow>
            let qsize = insize in
            case merge_loop cmp p q psize qsize list tail w of
              None \<Rightarrow> None
            | Some (list, tail, q, w) \<Rightarrow> pass_loop cmp insize q list tail nmerges w
      else Some (list, tail, nmerges, w))"

partial_function (option) sort_loop :: "list_cmp \<Rightarrow> int \<Rightarrow> addr \<Rightarrow> world \<Rightarrow> (addr \<times> world) option" where
  "sort_loop cmp insize list w =
     (case pass_loop cmp insize list NULL NULL 0 w of
        None \<Rightarrow> None
      | Some (list, tail, nmerges, w) \<Rightarrow>
          let w = set_next tail NULL w in
          if nmerges \<le> 1 then Some (list, w)
          else sort_loop cmp (i32 (insize * 2)) list w)"

definition core_list_mergesort :: "list_cmp \<Rightarrow> addr \<Rightarrow> world \<Rightarrow> (addr \<times> world) option" where
  "core_list_mergesort cmp list w = sort_loop cmp 1 list w"

section \<open>Bottom-up merging of lists\<close>

fun merge_by :: "('a \<Rightarrow> int) \<Rightarrow> 'a list \<Rightarrow> 'a list \<Rightarrow> 'a list" where
  "merge_by k [] ys = ys"
| "merge_by k xs [] = xs"
| "merge_by k (x # xs) (y # ys) = (if k x \<le> k y then x # merge_by k xs (y # ys) else y # merge_by k (x # xs) ys)"

lemma set_merge_by [simp]: "set (merge_by k xs ys) = set xs \<union> set ys"
  by (induction k xs ys rule: merge_by.induct) auto

lemma mset_merge_by: "mset (merge_by k xs ys) = mset xs + mset ys"
  by (induction k xs ys rule: merge_by.induct) auto

lemma sorted_merge_by: "sorted (map k xs) \<Longrightarrow> sorted (map k ys) \<Longrightarrow> sorted (map k (merge_by k xs ys))"
  by (induction k xs ys rule: merge_by.induct) auto

lemma merge_by_stable:
  "sorted (map k xs) \<Longrightarrow>
   filter (\<lambda>x. k z = k x) (merge_by k xs ys) = filter (\<lambda>x. k z = k x) xs @ filter (\<lambda>x. k z = k x) ys"
proof (induction k xs ys rule: merge_by.induct)
  case (3 k x xs y ys)
  show ?case
  proof (cases "k x \<le> k y")
    case False
    then have "k z = k y \<Longrightarrow> filter (\<lambda>x. k z = k x) (x # xs) = []" using 3(3) by (auto simp: filter_empty_conv)
    with 3 False show ?thesis by auto
  qed (use 3 in auto)
qed simp_all

lemma merge_sorts: "merge_by k (sort_key k xs) (sort_key k ys) = sort_key k (xs @ ys)"
proof (rule properties_for_sort_key [symmetric])
  show "mset (merge_by k (sort_key k xs) (sort_key k ys)) = mset (xs @ ys)" by (simp add: mset_merge_by)
  show "sorted (map k (merge_by k (sort_key k xs) (sort_key k ys)))" by (simp add: sorted_merge_by)
  show "filter (\<lambda>x. k z = k x) (merge_by k (sort_key k xs) (sort_key k ys)) = filter (\<lambda>x. k z = k x) (xs @ ys)" for z
  proof -
    have "(\<lambda>x. k z = k x) = (\<lambda>x. k x = k z)" by auto
    then have "filter (\<lambda>x. k z = k x) (sort_key k l) = filter (\<lambda>x. k z = k x) l" for l
      by (simp only: sort_key_stable)
    then show ?thesis by (simp add: merge_by_stable)
  qed
qed

text \<open>The list in sorted runs of \<open>s\<close>, and one pass that merges them in pairs.\<close>

function runs :: "('a \<Rightarrow> int) \<Rightarrow> nat \<Rightarrow> 'a list \<Rightarrow> 'a list" where
  "runs k s xs = (if s = 0 \<or> xs = [] then xs else sort_key k (take s xs) @ runs k s (drop s xs))"
  by pat_completeness auto
termination
  by (relation "measure (\<lambda>(k, s, xs). length xs)") auto

function merge_pass :: "('a \<Rightarrow> int) \<Rightarrow> nat \<Rightarrow> 'a list \<Rightarrow> 'a list" where
  "merge_pass k s xs =
     (if s = 0 \<or> xs = [] then xs
      else merge_by k (take s xs) (take s (drop s xs)) @ merge_pass k s (drop s (drop s xs)))"
  by pat_completeness auto
termination
  by (relation "measure (\<lambda>(k, s, xs). length xs)") auto

declare runs.simps [simp del] merge_pass.simps [simp del]

lemma length_runs [simp]: "length (runs k s xs) = length xs"
  by (induction k s xs rule: runs.induct) (subst runs.simps, auto)

lemma mset_runs: "mset (runs k s xs) = mset xs"
proof (induction k s xs rule: runs.induct)
  case (1 k s xs)
  show ?case
  proof (cases "s = 0 \<or> xs = []")
    case False
    then have "mset (runs k s xs) = mset (take s xs) + mset (drop s xs)" using 1 by (subst runs.simps) simp
    then show ?thesis by (simp only: mset_append [symmetric] append_take_drop_id)
  qed (auto simp: runs.simps)
qed

lemma set_runs [simp]: "set (runs k s xs) = set xs"
  by (rule mset_eq_setD [OF mset_runs])

lemma runs_eq_Nil [simp]: "runs k s xs = [] \<longleftrightarrow> xs = []"
  by (metis length_0_conv length_runs)

lemma distinct_runs [simp]: "distinct (runs k s xs) \<longleftrightarrow> distinct xs"
  by (rule mset_eq_imp_distinct_iff [OF mset_runs])

lemma runs_Nil [simp]: "runs k s [] = []"
  by (simp add: runs.simps)

lemma runs_one: "runs k 1 xs = xs"
proof (induction xs)
  case (Cons x xs)
  then show ?case by (subst runs.simps) simp
qed simp

lemma runs_whole: "length xs \<le> s \<Longrightarrow> runs k s xs = sort_key k xs"
  by (subst runs.simps) auto

lemma take_runs: "0 < s \<Longrightarrow> take s (runs k s xs) = sort_key k (take s xs)"
  by (cases "xs = []") (simp, subst runs.simps, simp add: take_all_iff min_def)

lemma drop_runs: "0 < s \<Longrightarrow> drop s (runs k s xs) = runs k s (drop s xs)"
proof (cases "length xs \<le> s")
  case False
  assume "0 < s"
  with False show ?thesis by (subst runs.simps) auto
qed simp

lemma merge_pass_runs: "0 < s \<Longrightarrow> merge_pass k s (runs k s xs) = runs k (s + s) xs"
proof (induction "length xs" arbitrary: xs rule: less_induct)
  case less
  show ?case
  proof (cases "xs = []")
    case False
    then have "merge_pass k s (runs k s (drop s (drop s xs))) = runs k (s + s) (drop s (drop s xs))"
      using less.prems by (intro less.hyps) auto
    moreover have "runs k s xs \<noteq> []" using False length_runs [of k s xs] by (metis length_0_conv)
    moreover have "runs k (s + s) xs = sort_key k (take (s + s) xs) @ runs k (s + s) (drop s (drop s xs))"
      using False less.prems by (subst runs.simps) (simp add: add.commute)
    ultimately show ?thesis
      using less.prems by (subst merge_pass.simps) (simp add: take_runs drop_runs merge_sorts take_add)
  qed (simp add: merge_pass.simps)
qed

section \<open>The interface of a comparison function\<close>

text \<open>
  \<open>key w d\<close> is the rank of the data \<open>d\<close> in the state \<open>w\<close>.  A comparison may settle the ranks of its arguments; once it has
  answered, its answer stays right in every later state.  It does not change the links.
\<close>

locale list_order =
  fixes cmp :: list_cmp
    and key :: "world \<Rightarrow> addr \<Rightarrow> int"
    and ok :: "world \<Rightarrow> bool"
    and later :: "world \<Rightarrow> world \<Rightarrow> bool"
  assumes later_refl: "later w w"
    and later_trans: "later w1 w2 \<Longrightarrow> later w2 w3 \<Longrightarrow> later w1 w3"
    and later_links: "later w (w'\<lparr>w_next := nx\<rparr>) \<longleftrightarrow> later w w'" "later (w\<lparr>w_next := nx\<rparr>) w' \<longleftrightarrow> later w w'"
    and ok_links: "ok (w\<lparr>w_next := nx\<rparr>) \<longleftrightarrow> ok w"
    and cmp_ok: "ok w \<Longrightarrow> \<exists>c w'. cmp a b w = Some (c, w') \<and> ok w' \<and> later w w'
      \<and> w_next w' = w_next w \<and> w_info w' = w_info w
      \<and> (\<forall>w''. later w' w'' \<longrightarrow> (c \<le> 0 \<longleftrightarrow> key w'' a \<le> key w'' b))"
begin

text \<open>The part of the new list that is linked already: its last node is \<open>tail\<close>.\<close>

definition built :: "(addr \<Rightarrow> addr) \<Rightarrow> addr \<Rightarrow> addr \<Rightarrow> addr list \<Rightarrow> bool" where
  "built nx list tail ds \<longleftrightarrow>
     (if ds = [] then list = 0 \<and> tail = 0 else lseg nx list (butlast ds) tail \<and> tail = last ds \<and> tail \<noteq> 0)"

lemma append_node_ok:
  assumes "built (w_next w) list tail ds" and "e \<noteq> 0" and "distinct (ds @ [e])"
  shows "\<exists>list' nx. append_node e list tail w = (list', e, w\<lparr>w_next := nx\<rparr>) \<and> built nx list' e (ds @ [e])
    \<and> (\<forall>x. x \<notin> set ds \<longrightarrow> nx x = w_next w x)"
proof (cases "ds = []")
  case True
  then show ?thesis using assms
    by (intro exI [of _ e] exI [of _ "w_next w"]) (simp add: append_node_def built_def)
next
  case False
  then obtain us where ds: "ds = us @ [tail]" using assms(1) by (metis append_butlast_last_id built_def)
  moreover from this have "tail \<notin> set us" using assms(3) by auto
  ultimately show ?thesis using assms
    by (intro exI [of _ list] exI [of _ "(w_next w)(tail := e)"]) (auto simp: append_node_def built_def lseg_append butlast_append)
qed

text \<open>What merging \<open>ps\<close> and the first \<open>n\<close> of \<open>qs\<close> into \<open>ds\<close> achieves.\<close>

definition merged :: "(addr \<Rightarrow> addr) \<Rightarrow> addr list \<Rightarrow> addr list \<Rightarrow> addr list \<Rightarrow> nat \<Rightarrow> world
    \<Rightarrow> (addr \<times> addr \<times> addr \<times> world) option \<Rightarrow> bool" where
  "merged i0 ds ps qs n w r \<longleftrightarrow> (\<exists>list tail q w' ms. r = Some (list, tail, q, w') \<and> ok w' \<and> later w w' \<and> w_info w' = i0
     \<and> built (w_next w') list tail (ds @ ms) \<and> lseg (w_next w') q (drop n qs) 0
     \<and> (\<forall>w''. later w' w'' \<longrightarrow> ms = merge_by (\<lambda>x. key w'' (i0 x)) ps (take n qs))
     \<and> (\<forall>x. x \<notin> set (ds @ ps @ qs) \<longrightarrow> w_next w' x = w_next w x))"

lemma merged_step:
  assumes r: "merged i0 (ds @ [e]) ps' qs' n' w2 r" and "later w w2"
    and nx: "\<And>x. x \<notin> set ds \<Longrightarrow> w_next w2 x = w_next w x"
    and sub: "set (e # ps' @ qs') \<subseteq> set (ps @ qs)" and d: "drop n' qs' = drop n qs"
    and k: "\<And>w''. later w2 w'' \<Longrightarrow> e # merge_by (\<lambda>x. key w'' (i0 x)) ps' (take n' qs')
        = merge_by (\<lambda>x. key w'' (i0 x)) ps (take n qs)"
  shows "merged i0 ds ps qs n w r"
proof -
  obtain list tail q w' ms where *: "r = Some (list, tail, q, w')" "ok w'" "later w2 w'" "w_info w' = i0"
     "built (w_next w') list tail ((ds @ [e]) @ ms)" "lseg (w_next w') q (drop n' qs') 0"
     "\<And>w''. later w' w'' \<Longrightarrow> ms = merge_by (\<lambda>x. key w'' (i0 x)) ps' (take n' qs')"
     "\<And>x. x \<notin> set ((ds @ [e]) @ ps' @ qs') \<Longrightarrow> w_next w' x = w_next w2 x"
    using r unfolding merged_def by blast
  have "e # ms = merge_by (\<lambda>x. key w'' (i0 x)) ps (take n qs)" if "later w' w''" for w''
    using *(7) [OF that] k [OF later_trans [OF *(3) that]] by simp
  moreover have "w_next w' x = w_next w x" if "x \<notin> set (ds @ ps @ qs)" for x
    using that *(8) [of x] nx [of x] sub by auto
  ultimately show ?thesis
    unfolding merged_def using * later_trans [OF assms(2) *(3)] d
    by (intro exI [of _ list] exI [of _ tail] exI [of _ q] exI [of _ w'] exI [of _ "e # ms"]) simp
qed

lemma merge_loop_step:
  assumes "psize > 0 \<or> (qsize > 0 \<and> q \<noteq> 0)" and "from_p cmp p q psize qsize w = Some (b, w1)"
    and "append_node (if b then p else q) list tail w1 = (list', tail', w2)"
  shows "merge_loop cmp p q psize qsize list tail w =
    (if b then merge_loop cmp (w_next w1 p) q (i32 (psize - 1)) qsize list' tail' w2
     else merge_loop cmp p (w_next w1 q) psize (i32 (qsize - 1)) list' tail' w2)"
  using assms by (subst merge_loop.simps) (simp split: if_splits)

lemma i32_pred: "n < 2 ^ 31 \<Longrightarrow> i32 (int (Suc n) - 1) = int n"
  by (subst i32_id) simp_all

lemma merge_by_Nil2 [simp]: "merge_by k xs [] = xs"
  by (cases xs) simp_all

lemma i32_succ: "n + 1 < 2 ^ 31 \<Longrightarrow> i32 (int n + 1) = int (Suc n)"
  by (subst i32_id) simp_all

lemma distinct_merge_by: "distinct (merge_by k xs ys) \<longleftrightarrow> distinct (xs @ ys)"
  by (rule mset_eq_imp_distinct_iff) (simp add: mset_merge_by)

lemma from_p_ok:
  assumes "ok w" and "w_info w = i0" and "lseg nx p ps pe" and "lseg nx q qs 0" and "\<not> (ps = [] \<and> take n qs = [])"
  shows "\<exists>b w1. from_p cmp p q (int (length ps)) (int n) w = Some (b, w1) \<and> ok w1 \<and> later w w1
    \<and> w_next w1 = w_next w \<and> w_info w1 = i0 \<and>
    (if b then ps \<noteq> [] \<and> (\<forall>w''. later w1 w'' \<longrightarrow> p # merge_by (\<lambda>x. key w'' (i0 x)) (tl ps) (take n qs)
         = merge_by (\<lambda>x. key w'' (i0 x)) ps (take n qs))
     else n \<noteq> 0 \<and> qs \<noteq> [] \<and> (\<forall>w''. later w1 w'' \<longrightarrow> q # merge_by (\<lambda>x. key w'' (i0 x)) ps (take (n - 1) (tl qs))
         = merge_by (\<lambda>x. key w'' (i0 x)) ps (take n qs)))"
proof (cases ps)
  case Nil
  then obtain y ys k where "qs = y # ys" "n = Suc k" using assms(5) by (cases qs; cases n) auto
  with Nil assms show ?thesis by (intro exI [of _ False] exI [of _ w]) (simp add: from_p_def later_refl)
next
  case (Cons x xs)
  show ?thesis
  proof (cases "take n qs = []")
    case True
    then have "n = 0 \<or> q = 0" using assms(4) by (cases qs) auto
    with True Cons assms show ?thesis
      by (intro exI [of _ True] exI [of _ w]) (auto simp: from_p_def later_refl)
  next
    case False
    then obtain y ys k where q: "qs = y # ys" "n = Suc k" by (cases qs; cases n) auto
    obtain c w1 where c: "cmp (i0 x) (i0 y) w = Some (c, w1)" "ok w1" "later w w1" "w_next w1 = w_next w" "w_info w1 = w_info w"
      "\<And>w''. later w1 w'' \<Longrightarrow> c \<le> 0 \<longleftrightarrow> key w'' (i0 x) \<le> key w'' (i0 y)"
      using cmp_ok [OF assms(1), of "i0 x" "i0 y"] by blast
    with q Cons assms show ?thesis
      by (intro exI [of _ "c \<le> 0"] exI [of _ w1]) (auto simp: from_p_def)
  qed
qed

lemma merge_loop_ok:
  assumes "ok w" and "w_info w = i0" and "built (w_next w) list tail ds"
    and "lseg (w_next w) p ps pe" and "lseg (w_next w) q qs 0" and "distinct (ds @ ps @ qs)"
    and "length ps < 2 ^ 31" and "n < 2 ^ 31"
  shows "merged i0 ds ps qs n w (merge_loop cmp p q (int (length ps)) (int n) list tail w)"
  using assms
proof (induction "length ps + n" arbitrary: ps qs n p q list tail w ds rule: less_induct)
  case less
  show ?case
  proof (cases "ps = [] \<and> take n qs = []")
    case True
    then have "n = 0 \<or> q = 0" using less.prems(5) by (cases qs) auto
    then have "merge_loop cmp p q (int (length ps)) (int n) list tail w = Some (list, tail, q, w)"
      using True by (subst merge_loop.simps) auto
    moreover have "drop n qs = qs" using True by (cases qs; cases n) auto
    ultimately show ?thesis
      using True less.prems later_refl unfolding merged_def
      by (intro exI [of _ list] exI [of _ tail] exI [of _ q] exI [of _ w] exI [of _ "[]"]) auto
  next
    case False
    obtain b w1 where w1: "from_p cmp p q (int (length ps)) (int n) w = Some (b, w1)" "ok w1" "later w w1"
      "w_next w1 = w_next w" "w_info w1 = i0"
      and b: "if b then ps \<noteq> [] \<and> (\<forall>w''. later w1 w'' \<longrightarrow> p # merge_by (\<lambda>x. key w'' (i0 x)) (tl ps) (take n qs)
         = merge_by (\<lambda>x. key w'' (i0 x)) ps (take n qs))
       else n \<noteq> 0 \<and> qs \<noteq> [] \<and> (\<forall>w''. later w1 w'' \<longrightarrow> q # merge_by (\<lambda>x. key w'' (i0 x)) ps (take (n - 1) (tl qs))
         = merge_by (\<lambda>x. key w'' (i0 x)) ps (take n qs))"
      using from_p_ok [OF less.prems(1,2,4,5) False] by blast
    let ?e = "if b then p else q"
    have pq: "ps \<noteq> [] \<Longrightarrow> ps = p # tl ps \<and> p \<noteq> 0 \<and> lseg (w_next w) (w_next w p) (tl ps) pe"
      "qs \<noteq> [] \<Longrightarrow> qs = q # tl qs \<and> q \<noteq> 0 \<and> lseg (w_next w) (w_next w q) (tl qs) 0"
      using less.prems(4,5) by (cases ps; cases qs; simp)+
    have "ps \<noteq> [] \<Longrightarrow> p \<in> set ps" "qs \<noteq> [] \<Longrightarrow> q \<in> set qs" using less.prems(4,5) by (cases ps; cases qs; simp)+
    then have e: "?e \<noteq> 0" "distinct (ds @ [?e])" using b pq less.prems(6) by (auto split: if_splits)
    obtain list' nx where ap: "append_node ?e list tail w1 = (list', ?e, w1\<lparr>w_next := nx\<rparr>)"
      "built nx list' ?e (ds @ [?e])" "\<And>x. x \<notin> set ds \<Longrightarrow> nx x = w_next w x"
      using append_node_ok [OF _ e, of w1 list tail] less.prems(3) unfolding w1(4) by blast
    let ?w2 = "w1\<lparr>w_next := nx\<rparr>"
    have c: "int (length ps) > 0 \<or> (int n > 0 \<and> q \<noteq> 0)" using b pq by (auto split: if_splits)
    note step = merge_loop_step [OF c w1(1) ap(1)]
    have lk: "lseg nx a xs z \<longleftrightarrow> lseg (w_next w) a xs z" if "set xs \<inter> set ds = {}" for a xs z
      using that ap(3) by (intro lseg_cong) auto
    have l2: "later w ?w2" "ok ?w2" "w_info ?w2 = i0" "\<And>w''. later ?w2 w'' \<longleftrightarrow> later w1 w''"
      using w1 by (simp_all add: later_links ok_links)
    show ?thesis
    proof (cases b)
      case True
      with b pq(1) obtain ps' where ps: "ps = p # ps'" "lseg (w_next w) (w_next w p) ps' pe" by auto
      have "lseg nx (w_next w p) ps' pe" "lseg nx q qs 0" using ps less.prems(5,6) by (subst lk; auto)+
      then have "merged i0 (ds @ [p]) ps' qs n ?w2 (merge_loop cmp (w_next w p) q (int (length ps')) (int n) list' p ?w2)"
        using less.prems ps ap(2) True l2 by (intro less.hyps) auto
      then have "merged i0 ds ps qs n w (merge_loop cmp (w_next w p) q (int (length ps')) (int n) list' p ?w2)"
        by (rule merged_step [OF _ l2(1)]) (use True b ps l2(4) ap(3) in \<open>simp_all\<close>)
      moreover have "int (length ps') = i32 (int (length ps) - 1)" using ps less.prems(7) i32_pred [of "length ps'"] by simp
      ultimately show ?thesis using step True w1(4) by simp
    next
      case False
      with b pq(2) obtain qs' k where qs: "qs = q # qs'" "lseg (w_next w) (w_next w q) qs' 0" "n = Suc k"
        by (cases n) auto
      have "lseg nx p ps pe" "lseg nx (w_next w q) qs' 0" using qs less.prems(4,6) by (subst lk; auto)+
      then have "merged i0 (ds @ [q]) ps qs' k ?w2 (merge_loop cmp p (w_next w q) (int (length ps)) (int k) list' q ?w2)"
        using less.prems qs ap(2) False l2 by (intro less.hyps) auto
      then have "merged i0 ds ps qs n w (merge_loop cmp p (w_next w q) (int (length ps)) (int k) list' q ?w2)"
        by (rule merged_step [OF _ l2(1)]) (use False b qs l2(4) ap(3) in \<open>auto\<close>)
      moreover have "int k = i32 (int n - 1)" using qs less.prems(8) i32_pred [of k] by simp
      ultimately show ?thesis using step False w1(4) by simp
    qed
  qed
qed

lemma step_along_ok:
  assumes "lseg (w_next w) q xs 0" and "xs \<noteq> []" and "i + r = s" and "s < 2 ^ 31" and "j + r < 2 ^ 31"
  shows "\<exists>q'. step_along (int i) (int s) q (int j) w = Some (q', int (j + length (take r xs)))
    \<and> lseg (w_next w) q (take r xs) q' \<and> lseg (w_next w) q' (drop r xs) 0"
  using assms
proof (induction r arbitrary: i j q xs)
  case 0
  then show ?case by (subst step_along.simps) simp
next
  case (Suc r)
  then obtain ys where xs: "xs = q # ys" "q \<noteq> 0" "lseg (w_next w) (w_next w q) ys 0" by (cases xs) auto
  have i: "i32 (int j + 1) = int (Suc j)" "i32 (int i + 1) = int (Suc i)" using Suc.prems by (intro i32_succ; simp)+
  show ?case
  proof (cases "ys = []")
    case True
    then have "w_next w q = 0" using xs by simp
    with True xs Suc.prems i show ?thesis by (subst step_along.simps) (simp add: Let_def)
  next
    case False
    then have n: "w_next w q \<noteq> 0" using xs by (cases ys) auto
    have "Suc i + r = s" "Suc j + r < 2 ^ 31" using Suc.prems by simp_all
    from Suc.IH [OF xs(3) False this(1) Suc.prems(4) this(2)] obtain q' where q':
      "step_along (int (Suc i)) (int s) (w_next w q) (int (Suc j)) w = Some (q', int (Suc j + length (take r ys)))"
      "lseg (w_next w) (w_next w q) (take r ys) q'" "lseg (w_next w) q' (drop r ys) 0" by blast
    have "step_along (int i) (int s) q (int j) w = Some (q', int (Suc j + length (take r ys)))"
      using n i q'(1) Suc.prems(3) by (subst step_along.simps) (simp add: Let_def)
    with q'(2,3) xs show ?thesis by simp
  qed
qed

lemma pass_loop_ok:
  assumes "ok w" and "w_info w = i0" and "built (w_next w) list tail ds" and "lseg (w_next w) p xs 0"
    and "distinct (ds @ xs)" and "0 < s" and "s < 2 ^ 30" and "c + length xs < 2 ^ 30"
  shows "\<exists>list' tail' k w' ms. pass_loop cmp (int s) p list tail (int c) w = Some (list', tail', int (c + k), w')
     \<and> ok w' \<and> later w w' \<and> w_info w' = i0 \<and> built (w_next w') list' tail' (ds @ ms)
     \<and> (\<forall>w''. later w' w'' \<longrightarrow> ms = merge_pass (\<lambda>x. key w'' (i0 x)) s xs)
     \<and> (\<forall>x. x \<notin> set (ds @ xs) \<longrightarrow> w_next w' x = w_next w x)
     \<and> (k = 0 \<longleftrightarrow> xs = []) \<and> (k \<le> 1 \<longleftrightarrow> length xs \<le> s + s)"
  using assms
proof (induction "length xs" arbitrary: xs p list tail w ds c rule: less_induct)
  case less
  show ?case
  proof (cases "xs = []")
    case True
    then have "pass_loop cmp (int s) p list tail (int c) w = Some (list, tail, int (c + 0), w)"
      using less.prems(4) by (subst pass_loop.simps) simp
    then show ?thesis using True less.prems later_refl
      by (intro exI [of _ list] exI [of _ tail] exI [of _ 0] exI [of _ w] exI [of _ "[]"]) (simp add: merge_pass.simps)
  next
    case False
    let ?ps = "take s xs" and ?qs = "drop s xs"
    have p: "p \<noteq> 0" using False less.prems(4) by (cases xs) auto
    obtain q where q: "step_along 0 (int s) p 0 w = Some (q, int (length ?ps))"
      "lseg (w_next w) p ?ps q" "lseg (w_next w) q ?qs 0"
      using step_along_ok [OF less.prems(4) False, of 0 s s 0] less.prems(7) by auto
    have dist: "distinct (ds @ ?ps @ ?qs)" using less.prems(5) by simp
    have len: "length ?ps < 2 ^ 31" "s < 2 ^ 31" using less.prems(7) by simp_all
    obtain list1 tail1 q1 w1 ms1 where m: "merge_loop cmp p q (int (length ?ps)) (int s) list tail w = Some (list1, tail1, q1, w1)"
      "ok w1" "later w w1" "w_info w1 = i0" "built (w_next w1) list1 tail1 (ds @ ms1)" "lseg (w_next w1) q1 (drop s ?qs) 0"
      "\<And>w''. later w1 w'' \<Longrightarrow> ms1 = merge_by (\<lambda>x. key w'' (i0 x)) ?ps (take s ?qs)"
      "\<And>x. x \<notin> set (ds @ ?ps @ ?qs) \<Longrightarrow> w_next w1 x = w_next w x"
      using merge_loop_ok [OF less.prems(1-3) q(2,3) dist len] unfolding merged_def by blast
    let ?rest = "drop s ?qs"
    have ms1: "ms1 = merge_by (\<lambda>x. key w1 (i0 x)) ?ps (take s ?qs)" using m(7) later_refl by blast
    have xs: "?ps @ take s ?qs @ ?rest = xs" by (simp only: append_take_drop_id)
    have "distinct (ds @ (?ps @ take s ?qs) @ ?rest)" using less.prems(5) by (simp only: append.assoc append_take_drop_id)
    then have d: "distinct ((ds @ ms1) @ ?rest)"
      unfolding distinct_append ms1 distinct_merge_by set_append set_merge_by by blast
    have "set ms1 \<union> set ?rest = set (?ps @ take s ?qs @ ?rest)" unfolding ms1 set_merge_by set_append by (simp only: Un_assoc)
    then have sub: "set ms1 \<union> set ?rest = set xs" unfolding xs .
    have "0 < length xs" using False by simp
    then have "length ?rest < length xs" "Suc c + length ?rest < 2 ^ 30"
      using less.prems(6,8) unfolding length_drop by linarith+
    from less.hyps [OF this(1) m(2,4,5,6) d less.prems(6,7) this(2)] obtain list2 tail2 k w2 ms2 where r:
      "pass_loop cmp (int s) q1 list1 tail1 (int (Suc c)) w1 = Some (list2, tail2, int (Suc c + k), w2)"
      "ok w2" "later w1 w2" "w_info w2 = i0" "built (w_next w2) list2 tail2 ((ds @ ms1) @ ms2)"
      "\<And>w''. later w2 w'' \<Longrightarrow> ms2 = merge_pass (\<lambda>x. key w'' (i0 x)) s ?rest"
      "\<And>x. x \<notin> set ((ds @ ms1) @ ?rest) \<Longrightarrow> w_next w2 x = w_next w1 x" "k = 0 \<longleftrightarrow> ?rest = []" by blast
    have "i32 (int c + 1) = int (Suc c)" using less.prems(8) by (intro i32_succ) simp
    then have "pass_loop cmp (int s) p list tail (int c) w = Some (list2, tail2, int (c + Suc k), w2)"
      using p q(1) m(1) r(1) by (subst pass_loop.simps) (simp add: Let_def)
    moreover have "ms1 @ ms2 = merge_pass (\<lambda>x. key w'' (i0 x)) s xs" if "later w2 w''" for w''
      using m(7) [OF later_trans [OF r(3) that]] r(6) [OF that] False less.prems(6)
      by (subst merge_pass.simps) simp
    moreover have "w_next w2 x = w_next w x" if "x \<notin> set (ds @ xs)" for x
      using that r(7) [of x] m(8) [of x] sub by (auto dest: in_set_takeD in_set_dropD)
    ultimately show ?thesis
      using r(2-5,8) later_trans [OF m(3) r(3)] False
      by (intro exI [of _ list2] exI [of _ tail2] exI [of _ "Suc k"] exI [of _ w2] exI [of _ "ms1 @ ms2"]) auto
  qed
qed

lemma built_close: "built nx list tail ds \<Longrightarrow> distinct ds \<Longrightarrow> ds \<noteq> [] \<Longrightarrow> lseg (nx(tail := 0)) list ds 0"
proof -
  assume b: "built nx list tail ds" "distinct ds" "ds \<noteq> []"
  then obtain us where ds: "ds = us @ [tail]" by (metis append_butlast_last_id built_def)
  with b show ?thesis by (auto simp: built_def lseg_append)
qed

lemma sort_loop_ok:
  assumes "ok w" and "w_info w = i0" and "lseg (w_next w) p ys 0" and "xs \<noteq> []" and "length xs < 2 ^ 29"
    and "0 < s" and "s < 2 ^ 29" and "\<And>w''. later w w'' \<Longrightarrow> ys = runs (\<lambda>x. key w'' (i0 x)) s xs"
  shows "\<exists>q w'. sort_loop cmp (int s) p w = Some (q, w') \<and> ok w' \<and> later w w' \<and> w_info w' = i0
    \<and> lseg (w_next w') q (sort_key (\<lambda>x. key w' (i0 x)) xs) 0
    \<and> (\<forall>x. x \<notin> set xs \<longrightarrow> w_next w' x = w_next w x)"
  using assms
proof (induction "length xs - s" arbitrary: s p w ys rule: less_induct)
  case less
  let ?K = "\<lambda>w x. key w (i0 x)"
  have ys: "ys = runs (?K w) s xs" using less.prems(8) later_refl by blast
  then have ys': "length ys = length xs" "set ys = set xs" "distinct xs \<longleftrightarrow> distinct ys" using less.prems(4) by auto
  have b0: "built (w_next w) 0 0 []" and d0: "distinct ([] @ ys)"
    using lseg_distinct [OF less.prems(3)] by (simp_all add: built_def)
  have b: "s < 2 ^ 30" "0 + length ys < 2 ^ 30" using less.prems(5,7) ys' by simp_all
  obtain list tail k w1 ms where r: "pass_loop cmp (int s) p 0 0 (int 0) w = Some (list, tail, int (0 + k), w1)"
    "ok w1" "later w w1" "w_info w1 = i0" "built (w_next w1) list tail ([] @ ms)"
    "\<And>w''. later w1 w'' \<Longrightarrow> ms = merge_pass (?K w'') s ys"
    "\<And>x. x \<notin> set ([] @ ys) \<Longrightarrow> w_next w1 x = w_next w x" "k \<le> 1 \<longleftrightarrow> length ys \<le> s + s"
    using pass_loop_ok [OF less.prems(1,2) b0 less.prems(3) d0 less.prems(6) b] by blast
  have ms: "ms = runs (?K w'') (s + s) xs" if "later w1 w''" for w''
    using r(6) [OF that] less.prems(8) [OF later_trans [OF r(3) that]] less.prems(6) by (simp add: merge_pass_runs)
  let ?w2 = "set_next tail 0 w1"
  have m: "ms \<noteq> []" "set ms = set xs" "distinct ms" 
    using ms [OF later_refl] less.prems(4) ys'(3) d0 length_runs [of "?K w1" "s + s" xs] by auto
  then have l2: "lseg (w_next ?w2) list ms 0"
    using built_close [of "w_next w1" list tail ms] r(5) by simp
  have "tail \<in> set xs" using r(5) m by (auto simp: built_def simp flip: m(2))
  then have fr: "w_next ?w2 x = w_next w x" if "x \<notin> set xs" for x using that r(7) [of x] ys'(2) by auto
  have w2: "ok ?w2" "later w ?w2" "w_info ?w2 = i0" "\<And>w''. later ?w2 w'' \<longleftrightarrow> later w1 w''"
    using r(2,3,4) by (simp_all add: later_links ok_links)
  show ?case
  proof (cases "length xs \<le> s + s")
    case True
    then have "sort_loop cmp (int s) p w = Some (list, ?w2)"
      using r(1,8) ys'(1) by (subst sort_loop.simps) (simp add: Let_def)
    moreover have "ms = sort_key (?K ?w2) xs"
      using ms [of ?w2] True w2(4) later_refl by (metis runs_whole)
    ultimately show ?thesis using l2 fr w2 by (intro exI [of _ list] exI [of _ ?w2]) auto
  next
    case False
    have i: "i32 (int s * 2) = int (s + s)" using less.prems(7) by (subst i32_id) simp_all
    have step: "sort_loop cmp (int s) p w = sort_loop cmp (int (s + s)) list ?w2"
      using r(1,8) ys'(1) False i by (subst sort_loop.simps) (simp add: Let_def)
    have "length xs - (s + s) < length xs - s" "0 < s + s" "s + s < 2 ^ 29"
      using False less.prems(5,6) by linarith+
    from less.hyps [OF this(1) w2(1,3) l2 less.prems(4,5) this(2,3)] ms w2(4)
    obtain q w' where "sort_loop cmp (int (s + s)) list ?w2 = Some (q, w')" "ok w'" "later ?w2 w'" "w_info w' = i0"
      "lseg (w_next w') q (sort_key (?K w') xs) 0" "\<And>x. x \<notin> set xs \<Longrightarrow> w_next w' x = w_next ?w2 x" by blast
    then show ?thesis
      unfolding step using later_trans [OF w2(2)] fr by (intro exI [of _ q] exI [of _ w']) auto
  qed
qed

text \<open>The sort returns, and links the nodes in the order of the stable sort by their final rank.\<close>

lemma mergesort_ok:
  assumes "ok w" and "is_list w p xs" and "xs \<noteq> []" and "length xs < 2 ^ 29"
  shows "\<exists>q w'. core_list_mergesort cmp p w = Some (q, w') \<and> ok w' \<and> later w w' \<and> w_info w' = w_info w
    \<and> is_list w' q (sort_key (\<lambda>x. key w' (w_info w' x)) xs) \<and> (\<forall>x. x \<notin> set xs \<longrightarrow> w_next w' x = w_next w x)"
proof -
  have "xs = runs (\<lambda>x. key w'' (w_info w x)) 1 xs" for w'' by (simp only: runs_one)
  with sort_loop_ok [OF assms(1) refl assms(2-4), of 1] obtain q w' where
    "sort_loop cmp (int 1) p w = Some (q, w')" "ok w'" "later w w'" "w_info w' = w_info w"
    "lseg (w_next w') q (sort_key (\<lambda>x. key w' (w_info w x)) xs) 0" "\<forall>x. x \<notin> set xs \<longrightarrow> w_next w' x = w_next w x"
    by auto
  then show ?thesis
    unfolding core_list_mergesort_def by (intro exI [of _ q] exI [of _ w']) simp
qed

end

section \<open>The comparison functions\<close>

lemma regen_idem [simp]: "regen (regen d) = regen d"
proof -
  have m: "(0xff00 :: ee_s16) = NOT (mask 8)" "(0x00ff :: ee_s16) = mask 8" by (simp_all add: mask_eq_exp_minus_1)
  show ?thesis unfolding regen_def m by (rule bit_word_eqI) (auto simp: bit_simps)
qed

definition reindexed :: "world \<Rightarrow> world \<Rightarrow> bool" where
  "reindexed w w' \<longleftrightarrow> w_idx w' = w_idx w \<and> w_info w' = w_info w \<and> w_mem w' = w_mem w \<and> w_res w' = w_res w
     \<and> (\<forall>d. w_data16 w' d = w_data16 w d \<or> w_data16 w' d = regen (w_data16 w d))"

lemma reindexed_trans: "reindexed w1 w2 \<Longrightarrow> reindexed w2 w3 \<Longrightarrow> reindexed w1 w3"
  unfolding reindexed_def by (metis regen_idem)

interpretation by_idx: list_order "cmp_idx True" "\<lambda>w d. sint (w_idx w d)" "\<lambda>_. True" reindexed
proof
  show "reindexed w w" for w by (simp add: reindexed_def)
  show "\<exists>c w'. cmp_idx True a b w = Some (c, w') \<and> True \<and> reindexed w w' \<and> w_next w' = w_next w \<and> w_info w' = w_info w
      \<and> (\<forall>w''. reindexed w' w'' \<longrightarrow> (c \<le> 0) = (sint (w_idx w'' a) \<le> sint (w_idx w'' b)))" for a b w
    by (auto simp: cmp_idx_def Let_def reindexed_def)
  show "reindexed w1 w3" if "reindexed w1 w2" "reindexed w2 w3" for w1 w2 w3
    using that by (rule reindexed_trans)
qed (simp_all add: reindexed_def)

text \<open>
  \<open>cmp_complex\<close> runs the other benchmarks: it relies on their blocks being as \<open>core_init_state\<close> and
  \<open>core_init_matrix\<close> leave them, and keeps them so.  The steps it asks for are multiples of 17.
\<close>

definition bench_ready :: "world \<Rightarrow> bool" where
  "bench_ready w \<longleftrightarrow>
     (let r = w_res w; mat = r_mat r; p = r_memblock3 r; n = unat (r_size r);
          C = region (mp_C mat) (4 * (unat (mp_N mat) * unat (mp_N mat))) in
      mat_layout (mp_N mat) (mp_A mat) (mp_B mat) (mp_C mat) \<and> r_seed1 r = r_seed2 r
      \<and> unat p + n + 2 ^ 15 < 2 ^ 32 \<and> region p n \<inter> C = {}
      \<and> (\<forall>a \<in> region p n. w_mem w a \<noteq> 44 \<longrightarrow> w_mem w a XOR ucast (r_seed1 r) \<noteq> 44)
      \<and> (\<exists>a \<in> region p n. w_mem w a = 0 \<and> (unat a - unat p) mod 17 \<noteq> 0))"

definition dtype_of :: "ee_s16 \<Rightarrow> ee_s16" where
  "dtype_of data = (let d = drop_bit 3 data AND 0xf; d = d OR push_bit 4 d in if sint d < 0x22 then 0x22 else d)"

lemma and15_less: "unat (w AND 0xf) < 16" for w :: ee_s16
proof -
  have "w AND 0xf = take_bit 4 w" by (simp add: take_bit_eq_mask mask_eq_exp_minus_1)
  then show ?thesis using take_bit_nat_less_exp [of 4 "unat w"] by (simp add: unsigned_take_bit_eq)
qed

lemma dtype_of_cases:
  "dtype_of data \<in> {0x22, 0x33, 0x44, 0x55, 0x66, 0x77, 0x88, 0x99, 0xaa, 0xbb, 0xcc, 0xdd, 0xee, 0xff}"
proof -
  let ?y = "drop_bit 3 data AND 0xf"
  have "unat ?y < 16" by (rule and15_less)
  then have "unat ?y \<in> {0, 1, 2, 3, 4, 5, 6, 7, 8, 9, 10, 11, 12, 13, 14, 15}" by (simp; arith)
  moreover have "?y = of_nat (unat ?y)" by simp
  ultimately show ?thesis unfolding dtype_of_def Let_def
    by (elim insertE emptyE) (simp_all only: of_nat_numeral of_nat_0 of_nat_1, simp_all)
qed

lemma dtype_step: "\<exists>k. scast (dtype_of data) = (of_nat k :: addr) \<and> 0 < k \<and> k < 2 ^ 15 \<and> 17 dvd k"
proof -
  have "scast x = (of_nat (unat x) :: addr) \<and> 0 < unat x \<and> unat x < 2 ^ 15 \<and> 17 dvd unat x"
    if "x \<in> {0x22, 0x33, 0x44, 0x55, 0x66, 0x77, 0x88, 0x99, 0xaa, 0xbb, 0xcc, 0xdd, 0xee, 0xff}" for x :: ee_s16
    using that by (elim insertE emptyE) simp_all
  then show ?thesis using dtype_of_cases by blast
qed

lemma bench_state_ready:
  assumes "bench_ready w"
  shows "\<exists>crc'. core_bench_state (w_mem w) (r_size (w_res w)) (r_memblock3 (w_res w)) (r_seed1 (w_res w)) (r_seed2 (w_res w))
      (dtype_of data) crc = Some (w_mem w, crc')"
proof -
  let ?r = "w_res w"
  let ?p = "r_memblock3 ?r" and ?n = "unat (r_size ?r)"
  have r: "r_seed1 ?r = r_seed2 ?r" "unat ?p + ?n + 2 ^ 15 < 2 ^ 32"
    "\<And>a. a \<in> region ?p ?n \<Longrightarrow> w_mem w a \<noteq> 44 \<Longrightarrow> w_mem w a XOR ucast (r_seed1 ?r) \<noteq> 44"
    using assms unfolding bench_ready_def Let_def by blast+
  obtain a where a: "a \<in> region ?p ?n" "w_mem w a = 0" "(unat a - unat ?p) mod 17 \<noteq> 0"
    using assms unfolding bench_ready_def Let_def by blast
  obtain k where k: "scast (dtype_of data) = (of_nat k :: addr)" "0 < k" "k < 2 ^ 15" "17 dvd k"
    using dtype_step by blast
  have e: "unat (?p + r_size ?r) = unat ?p + ?n" using r(2) by (simp add: unat_word_ariths)
  then have bound: "unat (?p + r_size ?r) + k < 2 ^ 32" using r(2) k(3) by simp
  have "x \<in> region ?p ?n" if "hit ?p (?p + r_size ?r) k x" for x
  proof -
    have "unat (x - ?p) = unat x - unat ?p" using that by (simp add: hit_def unat_sub_if_size word_le_nat_alt)
    then show ?thesis using that e by (auto simp: region_eq_uint [OF less_imp_le [OF unat32_less]] hit_def word_less_nat_alt word_le_nat_alt)
  qed
  then have "w_mem w x XOR ucast (r_seed1 ?r) \<noteq> 44" if "hit ?p (?p + r_size ?r) k x" "w_mem w x \<noteq> 44" for x
    using that r(3) by blast
  moreover have "\<not> hit ?p (?p + r_size ?r) k a"
    using a(3) k(4) by (auto simp: hit_def dest: dvd_trans simp: mod_eq_0_iff_dvd)
  ultimately have "\<exists>crc'. core_bench_state (w_mem w) (r_size ?r) ?p (r_seed1 ?r) (r_seed1 ?r) (dtype_of data) crc = Some (w_mem w, crc')"
    using a(2) by (intro bench_state_restores_block [OF k(1,2) bound]) blast+
  then show ?thesis unfolding r(1) by simp
qed

lemma bench_matrix_ready:
  assumes "bench_ready w" and "core_bench_matrix (w_mem w) (r_mat (w_res w)) v crc = (m', crc')"
  shows "bench_ready (w\<lparr>w_mem := m'\<rparr>)"
proof -
  let ?r = "w_res w"
  let ?mat = "r_mat ?r"
  let ?C = "region (mp_C ?mat) (4 * (unat (mp_N ?mat) * unat (mp_N ?mat)))" and ?B = "region (r_memblock3 ?r) (unat (r_size ?r))"
  have l: "mat_layout (mp_N ?mat) (mp_A ?mat) (mp_B ?mat) (mp_C ?mat)" "?B \<inter> ?C = {}"
    using assms(1) unfolding bench_ready_def Let_def by blast+
  have "agree_off ?C m' (w_mem w)"
    using matrix_test_spec [OF l(1), of "w_mem w" v] assms(2)
    by (simp add: core_bench_matrix_def Let_def case_prod_unfold)
  then have "m' a = w_mem w a" if "a \<in> ?B" for a using that l(2) by (auto simp: agree_off_def)
  then show ?thesis using assms(1) unfolding bench_ready_def Let_def by auto
qed

lemma bench_ready_cong: "w_mem w' = w_mem w \<Longrightarrow> w_res w' = w_res w \<Longrightarrow> bench_ready w' = bench_ready w"
  by (simp only: bench_ready_def)

lemma bench_ready_res:
  "bench_ready (w\<lparr>w_res := (w_res w)\<lparr>r_crcstate := x\<rparr>\<rparr>) = bench_ready w"
  "bench_ready (w\<lparr>w_res := (w_res w)\<lparr>r_crcmatrix := x\<rparr>\<rparr>) = bench_ready w"
  "bench_ready (w\<lparr>w_res := (w_res w)\<lparr>r_crc := x\<rparr>\<rparr>) = bench_ready w"
  "bench_ready (w\<lparr>w_next := nx\<rparr>) = bench_ready w"
  "bench_ready (w\<lparr>w_data16 := d\<rparr>) = bench_ready w"
  by (simp_all add: bench_ready_def Let_def)

text \<open>Of the results, only the checksums change.\<close>

definition same_job :: "core_results \<Rightarrow> core_results \<Rightarrow> bool" where
  "same_job r r' \<longleftrightarrow> r'\<lparr>r_crc := 0, r_crclist := 0, r_crcmatrix := 0, r_crcstate := 0\<rparr>
     = r\<lparr>r_crc := 0, r_crclist := 0, r_crcmatrix := 0, r_crcstate := 0\<rparr>"

lemma same_job_upd [simp]:
  "same_job r r" "same_job r (r\<lparr>r_crcstate := x\<rparr>)" "same_job r (r\<lparr>r_crcmatrix := x\<rparr>)" "same_job r (r'\<lparr>r_crc := x\<rparr>) \<longleftrightarrow> same_job r r'"
  by (simp_all add: same_job_def)

lemma same_job_fields: "same_job r r' \<Longrightarrow> r_list r' = r_list r \<and> r_seed3 r' = r_seed3 r \<and> r_iterations r' = r_iterations r
    \<and> r_memblock0 r' = r_memblock0 r"
  by (cases r; cases r') (simp add: same_job_def)

lemma calc_switch_ok:
  assumes "bench_ready w"
  shows "\<exists>v w'. calc_switch data w = Some (v, w') \<and> bench_ready w' \<and> w_next w' = w_next w \<and> w_info w' = w_info w
    \<and> w_data16 w' = w_data16 w \<and> w_idx w' = w_idx w \<and> same_job (w_res w) (w_res w')"
proof -
  obtain crc1 where s: "core_bench_state (w_mem w) (r_size (w_res w)) (r_memblock3 (w_res w)) (r_seed1 (w_res w)) (r_seed2 (w_res w))
      (dtype_of data) (r_crc (w_res w)) = Some (w_mem w, crc1)"
    using bench_state_ready [OF assms] by blast
  let ?d = "(drop_bit 3 data AND 0xf) OR push_bit 4 (drop_bit 3 data AND 0xf)"
  obtain m2 crc2 where m: "core_bench_matrix (w_mem w) (r_mat (w_res w)) ?d (r_crc (w_res w)) = (m2, crc2)" by fastforce
  note ready = bench_matrix_ready [OF assms m]
  show ?thesis
    using s m assms ready unfolding dtype_of_def Let_def calc_switch_def
    by (simp add: bench_ready_res bench_ready_res(2) [where w = "w\<lparr>w_mem := m2\<rparr>", simplified])
qed

text \<open>A cached value stays; the index, the links to the data and the backup of the data in the upper byte stay as well.\<close>

definition settled :: "world \<Rightarrow> world \<Rightarrow> bool" where
  "settled w w' \<longleftrightarrow> w_info w' = w_info w \<and> w_idx w' = w_idx w \<and> same_job (w_res w) (w_res w')
     \<and> (\<forall>d. (bit (w_data16 w d) 7 \<longrightarrow> w_data16 w' d = w_data16 w d) \<and> w_data16 w' d AND 0xff00 = w_data16 w d AND 0xff00)"

lemma cache_word:
  fixes data v :: ee_s16
  defines "nd \<equiv> (data AND 0xff00) OR 0x0080 OR (v AND 0x007f)"
  shows "bit nd 7" "nd AND 0x007f = v AND 0x007f" "nd AND 0xff00 = data AND 0xff00"
proof -
  have m: "(0xff00 :: ee_s16) = NOT (mask 8)" "(0x007f :: ee_s16) = mask 7" "(0x0080 :: ee_s16) = push_bit 7 1"
    by (simp_all add: mask_eq_exp_minus_1)
  show "bit nd 7" unfolding nd_def m by (simp only: bit_or_iff bit_push_bit_iff) simp
  show "nd AND 0x007f = v AND 0x007f" "nd AND 0xff00 = data AND 0xff00"
    unfolding nd_def m by (auto intro!: bit_word_eqI simp: bit_simps bit_1_iff simp del: push_bit_of_1)
qed

lemma optype_bit: "drop_bit 7 data AND 1 \<noteq> 0 \<longleftrightarrow> bit data 7" for data :: ee_s16
  by (simp add: and_one_eq bit_iff_odd_drop_bit mod_2_eq_odd)

lemma settled_refl: "settled w w"
  by (simp add: settled_def)

lemma settled_trans: "settled w1 w2 \<Longrightarrow> settled w2 w3 \<Longrightarrow> settled w1 w3"
  unfolding settled_def by (metis same_job_def)

lemma calc_func_ok:
  assumes "bench_ready w"
  shows "\<exists>v w'. calc_func d w = Some (v, w') \<and> bench_ready w' \<and> settled w w' \<and> w_next w' = w_next w
    \<and> bit (w_data16 w' d) 7 \<and> v = w_data16 w' d AND 0x007f"
proof (cases "bit (w_data16 w d) 7")
  case True
  then show ?thesis using assms settled_refl by (simp add: calc_func_def Let_def optype_bit [unfolded neq_iff] optype_bit)
next
  case False
  obtain v w1 where s: "calc_switch (w_data16 w d) w = Some (v, w1)" "bench_ready w1" "w_next w1 = w_next w"
    "w_info w1 = w_info w" "w_data16 w1 = w_data16 w" "w_idx w1 = w_idx w" "same_job (w_res w) (w_res w1)"
    using calc_switch_ok [OF assms] by blast
  let ?nd = "(w_data16 w d AND 0xff00) OR 0x0080 OR (v AND 0x007f)"
  let ?w1 = "w1\<lparr>w_res := (w_res w1)\<lparr>r_crc := crcu16 v (r_crc (w_res w1))\<rparr>\<rparr>"
  let ?w2 = "?w1\<lparr>w_data16 := (w_data16 w)(d := ?nd)\<rparr>"
  have "\<not> (drop_bit 7 (w_data16 w d) AND 1 \<noteq> 0)" using False optype_bit by blast
  then have "calc_func d w = Some (v AND 0x007f, ?w2)"
    using s by (simp only: calc_func_def Let_def if_not_P if_False option.case prod.case) simp
  moreover have "bench_ready ?w2" using s(2) by (simp only: bench_ready_res)
  moreover have "settled w ?w2" using s False cache_word(3) [of "w_data16 w d" v] by (auto simp: settled_def)
  ultimately show ?thesis
    using s(3) cache_word(1,2) [of "w_data16 w d" v] by (intro exI [of _ "v AND 0x007f"] exI [of _ ?w2]) simp
qed

interpretation by_value: list_order cmp_complex "\<lambda>w d. sint (w_data16 w d AND 0x007f)" bench_ready settled
proof
  show "settled w w" for w by (rule settled_refl)
  show "settled w1 w3" if "settled w1 w2" "settled w2 w3" for w1 w2 w3 using that by (rule settled_trans)
  show "\<exists>c w'. cmp_complex a b w = Some (c, w') \<and> bench_ready w' \<and> settled w w' \<and> w_next w' = w_next w \<and> w_info w' = w_info w
      \<and> (\<forall>w''. settled w' w'' \<longrightarrow> (c \<le> 0) = (sint (w_data16 w'' a AND 0x007f) \<le> sint (w_data16 w'' b AND 0x007f)))"
    if ready: "bench_ready w" for a b w
  proof -
    obtain v1 w1 where a: "calc_func a w = Some (v1, w1)" "bench_ready w1" "settled w w1" "w_next w1 = w_next w"
      "bit (w_data16 w1 a) 7" "v1 = w_data16 w1 a AND 0x007f" using calc_func_ok [OF ready] by blast
    obtain v2 w2 where b: "calc_func b w1 = Some (v2, w2)" "bench_ready w2" "settled w1 w2" "w_next w2 = w_next w1"
      "bit (w_data16 w2 b) 7" "v2 = w_data16 w2 b AND 0x007f" using calc_func_ok [OF a(2)] by blast
    have "w_data16 w'' a = w_data16 w1 a" "w_data16 w'' b = w_data16 w2 b" if "settled w2 w''" for w''
      using that b(3,5) a(5) unfolding settled_def by metis+
    then have "sint v1 - sint v2 \<le> 0 \<longleftrightarrow> sint (w_data16 w'' a AND 0x007f) \<le> sint (w_data16 w'' b AND 0x007f)"
      if "settled w2 w''" for w'' using that a(6) b(6) by simp
    moreover have "cmp_complex a b w = Some (sint v1 - sint v2, w2)" by (simp add: cmp_complex_def a(1) b(1))
    moreover have "settled w w2" "w_next w2 = w_next w" "w_info w2 = w_info w"
      using settled_trans [OF a(3) b(3)] a(4) b(4) by (auto simp: settled_def)
    ultimately show ?thesis using b(2) by blast
  qed
qed (simp_all add: settled_def bench_ready_res)

text \<open>Sorting by index with \<open>cmp_idx\<close> returns for every list and links its nodes in the order of the stable sort by
  index; it changes no index, no other node and no other memory, and the data of an item at most by
  regenerating it from its backup.\<close>

lemma mergesort_by_idx:
  assumes "is_list w p xs" and "xs \<noteq> []" and "length xs < 2 ^ 29"
  shows "\<exists>q w'. core_list_mergesort (cmp_idx True) p w = Some (q, w')
    \<and> is_list w' q (sort_key (\<lambda>x. sint (w_idx w (w_info w x))) xs)
    \<and> reindexed w w' \<and> (\<forall>x. x \<notin> set xs \<longrightarrow> w_next w' x = w_next w x)"
proof -
  from by_idx.mergesort_ok [OF _ assms] obtain q w' where
    *: "core_list_mergesort (cmp_idx True) p w = Some (q, w')" "reindexed w w'"
    "is_list w' q (sort_key (\<lambda>x. sint (w_idx w' (w_info w' x))) xs)" "\<forall>x. x \<notin> set xs \<longrightarrow> w_next w' x = w_next w x"
    by blast
  then have "w_idx w' = w_idx w" "w_info w' = w_info w" by (auto simp: reindexed_def)
  with * show ?thesis by auto
qed

definition sort_sample :: world where
  "sort_sample = sample_world\<lparr>w_idx := (\<lambda>_. 0)(0x110 := 5, 0x118 := 3)\<rparr>"

lemma sample_list: "is_list sort_sample 8 [8, 16, 24]" "is_list sample_world 8 [8, 16, 24]"
  by (simp_all add: sort_sample_def sample_world_def)

lemma mergesort_by_idx_witness:
  "\<exists>q w'. core_list_mergesort (cmp_idx True) 8 sort_sample = Some (q, w') \<and> is_list w' q [8, 24, 16]"
  using mergesort_by_idx [OF sample_list(1)] by (auto simp: sort_sample_def sample_world_def)

text \<open>C26 Sorting by value with \<open>cmp_complex\<close>, which runs the state and the matrix benchmark from inside its
  comparisons, returns when their blocks are ready and leaves them ready; the nodes are linked in the order of the stable
  sort by the values then cached, and indices and the backups of the data are as before.\<close>

theorem mergesort_by_value:
  assumes "bench_ready w" and "is_list w p xs" and "xs \<noteq> []" and "length xs < 2 ^ 29"
  shows "\<exists>q w'. core_list_mergesort cmp_complex p w = Some (q, w') \<and> bench_ready w'
    \<and> is_list w' q (sort_key (\<lambda>x. sint (w_data16 w' (w_info w' x) AND 0x007f)) xs)
    \<and> settled w w' \<and> (\<forall>x. x \<notin> set xs \<longrightarrow> w_next w' x = w_next w x)"
  using by_value.mergesort_ok [OF assms] by blast

lemma sample_ready: "bench_ready sample_world"
proof -
  have "(1 :: addr) \<in> region 0 666" using in_regionI [of 1 666 0] by simp
  then show ?thesis
    unfolding bench_ready_def Let_def
    by (auto simp: sample_world_def sample_results_def mat_layout_def region_0 intro!: bexI [of _ 1])
qed

theorem mergesort_by_value_witness:
  "\<exists>q w'. core_list_mergesort cmp_complex 8 sample_world = Some (q, w') \<and> bench_ready w'
    \<and> is_list w' q (sort_key (\<lambda>x. sint (w_data16 w' (w_info w' x) AND 0x007f)) [8, 16, 24])"
proof -
  have "[8, 16, 24] \<noteq> ([] :: addr list)" "length [8, 16, 24 :: addr] < 2 ^ 29" by simp_all
  from mergesort_by_value [OF sample_ready sample_list(2) this] show ?thesis by blast
qed

end
