(* ===== verification/Core_Bench.thy ===== *)
theory Core_Bench
  imports Core_Sort
begin

text \<open>
  The list benchmark of CoreMark as a whole (\<open>core_list_init\<close> and \<open>core_bench_list\<close> of \<open>core_list_join.c\<close>) and the
  benchmark loop \<open>iterate\<close> of \<open>coremark.c\<close>.  Each iteration reverses and reorders the list, sorts it by
  computed values, takes an item out and puts it back, and sorts it by index; the main result is that this brings
  the list back to where it started, so that all iterations do the same work.
\<close>

section \<open>Definitions\<close>

text \<open>\<open>core_list_init\<close>: the head, the fake tail, the items, and their indices.\<close>

definition init_head :: "addr \<Rightarrow> addr \<Rightarrow> world \<Rightarrow> world" where
  "init_head list datablock w =
     (let w = set_next list NULL w;
          w = set_info list datablock w;
          w = set_idx (w_info w list) 0 w;
          w = set_data16 (w_info w list) 0x8080 w
      in w)"

function init_items ::
  "ee_u32 \<Rightarrow> ee_u32 \<Rightarrow> ee_s16 \<Rightarrow> addr \<Rightarrow> ee_s16 \<Rightarrow> addr \<Rightarrow> addr \<Rightarrow> addr \<Rightarrow> addr \<Rightarrow> world \<Rightarrow> world" where
  "init_items i sz seed list idx memblock datablock memblock_end datablock_end w =
     (if i < sz then
        let datpat = (ucast ((scast seed :: 32 word) XOR i) :: ee_u16) AND 0xf;
            dat = push_bit 3 datpat OR ucast (i AND 0x7);
            data16 = push_bit 8 dat OR dat;
            (newitem, memblock, datablock, w) =
              core_list_insert_new list (data16, idx) memblock datablock memblock_end datablock_end w
        in init_items (i + 1) sz seed list idx memblock datablock memblock_end datablock_end w
      else w)"
  by pat_completeness auto
termination
  by (relation "measure (\<lambda>(i, sz, _). unat sz - unat i)") (auto simp: unat_succ_less word_less_nat_alt)

partial_function (option) init_index :: "addr \<Rightarrow> ee_u32 \<Rightarrow> ee_u32 \<Rightarrow> ee_s16 \<Rightarrow> world \<Rightarrow> world option" where
  "init_index finder i sz seed w =
     (if w_next w finder \<noteq> NULL then
        let (i, w) =
          (if i < sz div 5 then (i + 1, set_idx (w_info w finder) (ucast i) w)
           else let pat = (ucast (i XOR scast seed) :: ee_u16);
                    i = i + 1
                in (i, set_idx (w_info w finder) (0x3fff AND (push_bit 8 (ucast (i AND 0x07)) OR pat)) w))
        in init_index (w_next w finder) i sz seed w
      else Some w)"

definition core_list_init :: "ee_u32 \<Rightarrow> addr \<Rightarrow> ee_s16 \<Rightarrow> world \<Rightarrow> (addr \<times> world) option" where
  "core_list_init blksize memblock seed w =
     (let per_item = 16 + 4;
          sz = (blksize div per_item) - 2;
          memblock_end = memblock + 8 * sz;
          datablock = memblock_end;
          datablock_end = datablock + 4 * sz;
          list = memblock;
          w = init_head list datablock w;
          memblock = memblock + 8;
          datablock = datablock + 4;
          idx = 0x7fff;
          (newitem, memblock, datablock, w) =
            core_list_insert_new list (0xffff, idx) memblock datablock memblock_end datablock_end w;
          w = init_items 0 sz seed list idx memblock datablock memblock_end datablock_end w;
          finder = w_next w list
      in case init_index finder 1 sz seed w of
           None \<Rightarrow> None
         | Some w \<Rightarrow> core_list_mergesort (cmp_idx True) list w)"

text \<open>\<open>core_bench_list\<close>: the search loop, the walks that fold the data of the head into the CRC, and the whole.\<close>

definition move_front :: "addr \<Rightarrow> addr \<Rightarrow> world \<Rightarrow> world" where
  "move_front list this_find w =
     (if w_next w this_find \<noteq> NULL then
        let finder = w_next w this_find;
            w = set_next this_find (w_next w finder) w;
            w = set_next finder (w_next w list) w;
            w = set_next list finder w
        in w
      else w)"

partial_function (option) find_loop ::
  "ee_s16 \<Rightarrow> ee_s16 \<Rightarrow> ee_s16 \<times> ee_s16 \<Rightarrow> addr \<Rightarrow> ee_u16 \<Rightarrow> ee_u16 \<Rightarrow> ee_u16 \<Rightarrow> world
    \<Rightarrow> (addr \<times> ee_u16 \<times> ee_u16 \<times> ee_u16 \<times> (ee_s16 \<times> ee_s16) \<times> world) option" where
  "find_loop i find_num info list retval found missed w =
     (if sint i < sint find_num then
        let info = (i AND 0xff, snd info) in
        case core_list_find list info w of
          None \<Rightarrow> None
        | Some this_find \<Rightarrow>
            case core_list_reverse list w of
              None \<Rightarrow> None
            | Some (list, w) \<Rightarrow>
                let (retval, found, missed, w) =
                  (if this_find = NULL
                   then (retval + (drop_bit 8 (w_data16 w (w_info w (w_next w list))) AND 1), found, missed + 1, w)
                   else ((if w_data16 w (w_info w this_find) AND 0x1 \<noteq> 0
                          then retval + (drop_bit 9 (w_data16 w (w_info w this_find)) AND 1) else retval),
                         found + 1, missed, move_front list this_find w));
                    info = (if sint (snd info) \<ge> 0 then (fst info, snd info + 1) else info)
                in find_loop (i + 1) find_num info list retval found missed w
      else Some (list, retval, found, missed, info, w))"

partial_function (option) crc_walk :: "addr \<Rightarrow> addr \<Rightarrow> ee_u16 \<Rightarrow> world \<Rightarrow> ee_u16 option" where
  "crc_walk finder list retval w =
     (if finder \<noteq> NULL then crc_walk (w_next w finder) list (crc16 (w_data16 w (w_info w list)) retval) w
      else Some retval)"

text \<open>The field \<open>data16\<close> of the local \<open>info\<close> is not initialised when nothing is searched; \<open>u\<close> is what it holds then.\<close>

definition core_bench_list :: "ee_s16 \<Rightarrow> ee_s16 \<Rightarrow> world \<Rightarrow> (ee_u16 \<times> world) option" where
  "core_bench_list u finder_idx w =
     (let list = r_list (w_res w);
          find_num = r_seed3 (w_res w);
          info = (u, finder_idx)
      in case find_loop 0 find_num info list 0 0 0 w of
           None \<Rightarrow> None
         | Some (list, retval, found, missed, info, w) \<Rightarrow>
             let retval = retval + (found * 4 - missed) in
             case (if sint finder_idx > 0 then core_list_mergesort cmp_complex list w else Some (list, w)) of
               None \<Rightarrow> None
             | Some (list, w) \<Rightarrow>
                 let (remover, w) = core_list_remove (w_next w list) w in
                 case core_list_find list info w of
                   None \<Rightarrow> None
                 | Some finder \<Rightarrow>
                     let finder = (if finder = NULL then w_next w list else finder) in
                     case crc_walk finder list retval w of
                       None \<Rightarrow> None
                     | Some retval \<Rightarrow>
                         let (remover, w) = core_list_undo_remove remover (w_next w list) w in
                         case core_list_mergesort (cmp_idx True) list w of
                           None \<Rightarrow> None
                         | Some (list, w) \<Rightarrow>
                             case crc_walk (w_next w list) list retval w of
                               None \<Rightarrow> None
                             | Some retval \<Rightarrow> Some (retval, w))"

text \<open>\<open>iterate\<close>.\<close>

partial_function (option) iterate_loop :: "ee_s16 \<Rightarrow> ee_u32 \<Rightarrow> ee_u32 \<Rightarrow> world \<Rightarrow> world option" where
  "iterate_loop u i iterations w =
     (if i < iterations then
        case core_bench_list u 1 w of
          None \<Rightarrow> None
        | Some (crc, w) \<Rightarrow>
            let w = upd_res (\<lambda>r. r\<lparr>r_crc := crcu16 crc (r_crc r)\<rparr>) w in
            case core_bench_list u (- 1) w of
              None \<Rightarrow> None
            | Some (crc, w) \<Rightarrow>
                let w = upd_res (\<lambda>r. r\<lparr>r_crc := crcu16 crc (r_crc r)\<rparr>) w;
                    w = (if i = 0 then upd_res (\<lambda>r. r\<lparr>r_crclist := r_crc r\<rparr>) w else w)
                in iterate_loop u (i + 1) iterations w
      else Some w)"

definition iterate :: "ee_s16 \<Rightarrow> world \<Rightarrow> world option" where
  "iterate u w =
     (let iterations = r_iterations (w_res w);
          w = upd_res (\<lambda>r. r\<lparr>r_crc := 0, r_crclist := 0, r_crcmatrix := 0, r_crcstate := 0\<rparr>) w
      in iterate_loop u 0 iterations w)"

declare init_items.simps [simp del]

section \<open>The search loop\<close>

text \<open>Only the links change, and the nodes stay the same.\<close>

definition relinked :: "world \<Rightarrow> addr \<Rightarrow> addr list \<Rightarrow> world \<Rightarrow> bool" where
  "relinked w list xs w' \<longleftrightarrow> (\<exists>nx ys. w' = w\<lparr>w_next := nx\<rparr> \<and> lseg nx list ys 0 \<and> mset ys = mset xs
     \<and> (\<forall>x. x \<notin> set xs \<longrightarrow> nx x = w_next w x))"

lemma move_front_ok:
  assumes "is_list w list ys" and "x \<in> set ys"
  shows "relinked w list ys (move_front list x w)"
proof (cases "w_next w x = 0")
  case True
  then have "move_front list x w = w\<lparr>w_next := w_next w\<rparr>" by (simp add: move_front_def)
  then show ?thesis using assms unfolding relinked_def by blast
next
  case False
  obtain us vs where ys: "ys = us @ x # vs" using assms(2) by (meson split_list)
  then have "lseg (w_next w) (w_next w x) vs 0" using assms(1) by (auto simp: lseg_append)
  then obtain f zs where vs: "vs = f # zs" "w_next w x = f" "lseg (w_next w) (w_next w f) zs 0"
    using False by (cases vs) auto
  have d: "distinct (us @ x # f # zs)" using lseg_distinct [OF assms(1)] ys vs by simp
  let ?nx = "((w_next w)(x := w_next w f, f := ((w_next w)(x := w_next w f)) list, list := f))"
  have mv: "move_front list x w = w\<lparr>w_next := ?nx\<rparr>" using False vs by (simp add: move_front_def Let_def)
  show ?thesis
  proof (cases us)
    case Nil
    then have "lseg ?nx list (x # f # zs) 0" using assms(1) ys vs d by auto
    then show ?thesis unfolding mv relinked_def using ys vs Nil assms(1) by (intro exI [of _ ?nx] exI [of _ ys]) auto
  next
    case (Cons h us')
    have "lseg ?nx list (h # f # us' @ x # zs) 0" using assms(1) ys vs d Cons by (auto simp: lseg_append)
    then show ?thesis unfolding mv relinked_def using ys vs Cons assms(1)
      by (intro exI [of _ ?nx] exI [of _ "h # f # us' @ x # zs"]) auto
  qed
qed

lemma relinked_refl: "is_list w list xs \<Longrightarrow> relinked w list xs w"
  unfolding relinked_def by (intro exI [of _ "w_next w"] exI [of _ xs]) simp

lemma relinked_trans:
  assumes "w' = w\<lparr>w_next := nx\<rparr>" and "mset ys = mset xs" and "\<And>x. x \<notin> set xs \<Longrightarrow> nx x = w_next w x"
    and "relinked w' list ys w''"
  shows "relinked w list xs w''"
proof -
  obtain nx' zs where *: "w'' = w'\<lparr>w_next := nx'\<rparr>" "lseg nx' list zs 0" "mset zs = mset ys"
    "\<And>x. x \<notin> set ys \<Longrightarrow> nx' x = w_next w' x" using assms(4) unfolding relinked_def by blast
  have "set ys = set xs" using assms(2) by (rule mset_eq_setD)
  then show ?thesis
    unfolding relinked_def using * assms(1-3) by (intro exI [of _ nx'] exI [of _ zs]) simp
qed

lemma first_node_mem: "first_node P xs \<noteq> 0 \<Longrightarrow> first_node P xs \<in> set xs"
  by (induction xs) (auto simp: first_node_def split: if_splits)

lemma core_list_find_node:
  assumes "is_list w p xs"
  shows "\<exists>x. core_list_find p info w = Some x \<and> (x \<noteq> 0 \<longrightarrow> x \<in> set xs)"
  using core_list_find_ok [OF assms, of "fst info" "snd info"] first_node_mem by simp

lemma sint16_succ: "sint i < sint j \<Longrightarrow> sint (i + 1) = sint i + 1" for i j :: ee_s16
proof -
  assume "sint i < sint j"
  then have "sint i + 1 < 2 ^ 15" "- (2 ^ 15) \<le> sint i + 1" using sint_less [of j] sint_ge [of i] by simp_all
  then show ?thesis by (simp add: sint_word_ariths signed_take_bit_int_eq_self)
qed

lemma find_loop_step:
  assumes "is_list w list xs" and "xs \<noteq> []" and "sint i < sint find_num"
  shows "\<exists>list' r' f' m' info' w'. find_loop i find_num info list r f m w = find_loop (i + 1) find_num info' list' r' f' m' w'
    \<and> relinked w list' xs w'"
proof -
  let ?info = "(i AND 0xff, snd info)"
  obtain x where x: "core_list_find list ?info w = Some x" "x \<noteq> 0 \<Longrightarrow> x \<in> set xs"
    using core_list_find_node [OF assms(1)] by blast
  obtain r1 nx where rv: "core_list_reverse list w = Some (r1, w\<lparr>w_next := nx\<rparr>)" "lseg nx r1 (rev xs) 0"
    "\<And>x. x \<notin> set xs \<Longrightarrow> nx x = w_next w x" using core_list_reverse_ok [OF assms(1)] by blast
  let ?w1 = "w\<lparr>w_next := nx\<rparr>"
  let ?info' = "if sint (snd info) \<ge> 0 then (i AND 0xff, snd info + 1) else ?info"
  have l1: "is_list ?w1 r1 (rev xs)" using rv(2) by simp
  have tr: "relinked w l xs w2" if "relinked ?w1 l (rev xs) w2" for l w2
  proof (rule relinked_trans [where nx = nx])
    show "mset (rev xs) = mset xs" by simp
  qed (use that rv(3) in blast)+
  show ?thesis
  proof (cases "x = 0")
    case True
    have "relinked w r1 xs ?w1" by (rule tr [OF relinked_refl [OF l1]])
    moreover have "\<exists>r' f' m'. find_loop i find_num info list r f m w = find_loop (i + 1) find_num ?info' r1 r' f' m' ?w1"
      using assms(3) x(1) rv(1) True by (subst find_loop.simps) (simp add: Let_def, blast)
    ultimately show ?thesis by blast
  next
    case False
    have "relinked ?w1 r1 (rev xs) (move_front r1 x ?w1)" using move_front_ok [OF l1] x(2) [OF False] by simp
    then have "relinked w r1 xs (move_front r1 x ?w1)" by (rule tr)
    moreover have "\<exists>r' f' m'. find_loop i find_num info list r f m w = find_loop (i + 1) find_num ?info' r1 r' f' m' (move_front r1 x ?w1)"
      using assms(3) x(1) rv(1) False by (subst find_loop.simps) (simp add: Let_def, blast)
    ultimately show ?thesis by blast
  qed
qed

lemma find_loop_ok:
  assumes "is_list w list xs" and "xs \<noteq> []"
  shows "\<exists>list' r' f' m' info' w'. find_loop i find_num info list r f m w = Some (list', r', f', m', info', w')
    \<and> relinked w list' xs w'"
  using assms
proof (induction "nat (sint find_num - sint i)" arbitrary: i info list r f m w xs rule: less_induct)
  case less
  show ?case
  proof (cases "sint i < sint find_num")
    case False
    then have "find_loop i find_num info list r f m w = Some (list, r, f, m, info, w)" by (subst find_loop.simps) simp
    then show ?thesis using relinked_refl [OF less.prems(1)] by blast
  next
    case True
    obtain list' r' f' m' info' w' where s: "find_loop i find_num info list r f m w = find_loop (i + 1) find_num info' list' r' f' m' w'"
      "relinked w list' xs w'" using find_loop_step [OF less.prems True] by blast
    then obtain nx ys where y: "w' = w\<lparr>w_next := nx\<rparr>" "is_list w' list' ys" "mset ys = mset xs"
      "\<And>x. x \<notin> set xs \<Longrightarrow> nx x = w_next w x" unfolding relinked_def by auto
    have "ys \<noteq> []" using y(3) less.prems(2) by auto
    have "nat (sint find_num - sint (i + 1)) < nat (sint find_num - sint i)" using True sint16_succ [OF True] by simp
    from less.hyps [OF this y(2) \<open>ys \<noteq> []\<close>] obtain l2 r2 f2 m2 i2 w2
      where "find_loop (i + 1) find_num info' list' r' f' m' w' = Some (l2, r2, f2, m2, i2, w2)" "relinked w' l2 ys w2" by blast
    with s(1) relinked_trans [OF y(1,3,4)] show ?thesis by auto
  qed
qed

section \<open>The whole list benchmark\<close>

lemma crc_walk_ok: "is_list w p xs \<Longrightarrow> \<exists>c. crc_walk p list r w = Some c"
proof (induction xs arbitrary: p r)
  case (Cons x xs)
  then show ?case by (subst crc_walk.simps) auto
qed (simp add: crc_walk.simps)

lemma list_suffix: "lseg nx p xs 0 \<Longrightarrow> x \<in> set xs \<Longrightarrow> \<exists>zs. lseg nx x zs 0"
proof -
  assume l: "lseg nx p xs 0" and "x \<in> set xs"
  then obtain us vs where "xs = us @ x # vs" by (meson split_list)
  with l have "lseg nx x (x # vs) 0" by (auto simp: lseg_append)
  then show ?thesis by blast
qed

lemma find_walk_ok:
  assumes "is_list w list xs" and "xs \<noteq> []"
  shows "\<exists>x c. core_list_find list info w = Some x \<and> crc_walk (if x = 0 then w_next w list else x) list r w = Some c"
proof -
  obtain x where x: "core_list_find list info w = Some x" "x \<noteq> 0 \<Longrightarrow> x \<in> set xs"
    using core_list_find_node [OF assms(1)] by blast
  have "\<exists>zs. is_list w (w_next w list) zs" using assms by (cases xs) auto
  then have "\<exists>zs. is_list w (if x = 0 then w_next w list else x) zs" using x(2) list_suffix [OF assms(1)] by auto
  then show ?thesis using x(1) crc_walk_ok by blast
qed

text \<open>The list in its original state: linked from \<open>r_list\<close> in strictly ascending order of the index.\<close>

definition idx_of :: "world \<Rightarrow> addr \<Rightarrow> int" where
  "idx_of w x = sint (w_idx w (w_info w x))"

definition list_indexed :: "world \<Rightarrow> addr list \<Rightarrow> bool" where
  "list_indexed w xs \<longleftrightarrow> is_list w (r_list (w_res w)) xs \<and> sorted_wrt (<) (map (idx_of w) xs)
     \<and> 3 \<le> length xs \<and> length xs < 2 ^ 29"

lemma sort_key_restores:
  assumes "mset ys = mset xs" and "sorted_wrt (<) (map k xs)"
  shows "sort_key k ys = xs"
proof -
  have d: "distinct (map k xs)" and s: "sorted (map k xs)"
    using assms(2) by (auto simp: strict_sorted_iff)
  have m: "mset (sort_key k ys) = mset xs" using assms(1) by simp
  then have "mset (map k (sort_key k ys)) = mset (map k xs)" by (simp only: mset_map)
  then have "map k (sort_key k ys) = map k xs"
    using s by (metis properties_for_sort sorted_sort_key sort_key_id_if_sorted)
  moreover have "inj_on k (set (sort_key k ys) \<union> set xs)"
    using d mset_eq_setD [OF m] by (simp add: distinct_map)
  ultimately show ?thesis by (rule map_inj_on)
qed

text \<open>What a stage of the benchmark keeps.\<close>

definition stage :: "world \<Rightarrow> addr list \<Rightarrow> addr \<Rightarrow> world \<Rightarrow> addr list \<Rightarrow> bool" where
  "stage w xs list w' ys \<longleftrightarrow> is_list w' list ys \<and> mset ys = mset xs \<and> bench_ready w' \<and> w_info w' = w_info w
     \<and> w_idx w' = w_idx w \<and> same_job (w_res w) (w_res w') \<and> (\<forall>x. x \<notin> set xs \<longrightarrow> w_next w' x = w_next w x)
     \<and> (\<forall>d. w_data16 w' d AND 0xff00 = w_data16 w d AND 0xff00)"

lemma stage_trans: "stage w xs l1 w1 ys \<Longrightarrow> stage w1 ys l2 w2 zs \<Longrightarrow> stage w xs l2 w2 zs"
  unfolding stage_def by (auto simp: same_job_def dest: mset_eq_setD)

lemma find_stage:
  assumes "bench_ready w" and "is_list w list xs" and "xs \<noteq> []"
  shows "\<exists>list' r' f' m' info' w' ys. find_loop i n info list r f m w = Some (list', r', f', m', info', w') \<and> stage w xs list' w' ys"
proof -
  obtain list' r' f' m' info' w' where "find_loop i n info list r f m w = Some (list', r', f', m', info', w')" "relinked w list' xs w'"
    using find_loop_ok [OF assms(2,3)] by blast
  then show ?thesis using assms(1) unfolding relinked_def stage_def by (fastforce simp: bench_ready_res)
qed

lemma value_stage:
  assumes "bench_ready w" and "is_list w list xs" and "xs \<noteq> []" and "length xs < 2 ^ 29"
  shows "\<exists>list' w' ys. (if sint fi > 0 then core_list_mergesort cmp_complex list w else Some (list, w)) = Some (list', w')
    \<and> stage w xs list' w' ys"
proof (cases "sint fi > 0")
  case True
  obtain q w' where "core_list_mergesort cmp_complex list w = Some (q, w')" "bench_ready w'" "settled w w'"
    "is_list w' q (sort_key (\<lambda>x. sint (w_data16 w' (w_info w' x) AND 0x007f)) xs)" "\<forall>x. x \<notin> set xs \<longrightarrow> w_next w' x = w_next w x"
    using by_value.mergesort_ok [OF assms] by blast
  then show ?thesis using True by (auto simp: stage_def settled_def)
qed (use assms in \<open>auto simp: stage_def\<close>)

lemma regen_upper: "regen d AND 0xff00 = d AND 0xff00"
proof -
  have m: "(0xff00 :: ee_s16) = NOT (mask 8)" "(0x00ff :: ee_s16) = mask 8" by (simp_all add: mask_eq_exp_minus_1)
  show ?thesis unfolding regen_def m by (rule bit_word_eqI) (auto simp: bit_simps)
qed

lemma index_stage:
  assumes "bench_ready w" and "is_list w list xs" and "xs \<noteq> []" and "length xs < 2 ^ 29"
  shows "\<exists>q w'. core_list_mergesort (cmp_idx True) list w = Some (q, w') \<and> stage w xs q w' (sort_key (idx_of w) xs)"
proof -
  obtain q w' where r: "core_list_mergesort (cmp_idx True) list w = Some (q, w')" "reindexed w w'"
    "is_list w' q (sort_key (\<lambda>x. sint (w_idx w' (w_info w' x))) xs)" "\<forall>x. x \<notin> set xs \<longrightarrow> w_next w' x = w_next w x"
    using by_idx.mergesort_ok [OF _ assms(2-4)] by blast
  then have "w_idx w' = w_idx w" "w_info w' = w_info w" "w_mem w' = w_mem w" "w_res w' = w_res w"
    "\<And>d. w_data16 w' d AND 0xff00 = w_data16 w d AND 0xff00"
    unfolding reindexed_def by (auto, metis regen_upper)
  moreover from this have "bench_ready w'" using assms(1) bench_ready_cong by blast
  moreover have "(\<lambda>x. sint (w_idx w (w_info w x))) = idx_of w" by (simp add: idx_of_def fun_eq_iff)
  ultimately show ?thesis using r by (auto simp: stage_def)
qed

text \<open>Taking an item out, walking over the list and putting the item back leaves the state as it was.\<close>

lemma remove_stage:
  assumes "is_list w list xs" and "3 \<le> length xs"
  shows "\<exists>ret w' x c. core_list_remove (w_next w list) w = (ret, w') \<and> core_list_find list info w' = Some x
    \<and> crc_walk (if x = 0 then w_next w' list else x) list r w' = Some c
    \<and> core_list_undo_remove ret (w_next w' list) w' = (ret, w)"
proof -
  obtain h xs1 where x1: "xs = h # xs1" using assms(2) by (cases xs) auto
  obtain item xs2 where x2: "xs1 = item # xs2" using assms(2) x1 by (cases xs1) auto
  obtain nxt vs where x3: "xs2 = nxt # vs" using assms(2) x1 x2 by (cases xs2) auto
  have xs: "xs = [h] @ item # nxt # vs" by (simp add: x1 x2 x3)
  have n: "w_next w list = item" using assms(1) xs by simp
  from list_remove_undo_spec [OF assms(1) [unfolded xs]] obtain w' where
    w': "core_list_remove item w = (nxt, w')" "is_list w' list ([h] @ item # vs)" "core_list_undo_remove nxt item w' = (nxt, w)"
    by blast
  then have "w_next w' list = item" by simp
  with w' n find_walk_ok [OF w'(2), of info r] show ?thesis by auto
qed

lemma bench_list_restores_spec:
  assumes "bench_ready w" and "list_indexed w xs"
  shows "\<exists>c w'. core_bench_list u fi w = Some (c, w') \<and> stage w xs (r_list (w_res w)) w' xs \<and> list_indexed w' xs"
proof -
  have l: "is_list w (r_list (w_res w)) xs" "xs \<noteq> []" "3 \<le> length xs" "length xs < 2 ^ 29" "sorted_wrt (<) (map (idx_of w) xs)"
    using assms(2) by (auto simp: list_indexed_def)
  obtain l1 r1 f1 m1 i1 w1 ys1 where s1: "find_loop 0 (r_seed3 (w_res w)) (u, fi) (r_list (w_res w)) 0 0 0 w = Some (l1, r1, f1, m1, i1, w1)"
    "stage w xs l1 w1 ys1" using find_stage [OF assms(1) l(1,2)] by blast
  then have y1: "bench_ready w1" "is_list w1 l1 ys1" "ys1 \<noteq> []" "length ys1 < 2 ^ 29"
    using l(2,4) by (auto simp: stage_def dest: mset_eq_length)
  obtain l2 w2 ys2 where s2: "(if sint fi > 0 then core_list_mergesort cmp_complex l1 w1 else Some (l1, w1)) = Some (l2, w2)"
    "stage w1 ys1 l2 w2 ys2" using value_stage [OF y1] by blast
  have st2: "stage w xs l2 w2 ys2" using stage_trans [OF s1(2) s2(2)] .
  then have y2: "bench_ready w2" "is_list w2 l2 ys2" "ys2 \<noteq> []" "3 \<le> length ys2" "length ys2 < 2 ^ 29" "mset ys2 = mset xs"
    "w_idx w2 = w_idx w" "w_info w2 = w_info w"
    using l(2-4) by (auto simp: stage_def dest: mset_eq_length)
  obtain ret w3 x c where s3: "core_list_remove (w_next w2 l2) w2 = (ret, w3)" "core_list_find l2 i1 w3 = Some x"
    "crc_walk (if x = 0 then w_next w3 l2 else x) l2 (r1 + (f1 * 4 - m1)) w3 = Some c"
    "core_list_undo_remove ret (w_next w3 l2) w3 = (ret, w2)"
    using remove_stage [OF y2(2,4)] by blast
  obtain q w4 where s4: "core_list_mergesort (cmp_idx True) l2 w2 = Some (q, w4)" "stage w2 ys2 q w4 (sort_key (idx_of w2) ys2)"
    using index_stage [OF y2(1,2,3,5)] by blast
  have "idx_of w2 = idx_of w" by (simp add: idx_of_def fun_eq_iff y2(7,8))
  then have "sort_key (idx_of w2) ys2 = xs" using sort_key_restores [OF y2(6) l(5)] by simp
  then have st4: "stage w xs q w4 xs" using stage_trans [OF st2 s4(2)] by simp
  then have l4: "is_list w4 q xs" "w_idx w4 = w_idx w" "w_info w4 = w_info w" "same_job (w_res w) (w_res w4)" by (auto simp: stage_def)
  have q: "q = r_list (w_res w)" using l4(1) l(1,2) by (cases xs) auto
  have "\<exists>zs. is_list w4 (w_next w4 q) zs" using l4(1) l(2) by (cases xs) auto
  then obtain c' where "crc_walk (w_next w4 q) q c w4 = Some c'" using crc_walk_ok by blast
  then have "core_bench_list u fi w = Some (c', w4)"
    unfolding core_bench_list_def Let_def s1(1) option.case prod.case s2(1) s3 s4(1) by simp
  moreover have "list_indexed w4 xs"
    using l l4 q same_job_fields [OF l4(4)] by (simp add: list_indexed_def idx_of_def [abs_def])
  ultimately show ?thesis using st4 q by blast
qed

section \<open>Iterations\<close>

lemma crc_upd_keeps:
  "bench_ready (upd_res (\<lambda>r. r\<lparr>r_crc := c\<rparr>) w) = bench_ready w" "list_indexed (upd_res (\<lambda>r. r\<lparr>r_crc := c\<rparr>) w) xs = list_indexed w xs"
  "bench_ready (upd_res (\<lambda>r. r\<lparr>r_crclist := c\<rparr>) w) = bench_ready w" "list_indexed (upd_res (\<lambda>r. r\<lparr>r_crclist := c\<rparr>) w) xs = list_indexed w xs"
  "bench_ready (upd_res (\<lambda>r. r\<lparr>r_crc := 0, r_crclist := 0, r_crcmatrix := 0, r_crcstate := 0\<rparr>) w) = bench_ready w"
  "list_indexed (upd_res (\<lambda>r. r\<lparr>r_crc := 0, r_crclist := 0, r_crcmatrix := 0, r_crcstate := 0\<rparr>) w) xs = list_indexed w xs"
  by (simp_all add: bench_ready_def list_indexed_def idx_of_def [abs_def] Let_def)

lemma same_job_trans: "same_job r r' \<Longrightarrow> same_job r' r'' \<Longrightarrow> same_job r r''"
  by (simp add: same_job_def)

lemma same_job_crclist [simp]: "same_job r (r'\<lparr>r_crclist := x\<rparr>) \<longleftrightarrow> same_job r r'"
  by (simp add: same_job_def)

lemma iterate_loop_restores:
  assumes "bench_ready w" and "list_indexed w xs"
  shows "\<exists>w'. iterate_loop u i n w = Some w' \<and> bench_ready w' \<and> list_indexed w' xs \<and> same_job (w_res w) (w_res w')"
  using assms
proof (induction "unat n - unat i" arbitrary: i w rule: less_induct)
  case less
  show ?case
  proof (cases "i < n")
    case False
    then have "iterate_loop u i n w = Some w" by (subst iterate_loop.simps) simp
    with less.prems show ?thesis by simp
  next
    case True
    obtain c1 w1 where b1: "core_bench_list u 1 w = Some (c1, w1)" "bench_ready w1" "list_indexed w1 xs" "same_job (w_res w) (w_res w1)"
      using bench_list_restores_spec [OF less.prems] unfolding stage_def by blast
    let ?w1 = "upd_res (\<lambda>r. r\<lparr>r_crc := crcu16 c1 (r_crc r)\<rparr>) w1"
    have "bench_ready ?w1" "list_indexed ?w1 xs" using b1 by (simp_all only: crc_upd_keeps)
    then obtain c2 w2 where b2: "core_bench_list u (- 1) ?w1 = Some (c2, w2)" "bench_ready w2" "list_indexed w2 xs" "same_job (w_res ?w1) (w_res w2)"
      using bench_list_restores_spec unfolding stage_def by blast
    let ?w2 = "upd_res (\<lambda>r. r\<lparr>r_crc := crcu16 c2 (r_crc r)\<rparr>) w2"
    let ?w3 = "if i = 0 then upd_res (\<lambda>r. r\<lparr>r_crclist := r_crc r\<rparr>) ?w2 else ?w2"
    have "bench_ready ?w2" "list_indexed ?w2 xs" using b2 by (simp_all only: crc_upd_keeps)
    then have w3: "bench_ready ?w3" "list_indexed ?w3 xs" by (cases "i = 0"; simp only: if_True if_False crc_upd_keeps simp_thms)+
    have "same_job (w_res w) (w_res ?w1)" using b1(4) by simp
    then have "same_job (w_res w) (w_res w2)" using b2(4) by (rule same_job_trans)
    then have j3: "same_job (w_res w) (w_res ?w3)" by simp
    have st: "iterate_loop u i n w = iterate_loop u (i + 1) n ?w3"
      using True b1(1) b2(1) by (subst iterate_loop.simps) (simp only: if_True Let_def option.case prod.case)
    have "unat n - unat (i + 1) < unat n - unat i" using True unat_succ_less [OF True] by (simp add: word_less_nat_alt)
    from less.hyps [OF this w3] obtain w' where "iterate_loop u (i + 1) n ?w3 = Some w'" "bench_ready w'" "list_indexed w' xs"
      "same_job (w_res ?w3) (w_res w')" by blast
    then show ?thesis unfolding st using same_job_trans [OF j3] by blast
  qed
qed

lemma iterate_ready:
  assumes "bench_ready w" and "list_indexed w xs"
  shows "\<exists>w'. iterate u w = Some w' \<and> bench_ready w' \<and> list_indexed w' xs \<and> same_job (w_res w) (w_res w')"
proof -
  let ?w = "upd_res (\<lambda>r. r\<lparr>r_crc := 0, r_crclist := 0, r_crcmatrix := 0, r_crcstate := 0\<rparr>) w"
  have "bench_ready ?w" "list_indexed ?w xs" using assms by (simp_all only: crc_upd_keeps)
  moreover have "same_job (w_res w) (w_res ?w)" by (simp add: same_job_def)
  ultimately show ?thesis unfolding iterate_def Let_def using iterate_loop_restores same_job_trans by blast
qed


definition bench_sample :: world where
  "bench_sample = sample_world\<lparr>w_idx := (\<lambda>_. 0)(0x110 := 3, 0x118 := 5)\<rparr>"


end
