(* ===== verification/Core_Init.thy ===== *)
theory Core_Init
  imports Core_Bench
begin

text \<open>
  Initialisation of the CoreMark benchmarks: \<open>core_list_init\<close> builds a list of all the nodes that fit its block, indexes
  it and sorts it, and with the blocks that \<open>core_init_matrix\<close> and \<open>core_init_state\<close> fill, the state is the one that the
  iterations need and keep (\<open>bench_ready\<close> and \<open>list_indexed\<close> of the previous theories).
\<close>

section \<open>Building the list\<close>

text \<open>Node number \<open>k\<close> and data number \<open>k\<close> of the blocks at \<open>M\<close> and \<open>D\<close>.\<close>

abbreviation (input) node :: "addr \<Rightarrow> nat \<Rightarrow> addr" where
  "node M k \<equiv> M + 8 * of_nat k"

abbreviation (input) dat :: "addr \<Rightarrow> nat \<Rightarrow> addr" where
  "dat D k \<equiv> D + 4 * of_nat k"

lemma unat_node: "unat M + 8 * n < 2 ^ 32 \<Longrightarrow> k \<le> n \<Longrightarrow> unat (node M k) = unat M + 8 * k"
  by (simp add: unat_word_ariths unat_of_nat)

lemma unat_dat: "unat D + 4 * n < 2 ^ 32 \<Longrightarrow> k \<le> n \<Longrightarrow> unat (dat D k) = unat D + 4 * k"
  by (simp add: unat_word_ariths unat_of_nat)

lemma node_inj: "unat M + 8 * n < 2 ^ 32 \<Longrightarrow> j \<le> n \<Longrightarrow> k \<le> n \<Longrightarrow> node M j = node M k \<longleftrightarrow> j = k"
  using unat_node [of M n j] unat_node [of M n k] by (auto simp: word_unat_eq_iff)

lemma dat_inj: "unat D + 4 * n < 2 ^ 32 \<Longrightarrow> j \<le> n \<Longrightarrow> k \<le> n \<Longrightarrow> dat D j = dat D k \<longleftrightarrow> j = k"
  using unat_dat [of D n j] unat_dat [of D n k] by (auto simp: word_unat_eq_iff)

text \<open>The first \<open>k\<close> nodes are linked, each new one behind the head.\<close>

definition nodes :: "addr \<Rightarrow> nat \<Rightarrow> addr list" where
  "nodes M k = M # map (\<lambda>j. node M j) (rev [1..<k])"

definition built :: "addr \<Rightarrow> addr \<Rightarrow> nat \<Rightarrow> world \<Rightarrow> bool" where
  "built M D k w \<longleftrightarrow> is_list w M (nodes M k) \<and> (\<forall>j < k. w_info w (node M j) = dat D j)
     \<and> w_idx w (dat D 0) = 0 \<and> (\<forall>j. 1 \<le> j \<and> j < k \<longrightarrow> w_idx w (dat D j) = 0x7fff)"

definition room :: "addr \<Rightarrow> addr \<Rightarrow> nat \<Rightarrow> bool" where
  "room M D n \<longleftrightarrow> M \<noteq> 0 \<and> unat M + 8 * n < 2 ^ 32 \<and> unat D + 4 * n < 2 ^ 32"

lemma nodes_Suc: "1 \<le> k \<Longrightarrow> nodes M (Suc k) = M # node M k # tl (nodes M k)"
  by (simp add: nodes_def)

lemma insert_step:
  assumes r: "room M D n" and b: "built M D k w" and k: "1 \<le> k" "k + 1 < n" and e: "me = node M n" "de = dat D n"
  shows "\<exists>w'. core_list_insert_new M (d, 0x7fff) (node M k) (dat D k) me de w = (node M k, node M (k + 1), dat D (k + 1), w')
    \<and> built M D (k + 1) w' \<and> w_res w' = w_res w \<and> w_mem w' = w_mem w"
proof -
  have M: "M \<noteq> 0" and u: "unat M + 8 * n < 2 ^ 32" "unat D + 4 * n < 2 ^ 32" using r by (auto simp: room_def)
  have g: "\<not> node M k + 8 \<ge> me" "\<not> dat D k + 4 \<ge> de"
    using unat_node [OF u(1), of "k + 1"] unat_node [OF u(1), of n] unat_dat [OF u(2), of "k + 1"] unat_dat [OF u(2), of n] k(2) e
    by (simp_all add: word_le_nat_alt algebra_simps)
  have nk: "node M k \<noteq> M" "node M k \<noteq> 0"
    using node_inj [OF u(1), of k 0] unat_node [OF u(1), of k] k M by (auto simp: unat_eq_0 [symmetric])
  have nj: "node M j \<noteq> node M k" if "j < k" for j using node_inj [OF u(1), of j k] that k(2) by auto
  have dj: "dat D j \<noteq> dat D k" if "j < k" for j using dat_inj [OF u(2), of j k] that k(2) by auto
  let ?nx = "(w_next w)(node M k := w_next w M, M := node M k)"
  have l: "lseg (w_next w) (w_next w M) (tl (nodes M k)) 0" using b by (simp add: built_def nodes_def)
  have "node M k \<notin> set (tl (nodes M k))" using nj [symmetric] by (auto simp: nodes_def) blast
  moreover have "M \<notin> set (tl (nodes M k))" using lseg_distinct [of "w_next w" M "nodes M k"] b by (simp add: built_def nodes_def)
  ultimately have lk: "lseg ?nx M (nodes M (k + 1)) 0" using l nk M k(1) by (simp add: nodes_Suc)
  let ?w' = "w\<lparr>w_next := ?nx, w_info := (w_info w)(node M k := dat D k), w_data16 := (w_data16 w)(dat D k := d), w_idx := (w_idx w)(dat D k := 0x7fff)\<rparr>"
  have "core_list_insert_new M (d, 0x7fff) (node M k) (dat D k) me de w = (node M k, node M (k + 1), dat D (k + 1), ?w')"
    using g by (simp add: core_list_insert_new_def copy_info_def Let_def algebra_simps)
  moreover have "built M D (k + 1) ?w'"
    unfolding built_def
  proof (intro conjI allI impI)
    show "is_list ?w' M (nodes M (k + 1))" using lk by simp
    show "w_idx ?w' (dat D 0) = 0" using b dj [of 0] k(1) by (auto simp: built_def)
    show "w_info ?w' (node M j) = dat D j" if "j < k + 1" for j
      using b that nj [of j] by (cases "j = k") (auto simp: built_def)
    show "w_idx ?w' (dat D j) = 0x7fff" if "1 \<le> j \<and> j < k + 1" for j
      using b that dj [of j] by (cases "j = k") (auto simp: built_def)
  qed
  ultimately show ?thesis by auto
qed

lemma insert_full:
  assumes r: "room M D n" and k: "k + 1 = n" and e: "me = node M n"
  shows "core_list_insert_new p info (node M k) q me de w = (NULL, node M k, q, w)"
proof -
  have "node M k + 8 = me" using k e by (simp add: algebra_simps flip: k)
  then show ?thesis by (simp add: core_list_insert_new_def)
qed

text \<open>The loop makes at least as many attempts as there is room for.\<close>

lemma init_items_ok:
  assumes r: "room M D n" and e: "me = node M n" "de = dat D n"
    and b: "built M D k w" "1 \<le> k" "k + 1 \<le> n" and i: "n \<le> k + 1 + (unat sz - unat i)"
  shows "\<exists>w'. init_items i sz seed M 0x7fff (node M k) (dat D k) me de w = w' \<and> built M D (n - 1) w' \<and> w_res w' = w_res w \<and> w_mem w' = w_mem w"
  using b i
proof (induction "unat sz - unat i" arbitrary: i k w)
  case 0
  then have "\<not> i < sz" "k = n - 1" by (auto simp: word_less_nat_alt)
  then show ?case using 0 by (subst init_items.simps) simp
next
  case (Suc x)
  then have lt: "i < sz" by (simp add: word_less_nat_alt)
  then have x: "x = unat sz - unat (i + 1)" using Suc.hyps(2) unat_succ_less [OF lt] by simp
  define d where "d = (let datpat = (ucast ((scast seed :: 32 word) XOR i) :: ee_u16) AND 0xf; dat = push_bit 3 datpat OR ucast (i AND 0x7) in push_bit 8 dat OR dat)"
  have st: "init_items i sz seed M 0x7fff (node M k) (dat D k) me de w =
      (case core_list_insert_new M (d, 0x7fff) (node M k) (dat D k) me de w of
        (newitem, mb, db, w) \<Rightarrow> init_items (i + 1) sz seed M 0x7fff mb db me de w)"
    using lt by (subst init_items.simps) (simp add: d_def Let_def)
  show ?case
  proof (cases "k + 1 < n")
    case True
    from insert_step [OF r Suc.prems(1,2) True e, of d] obtain w' where
      w': "core_list_insert_new M (d, 0x7fff) (node M k) (dat D k) me de w = (node M k, node M (k + 1), dat D (k + 1), w')"
        "built M D (k + 1) w'" "w_res w' = w_res w" "w_mem w' = w_mem w" by blast
    show ?thesis unfolding st w'(1) prod.case
      using Suc.hyps(1) [OF x w'(2)] True Suc.prems Suc.hyps(2) x w'(3,4) by simp
  next
    case False
    then have k: "k + 1 = n" using Suc.prems(3) by simp
    show ?thesis unfolding st insert_full [OF r k e(1)] prod.case
      using Suc.hyps(1) [OF x Suc.prems(1-3)] k by simp
  qed
qed

section \<open>Indexing the list\<close>

text \<open>The index that the item visited as number \<open>i\<close> gets.\<close>

definition item_idx :: "ee_u32 \<Rightarrow> ee_s16 \<Rightarrow> ee_u32 \<Rightarrow> ee_s16" where
  "item_idx sz seed i = (if i < sz div 5 then ucast i
     else 0x3fff AND (push_bit 8 (ucast ((i + 1) AND 0x07)) OR ucast (i XOR scast seed)))"

lemma init_index_step:
  "w_next w p \<noteq> 0 \<Longrightarrow> init_index p i sz seed w =
     init_index (w_next w p) (i + 1) sz seed (w\<lparr>w_idx := (w_idx w)(w_info w p := item_idx sz seed i)\<rparr>)"
  by (subst init_index.simps) (simp add: Let_def item_idx_def)

lemma init_index_ok:
  assumes "is_list w p xs" and "xs \<noteq> []" and "distinct (map (w_info w) xs)"
  shows "\<exists>ix. init_index p i sz seed w = Some (w\<lparr>w_idx := ix\<rparr>) \<and> (\<forall>d. d \<notin> set (map (w_info w) (butlast xs)) \<longrightarrow> ix d = w_idx w d)
    \<and> map (\<lambda>x. ix (w_info w x)) (butlast xs) = map (\<lambda>t. item_idx sz seed (i + of_nat t)) [0..<length xs - 1]"
  using assms
proof (induction xs arbitrary: p i w)
  case (Cons x xs)
  then have p: "p = x" "x \<noteq> 0" "lseg (w_next w) (w_next w x) xs 0" by auto
  show ?case
  proof (cases "xs = []")
    case True
    then have "w_next w p = 0" using p by simp
    then show ?thesis using True by (subst init_index.simps) (auto intro!: exI [of _ "w_idx w"])
  next
    case False
    let ?w = "w\<lparr>w_idx := (w_idx w)(w_info w x := item_idx sz seed i)\<rparr>"
    have nx: "w_next w p \<noteq> 0" using p False by (cases xs) auto
    have "is_list ?w (w_next w x) xs" "distinct (map (w_info ?w) xs)" using p Cons.prems(3) by simp_all
    from Cons.IH [OF this(1) False this(2), of "i + 1"] obtain ix where
      ix: "init_index (w_next w x) (i + 1) sz seed ?w = Some (?w\<lparr>w_idx := ix\<rparr>)"
        "\<forall>d. d \<notin> set (map (w_info w) (butlast xs)) \<longrightarrow> ix d = w_idx ?w d"
        "map (\<lambda>x. ix (w_info w x)) (butlast xs) = map (\<lambda>t. item_idx sz seed (i + 1 + of_nat t)) [0..<length xs - 1]" by auto
    have "w_info w x \<notin> set (map (w_info w) (butlast xs))" using Cons.prems(3) by (auto dest: in_set_butlastD)
    then have "ix (w_info w x) = item_idx sz seed i" using ix(2) by simp
    moreover have "[0..<length (x # xs) - 1] = 0 # map Suc [0..<length xs - 1]"
      using False by (simp add: upt_conv_Cons map_Suc_upt)
    ultimately have "map (\<lambda>x. ix (w_info w x)) (butlast (x # xs)) = map (\<lambda>t. item_idx sz seed (i + of_nat t)) [0..<length (x # xs) - 1]"
      using False ix(3) by (simp add: comp_def)
    moreover have "init_index p i sz seed w = Some (w\<lparr>w_idx := ix\<rparr>)"
      using init_index_step [OF nx, of i sz seed] ix(1) p(1) by simp
    moreover have "ix d = w_idx w d" if "d \<notin> set (map (w_info w) (butlast (x # xs)))" for d
      using that ix(2) False by simp
    ultimately show ?thesis by blast
  qed
qed simp

text \<open>The indices of the head, the last node and the items between are all different.\<close>

definition indices_distinct :: "ee_u32 \<Rightarrow> ee_s16 \<Rightarrow> bool" where
  "indices_distinct sz seed \<longleftrightarrow> distinct (0 # 0x7fff # map (\<lambda>t. item_idx sz seed (1 + of_nat t)) [0..<unat sz - 3])"

lemma sint_inj: "sint a = sint b \<longleftrightarrow> a = b" for a b :: "'a::len word"
  by (metis signed_word_eqI)

lemma built_infos:
  assumes "room M D n" and "built M D k w" and "k \<le> n"
  shows "map (w_info w) (nodes M k) = D # map (\<lambda>j. dat D j) (rev [1..<k]) \<or> k = 0"
    and "distinct (D # map (\<lambda>j. dat D j) (rev [1..<k]))"
proof -
  have "w_info w M = D" if "k \<noteq> 0" using assms(2) that by (auto simp: built_def dest: spec [of _ 0])
  then show "map (w_info w) (nodes M k) = D # map (\<lambda>j. dat D j) (rev [1..<k]) \<or> k = 0"
    using assms(2) by (auto simp: nodes_def built_def)
  have u: "unat D + 4 * n < 2 ^ 32" using assms(1) by (simp add: room_def)
  have "inj_on (\<lambda>j. dat D j) {0..<n}" using dat_inj [OF u] by (intro inj_onI) simp
  moreover have "distinct (0 # rev [1..<k])" "set (0 # rev [1..<k]) \<subseteq> {0..<n} \<or> k = 0" using assms(3) by auto
  ultimately have "distinct (map (\<lambda>j. dat D j) (0 # rev [1..<k])) \<or> k = 0" unfolding distinct_map using inj_on_subset by blast
  then show "distinct (D # map (\<lambda>j. dat D j) (rev [1..<k]))" by auto
qed

text \<open>The indices after the walk, in the order of the list.\<close>

lemma index_built:
  assumes r: "room M D n" and b: "built M D k w" and k: "3 \<le> k" "k \<le> n"
  shows "\<exists>ix. init_index (w_next w M) 1 sz seed w = Some (w\<lparr>w_idx := ix\<rparr>)
    \<and> map (\<lambda>x. ix (w_info w x)) (nodes M k) = 0 # map (\<lambda>t. item_idx sz seed (1 + of_nat t)) [0..<k - 2] @ [0x7fff]"
proof -
  let ?ys = "map (\<lambda>j. node M j) (rev [1..<k])"
  have ls: "is_list w (w_next w M) ?ys" using b by (simp add: built_def nodes_def)
  have up: "[1..<k] = 1 # [2..<k]" using k(1) by (simp add: upt_conv_Cons numeral_2_eq_2)
  have bl: "butlast ?ys = map (\<lambda>j. node M j) (rev [2..<k])" "last ?ys = node M 1" "?ys \<noteq> []" unfolding up by simp_all
  have inf: "map (w_info w) ?ys = map (\<lambda>j. dat D j) (rev [1..<k])" "map (w_info w) (butlast ?ys) = map (\<lambda>j. dat D j) (rev [2..<k])"
    unfolding bl(1) using b by (auto simp: built_def)
  note d = built_infos(2) [OF r b k(2)]
  then have "distinct (map (w_info w) ?ys)" unfolding inf by simp
  from init_index_ok [OF ls bl(3) this, of 1 sz seed] obtain ix where
    ix: "init_index (w_next w M) 1 sz seed w = Some (w\<lparr>w_idx := ix\<rparr>)" "\<And>d. d \<notin> set (map (w_info w) (butlast ?ys)) \<Longrightarrow> ix d = w_idx w d"
      "map (\<lambda>x. ix (w_info w x)) (butlast ?ys) = map (\<lambda>t. item_idx sz seed (1 + of_nat t)) [0..<length ?ys - 1]" by auto
  have "dat D 0 \<notin> set (map (w_info w) (butlast ?ys))" "dat D 1 \<notin> set (map (w_info w) (butlast ?ys))"
    unfolding inf using d unfolding up by auto
  moreover have "\<forall>j. 1 \<le> j \<and> j < k \<longrightarrow> w_idx w (dat D j) = 0x7fff" "w_idx w (dat D 0) = 0" using b unfolding built_def by blast+
  moreover from this(1) have "w_idx w (dat D 1) = 0x7fff" using k(1) by (auto dest!: spec [of _ 1])
  ultimately have "ix (dat D 0) = 0" "ix (dat D 1) = 0x7fff" using ix(2) by metis+
  moreover have "w_info w M = dat D 0" "w_info w (node M 1) = dat D 1"
    using b k(1) by (auto simp: built_def dest: spec [of _ 0] spec [of _ 1])
  moreover have "nodes M k = M # butlast ?ys @ [node M 1]" using append_butlast_last_id [OF bl(3)] bl(2) by (simp add: nodes_def)
  moreover have "length ?ys - 1 = k - 2" by simp
  ultimately show ?thesis using ix(1,3) by (intro exI [of _ ix]) simp
qed

lemma sort_key_strict: "distinct (map f xs) \<Longrightarrow> sorted_wrt (<) (map f (sort_key f xs))" for f :: "'a \<Rightarrow> int"
  by (simp add: strict_sorted_iff distinct_map)

lemma core_list_init_ok:
  assumes blk: "120 \<le> unat blksize" and M: "M \<noteq> 0" "unat M + unat blksize < 2 ^ 32" and dist: "indices_distinct (blksize div 20 - 2) seed"
  shows "\<exists>q w' xs. core_list_init blksize M seed w = Some (q, w') \<and> is_list w' q xs \<and> sorted_wrt (<) (map (idx_of w') xs)
    \<and> 3 \<le> length xs \<and> length xs < 2 ^ 29 \<and> w_res w' = w_res w \<and> w_mem w' = w_mem w"
proof -
  define sz where "sz = blksize div 20 - 2"
  define n where "n = unat sz"
  have "2 \<le> unat blksize div 20" using blk by linarith
  then have "unat sz = unat blksize div 20 - 2"
    by (simp add: sz_def unat_sub_if_size unat_div)
  then have n: "4 \<le> n" "12 * n + 8 < unat blksize" using blk by (simp_all add: n_def)
  define D where "D = M + 8 * sz"
  have D: "D = node M n" by (simp add: D_def n_def)
  have uD: "unat D = unat M + 8 * n" unfolding D using M(2) n(2) by (intro unat_node) auto
  have r: "room M D n" using M n(2) uD by (simp add: room_def)
  have de: "D + 4 * sz = dat D n" by (simp add: n_def)
  have b1: "built M D 1 (init_head M D w)" "w_res (init_head M D w) = w_res w" "w_mem (init_head M D w) = w_mem w"
    using M(1) by (simp_all add: built_def nodes_def init_head_def Let_def)
  from insert_step [OF r b1(1) _ _ D refl, of "0xffff"] n(1) obtain w2 where
    w2: "core_list_insert_new M (0xffff, 0x7fff) (M + 8) (D + 4) D (dat D n) (init_head M D w) = (node M 1, node M 2, dat D 2, w2)"
      "built M D 2 w2" "w_res w2 = w_res w" "w_mem w2 = w_mem w" using b1 by (auto simp: numeral_2_eq_2)
  obtain w3 where w3: "init_items 0 sz seed M 0x7fff (node M 2) (dat D 2) D (dat D n) w2 = w3" "built M D (n - 1) w3"
      "w_res w3 = w_res w" "w_mem w3 = w_mem w"
    using init_items_ok [OF r D refl w2(2), of sz 0 seed] n(1) w2(3,4) by (auto simp: n_def)
  have k: "3 \<le> n - 1" "n - 1 \<le> n" using n(1) by simp_all
  obtain ix where ix: "init_index (w_next w3 M) 1 sz seed w3 = Some (w3\<lparr>w_idx := ix\<rparr>)"
      "map (\<lambda>x. ix (w_info w3 x)) (nodes M (n - 1)) = 0 # map (\<lambda>t. item_idx sz seed (1 + of_nat t)) [0..<n - 1 - 2] @ [0x7fff]"
    using index_built [OF r w3(2) k, of sz seed] by (elim exE conjE) (rule that)
  let ?xs = "nodes M (n - 1)" and ?w4 = "w3\<lparr>w_idx := ix\<rparr>"
  have l: "length ?xs = n - 1" using n(1) by (simp add: nodes_def)
  have len: "3 \<le> length ?xs" "length ?xs < 2 ^ 29" "?xs \<noteq> []"
    using n M(2) l by (auto simp: nodes_def)
  have ls: "is_list ?w4 M ?xs" using w3(2) by (simp add: built_def)
  have "distinct (map (\<lambda>x. ix (w_info w3 x)) ?xs)"
    unfolding ix(2) using dist by (simp add: indices_distinct_def sz_def [symmetric] n_def [symmetric] numeral_3_eq_3)
  then have dx: "distinct (map (idx_of ?w4) ?xs)"
    by (simp add: idx_of_def [abs_def] distinct_map inj_on_def sint_inj)
  obtain q w5 where w5: "core_list_mergesort (cmp_idx True) M ?w4 = Some (q, w5)" "reindexed ?w4 w5"
    "is_list w5 q (sort_key (\<lambda>x. sint (w_idx w5 (w_info w5 x))) ?xs)"
    using by_idx.mergesort_ok [OF _ ls len(3,2)] by blast
  have same: "w_idx w5 = ix" "w_info w5 = w_info w3" "w_res w5 = w_res w" "w_mem w5 = w_mem w"
    using w5(2) w3(3,4) by (simp_all add: reindexed_def)
  then have idx: "(\<lambda>x. sint (w_idx w5 (w_info w5 x))) = idx_of ?w4" "idx_of w5 = idx_of ?w4" by (simp_all add: idx_of_def fun_eq_iff)
  have "core_list_init blksize M seed w = Some (q, w5)"
    unfolding core_list_init_def Let_def numeral_plus_numeral semiring_norm sz_def [symmetric] D_def [symmetric] de
    using w3(1) by (simp add: w2(1) ix(1) w5(1))
  then show ?thesis
    using w5(3) same sort_key_strict [OF dx] len unfolding idx by (intro exI [of _ q] exI [of _ w5] exI [of _ "sort_key (idx_of ?w4) ?xs"]) (simp add: idx)
qed

section \<open>The blocks of the other benchmarks\<close>

text \<open>A size for which the alignment of the matrices, at most three bytes, stays inside the block.\<close>

definition fits_aligned :: "nat \<Rightarrow> bool" where
  "fits_aligned sz \<longleftrightarrow> (\<forall>n. sz \<noteq> 8 * (n * n) + 1 \<and> sz \<noteq> 8 * (n * n) + 2)"

lemma blocks_ready:
  assumes p: "p2 \<noteq> 0" "unat p2 + 2 * unat sz + 2 ^ 15 < 2 ^ 32" and p3: "p3 = p2 + sz"
    and sz: "0 < unat sz" "unat sz \<le> 2 ^ 31" "(unat sz - 1) mod 17 \<noteq> 0" "fits_aligned (unat sz)"
    and seed: "\<forall>x \<in> alphabet. x XOR ucast seed \<noteq> 44"
  shows "\<exists>m1 mat N m2. core_init_matrix m sz p2 ms = Some (m1, mat, N) \<and> core_init_state m1 sz seed0 p3 = Some m2
    \<and> (\<forall>w. w_mem w = m2 \<and> r_mat (w_res w) = mat \<and> r_seed1 (w_res w) = seed \<and> r_seed2 (w_res w) = seed
         \<and> r_size (w_res w) = sz \<and> r_memblock3 (w_res w) = p3 \<longrightarrow> bench_ready w)"
proof -
  have "0 < p2" "0 < sz" using p(1) sz(1) by (auto simp: word_gt_0 unat_gt_0 [symmetric])
  then obtain m1 mat where mat: "core_init_matrix m sz p2 ms = Some (m1, mat, mp_N mat)" "mat_layout (mp_N mat) (mp_A mat) (mp_B mat) (mp_C mat)"
    "8 * (unat (mp_N mat) * unat (mp_N mat)) < unat sz"
    "unat (mp_C mat) + 4 * (unat (mp_N mat) * unat (mp_N mat)) \<le> unat p2 + 8 * (unat (mp_N mat) * unat (mp_N mat)) + 3"
    using core_init_matrix_layout [of p2 sz m ms] sz(2) p(2) by auto
  let ?N = "unat (mp_N mat) * unat (mp_N mat)"
  have u3: "unat p3 = unat p2 + unat sz" using p(2) by (simp add: p3 unat_word_ariths)
  have "unat sz \<noteq> 8 * ?N + 1" "unat sz \<noteq> 8 * ?N + 2" using sz(4) by (simp_all add: fits_aligned_def)
  then have "unat (mp_C mat) + 4 * ?N \<le> unat p3" using mat(3,4) u3 by linarith
  then have dis: "region p3 (unat sz) \<inter> region (mp_C mat) (4 * ?N) = {}" using u3 p(2) by (intro region_disjoint(2)) simp_all
  from core_init_state_fills [of sz m1 seed0 p3] \<open>0 < sz\<close> p(2) obtain bs where
    init: "core_init_state m1 sz seed0 p3 = Some (store_bytes m1 p3 (joined bs @ replicate (unat sz - length (joined bs)) 0))"
      "set bs \<subseteq> set patterns" "length (joined bs) < unat sz" by auto
  let ?xs = "joined bs @ replicate (unat sz - length (joined bs)) (0 :: byte)"
  let ?m = "store_bytes m1 p3 ?xs"
  have len: "length ?xs = unat sz" using init(3) by simp
  have nth: "?m (p3 + of_nat i) = ?xs ! i" if "i < unat sz" for i
    using that len unat32_less [of sz] by (intro store_bytes_nth) simp_all
  have xs: "set ?xs \<subseteq> insert 44 alphabet" using joined_alphabet [OF init(2)] by (auto simp: alphabet_def)
  have clean: "?m a \<noteq> 44 \<longrightarrow> ?m a XOR ucast seed \<noteq> 44" if "a \<in> region p3 (unat sz)" for a
  proof -
    obtain i where "i < unat sz" "a = p3 + of_nat i" using \<open>a \<in> _\<close> by (auto simp: region_def)
    then have "?m a \<in> set ?xs" using nth len by (metis nth_mem)
    then show ?thesis using xs seed by auto
  qed
  let ?l = "p3 + of_nat (unat sz - 1)"
  have "?xs ! (unat sz - 1) = 0" using init(3) by (auto simp: nth_append)
  then have "?m ?l = 0" using nth [of "unat sz - 1"] sz(1) by simp
  moreover have "unat ?l = unat p3 + (unat sz - 1)" using u3 p(2) by (simp add: unat_word_ariths unat_of_nat)
  moreover have "?l \<in> region p3 (unat sz)" using sz(1) by (intro in_regionI) simp
  ultimately have zero: "\<exists>a \<in> region p3 (unat sz). ?m a = 0 \<and> (unat a - unat p3) mod 17 \<noteq> 0" using sz(3) by (intro bexI [of _ ?l]) simp_all
  have "bench_ready w" if "w_mem w = ?m" "r_mat (w_res w) = mat" "r_seed1 (w_res w) = seed" "r_seed2 (w_res w) = seed"
      "r_size (w_res w) = sz" "r_memblock3 (w_res w) = p3" for w
    unfolding bench_ready_def Let_def that using mat(2) dis clean zero u3 p(2) by simp
  then show ?thesis using mat(1) init(1) by blast
qed

end
