(* ===== verification/Core_Main.thy ===== *)
theory Core_Main
  imports Core_Init Malloc Uart
begin

text \<open>
  The main program of CoreMark (\<open>main\<close> of \<open>coremark.c\<close>) and its port to this platform (\<open>core_portme.c\<close>), for the
  configuration that the makefile sets: seeds from the arguments, the data block from \<open>malloc\<close>, one context, no floating
  point.

  The state is the one of the benchmarks with the allocator, the UART driver and the two variables of the timer beside
  it; the messages are collected as the list of the calls of \<open>ee_printf\<close>, which is \<open>printf\<close>.  The cycle counter that
  \<open>rdtime\<close> reads is a parameter: \<open>rdtime k\<close> is the result of the reading number \<open>k\<close>.
\<close>

section \<open>Definitions\<close>

datatype print_arg = UArg uint | SArg string

record kernel =
  k_world :: world
  k_heap :: heap
  k_uart :: uart
  k_start_time_val :: ee_u32
  k_stop_time_val :: ee_u32
  k_reads :: nat
  k_out :: "(string \<times> print_arg list) list"

definition ee_printf :: "string \<Rightarrow> print_arg list \<Rightarrow> kernel \<Rightarrow> kernel" where
  "ee_printf fmt args s = s\<lparr>k_out := k_out s @ [(fmt, args)]\<rparr>"

abbreviation (input) upd_world :: "(world \<Rightarrow> world) \<Rightarrow> kernel \<Rightarrow> kernel" where
  "upd_world f s \<equiv> s\<lparr>k_world := f (k_world s)\<rparr>"

abbreviation (input) results :: "kernel \<Rightarrow> core_results" where
  "results s \<equiv> w_res (k_world s)"

abbreviation (input) upd_results :: "(core_results \<Rightarrow> core_results) \<Rightarrow> kernel \<Rightarrow> kernel" where
  "upd_results f s \<equiv> s\<lparr>k_world := (k_world s)\<lparr>w_res := f (w_res (k_world s))\<rparr>\<rparr>"

definition nl :: string where "nl = [CHR 0x0A]"

definition TOTAL_DATA_SIZE :: ee_u32 where "TOTAL_DATA_SIZE = 2 * 1000"
definition ID_LIST :: ee_u32 where "ID_LIST = push_bit 0 1"
definition ID_MATRIX :: ee_u32 where "ID_MATRIX = push_bit 1 1"
definition ID_STATE :: ee_u32 where "ID_STATE = push_bit 2 1"
definition ALL_ALGORITHMS_MASK :: ee_u32 where "ALL_ALGORITHMS_MASK = ID_LIST OR ID_MATRIX OR ID_STATE"
definition EE_TICKS_PER_SEC :: ee_u32 where "EE_TICKS_PER_SEC = 75000000 div 1"

subsection \<open>The port\<close>

definition portable_malloc :: "ee_u32 \<Rightarrow> kernel \<Rightarrow> (addr \<times> kernel) option" where
  "portable_malloc sz s = (case malloc sz (k_heap s) of None \<Rightarrow> None | Some (p, h) \<Rightarrow> Some (p, s\<lparr>k_heap := h\<rparr>))"

definition portable_free :: "addr \<Rightarrow> kernel \<Rightarrow> kernel" where
  "portable_free p s = s\<lparr>k_heap := free p (k_heap s)\<rparr>"

definition start_time :: "(nat \<Rightarrow> ee_u32) \<Rightarrow> kernel \<Rightarrow> kernel" where
  "start_time rdtime s = s\<lparr>k_start_time_val := rdtime (k_reads s), k_reads := k_reads s + 1\<rparr>"

definition stop_time :: "(nat \<Rightarrow> ee_u32) \<Rightarrow> kernel \<Rightarrow> kernel" where
  "stop_time rdtime s = s\<lparr>k_stop_time_val := rdtime (k_reads s), k_reads := k_reads s + 1\<rparr>"

definition get_time :: "kernel \<Rightarrow> ee_u32" where
  "get_time s = k_stop_time_val s - k_start_time_val s"

definition time_in_secs :: "ee_u32 \<Rightarrow> ee_u32" where
  "time_in_secs ticks = ticks div EE_TICKS_PER_SEC"

text \<open>The checks of \<open>portable_init\<close> compare sizes of types, which are given.\<close>

definition portable_init :: "nat \<Rightarrow> nat \<Rightarrow> nat \<Rightarrow> kernel \<Rightarrow> kernel" where
  "portable_init sz_ptr_int sz_ptr sz_u32 s =
     (let s = (if sz_ptr_int \<noteq> sz_ptr
               then ee_printf (''ERROR! Please define ee_ptr_int to a type that holds a pointer!'' @ nl) [] s else s);
          s = (if sz_u32 \<noteq> 4 then ee_printf (''ERROR! Please define ee_u32 to a 32b unsigned type!'' @ nl) [] s else s);
          s = upd_results (\<lambda>r. r\<lparr>r_portable_id := 1\<rparr>) s
      in s\<lparr>k_uart := uart0_start_engine (k_uart s)\<rparr>)"

definition portable_fini :: "kernel \<Rightarrow> kernel" where
  "portable_fini s = upd_results (\<lambda>r. r\<lparr>r_portable_id := 0\<rparr>) s"

subsection \<open>Seeds and memory\<close>

definition get_seed :: "mem \<Rightarrow> int \<Rightarrow> int \<Rightarrow> addr \<Rightarrow> ee_s16 option" where
  "get_seed m x argc argv = (case get_seed_args m x argc argv of None \<Rightarrow> None | Some v \<Rightarrow> Some (ucast v))"

definition default_seeds :: "core_results \<Rightarrow> core_results" where
  "default_seeds r =
     (let r = (if r_seed1 r = 0 \<and> r_seed2 r = 0 \<and> r_seed3 r = 0
               then r\<lparr>r_seed1 := 0, r_seed2 := 0, r_seed3 := 0x66\<rparr> else r);
          r = (if r_seed1 r = 1 \<and> r_seed2 r = 0 \<and> r_seed3 r = 0
               then r\<lparr>r_seed1 := 0x3415, r_seed2 := 0x3415, r_seed3 := 0x66\<rparr> else r)
      in r)"

definition main_seeds :: "int \<Rightarrow> addr \<Rightarrow> kernel \<Rightarrow> kernel option" where
  "main_seeds argc argv s = do {
     let m = w_mem (k_world s);
     seed1 \<leftarrow> get_seed m 1 argc argv;
     seed2 \<leftarrow> get_seed m 2 argc argv;
     seed3 \<leftarrow> get_seed m 3 argc argv;
     iterations \<leftarrow> get_seed_args m 4 argc argv;
     execs \<leftarrow> get_seed_args m 5 argc argv;
     Some (upd_results (\<lambda>r. default_seeds (r\<lparr>r_seed1 := seed1, r_seed2 := seed2, r_seed3 := seed3,
       r_iterations := iterations, r_execs := (if execs = 0 then ALL_ALGORITHMS_MASK else execs)\<rparr>)) s) }"

definition main_alloc :: "int \<Rightarrow> addr \<Rightarrow> kernel \<Rightarrow> kernel option" where
  "main_alloc argc argv s = do {
     seed7 \<leftarrow> get_seed (w_mem (k_world s)) 7 argc argv;
     let malloc_override = (scast seed7 :: ee_s32);
     let sz = (if malloc_override \<noteq> 0 then malloc_override else TOTAL_DATA_SIZE);
     (p, s) \<leftarrow> portable_malloc sz s;
     Some (upd_results (\<lambda>r. r\<lparr>r_size := sz, r_memblock0 := p, r_err := 0\<rparr>) s) }"

definition num_algorithms :: "ee_u32 \<Rightarrow> ee_u16" where
  "num_algorithms execs = foldl (\<lambda>n i. if push_bit i 1 AND execs \<noteq> 0 then n + 1 else n) 0 [0..<3]"

definition set_memblock :: "nat \<Rightarrow> addr \<Rightarrow> core_results \<Rightarrow> core_results" where
  "set_memblock i p r =
     (if i = 1 then r\<lparr>r_memblock1 := p\<rparr> else if i = 2 then r\<lparr>r_memblock2 := p\<rparr> else r\<lparr>r_memblock3 := p\<rparr>)"

definition assign_pointers :: "core_results \<Rightarrow> core_results" where
  "assign_pointers r = fst (foldl (\<lambda>(r, j :: ee_u16) i.
     if push_bit i 1 AND r_execs r \<noteq> 0
     then (set_memblock (i + 1) (r_memblock0 r + r_size r * ucast j) r, j + 1) else (r, j)) (r, 0) [0..<3])"

text \<open>With no algorithm selected the size is divided by zero, which has no defined result in C: \<open>None\<close>.\<close>

definition main_layout :: "kernel \<Rightarrow> kernel option" where
  "main_layout s =
     (let n = num_algorithms (r_execs (results s)) in
      if n = 0 then None
      else Some (upd_results (\<lambda>r. assign_pointers (r\<lparr>r_size := r_size r div ucast n\<rparr>)) s))"

definition main_inits :: "kernel \<Rightarrow> kernel option" where
  "main_inits s = do {
     let r = results s;
     w \<leftarrow> (if r_execs r AND ID_LIST \<noteq> 0 then
             (case core_list_init (r_size r) (r_memblock1 r) (r_seed1 r) (k_world s) of
                None \<Rightarrow> None | Some (list, w) \<Rightarrow> Some (w\<lparr>w_res := (w_res w)\<lparr>r_list := list\<rparr>\<rparr>))
           else Some (k_world s));
     w \<leftarrow> (if r_execs r AND ID_MATRIX \<noteq> 0 then
             (case core_init_matrix (w_mem w) (r_size r) (r_memblock2 r) (scast (r_seed1 r) OR push_bit 16 (scast (r_seed2 r))) of
                None \<Rightarrow> None | Some (m, mat, _) \<Rightarrow> Some (w\<lparr>w_mem := m, w_res := (w_res w)\<lparr>r_mat := mat\<rparr>\<rparr>))
           else Some w);
     w \<leftarrow> (if r_execs r AND ID_STATE \<noteq> 0 then
             (case core_init_state (w_mem w) (r_size r) (r_seed1 r) (r_memblock3 r) of
                None \<Rightarrow> None | Some m \<Rightarrow> Some (w\<lparr>w_mem := m\<rparr>))
           else Some w);
     Some (s\<lparr>k_world := w\<rparr>) }"

subsection \<open>Timed runs\<close>

text \<open>\<open>u\<close> is the uninitialised field of the local variable in \<open>core_bench_list\<close>.\<close>

definition timed_iterate :: "(nat \<Rightarrow> ee_u32) \<Rightarrow> ee_s16 \<Rightarrow> kernel \<Rightarrow> kernel option" where
  "timed_iterate rdtime u s =
     (let s = start_time rdtime s in
      case iterate u (k_world s) of None \<Rightarrow> None | Some w \<Rightarrow> Some (stop_time rdtime (s\<lparr>k_world := w\<rparr>)))"

partial_function (option) calibrate :: "(nat \<Rightarrow> ee_u32) \<Rightarrow> ee_s16 \<Rightarrow> ee_u32 \<Rightarrow> kernel \<Rightarrow> (ee_u32 \<times> kernel) option" where
  "calibrate rdtime u secs_passed s =
     (if secs_passed < 1 then
        case timed_iterate rdtime u (upd_results (\<lambda>r. r\<lparr>r_iterations := r_iterations r * 10\<rparr>) s) of
          None \<Rightarrow> None
        | Some s \<Rightarrow> calibrate rdtime u (time_in_secs (get_time s)) s
      else Some (secs_passed, s))"

definition main_iterations :: "(nat \<Rightarrow> ee_u32) \<Rightarrow> ee_s16 \<Rightarrow> kernel \<Rightarrow> kernel option" where
  "main_iterations rdtime u s =
     (if r_iterations (results s) = 0 then do {
        (secs_passed, s) \<leftarrow> calibrate rdtime u 0 (upd_results (\<lambda>r. r\<lparr>r_iterations := 1\<rparr>) s);
        let divisor = (if secs_passed = 0 then 1 else secs_passed);
        Some (upd_results (\<lambda>r. r\<lparr>r_iterations := r_iterations r * (1 + 10 div divisor)\<rparr>) s) }
      else Some s)"

subsection \<open>Validation and report\<close>

definition list_known_crc :: "ee_u16 list" where "list_known_crc = [0xd4b0, 0x3340, 0x6a79, 0xe714, 0xe3c1]"
definition matrix_known_crc :: "ee_u16 list" where "matrix_known_crc = [0xbe52, 0x1199, 0x5608, 0x1fd7, 0x0747]"
definition state_known_crc :: "ee_u16 list" where "state_known_crc = [0x5e47, 0x39bf, 0xe5a4, 0x8e3a, 0x8d84]"

definition seed_crc :: "core_results \<Rightarrow> ee_u16" where
  "seed_crc r = crc16 (ucast (r_size r)) (crc16 (r_seed3 r) (crc16 (r_seed2 r) (crc16 (r_seed1 r) 0)))"

text \<open>The switch on the seed CRC: \<open>known_id\<close> and \<open>total_errors\<close>.\<close>

definition known_run :: "ee_u16 \<Rightarrow> kernel \<Rightarrow> int \<times> ee_s16 \<times> kernel" where
  "known_run seedcrc s =
     (if seedcrc = 0x8a02 then (0, 0, ee_printf (''6k performance run parameters for coremark.'' @ nl) [] s)
      else if seedcrc = 0x7b05 then (1, 0, ee_printf (''6k validation run parameters for coremark.'' @ nl) [] s)
      else if seedcrc = 0x4eaf then (2, 0, ee_printf (''Profile generation run parameters for coremark.'' @ nl) [] s)
      else if seedcrc = 0xe9f5 then (3, 0, ee_printf (''2K performance run parameters for coremark.'' @ nl) [] s)
      else if seedcrc = 0x18f2 then (4, 0, ee_printf (''2K validation run parameters for coremark.'' @ nl) [] s)
      else (-1, -1, s))"

text \<open>One of the three comparisons with the tables, in the context 0.\<close>

definition check_crc :: "ee_u32 \<Rightarrow> string \<Rightarrow> ee_u16 \<Rightarrow> ee_u16 \<Rightarrow> kernel \<Rightarrow> kernel" where
  "check_crc algorithm fmt crc known s =
     (if r_execs (results s) AND algorithm \<noteq> 0 \<and> crc \<noteq> known
      then upd_results (\<lambda>r. r\<lparr>r_err := r_err r + 1\<rparr>) (ee_printf fmt [UArg 0, UArg (ucast crc), UArg (ucast known)] s)
      else s)"

definition validate :: "int \<Rightarrow> ee_s16 \<Rightarrow> kernel \<Rightarrow> ee_s16 \<times> kernel" where
  "validate known_id total_errors s =
     (if known_id \<ge> 0 then
        let k = nat known_id;
            s = upd_results (\<lambda>r. r\<lparr>r_err := 0\<rparr>) s;
            s = check_crc ID_LIST (''[%u]ERROR! list crc 0x%04x - should be 0x%04x'' @ nl) (r_crclist (results s)) (list_known_crc ! k) s;
            s = check_crc ID_MATRIX (''[%u]ERROR! matrix crc 0x%04x - should be 0x%04x'' @ nl) (r_crcmatrix (results s)) (matrix_known_crc ! k) s;
            s = check_crc ID_STATE (''[%u]ERROR! state crc 0x%04x - should be 0x%04x'' @ nl) (r_crcstate (results s)) (state_known_crc ! k) s
        in (total_errors + r_err (results s), s)
      else (total_errors, s))"

definition report_time :: "ee_u32 \<Rightarrow> ee_s16 \<Rightarrow> kernel \<Rightarrow> ee_s16 \<times> kernel" where
  "report_time total_time total_errors s =
     (let s = ee_printf (''CoreMark Size    : %lu'' @ nl) [UArg (r_size (results s))] s;
          s = ee_printf (''Total ticks      : %lu'' @ nl) [UArg total_time] s;
          s = ee_printf (''Total time (secs): %d'' @ nl) [UArg (time_in_secs total_time)] s;
          s = (if time_in_secs total_time > 0
               then ee_printf (''Iterations/Sec   : %d'' @ nl) [UArg (r_iterations (results s) div time_in_secs total_time)] s else s)
      in if time_in_secs total_time < 10
         then (total_errors + 1, ee_printf (''ERROR! Must execute for at least 10 secs for a valid result!'' @ nl) [] s)
         else (total_errors, s))"

definition report_crcs :: "ee_u16 \<Rightarrow> kernel \<Rightarrow> kernel" where
  "report_crcs seedcrc s =
     (let s = ee_printf (''Iterations       : %lu'' @ nl) [UArg (r_iterations (results s))] s;
          s = ee_printf (''Compiler version : %s'' @ nl) [SArg ''9.2.0''] s;
          s = ee_printf (''Compiler flags   : %s'' @ nl) [SArg ''-O2''] s;
          s = ee_printf (''Memory location  : %s'' @ nl) [SArg ''HEAP''] s;
          s = ee_printf (''seedcrc          : 0x%04x'' @ nl) [UArg (ucast seedcrc)] s;
          s = (if r_execs (results s) AND ID_LIST \<noteq> 0
               then ee_printf (''[%d]crclist       : 0x%04x'' @ nl) [UArg 0, UArg (ucast (r_crclist (results s)))] s else s);
          s = (if r_execs (results s) AND ID_MATRIX \<noteq> 0
               then ee_printf (''[%d]crcmatrix     : 0x%04x'' @ nl) [UArg 0, UArg (ucast (r_crcmatrix (results s)))] s else s);
          s = (if r_execs (results s) AND ID_STATE \<noteq> 0
               then ee_printf (''[%d]crcstate      : 0x%04x'' @ nl) [UArg 0, UArg (ucast (r_crcstate (results s)))] s else s)
      in ee_printf (''[%d]crcfinal      : 0x%04x'' @ nl) [UArg 0, UArg (ucast (r_crc (results s)))] s)"

definition validated_msg :: string where
  "validated_msg = ''Correct operation validated. See README.md for run and reporting rules.'' @ nl"

definition report_verdict :: "ee_s16 \<Rightarrow> kernel \<Rightarrow> kernel" where
  "report_verdict total_errors s =
     (let s = (if total_errors = 0 then ee_printf validated_msg [] s else s);
          s = (if sint total_errors > 0 then ee_printf (''Errors detected'' @ nl) [] s else s);
          s = (if sint total_errors < 0 then ee_printf
                 (''Cannot validate operation for these seed values, please compare with results on a known platform.'' @ nl) [] s
               else s)
      in s)"

definition main_report :: "kernel \<Rightarrow> kernel" where
  "main_report s =
     (let total_time = get_time s;
          seedcrc = seed_crc (results s);
          (known_id, total_errors, s) = known_run seedcrc s;
          (total_errors, s) = validate known_id total_errors s;
          total_errors = total_errors + ucast (check_data_types 1 2 2 4 4 4 4);
          (total_errors, s) = report_time total_time total_errors s;
          s = report_crcs seedcrc s
      in report_verdict total_errors s)"

text \<open>The whole program.  \<open>sizeof_list_head\<close> is 8 on this target.\<close>

definition main :: "(nat \<Rightarrow> ee_u32) \<Rightarrow> ee_s16 \<Rightarrow> nat \<Rightarrow> int \<Rightarrow> addr \<Rightarrow> kernel \<Rightarrow> (int \<times> kernel) option" where
  "main rdtime u sizeof_list_head argc argv s =
     (let s = portable_init 4 4 4 s in
      if sizeof_list_head > 128
      then Some (0, ee_printf (''list_head structure too big for comparable data!'' @ nl) [] s)
      else do {
        s \<leftarrow> main_seeds argc argv s;
        s \<leftarrow> main_alloc argc argv s;
        s \<leftarrow> main_layout s;
        s \<leftarrow> main_inits s;
        s \<leftarrow> main_iterations rdtime u s;
        s \<leftarrow> timed_iterate rdtime u s;
        let s = main_report s;
        let s = portable_free (r_memblock0 (results s)) s;
        Some (0, portable_fini s) })"

section \<open>The verdict\<close>

text \<open>Evaluation of the CRC on constants.\<close>

lemma crc_loop_step:
  "crc_loop (Suc i) d c = crc_loop i (drop_bit 1 d) (if odd d = odd c then drop_bit 1 c else drop_bit 1 c XOR 0xa001)"
proof -
  have "crc_round d c = (drop_bit 1 d, if odd d = odd c then drop_bit 1 c else drop_bit 1 c XOR 0xa001)"
    by (rule prod_eqI) (auto simp: round_crc bit_0)
  then show ?thesis by simp
qed

lemma crcu8_step: "crcu8 d c = crc_loop (Suc (Suc (Suc (Suc (Suc (Suc (Suc (Suc 0)))))))) d c"
  by (simp add: crcu8_def numeral_eq_Suc)

lemma crc16_eval: "crc16 v c = crcu8 (ucast (drop_bit 8 v)) (crcu8 (ucast v) c)"
  by (simp add: crc16_def crcu16_def)

lemmas crc_eval = crc16_eval crcu8_step crc_loop_step

text \<open>The runs that the switch knows, as its comments describe them: the seeds and the size for each algorithm.\<close>

definition known_runs :: "(ee_s16 \<times> ee_s16 \<times> ee_s16 \<times> ee_u32) list" where
  "known_runs = [(0, 0, 0x66, 2000), (0x3415, 0x3415, 0x66, 2000), (0x8, 0x8, 0x8, 400), (0, 0, 0x66, 666), (0x3415, 0x3415, 0x66, 666)]"

lemma seed_crc_known_runs:
  "map (\<lambda>(s1, s2, s3, n). crc16 (ucast n) (crc16 s3 (crc16 s2 (crc16 s1 0)))) known_runs = [0x8a02, 0x7b05, 0x4eaf, 0xe9f5, 0x18f2]"
  unfolding known_runs_def list.map prod.case by (simp add: crc_eval del: crc_loop.simps(2))

text \<open>A stage that prints, and prints no verdict of success.\<close>

definition quiet :: "kernel \<Rightarrow> kernel \<Rightarrow> bool" where
  "quiet s s' \<longleftrightarrow> (\<exists>ms. k_out s' = k_out s @ ms \<and> (validated_msg, []) \<notin> set ms)"

lemma quiet_refl: "quiet s s"
  by (simp add: quiet_def)

lemma quiet_trans: "quiet s s' \<Longrightarrow> quiet s' s'' \<Longrightarrow> quiet s s''"
  by (auto simp: quiet_def)

lemma quiet_printf: "fmt \<noteq> validated_msg \<Longrightarrow> quiet s s' \<Longrightarrow> quiet s (ee_printf fmt args s')"
  by (auto simp: quiet_def ee_printf_def)

lemma quiet_res: "quiet s s' \<Longrightarrow> quiet s (s'\<lparr>k_world := w\<rparr>)"
  by (simp add: quiet_def)

lemma world_printf [simp]: "k_world (ee_printf fmt args s) = k_world s"
  by (simp add: ee_printf_def)

lemmas quiet_intros = quiet_refl quiet_printf quiet_res

definition known_crcs :: "ee_u16 list" where
  "known_crcs = [0x8a02, 0x7b05, 0x4eaf, 0xe9f5, 0x18f2]"

text \<open>The checks of a run with known seeds: each algorithm that ran has its CRC of the table.\<close>

definition crcs_match :: "nat \<Rightarrow> core_results \<Rightarrow> bool" where
  "crcs_match k r \<longleftrightarrow> (r_execs r AND ID_LIST = 0 \<or> r_crclist r = list_known_crc ! k)
     \<and> (r_execs r AND ID_MATRIX = 0 \<or> r_crcmatrix r = matrix_known_crc ! k)
     \<and> (r_execs r AND ID_STATE = 0 \<or> r_crcstate r = state_known_crc ! k)"

lemma known_run_cases:
  obtains (known) k s' where "k < 5" "known_crcs ! k = c" "known_run c s = (int k, 0, s')" "k_world s' = k_world s" "quiet s s'"
  | (unknown) "c \<notin> set known_crcs" "known_run c s = (-1, -1, s)"
proof -
  have q: "quiet s (ee_printf fmt [] s)" if "fmt \<noteq> validated_msg" for fmt using that by (simp add: quiet_intros)
  consider "c = 0x8a02" | "c = 0x7b05" | "c = 0x4eaf" | "c = 0xe9f5" | "c = 0x18f2" | "c \<notin> set known_crcs"
    by (auto simp: known_crcs_def)
  then show thesis
  proof cases
    case 1
    then show ?thesis by (intro known [of 0 "snd (snd (known_run c s))"]) (simp_all add: known_run_def known_crcs_def q validated_msg_def nl_def)
  next
    case 2
    then show ?thesis by (intro known [of 1 "snd (snd (known_run c s))"]) (simp_all add: known_run_def known_crcs_def q validated_msg_def nl_def)
  next
    case 3
    then show ?thesis by (intro known [of 2 "snd (snd (known_run c s))"]) (simp_all add: known_run_def known_crcs_def q validated_msg_def nl_def)
  next
    case 4
    then show ?thesis by (intro known [of 3 "snd (snd (known_run c s))"]) (simp_all add: known_run_def known_crcs_def q validated_msg_def nl_def)
  next
    case 5
    then show ?thesis by (intro known [of 4 "snd (snd (known_run c s))"]) (simp_all add: known_run_def known_crcs_def q validated_msg_def nl_def)
  next
    case 6
    then show ?thesis by (intro unknown) (auto simp: known_run_def known_crcs_def)
  qed
qed

lemma check_crc_ok:
  "fmt \<noteq> validated_msg \<Longrightarrow> \<exists>s'. check_crc a fmt c k s = s' \<and> quiet s s'
     \<and> results s' = (results s)\<lparr>r_err := r_err (results s) + of_bool (r_execs (results s) AND a \<noteq> 0 \<and> c \<noteq> k)\<rparr>"
  by (auto simp: check_crc_def intro!: quiet_intros)

lemma validate_ok:
  assumes "k < 5"
  shows "\<exists>n s'. validate (int k) 0 s = (of_nat n, s') \<and> n \<le> 3 \<and> (n = 0 \<longleftrightarrow> crcs_match k (results s)) \<and> quiet s s'"
proof -
  let ?s0 = "upd_results (\<lambda>r. r\<lparr>r_err := 0\<rparr>) s" and ?r = "results s"
  let ?b = "\<lambda>a c k. of_bool (r_execs ?r AND a \<noteq> 0 \<and> c \<noteq> k)"
  define s1 where "s1 = check_crc ID_LIST (''[%u]ERROR! list crc 0x%04x - should be 0x%04x'' @ nl) (r_crclist ?r) (list_known_crc ! k) ?s0"
  have 1: "quiet ?s0 s1" "results s1 = ?r\<lparr>r_err := ?b ID_LIST (r_crclist ?r) (list_known_crc ! k)\<rparr>"
    using check_crc_ok [of "''[%u]ERROR! list crc 0x%04x - should be 0x%04x'' @ nl" ID_LIST "r_crclist ?r" "list_known_crc ! k" ?s0]
    by (simp_all add: s1_def validated_msg_def)
  define s2 where "s2 = check_crc ID_MATRIX (''[%u]ERROR! matrix crc 0x%04x - should be 0x%04x'' @ nl) (r_crcmatrix ?r) (matrix_known_crc ! k) s1"
  have 2: "quiet s1 s2" "results s2 = ?r\<lparr>r_err := ?b ID_LIST (r_crclist ?r) (list_known_crc ! k) + ?b ID_MATRIX (r_crcmatrix ?r) (matrix_known_crc ! k)\<rparr>"
    using check_crc_ok [of "''[%u]ERROR! matrix crc 0x%04x - should be 0x%04x'' @ nl" ID_MATRIX "r_crcmatrix ?r" "matrix_known_crc ! k" s1] 1(2)
    by (simp_all add: s2_def validated_msg_def)
  define s3 where "s3 = check_crc ID_STATE (''[%u]ERROR! state crc 0x%04x - should be 0x%04x'' @ nl) (r_crcstate ?r) (state_known_crc ! k) s2"
  have 3: "quiet s2 s3" "r_err (results s3) = ?b ID_LIST (r_crclist ?r) (list_known_crc ! k)
      + ?b ID_MATRIX (r_crcmatrix ?r) (matrix_known_crc ! k) + ?b ID_STATE (r_crcstate ?r) (state_known_crc ! k)"
    using check_crc_ok [of "''[%u]ERROR! state crc 0x%04x - should be 0x%04x'' @ nl" ID_STATE "r_crcstate ?r" "state_known_crc ! k" s2] 2(2)
    by (simp_all add: s3_def validated_msg_def)
  have "quiet s ?s0" by (rule quiet_res [OF quiet_refl])
  then have q: "quiet s s3" using 1(1) 2(1) 3(1) quiet_trans by blast
  have r: "r_crclist (results ?s0) = r_crclist ?r" "r_crcmatrix (results s1) = r_crcmatrix ?r" "r_crcstate (results s2) = r_crcstate ?r"
    using 1(2) 2(2) by simp_all
  have v: "validate (int k) 0 s = (r_err (results s3), s3)"
    by (simp only: validate_def Let_def of_nat_0_le_iff if_True nat_int r s1_def [symmetric] s2_def [symmetric] s3_def [symmetric] add_0)
  define n :: nat where "n = ?b ID_LIST (r_crclist ?r) (list_known_crc ! k) + ?b ID_MATRIX (r_crcmatrix ?r) (matrix_known_crc ! k)
    + ?b ID_STATE (r_crcstate ?r) (state_known_crc ! k)"
  have "r_err (results s3) = of_nat n" by (simp only: 3(2) n_def of_nat_add of_nat_of_bool)
  moreover have "n \<le> 3" by (simp add: n_def of_bool_def)
  moreover have "n = 0 \<longleftrightarrow> crcs_match k ?r" by (auto simp: n_def crcs_match_def)
  ultimately show ?thesis using v q by auto
qed

lemma report_time_ok:
  "\<exists>s'. report_time t e s = (e + of_bool (time_in_secs t < 10), s') \<and> quiet s s'"
  by (auto simp: report_time_def Let_def validated_msg_def intro!: quiet_intros)

lemma report_crcs_quiet: "quiet s (report_crcs c s)"
  unfolding report_crcs_def Let_def
  by (intro quiet_printf, simp_all only: quiet_refl split: if_split) (auto simp: validated_msg_def intro!: quiet_intros)

lemma report_verdict_ok:
  "\<exists>ms. k_out (report_verdict e s) = k_out s @ ms \<and> ((validated_msg, []) \<in> set ms \<longleftrightarrow> e = 0)"
  by (auto simp: report_verdict_def Let_def ee_printf_def validated_msg_def)

section \<open>The run\<close>

definition ready :: "kernel \<Rightarrow> bool" where
  "ready s \<longleftrightarrow> bench_ready (k_world s) \<and> (\<exists>xs. list_indexed (k_world s) xs)"

lemma ready_iterations: "ready (upd_results (\<lambda>r. r\<lparr>r_iterations := x\<rparr>) s) = ready s"
  by (simp add: ready_def bench_ready_def list_indexed_def idx_of_def [abs_def] Let_def)

definition keeps :: "kernel \<Rightarrow> kernel \<Rightarrow> bool" where
  "keeps s s' \<longleftrightarrow> k_heap s' = k_heap s \<and> r_memblock0 (results s') = r_memblock0 (results s)"

lemma timed_iterate_ok:
  assumes "ready s"
  shows "\<exists>s'. timed_iterate rdtime u s = Some s' \<and> ready s' \<and> k_reads s' = k_reads s + 2 \<and> keeps s s'
    \<and> get_time s' = rdtime (k_reads s + 1) - rdtime (k_reads s)"
proof -
  obtain xs where xs: "bench_ready (k_world s)" "list_indexed (k_world s) xs" using assms by (auto simp: ready_def)
  obtain w where "iterate u (k_world s) = Some w" "bench_ready w" "list_indexed w xs" "same_job (w_res (k_world s)) (w_res w)"
    using iterate_ready [OF xs] by blast
  then show ?thesis using same_job_fields
    by (auto simp: timed_iterate_def start_time_def stop_time_def get_time_def ready_def keeps_def Let_def)
qed

lemma time_in_secs_less: "time_in_secs t < 1 \<longleftrightarrow> t < 75000000"
  by (simp add: time_in_secs_def EE_TICKS_PER_SEC_def word_less_nat_alt unat_div div_eq_0_iff)

text \<open>The calibration ends when a round takes a second.\<close>

lemma calibrate_ok:
  assumes "ready s" and "75000000 \<le> rdtime (k_reads s + 2 * k + 1) - rdtime (k_reads s + 2 * k)" and "c < 1"
  shows "\<exists>secs s'. calibrate rdtime u c s = Some (secs, s') \<and> ready s' \<and> 1 \<le> secs \<and> keeps s s'"
  using assms
proof (induction k arbitrary: s c)
  case 0
  let ?s = "upd_results (\<lambda>r. r\<lparr>r_iterations := r_iterations r * 10\<rparr>) s"
  have "ready ?s" using 0 by (simp only: ready_iterations)
  from timed_iterate_ok [OF this, of rdtime u] obtain s' where s': "timed_iterate rdtime u ?s = Some s'" "ready s'" "keeps s s'"
    "get_time s' = rdtime (k_reads s + 1) - rdtime (k_reads s)" by (auto simp: keeps_def)
  have n: "\<not> time_in_secs (get_time s') < 1" unfolding time_in_secs_less s'(4) using 0(2) by (simp add: not_less)
  then have "calibrate rdtime u c s = Some (time_in_secs (get_time s'), s')"
    using 0(3) s'(1) by (subst calibrate.simps, subst calibrate.simps) simp
  then show ?case using s'(2,3) n [unfolded not_less] by blast
next
  case (Suc k)
  let ?s = "upd_results (\<lambda>r. r\<lparr>r_iterations := r_iterations r * 10\<rparr>) s"
  have "ready ?s" using Suc.prems by (simp only: ready_iterations)
  from timed_iterate_ok [OF this, of rdtime u] obtain s' where s': "timed_iterate rdtime u ?s = Some s'" "ready s'" "keeps s s'"
    "k_reads s' = k_reads s + 2" by (auto simp: keeps_def)
  have st: "calibrate rdtime u c s = calibrate rdtime u (time_in_secs (get_time s')) s'"
    using Suc.prems(3) s'(1) by (subst calibrate.simps) simp
  show ?case
  proof (cases "time_in_secs (get_time s') < 1")
    case True
    have "75000000 \<le> rdtime (k_reads s' + 2 * k + 1) - rdtime (k_reads s' + 2 * k)" using Suc.prems(2) by (simp add: s'(4) add.commute add.left_commute)
    from Suc.IH [OF s'(2) this True] show ?thesis unfolding st using s'(3) by (simp add: keeps_def)
  next
    case False
    then have "calibrate rdtime u (time_in_secs (get_time s')) s' = Some (time_in_secs (get_time s'), s')"
      by (subst calibrate.simps) simp
    then show ?thesis unfolding st using s'(2,3) False [unfolded not_less] by blast
  qed
qed

lemma main_iterations_ok:
  assumes "ready s" and "r_iterations (results s) \<noteq> 0 \<or> (\<exists>k. 75000000 \<le> rdtime (k_reads s + 2 * k + 1) - rdtime (k_reads s + 2 * k))"
  shows "\<exists>s'. main_iterations rdtime u s = Some s' \<and> ready s' \<and> keeps s s'"
proof (cases "r_iterations (results s) = 0")
  case True
  let ?s = "upd_results (\<lambda>r. r\<lparr>r_iterations := 1\<rparr>) s"
  have "ready ?s" using assms(1) by (simp only: ready_iterations)
  moreover obtain k where "75000000 \<le> rdtime (k_reads ?s + 2 * k + 1) - rdtime (k_reads ?s + 2 * k)" using assms(2) True by auto
  ultimately obtain secs s' where c: "calibrate rdtime u 0 ?s = Some (secs, s')" "ready s'" "1 \<le> secs" "keeps ?s s'"
    using calibrate_ok [of ?s rdtime k 0 u] by auto
  have "ready (upd_results (\<lambda>r. r\<lparr>r_iterations := r_iterations r * (1 + 10 div (if secs = 0 then 1 else secs))\<rparr>) s')"
    using c(2) by (simp only: ready_iterations)
  then show ?thesis using True c(1,4) by (simp add: main_iterations_def keeps_def)
qed (use assms in \<open>simp add: main_iterations_def keeps_def\<close>)

subsection \<open>From the arguments to the first iteration\<close>

text \<open>Seeds and a size per algorithm with which the blocks fit and the iterations are identical.\<close>

definition good_run :: "ee_s16 \<Rightarrow> ee_u32 \<Rightarrow> bool" where
  "good_run seed sz \<longleftrightarrow> 120 \<le> unat sz \<and> (unat sz - 1) mod 17 \<noteq> 0 \<and> fits_aligned (unat sz)
     \<and> (\<forall>x \<in> alphabet. x XOR ucast seed \<noteq> 44) \<and> indices_distinct (sz div 20 - 2) seed"

lemma upt3: "[0..<3] = [0, 1, 2 :: nat]"
  by (simp add: upt_rec)

lemma all_algorithms:
  "num_algorithms ALL_ALGORITHMS_MASK = 3" "ALL_ALGORITHMS_MASK = 7" "ID_LIST = 1" "ID_MATRIX = 2" "ID_STATE = 4"
  by (simp_all add: num_algorithms_def ALL_ALGORITHMS_MASK_def ID_LIST_def ID_MATRIX_def ID_STATE_def upt3)

lemma assign_all:
  "r_execs r = 7 \<Longrightarrow> assign_pointers r = r\<lparr>r_memblock1 := r_memblock0 r, r_memblock2 := r_memblock0 r + r_size r,
     r_memblock3 := r_memblock0 r + r_size r + r_size r\<rparr>"
  by (simp add: assign_pointers_def upt3 set_memblock_def mult_2_right add.assoc)

lemma inits_ready:
  assumes r: "r_execs (results s) = 7" "r_memblock1 (results s) = p" "r_memblock2 (results s) = p + sz" "r_memblock3 (results s) = p + sz + sz"
    "r_size (results s) = sz" "r_seed1 (results s) = seed" "r_seed2 (results s) = seed"
    and p: "p \<noteq> 0" "unat p + 3 * unat sz + 2 ^ 15 < 2 ^ 32" and g: "good_run seed sz"
  shows "\<exists>s'. main_inits s = Some s' \<and> ready s' \<and> k_reads s' = k_reads s \<and> keeps s s'
    \<and> r_iterations (results s') = r_iterations (results s)"
proof -
  note g' = g [unfolded good_run_def]
  let ?w = "k_world s"
  obtain q w1 xs where w1: "core_list_init sz p seed ?w = Some (q, w1)" "is_list w1 q xs" "sorted_wrt (<) (map (idx_of w1) xs)"
    "3 \<le> length xs" "length xs < 2 ^ 29" "w_res w1 = w_res ?w" "w_mem w1 = w_mem ?w"
    using core_list_init_ok [of sz p seed ?w] g' p by auto
  have u: "unat (p + sz) = unat p + unat sz" using p(2) by (simp add: unat_word_ariths)
  have "p + sz \<noteq> 0"
  proof
    assume "p + sz = 0"
    then have "unat p + unat sz = 0" using u by simp
    then show False using g' by simp
  qed
  then obtain m1 mat N m2 where m: "core_init_matrix (w_mem ?w) sz (p + sz) (scast seed OR push_bit 16 (scast seed)) = Some (m1, mat, N)"
    "core_init_state m1 sz seed (p + sz + sz) = Some m2"
    "\<And>w. w_mem w = m2 \<and> r_mat (w_res w) = mat \<and> r_seed1 (w_res w) = seed \<and> r_seed2 (w_res w) = seed
         \<and> r_size (w_res w) = sz \<and> r_memblock3 (w_res w) = p + sz + sz \<Longrightarrow> bench_ready w"
    using blocks_ready [of "p + sz" sz "p + sz + sz" seed "w_mem ?w" "scast seed OR push_bit 16 (scast seed)" seed] g' p u by auto
  let ?w3 = "w1\<lparr>w_mem := m2, w_res := (w_res ?w)\<lparr>r_list := q, r_mat := mat\<rparr>\<rparr>"
  have "main_inits s = Some (s\<lparr>k_world := ?w3\<rparr>)"
    using r w1(1,6,7) m(1,2) by (simp add: main_inits_def all_algorithms)
  moreover have "bench_ready ?w3" by (rule m(3)) (use r in simp)
  moreover have "list_indexed ?w3 xs" using w1(2-5) by (simp add: list_indexed_def idx_of_def [abs_def])
  ultimately show ?thesis by (auto simp: ready_def keeps_def)
qed

lemma unat_div3: "unat (n div 3) = unat n div 3" for n :: ee_u32
  by (simp add: unat_div)

text \<open>What \<open>main\<close> makes of the values \<open>v\<close> of its arguments.\<close>

definition run_seeds :: "(int \<Rightarrow> ee_s32) \<Rightarrow> ee_s16 \<times> ee_s16 \<times> ee_s16" where
  "run_seeds v = (let s1 = ucast (v 1); s2 = ucast (v 2); s3 = ucast (v 3) in
     if s1 = 0 \<and> s2 = 0 \<and> s3 = 0 then (0, 0, 0x66)
     else if s1 = 1 \<and> s2 = 0 \<and> s3 = 0 then (0x3415, 0x3415, 0x66) else (s1, s2, s3))"

definition run_size :: "(int \<Rightarrow> ee_s32) \<Rightarrow> ee_u32" where
  "run_size v = (let n = ucast (v 7) :: ee_s16 in if n = 0 then 2000 else scast n)"

lemma default_seeds_run:
  "default_seeds (r\<lparr>r_seed1 := ucast (v 1), r_seed2 := ucast (v 2), r_seed3 := ucast (v 3), r_iterations := n, r_execs := e\<rparr>)
   = (case run_seeds v of (a, b, c) \<Rightarrow> r\<lparr>r_iterations := n, r_execs := e, r_seed1 := a, r_seed2 := b, r_seed3 := c\<rparr>)"
  by (simp add: default_seeds_def run_seeds_def Let_def)

lemma scast_eq_0: "scast n = (0 :: ee_s32) \<longleftrightarrow> n = 0" for n :: ee_s16
proof
  assume "scast n = (0 :: ee_s32)"
  moreover have "ucast (scast n :: ee_s32) = n" by (rule bit_word_eqI) (auto simp: bit_simps)
  ultimately show "n = 0" by (metis unsigned_0)
qed simp

text \<open>The state that the seeds, the allocation and the layout lead to.\<close>

lemma prepare_ok:
  assumes v: "\<And>i. i \<in> {1, 2, 3, 4, 5, 7} \<Longrightarrow> get_seed_args (w_mem (k_world s)) i argc argv = Some (v i)"
    and ex: "v 5 = 0 \<or> v 5 = 7" and m: "malloc (run_size v) (k_heap s) = Some (p, h)" and sd: "run_seeds v = (seed, seed, seed3)"
  shows "\<exists>s1 s2 s3. main_seeds argc argv s = Some s1 \<and> main_alloc argc argv s1 = Some s2 \<and> main_layout s2 = Some s3
    \<and> k_heap s3 = h \<and> k_reads s3 = k_reads s \<and> r_iterations (results s3) = v 4 \<and> r_memblock0 (results s3) = p
    \<and> r_execs (results s3) = 7 \<and> r_memblock1 (results s3) = p \<and> r_memblock2 (results s3) = p + run_size v div 3
    \<and> r_memblock3 (results s3) = p + run_size v div 3 + run_size v div 3
    \<and> r_size (results s3) = run_size v div 3 \<and> r_seed1 (results s3) = seed \<and> r_seed2 (results s3) = seed"
proof -
  let ?m = "w_mem (k_world s)"
  have g: "get_seed ?m 1 argc argv = Some (ucast (v 1))" "get_seed ?m 2 argc argv = Some (ucast (v 2))" "get_seed ?m 3 argc argv = Some (ucast (v 3))"
    "get_seed_args ?m 4 argc argv = Some (v 4)" "get_seed_args ?m 5 argc argv = Some (v 5)" "get_seed ?m 7 argc argv = Some (ucast (v 7))"
    using v by (simp_all add: get_seed_def)
  define r1 where "r1 = (results s)\<lparr>r_iterations := v 4, r_execs := 7, r_seed1 := seed, r_seed2 := seed, r_seed3 := seed3\<rparr>"
  let ?s1 = "s\<lparr>k_world := (k_world s)\<lparr>w_res := r1\<rparr>\<rparr>"
  have e: "(if v 5 = 0 then ALL_ALGORITHMS_MASK else v 5) = 7" using ex by (auto simp: all_algorithms)
  have "default_seeds ((results s)\<lparr>r_seed1 := ucast (v 1), r_seed2 := ucast (v 2), r_seed3 := ucast (v 3), r_iterations := v 4, r_execs := 7\<rparr>) = r1"
    using default_seeds_run [where r = "results s" and v = v and n = "v 4" and e = 7] sd by (simp add: r1_def)
  then have 1: "main_seeds argc argv s = Some ?s1"
    by (simp add: main_seeds_def g e)
  let ?r2 = "r1\<lparr>r_size := run_size v, r_memblock0 := p, r_err := 0\<rparr>"
  let ?s2 = "s\<lparr>k_heap := h, k_world := (k_world s)\<lparr>w_res := ?r2\<rparr>\<rparr>"
  have sz: "(if scast (ucast (v 7) :: ee_s16) \<noteq> (0 :: ee_s32) then scast (ucast (v 7) :: ee_s16) else TOTAL_DATA_SIZE) = run_size v"
    by (simp add: run_size_def scast_eq_0 TOTAL_DATA_SIZE_def)
  have 2: "main_alloc argc argv ?s1 = Some ?s2"
    using sz m by (simp add: main_alloc_def g portable_malloc_def Let_def)
  let ?r3 = "assign_pointers (?r2\<lparr>r_size := run_size v div 3\<rparr>)"
  have x: "r_execs ?r2 = 7" by (simp add: r1_def)
  have "num_algorithms 7 = 3" using all_algorithms by simp
  then have 3: "main_layout ?s2 = Some (s\<lparr>k_heap := h, k_world := (k_world s)\<lparr>w_res := ?r3\<rparr>\<rparr>)"
    using x by (simp add: main_layout_def Let_def)
  show ?thesis
    using 1 2 3 assign_all [of "?r2\<lparr>r_size := run_size v div 3\<rparr>"] x by (simp add: r1_def)
qed

lemma keeps_printf [simp]: "keeps s (ee_printf fmt args s') = keeps s s'"
  by (simp add: keeps_def ee_printf_def)

lemma keeps_err [simp]: "keeps s (upd_results (\<lambda>r. r\<lparr>r_err := x\<rparr>) s') = keeps s s'"
  by (simp add: keeps_def)

lemma keeps_if [simp]: "keeps s (if b then s1 else s2) = (if b then keeps s s1 else keeps s s2)"
  by simp

lemma check_crc_keeps [simp]: "keeps s (check_crc a fmt c k s') = keeps s s'"
  by (simp add: check_crc_def keeps_def ee_printf_def)

lemma keeps_trans: "keeps s s' \<Longrightarrow> keeps s' s'' \<Longrightarrow> keeps s s''"
  by (simp add: keeps_def)

lemma report_keeps: "keeps s (main_report s)"
proof -
  have r: "keeps s s" for s by (simp add: keeps_def)
  have k: "keeps s (snd (snd (known_run c s)))" for c s by (simp add: known_run_def r)
  have v: "keeps s (snd (validate i e s))" for i e s by (simp add: validate_def Let_def r)
  have t: "keeps s (snd (report_time t e s))" for t e s by (simp add: report_time_def Let_def r)
  have c: "keeps s (report_crcs c s)" for c s unfolding report_crcs_def Let_def by (simp add: r)
  have d: "keeps s (report_verdict e s)" for e s unfolding report_verdict_def Let_def by (simp add: r)
  obtain i e s1 where 1: "known_run (seed_crc (results s)) s = (i, e, s1)" by (metis prod_cases3)
  obtain e2 s2 where 2: "validate i e s1 = (e2, s2)" by (metis prod.exhaust)
  let ?e = "e2 + ucast (check_data_types 1 2 2 4 4 4 4)"
  obtain e3 s3 where 3: "report_time (get_time s) ?e s2 = (e3, s3)" by (metis prod.exhaust)
  have "main_report s = report_verdict e3 (report_crcs (seed_crc (results s)) s3)"
    unfolding main_report_def Let_def 1 prod.case 2 3 by simp
  moreover have "keeps s s1" "keeps s1 s2" "keeps s2 s3"
    using k [of s "seed_crc (results s)"] v [of s1 i e] t [of s2 "get_time s" ?e] 1 2 3 by simp_all
  ultimately show ?thesis using c d by (metis keeps_trans)
qed

section \<open>Properties\<close>

text \<open>C30 The verdict: the report says that the operation is validated exactly when the seeds are those of a known run, every
  algorithm that ran has the CRC of the table and the run took at least 10 seconds, or when the seeds are not known and the
  run was shorter than 10 seconds.  In the second case nothing was checked: the error for the short run cancels the \<open>-1\<close>
  that stands for unknown seeds.\<close>

theorem report_validates:
  "\<exists>ms. k_out (main_report s) = k_out s @ ms \<and>
     ((validated_msg, []) \<in> set ms \<longleftrightarrow>
        (if seed_crc (results s) \<in> set known_crcs
         then 10 \<le> time_in_secs (get_time s) \<and> (\<exists>k < 5. known_crcs ! k = seed_crc (results s) \<and> crcs_match k (results s))
         else time_in_secs (get_time s) < 10))"
proof -
  let ?t = "get_time s" and ?c = "seed_crc (results s)"
  have d: "distinct known_crcs" "length known_crcs = 5" by (simp_all add: known_crcs_def)
  have dt: "ucast (check_data_types 1 2 2 4 4 4 4) = (0 :: ee_s16)" by (simp add: check_data_types_def)
  obtain e s1 where e: "(case known_run ?c s of (i, e, s') \<Rightarrow> validate i e s') = (e, s1)" "quiet s s1"
    "e + of_bool (time_in_secs ?t < 10) = 0 \<longleftrightarrow> (if ?c \<in> set known_crcs
       then \<not> time_in_secs ?t < 10 \<and> (\<exists>k < 5. known_crcs ! k = ?c \<and> crcs_match k (results s)) else time_in_secs ?t < 10)"
  proof (cases rule: known_run_cases [of ?c s])
    case (known k s')
    have in_c: "?c \<in> set known_crcs" using known(1,2) d(2) nth_mem by metis
    have uniq: "j = k" if "j < 5" "known_crcs ! j = ?c" for j
      using that known(1,2) d nth_eq_iff_index_eq by metis
    obtain n s1 where v: "validate (int k) 0 s' = (of_nat n, s1)" "n \<le> 3" "n = 0 \<longleftrightarrow> crcs_match k (results s)" "quiet s' s1"
      using validate_ok [OF known(1), of s'] known(4) by auto
    have n: "n = 0 \<or> n = 1 \<or> n = 2 \<or> n = 3" using v(2) by linarith
    have z: "of_nat n + of_bool b = (0 :: ee_s16) \<longleftrightarrow> n = 0 \<and> \<not> b" for b
      using n by (cases b) (elim disjE; simp)+
    have m: "(\<exists>k < 5. known_crcs ! k = ?c \<and> crcs_match k (results s)) \<longleftrightarrow> crcs_match k (results s)"
      using known(1,2) uniq by blast
    show ?thesis
    proof (rule that)
      show "(case known_run ?c s of (i, e, s') \<Rightarrow> validate i e s') = (of_nat n, s1)" by (simp only: known(3) prod.case v(1))
      show "quiet s s1" by (rule quiet_trans [OF known(5) v(4)])
    qed (simp only: z v(3) in_c if_True m, blast)
  next
    case unknown
    then show ?thesis using that [of "-1" s] quiet_refl by (simp add: validate_def)
  qed
  obtain i0 e0 s0 where k: "known_run ?c s = (i0, e0, s0)" by (metis prod_cases3)
  then have v: "validate i0 e0 s0 = (e, s1)" using e(1) by simp
  obtain s2 where s2: "report_time ?t e s1 = (e + of_bool (time_in_secs ?t < 10), s2)" "quiet s1 s2" using report_time_ok by blast
  let ?s3 = "report_crcs ?c s2" and ?e = "e + of_bool (time_in_secs ?t < 10)"
  have "quiet s ?s3" using e(2) s2(2) report_crcs_quiet quiet_trans by blast
  then obtain ms where ms: "k_out ?s3 = k_out s @ ms" "(validated_msg, []) \<notin> set ms" by (auto simp: quiet_def)
  obtain ms' where ms': "k_out (report_verdict ?e ?s3) = k_out ?s3 @ ms'" "(validated_msg, []) \<in> set ms' \<longleftrightarrow> ?e = 0"
    using report_verdict_ok by blast
  have "main_report s = report_verdict ?e ?s3"
    unfolding main_report_def Let_def k prod.case v dt add_0_right s2(1) by simp
  then show ?thesis using ms ms' e(3) by (intro exI [of _ "ms @ ms'"]) (simp add: not_less)
qed


text \<open>The run without arguments is a good one: seeds 0, 0, 0x66 and 666 bytes for each algorithm.\<close>

lemma default_run_good: "good_run 0 666"
proof -
  have sq: "83 \<noteq> n * n" for n :: nat
  proof (cases "n \<le> 9")
    case True
    then have "n * n \<le> 9 * 9" by (intro mult_le_mono)
    then show ?thesis by simp
  next
    case False
    then have "10 * 10 \<le> n * n" by (intro mult_le_mono) simp_all
    then show ?thesis by simp
  qed
  have "fits_aligned 666"
    unfolding fits_aligned_def
  proof (intro allI conjI)
    show "666 \<noteq> 8 * (n * n) + 1" for n :: nat by presburger
    show "666 \<noteq> 8 * (n * n) + 2" for n :: nat using sq [of n] by linarith
  qed
  moreover have "indices_distinct 31 0" by (simp add: upt_rec indices_distinct_def item_idx_def)
  ultimately show ?thesis by (simp add: good_run_def alphabet_eq)
qed

definition sample_kernel :: kernel where
  "sample_kernel = \<lparr>k_world = bench_sample, k_heap = start_heap, k_uart = uart_reset, k_start_time_val = 0, k_stop_time_val = 0,
     k_reads = 0, k_out = []\<rparr>"


end
