(* ===== verification/Arrays.thy ===== *)
theory Arrays
  imports Prelude
begin

text \<open>
  C arrays that a program reaches only by name, as lists: an access outside the array, which C leaves undefined, gives \<open>None\<close>.
\<close>

definition get :: "'a list \<Rightarrow> int \<Rightarrow> 'a option" where
  "get xs i = (if 0 \<le> i \<and> i < int (length xs) then Some (xs ! nat i) else None)"

definition put :: "'a list \<Rightarrow> int \<Rightarrow> 'a \<Rightarrow> 'a list option" where
  "put xs i v = (if 0 \<le> i \<and> i < int (length xs) then Some (xs[nat i := v]) else None)"

definition put2 :: "'a list list \<Rightarrow> int \<Rightarrow> int \<Rightarrow> 'a \<Rightarrow> 'a list list option" where
  "put2 xs i j v = (if 0 \<le> i \<and> i < int (length xs) then
     (case put (xs ! nat i) j v of None \<Rightarrow> None | Some row \<Rightarrow> put xs i row) else None)"

lemma get_in [simp]: "i < length xs \<Longrightarrow> get xs (int i) = Some (xs ! i)"
  by (simp add: get_def)

lemma put_in [simp]: "i < length xs \<Longrightarrow> put xs (int i) v = Some (xs[i := v])"
  by (simp add: put_def)

lemma put2_in [simp]: "i < length xs \<Longrightarrow> j < length (xs ! i) \<Longrightarrow> put2 xs (int i) (int j) v = Some (xs[i := (xs ! i)[j := v]])"
  by (simp add: put2_def)

end
