(* ===== verification/Dhrystone.thy ===== *)
theory Dhrystone
  imports Str_Ops Arrays
begin

text \<open>
  The Dhrystone benchmark (\<open>sw/kernels/dhrystone/dhrystone_main.c\<close>, \<open>dhrystone.c\<close>).  The program prints, beside the final
  value of each variable, the value it should have; the result of this theory is that it has.

  Global variables are the fields of a record, the two structures a map from their addresses; of the union in a structure the program
  uses the first variant only.  A \<open>Str_30\<close> is its string,
  the bytes in front of the null byte: \<open>strcpy\<close> of a literal assigns it, and \<open>strcmp\<close> is \<open>cmp_bytes\<close> (lemma \<open>strcmp_ok\<close> of the
  string library).  An \<open>int\<close> is an integer that wraps at 32 bits, and writing outside an array gives \<open>None\<close>.  Reference
  parameters are returned.
\<close>

section \<open>Definitions\<close>

datatype Enumeration = Ident_1 | Ident_2 | Ident_3 | Ident_4 | Ident_5

record Rec_Type =
  Ptr_Comp :: addr
  Discr :: Enumeration
  Enum_Comp :: Enumeration
  Int_Comp :: int
  Str_Comp :: "byte list"

record dhry =
  Ptr_Glob :: addr
  Next_Ptr_Glob :: addr
  Int_Glob :: int
  Bool_Glob :: int
  Ch_1_Glob :: byte
  Ch_2_Glob :: byte
  Arr_1_Glob :: "int list"
  Arr_2_Glob :: "int list list"
  Begin_Time :: uint
  End_Time :: uint
  d_rec :: "addr \<Rightarrow> Rec_Type"

abbreviation (input) upd_rec :: "addr \<Rightarrow> (Rec_Type \<Rightarrow> Rec_Type) \<Rightarrow> dhry \<Rightarrow> dhry" where
  "upd_rec p f s \<equiv> s\<lparr>d_rec := (d_rec s)(p := f (d_rec s p))\<rparr>"

text \<open>A character of a string or its null byte.\<close>

definition char_at :: "byte list \<Rightarrow> int \<Rightarrow> byte" where
  "char_at xs i = (xs @ [0]) ! nat i"

subsection \<open>dhrystone.c\<close>

definition Func_3 :: "Enumeration \<Rightarrow> bool" where
  "Func_3 Enum_Par_Val = (let Enum_Loc = Enum_Par_Val in if Enum_Loc = Ident_3 then True else False)"

definition Proc_6 :: "Enumeration \<Rightarrow> dhry \<Rightarrow> Enumeration" where
  "Proc_6 Enum_Val_Par s =
     (let Enum_Ref_Par = Enum_Val_Par;
          Enum_Ref_Par = (if \<not> Func_3 Enum_Val_Par then Ident_4 else Enum_Ref_Par)
      in case Enum_Val_Par of
           Ident_1 \<Rightarrow> Ident_1
         | Ident_2 \<Rightarrow> if Int_Glob s > 100 then Ident_1 else Ident_4
         | Ident_3 \<Rightarrow> Ident_2
         | Ident_4 \<Rightarrow> Enum_Ref_Par
         | Ident_5 \<Rightarrow> Ident_3)"

definition Proc_7 :: "int \<Rightarrow> int \<Rightarrow> int" where
  "Proc_7 Int_1_Par_Val Int_2_Par_Val = (let Int_Loc = i32 (Int_1_Par_Val + 2) in i32 (Int_2_Par_Val + Int_Loc))"

function proc_8_loop :: "int \<Rightarrow> int \<Rightarrow> int list list \<Rightarrow> int list list option" where
  "proc_8_loop Int_Loc Int_Index a2 =
     (if Int_Index \<le> Int_Loc + 1 then
        (case put2 a2 Int_Loc Int_Index Int_Loc of None \<Rightarrow> None | Some a2 \<Rightarrow> proc_8_loop Int_Loc (Int_Index + 1) a2)
      else Some a2)"
  by pat_completeness auto
termination
  by (relation "measure (\<lambda>(l, i, a). nat (l + 2 - i))") auto

declare proc_8_loop.simps [simp del]

definition Proc_8 :: "int \<Rightarrow> int \<Rightarrow> dhry \<Rightarrow> dhry option" where
  "Proc_8 Int_1_Par_Val Int_2_Par_Val s = do {
     let Int_Loc = i32 (Int_1_Par_Val + 5);
     a1 \<leftarrow> put (Arr_1_Glob s) Int_Loc Int_2_Par_Val;
     a1 \<leftarrow> put a1 (i32 (Int_Loc + 1)) (a1 ! nat Int_Loc);
     a1 \<leftarrow> put a1 (i32 (Int_Loc + 30)) Int_Loc;
     a2 \<leftarrow> proc_8_loop Int_Loc Int_Loc (Arr_2_Glob s);
     a2 \<leftarrow> put2 a2 Int_Loc (i32 (Int_Loc - 1)) (i32 (a2 ! nat Int_Loc ! nat (i32 (Int_Loc - 1)) + 1));
     a2 \<leftarrow> put2 a2 (i32 (Int_Loc + 20)) Int_Loc (a1 ! nat Int_Loc);
     Some (s\<lparr>Arr_1_Glob := a1, Arr_2_Glob := a2, Int_Glob := 5\<rparr>) }"

definition Func_1 :: "byte \<Rightarrow> byte \<Rightarrow> dhry \<Rightarrow> Enumeration \<times> dhry" where
  "Func_1 Ch_1_Par_Val Ch_2_Par_Val s =
     (let Ch_1_Loc = Ch_1_Par_Val; Ch_2_Loc = Ch_1_Loc in
      if Ch_2_Loc \<noteq> Ch_2_Par_Val then (Ident_1, s) else (Ident_2, s\<lparr>Ch_1_Glob := Ch_1_Loc\<rparr>))"

partial_function (option) func_2_loop :: "byte list \<Rightarrow> byte list \<Rightarrow> int \<Rightarrow> byte \<Rightarrow> dhry \<Rightarrow> (int \<times> byte \<times> dhry) option" where
  "func_2_loop str_1 str_2 Int_Loc Ch_Loc s =
     (if Int_Loc \<le> 2 then
        let (e, s) = Func_1 (char_at str_1 Int_Loc) (char_at str_2 (Int_Loc + 1)) s in
        if e = Ident_1 then func_2_loop str_1 str_2 (Int_Loc + 1) (ch (CHR ''A'')) s
        else func_2_loop str_1 str_2 Int_Loc Ch_Loc s
      else Some (Int_Loc, Ch_Loc, s))"

text \<open>\<open>Ch_Loc\<close> starts uninitialised, with the value \<open>u\<close>.\<close>

definition Func_2 :: "byte \<Rightarrow> byte list \<Rightarrow> byte list \<Rightarrow> dhry \<Rightarrow> (int \<times> dhry) option" where
  "Func_2 u Str_1_Par_Ref Str_2_Par_Ref s = do {
     (Int_Loc, Ch_Loc, s) \<leftarrow> func_2_loop Str_1_Par_Ref Str_2_Par_Ref 2 u s;
     let Int_Loc = (if Ch_Loc \<ge> ch (CHR ''W'') \<and> Ch_Loc < ch (CHR ''Z'') then 7 else Int_Loc);
     if Ch_Loc = ch (CHR ''R'') then Some (1, s)
     else if cmp_bytes (Str_1_Par_Ref @ [0]) (Str_2_Par_Ref @ [0]) > 0 then
       let Int_Loc = i32 (Int_Loc + 7) in Some (1, s\<lparr>Int_Glob := Int_Loc\<rparr>)
     else Some (0, s) }"

subsection \<open>dhrystone\_main.c\<close>

definition Proc_3 :: "addr \<Rightarrow> dhry \<Rightarrow> dhry" where
  "Proc_3 r s =
     (let s = (if Ptr_Glob s \<noteq> NULL then upd_rec r (\<lambda>x. x\<lparr>Ptr_Comp := Ptr_Comp (d_rec s (Ptr_Glob s))\<rparr>) s else s)
      in upd_rec (Ptr_Glob s) (\<lambda>x. x\<lparr>Int_Comp := Proc_7 10 (Int_Glob s)\<rparr>) s)"

definition Proc_1 :: "addr \<Rightarrow> dhry \<Rightarrow> dhry" where
  "Proc_1 Ptr_Val_Par s =
     (let Next_Record = Ptr_Comp (d_rec s Ptr_Val_Par);
          s = upd_rec (Ptr_Comp (d_rec s Ptr_Val_Par)) (\<lambda>_. d_rec s (Ptr_Glob s)) s;
          s = upd_rec Ptr_Val_Par (\<lambda>x. x\<lparr>Int_Comp := 5\<rparr>) s;
          s = upd_rec Next_Record (\<lambda>x. x\<lparr>Int_Comp := Int_Comp (d_rec s Ptr_Val_Par)\<rparr>) s;
          s = upd_rec Next_Record (\<lambda>x. x\<lparr>Ptr_Comp := Ptr_Comp (d_rec s Ptr_Val_Par)\<rparr>) s;
          s = Proc_3 Next_Record s
      in if Discr (d_rec s Next_Record) = Ident_1 then
           let s = upd_rec Next_Record (\<lambda>x. x\<lparr>Int_Comp := 6\<rparr>) s;
               s = upd_rec Next_Record (\<lambda>x. x\<lparr>Enum_Comp := Proc_6 (Enum_Comp (d_rec s Ptr_Val_Par)) s\<rparr>) s;
               s = upd_rec Next_Record (\<lambda>x. x\<lparr>Ptr_Comp := Ptr_Comp (d_rec s (Ptr_Glob s))\<rparr>) s
           in upd_rec Next_Record (\<lambda>x. x\<lparr>Int_Comp := Proc_7 (Int_Comp x) 10\<rparr>) s
         else upd_rec Ptr_Val_Par (\<lambda>x. d_rec s (Ptr_Comp x)) s)"

text \<open>\<open>Enum_Loc\<close> starts uninitialised, with the value \<open>u\<close>.\<close>

partial_function (option) proc_2_loop :: "int \<Rightarrow> Enumeration \<Rightarrow> int \<Rightarrow> dhry \<Rightarrow> int option" where
  "proc_2_loop Int_Loc Enum_Loc Int_Par_Ref s =
     (if Ch_1_Glob s = ch (CHR ''A'') then Some (i32 (i32 (Int_Loc - 1) - Int_Glob s))
      else if Enum_Loc \<noteq> Ident_1 then proc_2_loop Int_Loc Enum_Loc Int_Par_Ref s
      else Some Int_Par_Ref)"

definition Proc_2 :: "Enumeration \<Rightarrow> int \<Rightarrow> dhry \<Rightarrow> int option" where
  "Proc_2 u Int_Par_Ref s = (let Int_Loc = i32 (Int_Par_Ref + 10) in proc_2_loop Int_Loc u Int_Par_Ref s)"

definition Proc_4 :: "dhry \<Rightarrow> dhry" where
  "Proc_4 s =
     (let Bool_Loc = (if Ch_1_Glob s = ch (CHR ''A'') then 1 else 0);
          s = s\<lparr>Bool_Glob := Bool_Loc OR Bool_Glob s\<rparr>
      in s\<lparr>Ch_2_Glob := ch (CHR ''B'')\<rparr>)"

definition Proc_5 :: "dhry \<Rightarrow> dhry" where
  "Proc_5 s = s\<lparr>Ch_1_Glob := ch (CHR ''A''), Bool_Glob := 0\<rparr>"

record locals =
  Int_1_Loc :: int
  Int_2_Loc :: int
  Int_3_Loc :: int
  Enum_Loc :: Enumeration
  Str_1_Loc :: "byte list"
  Str_2_Loc :: "byte list"

definition lit :: "string \<Rightarrow> byte list" where
  "lit cs = map of_char cs"

partial_function (option) while_loop :: "locals \<Rightarrow> locals option" where
  "while_loop l =
     (if Int_1_Loc l < Int_2_Loc l then
        let l = l\<lparr>Int_3_Loc := i32 (i32 (5 * Int_1_Loc l) - Int_2_Loc l)\<rparr>;
            l = l\<lparr>Int_3_Loc := Proc_7 (Int_1_Loc l) (Int_2_Loc l)\<rparr>
        in while_loop (l\<lparr>Int_1_Loc := i32 (Int_1_Loc l + 1)\<rparr>)
      else Some l)"

partial_function (option) char_loop :: "int \<Rightarrow> byte \<Rightarrow> locals \<Rightarrow> dhry \<Rightarrow> (locals \<times> dhry) option" where
  "char_loop Run_Index Ch_Index l s =
     (if Ch_Index \<le> Ch_2_Glob s then
        let (e, s) = Func_1 Ch_Index (ch (CHR ''C'')) s;
            (l, s) =
              (if Enum_Loc l = e then
                 (l\<lparr>Enum_Loc := Proc_6 Ident_1 s, Str_2_Loc := lit ''DHRYSTONE PROGRAM, 3'RD STRING'', Int_2_Loc := Run_Index\<rparr>,
                  s\<lparr>Int_Glob := Run_Index\<rparr>)
               else (l, s))
        in char_loop Run_Index (Ch_Index + 1) l s
      else Some (l, s))"

text \<open>\<open>sdiv\<close> is the division of C, which rounds towards 0.\<close>

definition sdiv :: "int \<Rightarrow> int \<Rightarrow> int" where
  "sdiv a b = sgn a * sgn b * (\<bar>a\<bar> div \<bar>b\<bar>)"

definition run_once :: "byte \<Rightarrow> Enumeration \<Rightarrow> int \<Rightarrow> locals \<Rightarrow> dhry \<Rightarrow> (locals \<times> dhry) option" where
  "run_once u u' Run_Index l s = do {
     let s = Proc_5 s;
     let s = Proc_4 s;
     let l = l\<lparr>Int_1_Loc := 2, Int_2_Loc := 3, Str_2_Loc := lit ''DHRYSTONE PROGRAM, 2'ND STRING'', Enum_Loc := Ident_2\<rparr>;
     (b, s) \<leftarrow> Func_2 u (Str_1_Loc l) (Str_2_Loc l) s;
     let s = s\<lparr>Bool_Glob := (if b = 0 then 1 else 0)\<rparr>;
     l \<leftarrow> while_loop l;
     s \<leftarrow> Proc_8 (Int_1_Loc l) (Int_3_Loc l) s;
     let s = Proc_1 (Ptr_Glob s) s;
     (l, s) \<leftarrow> char_loop Run_Index (ch (CHR ''A'')) l s;
     let l = l\<lparr>Int_2_Loc := i32 (Int_2_Loc l * Int_1_Loc l)\<rparr>;
     let l = l\<lparr>Int_1_Loc := sdiv (Int_2_Loc l) (Int_3_Loc l)\<rparr>;
     let l = l\<lparr>Int_2_Loc := i32 (i32 (7 * i32 (Int_2_Loc l - Int_3_Loc l)) - Int_1_Loc l)\<rparr>;
     i \<leftarrow> Proc_2 u' (Int_1_Loc l) s;
     Some (l\<lparr>Int_1_Loc := i\<rparr>, s) }"

function run_loop :: "byte \<Rightarrow> Enumeration \<Rightarrow> int \<Rightarrow> int \<Rightarrow> locals \<Rightarrow> dhry \<Rightarrow> (locals \<times> dhry) option" where
  "run_loop u u' Run_Index Number_Of_Runs l s =
     (if Run_Index \<le> Number_Of_Runs then
        (case run_once u u' Run_Index l s of None \<Rightarrow> None | Some (l, s) \<Rightarrow> run_loop u u' (Run_Index + 1) Number_Of_Runs l s)
      else Some (l, s))"
  by pat_completeness auto
termination
  by (relation "measure (\<lambda>(u, u', i, n, l, s). nat (n + 1 - i))") auto

declare run_loop.simps [simp del]

text \<open>One turn of the endless loop of \<open>main\<close>: initialisation, the measured runs between two readings of the timer, and the
  report, as pairs of the value printed and the value that should be.\<close>

definition dhry_init :: "locals \<Rightarrow> dhry \<Rightarrow> (locals \<times> dhry) option" where
  "dhry_init l s = do {
     let s = upd_rec (Ptr_Glob s) (\<lambda>r. r\<lparr>Ptr_Comp := Next_Ptr_Glob s, Discr := Ident_1, Enum_Comp := Ident_3, Int_Comp := 40,
               Str_Comp := lit ''DHRYSTONE PROGRAM, SOME STRING''\<rparr>) s;
     let l = l\<lparr>Str_1_Loc := lit ''DHRYSTONE PROGRAM, 1'ST STRING''\<rparr>;
     a2 \<leftarrow> put2 (Arr_2_Glob s) 8 7 10;
     Some (l, s\<lparr>Arr_2_Glob := a2\<rparr>) }"

fun enum_val :: "Enumeration \<Rightarrow> int" where
  "enum_val Ident_1 = 0"
| "enum_val Ident_2 = 1"
| "enum_val Ident_3 = 2"
| "enum_val Ident_4 = 3"
| "enum_val Ident_5 = 4"

definition report_ints :: "locals \<Rightarrow> dhry \<Rightarrow> (int \<times> int) list" where
  "report_ints l s =
     (let g = d_rec s (Ptr_Glob s); n = d_rec s (Next_Ptr_Glob s) in
      [(Int_Glob s, 5), (Bool_Glob s, 1), (uint (Ch_1_Glob s), of_char (CHR ''A'')), (uint (Ch_2_Glob s), of_char (CHR ''B'')),
       (Arr_1_Glob s ! 8, 7),
       (enum_val (Discr g), 0), (enum_val (Enum_Comp g), 2), (Int_Comp g, 17),
       (uint (Ptr_Comp n), uint (Ptr_Comp g)), (enum_val (Discr n), 0), (enum_val (Enum_Comp n), 1), (Int_Comp n, 18),
       (Int_1_Loc l, 5), (Int_2_Loc l, 13), (Int_3_Loc l, 7), (enum_val (Enum_Loc l), 1)])"

definition report_strings :: "locals \<Rightarrow> dhry \<Rightarrow> (byte list \<times> byte list) list" where
  "report_strings l s =
     [(Str_Comp (d_rec s (Ptr_Glob s)), lit ''DHRYSTONE PROGRAM, SOME STRING''),
      (Str_Comp (d_rec s (Next_Ptr_Glob s)), lit ''DHRYSTONE PROGRAM, SOME STRING''),
      (Str_1_Loc l, lit ''DHRYSTONE PROGRAM, 1'ST STRING''), (Str_2_Loc l, lit ''DHRYSTONE PROGRAM, 2'ND STRING'')]"

definition dhry_turn :: "uint \<Rightarrow> uint \<Rightarrow> byte \<Rightarrow> Enumeration \<Rightarrow> int \<Rightarrow> locals \<Rightarrow> dhry \<Rightarrow> (uint \<times> locals \<times> dhry) option" where
  "dhry_turn t0 t1 u u' Number_Of_Runs l s = do {
     (l, s) \<leftarrow> dhry_init l s;
     let s = s\<lparr>Begin_Time := t0\<rparr>;
     (l, s) \<leftarrow> run_loop u u' 1 Number_Of_Runs l s;
     let s = s\<lparr>End_Time := t1\<rparr>;
     let Ticks = End_Time s - Begin_Time s;
     Some (Ticks, l, s) }"

section \<open>One run\<close>

abbreviation (input) some_string :: "byte list" where "some_string \<equiv> lit ''DHRYSTONE PROGRAM, SOME STRING''"
abbreviation (input) string_1 :: "byte list" where "string_1 \<equiv> lit ''DHRYSTONE PROGRAM, 1'ST STRING''"
abbreviation (input) string_2 :: "byte list" where "string_2 \<equiv> lit ''DHRYSTONE PROGRAM, 2'ND STRING''"

lemma i32_numeral: "i32 (numeral k) = sint (numeral k :: 32 word)" "i32 0 = 0" "i32 1 = 1"
  by (simp_all add: i32_def)

lemma func_2_strings: "Func_2 u string_1 string_2 s = Some (0, s)"
proof -
  have c: "char_at string_1 2 = 82" "char_at string_2 3 = 89" by (simp_all add: char_at_def lit_def numeral_eq_Suc)
  have "func_2_loop string_1 string_2 2 u s = func_2_loop string_1 string_2 3 65 s"
    by (subst func_2_loop.simps) (simp add: c Func_1_def)
  also have "\<dots> = Some (3, 65, s)" by (subst func_2_loop.simps) simp
  finally show ?thesis by (simp add: Func_2_def lit_def)
qed

lemma while_loop_once:
  "Int_1_Loc l = 2 \<Longrightarrow> Int_2_Loc l = 3 \<Longrightarrow> while_loop l = Some (l\<lparr>Int_3_Loc := 7, Int_1_Loc := 3\<rparr>)"
  by (subst while_loop.simps, subst while_loop.simps) (simp add: Proc_7_def Let_def i32_numeral)

lemma char_loop_quiet:
  assumes "Ch_2_Glob s = ch (CHR ''B'')" and "Enum_Loc l = Ident_2"
  shows "char_loop i (ch (CHR ''A'')) l s = Some (l, s)"
proof -
  have step: "char_loop i c l s = char_loop i (c + 1) l s" if "c = 65 \<or> c = 66" for c
    using that assms by (subst char_loop.simps) (auto simp: Func_1_def)
  have "char_loop i 67 l s = Some (l, s)" using assms by (subst char_loop.simps) simp
  then show ?thesis using step [of 65] step [of 66] by simp
qed

text \<open>The arrays, and what \<open>Proc_8\<close> does to them.\<close>

definition arrays_ok :: "dhry \<Rightarrow> bool" where
  "arrays_ok s \<longleftrightarrow> length (Arr_1_Glob s) = 50 \<and> length (Arr_2_Glob s) = 50 \<and> (\<forall>row \<in> set (Arr_2_Glob s). length row = 50)"

lemma proc_8_ok:
  assumes "arrays_ok s"
  shows "\<exists>a1 a2. Proc_8 3 7 s = Some (s\<lparr>Arr_1_Glob := a1, Arr_2_Glob := a2, Int_Glob := 5\<rparr>) \<and> a1 ! 8 = 7
    \<and> a2 ! 8 ! 7 = i32 (Arr_2_Glob s ! 8 ! 7 + 1) \<and> arrays_ok (s\<lparr>Arr_1_Glob := a1, Arr_2_Glob := a2\<rparr>)"
proof -
  let ?a = "Arr_1_Glob s" and ?m = "Arr_2_Glob s"
  have l: "length ?a = 50" "length ?m = 50" "\<And>i. i < 50 \<Longrightarrow> length (?m ! i) = 50" using assms by (auto simp: arrays_ok_def)
  let ?a1 = "?a[8 := 7, 9 := 7, 38 := 8]"
  let ?r = "(?m ! 8)[8 := 8, 9 := 8, 7 := i32 (?m ! 8 ! 7 + 1)]"
  let ?a2 = "?m[8 := ?r, 28 := (?m ! 28)[8 := 7]]"
  have "proc_8_loop 8 8 ?m = Some (?m[8 := (?m ! 8)[8 := 8, 9 := 8]])"
    using l by (simp add: proc_8_loop.simps [of 8 8] proc_8_loop.simps [of 8 9] proc_8_loop.simps [of 8 10] put_def put2_def)
  then have "Proc_8 3 7 s = Some (s\<lparr>Arr_1_Glob := ?a1, Arr_2_Glob := ?a2, Int_Glob := 5\<rparr>)"
    using l by (simp add: Proc_8_def i32_numeral put_def put2_def)
  moreover have "?a1 ! 8 = 7" "?a2 ! 8 ! 7 = i32 (?m ! 8 ! 7 + 1)" using l by simp_all
  moreover have "\<forall>row \<in> set ?a2. length row = 50"
  proof
    fix row assume "row \<in> set ?a2"
    then obtain i where "i < 50" "row = ?a2 ! i" using l(2) by (auto simp: in_set_conv_nth)
    then show "length row = 50" using l by (simp add: nth_list_update)
  qed
  ultimately show ?thesis using l(1,2) by (intro exI [of _ ?a1] exI [of _ ?a2]) (simp add: arrays_ok_def)
qed

text \<open>The record that \<open>Ptr_Glob\<close> points to keeps these components.\<close>

definition glob_ok :: "dhry \<Rightarrow> bool" where
  "glob_ok s \<longleftrightarrow> Ptr_Glob s \<noteq> NULL \<and> Ptr_Glob s \<noteq> Next_Ptr_Glob s \<and> (let g = d_rec s (Ptr_Glob s) in
     Ptr_Comp g = Next_Ptr_Glob s \<and> Discr g = Ident_1 \<and> Enum_Comp g = Ident_3 \<and> Str_Comp g = some_string)"

lemma proc_1_ok:
  assumes "glob_ok s" and "Int_Glob s = 5"
  shows "\<exists>f. Proc_1 (Ptr_Glob s) s = s\<lparr>d_rec := f\<rparr> \<and> glob_ok (s\<lparr>d_rec := f\<rparr>) \<and> Int_Comp (f (Ptr_Glob s)) = 17
    \<and> f (Next_Ptr_Glob s) = \<lparr>Ptr_Comp = Next_Ptr_Glob s, Discr = Ident_1, Enum_Comp = Ident_2, Int_Comp = 18, Str_Comp = some_string\<rparr>"
proof -
  define P N where "P = Ptr_Glob s" and "N = Next_Ptr_Glob s"
  define st where "st a b = s\<lparr>d_rec := (d_rec s)(P := a, N := b)\<rparr>" for a b
  have pn: "P \<noteq> N" "N \<noteq> P" "P \<noteq> 0" using assms(1) by (auto simp: glob_ok_def P_def N_def)
  have upd: "(st a b)\<lparr>d_rec := (d_rec (st a b))(P := c)\<rparr> = st c b" "(st a b)\<lparr>d_rec := (d_rec (st a b))(N := c)\<rparr> = st a c" for a b c
    using pn by (simp_all add: st_def fun_upd_twist)
  have get: "d_rec (st a b) P = a" "d_rec (st a b) N = b" "Ptr_Glob (st a b) = P" "Int_Glob (st a b) = 5" for a b
    using pn assms(2) by (simp_all add: st_def P_def)
  obtain k where g: "d_rec s P = \<lparr>Ptr_Comp = N, Discr = Ident_1, Enum_Comp = Ident_3, Int_Comp = k, Str_Comp = some_string\<rparr>"
    using assms(1) by (cases "d_rec s P") (simp add: glob_ok_def P_def N_def Let_def)
  let ?g = "\<lparr>Ptr_Comp = N, Discr = Ident_1, Enum_Comp = Ident_3, Int_Comp = 17, Str_Comp = some_string\<rparr>"
  let ?n = "\<lparr>Ptr_Comp = N, Discr = Ident_1, Enum_Comp = Ident_2, Int_Comp = 18, Str_Comp = some_string\<rparr>"
  have "s = st (d_rec s P) (d_rec s N)" by (simp add: st_def)
  moreover have "Proc_1 P (st (d_rec s P) (d_rec s N)) = st ?g ?n"
    by (simp add: Proc_1_def Proc_3_def Proc_6_def Func_3_def Proc_7_def Let_def i32_numeral upd get g pn)
  ultimately have "Proc_1 P s = st ?g ?n" by simp
  moreover have "glob_ok (st ?g ?n)" using pn by (simp add: glob_ok_def st_def P_def [symmetric] N_def [symmetric])
  ultimately show ?thesis using pn
    by (intro exI [of _ "(d_rec s)(P := ?g, N := ?n)"]) (simp add: st_def P_def [symmetric] N_def [symmetric])
qed

definition run_ok :: "locals \<Rightarrow> dhry \<Rightarrow> bool" where
  "run_ok l s \<longleftrightarrow> arrays_ok s \<and> glob_ok s \<and> Str_1_Loc l = string_1"

definition same_ptrs :: "dhry \<Rightarrow> dhry \<Rightarrow> bool" where
  "same_ptrs s s' \<longleftrightarrow> Ptr_Glob s' = Ptr_Glob s \<and> Next_Ptr_Glob s' = Next_Ptr_Glob s \<and> Begin_Time s' = Begin_Time s"

text \<open>What the program says at the end of a run.\<close>

definition as_reported :: "locals \<Rightarrow> dhry \<Rightarrow> bool" where
  "as_reported l s \<longleftrightarrow> (\<forall>(x, y) \<in> set (report_ints l s). x = y) \<and> (\<forall>(x, y) \<in> set (report_strings l s). x = y)"

lemma run_once_ok:
  assumes "run_ok l s"
  shows "\<exists>l' s'. run_once u u' i l s = Some (l', s') \<and> run_ok l' s' \<and> same_ptrs s s' \<and> as_reported l' s'
    \<and> Arr_2_Glob s' ! 8 ! 7 = i32 (Arr_2_Glob s ! 8 ! 7 + 1)"
proof -
  let ?s1 = "(Proc_4 (Proc_5 s))\<lparr>Bool_Glob := 1\<rparr>"
  let ?l1 = "l\<lparr>Int_1_Loc := 2, Int_2_Loc := 3, Str_2_Loc := string_2, Enum_Loc := Ident_2\<rparr>"
  let ?l2 = "?l1\<lparr>Int_3_Loc := 7, Int_1_Loc := 3\<rparr>"
  have s1: "Ptr_Glob ?s1 = Ptr_Glob s" "Next_Ptr_Glob ?s1 = Next_Ptr_Glob s" "d_rec ?s1 = d_rec s" "Arr_2_Glob ?s1 = Arr_2_Glob s"
    "Arr_1_Glob ?s1 = Arr_1_Glob s" "Begin_Time ?s1 = Begin_Time s" "Ch_1_Glob ?s1 = 65" "Ch_2_Glob ?s1 = 66" "Bool_Glob ?s1 = 1"
    by (simp_all add: Proc_4_def Proc_5_def)
  have "arrays_ok ?s1" using assms s1 by (simp add: run_ok_def arrays_ok_def)
  from proc_8_ok [OF this] obtain a1 a2 where a: "Proc_8 3 7 ?s1 = Some (?s1\<lparr>Arr_1_Glob := a1, Arr_2_Glob := a2, Int_Glob := 5\<rparr>)" "a1 ! 8 = 7"
    "a2 ! 8 ! 7 = i32 (Arr_2_Glob s ! 8 ! 7 + 1)" "arrays_ok (?s1\<lparr>Arr_1_Glob := a1, Arr_2_Glob := a2\<rparr>)" using s1(4) by auto
  let ?s2 = "?s1\<lparr>Arr_1_Glob := a1, Arr_2_Glob := a2, Int_Glob := 5\<rparr>"
  have "glob_ok ?s2" using assms s1 by (simp add: run_ok_def glob_ok_def)
  from proc_1_ok [OF this] obtain f where f: "Proc_1 (Ptr_Glob ?s2) ?s2 = ?s2\<lparr>d_rec := f\<rparr>" "glob_ok (?s2\<lparr>d_rec := f\<rparr>)"
    "Int_Comp (f (Ptr_Glob s)) = 17"
    "f (Next_Ptr_Glob s) = \<lparr>Ptr_Comp = Next_Ptr_Glob s, Discr = Ident_1, Enum_Comp = Ident_2, Int_Comp = 18, Str_Comp = some_string\<rparr>"
    using s1(1,2) by auto
  let ?s3 = "?s2\<lparr>d_rec := f\<rparr>"
  have c: "char_loop i (ch (CHR ''A'')) ?l2 ?s3 = Some (?l2, ?s3)" using s1(8) by (intro char_loop_quiet) simp_all
  have p2: "Proc_2 u' 1 ?s3 = Some 5" using s1(7) by (simp add: Proc_2_def i32_numeral proc_2_loop.simps)
  let ?l3 = "?l2\<lparr>Int_2_Loc := 13, Int_1_Loc := 5\<rparr>"
  have w: "while_loop ?l1 = Some ?l2" by (simp add: while_loop_once)
  have str: "Func_2 u (Str_1_Loc l) string_2 (Proc_4 (Proc_5 s)) = Some (0, Proc_4 (Proc_5 s))" using assms func_2_strings by (simp add: run_ok_def)
  have "run_once u u' i l s = Some (?l3, ?s3)"
    using str w a(1) f(1) c p2 by (simp add: run_once_def sdiv_def i32_numeral)
  moreover have "run_ok ?l3 ?s3" using a(4) f(2) assms by (simp add: run_ok_def arrays_ok_def)
  moreover have "as_reported ?l3 ?s3"
    using s1 a(2) f assms by (simp add: as_reported_def report_ints_def report_strings_def glob_ok_def run_ok_def Let_def)
  moreover have "same_ptrs s ?s3" using s1 by (simp add: same_ptrs_def)
  ultimately show ?thesis using a(3) by (intro exI [of _ ?l3] exI [of _ ?s3]) simp
qed

section \<open>All runs\<close>

lemma i32_add: "i32 (i32 x + y) = i32 (x + y)"
proof -
  have "word_of_int (sint (word_of_int x :: 32 word) + y) = (word_of_int (x + y) :: 32 word)" by simp
  then show ?thesis by (simp only: i32_def)
qed

lemma run_loop_ok:
  assumes "run_ok l s" and "i \<le> n"
  shows "\<exists>l' s'. run_loop u u' i n l s = Some (l', s') \<and> run_ok l' s' \<and> same_ptrs s s' \<and> as_reported l' s'
    \<and> Arr_2_Glob s' ! 8 ! 7 = i32 (Arr_2_Glob s ! 8 ! 7 + (n + 1 - i))"
  using assms
proof (induction "nat (n - i)" arbitrary: i l s)
  case 0
  then have "i = n" by simp
  obtain l' s' where "run_once u u' i l s = Some (l', s')" "run_ok l' s'" "same_ptrs s s'" "as_reported l' s'"
    "Arr_2_Glob s' ! 8 ! 7 = i32 (Arr_2_Glob s ! 8 ! 7 + 1)" using run_once_ok [OF 0(2)] by blast
  then show ?case using \<open>i = n\<close> by (simp add: run_loop.simps [of _ _ n] run_loop.simps [of _ _ "n + 1"])
next
  case (Suc k)
  obtain l1 s1 where one: "run_once u u' i l s = Some (l1, s1)" "run_ok l1 s1" "same_ptrs s s1"
    "Arr_2_Glob s1 ! 8 ! 7 = i32 (Arr_2_Glob s ! 8 ! 7 + 1)" using run_once_ok [OF Suc.prems(1)] by blast
  have "k = nat (n - (i + 1))" "i + 1 \<le> n" using Suc.hyps(2) by linarith+
  from Suc.hyps(1) [OF this(1) one(2) this(2)] obtain l2 s2 where
    two: "run_loop u u' (i + 1) n l1 s1 = Some (l2, s2)" "run_ok l2 s2" "same_ptrs s1 s2" "as_reported l2 s2"
    "Arr_2_Glob s2 ! 8 ! 7 = i32 (Arr_2_Glob s1 ! 8 ! 7 + (n + 1 - (i + 1)))" by blast
  have "run_loop u u' i n l s = Some (l2, s2)" using one(1) two(1) Suc.prems(2) by (subst run_loop.simps) simp
  moreover have "same_ptrs s s2" using one(3) two(3) by (simp add: same_ptrs_def)
  moreover have "Arr_2_Glob s2 ! 8 ! 7 = i32 (Arr_2_Glob s ! 8 ! 7 + (n + 1 - i))" using one(4) two(5) by (simp add: i32_add) (simp add: algebra_simps)
  ultimately show ?case using two(2,4) by blast
qed

lemma dhry_init_ok:
  assumes "arrays_ok s" and "Ptr_Glob s \<noteq> NULL" and "Ptr_Glob s \<noteq> Next_Ptr_Glob s"
  shows "\<exists>l' s'. dhry_init l s = Some (l', s') \<and> run_ok l' s' \<and> same_ptrs s s' \<and> Arr_2_Glob s' ! 8 ! 7 = 10"
proof -
  let ?m = "Arr_2_Glob s"
  let ?m' = "?m[8 := (?m ! 8)[7 := 10]]"
  have l: "length ?m = 50" "length (?m ! 8) = 50" using assms(1) by (auto simp: arrays_ok_def)
  then have p: "put2 ?m 8 7 10 = Some ?m'" using put2_in [of 8 ?m 7 10] by simp
  have "\<forall>row \<in> set ?m'. length row = 50"
    using assms(1) l set_update_subset_insert [of ?m 8] by (force simp: arrays_ok_def)
  then show ?thesis using p assms l by (simp add: dhry_init_def run_ok_def arrays_ok_def glob_ok_def same_ptrs_def Let_def)
qed

text \<open>C34 One turn of the benchmark from any contents of the global variables: every variable the program prints has the value
  printed beside it as the one it should have, \<open>Arr_2_Glob[8][7]\<close> is \<open>Number_Of_Runs + 10\<close>, no write leaves an array, every loop
  ends, the ticks are those between the two readings of the timer, and the next turn starts under the same conditions.\<close>

theorem dhrystone_as_reported:
  assumes "arrays_ok s" and "Ptr_Glob s \<noteq> NULL" and "Ptr_Glob s \<noteq> Next_Ptr_Glob s" and "1 \<le> n" and "n + 10 < 2 ^ 31"
  shows "\<exists>l' s'. dhry_turn t0 t1 u u' n l s = Some (t1 - t0, l', s') \<and> as_reported l' s' \<and> Arr_2_Glob s' ! 8 ! 7 = n + 10
    \<and> arrays_ok s' \<and> Ptr_Glob s' = Ptr_Glob s \<and> Next_Ptr_Glob s' = Next_Ptr_Glob s"
proof -
  obtain l1 s1 where a: "dhry_init l s = Some (l1, s1)" "run_ok l1 s1" "same_ptrs s s1" "Arr_2_Glob s1 ! 8 ! 7 = 10"
    using dhry_init_ok [OF assms(1-3)] by blast
  let ?s1 = "s1\<lparr>Begin_Time := t0\<rparr>"
  have "run_ok l1 ?s1" using a(2) by (simp add: run_ok_def arrays_ok_def glob_ok_def)
  from run_loop_ok [OF this assms(4)] obtain l2 s2 where b: "run_loop u u' 1 n l1 ?s1 = Some (l2, s2)" "run_ok l2 s2" "same_ptrs ?s1 s2"
    "as_reported l2 s2" "Arr_2_Glob s2 ! 8 ! 7 = i32 (Arr_2_Glob ?s1 ! 8 ! 7 + (n + 1 - 1))" by blast
  let ?s2 = "s2\<lparr>End_Time := t1\<rparr>"
  have "dhry_turn t0 t1 u u' n l s = Some (t1 - t0, l2, ?s2)" using a(1) b(1,3) by (simp add: dhry_turn_def same_ptrs_def)
  moreover have "as_reported l2 ?s2" using b(4) by (simp add: as_reported_def report_ints_def report_strings_def Let_def)
  moreover have "Arr_2_Glob ?s2 ! 8 ! 7 = n + 10" using b(5) a(4) assms(4,5) i32_id [of "10 + n"] by simp
  moreover have "arrays_ok ?s2" using b(2) by (simp add: run_ok_def arrays_ok_def)
  moreover have "Ptr_Glob ?s2 = Ptr_Glob s" "Next_Ptr_Glob ?s2 = Next_Ptr_Glob s" using a(3) b(3) by (simp_all add: same_ptrs_def)
  ultimately show ?thesis by blast
qed

definition sample_rec :: Rec_Type where
  "sample_rec = \<lparr>Ptr_Comp = 0, Discr = Ident_5, Enum_Comp = Ident_5, Int_Comp = 0, Str_Comp = []\<rparr>"

definition sample_dhry :: dhry where
  "sample_dhry = \<lparr>Ptr_Glob = 0x1000, Next_Ptr_Glob = 0x1040, Int_Glob = 0, Bool_Glob = 0, Ch_1_Glob = 0, Ch_2_Glob = 0,
     Arr_1_Glob = replicate 50 0, Arr_2_Glob = replicate 50 (replicate 50 0), Begin_Time = 0, End_Time = 0, d_rec = (\<lambda>_. sample_rec)\<rparr>"

definition sample_locals :: locals where
  "sample_locals = \<lparr>Int_1_Loc = 0, Int_2_Loc = 0, Int_3_Loc = 0, Enum_Loc = Ident_1, Str_1_Loc = [], Str_2_Loc = []\<rparr>"

theorem dhrystone_as_reported_witness:
  "\<exists>l' s'. dhry_turn 100 4100 0 Ident_4 50000 sample_locals sample_dhry = Some (4000, l', s') \<and> as_reported l' s'
    \<and> Arr_2_Glob s' ! 8 ! 7 = 50010"
proof -
  have "arrays_ok sample_dhry" "Ptr_Glob sample_dhry \<noteq> NULL" "Ptr_Glob sample_dhry \<noteq> Next_Ptr_Glob sample_dhry"
    by (simp_all add: arrays_ok_def sample_dhry_def)
  from dhrystone_as_reported [OF this, of 50000 100 4100 0 Ident_4 sample_locals] show ?thesis by auto
qed

end
