(* ===== verification/Median.thy ===== *)
theory Median
  imports Arrays "HOL-Library.Monad_Syntax"
begin

text \<open>
  The median filter benchmark (\<open>sw/kernels/bmark_median/median.c\<close>, \<open>bmark_median.c\<close>, \<open>verify\<close> of \<open>util.h\<close>) and its data set
  (\<open>dataset1.h\<close>).  The benchmark filters the input, compares the result with the reference values of the data set and says
  whether they agree; it is shown that they do.
\<close>

section \<open>Definitions\<close>

function median_loop :: "int \<Rightarrow> int \<Rightarrow> int list \<Rightarrow> int list \<Rightarrow> int list option" where
  "median_loop n i input results =
     (if i < n - 1 then do {
        A \<leftarrow> get input (i - 1);
        B \<leftarrow> get input i;
        C \<leftarrow> get input (i + 1);
        results \<leftarrow>
          (if A < B then (if B < C then put results i B else if C < A then put results i A else put results i C)
           else (if A < C then put results i A else if C < B then put results i B else put results i C));
        median_loop n (i + 1) input results }
      else Some results)"
  by pat_completeness auto
termination
  by (relation "measure (\<lambda>(n, i, input, results). nat (n - 1 - i))") auto

declare median_loop.simps [simp del]

definition median :: "int \<Rightarrow> int list \<Rightarrow> int list \<Rightarrow> int list option" where
  "median n input results = do {
     results \<leftarrow> put results 0 0;
     results \<leftarrow> put results (n - 1) 0;
     median_loop n 1 input results }"

function verify_loop :: "int \<Rightarrow> int \<Rightarrow> int list \<Rightarrow> int list \<Rightarrow> int option option" where
  "verify_loop n i test verify =
     (if i < n div 2 * 2 then do {
        t0 \<leftarrow> get test i; t1 \<leftarrow> get test (i + 1);
        v0 \<leftarrow> get verify i; v1 \<leftarrow> get verify (i + 1);
        if t0 \<noteq> v0 then Some (Some (i + 1))
        else if t1 \<noteq> v1 then Some (Some (i + 2))
        else verify_loop n (i + 2) test verify }
      else Some None)"
  by pat_completeness auto
termination
  by (relation "measure (\<lambda>(n, i, test, verify). nat (n div 2 * 2 - i))") auto

declare verify_loop.simps [simp del]

text \<open>The value of the loop is what it returns, if it does.\<close>

definition verify :: "int \<Rightarrow> int list \<Rightarrow> int list \<Rightarrow> int option" where
  "verify n test reference = do {
     r \<leftarrow> verify_loop n 0 test reference;
     (case r of
        Some k \<Rightarrow> Some k
      | None \<Rightarrow>
          if n mod 2 \<noteq> 0 then do {
            t \<leftarrow> get test (n - 1);
            v \<leftarrow> get reference (n - 1);
            if t \<noteq> v then Some n else Some 0 }
          else Some 0) }"

definition DATA_SIZE :: int where
  "DATA_SIZE = 750"

definition input_data :: "int list" where
  "input_data = [
    41, 454, 833, 335, 564, 1, 187, 989, 749, 365, 350, 572, 132, 64, 949, 153, 584, 216, 805, 140,
    621, 210, 6, 572, 931, 339, 890, 593, 392, 898, 694, 228, 961, 12, 110, 883, 116, 750, 296, 646,
    426, 500, 314, 436, 659, 701, 774, 812, 319, 981, 678, 150, 875, 696, 376, 564, 474, 272, 938, 258,
    539, 647, 569, 509, 203, 88, 280, 703, 759, 669, 606, 375, 511, 551, 657, 936, 195, 592, 81, 569,
    267, 952, 229, 800, 337, 584, 944, 643, 902, 368, 241, 489, 913, 328, 826, 313, 933, 592, 985, 388,
    195, 543, 960, 649, 566, 979, 350, 997, 649, 814, 657, 79, 181, 208, 111, 998, 859, 629, 65, 847,
    288, 704, 349, 997, 141, 253, 905, 715, 886, 430, 264, 415, 576, 538, 979, 700, 761, 4, 241, 494,
    478, 100, 499, 864, 403, 693, 222, 416, 444, 296, 721, 285, 676, 620, 317, 78, 224, 351, 937, 540,
    288, 646, 119, 169, 615, 527, 606, 289, 389, 796, 351, 801, 455, 720, 278, 758, 367, 745, 358, 92,
    584, 989, 62, 271, 985, 853, 403, 788, 346, 531, 517, 222, 559, 461, 908, 241, 775, 358, 255, 332,
    778, 684, 598, 740, 143, 446, 33, 311, 125, 743, 941, 557, 933, 479, 799, 557, 553, 925, 431, 796,
    648, 357, 952, 891, 287, 666, 19, 514, 49, 557, 86, 870, 95, 853, 441, 440, 587, 61, 614, 678,
    382, 396, 280, 9, 808, 17, 971, 170, 819, 291, 344, 380, 450, 536, 512, 185, 965, 917, 347, 539,
    808, 983, 882, 887, 537, 54, 946, 612, 701, 951, 356, 479, 567, 151, 891, 7, 22, 641, 568, 335,
    665, 730, 423, 95, 434, 728, 158, 280, 2, 395, 84, 688, 247, 911, 49, 476, 435, 815, 792, 729,
    869, 265, 486, 127, 414, 236, 369, 214, 548, 180, 518, 6, 888, 503, 682, 596, 284, 173, 264, 643,
    499, 346, 290, 599, 897, 68, 215, 849, 731, 658, 688, 619, 251, 121, 786, 131, 555, 828, 302, 667,
    528, 433, 544, 487, 322, 753, 947, 125, 287, 626, 824, 14, 304, 10, 788, 403, 733, 106, 959, 703,
    366, 818, 722, 964, 294, 406, 975, 874, 653, 856, 748, 86, 91, 60, 378, 660, 105, 667, 102, 153,
    381, 121, 651, 98, 825, 412, 840, 236, 356, 12, 148, 423, 54, 965, 140, 216, 955, 621, 343, 361,
    533, 921, 757, 715, 521, 647, 837, 299, 592, 886, 13, 682, 173, 36, 63, 493, 121, 551, 133, 537,
    758, 969, 372, 643, 951, 434, 39, 415, 129, 303, 110, 438, 847, 860, 437, 203, 255, 478, 269, 988,
    409, 675, 628, 719, 399, 990, 549, 338, 753, 450, 564, 633, 171, 155, 19, 646, 727, 452, 501, 427,
    777, 509, 43, 988, 753, 426, 81, 12, 202, 483, 853, 142, 153, 339, 760, 390, 357, 50, 943, 171,
    922, 601, 328, 105, 496, 968, 442, 121, 516, 879, 641, 81, 276, 870, 786, 600, 113, 603, 842, 871,
    907, 887, 275, 610, 237, 404, 32, 234, 784, 745, 565, 526, 357, 275, 803, 441, 819, 226, 751, 752,
    280, 943, 85, 726, 458, 709, 454, 201, 710, 54, 459, 758, 41, 53, 253, 397, 377, 41, 508, 141,
    700, 416, 860, 747, 480, 219, 741, 478, 499, 770, 709, 180, 49, 482, 371, 691, 873, 725, 945, 173,
    992, 186, 526, 914, 721, 1, 435, 963, 232, 247, 497, 464, 697, 362, 30, 521, 348, 233, 250, 120,
    350, 40, 250, 779, 573, 195, 784, 161, 749, 743, 502, 439, 823, 355, 826, 403, 170, 141, 160, 633,
    674, 289, 32, 782, 202, 320, 143, 636, 853, 118, 90, 852, 394, 70, 107, 816, 855, 388, 106, 954,
    157, 36, 6, 16, 765, 698, 204, 695, 194, 677, 574, 598, 218, 883, 526, 824, 177, 746, 239, 462,
    698, 511, 757, 534, 706, 440, 49, 428, 84, 732, 799, 726, 893, 702, 512, 547, 373, 86, 492, 798,
    14, 215, 621, 21, 83, 651, 103, 59, 794, 429, 921, 657, 643, 96, 880, 973, 834, 659, 239, 966,
    462, 524, 114, 62, 561, 625, 529, 303, 10, 714, 997, 409, 904, 55, 387, 728, 407, 305, 105, 436,
    559, 901, 936, 592, 512, 691, 409, 796, 302, 497, 202, 177, 427, 940, 613, 995, 359, 480, 521, 158,
    684, 822, 22, 611, 185, 680, 312, 14, 107, 111, 274, 797, 387, 185, 242, 0, 486, 718, 105, 96,
    698, 749, 899, 739, 770, 814, 644, 435, 80, 326]"

definition verify_data :: "int list" where
  "verify_data = [
    0, 454, 454, 564, 335, 187, 187, 749, 749, 365, 365, 350, 132, 132, 153, 584, 216, 584, 216, 621,
    210, 210, 210, 572, 572, 890, 593, 593, 593, 694, 694, 694, 228, 110, 110, 116, 750, 296, 646, 426,
    500, 426, 436, 436, 659, 701, 774, 774, 812, 678, 678, 678, 696, 696, 564, 474, 474, 474, 272, 539,
    539, 569, 569, 509, 203, 203, 280, 703, 703, 669, 606, 511, 511, 551, 657, 657, 592, 195, 569, 267,
    569, 267, 800, 337, 584, 584, 643, 902, 643, 368, 368, 489, 489, 826, 328, 826, 592, 933, 592, 388,
    388, 543, 649, 649, 649, 566, 979, 649, 814, 657, 657, 181, 181, 181, 208, 859, 859, 629, 629, 288,
    704, 349, 704, 349, 253, 253, 715, 886, 715, 430, 415, 415, 538, 576, 700, 761, 700, 241, 241, 478,
    478, 478, 499, 499, 693, 403, 416, 416, 416, 444, 296, 676, 620, 620, 317, 224, 224, 351, 540, 540,
    540, 288, 169, 169, 527, 606, 527, 389, 389, 389, 796, 455, 720, 455, 720, 367, 745, 367, 358, 358,
    584, 584, 271, 271, 853, 853, 788, 403, 531, 517, 517, 517, 461, 559, 461, 775, 358, 358, 332, 332,
    684, 684, 684, 598, 446, 143, 311, 125, 311, 743, 743, 933, 557, 799, 557, 557, 557, 553, 796, 648,
    648, 648, 891, 891, 666, 287, 514, 49, 514, 86, 557, 95, 853, 441, 441, 441, 440, 587, 614, 614,
    396, 382, 280, 280, 17, 808, 170, 819, 291, 344, 344, 380, 450, 512, 512, 512, 917, 917, 539, 539,
    808, 882, 887, 882, 537, 537, 612, 701, 701, 701, 479, 479, 479, 567, 151, 22, 22, 568, 568, 568,
    665, 665, 423, 423, 434, 434, 280, 158, 280, 84, 395, 247, 688, 247, 476, 435, 476, 792, 792, 792,
    729, 486, 265, 414, 236, 369, 236, 369, 214, 518, 180, 518, 503, 682, 596, 596, 284, 264, 264, 499,
    499, 346, 346, 599, 599, 215, 215, 731, 731, 688, 658, 619, 251, 251, 131, 555, 555, 555, 667, 528,
    528, 528, 487, 487, 487, 753, 753, 287, 287, 626, 626, 304, 14, 304, 403, 733, 403, 733, 703, 703,
    703, 722, 818, 722, 406, 406, 874, 874, 856, 748, 748, 91, 86, 91, 378, 378, 660, 105, 153, 153,
    153, 381, 121, 651, 412, 825, 412, 356, 236, 148, 148, 148, 423, 140, 216, 216, 621, 621, 361, 361,
    533, 757, 757, 715, 647, 647, 647, 592, 592, 592, 682, 173, 173, 63, 63, 121, 493, 133, 537, 537,
    758, 758, 643, 643, 643, 434, 415, 129, 303, 129, 303, 438, 847, 847, 437, 255, 255, 269, 478, 409,
    675, 628, 675, 628, 719, 549, 549, 549, 450, 564, 564, 564, 171, 155, 155, 646, 646, 501, 452, 501,
    509, 509, 509, 753, 753, 426, 81, 81, 202, 483, 483, 153, 153, 339, 390, 390, 357, 357, 171, 922,
    601, 601, 328, 328, 496, 496, 442, 442, 516, 641, 641, 276, 276, 786, 786, 600, 600, 603, 842, 871,
    887, 887, 610, 275, 404, 237, 234, 234, 745, 745, 565, 526, 357, 357, 441, 803, 441, 751, 751, 751,
    752, 280, 726, 458, 709, 458, 454, 454, 201, 459, 459, 459, 53, 53, 253, 377, 377, 377, 141, 508,
    416, 700, 747, 747, 480, 480, 478, 499, 499, 709, 709, 180, 180, 371, 482, 691, 725, 873, 725, 945,
    186, 526, 526, 721, 721, 435, 435, 435, 247, 247, 464, 497, 464, 362, 362, 348, 348, 250, 233, 250,
    120, 250, 250, 573, 573, 573, 195, 749, 743, 743, 502, 502, 439, 823, 403, 403, 170, 160, 160, 633,
    633, 289, 289, 202, 320, 202, 320, 636, 636, 118, 118, 394, 394, 107, 107, 816, 816, 388, 388, 157,
    157, 36, 16, 16, 698, 698, 695, 204, 677, 574, 598, 574, 598, 526, 824, 526, 746, 239, 462, 462,
    511, 698, 534, 706, 534, 440, 428, 84, 428, 732, 732, 799, 726, 702, 547, 512, 373, 373, 492, 492,
    215, 215, 215, 83, 83, 103, 103, 103, 429, 794, 657, 657, 643, 643, 880, 880, 834, 659, 659, 462,
    524, 462, 114, 114, 561, 561, 529, 303, 303, 714, 714, 904, 409, 387, 387, 407, 407, 305, 305, 436,
    559, 901, 901, 592, 592, 512, 691, 409, 497, 302, 202, 202, 427, 613, 940, 613, 480, 480, 480, 521,
    684, 684, 611, 185, 611, 312, 312, 107, 107, 111, 274, 387, 387, 242, 185, 242, 486, 486, 105, 105,
    698, 749, 749, 770, 770, 770, 644, 435, 326, 0]"

text \<open>One turn of the endless loop of \<open>main\<close>: the runs, and what is printed (the ticks between two readings of the timer).\<close>

datatype message = Verify_OK | Verify_FAIL

primrec filter_runs :: "nat \<Rightarrow> int list \<Rightarrow> int list option" where
  "filter_runs 0 results = Some results"
| "filter_runs (Suc k) results = do { results \<leftarrow> median DATA_SIZE input_data results; filter_runs k results }"

definition Number_Of_Runs :: nat where
  "Number_Of_Runs = 1000"

definition median_turn :: "uint \<Rightarrow> uint \<Rightarrow> int list \<Rightarrow> (message \<times> nat \<times> uint \<times> int list) option" where
  "median_turn Begin_Time End_Time results_data = do {
     results_data \<leftarrow> filter_runs Number_Of_Runs results_data;
     let Ticks = End_Time - Begin_Time;
     v \<leftarrow> verify DATA_SIZE results_data verify_data;
     Some (if v = 0 then Verify_OK else Verify_FAIL, Number_Of_Runs, Ticks, results_data) }"

section \<open>The filter\<close>

text \<open>The median of three is the middle one when they are sorted.\<close>

definition med3 :: "int \<Rightarrow> int \<Rightarrow> int \<Rightarrow> int" where
  "med3 a b c = sort [a, b, c] ! 1"

lemma med3_code: "med3 A B C = (if A < B then (if B < C then B else if C < A then A else C) else (if A < C then A else if C < B then B else C))"
  by (auto simp: med3_def)

lemma median_loop_ok:
  assumes "length input = length results" and "0 < i" and "length results = n" and "i \<le> n - 1"
  shows "median_loop (int n) (int i) input results
    = Some (take i results @ map (\<lambda>j. med3 (input ! (j - 1)) (input ! j) (input ! (j + 1))) [i..<n - 1] @ drop (n - 1) results)"
  using assms
proof (induction "n - 1 - i" arbitrary: i results)
  case 0
  then have "i = n - 1" by simp
  then show ?case using 0 by (simp add: median_loop.simps [of "int n"])
next
  case (Suc k)
  let ?m = "med3 (input ! (i - 1)) (input ! i) (input ! (i + 1))"
  have i: "i < n - 1" using Suc by auto
  have g: "get input (int i - 1) = Some (input ! (i - 1))" "get input (int i) = Some (input ! i)"
    "get input (int i + 1) = Some (input ! (i + 1))" "put results (int i) v = Some (results[i := v])" for v
    using i Suc.prems get_in [of "i - 1" input] get_in [of "i + 1" input] by (simp_all add: of_nat_diff add.commute)
  have "int i < int n - 1" using i by linarith
  then have "median_loop (int n) (int i) input results = median_loop (int n) (int i + 1) input (results[i := ?m])"
    by (subst median_loop.simps) (simp add: g med3_code)
  also have "int i + 1 = int (i + 1)" by simp
  also have "median_loop (int n) (int (i + 1)) input (results[i := ?m])
      = Some (take (i + 1) (results[i := ?m]) @ map (\<lambda>j. med3 (input ! (j - 1)) (input ! j) (input ! (j + 1))) [i + 1..<n - 1]
      @ drop (n - 1) (results[i := ?m]))"
    using Suc i by (intro Suc.hyps(1)) auto
  also have "take (i + 1) (results[i := ?m]) = take i results @ [?m]" using i Suc.prems by (simp add: take_Suc_conv_app_nth)
  finally show ?case using i by (simp add: upt_conv_Cons del: upt_Suc)
qed

lemma median_ok:
  assumes "length input = n" and "length results = n" and "2 \<le> n"
  shows "median (int n) input results = Some (0 # map (\<lambda>j. med3 (input ! (j - 1)) (input ! j) (input ! (j + 1))) [1..<n - 1] @ [0])"
proof -
  let ?r = "results[0 := 0, n - 1 := 0]"
  have "put results 0 0 = Some (results[0 := 0])" using put_in [of 0 results 0] assms by simp
  moreover have "put (results[0 := 0]) (int n - 1) 0 = Some ?r" using put_in [of "n - 1" "results[0 := 0]" 0] assms by (simp add: of_nat_diff)
  moreover have "take 1 ?r = [0]" "drop (n - 1) ?r = [0]"
    using assms take_Suc_conv_app_nth [of 0 ?r] Cons_nth_drop_Suc [of "n - 1" ?r] by simp_all
  moreover have "median_loop (int n) 1 input ?r
      = Some (take 1 ?r @ map (\<lambda>j. med3 (input ! (j - 1)) (input ! j) (input ! (j + 1))) [1..<n - 1] @ drop (n - 1) ?r)"
    using median_loop_ok [of input ?r 1 n] assms by simp
  ultimately show ?thesis by (simp only: median_def) simp
qed

text \<open>The same by recursion on the input.\<close>

fun med3s :: "int list \<Rightarrow> int list" where
  "med3s (a # b # c # xs) = med3 a b c # med3s (b # c # xs)"
| "med3s _ = []"

lemma med3s_ok: "map (\<lambda>j. med3 (xs ! (j - 1)) (xs ! j) (xs ! (j + 1))) [1..<length xs - 1] = med3s xs"
proof (induction xs rule: med3s.induct)
  case (1 a b c xs)
  have "[1..<length (a # b # c # xs) - 1] = 1 # map Suc [1..<length (b # c # xs) - 1]"
    by (simp add: upt_conv_Cons map_Suc_upt del: upt_Suc)
  then have "map (\<lambda>j. med3 ((a # b # c # xs) ! (j - 1)) ((a # b # c # xs) ! j) ((a # b # c # xs) ! (j + 1))) [1..<length (a # b # c # xs) - 1]
      = med3 a b c # map (\<lambda>j. med3 ((a # b # c # xs) ! j) ((b # c # xs) ! j) ((b # c # xs) ! (j + 1))) [1..<length (b # c # xs) - 1]"
    by (simp only: list.map map_map o_def) simp
  also have "map (\<lambda>j. med3 ((a # b # c # xs) ! j) ((b # c # xs) ! j) ((b # c # xs) ! (j + 1))) [1..<length (b # c # xs) - 1]
      = map (\<lambda>j. med3 ((b # c # xs) ! (j - 1)) ((b # c # xs) ! j) ((b # c # xs) ! (j + 1))) [1..<length (b # c # xs) - 1]"
    by (rule map_cong [OF refl]) (auto simp: nth_Cons')
  finally show ?case using 1 by (simp only: med3s.simps)
qed simp_all

lemma data_set_consistent: "0 # med3s input_data @ [0] = verify_data"
  unfolding input_data_def verify_data_def by (simp add: med3_code)

lemma median_data:
  assumes "length results = 750"
  shows "median DATA_SIZE input_data results = Some verify_data"
proof -
  have n: "length input_data = 750" unfolding input_data_def by simp
  have "median (int 750) input_data results = Some (0 # med3s input_data @ [0])"
    using median_ok [OF n assms] med3s_ok [of input_data] n by simp
  then show ?thesis by (simp add: DATA_SIZE_def data_set_consistent)
qed

lemma filter_runs_data: "length results = 750 \<Longrightarrow> filter_runs (Suc k) results = Some verify_data"
proof (induction k arbitrary: results)
  case (Suc k)
  have "length verify_data = 750" unfolding verify_data_def by simp
  then have "filter_runs (Suc k) verify_data = Some verify_data" by (rule Suc.IH)
  moreover have "filter_runs (Suc (Suc k)) results = filter_runs (Suc k) verify_data"
    using median_data [OF Suc.prems] by (subst filter_runs.simps(2)) (simp del: filter_runs.simps)
  ultimately show ?case by (simp only:)
qed (simp add: median_data)

section \<open>The comparison\<close>

text \<open>The unrolled comparison returns 0 when the arrays agree and otherwise the position, counted from 1, of the first difference.\<close>

lemma verify_loop_ok:
  assumes "length a = n" and "length b = n" and "even i" and "i \<le> n"
  shows "verify_loop (int n) (int i) a b
    = Some (if \<forall>j. i \<le> j \<and> j < 2 * (n div 2) \<longrightarrow> a ! j = b ! j then None
            else Some (int (LEAST j. i \<le> j \<and> a ! j \<noteq> b ! j) + 1))"
  using assms
proof (induction "n - i" arbitrary: i rule: less_induct)
  case less
  have e: "int n div 2 * 2 = int (2 * (n div 2))" by (simp add: zdiv_int)
  show ?case
  proof (cases "i < 2 * (n div 2)")
    case False
    then show ?thesis by (subst verify_loop.simps) (simp add: e)
  next
    case True
    then have i1: "i + 1 < n" using less.prems(3) by presburger
    have g: "get a (int i) = Some (a ! i)" "get b (int i) = Some (b ! i)" "get a (int i + 1) = Some (a ! (i + 1))"
      "get b (int i + 1) = Some (b ! (i + 1))"
      using i1 less.prems get_in [of "i + 1" a] get_in [of "i + 1" b] by (simp_all add: add.commute)
    have "int i < int n div 2 * 2" using True e by linarith
    then have step: "verify_loop (int n) (int i) a b
        = (if a ! i \<noteq> b ! i then Some (Some (int i + 1)) else if a ! (i + 1) \<noteq> b ! (i + 1) then Some (Some (int i + 2))
           else verify_loop (int n) (int i + 2) a b)"
      by (subst verify_loop.simps) (simp add: g)
    let ?P = "\<lambda>i j. i \<le> j \<and> a ! j \<noteq> b ! j"
    consider "a ! i \<noteq> b ! i" | "a ! i = b ! i" "a ! (i + 1) \<noteq> b ! (i + 1)" | "a ! i = b ! i" "a ! (i + 1) = b ! (i + 1)" by blast
    then show ?thesis
    proof cases
      case 1
      then have "(LEAST j. ?P i j) = i" by (intro Least_equality) auto
      then show ?thesis using 1 step True by auto
    next
      case 2
      then have "(LEAST j. ?P i j) = i + 1" by (intro Least_equality) (auto simp: not_less_eq_eq le_Suc_eq intro: ccontr)
      moreover have "i + 1 < 2 * (n div 2)" using True less.prems(3) by presburger
      ultimately show ?thesis using 2 step by (auto intro: exI [of _ "i + 1"])
    next
      case 3
      have same: "?P i j \<longleftrightarrow> ?P (i + 2) j" for j using 3 by (auto simp: le_Suc_eq numeral_2_eq_2) (metis Suc_leI le_neq_implies_less)
      have all: "(\<forall>j. i \<le> j \<and> j < 2 * (n div 2) \<longrightarrow> a ! j = b ! j) \<longleftrightarrow> (\<forall>j. i + 2 \<le> j \<and> j < 2 * (n div 2) \<longrightarrow> a ! j = b ! j)"
        using same by blast
      have "verify_loop (int n) (int (i + 2)) a b
          = Some (if \<forall>j. i + 2 \<le> j \<and> j < 2 * (n div 2) \<longrightarrow> a ! j = b ! j then None else Some (int (LEAST j. ?P (i + 2) j) + 1))"
        using i1 less.prems by (intro less.hyps) auto
      moreover have "int i + 2 = int (i + 2)" by simp
      ultimately show ?thesis using step 3 by (simp only: all same) simp
    qed
  qed
qed

lemma verify_ok:
  assumes "length a = n" and "length b = n"
  shows "verify (int n) a b = Some (if a = b then 0 else int (LEAST j. a ! j \<noteq> b ! j) + 1)"
proof -
  let ?all = "\<forall>j. j < 2 * (n div 2) \<longrightarrow> a ! j = b ! j"
  have l: "verify_loop (int n) 0 a b = Some (if ?all then None else Some (int (LEAST j. a ! j \<noteq> b ! j) + 1))"
    using verify_loop_ok [OF assms, of 0] by simp
  have eq: "a = b \<longleftrightarrow> (\<forall>j < n. a ! j = b ! j)" using assms by (auto intro: nth_equalityI)
  show ?thesis
  proof (cases ?all)
    case False
    then have "a \<noteq> b" using eq by auto
    moreover have "verify_loop (int n) 0 a b = Some (Some (int (LEAST j. a ! j \<noteq> b ! j) + 1))" using False l by (simp only: if_False)
    ultimately show ?thesis by (simp add: verify_def)
  next
    case all: True
    show ?thesis
    proof (cases "odd n")
      case False
      then have "a = b" using all eq by auto
      moreover have "verify_loop (int n) 0 a b = Some None" unfolding l by (subst if_P [OF all]) (rule refl)
      moreover have "int n mod 2 = 0" using False by presburger
      ultimately show ?thesis by (simp add: verify_def)
    next
      case odd: True
      then have n: "2 * (n div 2) = n - 1" "0 < n" "int n mod 2 \<noteq> 0" by presburger+
      have g: "get a (int n - 1) = Some (a ! (n - 1))" "get b (int n - 1) = Some (b ! (n - 1))"
        using get_in [of "n - 1" a] get_in [of "n - 1" b] n(2) assms by (simp_all add: of_nat_diff)
      have last: "a = b \<longleftrightarrow> a ! (n - 1) = b ! (n - 1)" 
      proof
        assume "a ! (n - 1) = b ! (n - 1)"
        then have "a ! j = b ! j" if "j < n" for j using all n that by (cases "j = n - 1") auto
        then show "a = b" using eq by blast
      qed simp
      have "(LEAST j. a ! j \<noteq> b ! j) = n - 1" if "a ! (n - 1) \<noteq> b ! (n - 1)"
        using that all n(1) by (intro Least_equality) (auto simp: not_less [symmetric])
      moreover have "verify_loop (int n) 0 a b = Some None" unfolding l by (subst if_P [OF all]) (rule refl)
      ultimately show ?thesis using n(2,3) g by (simp add: verify_def last of_nat_diff)
    qed
  qed
qed

text \<open>A turn of the benchmark, with whatever the array of results holds at first, reports \<open>Verify OK\<close>: the results are the
  reference values of the data set, no access leaves an array, and the ticks are those between the two readings of the timer.\<close>

lemma median_turn_verifies:
  assumes "length results = nat DATA_SIZE"
  shows "median_turn t0 t1 results = Some (Verify_OK, 1000, t1 - t0, verify_data)"
proof -
  have "filter_runs 1000 results = Some verify_data"
    using filter_runs_data [of results 999] assms by (simp add: DATA_SIZE_def eval_nat_numeral del: filter_runs.simps)
  moreover have "verify DATA_SIZE verify_data verify_data = Some 0"
    using verify_ok [of verify_data 750 verify_data] by (simp add: DATA_SIZE_def) (simp add: verify_data_def)
  ultimately show ?thesis by (simp add: median_turn_def Number_Of_Runs_def)
qed

lemma median_turn_verifies_witness:
  "median_turn 50 90 (replicate 750 7) = Some (Verify_OK, 1000, 40, verify_data)"
  using median_turn_verifies [of "replicate 750 7" 50 90] by (simp add: DATA_SIZE_def)

end
