(* ===== verification/Regex.thy ===== *)
theory Regex
  imports Prelude
begin

text \<open>
  The regular-expression matcher of the scheme kernel (\<open>sw/kernels/scheme/regex.c\<close>): literal characters, \<open>.\<close>, \<open>*\<close> behind a
  character, \<open>^\<close> at the beginning and \<open>$\<close> at the end.  A \<open>char *\<close> is what the string it points to still has in front of its
  null byte: \<open>p[0]\<close> is \<open>first p\<close>, the null byte at the end, and \<open>p + 1\<close> is \<open>tl p\<close>.

  The matcher is shown to be a search for a word of the language of the expression.
\<close>

section \<open>Definitions\<close>

definition first :: "byte list \<Rightarrow> byte" where
  "first p = (case p of [] \<Rightarrow> 0 | x # _ \<Rightarrow> x)"

function (sequential) matchhere :: "byte list \<Rightarrow> byte list \<Rightarrow> bool"
  and matchstar :: "byte \<Rightarrow> byte list \<Rightarrow> byte list \<Rightarrow> bool" where
  "matchhere regexp text =
     (if first regexp = 0 then True
      else if first (tl regexp) = ch (CHR ''*'') then matchstar (first regexp) (tl (tl regexp)) text
      else if first regexp = ch (CHR ''$'') \<and> first (tl regexp) = 0 then first text = 0
      else if first text \<noteq> 0 \<and> (first regexp = ch (CHR ''.'') \<or> first regexp = first text) then matchhere (tl regexp) (tl text)
      else False)"
| "matchstar c regexp text =
     (if matchhere regexp text then True
      else if first text \<noteq> 0 \<and> (first text = c \<or> c = ch (CHR ''.'')) then matchstar c regexp (tl text)
      else False)"
  by pat_completeness auto
termination
proof (relation "measure (\<lambda>x. case x of Inl (r, t) \<Rightarrow> 2 * (length r + length t) | Inr (c, r, t) \<Rightarrow> 2 * (length r + length t) + 1)")
qed (auto simp: first_def split: list.splits)

declare matchhere.simps [simp del] matchstar.simps [simp del]

function match_anywhere :: "byte list \<Rightarrow> byte list \<Rightarrow> bool" where
  "match_anywhere regexp text =
     (if matchhere regexp text then True else if first text \<noteq> 0 then match_anywhere regexp (tl text) else False)"
  by pat_completeness auto
termination
  by (relation "measure (\<lambda>(r, t). length t)") (auto simp: first_def split: list.splits)

declare match_anywhere.simps [simp del]

definition match :: "byte list \<Rightarrow> byte list \<Rightarrow> bool" where
  "match regexp text =
     (if first regexp = ch (CHR ''^'') then matchhere (tl regexp) text else match_anywhere regexp text)"

section \<open>The language of an expression\<close>

text \<open>An expression is a list of items, each a character class taken once or any number of times, and whether the match has to
  reach the end of the text.\<close>

datatype item = Once byte | Many byte

definition char_class :: "byte \<Rightarrow> byte set" where
  "char_class c = (if c = ch (CHR ''.'') then UNIV else {c})"

fun parse :: "byte list \<Rightarrow> item list \<times> bool" where
  "parse [] = ([], False)"
| "parse [c] = (if c = ch (CHR ''$'') then ([], True) else ([Once c], False))"
| "parse (c # d # r) =
     (if d = ch (CHR ''*'') then (let (is, e) = parse r in (Many c # is, e)) else (let (is, e) = parse (d # r) in (Once c # is, e)))"

primrec item_lang :: "item \<Rightarrow> byte list set" where
  "item_lang (Once c) = {[x] | x. x \<in> char_class c}"
| "item_lang (Many c) = {w. set w \<subseteq> char_class c}"

primrec lang :: "item list \<Rightarrow> byte list set" where
  "lang [] = {[]}"
| "lang (i # is) = {u @ v | u v. u \<in> item_lang i \<and> v \<in> lang is}"

definition prefix_matches :: "item list \<times> bool \<Rightarrow> byte list \<Rightarrow> bool" where
  "prefix_matches e t \<longleftrightarrow> (\<exists>w r. t = w @ r \<and> w \<in> lang (fst e) \<and> (snd e \<longrightarrow> r = []))"

section \<open>The matcher decides the language\<close>

lemma first_simps [simp]: "first [] = 0" "first (x # xs) = x"
  by (simp_all add: first_def)

lemma first_eq_0: "0 \<notin> set p \<Longrightarrow> first p = 0 \<longleftrightarrow> p = []"
  by (cases p) auto

lemma prefix_matches_Nil: "prefix_matches ([], e) t \<longleftrightarrow> (e \<longrightarrow> t = [])"
  by (auto simp: prefix_matches_def)

lemma prefix_matches_Cons:
  "prefix_matches (i # is, e) t \<longleftrightarrow> (\<exists>u t'. t = u @ t' \<and> u \<in> item_lang i \<and> prefix_matches (is, e) t')" (is "?l \<longleftrightarrow> ?r")
proof
  assume ?l
  then obtain w r where w: "t = w @ r" "w \<in> lang (i # is)" "e \<longrightarrow> r = []" unfolding prefix_matches_def fst_conv snd_conv by blast
  then obtain u v where "w = u @ v" "u \<in> item_lang i" "v \<in> lang is" by auto
  with w have a: "t = (u @ v) @ r" "u \<in> item_lang i" "v \<in> lang is" "e \<longrightarrow> r = []" by simp_all
  then have "t = u @ (v @ r)" "prefix_matches (is, e) (v @ r)" unfolding prefix_matches_def by auto
  then show ?r using a(2) by blast
next
  assume ?r
  then obtain u v r where a: "t = u @ v @ r" "u \<in> item_lang i" "v \<in> lang is" "e \<longrightarrow> r = []" unfolding prefix_matches_def by auto
  then have "t = (u @ v) @ r" "u @ v \<in> lang (i # is)" by auto
  then show ?l using a(4) unfolding prefix_matches_def fst_conv snd_conv by blast
qed

lemma prefix_matches_Once:
  "prefix_matches (Once c # is, e) t \<longleftrightarrow> t \<noteq> [] \<and> hd t \<in> char_class c \<and> prefix_matches (is, e) (tl t)"
  unfolding prefix_matches_Cons by (cases t) (auto intro: exI [of _ "[hd t]"])

lemma prefix_matches_Many:
  "prefix_matches (Many c # is, e) t \<longleftrightarrow>
     prefix_matches (is, e) t \<or> t \<noteq> [] \<and> hd t \<in> char_class c \<and> prefix_matches (Many c # is, e) (tl t)" (is "?l \<longleftrightarrow> ?r")
proof
  assume ?l
  then obtain u t' where u: "t = u @ t'" "set u \<subseteq> char_class c" "prefix_matches (is, e) t'" unfolding prefix_matches_Cons by auto
  show ?r
  proof (cases u)
    case (Cons a u')
    then have "tl t = u' @ t'" "u' \<in> item_lang (Many c)" using u by auto
    then have "prefix_matches (Many c # is, e) (tl t)" using u(3) unfolding prefix_matches_Cons by blast
    then show ?thesis using u Cons by simp
  qed (use u in simp)
next
  assume ?r
  then show ?l
  proof
    assume "prefix_matches (is, e) t"
    moreover have "t = [] @ t" "[] \<in> item_lang (Many c)" by simp_all
    ultimately show ?l unfolding prefix_matches_Cons by blast
  next
    assume a: "t \<noteq> [] \<and> hd t \<in> char_class c \<and> prefix_matches (Many c # is, e) (tl t)"
    then obtain u t' where u: "tl t = u @ t'" "set u \<subseteq> char_class c" "prefix_matches (is, e) t'" unfolding prefix_matches_Cons by auto
    then have "t = (hd t # u) @ t'" "hd t # u \<in> item_lang (Many c)" using a by (cases t; simp)+
    then show ?l using u(3) unfolding prefix_matches_Cons by blast
  qed
qed

lemma in_char_class: "x \<in> char_class c \<longleftrightarrow> c = ch (CHR ''.'') \<or> c = x"
  by (auto simp: char_class_def)

lemma parse_star: "parse (c # 42 # r) = (Many c # fst (parse r), snd (parse r))"
  by (simp add: split_def Let_def)

lemma parse_once: "first r \<noteq> 42 \<Longrightarrow> \<not> (c = 36 \<and> r = []) \<Longrightarrow> parse (c # r) = (Once c # fst (parse r), snd (parse r))"
  by (cases r) (auto simp: split_def Let_def)

lemma matchhere_lang:
  "0 \<notin> set r \<Longrightarrow> 0 \<notin> set t \<Longrightarrow> matchhere r t \<longleftrightarrow> prefix_matches (parse r) t"
  "0 \<notin> set r \<Longrightarrow> 0 \<notin> set t \<Longrightarrow> matchstar c r t \<longleftrightarrow> prefix_matches (Many c # fst (parse r), snd (parse r)) t"
proof (induction r t and c r t rule: matchhere_matchstar.induct)
  case (1 r t)
  consider "r = []" | c r' where "r = c # 42 # r'" | "r = [36]" | c r' where "r = c # r'" "first r' \<noteq> 42" "\<not> (c = 36 \<and> r' = [])"
    by (cases r; cases "tl r") auto
  then show ?case
  proof cases
    case 1
    then show ?thesis by (simp add: matchhere.simps prefix_matches_def)
  next
    case (2 c r')
    then show ?thesis using "1.IH"(1) "1.prems" by (subst matchhere.simps) (simp add: parse_star del: parse.simps)
  next
    case 3
    then show ?thesis using "1.prems" by (simp add: matchhere.simps first_eq_0 prefix_matches_def)
  next
    case (4 c r')
    have "matchhere r t \<longleftrightarrow> t \<noteq> [] \<and> (c = 46 \<or> c = first t) \<and> matchhere r' (tl t)"
      using 4 "1.prems" by (subst matchhere.simps) (auto simp: first_eq_0)
    moreover have "matchhere r' (tl t) \<longleftrightarrow> prefix_matches (parse r') (tl t)" if "t \<noteq> []" "c = 46 \<or> c = first t"
      using "1.IH"(2) 4 "1.prems" that by (auto simp: first_eq_0 dest: list.set_sel(2))
    moreover have "first t = hd t" if "t \<noteq> []" using that by (cases t) auto
    ultimately show ?thesis using 4 by (auto simp: parse_once prefix_matches_Once in_char_class)
  qed
next
  case (2 c r t)
  have "matchstar c r t \<longleftrightarrow> matchhere r t \<or> t \<noteq> [] \<and> (first t = c \<or> c = 46) \<and> matchstar c r (tl t)"
    using 2(4) by (subst matchstar.simps) (auto simp: first_eq_0)
  moreover have "matchstar c r (tl t) \<longleftrightarrow> prefix_matches (Many c # fst (parse r), snd (parse r)) (tl t)"
    if "t \<noteq> []" "first t = c \<or> c = 46" "\<not> matchhere r t"
    using 2(2) that 2(3,4) by (auto simp: first_eq_0 dest: list.set_sel(2))
  moreover have "first t = hd t" if "t \<noteq> []" using that by (cases t) auto
  ultimately show ?case
    using 2(1,3,4) prefix_matches_Many [of c "fst (parse r)" "snd (parse r)" t] by (auto simp: in_char_class)
qed

lemma match_anywhere_lang:
  assumes "0 \<notin> set r" and "0 \<notin> set t"
  shows "match_anywhere r t \<longleftrightarrow> (\<exists>p t'. t = p @ t' \<and> prefix_matches (parse r) t')"
  using assms(2)
proof (induction t)
  case Nil
  then show ?case using assms(1) by (simp add: match_anywhere.simps [of r "[]"] matchhere_lang(1))
next
  case (Cons x t)
  have "match_anywhere r (x # t) \<longleftrightarrow> prefix_matches (parse r) (x # t) \<or> match_anywhere r t"
    using Cons.prems assms(1) by (simp add: match_anywhere.simps [of r "x # t"] matchhere_lang(1))
  then show ?case using Cons by (auto simp: Cons_eq_append_conv)
qed

text \<open>C35 \<open>match\<close> searches the text for a word of the language that the expression denotes: it returns 1 exactly when some part of the
  text is such a word, a part at the beginning for an expression with \<open>^\<close> and one at the end for an expression with \<open>$\<close>.\<close>

theorem match_searches_language:
  assumes "0 \<notin> set regexp" and "0 \<notin> set text"
  shows "match regexp text \<longleftrightarrow>
    (let bol = regexp \<noteq> [] \<and> hd regexp = ch (CHR ''^''); (is, eol) = parse (if bol then tl regexp else regexp)
     in \<exists>p w r. text = p @ w @ r \<and> w \<in> lang is \<and> (bol \<longrightarrow> p = []) \<and> (eol \<longrightarrow> r = []))"
proof (cases "regexp \<noteq> [] \<and> hd regexp = ch (CHR ''^'')")
  case True
  then obtain r where r: "regexp = 94 # r" by (cases regexp) auto
  then have "match regexp text \<longleftrightarrow> prefix_matches (parse r) text" using assms by (simp add: match_def matchhere_lang(1))
  then show ?thesis using r by (simp add: prefix_matches_def Let_def split_def)
next
  case False
  then have "first regexp \<noteq> 94" by (cases regexp) auto
  then have "match regexp text \<longleftrightarrow> (\<exists>p t'. text = p @ t' \<and> prefix_matches (parse regexp) t')"
    using assms by (simp add: match_def match_anywhere_lang)
  moreover have "\<dots> \<longleftrightarrow> (\<exists>p w r. text = p @ w @ r \<and> w \<in> lang (fst (parse regexp)) \<and> (snd (parse regexp) \<longrightarrow> r = []))"
    unfolding prefix_matches_def by blast
  moreover have b: "(regexp \<noteq> [] \<and> hd regexp = ch (CHR ''^'')) = False" using False by simp
  ultimately show ?thesis unfolding b by (simp add: Let_def split_def)
qed

theorem match_searches_language_witness:
  "match (map of_char ''^a.*c'') (map of_char ''abccd'')"
proof -
  have "[97, 98, 99] \<in> lang [Once 97, Many 46, Once 99]"
    by (auto simp: char_class_def intro!: exI [of _ "[97]"] exI [of _ "[98]"])
  then have "\<exists>w r. map of_char ''abccd'' = w @ r \<and> w \<in> lang [Once 97, Many 46, Once 99]"
    by (intro exI [of _ "[97, 98, 99]"] exI [of _ "[99, 100]"]) simp
  then show ?thesis
    using match_searches_language [of "map of_char ''^a.*c''" "map of_char ''abccd''"] by (simp add: Let_def del: lang.simps)
qed

end
