(* ===== verification/Dup_Wire.thy ===== *)
theory Dup_Wire
  imports Prelude
begin

text \<open>
  The lower half of the programmer for the Bluetooth chip (\<open>tools/RPI/CC2541-programmer/debug.h\<close>, from \<open>programmer_init\<close> to
  \<open>chip_erase\<close>): bytes and commands on the two wires DC (clock) and DD (data) of the chip's debug interface, driven bit by bit through
  the GPIO pins of a Raspberry Pi.

  The bcm2835 library and the console (\<open>puts\<close>, \<open>perror\<close>) are the parameter \<open>env\<close>: each call is a function of the world \<open>'c\<close> in
  which the chip is.  The
  busy loop \<open>prog_delay\<close> has no effect.  Functions that the sources declare \<open>unsigned char\<close> and that call another one for its effect
  return the world only.
\<close>

section \<open>Definitions\<close>

datatype fsel = BCM2835_GPIO_FSEL_INPT | BCM2835_GPIO_FSEL_OUTP

record 'c env =
  bcm2835_init :: "'c \<Rightarrow> bool \<times> 'c"
  bcm2835_close :: "'c \<Rightarrow> 'c"
  bcm2835_gpio_fsel :: "nat \<Rightarrow> fsel \<Rightarrow> 'c \<Rightarrow> 'c"
  bcm2835_gpio_set :: "nat \<Rightarrow> 'c \<Rightarrow> 'c"
  bcm2835_gpio_clr :: "nat \<Rightarrow> 'c \<Rightarrow> 'c"
  bcm2835_gpio_lev :: "nat \<Rightarrow> 'c \<Rightarrow> byte"
  puts_line :: "string \<Rightarrow> 'c \<Rightarrow> 'c"
  perror_line :: "string \<Rightarrow> 'c \<Rightarrow> 'c"

definition MPIN_RESET_N :: nat where "MPIN_RESET_N = 17"
definition MPIN_DD :: nat where "MPIN_DD = 27"
definition MPIN_DC :: nat where "MPIN_DC = 22"

lemmas mpins = MPIN_RESET_N_def MPIN_DD_def MPIN_DC_def

definition CMD_CHIP_ERASE :: byte where "CMD_CHIP_ERASE = 0x10"
definition CMD_WR_CONFIG :: byte where "CMD_WR_CONFIG = 0x19"
definition CMD_READ_STATUS :: byte where "CMD_READ_STATUS = 0x30"
definition CMD_DEBUG_INSTR_1B :: byte where "CMD_DEBUG_INSTR_1B = 0x54 OR 1"
definition CMD_DEBUG_INSTR_2B :: byte where "CMD_DEBUG_INSTR_2B = 0x54 OR 2"
definition CMD_DEBUG_INSTR_3B :: byte where "CMD_DEBUG_INSTR_3B = 0x54 OR 3"
definition CMD_BURST_WRITE :: byte where "CMD_BURST_WRITE = 0x80"
definition CMD_GET_CHIP_ID :: byte where "CMD_GET_CHIP_ID = 0x68"

definition STATUS_CHIP_ERASE_BUSY_BM :: byte where "STATUS_CHIP_ERASE_BUSY_BM = 0x80"
definition STATUS_DEBUG_LOCKED_BM :: byte where "STATUS_DEBUG_LOCKED_BM = 0x04"

definition LOBYTE :: "uint \<Rightarrow> byte" where "LOBYTE w = ucast w"
definition HIBYTE :: "uint \<Rightarrow> byte" where "HIBYTE w = ucast (drop_bit 8 (ucast w :: 16 word) AND 0xFF)"

text \<open>\<open>programmer_init\<close> does not use its arguments, and has no return statement behind its error branch: there its value \<open>u\<close> is
  undefined.\<close>

definition programmer_init :: "'c env \<Rightarrow> int \<Rightarrow> int \<Rightarrow> int \<Rightarrow> int \<Rightarrow> 'c \<Rightarrow> int \<times> 'c" where
  "programmer_init e dd dc reset_n u c =
     (let (ok, c) = bcm2835_init e c in
      if \<not> ok then (-1, perror_line e (''bcm2835_init error'' @ [CHR 0x0A]) c)
      else
        let c = bcm2835_gpio_fsel e MPIN_DD BCM2835_GPIO_FSEL_INPT c;
            c = bcm2835_gpio_fsel e MPIN_DC BCM2835_GPIO_FSEL_OUTP c;
            c = bcm2835_gpio_fsel e MPIN_RESET_N BCM2835_GPIO_FSEL_OUTP c
        in (u, c))"

definition programmer_close :: "'c env \<Rightarrow> 'c \<Rightarrow> 'c" where
  "programmer_close e c = bcm2835_close e c"

primrec write_bits :: "'c env \<Rightarrow> nat \<Rightarrow> byte \<Rightarrow> 'c \<Rightarrow> 'c" where
  "write_bits e 0 data c = c"
| "write_bits e (Suc n) data c =
     (let c = bcm2835_gpio_set e MPIN_DC c;
          c = (if data AND 0x80 \<noteq> 0 then bcm2835_gpio_set e MPIN_DD c else bcm2835_gpio_clr e MPIN_DD c);
          data = push_bit 1 data;
          c = bcm2835_gpio_clr e MPIN_DC c
      in write_bits e n data c)"

definition write_debug_byte :: "'c env \<Rightarrow> byte \<Rightarrow> 'c \<Rightarrow> 'c" where
  "write_debug_byte e data c = write_bits e 8 data (bcm2835_gpio_fsel e MPIN_DD BCM2835_GPIO_FSEL_OUTP c)"

primrec read_bits :: "'c env \<Rightarrow> nat \<Rightarrow> byte \<Rightarrow> 'c \<Rightarrow> byte \<times> 'c" where
  "read_bits e 0 data c = (data, c)"
| "read_bits e (Suc n) data c =
     (let c = bcm2835_gpio_set e MPIN_DC c;
          data = push_bit 1 data;
          data = data OR bcm2835_gpio_lev e MPIN_DD c;
          c = bcm2835_gpio_clr e MPIN_DC c
      in read_bits e n data c)"

text \<open>The local \<open>data\<close> starts uninitialised, with the value \<open>u\<close>.\<close>

definition read_debug_byte :: "'c env \<Rightarrow> byte \<Rightarrow> 'c \<Rightarrow> byte \<times> 'c" where
  "read_debug_byte e u c = read_bits e 8 u (bcm2835_gpio_fsel e MPIN_DD BCM2835_GPIO_FSEL_INPT c)"

function wait_loop :: "'c env \<Rightarrow> byte \<Rightarrow> nat \<Rightarrow> 'c \<Rightarrow> nat \<times> 'c" where
  "wait_loop e u count c =
     (if bcm2835_gpio_lev e MPIN_DD c \<noteq> 0 \<and> count < 16 then wait_loop e u (count + 1) (snd (read_debug_byte e u c))
      else (count, c))"
  by pat_completeness auto
termination
  by (relation "measure (\<lambda>(e, u, count, c). 16 - count)") auto

declare wait_loop.simps [simp del]

definition wait_dup_ready :: "'c env \<Rightarrow> byte \<Rightarrow> 'c \<Rightarrow> byte \<times> 'c" where
  "wait_dup_ready e u c =
     (let c = bcm2835_gpio_fsel e MPIN_DD BCM2835_GPIO_FSEL_INPT c;
          (count, c) = wait_loop e u 0 c
      in (if count = 16 then 0 else 1, c))"

definition debug_command :: "'c env \<Rightarrow> byte \<Rightarrow> byte \<Rightarrow> byte list \<Rightarrow> 'c \<Rightarrow> byte \<times> 'c" where
  "debug_command e u cmd cmd_bytes c =
     (let c = write_debug_byte e cmd c;
          c = fold (write_debug_byte e) cmd_bytes c;
          (_, c) = wait_dup_ready e u c
      in read_debug_byte e u c)"

definition debug_init :: "'c env \<Rightarrow> 'c \<Rightarrow> 'c" where
  "debug_init e c =
     (let c = bcm2835_gpio_fsel e MPIN_DD BCM2835_GPIO_FSEL_OUTP c;
          c = bcm2835_gpio_clr e MPIN_DD c;
          c = bcm2835_gpio_clr e MPIN_DC c;
          c = bcm2835_gpio_clr e MPIN_RESET_N c;
          c = bcm2835_gpio_set e MPIN_DC c;
          c = bcm2835_gpio_clr e MPIN_DC c;
          c = bcm2835_gpio_set e MPIN_DC c;
          c = bcm2835_gpio_clr e MPIN_DC c
      in bcm2835_gpio_set e MPIN_RESET_N c)"

definition read_status :: "'c env \<Rightarrow> byte \<Rightarrow> 'c \<Rightarrow> byte \<times> 'c" where
  "read_status e u c =
     (let c = write_debug_byte e CMD_READ_STATUS c;
          (r, c) = wait_dup_ready e u c;
          c = (if r = 0 then puts_line e ''not ready'' c else c)
      in read_debug_byte e u c)"

definition read_chip_id :: "'c env \<Rightarrow> byte \<Rightarrow> 'c \<Rightarrow> byte \<times> 'c" where
  "read_chip_id e u c =
     (let c = write_debug_byte e CMD_GET_CHIP_ID c;
          (r, c) = wait_dup_ready e u c;
          c = (if r = 0 then puts_line e ''not ready'' c else c);
          (chip_id, c) = read_debug_byte e u c;
          (_, c) = read_debug_byte e u c
      in (chip_id, c))"

definition burst_write_block :: "'c env \<Rightarrow> byte \<Rightarrow> byte list \<Rightarrow> uint \<Rightarrow> 'c \<Rightarrow> 'c" where
  "burst_write_block e u src num_bytes c =
     (let c = write_debug_byte e (CMD_BURST_WRITE OR HIBYTE num_bytes) c;
          c = write_debug_byte e (LOBYTE num_bytes) c;
          c = fold (write_debug_byte e) (take (unat num_bytes) src) c;
          (_, c) = wait_dup_ready e u c
      in snd (read_debug_byte e u c))"

partial_function (option) erase_loop :: "'c env \<Rightarrow> byte \<Rightarrow> 'c \<Rightarrow> 'c option" where
  "erase_loop e u c =
     (let (status, c) = debug_command e u CMD_READ_STATUS [] c in
      if status AND STATUS_CHIP_ERASE_BUSY_BM \<noteq> 0 then erase_loop e u c else Some c)"

definition chip_erase :: "'c env \<Rightarrow> byte \<Rightarrow> 'c \<Rightarrow> 'c option" where
  "chip_erase e u c = erase_loop e u (snd (debug_command e u CMD_CHIP_ERASE [] c))"

section \<open>The debug interface of the chip\<close>

text \<open>
  The interface as its manufacturer describes it.  A chip is a machine on bytes: it receives one (\<open>d_recv\<close>), has one to send
  (\<open>d_out\<close>) and goes on when it is sent (\<open>d_next\<close>); \<open>d_busy\<close> says that it is not ready to answer, \<open>d_start\<close> puts it into debug mode.  On the
  wires it takes the level of DD at the falling edge of DC when the host drives DD, most significant bit first; when the host
  does not, it puts the next bit on DD while DC is high, and while DC is low it pulls DD low as soon as it is ready.  Rising
  RESET_N starts debug mode; the clock is not data while RESET_N is low.
\<close>

record 's dup =
  d_recv :: "byte \<Rightarrow> 's \<Rightarrow> 's"
  d_out :: "'s \<Rightarrow> byte"
  d_next :: "'s \<Rightarrow> 's"
  d_busy :: "'s \<Rightarrow> bool"
  d_start :: "'s \<Rightarrow> 's"

record 's wire =
  w_dup :: 's
  w_bits :: "bool list"
  w_drive :: bool
  w_dd :: bool
  w_dc :: bool
  w_reset :: bool
  w_console :: "string list"

definition shift_in :: "byte \<Rightarrow> bool \<Rightarrow> byte" where
  "shift_in b x = push_bit 1 b OR of_bool x"

definition byte_of :: "bool list \<Rightarrow> byte" where
  "byte_of bs = foldl shift_in 0 bs"

definition dc_fall :: "'s dup \<Rightarrow> 's wire \<Rightarrow> 's wire" where
  "dc_fall M w =
     (if \<not> w_dc w then w
      else if w_reset w then w\<lparr>w_dc := False\<rparr>
      else
        let bs = w_bits w @ [w_dd w] in
        if length bs < 8 then w\<lparr>w_dc := False, w_bits := bs\<rparr>
        else w\<lparr>w_dc := False, w_bits := [], w_dup := (if w_drive w then d_recv M (byte_of bs) (w_dup w) else d_next M (w_dup w))\<rparr>)"

definition two_wire :: "'s dup \<Rightarrow> 's wire env" where
  "two_wire M = \<lparr>bcm2835_init = (\<lambda>w. (True, w)), bcm2835_close = (\<lambda>w. w),
     bcm2835_gpio_fsel = (\<lambda>p f w. if p = MPIN_DD then w\<lparr>w_drive := (f = BCM2835_GPIO_FSEL_OUTP)\<rparr> else w),
     bcm2835_gpio_set = (\<lambda>p w. if p = MPIN_DD then w\<lparr>w_dd := True\<rparr> else if p = MPIN_DC then w\<lparr>w_dc := True\<rparr>
       else if p = MPIN_RESET_N then (if w_reset w then w\<lparr>w_reset := False, w_bits := [], w_dup := d_start M (w_dup w)\<rparr> else w) else w),
     bcm2835_gpio_clr = (\<lambda>p w. if p = MPIN_DD then w\<lparr>w_dd := False\<rparr> else if p = MPIN_DC then dc_fall M w
       else if p = MPIN_RESET_N then w\<lparr>w_reset := True\<rparr> else w),
     bcm2835_gpio_lev = (\<lambda>p w. if p = MPIN_DD then of_bool (if w_dc w then bit (d_out M (w_dup w)) (7 - length (w_bits w)) else d_busy M (w_dup w)) else 0),
     puts_line = (\<lambda>s w. w\<lparr>w_console := w_console w @ [s]\<rparr>),
     perror_line = (\<lambda>s w. w\<lparr>w_console := w_console w @ [s]\<rparr>)\<rparr>"

text \<open>Between two bytes.\<close>

definition at_rest :: "'s wire \<Rightarrow> bool" where
  "at_rest w \<longleftrightarrow> w_bits w = [] \<and> \<not> w_dc w \<and> \<not> w_reset w"

section \<open>Bytes\<close>

lemma and_top_bit: "data AND 0x80 = 0 \<longleftrightarrow> \<not> bit data 7" for data :: byte
  using and_exp_eq_0_iff_not_bit [of data 7] by simp

text \<open>The bits of a byte, most significant first, and that shifting them in gives it back whatever was there before.\<close>

definition bits_of :: "byte \<Rightarrow> bool list" where
  "bits_of b = map (bit b) (rev [0..<8])"

lemma bit_double: "n < 8 \<Longrightarrow> bit (b * 2) n \<longleftrightarrow> 0 < n \<and> bit b (n - 1)" for b :: byte
  using bit_push_bit_iff [of 1 b n] by (auto simp: push_bit_eq_mult)

lemma bit_shift_in: "n < 8 \<Longrightarrow> bit (shift_in b x) n \<longleftrightarrow> (if n = 0 then x else bit b (n - 1))"
  unfolding shift_in_def bit_or_iff bit_push_bit_iff by (auto simp: bit_simps)

lemma bit_foldl_shift:
  "n < 8 \<Longrightarrow> bit (foldl shift_in b xs) n \<longleftrightarrow> (if n < length xs then rev xs ! n else bit b (n - length xs))"
proof (induction xs arbitrary: n rule: rev_induct)
  case (snoc x xs)
  then show ?case by (cases n) (auto simp: bit_shift_in)
qed simp

lemma length_bits_of [simp]: "length (bits_of b) = 8"
  by (simp add: bits_of_def)

lemma shift_bits_of: "foldl shift_in u (bits_of b) = b"
  by (rule bit_word_eqI) (simp add: bit_foldl_shift bits_of_def rev_map [symmetric])

lemma byte_of_bits_of [simp]: "byte_of (bits_of b) = b"
  by (simp add: byte_of_def shift_bits_of)

lemma bits_of_eq: "bits_of b = [bit b 7, bit b 6, bit b 5, bit b 4, bit b 3, bit b 2, bit b 1, bit b 0]"
proof -
  have "[0..<8] = [0, 1, 2, 3, 4, 5, 6, 7]" by (simp add: upt_rec)
  then show ?thesis by (simp add: bits_of_def)
qed

lemma wire_simps [simp]:
  "bcm2835_gpio_set (two_wire M) MPIN_DC w = w\<lparr>w_dc := True\<rparr>"
  "bcm2835_gpio_clr (two_wire M) MPIN_DC w = dc_fall M w"
  "bcm2835_gpio_set (two_wire M) MPIN_DD w = w\<lparr>w_dd := True\<rparr>"
  "bcm2835_gpio_clr (two_wire M) MPIN_DD w = w\<lparr>w_dd := False\<rparr>"
  "bcm2835_gpio_fsel (two_wire M) MPIN_DD f w = w\<lparr>w_drive := (f = BCM2835_GPIO_FSEL_OUTP)\<rparr>"
  "bcm2835_gpio_lev (two_wire M) MPIN_DD w
     = of_bool (if w_dc w then bit (d_out M (w_dup w)) (7 - length (w_bits w)) else d_busy M (w_dup w))"
  "bcm2835_gpio_clr (two_wire M) MPIN_RESET_N w = w\<lparr>w_reset := True\<rparr>"
  "bcm2835_gpio_set (two_wire M) MPIN_RESET_N w
     = (if w_reset w then w\<lparr>w_reset := False, w_bits := [], w_dup := d_start M (w_dup w)\<rparr> else w)"
  "puts_line (two_wire M) s w = w\<lparr>w_console := w_console w @ [s]\<rparr>"
  "perror_line (two_wire M) s w = w\<lparr>w_console := w_console w @ [s]\<rparr>"
  "bcm2835_init (two_wire M) w = (True, w)" "bcm2835_close (two_wire M) w = w"
  "f \<noteq> BCM2835_GPIO_FSEL_OUTP \<Longrightarrow> bcm2835_gpio_fsel (two_wire M) MPIN_DC f w = w"
  "bcm2835_gpio_fsel (two_wire M) MPIN_DC BCM2835_GPIO_FSEL_OUTP w = w"
  "bcm2835_gpio_fsel (two_wire M) MPIN_RESET_N BCM2835_GPIO_FSEL_OUTP w = w"
  by (simp_all add: two_wire_def mpins)

lemma write_bits_wire:
  assumes "w_drive w" and "\<not> w_dc w" and "\<not> w_reset w" and "length (w_bits w) + Suc n = 8"
  shows "write_bits (two_wire M) (Suc n) data w
    = w\<lparr>w_dd := bit data (7 - n), w_dc := False, w_bits := [], w_dup := d_recv M (byte_of (w_bits w @ take (Suc n) (bits_of data))) (w_dup w)\<rparr>"
  using assms
proof (induction n arbitrary: w data)
  case 0
  have "take (Suc 0) (bits_of data) = [bit data 7]" by (simp add: bits_of_eq)
  then show ?case using 0 by (simp add: and_top_bit dc_fall_def Let_def)
next
  case (Suc n)
  let ?w = "w\<lparr>w_dd := bit data 7, w_dc := False, w_bits := w_bits w @ [bit data 7]\<rparr>"
  have t: "take (Suc (Suc n)) (bits_of data) = bit data 7 # take (Suc n) (bits_of (push_bit 1 data))"
    using Suc.prems(4) by (intro nth_equalityI) (auto simp: bits_of_def rev_nth nth_Cons bit_double split: nat.splits)
  have "write_bits (two_wire M) (Suc (Suc n)) data w = write_bits (two_wire M) (Suc n) (push_bit 1 data) ?w"
    using Suc.prems by (subst write_bits.simps(2)) (simp add: and_top_bit dc_fall_def Let_def del: write_bits.simps)
  also have "\<dots> = ?w\<lparr>w_dd := bit (push_bit 1 data) (7 - n), w_dc := False, w_bits := [],
      w_dup := d_recv M (byte_of (w_bits ?w @ take (Suc n) (bits_of (push_bit 1 data)))) (w_dup ?w)\<rparr>"
    using Suc.prems by (intro Suc.IH) simp_all
  also have "bit (push_bit 1 data) (7 - n) = bit data (7 - Suc n)" using Suc.prems(4) by (simp add: bit_double)
  finally show ?case by (simp add: t)
qed

lemma rest_bits: "at_rest w \<Longrightarrow> w\<lparr>w_drive := d, w_dd := x, w_dc := False, w_bits := [], w_dup := s\<rparr> = w\<lparr>w_drive := d, w_dd := x, w_dup := s\<rparr>"
  by (cases w) (simp add: at_rest_def)

lemma write_debug_byte_wire:
  assumes "at_rest w"
  shows "write_debug_byte (two_wire M) b w = w\<lparr>w_drive := True, w_dd := bit b 0, w_dup := d_recv M b (w_dup w)\<rparr>"
proof -
  have "write_bits (two_wire M) 8 b (w\<lparr>w_drive := True\<rparr>)
      = w\<lparr>w_drive := True, w_dd := bit b 0, w_dc := False, w_bits := [], w_dup := d_recv M b (w_dup w)\<rparr>"
    using assms write_bits_wire [of "w\<lparr>w_drive := True\<rparr>" 7 M b] by (simp add: at_rest_def del: write_bits.simps)
  then show ?thesis by (simp add: write_debug_byte_def rest_bits [OF assms])
qed

lemma read_bits_wire:
  assumes "\<not> w_drive w" and "\<not> w_reset w" and "\<not> w_dc w" and "length (w_bits w) + Suc n = 8"
  shows "read_bits (two_wire M) (Suc n) data w
    = (foldl shift_in data (drop (7 - n) (bits_of (d_out M (w_dup w)))), w\<lparr>w_dc := False, w_bits := [], w_dup := d_next M (w_dup w)\<rparr>)"
  using assms
proof (induction n arbitrary: w data)
  case 0
  then show ?case by (simp add: dc_fall_def Let_def bits_of_eq shift_in_def)
next
  case (Suc n)
  let ?w = "w\<lparr>w_dc := False, w_bits := w_bits w @ [w_dd w]\<rparr>" and ?o = "d_out M (w_dup w)"
  have d: "drop (7 - Suc n) (bits_of ?o) = bit ?o (Suc n) # drop (7 - n) (bits_of ?o)"
  proof -
    have "Suc (7 - Suc n) = 7 - n" "7 - Suc n < 8" "7 - (7 - Suc n) = Suc n" using Suc.prems(4) by simp_all
    then show ?thesis using Cons_nth_drop_Suc [of "7 - Suc n" "bits_of ?o"] by (simp add: bits_of_def rev_nth)
  qed
  have "7 - length (w_bits w) = Suc n" using Suc.prems(4) by simp
  then have "read_bits (two_wire M) (Suc (Suc n)) data w = read_bits (two_wire M) (Suc n) (shift_in data (bit ?o (Suc n))) ?w"
    using Suc.prems by (subst read_bits.simps(2)) (simp add: dc_fall_def Let_def shift_in_def del: read_bits.simps)
  also have "\<dots> = (foldl shift_in (shift_in data (bit ?o (Suc n))) (drop (7 - n) (bits_of (d_out M (w_dup ?w)))),
      ?w\<lparr>w_dc := False, w_bits := [], w_dup := d_next M (w_dup ?w)\<rparr>)"
    using Suc.prems by (intro Suc.IH) simp_all
  finally show ?case unfolding d by (simp del: read_bits.simps)
qed

lemma read_debug_byte_wire:
  assumes "at_rest w"
  shows "read_debug_byte (two_wire M) u w = (d_out M (w_dup w), w\<lparr>w_drive := False, w_dup := d_next M (w_dup w)\<rparr>)"
proof -
  have "read_bits (two_wire M) 8 u (w\<lparr>w_drive := False\<rparr>)
      = (d_out M (w_dup w), w\<lparr>w_drive := False, w_dc := False, w_bits := [], w_dup := d_next M (w_dup w)\<rparr>)"
    using assms read_bits_wire [of "w\<lparr>w_drive := False\<rparr>" 7 M u] by (simp add: at_rest_def shift_bits_of del: read_bits.simps)
  moreover have "w\<lparr>w_drive := False, w_dc := False, w_bits := [], w_dup := s\<rparr> = w\<lparr>w_drive := False, w_dup := s\<rparr>" for s
    using assms by (cases w) (simp add: at_rest_def)
  ultimately show ?thesis by (simp add: read_debug_byte_def)
qed

section \<open>Commands\<close>

text \<open>The answer of a chip to bytes sent: after at most 15 polls it is ready, sends \<open>r\<close> and is in the state \<open>s'\<close>.\<close>

definition answers :: "'s dup \<Rightarrow> byte list \<Rightarrow> 's \<Rightarrow> byte \<Rightarrow> 's \<Rightarrow> bool" where
  "answers M bs s r s' \<longleftrightarrow> (\<exists>k < 16. let s1 = fold (d_recv M) bs s; t = (d_next M ^^ k) s1 in
     (\<forall>i < k. d_busy M ((d_next M ^^ i) s1)) \<and> \<not> d_busy M t \<and> r = d_out M t \<and> s' = d_next M t)"

lemma at_rest_upd [simp]:
  "at_rest (w\<lparr>w_drive := d\<rparr>) = at_rest w" "at_rest (w\<lparr>w_dd := x\<rparr>) = at_rest w" "at_rest (w\<lparr>w_dup := s\<rparr>) = at_rest w"
  "at_rest (w\<lparr>w_console := l\<rparr>) = at_rest w"
  by (simp_all add: at_rest_def)

lemma write_bytes_wire:
  "at_rest w \<Longrightarrow> \<exists>d x. fold (write_debug_byte (two_wire M)) bs w = w\<lparr>w_drive := d, w_dd := x, w_dup := fold (d_recv M) bs (w_dup w)\<rparr>"
proof (induction bs arbitrary: w)
  case Nil
  show ?case by (intro exI [of _ "w_drive w"] exI [of _ "w_dd w"]) simp
next
  case (Cons b bs)
  let ?w = "w\<lparr>w_drive := True, w_dd := bit b 0, w_dup := d_recv M b (w_dup w)\<rparr>"
  have "at_rest ?w" using Cons.prems by simp
  from Cons.IH [OF this] obtain d x where "fold (write_debug_byte (two_wire M)) bs ?w
      = ?w\<lparr>w_drive := d, w_dd := x, w_dup := fold (d_recv M) bs (w_dup ?w)\<rparr>" by blast
  then show ?case using write_debug_byte_wire [OF Cons.prems, of M b] by auto
qed

lemma wait_loop_wire:
  assumes "at_rest w" and "\<not> w_drive w" and "count + k < 16"
    and "\<forall>i < k. d_busy M ((d_next M ^^ i) (w_dup w))" and "\<not> d_busy M ((d_next M ^^ k) (w_dup w))"
  shows "wait_loop (two_wire M) u count w = (count + k, w\<lparr>w_dup := (d_next M ^^ k) (w_dup w)\<rparr>)"
  using assms
proof (induction k arbitrary: count w)
  case 0
  then show ?case by (subst wait_loop.simps) (simp add: at_rest_def)
next
  case (Suc k)
  let ?w = "w\<lparr>w_dup := d_next M (w_dup w)\<rparr>"
  have "d_busy M (w_dup w)" using Suc.prems(4) by auto
  then have "wait_loop (two_wire M) u count w = wait_loop (two_wire M) u (count + 1) (snd (read_debug_byte (two_wire M) u w))"
    using Suc.prems by (subst wait_loop.simps) (simp add: at_rest_def)
  also have "snd (read_debug_byte (two_wire M) u w) = ?w"
    using read_debug_byte_wire [OF Suc.prems(1), of M u] Suc.prems(2) by (cases w) simp
  also have "wait_loop (two_wire M) u (count + 1) ?w = (count + 1 + k, ?w\<lparr>w_dup := (d_next M ^^ k) (w_dup ?w)\<rparr>)"
    using Suc.prems by (intro Suc.IH) (auto simp: funpow_Suc_right simp del: funpow.simps)
  finally show ?case by (simp add: funpow_Suc_right del: funpow.simps)
qed

lemma wait_dup_ready_wire:
  assumes "at_rest w" and "k < 16" and "\<forall>i < k. d_busy M ((d_next M ^^ i) (w_dup w))" and "\<not> d_busy M ((d_next M ^^ k) (w_dup w))"
  shows "wait_dup_ready (two_wire M) u w = (1, w\<lparr>w_drive := False, w_dup := (d_next M ^^ k) (w_dup w)\<rparr>)"
  using assms wait_loop_wire [of "w\<lparr>w_drive := False\<rparr>" 0 k M u] by (simp add: wait_dup_ready_def)

text \<open>The state of the wires behind a command: at rest, with the chip in the state \<open>s\<close>.\<close>

definition resting :: "'s wire \<Rightarrow> 's \<Rightarrow> string list \<Rightarrow> bool" where
  "resting w s l \<longleftrightarrow> at_rest w \<and> w_dup w = s \<and> w_console w = l"

lemma transaction_wire:
  assumes "resting w s l" and "answers M bs s r s'"
  shows "\<exists>w1 w2. wait_dup_ready (two_wire M) u (fold (write_debug_byte (two_wire M)) bs w) = (1, w1)
    \<and> read_debug_byte (two_wire M) u w1 = (r, w2) \<and> resting w2 s' l"
proof -
  obtain k where k: "k < 16" "\<forall>i < k. d_busy M ((d_next M ^^ i) (fold (d_recv M) bs s))"
    "\<not> d_busy M ((d_next M ^^ k) (fold (d_recv M) bs s))" "r = d_out M ((d_next M ^^ k) (fold (d_recv M) bs s))"
    "s' = d_next M ((d_next M ^^ k) (fold (d_recv M) bs s))"
    using assms(2) by (auto simp: answers_def Let_def)
  have w: "at_rest w" "w_dup w = s" "w_console w = l" using assms(1) by (simp_all add: resting_def)
  obtain d x where f: "fold (write_debug_byte (two_wire M)) bs w = w\<lparr>w_drive := d, w_dd := x, w_dup := fold (d_recv M) bs s\<rparr>" (is "_ = ?w")
    using write_bytes_wire [OF w(1), of M bs] w(2) by auto
  let ?w1 = "?w\<lparr>w_drive := False, w_dup := (d_next M ^^ k) (w_dup ?w)\<rparr>"
  have "wait_dup_ready (two_wire M) u ?w = (1, ?w1)" using k w(1) by (intro wait_dup_ready_wire) simp_all
  moreover have "read_debug_byte (two_wire M) u ?w1 = (r, ?w1\<lparr>w_drive := False, w_dup := d_next M (w_dup ?w1)\<rparr>)"
    using read_debug_byte_wire [of ?w1 M u] w(1) k(4) by simp
  moreover have "resting (?w1\<lparr>w_drive := False, w_dup := d_next M (w_dup ?w1)\<rparr>) s' l" using w k(5) by (simp add: resting_def)
  ultimately show ?thesis unfolding f by blast
qed

lemma debug_command_wire:
  assumes "resting w s l" and "answers M (cmd # bs) s r s'"
  shows "\<exists>w'. debug_command (two_wire M) u cmd bs w = (r, w') \<and> resting w' s' l"
  using transaction_wire [OF assms, of u] by (auto simp: debug_command_def)

text \<open>C40 A debug command on the pins is a command of the chip: the chip, which sees only the levels of DC and DD, gets the command byte
  and the bytes behind it, the programmer waits as long as the chip is busy, up to 15 polls, and returns the byte that the chip
  answers, whatever an uninitialised variable holds.\<close>

theorem debug_command_transacts:
  assumes "at_rest w" and "answers M (cmd # cmd_bytes) (w_dup w) r s'"
  shows "\<exists>w'. debug_command (two_wire M) u cmd cmd_bytes w = (r, w') \<and> at_rest w' \<and> w_dup w' = s' \<and> w_console w' = w_console w"
  using debug_command_wire [of w "w_dup w" "w_console w"] assms by (auto simp: resting_def)

text \<open>A chip that is busy for two polls after each byte and answers with the last one.\<close>

definition echo_chip :: "(nat \<times> byte) dup" where
  "echo_chip = \<lparr>d_recv = (\<lambda>b s. (2, b)), d_out = snd, d_next = (\<lambda>(n, b). (n - 1, b)), d_busy = (\<lambda>(n, b). 0 < n), d_start = (\<lambda>s. s)\<rparr>"

theorem debug_command_transacts_witness:
  "let w = \<lparr>w_dup = (0, 0), w_bits = [], w_drive = False, w_dd = False, w_dc = False, w_reset = False, w_console = []\<rparr> in
   \<exists>w'. debug_command (two_wire echo_chip) 0xAA CMD_WR_CONFIG [0x22] w = (0x22, w') \<and> at_rest w' \<and> w_dup w' = (0, 0x22) \<and> w_console w' = []"
proof -
  let ?w = "\<lparr>w_dup = (0, 0), w_bits = [], w_drive = False, w_dd = False, w_dc = False, w_reset = False, w_console = []\<rparr> :: (nat \<times> byte) wire"
  have "\<forall>i < 2. 0 < fst (((\<lambda>(n, b). (n - 1, b)) ^^ i) (2 :: nat, 0x22 :: byte))" by (simp add: less_Suc_eq numeral_2_eq_2 split_def)
  then have "answers echo_chip [CMD_WR_CONFIG, 0x22] (w_dup ?w) 0x22 (0, 0x22)"
    unfolding answers_def Let_def by (intro exI [of _ 2]) (simp add: echo_chip_def numeral_2_eq_2 less_Suc_eq split_def)
  then show ?thesis using debug_command_transacts [of ?w echo_chip CMD_WR_CONFIG "[0x22]" "0x22" "(0, 0x22)" "0xAA"] by (simp add: at_rest_def)
qed

end
