(* ===== verification/Dup_Flash.thy ===== *)
theory Dup_Flash
  imports Dup_Wire
begin

text \<open>
  The upper half of \<open>tools/RPI/CC2541-programmer/debug.h\<close>: memory accesses of the chip by instructions that its debug unit executes,
  and reading and programming its flash memory with them.

  What these functions rely on of the chip is the locale \<open>debug_chip\<close>.  It is interpreted on the debug unit as its manufacturer
  describes it, in front of any device on the chip's bus.
\<close>

section \<open>Definitions\<close>

definition ADDR_BUF0 :: uint where "ADDR_BUF0 = 0x0000"
definition ADDR_DMA_DESC_0 :: uint where "ADDR_DMA_DESC_0 = 0x0200"
definition ADDR_DMA_DESC_1 :: uint where "ADDR_DMA_DESC_1 = ADDR_DMA_DESC_0 + 8"
definition CH_DBG_TO_BUF0 :: byte where "CH_DBG_TO_BUF0 = 0x01"
definition CH_BUF0_TO_FLASH :: byte where "CH_BUF0_TO_FLASH = 0x02"
definition DUP_DBGDATA :: uint where "DUP_DBGDATA = 0x6260"
definition DUP_FCTL :: uint where "DUP_FCTL = 0x6270"
definition DUP_FADDRL :: uint where "DUP_FADDRL = 0x6271"
definition DUP_FADDRH :: uint where "DUP_FADDRH = 0x6272"
definition DUP_FWDATA :: uint where "DUP_FWDATA = 0x6273"
definition DUP_MEMCTR :: uint where "DUP_MEMCTR = 0x70C7"
definition DUP_DMA1CFGL :: uint where "DUP_DMA1CFGL = 0x70D2"
definition DUP_DMA1CFGH :: uint where "DUP_DMA1CFGH = 0x70D3"
definition DUP_DMA0CFGL :: uint where "DUP_DMA0CFGL = 0x70D4"
definition DUP_DMA0CFGH :: uint where "DUP_DMA0CFGH = 0x70D5"
definition DUP_DMAARM :: uint where "DUP_DMAARM = 0x70D6"

definition dma_desc_0 :: "byte list" where
  "dma_desc_0 = [HIBYTE DUP_DBGDATA, LOBYTE DUP_DBGDATA, HIBYTE ADDR_BUF0, LOBYTE ADDR_BUF0, 0, 0, 31, 0x11]"

definition dma_desc_1 :: "byte list" where
  "dma_desc_1 = [HIBYTE ADDR_BUF0, LOBYTE ADDR_BUF0, HIBYTE DUP_FWDATA, LOBYTE DUP_FWDATA, 0, 0, 18, 0x42]"

primrec xdata_bytes :: "'c env \<Rightarrow> byte \<Rightarrow> byte list \<Rightarrow> 'c \<Rightarrow> 'c" where
  "xdata_bytes e u [] c = c"
| "xdata_bytes e u (v # values) c =
     (let (_, c) = debug_command e u CMD_DEBUG_INSTR_2B [0x74, v] c;
          (_, c) = debug_command e u CMD_DEBUG_INSTR_1B [0xF0] c;
          (_, c) = debug_command e u CMD_DEBUG_INSTR_1B [0xA3] c
      in xdata_bytes e u values c)"

definition write_xdata_memory_block :: "'c env \<Rightarrow> byte \<Rightarrow> uint \<Rightarrow> byte list \<Rightarrow> nat \<Rightarrow> 'c \<Rightarrow> 'c" where
  "write_xdata_memory_block e u address values num_bytes c =
     (let (_, c) = debug_command e u CMD_DEBUG_INSTR_3B [0x90, HIBYTE address, LOBYTE address] c
      in xdata_bytes e u (take num_bytes values) c)"

definition write_xdata_memory :: "'c env \<Rightarrow> byte \<Rightarrow> uint \<Rightarrow> byte \<Rightarrow> 'c \<Rightarrow> 'c" where
  "write_xdata_memory e u address v c =
     (let (_, c) = debug_command e u CMD_DEBUG_INSTR_3B [0x90, HIBYTE address, LOBYTE address] c;
          (_, c) = debug_command e u CMD_DEBUG_INSTR_2B [0x74, v] c
      in snd (debug_command e u CMD_DEBUG_INSTR_1B [0xF0] c))"

definition read_xdata_memory :: "'c env \<Rightarrow> byte \<Rightarrow> uint \<Rightarrow> 'c \<Rightarrow> byte \<times> 'c" where
  "read_xdata_memory e u address c =
     (let (_, c) = debug_command e u CMD_DEBUG_INSTR_3B [0x90, HIBYTE address, LOBYTE address] c
      in debug_command e u CMD_DEBUG_INSTR_1B [0xE0] c)"

primrec flash_bytes :: "'c env \<Rightarrow> byte \<Rightarrow> nat \<Rightarrow> 'c \<Rightarrow> byte list \<times> 'c" where
  "flash_bytes e u 0 c = ([], c)"
| "flash_bytes e u (Suc n) c =
     (let (v, c) = debug_command e u CMD_DEBUG_INSTR_1B [0xE0] c;
          (_, c) = debug_command e u CMD_DEBUG_INSTR_1B [0xA3] c;
          (vs, c) = flash_bytes e u n c
      in (v # vs, c))"

definition read_flash_memory_block :: "'c env \<Rightarrow> byte \<Rightarrow> byte \<Rightarrow> uint \<Rightarrow> nat \<Rightarrow> 'c \<Rightarrow> byte list \<times> 'c" where
  "read_flash_memory_block e u bank flash_addr num_bytes c =
     (let xdata_addr = 0x8000 + flash_addr;
          c = write_xdata_memory e u DUP_MEMCTR bank c;
          (_, c) = debug_command e u CMD_DEBUG_INSTR_3B [0x90, HIBYTE xdata_addr, LOBYTE xdata_addr] c
      in flash_bytes e u num_bytes c)"

partial_function (option) flash_wait :: "'c env \<Rightarrow> byte \<Rightarrow> 'c \<Rightarrow> 'c option" where
  "flash_wait e u c =
     (let (v, c) = read_xdata_memory e u DUP_FCTL c in if v AND 0x80 \<noteq> 0 then flash_wait e u c else Some c)"

definition write_flash_memory_block :: "'c env \<Rightarrow> byte \<Rightarrow> byte list \<Rightarrow> uint \<Rightarrow> uint \<Rightarrow> 'c \<Rightarrow> 'c option" where
  "write_flash_memory_block e u src start_addr num_bytes c =
     (let c = write_xdata_memory_block e u ADDR_DMA_DESC_0 dma_desc_0 8 c;
          c = write_xdata_memory_block e u ADDR_DMA_DESC_1 dma_desc_1 8 c;
          len = [HIBYTE num_bytes, LOBYTE num_bytes];
          c = write_xdata_memory_block e u (ADDR_DMA_DESC_0 + 4) len 2 c;
          c = write_xdata_memory_block e u (ADDR_DMA_DESC_1 + 4) len 2 c;
          c = write_xdata_memory e u DUP_DMA0CFGH (HIBYTE ADDR_DMA_DESC_0) c;
          c = write_xdata_memory e u DUP_DMA0CFGL (LOBYTE ADDR_DMA_DESC_0) c;
          c = write_xdata_memory e u DUP_DMA1CFGH (HIBYTE ADDR_DMA_DESC_1) c;
          c = write_xdata_memory e u DUP_DMA1CFGL (LOBYTE ADDR_DMA_DESC_1) c;
          c = write_xdata_memory e u DUP_FADDRH (HIBYTE (drop_bit 2 start_addr)) c;
          c = write_xdata_memory e u DUP_FADDRL (LOBYTE (drop_bit 2 start_addr)) c;
          c = write_xdata_memory e u DUP_DMAARM CH_DBG_TO_BUF0 c;
          c = burst_write_block e u src num_bytes c;
          c = write_xdata_memory e u DUP_DMAARM CH_BUF0_TO_FLASH c;
          c = write_xdata_memory e u DUP_FCTL 0x06 c
      in flash_wait e u c)"

section \<open>The chip\<close>

text \<open>
  What the programmer relies on: \<open>mk p a d\<close> is the chip between two commands, with data pointer \<open>p\<close>, accumulator \<open>a\<close> and the device \<open>d\<close>
  on its bus.  The debug unit executes \<open>MOV DPTR\<close>, \<open>MOV A\<close>, \<open>MOVX @DPTR, A\<close>, \<open>INC DPTR\<close> and \<open>MOVX A, @DPTR\<close>, hands a burst of bytes to the
  device, and has commands to erase the chip, to read its status and to write its configuration.
\<close>

locale debug_chip =
  fixes M :: "'s dup"
    and mk :: "16 word \<Rightarrow> byte \<Rightarrow> 'd \<Rightarrow> 's"
    and poke :: "16 word \<Rightarrow> byte \<Rightarrow> 'd \<Rightarrow> 'd"
    and peek :: "16 word \<Rightarrow> 'd \<Rightarrow> byte \<times> 'd"
    and burst :: "byte list \<Rightarrow> 'd \<Rightarrow> 'd"
    and erase :: "'d \<Rightarrow> 'd"
    and status :: "'d \<Rightarrow> byte \<times> 'd"
    and config :: "byte \<Rightarrow> 'd \<Rightarrow> 'd"
    and ident :: "'d \<Rightarrow> byte \<times> byte"
  assumes mov_dptr: "\<exists>r. answers M [0x57, 0x90, ucast (drop_bit 8 q), ucast q] (mk p a d) r (mk q a d)"
    and mov_a: "\<exists>r. answers M [0x56, 0x74, v] (mk p a d) r (mk p v d)"
    and movx_store: "\<exists>r. answers M [0x55, 0xF0] (mk p a d) r (mk p a (poke p a d))"
    and inc_dptr: "\<exists>r. answers M [0x55, 0xA3] (mk p a d) r (mk (p + 1) a d)"
    and movx_load: "answers M [0x55, 0xE0] (mk p a d) (fst (peek p d)) (mk p (fst (peek p d)) (snd (peek p d)))"
    and burst_write: "0 < length bs \<Longrightarrow> length bs < 2048 \<Longrightarrow>
      \<exists>r. answers M ((0x80 OR of_nat (length bs div 256)) # of_nat (length bs mod 256) # bs) (mk p a d) r (mk p a (burst bs d))"
    and chip_erase_cmd: "\<exists>r. answers M [0x10] (mk p a d) r (mk p a (erase d))"
    and read_status_cmd: "answers M [0x30] (mk p a d) (fst (status d)) (mk p a (snd (status d)))"
    and chip_id_cmd: "\<exists>s1. answers M [0x68] (mk p a d) (fst (ident d)) s1 \<and> d_next M s1 = mk p a d"
    and wr_config: "\<exists>r. answers M [0x19, v] (mk p a d) r (mk p a (config v d))"

subsection \<open>The debug unit\<close>

record 'd bus =
  bus_poke :: "16 word \<Rightarrow> byte \<Rightarrow> 'd \<Rightarrow> 'd"
  bus_peek :: "16 word \<Rightarrow> 'd \<Rightarrow> byte \<times> 'd"
  bus_burst :: "byte list \<Rightarrow> 'd \<Rightarrow> 'd"
  bus_erase :: "'d \<Rightarrow> 'd"
  bus_status :: "'d \<Rightarrow> byte \<times> 'd"
  bus_config :: "byte \<Rightarrow> 'd \<Rightarrow> 'd"
  bus_id :: "'d \<Rightarrow> byte \<times> byte"
  bus_delay :: "'d \<Rightarrow> nat"
  bus_reset :: "'d \<Rightarrow> 'd"

text \<open>The unit collects the bytes of a command, executes it, keeps the line busy for a number of polls and then sends its answer.\<close>

record 'd unit_state =
  du_in :: "byte list"
  du_out :: "byte list"
  du_wait :: nat
  du_dptr :: "16 word"
  du_acc :: byte
  du_dev :: 'd

definition cmd_length :: "byte list \<Rightarrow> nat" where
  "cmd_length q =
     (let c = hd q in
      if c AND 0xF8 = 0x80 then
        (if length q < 2 then 2 else 2 + 256 * unat (c AND 7) + unat (q ! 1))
      else if c AND 0xFC = 0x54 then 1 + unat (c AND 3)
      else if c AND 0xF8 = 0x18 then 2
      else 1)"

definition unit_instr :: "'d bus \<Rightarrow> byte list \<Rightarrow> 'd unit_state \<Rightarrow> 'd unit_state" where
  "unit_instr B is s =
     (let i = hd is in
      if i = 0x90 \<and> length is = 3 then s\<lparr>du_dptr := push_bit 8 (ucast (is ! 1)) OR ucast (is ! 2)\<rparr>
      else if i = 0x74 \<and> length is = 2 then s\<lparr>du_acc := is ! 1\<rparr>
      else if i = 0xF0 then s\<lparr>du_dev := bus_poke B (du_dptr s) (du_acc s) (du_dev s)\<rparr>
      else if i = 0xA3 then s\<lparr>du_dptr := du_dptr s + 1\<rparr>
      else if i = 0xE0 then (let (v, d) = bus_peek B (du_dptr s) (du_dev s) in s\<lparr>du_acc := v, du_dev := d\<rparr>)
      else s)"

definition unit_exec :: "'d bus \<Rightarrow> byte list \<Rightarrow> 'd unit_state \<Rightarrow> 'd unit_state" where
  "unit_exec B q s =
     (let c = hd q in
      if c AND 0xF8 = 0x80 then s\<lparr>du_dev := bus_burst B (drop 2 q) (du_dev s), du_out := [0]\<rparr>
      else if c AND 0xFC = 0x54 then (let s = unit_instr B (tl q) s in s\<lparr>du_out := [du_acc s]\<rparr>)
      else if c AND 0xF8 = 0x18 then s\<lparr>du_dev := bus_config B (q ! 1) (du_dev s), du_out := [0]\<rparr>
      else if c AND 0xF8 = 0x10 then s\<lparr>du_dev := bus_erase B (du_dev s), du_out := [0]\<rparr>
      else if c AND 0xF8 = 0x30 then (let (v, d) = bus_status B (du_dev s) in s\<lparr>du_dev := d, du_out := [v]\<rparr>)
      else if c AND 0xF8 = 0x68 then (let (i, v) = bus_id B (du_dev s) in s\<lparr>du_out := [i, v]\<rparr>)
      else s\<lparr>du_out := [0]\<rparr>)"

definition debug_unit :: "'d bus \<Rightarrow> 'd unit_state dup" where
  "debug_unit B = \<lparr>
     d_recv = (\<lambda>b s. let q = du_in s @ [b] in
       if length q < cmd_length q then s\<lparr>du_in := q\<rparr>
       else let s = unit_exec B q (s\<lparr>du_in := []\<rparr>) in s\<lparr>du_wait := min 15 (bus_delay B (du_dev s))\<rparr>),
     d_out = (\<lambda>s. case du_out s of [] \<Rightarrow> 0 | x # _ \<Rightarrow> x),
     d_next = (\<lambda>s. if du_wait s > 0 then s\<lparr>du_wait := du_wait s - 1\<rparr> else s\<lparr>du_out := tl (du_out s)\<rparr>),
     d_busy = (\<lambda>s. du_wait s > 0),
     d_start = (\<lambda>s. s\<lparr>du_in := [], du_out := [], du_wait := 0, du_dev := bus_reset B (du_dev s)\<rparr>)\<rparr>"

definition idle :: "16 word \<Rightarrow> byte \<Rightarrow> 'd \<Rightarrow> 'd unit_state" where
  "idle p a d = \<lparr>du_in = [], du_out = [], du_wait = 0, du_dptr = p, du_acc = a, du_dev = d\<rparr>"

lemma debug_unit_simps:
  "d_recv (debug_unit B) b s = (let q = du_in s @ [b] in
     if length q < cmd_length q then s\<lparr>du_in := q\<rparr>
     else let s = unit_exec B q (s\<lparr>du_in := []\<rparr>) in s\<lparr>du_wait := min 15 (bus_delay B (du_dev s))\<rparr>)"
  "d_out (debug_unit B) s = (case du_out s of [] \<Rightarrow> 0 | x # _ \<Rightarrow> x)"
  "d_next (debug_unit B) s = (if du_wait s > 0 then s\<lparr>du_wait := du_wait s - 1\<rparr> else s\<lparr>du_out := tl (du_out s)\<rparr>)"
  "d_busy (debug_unit B) s \<longleftrightarrow> du_wait s > 0"
  "d_start (debug_unit B) s = idle (du_dptr s) (du_acc s) (bus_reset B (du_dev s))"
  by (simp_all add: debug_unit_def idle_def)

text \<open>Waiting, whatever the delay of the device.\<close>

lemma unit_waits: "k \<le> du_wait s \<Longrightarrow> (d_next (debug_unit B) ^^ k) s = s\<lparr>du_wait := du_wait s - k\<rparr>"
  by (induction k) (simp_all add: debug_unit_simps)

lemma unit_answers:
  assumes "fold (d_recv (debug_unit B)) bs s = t\<lparr>du_out := r # rs, du_wait := n\<rparr>" and "n < 16"
  shows "answers (debug_unit B) bs s r (t\<lparr>du_out := rs, du_wait := 0\<rparr>)"
proof -
  let ?t = "t\<lparr>du_out := r # rs, du_wait := n\<rparr>"
  have n: "(d_next (debug_unit B) ^^ n) ?t = t\<lparr>du_out := r # rs, du_wait := 0\<rparr>" using unit_waits [of n ?t B] by simp
  have b: "\<forall>i < n. d_busy (debug_unit B) ((d_next (debug_unit B) ^^ i) ?t)" using unit_waits [of _ ?t B] by (simp add: debug_unit_simps)
  show ?thesis unfolding answers_def Let_def assms(1) using assms(2) n b by (intro exI [of _ n]) (simp add: debug_unit_simps)
qed

lemma unit_command:
  assumes "length q = cmd_length q" and "\<And>k. 0 < k \<Longrightarrow> k < length q \<Longrightarrow> k < cmd_length (take k q)" and "q \<noteq> []"
    and "unit_exec B q (idle p a d) = s\<lparr>du_out := r # rs\<rparr>"
  shows "answers (debug_unit B) q (idle p a d) r (s\<lparr>du_out := rs, du_wait := 0\<rparr>)"
proof -
  have collect: "fold (d_recv (debug_unit B)) (take k q) (idle p a d) = (idle p a d)\<lparr>du_in := take k q\<rparr>" if "k < length q" for k
    using that
  proof (induction k)
    case (Suc k)
    have "take k q @ [q ! k] = take (Suc k) q" using Suc.prems by (simp add: take_Suc_conv_app_nth)
    moreover have "Suc k < cmd_length (take (Suc k) q)" using assms(2) [of "Suc k"] Suc.prems by simp
    ultimately show ?case using Suc by (simp add: take_Suc_conv_app_nth debug_unit_simps Let_def)
  qed (simp add: idle_def)
  let ?k = "length q - 1"
  have k: "?k < length q" "take ?k q @ [q ! ?k] = q"
    using assms(3) append_butlast_last_id [of q] by (simp_all add: butlast_conv_take last_conv_nth)
  have "fold (d_recv (debug_unit B)) q (idle p a d) = d_recv (debug_unit B) (q ! ?k) (fold (d_recv (debug_unit B)) (take ?k q) (idle p a d))"
    by (subst (1) k(2) [symmetric]) (simp only: fold_append comp_apply fold_simps)
  also have "\<dots> = s\<lparr>du_out := r # rs, du_wait := min 15 (bus_delay B (du_dev s))\<rparr>"
    unfolding collect [OF k(1)] using assms(1,4) k(2) by (simp add: debug_unit_simps idle_def)
  finally show ?thesis by (rule unit_answers) simp
qed

lemma burst_head:
  assumes "h < 8"
  shows "(0x80 OR of_nat h) AND 0xF8 = (0x80 :: byte)" "unat ((0x80 OR of_nat h) AND 7 :: byte) = h"
proof -
  have "h = 0 \<or> h = 1 \<or> h = 2 \<or> h = 3 \<or> h = 4 \<or> h = 5 \<or> h = 6 \<or> h = 7" using assms by linarith
  then show "(0x80 OR of_nat h) AND 0xF8 = (0x80 :: byte)" "unat ((0x80 OR of_nat h) AND 7 :: byte) = h" by auto
qed

lemma unit_burst:
  assumes "0 < length bs" and "length bs < 2048"
  shows "answers (debug_unit B) ((0x80 OR of_nat (length bs div 256)) # of_nat (length bs mod 256) # bs) (idle p a d) 0 (idle p a (bus_burst B bs d))"
proof -
  let ?h = "length bs div 256"
  define c where "c = (0x80 OR of_nat ?h :: byte)"
  define l where "l = (of_nat (length bs mod 256) :: byte)"
  have "?h < 8" using assms(2) by linarith
  then have c: "c AND 0xF8 = 0x80" "unat (c AND 7) = ?h" using burst_head [of ?h] by (simp_all add: c_def)
  have "unat l = length bs mod 256" by (simp add: l_def unat_of_nat)
  then have n: "256 * unat (c AND 7) + unat l = length bs" unfolding c(2) using mult_div_mod_eq [of 256 "length bs"] by (simp only:)
  have part: "k < cmd_length (take k (c # l # bs))" if pos: "0 < k" and len: "k < length (c # l # bs)" for k
  proof (cases "k = 1")
    case False
    obtain i where i: "k = Suc i" using pos by (cases k) auto
    then obtain j where "i = Suc j" using False by (cases i) auto
    then have k: "k = Suc (Suc j)" using i by simp
    have "cmd_length (take k (c # l # bs)) = 2 + 256 * unat (c AND 7) + unat l" using c(1) by (simp add: cmd_length_def k)
    then show ?thesis using len n by simp
  qed (simp add: cmd_length_def c)
  have "answers (debug_unit B) (c # l # bs) (idle p a d) 0 ((idle p a (bus_burst B bs d))\<lparr>du_out := [], du_wait := 0\<rparr>)"
  proof (rule unit_command [OF _ part])
    show "length (c # l # bs) = cmd_length (c # l # bs)" using c(1) n by (simp add: cmd_length_def Let_def)
    show "unit_exec B (c # l # bs) (idle p a d) = (idle p a (bus_burst B bs d))\<lparr>du_out := [0]\<rparr>" using c(1) by (simp add: unit_exec_def idle_def)
  qed simp_all
  then show ?thesis by (simp add: idle_def c_def l_def)
qed

interpretation chip: debug_chip "debug_unit B" idle "bus_poke B" "bus_peek B" "bus_burst B" "bus_erase B" "bus_status B" "bus_config B" "bus_id B" for B
proof
  fix p q :: "16 word" and a v :: byte and d :: 'a and bs :: "byte list"
  have q: "push_bit 8 (ucast (ucast (drop_bit 8 q) :: byte)) OR ucast (ucast q :: byte) = q"
    by (rule bit_word_eqI) (auto simp: bit_simps)
  show "\<exists>r. answers (debug_unit B) [0x57, 0x90, ucast (drop_bit 8 q), ucast q] (idle p a d) r (idle q a d)"
    using unit_command [of "[0x57, 0x90, ucast (drop_bit 8 q), ucast q]" B p a d a "[]" "idle q a d"]
    by (intro exI [of _ a]) (simp add: cmd_length_def unit_exec_def unit_instr_def idle_def q)
  show "\<exists>r. answers (debug_unit B) [0x56, 0x74, v] (idle p a d) r (idle p v d)"
    using unit_command [of "[0x56, 0x74, v]" B p a d v "[]" "idle p v d"]
    by (intro exI [of _ v]) (simp add: cmd_length_def unit_exec_def unit_instr_def idle_def)
  show "\<exists>r. answers (debug_unit B) [0x55, 0xF0] (idle p a d) r (idle p a (bus_poke B p a d))"
    using unit_command [of "[0x55, 0xF0]" B p a d a "[]" "idle p a (bus_poke B p a d)"]
    by (intro exI [of _ a]) (simp add: cmd_length_def unit_exec_def unit_instr_def idle_def)
  show "\<exists>r. answers (debug_unit B) [0x55, 0xA3] (idle p a d) r (idle (p + 1) a d)"
    using unit_command [of "[0x55, 0xA3]" B p a d a "[]" "idle (p + 1) a d"]
    by (intro exI [of _ a]) (simp add: cmd_length_def unit_exec_def unit_instr_def idle_def)
  show "answers (debug_unit B) [0x55, 0xE0] (idle p a d) (fst (bus_peek B p d)) (idle p (fst (bus_peek B p d)) (snd (bus_peek B p d)))"
    using unit_command [of "[0x55, 0xE0]" B p a d "fst (bus_peek B p d)" "[]" "idle p (fst (bus_peek B p d)) (snd (bus_peek B p d))"]
    by (simp add: cmd_length_def unit_exec_def unit_instr_def idle_def split_def Let_def)
  show "\<exists>r. answers (debug_unit B) [0x10] (idle p a d) r (idle p a (bus_erase B d))"
    using unit_command [of "[0x10]" B p a d 0 "[]" "idle p a (bus_erase B d)"]
    by (intro exI [of _ 0]) (simp add: cmd_length_def unit_exec_def idle_def)
  show "answers (debug_unit B) [0x30] (idle p a d) (fst (bus_status B d)) (idle p a (snd (bus_status B d)))"
    using unit_command [of "[0x30]" B p a d "fst (bus_status B d)" "[]" "idle p a (snd (bus_status B d))"]
    by (simp add: cmd_length_def unit_exec_def idle_def split_def Let_def)
  show "\<exists>s1. answers (debug_unit B) [0x68] (idle p a d) (fst (bus_id B d)) s1 \<and> d_next (debug_unit B) s1 = idle p a d"
    using unit_command [of "[0x68]" B p a d "fst (bus_id B d)" "[snd (bus_id B d)]" "idle p a d"]
    by (intro exI [of _ "(idle p a d)\<lparr>du_out := [snd (bus_id B d)]\<rparr>"])
      (simp add: cmd_length_def unit_exec_def idle_def split_def Let_def debug_unit_simps)
  show "\<exists>r. answers (debug_unit B) [0x19, v] (idle p a d) r (idle p a (bus_config B v d))"
    using unit_command [of "[0x19, v]" B p a d 0 "[]" "idle p a (bus_config B v d)"]
    by (intro exI [of _ 0]) (simp add: cmd_length_def unit_exec_def idle_def)
  show "\<exists>r. answers (debug_unit B) ((0x80 OR of_nat (length bs div 256)) # of_nat (length bs mod 256) # bs) (idle p a d) r (idle p a (bus_burst B bs d))"
    if "0 < length bs" "length bs < 2048"
    by (rule exI) (rule unit_burst [OF that])
qed

section \<open>Memory accesses\<close>

primrec pokes :: "(16 word \<Rightarrow> byte \<Rightarrow> 'd \<Rightarrow> 'd) \<Rightarrow> 16 word \<Rightarrow> byte list \<Rightarrow> 'd \<Rightarrow> 'd" where
  "pokes poke a [] d = d"
| "pokes poke a (v # vs) d = pokes poke (a + 1) vs (poke a v d)"

primrec peeks :: "(16 word \<Rightarrow> 'd \<Rightarrow> byte \<times> 'd) \<Rightarrow> 16 word \<Rightarrow> nat \<Rightarrow> 'd \<Rightarrow> byte list \<times> 'd" where
  "peeks peek a 0 d = ([], d)"
| "peeks peek a (Suc n) d = (let (v, d) = peek a d; (vs, d) = peeks peek (a + 1) n d in (v # vs, d))"

partial_function (option) poll_fctl :: "(16 word \<Rightarrow> 'd \<Rightarrow> byte \<times> 'd) \<Rightarrow> 'd \<Rightarrow> 'd option" where
  "poll_fctl peek d = (let (v, d) = peek 0x6270 d in if v AND 0x80 \<noteq> 0 then poll_fctl peek d else Some d)"

partial_function (option) poll_erase :: "('d \<Rightarrow> byte \<times> 'd) \<Rightarrow> 'd \<Rightarrow> 'd option" where
  "poll_erase status d = (let (v, d) = status d in if v AND 0x80 \<noteq> 0 then poll_erase status d else Some d)"

text \<open>What programming a block does to the device: two DMA descriptors, their lengths, the registers that point to them, the flash
  address in words, the burst into the buffer, and the transfer from there to the flash memory.\<close>

definition program_block :: "(16 word \<Rightarrow> byte \<Rightarrow> 'd \<Rightarrow> 'd) \<Rightarrow> (16 word \<Rightarrow> 'd \<Rightarrow> byte \<times> 'd) \<Rightarrow> (byte list \<Rightarrow> 'd \<Rightarrow> 'd) \<Rightarrow>
    byte list \<Rightarrow> 16 word \<Rightarrow> 'd \<Rightarrow> 'd option" where
  "program_block poke peek burst data word_addr d =
     (let hi = of_nat (length data div 256); lo = of_nat (length data mod 256);
          d = pokes poke 0x200 [0x62, 0x60, 0, 0, 0, 0, 31, 0x11] d;
          d = pokes poke 0x208 [0, 0, 0x62, 0x73, 0, 0, 18, 0x42] d;
          d = pokes poke 0x204 [hi, lo] d;
          d = pokes poke 0x20C [hi, lo] d;
          d = poke 0x70D5 2 d;
          d = poke 0x70D4 0 d;
          d = poke 0x70D3 2 d;
          d = poke 0x70D2 8 d;
          d = poke 0x6272 (ucast (drop_bit 8 word_addr)) d;
          d = poke 0x6271 (ucast word_addr) d;
          d = poke 0x70D6 1 d;
          d = burst data d;
          d = poke 0x70D6 2 d;
          d = poke 0x6270 6 d
      in poll_fctl peek d)"

text \<open>The chip between two commands, with the device \<open>d\<close> on its bus.\<close>

definition serves :: "(16 word \<Rightarrow> byte \<Rightarrow> 'd \<Rightarrow> 's) \<Rightarrow> 'd \<Rightarrow> string list \<Rightarrow> 's wire \<Rightarrow> bool" where
  "serves mk d l w \<longleftrightarrow> (\<exists>p a. resting w (mk p a d) l)"

lemma servesI: "resting w (mk p a d) l \<Longrightarrow> serves mk d l w"
  by (auto simp: serves_def)

lemma command_effect:
  assumes "resting w s l" and "\<exists>r. answers M (c # bs) s r s'"
  shows "resting (snd (debug_command (two_wire M) u c bs w)) s' l"
proof -
  obtain r where "answers M (c # bs) s r s'" using assms(2) by blast
  from debug_command_wire [OF assms(1) this, of u] show ?thesis by auto
qed

lemma command_value:
  assumes "resting w s l" and "answers M (c # bs) s r s'"
  obtains w' where "debug_command (two_wire M) u c bs w = (r, w')" and "resting w' s' l"
  using debug_command_wire [OF assms] by blast

lemma address_bytes: "HIBYTE x = ucast (drop_bit 8 (ucast x :: 16 word))" "LOBYTE x = ucast (ucast x :: 16 word)"
proof -
  have "drop_bit 8 y AND 0xFF = drop_bit 8 y" for y :: "16 word"
  proof -
    have "(0xFF :: 16 word) = mask 8" by (simp add: mask_eq_exp_minus_1)
    then have "drop_bit 8 y AND 0xFF = drop_bit 8 y AND mask 8" by (simp only:)
    also have "\<dots> = drop_bit 8 y" by (rule bit_word_eqI) (auto simp: bit_simps dest: bit_imp_le_length)
    finally show ?thesis .
  qed
  then show "HIBYTE x = ucast (drop_bit 8 (ucast x :: 16 word))" by (simp only: HIBYTE_def)
  show "LOBYTE x = ucast (ucast x :: 16 word)" unfolding LOBYTE_def by (rule bit_word_eqI) (auto simp: bit_simps)
qed

lemma ucast_add_16: "ucast (x + y) = (ucast x + ucast y :: 16 word)" for x y :: uint
proof -
  have "take_bit 16 (take_bit 32 a + take_bit 32 b) = take_bit 16 (a + b)" for a b :: int
    using take_bit_add [of 16 "take_bit 32 a" "take_bit 32 b"] take_bit_add [of 16 a b] by simp
  then show ?thesis by transfer simp
qed

lemma instr_cmds: "CMD_DEBUG_INSTR_1B = 0x55" "CMD_DEBUG_INSTR_2B = 0x56" "CMD_DEBUG_INSTR_3B = 0x57"
  by (simp_all add: CMD_DEBUG_INSTR_1B_def CMD_DEBUG_INSTR_2B_def CMD_DEBUG_INSTR_3B_def)

lemmas flash_consts = ADDR_BUF0_def ADDR_DMA_DESC_0_def ADDR_DMA_DESC_1_def CH_DBG_TO_BUF0_def CH_BUF0_TO_FLASH_def DUP_DBGDATA_def
  DUP_FCTL_def DUP_FADDRL_def DUP_FADDRH_def DUP_FWDATA_def DUP_DMA1CFGL_def DUP_DMA1CFGH_def DUP_DMA0CFGL_def DUP_DMA0CFGH_def DUP_DMAARM_def

lemma length_bytes:
  assumes "n < 2048"
  shows "HIBYTE (of_nat n) = of_nat (n div 256)" "LOBYTE (of_nat n) = of_nat (n mod 256)"
proof -
  have n: "unat (ucast (of_nat n :: uint) :: 16 word) = n" using assms by (simp add: unsigned_ucast_eq unat_of_nat take_bit_nat_eq_self)
  have "n div 256 < 256" using assms by linarith
  then show "HIBYTE (of_nat n) = of_nat (n div 256)" unfolding address_bytes(1) word_unat_eq_iff unat_bytes(1) n by (simp add: unat_of_nat)
  show "LOBYTE (of_nat n) = of_nat (n mod 256)" unfolding address_bytes(2) word_unat_eq_iff unat_bytes(2) n by (simp add: unat_of_nat)
qed

lemma descriptor_bytes:
  "HIBYTE ADDR_DMA_DESC_0 = 2" "LOBYTE ADDR_DMA_DESC_0 = 0" "HIBYTE ADDR_DMA_DESC_1 = 2" "LOBYTE ADDR_DMA_DESC_1 = 8"
  "dma_desc_0 = [0x62, 0x60, 0, 0, 0, 0, 31, 0x11]" "dma_desc_1 = [0, 0, 0x62, 0x73, 0, 0, 18, 0x42]"
  by (simp_all add: flash_consts dma_desc_0_def dma_desc_1_def HIBYTE_def LOBYTE_def)

context debug_chip
begin

lemma xdata_bytes_ok:
  "resting w (mk p a d) l \<Longrightarrow> \<exists>p' a'. resting (xdata_bytes (two_wire M) u vs w) (mk p' a' (pokes poke p vs d)) l"
proof (induction vs arbitrary: w p a d)
  case (Cons v vs)
  let ?c = "\<lambda>c bs w. snd (debug_command (two_wire M) u c bs w)"
  have "resting (?c 0x56 [0x74, v] w) (mk p v d) l" using Cons.prems mov_a by (rule command_effect)
  then have "resting (?c 0x55 [0xF0] (?c 0x56 [0x74, v] w)) (mk p v (poke p v d)) l" using movx_store by (rule command_effect)
  then have "resting (?c 0x55 [0xA3] (?c 0x55 [0xF0] (?c 0x56 [0x74, v] w))) (mk (p + 1) v (poke p v d)) l"
    using inc_dptr by (rule command_effect)
  from Cons.IH [OF this] show ?case by (simp add: instr_cmds split_def)
qed auto

lemma write_xdata_memory_block_ok:
  assumes "serves mk d l w"
  shows "serves mk (pokes poke (ucast address) (take n vs) d) l (write_xdata_memory_block (two_wire M) u address vs n w)"
proof -
  obtain p a where "resting w (mk p a d) l" using assms by (auto simp: serves_def)
  then have "resting (snd (debug_command (two_wire M) u 0x57 [0x90, HIBYTE address, LOBYTE address] w)) (mk (ucast address) a d) l"
    unfolding address_bytes using mov_dptr by (rule command_effect)
  from xdata_bytes_ok [OF this] show ?thesis by (auto simp: write_xdata_memory_block_def instr_cmds split_def serves_def)
qed

lemma write_xdata_memory_ok:
  assumes "serves mk d l w"
  shows "serves mk (poke (ucast address) v d) l (write_xdata_memory (two_wire M) u address v w)"
proof -
  obtain p a where "resting w (mk p a d) l" using assms by (auto simp: serves_def)
  then have "resting (snd (debug_command (two_wire M) u 0x57 [0x90, HIBYTE address, LOBYTE address] w)) (mk (ucast address) a d) l" (is "resting ?w1 _ _")
    unfolding address_bytes using mov_dptr by (rule command_effect)
  then have "resting (snd (debug_command (two_wire M) u 0x56 [0x74, v] ?w1)) (mk (ucast address) v d) l" (is "resting ?w2 _ _")
    using mov_a by (rule command_effect)
  then have "resting (snd (debug_command (two_wire M) u 0x55 [0xF0] ?w2)) (mk (ucast address) v (poke (ucast address) v d)) l"
    using movx_store by (rule command_effect)
  then show ?thesis by (auto simp: write_xdata_memory_def instr_cmds split_def serves_def)
qed

lemma read_xdata_memory_ok:
  assumes "serves mk d l w"
  shows "\<exists>w'. read_xdata_memory (two_wire M) u address w = (fst (peek (ucast address) d), w') \<and> serves mk (snd (peek (ucast address) d)) l w'"
proof -
  obtain p a where "resting w (mk p a d) l" using assms by (auto simp: serves_def)
  then have "resting (snd (debug_command (two_wire M) u 0x57 [0x90, HIBYTE address, LOBYTE address] w)) (mk (ucast address) a d) l" (is "resting ?w1 _ _")
    unfolding address_bytes using mov_dptr by (rule command_effect)
  then obtain w' where "debug_command (two_wire M) u 0x55 [0xE0] ?w1 = (fst (peek (ucast address) d), w')"
    "resting w' (mk (ucast address) (fst (peek (ucast address) d)) (snd (peek (ucast address) d))) l"
    using movx_load by (rule command_value)
  then show ?thesis by (auto simp: read_xdata_memory_def instr_cmds split_def serves_def)
qed

lemma flash_bytes_ok:
  "resting w (mk p a d) l \<Longrightarrow> \<exists>w'. flash_bytes (two_wire M) u n w = (fst (peeks peek p n d), w') \<and> serves mk (snd (peeks peek p n d)) l w'"
proof (induction n arbitrary: w p a d)
  case (Suc n)
  let ?v = "fst (peek p d)" and ?d = "snd (peek p d)"
  obtain w1 where w1: "debug_command (two_wire M) u 0x55 [0xE0] w = (?v, w1)" "resting w1 (mk p ?v ?d) l"
    using Suc.prems movx_load by (rule command_value)
  have "resting (snd (debug_command (two_wire M) u 0x55 [0xA3] w1)) (mk (p + 1) ?v ?d) l" using w1(2) inc_dptr by (rule command_effect)
  from Suc.IH [OF this] show ?case using w1(1) by (auto simp: instr_cmds split_def Let_def)
qed (auto simp: serves_def)

lemma read_flash_memory_block_ok:
  assumes "serves mk d l w"
  shows "\<exists>w'. read_flash_memory_block (two_wire M) u bank addr n w = (fst (peeks peek (0x8000 + ucast addr) n (poke 0x70C7 bank d)), w')
    \<and> serves mk (snd (peeks peek (0x8000 + ucast addr) n (poke 0x70C7 bank d))) l w'"
proof -
  have "serves mk (poke (ucast DUP_MEMCTR) bank d) l (write_xdata_memory (two_wire M) u DUP_MEMCTR bank w)" (is "serves _ _ _ ?w1")
    using assms by (rule write_xdata_memory_ok)
  moreover have "ucast DUP_MEMCTR = (0x70C7 :: 16 word)" by (simp add: DUP_MEMCTR_def)
  ultimately obtain p a where "resting ?w1 (mk p a (poke 0x70C7 bank d)) l" by (auto simp: serves_def)
  then have "resting (snd (debug_command (two_wire M) u 0x57 [0x90, HIBYTE (0x8000 + addr), LOBYTE (0x8000 + addr)] ?w1))
      (mk (ucast (0x8000 + addr)) a (poke 0x70C7 bank d)) l"
    unfolding address_bytes using mov_dptr by (rule command_effect)
  moreover have "ucast (0x8000 + addr) = (0x8000 + ucast addr :: 16 word)" by (simp add: ucast_add_16)
  ultimately show ?thesis using flash_bytes_ok [where n = n and u = u] by (simp add: read_flash_memory_block_def instr_cmds split_def Let_def)
qed

lemma burst_write_block_ok:
  assumes "serves mk d l w" and "0 < length src" and "length src < 2048"
  shows "serves mk (burst src d) l (burst_write_block (two_wire M) u src (of_nat (length src)) w)"
proof -
  obtain p a where r: "resting w (mk p a d) l" using assms(1) by (auto simp: serves_def)
  let ?n = "of_nat (length src) :: uint"
  have n: "unat ?n = length src" using assms(3) by (simp add: unat_of_nat)
  have h: "HIBYTE ?n = of_nat (length src div 256)" "LOBYTE ?n = of_nat (length src mod 256)" using assms(3) by (rule length_bytes)+
  obtain r' where a: "answers M ((CMD_BURST_WRITE OR HIBYTE ?n) # LOBYTE ?n # src) (mk p a d) r' (mk p a (burst src d))"
    using burst_write [OF assms(2,3), of p a d] unfolding h CMD_BURST_WRITE_def by blast
  obtain w1 w2 where "wait_dup_ready (two_wire M) u (fold (write_debug_byte (two_wire M)) ((CMD_BURST_WRITE OR HIBYTE ?n) # LOBYTE ?n # src) w) = (1, w1)"
    "read_debug_byte (two_wire M) u w1 = (r', w2)" "resting w2 (mk p a (burst src d)) l"
    using transaction_wire [OF r a, of u] by blast
  then have "burst_write_block (two_wire M) u src ?n w = w2" using n by (simp add: burst_write_block_def)
  then show ?thesis using \<open>resting w2 _ _\<close> by (auto simp: serves_def)
qed

lemma flash_wait_ok:
  assumes "poll_fctl peek d = Some d'" and "serves mk d l w"
  shows "\<exists>w'. flash_wait (two_wire M) u w = Some w' \<and> serves mk d' l w'"
proof -
  let ?P = "\<lambda>pk d d'. pk = peek \<longrightarrow> (\<forall>w. serves mk d l w \<longrightarrow> (\<exists>w'. flash_wait (two_wire M) u w = Some w' \<and> serves mk d' l w'))"
  have "?P peek d d'"
  proof (rule poll_fctl.raw_induct [where P = ?P, OF _ assms(1)], intro impI allI)
    fix poll pk d d' w
    assume IH: "\<And>pk d d'. poll pk d = Some d' \<Longrightarrow> ?P pk d d'" and pk: "pk = peek" and s: "serves mk d l w"
      and step: "(let (v, d) = pk 0x6270 d in if v AND 0x80 \<noteq> 0 then poll pk d else Some d) = Some d'"
    obtain v d1 where v: "peek 0x6270 d = (v, d1)" by (cases "peek 0x6270 d")
    have "ucast DUP_FCTL = (0x6270 :: 16 word)" by (simp add: DUP_FCTL_def)
    then obtain w1 where w1: "read_xdata_memory (two_wire M) u DUP_FCTL w = (v, w1)" "serves mk d1 l w1"
      using read_xdata_memory_ok [OF s, of u DUP_FCTL] v by auto
    show "\<exists>w'. flash_wait (two_wire M) u w = Some w' \<and> serves mk d' l w'"
    proof (cases "v AND 0x80 = 0")
      case True
      then have "d' = d1" using step pk v by simp
      then show ?thesis using True w1 by (subst flash_wait.simps) simp
    next
      case False
      then have "poll pk d1 = Some d'" using step pk v by simp
      then show ?thesis using IH pk w1 False by (subst flash_wait.simps) simp
    qed
  qed
  then show ?thesis using assms(2) by blast
qed

lemma write_flash_memory_block_ok:
  assumes "serves mk d l w" and "0 < length src" and "length src < 2048"
    and "program_block poke peek burst src (ucast (drop_bit 2 start)) d = Some d'"
  shows "\<exists>w'. write_flash_memory_block (two_wire M) u src start (of_nat (length src)) w = Some w' \<and> serves mk d' l w'"
proof -
  let ?n = "of_nat (length src) :: uint" and ?q = "ucast (drop_bit 2 start) :: 16 word"
  have h: "HIBYTE ?n = of_nat (length src div 256)" "LOBYTE ?n = of_nat (length src mod 256)" using assms(3) by (rule length_bytes)+
  note step = write_xdata_memory_ok [where u = u] and block = write_xdata_memory_block_ok [where u = u]
  have "\<exists>w'. flash_wait (two_wire M) u (write_xdata_memory (two_wire M) u DUP_FCTL 0x06
      (write_xdata_memory (two_wire M) u DUP_DMAARM CH_BUF0_TO_FLASH (burst_write_block (two_wire M) u src ?n
      (write_xdata_memory (two_wire M) u DUP_DMAARM CH_DBG_TO_BUF0
      (write_xdata_memory (two_wire M) u DUP_FADDRL (LOBYTE (drop_bit 2 start)) (write_xdata_memory (two_wire M) u DUP_FADDRH (HIBYTE (drop_bit 2 start))
      (write_xdata_memory (two_wire M) u DUP_DMA1CFGL (LOBYTE ADDR_DMA_DESC_1) (write_xdata_memory (two_wire M) u DUP_DMA1CFGH (HIBYTE ADDR_DMA_DESC_1)
      (write_xdata_memory (two_wire M) u DUP_DMA0CFGL (LOBYTE ADDR_DMA_DESC_0) (write_xdata_memory (two_wire M) u DUP_DMA0CFGH (HIBYTE ADDR_DMA_DESC_0)
      (write_xdata_memory_block (two_wire M) u (ADDR_DMA_DESC_1 + 4) [HIBYTE ?n, LOBYTE ?n] 2
      (write_xdata_memory_block (two_wire M) u (ADDR_DMA_DESC_0 + 4) [HIBYTE ?n, LOBYTE ?n] 2
      (write_xdata_memory_block (two_wire M) u ADDR_DMA_DESC_1 dma_desc_1 8 (write_xdata_memory_block (two_wire M) u ADDR_DMA_DESC_0 dma_desc_0 8 w))))))))))))))
      = Some w' \<and> serves mk d' l w'"
  proof (rule flash_wait_ok)
    show "poll_fctl peek (poke (ucast DUP_FCTL) 0x06 (poke (ucast DUP_DMAARM) CH_BUF0_TO_FLASH (burst src (poke (ucast DUP_DMAARM) CH_DBG_TO_BUF0
      (poke (ucast DUP_FADDRL) (LOBYTE (drop_bit 2 start)) (poke (ucast DUP_FADDRH) (HIBYTE (drop_bit 2 start))
      (poke (ucast DUP_DMA1CFGL) (LOBYTE ADDR_DMA_DESC_1) (poke (ucast DUP_DMA1CFGH) (HIBYTE ADDR_DMA_DESC_1)
      (poke (ucast DUP_DMA0CFGL) (LOBYTE ADDR_DMA_DESC_0) (poke (ucast DUP_DMA0CFGH) (HIBYTE ADDR_DMA_DESC_0)
      (pokes poke (ucast (ADDR_DMA_DESC_1 + 4)) (take 2 [HIBYTE ?n, LOBYTE ?n]) (pokes poke (ucast (ADDR_DMA_DESC_0 + 4)) (take 2 [HIBYTE ?n, LOBYTE ?n])
      (pokes poke (ucast ADDR_DMA_DESC_1) (take 8 dma_desc_1) (pokes poke (ucast ADDR_DMA_DESC_0) (take 8 dma_desc_0) d)))))))))))))) = Some d'"
      using assms(4) unfolding program_block_def Let_def h address_bytes(1) [of "drop_bit 2 start"] address_bytes(2) [of "drop_bit 2 start"]
        descriptor_bytes by (simp add: flash_consts del: pokes.simps)
  qed (intro step block burst_write_block_ok assms)
  then show ?thesis by (simp add: write_flash_memory_block_def Let_def)
qed

lemma read_status_ok:
  assumes "serves mk d l w"
  shows "\<exists>w'. read_status (two_wire M) u w = (fst (status d), w') \<and> serves mk (snd (status d)) l w'"
proof -
  obtain p a where r: "resting w (mk p a d) l" using assms by (auto simp: serves_def)
  obtain w1 w2 where "wait_dup_ready (two_wire M) u (write_debug_byte (two_wire M) 0x30 w) = (1, w1)"
    "read_debug_byte (two_wire M) u w1 = (fst (status d), w2)" "resting w2 (mk p a (snd (status d))) l"
    using transaction_wire [OF r read_status_cmd, of u] by auto
  then show ?thesis by (auto simp: read_status_def CMD_READ_STATUS_def serves_def)
qed

lemma read_chip_id_ok:
  assumes "serves mk d l w"
  shows "\<exists>w'. read_chip_id (two_wire M) u w = (fst (ident d), w') \<and> serves mk d l w'"
proof -
  obtain p a where r: "resting w (mk p a d) l" using assms by (auto simp: serves_def)
  obtain s1 where s1: "answers M [0x68] (mk p a d) (fst (ident d)) s1" "d_next M s1 = mk p a d" using chip_id_cmd by blast
  obtain w1 w2 where w: "wait_dup_ready (two_wire M) u (write_debug_byte (two_wire M) 0x68 w) = (1, w1)"
    "read_debug_byte (two_wire M) u w1 = (fst (ident d), w2)" "resting w2 s1 l"
    using transaction_wire [OF r s1(1), of u] by auto
  have "resting (snd (read_debug_byte (two_wire M) u w2)) (mk p a d) l"
    using read_debug_byte_wire [of w2 M u] w(3) s1(2) by (simp add: resting_def)
  then show ?thesis using w by (auto simp: read_chip_id_def CMD_GET_CHIP_ID_def serves_def split_def)
qed

lemma erase_loop_ok:
  assumes "poll_erase status d = Some d'" and "serves mk d l w"
  shows "\<exists>w'. erase_loop (two_wire M) u w = Some w' \<and> serves mk d' l w'"
proof -
  let ?P = "\<lambda>st d d'. st = status \<longrightarrow> (\<forall>w. serves mk d l w \<longrightarrow> (\<exists>w'. erase_loop (two_wire M) u w = Some w' \<and> serves mk d' l w'))"
  have "?P status d d'"
  proof (rule poll_erase.raw_induct [where P = ?P, OF _ assms(1)], intro impI allI)
    fix poll st d d' w
    assume IH: "\<And>st d d'. poll st d = Some d' \<Longrightarrow> ?P st d d'" and st: "st = status" and s: "serves mk d l w"
      and step: "(let (v, d) = st d in if v AND 0x80 \<noteq> 0 then poll st d else Some d) = Some d'"
    obtain v d1 where v: "status d = (v, d1)" by (cases "status d")
    obtain p a where r: "resting w (mk p a d) l" using s by (auto simp: serves_def)
    have "answers M [0x30] (mk p a d) v (mk p a d1)" using read_status_cmd [of p a d] v by simp
    then obtain w1 where w1: "debug_command (two_wire M) u 0x30 [] w = (v, w1)" "resting w1 (mk p a d1) l"
      by (rule command_value [OF r])
    then have s1: "serves mk d1 l w1" by (intro servesI)
    show "\<exists>w'. erase_loop (two_wire M) u w = Some w' \<and> serves mk d' l w'"
    proof (cases "v AND 0x80 = 0")
      case True
      then have "d' = d1" using step st v by simp
      then show ?thesis using True w1 s1 by (subst erase_loop.simps) (simp add: CMD_READ_STATUS_def STATUS_CHIP_ERASE_BUSY_BM_def)
    next
      case False
      then have "poll st d1 = Some d'" using step st v by simp
      then show ?thesis using IH st w1 s1 False by (subst erase_loop.simps) (simp add: CMD_READ_STATUS_def STATUS_CHIP_ERASE_BUSY_BM_def)
    qed
  qed
  then show ?thesis using assms(2) by blast
qed

lemma chip_erase_ok:
  assumes "poll_erase status (erase d) = Some d'" and "serves mk d l w"
  shows "\<exists>w'. chip_erase (two_wire M) u w = Some w' \<and> serves mk d' l w'"
proof -
  obtain p a where "resting w (mk p a d) l" using assms(2) by (auto simp: serves_def)
  then have "resting (snd (debug_command (two_wire M) u 0x10 [] w)) (mk p a (erase d)) l" using chip_erase_cmd by (rule command_effect)
  then show ?thesis unfolding chip_erase_def CMD_CHIP_ERASE_def by (intro erase_loop_ok [OF assms(1)] servesI)
qed

lemma wr_config_ok:
  assumes "serves mk d l w"
  shows "serves mk (config v d) l (snd (debug_command (two_wire M) u CMD_WR_CONFIG [v] w))"
proof -
  obtain p a where "resting w (mk p a d) l" using assms by (auto simp: serves_def)
  then have "resting (snd (debug_command (two_wire M) u 0x19 [v] w)) (mk p a (config v d)) l" using wr_config by (rule command_effect)
  then show ?thesis unfolding CMD_WR_CONFIG_def by (rule servesI)
qed

end

end
