(* ===== verification/CC2541.thy ===== *)
theory CC2541
  imports Dup_Flash
begin

text \<open>
  The programmer itself (\<open>tools/RPI/CC2541-programmer/main.c\<close>): its commands, the configuration file and the selection of a command,
  on top of \<open>Dup_Wire\<close> and \<open>Dup_Flash\<close>; and the chip behind the debug unit, as far as the programmer uses it.

  Files are a \<open>disk\<close>: what they hold, which ones can be opened, where reading fails, how many bytes can still be written.  The end of the
  line 181, text behind the statement \<open>puts\<close>, is left out: with it the file does not compile.  The result None stands for a wait
  that does not end, or for a use of a null pointer.
\<close>

section \<open>Definitions\<close>

subsection \<open>Files\<close>

record disk =
  d_file :: "string \<Rightarrow> byte list option"
  d_open :: "string \<Rightarrow> bool"
  d_bad :: "string \<Rightarrow> nat option"
  d_room :: nat

record stream =
  st_rest :: "byte list"
  st_bad :: bool
  st_eof :: bool
  st_err :: bool

definition fopen_read :: "string \<Rightarrow> disk \<Rightarrow> stream option" where
  "fopen_read name k =
     (if \<not> d_open k name then None
      else case d_file k name of None \<Rightarrow> None
        | Some data \<Rightarrow> Some (case d_bad k name of
            None \<Rightarrow> \<lparr>st_rest = data, st_bad = False, st_eof = False, st_err = False\<rparr>
          | Some n \<Rightarrow> \<lparr>st_rest = take n data, st_bad = True, st_eof = False, st_err = False\<rparr>))"

definition host_fread :: "nat \<Rightarrow> byte list \<Rightarrow> stream \<Rightarrow> nat \<times> byte list \<times> stream" where
  "host_fread n buff st =
     (let got = take n (st_rest st); st = st\<lparr>st_rest := drop n (st_rest st)\<rparr> in
      (length got, got @ drop (length got) buff,
       if length got = n then st else if st_bad st then st\<lparr>st_err := True\<rparr> else st\<lparr>st_eof := True\<rparr>))"

definition fopen_append :: "string \<Rightarrow> disk \<Rightarrow> disk option" where
  "fopen_append name k =
     (if \<not> d_open k name then None
      else Some (k\<lparr>d_file := (d_file k)(name \<mapsto> (case d_file k name of None \<Rightarrow> [] | Some data \<Rightarrow> data))\<rparr>))"

definition host_fwrite :: "byte list \<Rightarrow> string \<Rightarrow> disk \<Rightarrow> nat \<times> disk" where
  "host_fwrite buff name k =
     (let n = min (length buff) (d_room k) in
      (n, k\<lparr>d_room := d_room k - n, d_file := (d_file k)(name \<mapsto> the (d_file k name) @ take n buff)\<rparr>))"

subsection \<open>Commands\<close>

type_synonym pins = "int \<times> int \<times> int"

definition TAB :: string where "TAB = [CHR 0x09]"
definition NL :: string where "NL = [CHR 0x0A]"

definition help_lines :: "string list" where
  "help_lines =
     [''Available Options:'',
      ''--read-id:'' @ TAB @ TAB @ TAB @ ''Read chip ID.'',
      ''--check-debug-lock:'' @ TAB @ TAB @ ''Check if the debug lock bit is set.'',
      ''--set-debug-lock:'' @ TAB @ TAB @ ''Set the debug lock bit.'',
      ''--erase-chip:'' @ TAB @ TAB @ TAB @ ''Erase whole flash memory.'',
      ''--dump-flash <output file>:'' @ TAB @ ''Dump whole flash content.'',
      ''--flash-firmware <input file>:'' @ TAB @ ''Write firmware file to chip. '',
      ''--help:'' @ TAB @ TAB @ TAB @ TAB @ ''Display this help.'']"

definition show_help :: "'c env \<Rightarrow> 'c \<Rightarrow> 'c" where
  "show_help e c = fold (puts_line e) help_lines c"

definition init :: "'c env \<Rightarrow> pins \<Rightarrow> int \<Rightarrow> 'c \<Rightarrow> int \<times> 'c" where
  "init e pins v c =
     (let (dd, dc, reset_n) = pins; (r, c) = programmer_init e dd dc reset_n v c in
      if r = -1 then (-1, puts_line e ''programmer initialization error!'' c)
      else (0, debug_init e c))"

definition erase :: "'c env \<Rightarrow> byte \<Rightarrow> pins \<Rightarrow> int \<Rightarrow> 'c \<Rightarrow> 'c option" where
  "erase e u pins v c =
     (let (r, c) = init e pins v c in
      if r = -1 then Some c
      else
        let (chip_id, c) = read_chip_id e u c in
        if chip_id = 0 then Some (programmer_close e (puts_line e ''No chip detected'' c))
        else
          let c = puts_line e ''Requesting chip erase...'' c in
          case chip_erase e u c of None \<Rightarrow> None | Some c \<Rightarrow> Some (programmer_close e c))"

primrec dump_loop :: "'c env \<Rightarrow> byte \<Rightarrow> nat \<Rightarrow> int \<Rightarrow> int \<Rightarrow> string \<Rightarrow> disk \<Rightarrow> 'c \<Rightarrow> disk \<times> 'c" where
  "dump_loop e u 0 bank addr name k c = (k, c)"
| "dump_loop e u (Suc n) bank addr name k c =
     (let (buff, c) = read_flash_memory_block e u (of_int bank) (of_int addr) 512 c;
          (written, k) = host_fwrite buff name k
      in if written \<noteq> 512 then (k, puts_line e ''error writing'' c)
         else
           let addr = addr + 512 in
           if addr \<ge> 0x8000 then dump_loop e u n (bank + 1) 0 name k c
           else dump_loop e u n bank addr name k c)"

definition dump_flash :: "'c env \<Rightarrow> byte \<Rightarrow> pins \<Rightarrow> int \<Rightarrow> string \<Rightarrow> disk \<Rightarrow> 'c \<Rightarrow> disk \<times> 'c" where
  "dump_flash e u pins v filename k c =
     (let (r, c) = init e pins v c in
      if r = -1 then (k, c)
      else
        let (chip_id, c) = read_chip_id e u c in
        if chip_id = 0 then (k, programmer_close e (puts_line e ''No chip detected'' c))
        else
          let (status, c) = read_status e u c in
          if status = 0 then (k, programmer_close e (puts_line e ''No status received'' c))
          else if status AND STATUS_DEBUG_LOCKED_BM \<noteq> 0
          then (k, programmer_close e (puts_line e ''Flash dump not possible. Debug lock set.'' c))
          else
            case fopen_append filename k of
              None \<Rightarrow> (k, programmer_close e (perror_line e ''File opening error'' c))
            | Some k \<Rightarrow>
                let c = puts_line e ''Downloading flash...'' c;
                    (k, c) = dump_loop e u 512 0 0 filename k c
                in (k, programmer_close e c))"

primrec flash_loop :: "'c env \<Rightarrow> byte \<Rightarrow> nat \<Rightarrow> stream \<Rightarrow> byte list \<Rightarrow> int \<Rightarrow> 'c \<Rightarrow> 'c option" where
  "flash_loop e u 0 st buff addr c = Some c"
| "flash_loop e u (Suc n) st buff addr c =
     (if st_eof st then Some (puts_line e ''Programming done ...'' c)
      else
        let (rv, buff, st) = host_fread 512 buff st in
        if (rv = 0 \<and> st_err st) \<or> (rv \<noteq> 0 \<and> rv \<noteq> 512 \<and> \<not> st_eof st) then Some (puts_line e ''error reading or EOF'' c)
        else case write_flash_memory_block e u buff (of_int addr) 512 c of
          None \<Rightarrow> None
        | Some c \<Rightarrow> flash_loop e u n st buff (addr + 512) c)"

definition flash_firmware :: "'c env \<Rightarrow> byte \<Rightarrow> pins \<Rightarrow> int \<Rightarrow> string \<Rightarrow> disk \<Rightarrow> 'c \<Rightarrow> 'c option" where
  "flash_firmware e u pins v filename k c =
     (let (r, c) = init e pins v c in
      if r = -1 then Some c
      else
        let (chip_id, c) = read_chip_id e u c in
        if chip_id = 0 then Some (programmer_close e (puts_line e ''No chip detected'' c))
        else case fopen_read filename k of
          None \<Rightarrow> Some (perror_line e ''File opening error'' c)
        | Some st \<Rightarrow>
            (case chip_erase e u c of None \<Rightarrow> None
             | Some c \<Rightarrow>
                 let c = puts_line e ''Flashing in progress...'' c;
                     (_, c) = debug_command e u CMD_WR_CONFIG [0x22] c
                 in case flash_loop e u 512 st (replicate 512 0) 0 c of None \<Rightarrow> None
                    | Some c \<Rightarrow> Some (programmer_close e c)))"

definition check_debug_lock :: "'c env \<Rightarrow> byte \<Rightarrow> pins \<Rightarrow> int \<Rightarrow> 'c \<Rightarrow> 'c" where
  "check_debug_lock e u pins v c =
     (let (r, c) = init e pins v c in
      if r = -1 then c
      else
        let (chip_id, c) = read_chip_id e u c in
        if chip_id = 0 then programmer_close e (puts_line e ''No chip detected'' c)
        else
          let c = puts_line e ''Reading status...'' c;
              (status, c) = read_status e u c in
          if status = 0 then programmer_close e (puts_line e ''No status received'' c)
          else programmer_close e (puts_line e
            (if status AND STATUS_DEBUG_LOCKED_BM \<noteq> 0 then ''DEBUG LOCK SET'' else ''DEBUG LOCK NOT SET'') c))"

definition set_debug_lock :: "'c env \<Rightarrow> byte \<Rightarrow> pins \<Rightarrow> int \<Rightarrow> 'c \<Rightarrow> 'c option" where
  "set_debug_lock e u pins v c =
     (let (r, c) = init e pins v c in
      if r = -1 then Some c
      else
        let (chip_id, c) = read_chip_id e u c in
        if chip_id = 0 then Some (programmer_close e (puts_line e ''No chip detected'' c))
        else
          let (_, c) = debug_command e u CMD_WR_CONFIG [0x22] c;
              c = puts_line e ''Setting debug lock bit...'' c
          in case write_flash_memory_block e u [0xFF, 0xFF, 0xFF, 0x7F] 0x3FFFC 4 c of
               None \<Rightarrow> None | Some c \<Rightarrow> Some (programmer_close e c))"

text \<open>The text that \<open>%x\<close> and \<open>%d\<close> print.\<close>

definition hexit :: "nat \<Rightarrow> char" where
  "hexit n = ''0123456789abcdef'' ! n"

fun number_text :: "nat \<Rightarrow> nat \<Rightarrow> string" where
  "number_text b n = (if b < 2 \<or> n < b then [hexit n] else number_text b (n div b) @ [hexit (n mod b)])"

declare number_text.simps [simp del]

definition show_int :: "int \<Rightarrow> string" where
  "show_int i = (if i < 0 then ''-'' @ number_text 10 (nat (- i)) else number_text 10 (nat i))"

definition readid :: "'c env \<Rightarrow> byte \<Rightarrow> pins \<Rightarrow> int \<Rightarrow> 'c \<Rightarrow> 'c" where
  "readid e u pins v c =
     (let (r, c) = init e pins v c in
      if r = -1 then c
      else
        let c = puts_line e ''Reading chip id...'' c;
            (chip_id, c) = read_chip_id e u c in
        if chip_id = 0 then programmer_close e (puts_line e ''No chip detected'' c)
        else programmer_close e (puts_line e (''Chip ID: '' @ number_text 16 (unat chip_id)) c))"

subsection \<open>Configuration file and command line\<close>

text \<open>The functions of the C library that read the configuration, on texts: \<open>fgets\<close> (None is the null pointer; \<open>bad\<close> says that an error
  and not the end of the file lies behind the text), \<open>strtok\<close> with the rest of the string that it keeps, and \<open>atoi\<close>.\<close>

definition fgets_line :: "nat \<Rightarrow> bool \<Rightarrow> string \<Rightarrow> (string \<times> string) option" where
  "fgets_line n bad s =
     (let l = take (n - 1) s; r = take (length (takeWhile (\<lambda>x. x \<noteq> CHR 0x0A) l) + 1) l in
      if s = [] \<or> (bad \<and> length s < n - 1 \<and> CHR 0x0A \<notin> set s) then None else Some (takeWhile (\<lambda>x. x \<noteq> CHR 0x00) r, drop (length r) s))"

definition strtok_colon :: "string \<Rightarrow> (string \<times> string) option" where
  "strtok_colon s =
     (let t = dropWhile (\<lambda>x. x = CHR '':'') s in
      if t = [] then None else Some (takeWhile (\<lambda>x. x \<noteq> CHR '':'') t, drop 1 (dropWhile (\<lambda>x. x \<noteq> CHR '':'') t)))"

definition is_decimal :: "char \<Rightarrow> bool" where
  "is_decimal x \<longleftrightarrow> 48 \<le> (of_char x :: nat) \<and> (of_char x :: nat) \<le> 57"

definition atoi_text :: "string \<Rightarrow> int" where
  "atoi_text s =
     (let t = dropWhile (\<lambda>x. x = CHR '' '' \<or> 9 \<le> (of_char x :: nat) \<and> (of_char x :: nat) \<le> 13) s;
          neg = (t \<noteq> [] \<and> hd t = CHR ''-'');
          ds = takeWhile is_decimal (if t \<noteq> [] \<and> (hd t = CHR ''-'' \<or> hd t = CHR ''+'') then tl t else t);
          n = foldl (\<lambda>a x. 10 * a + (of_char x - 48)) 0 ds
      in if neg then - n else n)"

text \<open>One line: None where the second call of \<open>strtok\<close> gives the null pointer, which goes to \<open>atoi\<close>.\<close>

definition config_line :: "'c env \<Rightarrow> string \<Rightarrow> pins \<Rightarrow> 'c \<Rightarrow> (bool \<times> pins \<times> 'c) option" where
  "config_line e line pins c =
     (case strtok_colon line of None \<Rightarrow> None
      | Some (str, rest) \<Rightarrow>
          let (dd, dc, reset_n) = pins in
          if str = ''DD'' then
            (case strtok_colon rest of None \<Rightarrow> None | Some (t, _) \<Rightarrow>
               Some (True, (atoi_text t, dc, reset_n), puts_line e (TAB @ ''Data line number ('' @ str @ '') : '' @ show_int (atoi_text t)) c))
          else if str = ''DC'' then
            (case strtok_colon rest of None \<Rightarrow> None | Some (t, _) \<Rightarrow>
               Some (True, (dd, atoi_text t, reset_n), puts_line e (TAB @ ''Clock line number ('' @ str @ '') : '' @ show_int (atoi_text t)) c))
          else if str = ''RESET_N'' then
            (case strtok_colon rest of None \<Rightarrow> None | Some (t, _) \<Rightarrow>
               Some (True, (dd, dc, atoi_text t), puts_line e (TAB @ ''Reset line number ('' @ str @ '') : '' @ show_int (atoi_text t)) c))
          else Some (False, pins, puts_line e ''Error in config file'' c))"

text \<open>The array \<open>pin\<close> is uninitialised where \<open>fgets\<close> fails: it holds the texts \<open>junk\<close>.\<close>

primrec config_loop :: "'c env \<Rightarrow> string list \<Rightarrow> nat \<Rightarrow> bool \<Rightarrow> string \<Rightarrow> pins \<Rightarrow> 'c \<Rightarrow> (bool \<times> pins \<times> 'c) option" where
  "config_loop e junk 0 bad s pins c = Some (True, pins, c)"
| "config_loop e junk (Suc n) bad s pins c =
     (let (line, s) = (case fgets_line 11 bad s of None \<Rightarrow> (junk ! n, []) | Some r \<Rightarrow> r) in
      case config_line e line pins c of None \<Rightarrow> None
      | Some (ok, pins, c) \<Rightarrow> if ok then config_loop e junk n bad s pins c else Some (False, pins, c))"

definition banner :: "string list" where
  "banner =
     [NL @ TAB @ TAB @ replicate 29 CHR ''#'', TAB @ TAB @ replicate 29 CHR ''#'', TAB @ TAB @ ''###   CC2541 programmer   ###'',
      TAB @ TAB @ replicate 29 CHR ''#'', TAB @ TAB @ replicate 29 CHR ''#'']"

text \<open>The command that \<open>main\<close> selects; \<open>key\<close> is the character that is read as a confirmation, \<open>u\<close> and \<open>v\<close> are the undefined values of
  \<open>Dup_Wire\<close>.\<close>

definition run_option :: "'c env \<Rightarrow> byte \<Rightarrow> int \<Rightarrow> pins \<Rightarrow> char option \<Rightarrow> string \<Rightarrow> string list \<Rightarrow> disk \<Rightarrow> 'c \<Rightarrow> (disk \<times> 'c) option" where
  "run_option e u v pins key opt args k c =
     (if opt = ''--help'' then Some (k, show_help e c)
      else if opt = ''--read-id'' then Some (k, readid e u pins v c)
      else if opt = ''--erase-chip'' then
        (let c = puts_line e ''Chip erase requested. Confirm by typing Y:'' c in
         if key = Some CHR ''Y'' then map_option (Pair k) (erase e u pins v c) else Some (k, c))
      else if opt = ''--check-debug-lock'' then Some (k, check_debug_lock e u pins v c)
      else if opt = ''--set-debug-lock'' then
        (let c = puts_line e ''Debug locking requested. Confirm by typing Y:'' c in
         if key = Some CHR ''Y'' then map_option (Pair k) (set_debug_lock e u pins v c) else Some (k, c))
      else if opt = ''--flash-firmware'' then
        (if length args \<noteq> 1 then Some (k, puts_line e ''Filename not specified.'' c)
         else
           let c = puts_line e ''Flashing requested. All data will be lost. Confirm by typing Y:'' c in
           if key = Some CHR ''Y'' then map_option (Pair k) (flash_firmware e u pins v (args ! 0) k c) else Some (k, c))
      else if opt = ''--dump-flash'' then
        (if length args \<noteq> 1 then Some (k, puts_line e ''Filename not specified.'' c)
         else Some (dump_flash e u pins v (args ! 0) k c))
      else Some (k, show_help e c))"

text \<open>The program; \<open>prio\<close> is the priority that the operating system reports.\<close>

definition programmer_main :: "'c env \<Rightarrow> byte \<Rightarrow> int \<Rightarrow> string list \<Rightarrow> int \<Rightarrow> char option \<Rightarrow> string list \<Rightarrow> disk \<Rightarrow> 'c \<Rightarrow> (disk \<times> 'c) option" where
  "programmer_main e u v junk prio key argv k c =
     (let c = fold (puts_line e) banner c in
      case argv of
        [] \<Rightarrow> None
      | [_] \<Rightarrow> Some (k, show_help e c)
      | _ # opt # args \<Rightarrow>
          (case fopen_read ''pins.cfg'' k of
             None \<Rightarrow> Some (k, perror_line e ''File opening error'' c)
           | Some st \<Rightarrow>
               let c = puts_line e (NL @ TAB @ ''Reading config file...'' @ NL) c in
               case config_loop e junk 3 (st_bad st) (map (\<lambda>b. char_of (unat b)) (st_rest st)) (0, 0, 0) c of
                 None \<Rightarrow> None
               | Some (ok, pins, c) \<Rightarrow>
                   if \<not> ok then Some (k, c)
                   else
                     let c = perror_line e (TAB @ ''Setting highest scheduler priority'') c;
                         c = puts_line e (TAB @ ''Priority: '' @ show_int prio @ NL) c
                     in run_option e u v pins key opt args k c))"

section \<open>The chip behind the debug unit\<close>

text \<open>
  The device on the bus, as far as the programmer uses it: one address space for RAM, the registers of the DMA controller and of
  the flash controller; the flash memory of 256 KiB, in which a write can only clear bits, seen through a window of 32 KiB at 0x8000
  that the register 0x70C7 selects; two DMA channels, each with a descriptor in RAM that its registers point to.  Writing the bit 1
  of 0x6270 starts the write to the flash memory, which takes from the DMA channel 1; a burst goes to the DMA channel 0.  A
  cleared top bit of the last byte of the flash memory locks the chip at the next reset: it ignores then all but
  erasing, status and identification.
\<close>

record cc =
  cc_mem :: "16 word \<Rightarrow> byte"
  cc_flash :: "nat \<Rightarrow> byte"
  cc_arm :: byte
  cc_busy :: nat
  cc_erasing :: nat
  cc_locked :: bool
  cc_write_time :: nat
  cc_erase_time :: nat
  cc_delay :: nat
  cc_id :: byte

definition be16 :: "(16 word \<Rightarrow> byte) \<Rightarrow> 16 word \<Rightarrow> nat" where
  "be16 m a = 256 * unat (m a) + unat (m (a + 1))"

definition le16 :: "(16 word \<Rightarrow> byte) \<Rightarrow> 16 word \<Rightarrow> nat" where
  "le16 m a = unat (m a) + 256 * unat (m (a + 1))"

definition burn :: "nat \<Rightarrow> byte list \<Rightarrow> (nat \<Rightarrow> byte) \<Rightarrow> nat \<Rightarrow> byte" where
  "burn a bs f k = (if a \<le> k \<and> k < a + length bs then f k AND bs ! (k - a) else f k)"

definition fill :: "16 word \<Rightarrow> byte list \<Rightarrow> (16 word \<Rightarrow> byte) \<Rightarrow> 16 word \<Rightarrow> byte" where
  "fill p bs m a = (if unat (a - p) < length bs then bs ! unat (a - p) else m a)"

definition cc_write :: "cc \<Rightarrow> cc" where
  "cc_write d =
     (let m = cc_mem d; p = of_nat (le16 m 0x70D2); src = of_nat (be16 m p); n = be16 m (p + 4) in
      if bit (cc_arm d) 1 \<and> be16 m (p + 2) = 0x6273 \<and> m (p + 6) AND 0x1F = 18 \<and> m (p + 7) AND 0xF0 = 0x40
      then d\<lparr>cc_flash := burn (4 * le16 m 0x6271) (map (\<lambda>i. m (src + of_nat i)) [0..<n]) (cc_flash d), cc_arm := cc_arm d AND NOT 2,
             cc_busy := cc_write_time d\<rparr>
      else d\<lparr>cc_busy := cc_write_time d\<rparr>)"

definition cc_poke :: "16 word \<Rightarrow> byte \<Rightarrow> cc \<Rightarrow> cc" where
  "cc_poke a v d =
     (if cc_locked d \<or> 0x8000 \<le> a then d
      else if a = 0x70D6 then d\<lparr>cc_arm := cc_arm d OR v\<rparr>
      else if a = 0x6270 then (if bit v 1 then cc_write d else d)
      else d\<lparr>cc_mem := (cc_mem d)(a := v)\<rparr>)"

definition cc_peek :: "16 word \<Rightarrow> cc \<Rightarrow> byte \<times> cc" where
  "cc_peek a d =
     (if cc_locked d then (0, d)
      else if 0x8000 \<le> a then (cc_flash d (32768 * unat (cc_mem d 0x70C7 AND 7) + unat (a - 0x8000)), d)
      else if a = 0x6270 then (if cc_busy d > 0 then (0x80, d\<lparr>cc_busy := cc_busy d - 1\<rparr>) else (0, d))
      else (cc_mem d a, d))"

definition cc_burst :: "byte list \<Rightarrow> cc \<Rightarrow> cc" where
  "cc_burst bs d =
     (let m = cc_mem d; p = of_nat (le16 m 0x70D4); n = be16 m (p + 4) in
      if \<not> cc_locked d \<and> bit (cc_arm d) 0 \<and> be16 m p = 0x6260 \<and> m (p + 6) AND 0x1F = 31 \<and> m (p + 7) AND 0xF0 = 0x10
      then d\<lparr>cc_mem := fill (of_nat (be16 m (p + 2))) (take n bs) m, cc_arm := cc_arm d AND NOT 1\<rparr>
      else d)"

definition cc_erase :: "cc \<Rightarrow> cc" where
  "cc_erase d = d\<lparr>cc_flash := (\<lambda>_. 0xFF), cc_locked := False, cc_erasing := cc_erase_time d\<rparr>"

definition cc_status :: "cc \<Rightarrow> byte \<times> cc" where
  "cc_status d =
     (let s = (if cc_locked d then 0x26 else 0x22) in
      if cc_erasing d > 0 then (0x80 OR s, d\<lparr>cc_erasing := cc_erasing d - 1\<rparr>) else (s, d))"

definition cc_reset :: "cc \<Rightarrow> cc" where
  "cc_reset d = d\<lparr>cc_locked := (\<not> bit (cc_flash d 0x3FFFF) 7), cc_arm := 0\<rparr>"

definition cc_bus :: "cc bus" where
  "cc_bus = \<lparr>bus_poke = cc_poke, bus_peek = cc_peek, bus_burst = cc_burst, bus_erase = cc_erase, bus_status = cc_status,
     bus_config = (\<lambda>v d. d), bus_id = (\<lambda>d. (cc_id d, 0x24)), bus_delay = cc_delay, bus_reset = cc_reset\<rparr>"

abbreviation pi_cc :: "cc unit_state wire env" where
  "pi_cc \<equiv> two_wire (debug_unit cc_bus)"

lemma cc_bus_simps [simp]:
  "bus_poke cc_bus = cc_poke" "bus_peek cc_bus = cc_peek" "bus_burst cc_bus = cc_burst" "bus_erase cc_bus = cc_erase"
  "bus_status cc_bus = cc_status" "bus_config cc_bus v d = d" "bus_id cc_bus d = (cc_id d, 0x24)" "bus_reset cc_bus = cc_reset"
  by (simp_all add: cc_bus_def)

subsection \<open>Waiting for the device\<close>

lemma poll_fctl_cc: "\<not> cc_locked d \<Longrightarrow> poll_fctl cc_peek d = Some (d\<lparr>cc_busy := 0\<rparr>)"
proof (induction "cc_busy d" arbitrary: d)
  case 0
  then show ?case by (subst poll_fctl.simps) (simp add: cc_peek_def)
next
  case (Suc n)
  then have "poll_fctl cc_peek (d\<lparr>cc_busy := n\<rparr>) = Some (d\<lparr>cc_busy := 0\<rparr>)" using Suc.hyps(1) [of "d\<lparr>cc_busy := n\<rparr>"] by simp
  then show ?case using Suc.hyps(2) [symmetric] Suc.prems by (subst poll_fctl.simps) (simp add: cc_peek_def)
qed

lemma poll_erase_cc: "\<not> cc_locked d \<Longrightarrow> poll_erase cc_status d = Some (d\<lparr>cc_erasing := 0\<rparr>)"
proof (induction "cc_erasing d" arbitrary: d)
  case 0
  then show ?case by (subst poll_erase.simps) (simp add: cc_status_def)
next
  case (Suc n)
  then have "poll_erase cc_status (d\<lparr>cc_erasing := n\<rparr>) = Some (d\<lparr>cc_erasing := 0\<rparr>)" using Suc.hyps(1) [of "d\<lparr>cc_erasing := n\<rparr>"] by simp
  then show ?case using Suc.hyps(2) [symmetric] Suc.prems by (subst poll_erase.simps) (simp add: cc_status_def)
qed

subsection \<open>Programming a block\<close>

lemma cc_poke_reg:
  "\<not> cc_locked d \<Longrightarrow> a < 0x8000 \<Longrightarrow> a \<noteq> 0x70D6 \<Longrightarrow> a \<noteq> 0x6270 \<Longrightarrow> cc_poke a v d = d\<lparr>cc_mem := (cc_mem d)(a := v)\<rparr>"
  by (simp add: cc_poke_def)

text \<open>The memory after the descriptors and the registers are written.\<close>

definition set_up :: "byte \<Rightarrow> byte \<Rightarrow> 16 word \<Rightarrow> (16 word \<Rightarrow> byte) \<Rightarrow> 16 word \<Rightarrow> byte" where
  "set_up hi lo q m = m(0x200 := 0x62, 0x201 := 0x60, 0x202 := 0, 0x203 := 0, 0x204 := hi, 0x205 := lo, 0x206 := 31, 0x207 := 0x11,
     0x208 := 0, 0x209 := 0, 0x20A := 0x62, 0x20B := 0x73, 0x20C := hi, 0x20D := lo, 0x20E := 18, 0x20F := 0x42,
     0x70D5 := 2, 0x70D4 := 0, 0x70D3 := 2, 0x70D2 := 8, 0x6272 := ucast (drop_bit 8 q), 0x6271 := ucast q)"

lemma set_up_values:
  "le16 (set_up hi lo q m) 0x70D4 = 0x200" "be16 (set_up hi lo q m) 0x200 = 0x6260" "be16 (set_up hi lo q m) 0x202 = 0"
  "be16 (set_up hi lo q m) 0x204 = 256 * unat hi + unat lo" "set_up hi lo q m 0x206 = 31" "set_up hi lo q m 0x207 = 0x11"
  by (simp_all add: set_up_def le16_def be16_def)

lemma fill_above: "length bs \<le> 512 \<Longrightarrow> 512 \<le> unat a \<Longrightarrow> fill 0 bs m a = m a"
  by (simp add: fill_def)

lemma filled_values:
  assumes "length bs \<le> 512"
  shows "le16 (fill 0 bs (set_up hi lo q m)) 0x70D2 = 0x208" "be16 (fill 0 bs (set_up hi lo q m)) 0x208 = 0"
    "be16 (fill 0 bs (set_up hi lo q m)) 0x20A = 0x6273" "be16 (fill 0 bs (set_up hi lo q m)) 0x20C = 256 * unat hi + unat lo"
    "fill 0 bs (set_up hi lo q m) 0x20E = 18" "fill 0 bs (set_up hi lo q m) 0x20F = 0x42" "le16 (fill 0 bs (set_up hi lo q m)) 0x6271 = unat q"
proof -
  note up = fill_above [OF assms]
  show "le16 (fill 0 bs (set_up hi lo q m)) 0x70D2 = 0x208" "be16 (fill 0 bs (set_up hi lo q m)) 0x208 = 0"
    "be16 (fill 0 bs (set_up hi lo q m)) 0x20A = 0x6273" "be16 (fill 0 bs (set_up hi lo q m)) 0x20C = 256 * unat hi + unat lo"
    "fill 0 bs (set_up hi lo q m) 0x20E = 18" "fill 0 bs (set_up hi lo q m) 0x20F = 0x42"
    by (simp_all add: up le16_def be16_def) (simp_all add: set_up_def)
  have "fill 0 bs (set_up hi lo q m) 0x6271 = ucast q" "fill 0 bs (set_up hi lo q m) 0x6272 = ucast (drop_bit 8 q)"
    by (simp_all add: up) (simp_all add: set_up_def)
  then have "le16 (fill 0 bs (set_up hi lo q m)) 0x6271 = unat (ucast q :: byte) + 256 * unat (ucast (drop_bit 8 q) :: byte)"
    by (simp add: le16_def)
  then show "le16 (fill 0 bs (set_up hi lo q m)) 0x6271 = unat q"
    unfolding unat_bytes(1) unfolding unat_bytes(2) using mult_div_mod_eq [of 256 "unat q"] by simp
qed

lemma fill_buffer:
  assumes "length bs \<le> 512"
  shows "map (\<lambda>i. fill 0 bs m (0 + of_nat i)) [0..<length bs] = bs"
  using assms by (intro nth_equalityI) (auto simp: fill_def unat_of_nat)

lemma registers_cc:
  assumes "\<not> cc_locked d"
  shows "(let d = pokes cc_poke 0x200 [0x62, 0x60, 0, 0, 0, 0, 31, 0x11] d;
          d = pokes cc_poke 0x208 [0, 0, 0x62, 0x73, 0, 0, 18, 0x42] d;
          d = pokes cc_poke 0x204 [hi, lo] d;
          d = pokes cc_poke 0x20C [hi, lo] d;
          d = cc_poke 0x70D5 2 d;
          d = cc_poke 0x70D4 0 d;
          d = cc_poke 0x70D3 2 d;
          d = cc_poke 0x70D2 8 d;
          d = cc_poke 0x6272 (ucast (drop_bit 8 q)) d
      in cc_poke 0x6271 (ucast q) d) = d\<lparr>cc_mem := set_up hi lo q (cc_mem d)\<rparr>"
  using assms unfolding Let_def by (simp add: cc_poke_reg set_up_def fun_upd_twist)


lemma length_split:
  assumes "n \<le> 512"
  shows "256 * unat (of_nat (n div 256) :: byte) + unat (of_nat (n mod 256) :: byte) = n"
  using assms mult_div_mod_eq [of 256 n] by (simp add: unat_of_nat)

lemma armed_bits: "bit (a OR 1 :: byte) 0" "bit (a OR 2 :: byte) (Suc 0)"
  by (simp_all add: bit_simps)

lemma cc_write_buffer:
  assumes "length bs \<le> 512" and "hi = of_nat (length bs div 256)" and "lo = of_nat (length bs mod 256)"
    and "cc_mem d = fill 0 bs (set_up hi lo q m)" and "bit (cc_arm d) 1"
  shows "cc_write d = d\<lparr>cc_flash := burn (4 * unat q) bs (cc_flash d), cc_arm := cc_arm d AND NOT 2, cc_busy := cc_write_time d\<rparr>"
proof -
  have n: "256 * unat hi + unat lo = length bs" unfolding assms(2,3) using assms(1) by (rule length_split)
  note v = filled_values [OF assms(1), of hi lo q m]
  show ?thesis using assms(5) fill_buffer [OF assms(1), of "set_up hi lo q m"]
    unfolding cc_write_def Let_def assms(4) v n by (simp add: v n)
qed

lemma cc_burst_buffer:
  assumes "length bs \<le> 512" and "hi = of_nat (length bs div 256)" and "lo = of_nat (length bs mod 256)"
    and "cc_mem d = set_up hi lo q m" and "bit (cc_arm d) 0" and "\<not> cc_locked d"
  shows "cc_burst bs d = d\<lparr>cc_mem := fill 0 bs (cc_mem d), cc_arm := cc_arm d AND NOT 1\<rparr>"
proof -
  have n: "256 * unat hi + unat lo = length bs" unfolding assms(2,3) using assms(1) by (rule length_split)
  show ?thesis using assms(5,6)
    unfolding cc_burst_def Let_def assms(4) set_up_values n by (simp add: set_up_values n)
qed

text \<open>What programming a block does: the block lies below the descriptors in RAM, so all of it gets into the flash memory.\<close>

lemma program_block_cc:
  assumes "\<not> cc_locked d" and "length bs \<le> 512"
  shows "\<exists>m a. program_block cc_poke cc_peek cc_burst bs q d
    = Some (d\<lparr>cc_mem := m, cc_flash := burn (4 * unat q) bs (cc_flash d), cc_arm := a, cc_busy := 0\<rparr>)"
proof -
  define hi lo where "hi = (of_nat (length bs div 256) :: byte)" and "lo = (of_nat (length bs mod 256) :: byte)"
  let ?d1 = "d\<lparr>cc_mem := set_up hi lo q (cc_mem d)\<rparr>"
  let ?d2 = "?d1\<lparr>cc_arm := cc_arm d OR 1\<rparr>"
  let ?d3 = "?d2\<lparr>cc_mem := fill 0 bs (cc_mem ?d2), cc_arm := cc_arm ?d2 AND NOT 1\<rparr>"
  let ?d4 = "?d3\<lparr>cc_arm := cc_arm ?d3 OR 2\<rparr>"
  have b: "cc_burst bs ?d2 = ?d3" by (rule cc_burst_buffer [OF assms(2) hi_def lo_def]) (simp_all add: assms(1) armed_bits)
  have w: "cc_write ?d4 = ?d4\<lparr>cc_flash := burn (4 * unat q) bs (cc_flash ?d4), cc_arm := cc_arm ?d4 AND NOT 2, cc_busy := cc_write_time ?d4\<rparr>"
    by (rule cc_write_buffer [OF assms(2) hi_def lo_def]) (simp_all add: armed_bits)
  have "program_block cc_poke cc_peek cc_burst bs q d = poll_fctl cc_peek (cc_poke 0x6270 6 (cc_poke 0x70D6 2 (cc_burst bs (cc_poke 0x70D6 1 ?d1))))"
    unfolding program_block_def registers_cc [OF assms(1), of hi lo q, symmetric] by (simp add: Let_def hi_def lo_def)
  also have "cc_poke 0x70D6 1 ?d1 = ?d2" using assms(1) by (simp add: cc_poke_def)
  also note b
  also have "cc_poke 0x70D6 2 ?d3 = ?d4" using assms(1) by (simp add: cc_poke_def)
  also have "cc_poke 0x6270 6 ?d4 = cc_write ?d4" using assms(1) by (simp add: cc_poke_def bit_numeral_rec)
  also note w
  finally show ?thesis using assms(1) by (simp add: poll_fctl_cc) blast
qed

section \<open>The programmer and the chip\<close>

text \<open>
  The chip as the commands of the programmer see it: not locked, with the contents \<open>f\<close> of its flash memory and the identification \<open>i\<close>.
  Before a command the chip may be in any state in which the clock is low (\<open>plugged\<close>).
\<close>

definition chip_ready :: "byte \<Rightarrow> (nat \<Rightarrow> byte) \<Rightarrow> cc \<Rightarrow> bool" where
  "chip_ready i f d \<longleftrightarrow> \<not> cc_locked d \<and> cc_flash d = f \<and> cc_erasing d = 0 \<and> cc_id d = i"

definition attached :: "byte \<Rightarrow> (nat \<Rightarrow> byte) \<Rightarrow> string list \<Rightarrow> cc unit_state wire \<Rightarrow> bool" where
  "attached i f l w \<longleftrightarrow> (\<exists>d. chip_ready i f d \<and> serves idle d l w)"

definition plugged :: "cc \<Rightarrow> cc unit_state wire \<Rightarrow> bool" where
  "plugged d w \<longleftrightarrow> \<not> w_dc w \<and> du_dev (w_dup w) = d"

lemma serves_plugged: "serves idle d l w \<Longrightarrow> plugged d w \<and> w_console w = l"
  by (auto simp: serves_def resting_def plugged_def at_rest_def idle_def)

lemma serves_puts: "serves mk d l w \<Longrightarrow> serves mk d (l @ [s]) (w\<lparr>w_console := w_console w @ [s]\<rparr>)"
  by (auto simp: serves_def resting_def)

lemma attached_puts: "attached i f l w \<Longrightarrow> attached i f (l @ [s]) (w\<lparr>w_console := w_console w @ [s]\<rparr>)"
  by (auto simp: attached_def serves_puts)

lemma init_ok:
  assumes "plugged d w" and "v \<noteq> -1"
  shows "\<exists>w'. init pi_cc pins v w = (0, w') \<and> serves idle (cc_reset d) (w_console w) w'"
proof -
  have "init pi_cc pins v w = (0, debug_init pi_cc (w\<lparr>w_drive := False\<rparr>))"
    using assms(2) by (simp add: init_def programmer_init_def split_def Let_def)
  moreover have "resting (debug_init pi_cc (w\<lparr>w_drive := False\<rparr>)) (idle (du_dptr (w_dup w)) (du_acc (w_dup w)) (cc_reset d)) (w_console w)"
    using assms(1) by (simp add: debug_init_def Let_def resting_def at_rest_def plugged_def dc_fall_def debug_unit_simps)
  ultimately show ?thesis by (auto simp: serves_def)
qed

text \<open>The common beginning of all commands.\<close>

lemma connect_ok:
  assumes "plugged d w" and "v \<noteq> -1"
  shows "\<exists>w1 w2. init pi_cc pins v w = (0, w1) \<and> read_chip_id pi_cc u w1 = (cc_id d, w2) \<and> serves idle (cc_reset d) (w_console w) w2"
proof -
  obtain w1 where w1: "init pi_cc pins v w = (0, w1)" "serves idle (cc_reset d) (w_console w) w1" using init_ok [OF assms] by blast
  then show ?thesis using chip.read_chip_id_ok [where B = cc_bus and u = u, OF w1(2)] by (auto simp: cc_reset_def)
qed

subsection \<open>Blocks of the flash memory\<close>

lemma word_address:
  assumes "4 dvd a" and "a < 262144"
  shows "4 * unat (ucast (drop_bit 2 (of_nat a :: uint)) :: 16 word) = a"
proof -
  have "unat (of_nat a :: uint) = a" using assms(2) by (simp add: unat_of_nat)
  moreover have "a div 4 < 65536" using assms(2) by simp
  ultimately have "unat (ucast (drop_bit 2 (of_nat a :: uint)) :: 16 word) = a div 4"
    by (simp add: unsigned_ucast_eq unsigned_drop_bit_eq drop_bit_eq_div take_bit_eq_mod unat_div_distrib)
  then show ?thesis using assms(1) by simp
qed

lemma write_block_ok:
  assumes "attached i f l w" and "bs \<noteq> []" and "length bs \<le> 512" and "4 dvd a" and "a < 262144"
  shows "\<exists>w'. write_flash_memory_block pi_cc u bs (of_nat a) (of_nat (length bs)) w = Some w' \<and> attached i (burn a bs f) l w'"
proof -
  obtain d where d: "chip_ready i f d" "serves idle d l w" using assms(1) by (auto simp: attached_def)
  let ?q = "ucast (drop_bit 2 (of_nat a :: uint)) :: 16 word"
  obtain m r where "program_block cc_poke cc_peek cc_burst bs ?q d
      = Some (d\<lparr>cc_mem := m, cc_flash := burn (4 * unat ?q) bs (cc_flash d), cc_arm := r, cc_busy := 0\<rparr>)" (is "_ = Some ?d'")
    using program_block_cc [OF _ assms(3), of d ?q] d(1) by (auto simp: chip_ready_def)
  moreover have "chip_ready i (burn a bs f) ?d'" using d(1) word_address [OF assms(4,5)] by (simp add: chip_ready_def)
  ultimately show ?thesis
    using chip.write_flash_memory_block_ok [where B = cc_bus, OF d(2), of bs "of_nat a" _ u] assms(2,3) by (auto simp: attached_def)
qed

lemma peeks_cc:
  assumes "\<not> cc_locked d"
  shows "s + n \<le> 32768 \<Longrightarrow>
    peeks cc_peek (0x8000 + of_nat s) n d = (map (\<lambda>j. cc_flash d (32768 * unat (cc_mem d 0x70C7 AND 7) + s + j)) [0..<n], d)"
proof (induction n arbitrary: s)
  case (Suc n)
  have s: "unat (of_nat s :: 16 word) = s" using Suc.prems by (simp add: unat_of_nat)
  then have "unat (0x8000 + of_nat s :: 16 word) = 0x8000 + s" using Suc.prems by (simp add: unat_word_ariths)
  then have "(0x8000 :: 16 word) \<le> 0x8000 + of_nat s" by (simp add: word_le_nat_alt)
  then have p: "cc_peek (0x8000 + of_nat s) d = (cc_flash d (32768 * unat (cc_mem d 0x70C7 AND 7) + s), d)"
    using assms s by (simp add: cc_peek_def)
  have "peeks cc_peek (0x8000 + of_nat s + 1) n d = peeks cc_peek (0x8000 + of_nat (Suc s)) n d" by (simp add: add.assoc add.commute)
  also have "\<dots> = (map (\<lambda>j. cc_flash d (32768 * unat (cc_mem d 0x70C7 AND 7) + Suc s + j)) [0..<n], d)"
    using Suc.prems by (intro Suc.IH) simp
  finally show ?case using p by (simp add: upt_conv_Cons map_Suc_upt [symmetric] del: upt_Suc)
qed simp

lemma read_block_ok:
  assumes "attached i f l w" and "bank < 8" and "s + n \<le> 32768"
  shows "\<exists>w'. read_flash_memory_block pi_cc u (of_nat bank) (of_nat s) n w = (map (\<lambda>j. f (32768 * bank + s + j)) [0..<n], w') \<and> attached i f l w'"
proof -
  obtain d where d: "chip_ready i f d" "serves idle d l w" using assms(1) by (auto simp: attached_def)
  let ?d = "d\<lparr>cc_mem := (cc_mem d)(0x70C7 := of_nat bank)\<rparr>"
  have p: "cc_poke 0x70C7 (of_nat bank) d = ?d" using d(1) by (simp add: cc_poke_reg chip_ready_def)
  have "bank \<in> {0, 1, 2, 3, 4, 5, 6, 7}" using assms(2) by auto
  then have "unat (of_nat bank AND 7 :: byte) = bank" by auto
  then have "peeks cc_peek (0x8000 + of_nat s) n ?d = (map (\<lambda>j. f (32768 * bank + s + j)) [0..<n], ?d)"
    using peeks_cc [of ?d s n] d(1) assms(3) by (simp add: chip_ready_def)
  moreover have "chip_ready i f ?d" using d(1) by (simp add: chip_ready_def)
  ultimately show ?thesis
    using chip.read_flash_memory_block_ok [where B = cc_bus and u = u, OF d(2), of "of_nat bank" "of_nat s" n] p
    assms(3) by (auto simp: attached_def unsigned_of_nat take_bit_nat_eq_self)
qed

subsection \<open>Writing a file\<close>

lemma burn_Nil [simp]: "burn a [] f = f"
  by (rule ext) (auto simp: burn_def)

lemma burn_append: "burn a (xs @ ys) f = burn (a + length xs) ys (burn a xs f)"
  by (rule ext) (auto simp: burn_def nth_append)

text \<open>The bytes that the loop writes: the blocks of 512 bytes of the file, and then one block with the rest of the file in front of what
  the buffer held before.\<close>

primrec blocks :: "nat \<Rightarrow> byte list \<Rightarrow> byte list \<Rightarrow> byte list" where
  "blocks 0 buff rest = []"
| "blocks (Suc n) buff rest =
     (if 512 \<le> length rest then take 512 rest @ blocks n (take 512 rest) (drop 512 rest) else rest @ drop (length rest) buff)"

lemma fread_block:
  assumes "\<not> st_bad st" and "length buff = 512"
  shows "host_fread 512 buff st = (min 512 (length (st_rest st)), take 512 (st_rest st) @ drop (length (st_rest st)) buff,
    st\<lparr>st_rest := drop 512 (st_rest st), st_eof := (st_eof st \<or> length (st_rest st) < 512)\<rparr>)"
  using assms by (cases st) (auto simp: host_fread_def Let_def min_def)

lemma flash_loop_ok:
  assumes "attached i f l w" and "\<not> st_bad st" and "\<not> st_eof st" and "\<not> st_err st" and "length buff = 512" and "4 dvd a"
    and "a + 512 * n \<le> 262144"
  shows "\<exists>w' l'. flash_loop pi_cc u n st buff (int a) w = Some w' \<and> attached i (burn a (blocks n buff (st_rest st)) f) l' w'"
  using assms
proof (induction n arbitrary: f w st buff a)
  case 0
  then show ?case by auto
next
  case (Suc n)
  define b where "b = take 512 (st_rest st) @ drop (length (st_rest st)) buff"
  let ?st = "st\<lparr>st_rest := drop 512 (st_rest st), st_eof := length (st_rest st) < 512\<rparr>"
  have len: "length b = 512" using Suc.prems(5) by (simp add: b_def min_def)
  then have "b \<noteq> []" by auto
  then obtain w1 where w1: "write_flash_memory_block pi_cc u b (of_nat a) 512 w = Some w1" "attached i (burn a b f) l w1"
    using write_block_ok [OF Suc.prems(1) _ _ Suc.prems(6), of b u] len Suc.prems(7) by auto
  have fr: "host_fread 512 buff st = (min 512 (length (st_rest st)), b, ?st)" using fread_block [OF Suc.prems(2,5)] Suc.prems(3) by (simp add: b_def)
  have step: "flash_loop pi_cc u (Suc n) st buff (int a) w = flash_loop pi_cc u n ?st b (int (a + 512)) w1"
    using Suc.prems(3,4) w1(1) by (simp add: fr add.commute min_def)
  show ?case
  proof (cases "512 \<le> length (st_rest st)")
    case True
    have "\<exists>w' l'. flash_loop pi_cc u n ?st b (int (a + 512)) w1 = Some w'
        \<and> attached i (burn (a + 512) (blocks n b (st_rest ?st)) (burn a b f)) l' w'"
      using Suc.prems w1(2) len True by (intro Suc.IH) auto
    then show ?thesis unfolding step using True Suc.prems(5) by (auto simp: burn_append b_def)
  next
    case False
    then have "blocks (Suc n) buff (st_rest st) = b" by (simp add: b_def)
    moreover have "\<exists>w' l'. flash_loop pi_cc u n ?st b (int (a + 512)) w1 = Some w' \<and> attached i (burn a b f) l' w'"
      using False w1(2) attached_puts [OF w1(2)] by (cases n) auto
    ultimately show ?thesis unfolding step by simp
  qed
qed

subsection \<open>Reading the whole memory\<close>

lemma dump_loop_ok:
  assumes "attached i f l w" and "d_file k name = Some old" and "512 * n \<le> d_room k" and "s < 32768" and "512 dvd s" and "32768 * bank + s + 512 * n = 262144"
  shows "\<exists>k' w'. dump_loop pi_cc u n (int bank) (int s) name k w = (k', w') \<and> attached i f l w'
    \<and> d_file k' = (d_file k)(name \<mapsto> old @ map f [32768 * bank + s..<262144])"
  using assms
proof (induction n arbitrary: w k old s bank)
  case 0
  then show ?case by (auto simp: fun_upd_idem)
next
  case (Suc n)
  let ?a = "32768 * bank + s"
  have s: "s + 512 \<le> 32768" using Suc.prems(4,5) by (auto elim!: dvdE)
  have "bank < 8" using Suc.prems(6) by simp
  then obtain w1 where w1: "read_flash_memory_block pi_cc u (of_nat bank) (of_nat s) 512 w = (map (\<lambda>j. f (?a + j)) [0..<512], w1)" "attached i f l w1"
    using read_block_ok [OF Suc.prems(1) _ s, of bank u] by auto
  let ?bs = "map f [?a..<?a + 512]"
  have bs: "map (\<lambda>j. f (?a + j)) [0..<512] = ?bs" by (intro nth_equalityI) simp_all
  define k1 where "k1 = k\<lparr>d_room := d_room k - 512, d_file := (d_file k)(name \<mapsto> old @ ?bs)\<rparr>"
  have fw: "host_fwrite ?bs name k = (512, k1)" using Suc.prems(2,3) by (simp add: host_fwrite_def k1_def)
  have cat: "?bs @ map f [?a + 512..<262144] = map f [?a..<262144]"
  proof -
    have "?a + 512 + 512 * n = 262144" using Suc.prems(6) by simp
    then have "[?a..<262144] = [?a..<?a + 512] @ [?a + 512..<262144]" using upt_add_eq_append [of ?a "?a + 512" "512 * n"] by (simp only: le_add1)
    then show ?thesis by (simp only: map_append)
  qed
  have k1: "d_file k1 name = Some (old @ ?bs)" "512 * n \<le> d_room k1" using Suc.prems(3) by (simp_all add: k1_def)
  have fin: "(d_file k1)(name \<mapsto> (old @ ?bs) @ map f [?a + 512..<262144]) = (d_file k)(name \<mapsto> old @ map f [?a..<262144])"
    unfolding append_assoc cat by (simp add: k1_def)
  have step: "dump_loop pi_cc u (Suc n) (int bank) (int s) name k w
      = (if s + 512 = 32768 then dump_loop pi_cc u n (int (bank + 1)) (int 0) name k1 w1 else dump_loop pi_cc u n (int bank) (int (s + 512)) name k1 w1)"
    using w1(1) fw s unfolding bs dump_loop.simps by (simp add: Let_def add.commute [of 1] del: upt_Suc)
  show ?case
  proof (cases "s + 512 = 32768")
    case True
    have "\<exists>k' w'. dump_loop pi_cc u n (int (bank + 1)) (int 0) name k1 w1 = (k', w') \<and> attached i f l w'
        \<and> d_file k' = (d_file k1)(name \<mapsto> (old @ ?bs) @ map f [32768 * (bank + 1) + 0..<262144])"
      using Suc.prems(6) True by (intro Suc.IH w1 k1) simp_all
    moreover have "32768 * (bank + 1) + 0 = ?a + 512" using True by simp
    ultimately show ?thesis unfolding step if_P [OF True] by (simp only: fin)
  next
    case False
    have "\<exists>k' w'. dump_loop pi_cc u n (int bank) (int (s + 512)) name k1 w1 = (k', w') \<and> attached i f l w'
        \<and> d_file k' = (d_file k1)(name \<mapsto> (old @ ?bs) @ map f [32768 * bank + (s + 512)..<262144])"
      using Suc.prems(5,6) False s by (intro Suc.IH w1 k1) simp_all
    then show ?thesis unfolding step if_not_P [OF False] add.assoc [symmetric] by (simp only: fin)
  qed
qed

subsection \<open>Commands\<close>

definition flash_of :: "byte list \<Rightarrow> nat \<Rightarrow> byte" where
  "flash_of bs k = (if k < length bs then bs ! k else 0xFF)"

lemma burn_erased: "burn 0 bs (\<lambda>_. 0xFF) = flash_of bs"
proof -
  have "(0xFF :: byte) AND x = x" for x :: byte
  proof -
    have "(0xFF :: byte) = -1" by simp
    then show ?thesis by (simp only: and.left_neutral)
  qed
  then show ?thesis by (auto simp: burn_def flash_of_def fun_eq_iff)
qed

lemma attached_plugged: "attached i f l w \<Longrightarrow> \<exists>d. plugged d w \<and> chip_ready i f d \<and> w_console w = l"
  using serves_plugged by (auto simp: attached_def)

lemma reset_attached:
  assumes "serves idle (cc_reset d) l w" and "cc_erasing d = 0" and "bit (cc_flash d 0x3FFFF) 7"
  shows "attached (cc_id d) (cc_flash d) l w"
  using assms by (auto simp: attached_def chip_ready_def cc_reset_def intro!: exI [of _ "cc_reset d"])

lemma status_attached:
  assumes "attached i f l w"
  shows "\<exists>w'. read_status pi_cc u w = (0x22, w') \<and> attached i f l w'"
proof -
  obtain d where d: "chip_ready i f d" "serves idle d l w" using assms by (auto simp: attached_def)
  have "cc_status d = (0x22, d)" using d(1) by (simp add: cc_status_def chip_ready_def)
  then show ?thesis using chip.read_status_ok [where B = cc_bus and u = u, OF d(2)] d(1) by (auto simp: attached_def)
qed

lemma config_ok:
  assumes "attached i f l w"
  shows "attached i f l (snd (debug_command pi_cc u CMD_WR_CONFIG [x] w))"
proof -
  obtain d where d: "chip_ready i f d" "serves idle d l w" using assms by (auto simp: attached_def)
  show ?thesis using chip.wr_config_ok [where B = cc_bus and u = u, OF d(2), of x] d(1) by (auto simp: attached_def)
qed

lemma chip_erase_attached:
  assumes "serves idle d l w"
  shows "\<exists>w'. chip_erase pi_cc u w = Some w' \<and> attached (cc_id d) (\<lambda>_. 0xFF) l w'"
proof -
  have "poll_erase cc_status (cc_erase d) = Some ((cc_erase d)\<lparr>cc_erasing := 0\<rparr>)" by (rule poll_erase_cc) (simp add: cc_erase_def)
  then obtain w' where "chip_erase pi_cc u w = Some w'" "serves idle ((cc_erase d)\<lparr>cc_erasing := 0\<rparr>) l w'"
    using chip.chip_erase_ok [where B = cc_bus and u = u, OF _ assms] by auto
  moreover have "chip_ready (cc_id d) (\<lambda>_. 0xFF) ((cc_erase d)\<lparr>cc_erasing := 0\<rparr>)" by (simp add: chip_ready_def cc_erase_def)
  ultimately show ?thesis by (auto simp: attached_def)
qed

lemma flash_firmware_ok:
  assumes "plugged d w" and "v \<noteq> -1" and "cc_id d \<noteq> 0" and "d_open k name" and "d_file k name = Some data" and "d_bad k name = None"
  shows "\<exists>w' l'. flash_firmware pi_cc u pins v name k w = Some w' \<and> attached (cc_id d) (flash_of (blocks 512 (replicate 512 0) data)) l' w'"
proof -
  obtain w1 w2 where w: "init pi_cc pins v w = (0, w1)" "read_chip_id pi_cc u w1 = (cc_id d, w2)" "serves idle (cc_reset d) (w_console w) w2"
    using connect_ok [OF assms(1,2)] by blast
  have i: "cc_id (cc_reset d) = cc_id d" by (simp add: cc_reset_def)
  let ?st = "\<lparr>st_rest = data, st_bad = False, st_eof = False, st_err = False\<rparr>"
  have st: "fopen_read name k = Some ?st" using assms(4-6) by (simp add: fopen_read_def)
  obtain w3 where w3: "chip_erase pi_cc u w2 = Some w3" "attached (cc_id d) (\<lambda>_. 0xFF) (w_console w) w3"
    using chip_erase_attached [OF w(3), of u] i by auto
  let ?w4 = "w3\<lparr>w_console := w_console w3 @ [''Flashing in progress...'']\<rparr>"
  let ?w5 = "snd (debug_command pi_cc u CMD_WR_CONFIG [0x22] ?w4)"
  have "attached (cc_id d) (\<lambda>_. 0xFF) (w_console w @ [''Flashing in progress...'']) ?w5" by (intro config_ok attached_puts w3)
  from flash_loop_ok [OF this, of ?st "replicate 512 0" 0 512 u] obtain w6 l' where "flash_loop pi_cc u 512 ?st (replicate 512 0) 0 ?w5 = Some w6"
    "attached (cc_id d) (flash_of (blocks 512 (replicate 512 0) data)) l' w6"
    by (auto simp: burn_erased)
  then show ?thesis using w w3 st assms(3) by (auto simp: flash_firmware_def split_def Let_def programmer_close_def)
qed

lemma dump_flash_ok:
  assumes "plugged d w" and "v \<noteq> -1" and "cc_id d \<noteq> 0" and "cc_erasing d = 0" and "bit (cc_flash d 0x3FFFF) 7"
    and "d_open k name" and "262144 \<le> d_room k"
  shows "\<exists>k' w' l'. dump_flash pi_cc u pins v name k w = (k', w') \<and> attached (cc_id d) (cc_flash d) l' w'
    \<and> d_file k' = (d_file k)(name \<mapsto> (case d_file k name of None \<Rightarrow> [] | Some old \<Rightarrow> old) @ map (cc_flash d) [0..<262144])"
proof -
  obtain w1 w2 where w: "init pi_cc pins v w = (0, w1)" "read_chip_id pi_cc u w1 = (cc_id d, w2)" "serves idle (cc_reset d) (w_console w) w2"
    using connect_ok [OF assms(1,2)] by blast
  have "attached (cc_id d) (cc_flash d) (w_console w) w2" using w(3) assms(4,5) by (rule reset_attached)
  then obtain w3 where w3: "read_status pi_cc u w2 = (0x22, w3)" "attached (cc_id d) (cc_flash d) (w_console w) w3"
    using status_attached [where u = u] by blast
  let ?old = "case d_file k name of None \<Rightarrow> [] | Some old \<Rightarrow> old"
  let ?k = "k\<lparr>d_file := (d_file k)(name \<mapsto> ?old)\<rparr>"
  let ?w = "w3\<lparr>w_console := w_console w3 @ [''Downloading flash...'']\<rparr>"
  have "\<exists>k' w'. dump_loop pi_cc u 512 (int 0) (int 0) name ?k ?w = (k', w') \<and> attached (cc_id d) (cc_flash d) (w_console w @ [''Downloading flash...'']) w'
    \<and> d_file k' = (d_file ?k)(name \<mapsto> ?old @ map (cc_flash d) [32768 * 0 + 0..<262144])"
    using assms(7) by (intro dump_loop_ok attached_puts w3) simp_all
  then obtain k' w' where loop: "dump_loop pi_cc u 512 0 0 name ?k ?w = (k', w')" "attached (cc_id d) (cc_flash d) (w_console w @ [''Downloading flash...'']) w'"
    "d_file k' = (d_file ?k)(name \<mapsto> ?old @ map (cc_flash d) [0..<262144])" by auto
  have "dump_flash pi_cc u pins v name k w = (k', w')"
    using w(1,2) w3(1) loop(1) assms(3,6) by (simp add: dump_flash_def fopen_append_def STATUS_DEBUG_LOCKED_BM_def programmer_close_def Let_def)
  then show ?thesis using loop by auto
qed

text \<open>What the flash memory holds of a file: its first 256 KiB; a shorter file is filled up to a block, with the bytes of the block before,
  and one that ends with a block is followed by a copy of it.\<close>

definition burned :: "byte list \<Rightarrow> byte list" where
  "burned data =
     (let n = length data in
      if 262144 \<le> n then take 262144 data
      else data @ drop (n mod 512) (if n < 512 then replicate 512 0 else take 512 (drop (512 * (n div 512 - 1)) data)))"

lemma blocks_eq:
  "length buff = 512 \<Longrightarrow> blocks n buff rest =
     (if n = 0 then [] else if 512 * n \<le> length rest then take (512 * n) rest
      else rest @ drop (length rest mod 512) (if length rest < 512 then buff else take 512 (drop (512 * (length rest div 512 - 1)) rest)))"
proof (induction n arbitrary: buff rest)
  case (Suc n)
  show ?case
  proof (cases "512 \<le> length rest")
    case True
    let ?r = "drop 512 rest"
    have l: "length rest mod 512 = length ?r mod 512" "length rest div 512 = Suc (length ?r div 512)" "512 * Suc n \<le> length rest \<longleftrightarrow> 512 * n \<le> length ?r"
      using True by (auto simp: mod_if [of "length rest"] div_if [of _ "length rest"])
    have IH: "blocks n (take 512 rest) ?r =
       (if n = 0 then [] else if 512 * n \<le> length ?r then take (512 * n) ?r
        else ?r @ drop (length ?r mod 512) (if length ?r < 512 then take 512 rest else take 512 (drop (512 * (length ?r div 512 - 1)) ?r)))"
      using True by (intro Suc.IH) simp
    have "take 512 (drop (512 * (length rest div 512 - 1)) rest)
        = (if length ?r < 512 then take 512 rest else take 512 (drop (512 * (length ?r div 512 - 1)) ?r))"
    proof (cases "length ?r < 512")
      case False
      then have "512 * (length rest div 512 - 1) = 512 + 512 * (length ?r div 512 - 1)" unfolding l(2) using div_greater_zero_iff [of "length ?r" 512] by simp
      then show ?thesis using False by (simp add: drop_drop add.commute)
    qed (simp add: l(2))
    moreover have "take 512 rest @ take (512 * n) ?r = take (512 * Suc n) rest" using take_add [of 512 "512 * n" rest] by simp
    moreover have "take 512 rest @ ?r = rest" by simp
    ultimately show ?thesis using True IH l(1,3) by (auto simp del: append_take_drop_id simp flip: append_assoc)
  qed auto
qed simp

lemma blocks_burned: "blocks 512 (replicate 512 0) data = burned data"
  by (simp add: blocks_eq burned_def Let_def)

subsection \<open>The debug lock\<close>

lemma locked_status_ok:
  assumes "serves idle d l w" and "cc_locked d" and "cc_erasing d = 0"
  shows "\<exists>w'. read_status pi_cc u w = (0x26, w') \<and> serves idle d l w'"
proof -
  have "cc_status d = (0x26, d)" using assms(2,3) by (simp add: cc_status_def)
  then show ?thesis using chip.read_status_ok [where B = cc_bus and u = u, OF assms(1)] by auto
qed

lemma set_debug_lock_ok:
  assumes "plugged d w" and "v \<noteq> -1" and "cc_id d \<noteq> 0" and "cc_erasing d = 0" and "bit (cc_flash d 0x3FFFF) 7"
  shows "\<exists>w'. set_debug_lock pi_cc u pins v w = Some w'
    \<and> attached (cc_id d) (burn 0x3FFFC [0xFF, 0xFF, 0xFF, 0x7F] (cc_flash d)) (w_console w @ [''Setting debug lock bit...'']) w'"
proof -
  obtain w1 w2 where w: "init pi_cc pins v w = (0, w1)" "read_chip_id pi_cc u w1 = (cc_id d, w2)" "serves idle (cc_reset d) (w_console w) w2"
    using connect_ok [OF assms(1,2)] by blast
  have "attached (cc_id d) (cc_flash d) (w_console w) w2" using w(3) assms(4,5) by (rule reset_attached)
  then have "attached (cc_id d) (cc_flash d) (w_console w @ [''Setting debug lock bit...''])
      ((snd (debug_command pi_cc u CMD_WR_CONFIG [0x22] w2))\<lparr>w_console :=
        w_console (snd (debug_command pi_cc u CMD_WR_CONFIG [0x22] w2)) @ [''Setting debug lock bit...'']\<rparr>)" (is "attached _ _ _ ?w3")
    by (intro attached_puts config_ok)
  then obtain w4 where "write_flash_memory_block pi_cc u [0xFF, 0xFF, 0xFF, 0x7F] 0x3FFFC 4 ?w3 = Some w4"
    "attached (cc_id d) (burn 0x3FFFC [0xFF, 0xFF, 0xFF, 0x7F] (cc_flash d)) (w_console w @ [''Setting debug lock bit...'']) w4"
    using write_block_ok [where a = "0x3FFFC" and bs = "[0xFF, 0xFF, 0xFF, 0x7F]" and u = u] by fastforce
  then show ?thesis using w assms(3) by (simp add: set_debug_lock_def split_def Let_def programmer_close_def)
qed

lemma lock_bit_burned: "\<not> bit (burn 0x3FFFC [0xFF, 0xFF, 0xFF, 0x7F] f 0x3FFFF) 7"
proof -
  have "burn 0x3FFFC [0xFF, 0xFF, 0xFF, 0x7F] f 0x3FFFF = f 0x3FFFF AND 0x7F" by (simp add: burn_def)
  moreover have "\<not> bit (0x7F :: byte) 7" by (simp add: bit_numeral_rec)
  ultimately show ?thesis by (simp add: bit_and_iff)
qed

lemma connect_locked:
  assumes "attached i f l w" and "v \<noteq> -1" and "\<not> bit (f 0x3FFFF) 7"
  shows "\<exists>w1 w2 d. init pi_cc pins v w = (0, w1) \<and> read_chip_id pi_cc u w1 = (i, w2) \<and> serves idle d l w2 \<and> cc_locked d \<and> cc_erasing d = 0"
proof -
  obtain d where d: "plugged d w" "chip_ready i f d" "w_console w = l" using attached_plugged [OF assms(1)] by blast
  then show ?thesis using connect_ok [OF d(1) assms(2), of pins u] assms(3) by (fastforce simp: chip_ready_def cc_reset_def)
qed

text \<open>C39 The lock of the debug interface: \<open>set_debug_lock\<close> on a chip that is not locked ends, and after it \<open>check_debug_lock\<close> says that the
  lock is set and \<open>dump_flash\<close> refuses to read the memory and leaves every file as it was.\<close>

theorem debug_lock_protects:
  assumes "plugged d w" and "v \<noteq> -1" and "cc_id d \<noteq> 0" and "cc_erasing d = 0" and "bit (cc_flash d 0x3FFFF) 7"
  shows "\<exists>w1 w2. set_debug_lock pi_cc u pins v w = Some w1
    \<and> w_console (check_debug_lock pi_cc u pins v w1) = w_console w1 @ [''Reading status...'', ''DEBUG LOCK SET'']
    \<and> dump_flash pi_cc u pins v name k w1 = (k, w2) \<and> w_console w2 = w_console w1 @ [''Flash dump not possible. Debug lock set.'']"
proof -
  let ?f = "burn 0x3FFFC [0xFF, 0xFF, 0xFF, 0x7F] (cc_flash d)" and ?l = "w_console w @ [''Setting debug lock bit...'']"
  obtain w1 where s: "set_debug_lock pi_cc u pins v w = Some w1" "attached (cc_id d) ?f ?l w1" using set_debug_lock_ok [OF assms] by blast
  have l: "w_console w1 = ?l" using attached_plugged [OF s(2)] by blast
  obtain w2 w3 d' where c: "init pi_cc pins v w1 = (0, w2)" "read_chip_id pi_cc u w2 = (cc_id d, w3)" "serves idle d' ?l w3" "cc_locked d'" "cc_erasing d' = 0"
    using connect_locked [OF s(2) assms(2) lock_bit_burned] by blast
  obtain w4 where w4: "read_status pi_cc u w3 = (0x26, w4)" "serves idle d' ?l w4" using locked_status_ok [OF c(3-5)] by blast
  have "serves idle d' (?l @ [''Reading status...'']) (w3\<lparr>w_console := w_console w3 @ [''Reading status...'']\<rparr>)" (is "serves _ _ _ ?w3")
    using c(3) by (rule serves_puts)
  from locked_status_ok [OF this c(4,5), of u] obtain w5 where w5: "read_status pi_cc u ?w3 = (0x26, w5)" "serves idle d' (?l @ [''Reading status...'']) w5"
    by blast
  have "check_debug_lock pi_cc u pins v w1 = w5\<lparr>w_console := w_console w5 @ [''DEBUG LOCK SET'']\<rparr>"
    using c(1,2) w5(1) assms(3) by (simp add: check_debug_lock_def STATUS_DEBUG_LOCKED_BM_def programmer_close_def Let_def)
  moreover have "w_console w5 = ?l @ [''Reading status...'']" using serves_plugged [OF w5(2)] by blast
  moreover have "dump_flash pi_cc u pins v name k w1 = (k, w4\<lparr>w_console := w_console w4 @ [''Flash dump not possible. Debug lock set.'']\<rparr>)"
    using c(1,2) w4(1) assms(3) by (simp add: dump_flash_def STATUS_DEBUG_LOCKED_BM_def programmer_close_def Let_def)
  moreover have "w_console w4 = ?l" using serves_plugged [OF w4(2)] by blast
  ultimately show ?thesis using s(1) l by simp
qed

text \<open>A chip on the wires, erased, that is busy for a while after each command.\<close>

definition sample_chip :: cc where
  "sample_chip = \<lparr>cc_mem = (\<lambda>_. 0), cc_flash = (\<lambda>_. 0xFF), cc_arm = 0, cc_busy = 0, cc_erasing = 0, cc_locked = False,
     cc_write_time = 3, cc_erase_time = 5, cc_delay = 2, cc_id = 0x41\<rparr>"

definition sample_wire :: "cc unit_state wire" where
  "sample_wire = \<lparr>w_dup = idle 0 0 sample_chip, w_bits = [], w_drive = False, w_dd = False, w_dc = False, w_reset = False, w_console = []\<rparr>"

lemma sample_plugged: "plugged sample_chip sample_wire" "cc_id sample_chip \<noteq> 0" "cc_erasing sample_chip = 0"
  "bit (cc_flash sample_chip 0x3FFFF) 7"
  by (simp_all add: plugged_def sample_wire_def sample_chip_def idle_def bit_numeral_rec)

theorem debug_lock_protects_witness:
  "\<exists>w1 w2. set_debug_lock pi_cc 0 (27, 22, 17) 0 sample_wire = Some w1
    \<and> w_console (check_debug_lock pi_cc 0 (27, 22, 17) 0 w1) = w_console w1 @ [''Reading status...'', ''DEBUG LOCK SET'']
    \<and> dump_flash pi_cc 0 (27, 22, 17) 0 ''out.bin'' \<lparr>d_file = (\<lambda>_. None), d_open = (\<lambda>_. True), d_bad = (\<lambda>_. None), d_room = 0\<rparr> w1
       = (\<lparr>d_file = (\<lambda>_. None), d_open = (\<lambda>_. True), d_bad = (\<lambda>_. None), d_room = 0\<rparr>, w2)
    \<and> w_console w2 = w_console w1 @ [''Flash dump not possible. Debug lock set.'']"
  by (rule debug_lock_protects [OF sample_plugged(1) _ sample_plugged(2-4)]) simp

subsection \<open>The program\<close>

text \<open>The configuration file of the repository.\<close>

definition pins_cfg :: "byte list" where
  "pins_cfg = map of_char (''DD:27'' @ NL @ ''DC:22'' @ NL @ ''RESET_N:17'' @ NL)"

lemma pins_cfg_text: "map (\<lambda>b. char_of (unat b)) pins_cfg = ''DD:27'' @ NL @ ''DC:22'' @ NL @ ''RESET_N:17'' @ NL"
  by (simp add: pins_cfg_def NL_def char_of_def bit_numeral_rec bit_Suc_0_iff)

lemma config_pins:
  "\<exists>l. config_loop (two_wire M) junk 3 False (''DD:27'' @ NL @ ''DC:22'' @ NL @ ''RESET_N:17'' @ NL) (0, 0, 0) w
     = Some (True, (27, 22, 17), w\<lparr>w_console := w_console w @ l\<rparr>)"
  by (simp add: NL_def TAB_def numeral_3_eq_3 fgets_line_def config_line_def strtok_colon_def atoi_text_def is_decimal_def) (rule exI, rule refl)

lemma puts_lines: "fold (puts_line (two_wire M)) ls w = w\<lparr>w_console := w_console w @ ls\<rparr>"
  by (induction ls arbitrary: w) simp_all

definition configured :: "disk \<Rightarrow> bool" where
  "configured k \<longleftrightarrow> d_open k ''pins.cfg'' \<and> d_file k ''pins.cfg'' = Some pins_cfg \<and> d_bad k ''pins.cfg'' = None"

text \<open>With the configuration of the repository the program runs the option that is selected.\<close>

lemma main_option:
  assumes "configured k"
  shows "\<exists>l. programmer_main (two_wire M) u v junk prio key (prog # opt # args) k w
    = run_option (two_wire M) u v (27, 22, 17) key opt args k (w\<lparr>w_console := w_console w @ l\<rparr>)"
proof -
  have "fopen_read ''pins.cfg'' k = Some \<lparr>st_rest = pins_cfg, st_bad = False, st_eof = False, st_err = False\<rparr>"
    using assms by (simp add: fopen_read_def configured_def)
  moreover define w1 where "w1 = w\<lparr>w_console := w_console w @ banner @ [NL @ TAB @ ''Reading config file...'' @ NL]\<rparr>"
  moreover obtain l where "config_loop (two_wire M) junk 3 False (map (\<lambda>b. char_of (unat b)) pins_cfg) (0, 0, 0) w1
     = Some (True, (27, 22, 17), w1\<lparr>w_console := w_console w1 @ l\<rparr>)"
    unfolding pins_cfg_text using config_pins by blast
  ultimately show ?thesis by (simp add: programmer_main_def puts_lines Let_def w1_def) (rule exI, rule refl)
qed

lemma plugged_console: "plugged d w \<Longrightarrow> plugged d (w\<lparr>w_console := l\<rparr>)"
  by (simp add: plugged_def)

lemma main_flash_firmware:
  assumes "plugged d w" and "v \<noteq> -1" and "cc_id d \<noteq> 0" and "configured k" and "d_open k fw" and "d_file k fw = Some data" and "d_bad k fw = None"
  shows "\<exists>w' l'. programmer_main pi_cc u v junk prio (Some CHR ''Y'') [prog, ''--flash-firmware'', fw] k w = Some (k, w')
    \<and> attached (cc_id d) (flash_of (burned data)) l' w'"
proof -
  obtain l where m: "programmer_main pi_cc u v junk prio (Some CHR ''Y'') [prog, ''--flash-firmware'', fw] k w
      = run_option pi_cc u v (27, 22, 17) (Some CHR ''Y'') ''--flash-firmware'' [fw] k (w\<lparr>w_console := w_console w @ l\<rparr>)"
    using main_option [OF assms(4)] by blast
  let ?w1 = "puts_line pi_cc ''Flashing requested. All data will be lost. Confirm by typing Y:'' (w\<lparr>w_console := w_console w @ l\<rparr>)"
  have "plugged d ?w1" using assms(1) by (simp add: plugged_console)
  from flash_firmware_ok [OF this assms(2,3,5-7), of u "(27, 22, 17)"] show ?thesis
    unfolding m run_option_def by (auto simp: blocks_burned)
qed

lemma main_dump_flash:
  assumes "plugged d w" and "v \<noteq> -1" and "cc_id d \<noteq> 0" and "cc_erasing d = 0" and "bit (cc_flash d 0x3FFFF) 7" and "configured k"
    and "d_open k name" and "262144 \<le> d_room k"
  shows "\<exists>k' w'. programmer_main pi_cc u v junk prio key [prog, ''--dump-flash'', name] k w = Some (k', w')
    \<and> d_file k' = (d_file k)(name \<mapsto> (case d_file k name of None \<Rightarrow> [] | Some old \<Rightarrow> old) @ map (cc_flash d) [0..<262144])"
proof -
  obtain l where m: "programmer_main pi_cc u v junk prio key [prog, ''--dump-flash'', name] k w
      = run_option pi_cc u v (27, 22, 17) key ''--dump-flash'' [name] k (w\<lparr>w_console := w_console w @ l\<rparr>)"
    using main_option [OF assms(6)] by blast
  have "plugged d (w\<lparr>w_console := w_console w @ l\<rparr>)" using assms(1) by (rule plugged_console)
  from dump_flash_ok [OF this assms(2-5,7,8), of u "(27, 22, 17)"] show ?thesis
    unfolding m run_option_def by auto
qed

lemma burned_whole: "length data = 262144 \<Longrightarrow> burned data = data"
  by (simp add: burned_def)

text \<open>C37 The example of the documentation: after flashing a file of 256 KiB, dumping the memory of the chip into a new file gives a
  file with the same contents.  It is assumed that the file does not lock the chip (the top bit of its last byte is set), that
  there is room on the disk, and that the undefined value which \<open>programmer_init\<close> returns is not -1.\<close>

theorem flash_then_dump:
  assumes "plugged d w" and "cc_id d \<noteq> 0" and "v \<noteq> -1" and "v' \<noteq> -1" and "configured k"
    and "d_open k fw" and "d_file k fw = Some data" and "d_bad k fw = None" and "length data = 262144" and "bit (data ! 0x3FFFF) 7"
    and "d_open k out" and "d_file k out = None" and "262144 \<le> d_room k"
  shows "\<exists>w1 k2 w2. programmer_main pi_cc u v junk prio (Some CHR ''Y'') [prog, ''--flash-firmware'', fw] k w = Some (k, w1)
    \<and> programmer_main pi_cc u' v' junk' prio' key [prog, ''--dump-flash'', out] k w1 = Some (k2, w2)
    \<and> d_file k2 = (d_file k)(out \<mapsto> data)"
proof -
  obtain w1 l1 where f: "programmer_main pi_cc u v junk prio (Some CHR ''Y'') [prog, ''--flash-firmware'', fw] k w = Some (k, w1)"
    "attached (cc_id d) (flash_of data) l1 w1"
    using main_flash_firmware [OF assms(1,3,2,5-8)] burned_whole [OF assms(9)] by metis
  obtain d1 where d1: "plugged d1 w1" "chip_ready (cc_id d) (flash_of data) d1" using attached_plugged [OF f(2)] by blast
  have r: "v' \<noteq> -1" "cc_id d1 \<noteq> 0" "cc_erasing d1 = 0" "bit (cc_flash d1 0x3FFFF) 7" "cc_flash d1 = flash_of data"
    using d1(2) assms(2,4,9,10) by (simp_all add: chip_ready_def flash_of_def)
  have "map (flash_of data) [0..<262144] = data"
    using assms(9) by (intro nth_equalityI) (simp_all add: flash_of_def)
  then show ?thesis
    using f(1) main_dump_flash [OF d1(1) r(1-4) assms(5,11,13), of u' junk' prio' key prog] assms(12) r(5) by auto
qed

text \<open>A firmware file of 256 KiB and the configuration file.\<close>

definition sample_disk :: disk where
  "sample_disk = \<lparr>d_file = [''pins.cfg'' \<mapsto> pins_cfg, ''fw.bin'' \<mapsto> replicate 262144 0x81], d_open = (\<lambda>_. True), d_bad = (\<lambda>_. None), d_room = 300000\<rparr>"

theorem flash_then_dump_witness:
  "\<exists>w1 k2 w2. programmer_main pi_cc 0 0 [] 0 (Some CHR ''Y'') [''prog'', ''--flash-firmware'', ''fw.bin''] sample_disk sample_wire = Some (sample_disk, w1)
    \<and> programmer_main pi_cc 0 0 [] 0 None [''prog'', ''--dump-flash'', ''out.bin''] sample_disk w1 = Some (k2, w2)
    \<and> d_file k2 = (d_file sample_disk)(''out.bin'' \<mapsto> replicate 262144 0x81)"
proof (rule flash_then_dump [OF sample_plugged(1,2)])
  show "configured sample_disk" by (simp add: configured_def sample_disk_def)
  show "bit ((replicate 262144 0x81 :: byte list) ! 0x3FFFF) 7" by (simp add: bit_numeral_rec)
qed (simp_all add: sample_disk_def)

text \<open>C38 What the chip holds after flashing a file of any length that can be read: the file up to 256 KiB.  When a shorter file ends
  inside a block of 512 bytes, the rest of that block is what the buffer held of the block before, and when it ends with a
  block, that block is written a second time behind it; the memory behind that is erased.\<close>

theorem flash_firmware_contents:
  assumes "plugged d w" and "cc_id d \<noteq> 0" and "v \<noteq> -1" and "configured k"
    and "d_open k fw" and "d_file k fw = Some data" and "d_bad k fw = None"
  shows "\<exists>w'. programmer_main pi_cc u v junk prio (Some CHR ''Y'') [prog, ''--flash-firmware'', fw] k w = Some (k, w')
    \<and> cc_flash (du_dev (w_dup w')) = flash_of
        (if 262144 \<le> length data then take 262144 data
         else if length data < 512 then data @ drop (length data) (replicate 512 0)
         else data @ drop (length data mod 512) (take 512 (drop (512 * (length data div 512 - 1)) data)))"
proof -
  obtain w1 l1 where f: "programmer_main pi_cc u v junk prio (Some CHR ''Y'') [prog, ''--flash-firmware'', fw] k w = Some (k, w1)"
    "attached (cc_id d) (flash_of (burned data)) l1 w1"
    using main_flash_firmware [OF assms(1,3,2,4-7)] by blast
  then have "cc_flash (du_dev (w_dup w1)) = flash_of (burned data)" using attached_plugged [OF f(2)] by (auto simp: plugged_def chip_ready_def)
  then show ?thesis using f(1) by (simp add: burned_def Let_def)
qed

theorem flash_firmware_contents_witness:
  "\<exists>w'. programmer_main pi_cc 0 0 [] 0 (Some CHR ''Y'') [''prog'', ''--flash-firmware'', ''fw.bin'']
       (sample_disk\<lparr>d_file := [''pins.cfg'' \<mapsto> pins_cfg, ''fw.bin'' \<mapsto> replicate 512 7]\<rparr>) sample_wire
     = Some (sample_disk\<lparr>d_file := [''pins.cfg'' \<mapsto> pins_cfg, ''fw.bin'' \<mapsto> replicate 512 7]\<rparr>, w')
    \<and> cc_flash (du_dev (w_dup w')) 1023 = 7 \<and> cc_flash (du_dev (w_dup w')) 1024 = 0xFF"
proof -
  let ?k = "sample_disk\<lparr>d_file := [''pins.cfg'' \<mapsto> pins_cfg, ''fw.bin'' \<mapsto> replicate 512 7]\<rparr>"
  have "configured ?k" "d_open ?k ''fw.bin''" "d_file ?k ''fw.bin'' = Some (replicate 512 7)" "d_bad ?k ''fw.bin'' = None"
    by (simp_all add: configured_def sample_disk_def)
  then show ?thesis
    using flash_firmware_contents [OF sample_plugged(1,2), of 0 ?k "''fw.bin''" "replicate 512 7" 0 "[]" 0 "''prog''"]
    by (auto simp: flash_of_def nth_append)
qed

end
