(* ===== verification/Uart_Session.thy ===== *)
theory Uart_Session
  imports Uart "HOL-Library.Sublist"
begin

text \<open>
  Sessions of the UART driver (\<open>sw/sys-libs/drivers/uart0.c\<close>, \<open>interrupts.c\<close>): any interleaving of bytes that arrive on the line,
  interrupts, calls of the program that read and write, and other stores of the program.

  The receiver stores a byte at the position that its register counts, up to 255 bytes, and starts again when the register is set.
\<close>

section \<open>Steps\<close>

record uart_session =
  ses_uart :: uart
  ses_typed :: "byte list"
  ses_got :: "byte list"
  ses_written :: "byte list"
  ses_lost :: bool

definition rx_pos :: "uart \<Rightarrow> uint" where
  "rx_pos u = u_get_rx u AND 0xff"

text \<open>The bytes in the receive buffer that the driver has not seen yet.\<close>

definition pending :: "uart \<Rightarrow> byte list" where
  "pending u = bytes_at (u_mem u) (0x200 + u_rx_lastpos u) (unat (rx_pos u) - unat (u_rx_lastpos u))"

definition driver_area :: "addr set" where
  "driver_area = region 0x100 0x200 \<union> region 0x1000 0x2000"

inductive uart_step :: "uart_session \<Rightarrow> uart_session \<Rightarrow> bool" where
  arrives: "rx_pos u < 255 \<Longrightarrow> ses_uart s = u \<Longrightarrow>
    uart_step s (s\<lparr>ses_uart := u\<lparr>u_mem := (u_mem u)(0x200 + rx_pos u := b), u_get_rx := u_get_rx u + 1\<rparr>, ses_typed := ses_typed s @ [b]\<rparr>)"
| tick: "ses_uart s = u \<Longrightarrow> handle_interrupt 1 u = Some u' \<Longrightarrow>
    uart_step s (s\<lparr>ses_uart := u', ses_lost := (ses_lost s \<or> room (u_rx_cp u) < length (pending u))\<rparr>)"
| tx_done: "ses_uart s = u \<Longrightarrow> u_tx_active u = 1 \<Longrightarrow> handle_interrupt 2 u = Some u' \<Longrightarrow> uart_step s (s\<lparr>ses_uart := u'\<rparr>)"
| rx_full: "ses_uart s = u \<Longrightarrow> rx_pos u = 255 \<Longrightarrow> handle_interrupt 3 u = Some u' \<Longrightarrow>
    uart_step s (s\<lparr>ses_uart := u'\<lparr>u_get_rx := u_set_rx u' AND 0xFFFFFF00\<rparr>, ses_lost := (ses_lost s \<or> room (u_rx_cp u) < length (pending u))\<rparr>)"
| writes: "ses_uart s = u \<Longrightarrow> region buf (unat len) \<inter> driver_area = {} \<Longrightarrow>
    uart0_stream_write (u_tx_cp u, u_mem u) buf len [] = Some (n, (cp, m), ivs) \<Longrightarrow>
    uart_step s (s\<lparr>ses_uart := u\<lparr>u_tx_cp := cp, u_mem := m\<rparr>, ses_written := ses_written s @ bytes_at (u_mem u) buf (unat len)\<rparr>)"
| reads: "ses_uart s = u \<Longrightarrow> region buf (unat len) \<inter> driver_area = {} \<Longrightarrow>
    uart0_stream_read (u_rx_cp u, u_mem u) buf len [] = Some (n, (cp, m), ivs) \<Longrightarrow>
    uart_step s (s\<lparr>ses_uart := u\<lparr>u_rx_cp := cp, u_mem := m\<rparr>, ses_got := ses_got s @ bytes_at m buf (unat len)\<rparr>)"
| stores: "ses_uart s = u \<Longrightarrow> (\<And>a. a \<in> driver_area \<Longrightarrow> m a = u_mem u a) \<Longrightarrow> uart_step s (s\<lparr>ses_uart := u\<lparr>u_mem := m\<rparr>\<rparr>)"

definition ses_start :: "uart \<Rightarrow> uart_session" where
  "ses_start u = \<lparr>ses_uart = uart0_start_engine u, ses_typed = [], ses_got = [], ses_written = u_sent u, ses_lost = False\<rparr>"

text \<open>Well-formed rings, all that was written sent or in the ring, and all that was typed read, in the ring or in the buffer, unless
  the ring was full.\<close>

definition received :: "uart_session \<Rightarrow> byte list" where
  "received s = ses_got s @ content (u_rx_cp (ses_uart s)) (u_mem (ses_uart s)) @ pending (ses_uart s)"

definition ses_ok :: "uart_session \<Rightarrow> bool" where
  "ses_ok s \<longleftrightarrow> uart_ok (ses_uart s) \<and> engine_on (ses_uart s) \<and> u_rx_lastpos (ses_uart s) \<le> rx_pos (ses_uart s)
     \<and> tx_stream (ses_uart s) = ses_written s \<and> subseq (received s) (ses_typed s) \<and> (\<not> ses_lost s \<longrightarrow> received s = ses_typed s)"

section \<open>Memory of the driver\<close>

lemma rx_pos_bound: "unat (rx_pos u) \<le> 255"
proof -
  have "(0xff :: uint) = mask 8" by (simp add: mask_eq_exp_minus_1)
  then have "rx_pos u = take_bit 8 (u_get_rx u)" by (simp only: rx_pos_def take_bit_eq_mask)
  then have "unat (rx_pos u) < 2 ^ 8" using take_bit_nat_less_exp [of 8 "unat (u_get_rx u)"] by (simp only: unsigned_take_bit_eq)
  then show ?thesis by simp
qed

lemma length_pending [simp]: "length (pending u) = unat (rx_pos u) - unat (u_rx_lastpos u)"
  by (simp add: pending_def)

lemma pending_area:
  assumes "u_rx_lastpos u \<le> rx_pos u"
  shows "region (0x200 + u_rx_lastpos u) (unat (rx_pos u) - unat (u_rx_lastpos u)) \<subseteq> region 0x200 255"
proof -
  have "unat (u_rx_lastpos u) + (unat (rx_pos u) - unat (u_rx_lastpos u)) \<le> 255" using assms rx_pos_bound [of u] by (simp add: word_le_nat_alt)
  from region_shift [OF this, of "0x200"] show ?thesis by simp
qed

lemma areas:
  "region 0x200 255 \<subseteq> driver_area" "region 0x1000 0x1000 \<subseteq> driver_area" "region 0x2000 0x1000 \<subseteq> driver_area"
  "region 0x100 255 \<inter> region 0x200 255 = {}" "region 0x100 255 \<inter> region 0x1000 0x1000 = {}"
  "region 0x1000 0x1000 \<inter> region 0x200 255 = {}" "region 0x2000 0x1000 \<inter> region 0x200 255 = {}" "region 0x1000 0x1000 \<inter> region 0x2000 0x1000 = {}"
proof -
  have "region (0x100 + of_nat 0x100) 255 \<subseteq> region 0x100 0x200" by (rule region_shift) simp
  then show "region 0x200 255 \<subseteq> driver_area" by (auto simp: driver_area_def)
  show "region 0x1000 0x1000 \<subseteq> driver_area" "region 0x2000 0x1000 \<subseteq> driver_area" using uart_areas(1,2) by (auto simp: driver_area_def)
qed (rule region_disjoint; simp)+

text \<open>Everything the session speaks of depends only on the memory of the driver.\<close>

lemma rx_view:
  assumes "uart_ok u" and "u_rx_lastpos u \<le> rx_pos u" and "\<And>a. a \<in> region 0x200 255 \<Longrightarrow> m a = u_mem u a" and "\<And>a. a \<in> region 0x1000 0x1000 \<Longrightarrow> m a = u_mem u a"
  shows "content (u_rx_cp u) m = content (u_rx_cp u) (u_mem u)" "pending (u\<lparr>u_mem := m\<rparr>) = pending u"
proof -
  show "content (u_rx_cp u) m = content (u_rx_cp u) (u_mem u)"
    using assms(1,4) uart_rings(2) [OF assms(1)] by (intro content_cong) (simp_all add: uart_ok_def)
  show "pending (u\<lparr>u_mem := m\<rparr>) = pending u"
    unfolding pending_def using pending_area [OF assms(2)] assms(3) by (auto simp: rx_pos_def intro!: bytes_at_cong)
qed

lemma tx_view:
  assumes "uart_ok u" and "\<And>a. a \<in> region 0x2000 0x1000 \<Longrightarrow> m a = u_mem u a"
  shows "content (u_tx_cp u) m = content (u_tx_cp u) (u_mem u)"
  using assms uart_rings(1) [OF assms(1)] by (intro content_cong) (simp_all add: uart_ok_def)

lemma process_tx_keeps: "process_tx_data i u = Some u' \<Longrightarrow> u_rx_lastpos u' = u_rx_lastpos u \<and> u_get_rx u' = u_get_rx u \<and> u_set_rx u' = u_set_rx u"
  by (auto simp: process_tx_data_def start_tx_def Let_def split: if_splits bind_splits)

lemma process_rx_keeps: "process_rx_data i u = Some u' \<Longrightarrow> u_get_rx u' = u_get_rx u \<and> u_flags u' = u_flags u \<and> u_tx_active u' = u_tx_active u"
  by (auto simp: process_rx_data_def Let_def split: if_splits bind_splits)

section \<open>The interrupt handlers\<close>

lemma pending_cong: "u_rx_lastpos u' = u_rx_lastpos u \<Longrightarrow> u_get_rx u' = u_get_rx u \<Longrightarrow> pending u' = pending (u\<lparr>u_mem := u_mem u'\<rparr>)"
  by (simp add: pending_def rx_pos_def)

lemma frame_apart:
  assumes "uart_ok u" and "a \<in> driver_area"
  shows "a \<notin> region (u_frame u) 255"
  using assms by (auto simp: uart_ok_def driver_area_def)

lemma tx_part:
  assumes "process_tx_data i u = Some u'" and "uart_ok u" and "engine_on u" and "u_rx_lastpos u \<le> rx_pos u"
  shows "uart_ok u' \<and> engine_on u' \<and> tx_stream u' = tx_stream u \<and> content (u_rx_cp u') (u_mem u') = content (u_rx_cp u) (u_mem u)
    \<and> pending u' = pending u \<and> u_rx_lastpos u' = u_rx_lastpos u \<and> rx_pos u' = rx_pos u"
proof (cases "i \<noteq> 0 \<or> u_tx_active u = 0")
  case True
  obtain u1 where u1: "process_tx_data i u = Some u1" "uart_ok u1" "content (u_tx_cp u1) (u_mem u1) = drop 255 (content (u_tx_cp u) (u_mem u))"
    "u_sent u1 = u_sent u @ (if engine_on u then take 255 (content (u_tx_cp u) (u_mem u)) else [])" "u_rx_cp u1 = u_rx_cp u" "u_flags u1 = u_flags u"
    "\<forall>a. a \<notin> region (u_frame u) 255 \<union> region 0x100 255 \<longrightarrow> u_mem u1 a = u_mem u a"
    using process_tx_ok [OF assms(2) True] by blast
  have eq: "u' = u1" using assms(1) u1(1) by simp
  have keep: "u_rx_lastpos u' = u_rx_lastpos u" "u_get_rx u' = u_get_rx u" using process_tx_keeps [OF assms(1)] by simp_all
  have m: "u_mem u' a = u_mem u a" if "a \<in> region 0x200 255 \<or> a \<in> region 0x1000 0x1000" for a
    using u1(7) eq frame_apart [OF assms(2), of a] that areas by blast
  then have "content (u_rx_cp u) (u_mem u') = content (u_rx_cp u) (u_mem u)" "pending (u\<lparr>u_mem := u_mem u'\<rparr>) = pending u"
    using rx_view [OF assms(2,4), of "u_mem u'"] by blast+
  then show ?thesis using u1 eq keep assms(3) pending_cong [OF keep] by (simp add: tx_stream_def engine_on_def rx_pos_def)
next
  case False
  then have "u' = u" using assms(1) by (simp add: process_tx_data_def)
  then show ?thesis using assms by simp
qed

lemma rx_part:
  assumes "process_rx_data i u = Some u'" and "uart_ok u" and "engine_on u" and "u_rx_lastpos u \<le> rx_pos u"
  shows "uart_ok u' \<and> engine_on u' \<and> tx_stream u' = tx_stream u
    \<and> content (u_rx_cp u') (u_mem u') = content (u_rx_cp u) (u_mem u) @ take (room (u_rx_cp u)) (pending u)
    \<and> u_rx_lastpos u' = (if i = 1 then 0 else rx_pos u) \<and> rx_pos u' = rx_pos u"
proof (cases "u_rx_lastpos u < rx_pos u")
  case True
  obtain u1 where "process_rx_data i u = Some u1" "uart_ok u1"
    "content (u_rx_cp u1) (u_mem u1) = content (u_rx_cp u) (u_mem u) @ take (room (u_rx_cp u)) (pending u)"
    "content (u_tx_cp u1) (u_mem u1) = content (u_tx_cp u) (u_mem u)" "u_rx_lastpos u1 = (if i = 1 \<and> engine_on u then 0 else rx_pos u)" "u_sent u1 = u_sent u"
    using process_rx_ok [OF assms(2) True [unfolded rx_pos_def], of i] unfolding pending_def rx_pos_def by blast
  then show ?thesis using assms(1,3) process_rx_keeps [OF assms(1)] by (simp add: tx_stream_def engine_on_def rx_pos_def)
next
  case False
  then have eq: "u_rx_lastpos u = rx_pos u" using assms(4) by simp
  then have "pending u = []" by (simp add: pending_def)
  moreover have "u' = (if i = 1 then u\<lparr>u_rx_lastpos := 0, u_set_rx := UART0_RX_DRVBUF_START OR 255\<rparr> else u)"
    using assms(1,3) eq by (auto simp: process_rx_data_def rx_pos_def)
  ultimately show ?thesis using assms eq by (auto simp: tx_stream_def engine_on_def rx_pos_def uart_ok_def)
qed

lemma pending_seen: "u_rx_lastpos u = rx_pos u \<Longrightarrow> pending u = []"
  by (simp add: pending_def)

lemma subseq_shorter: "subseq (xs @ ys @ zs) ts \<Longrightarrow> subseq (xs @ ys @ take n zs) ts"
  by (erule subseq_order.trans [rotated]) (simp add: list_emb_append_mono take_is_prefix prefix_imp_subseq)

lemma tick_part:
  assumes "handle_interrupt 1 u = Some u'" and "uart_ok u" and "engine_on u" and "u_rx_lastpos u \<le> rx_pos u"
  shows "uart_ok u' \<and> engine_on u' \<and> tx_stream u' = tx_stream u \<and> u_rx_lastpos u' \<le> rx_pos u' \<and> pending u' = []
    \<and> content (u_rx_cp u') (u_mem u') = content (u_rx_cp u) (u_mem u) @ take (room (u_rx_cp u)) (pending u)"
proof -
  obtain u1 u2 where h: "process_rx_data 0 u = Some u1" "process_tx_data 0 u1 = Some u2"
    "u' = u2\<lparr>u_timer := (if engine_on u2 then UART_ENGINE_TIMER_TICKS OR 0xf else 0)\<rparr>"
    using assms(1) by (auto simp: handle_interrupt_def split: bind_splits)
  note r = rx_part [OF h(1) assms(2-4)]
  then have "u_rx_lastpos u1 \<le> rx_pos u1" by simp
  then have t: "uart_ok u2 \<and> engine_on u2 \<and> tx_stream u2 = tx_stream u1 \<and> content (u_rx_cp u2) (u_mem u2) = content (u_rx_cp u1) (u_mem u1)
      \<and> pending u2 = pending u1 \<and> u_rx_lastpos u2 = u_rx_lastpos u1 \<and> rx_pos u2 = rx_pos u1"
    using tx_part [OF h(2)] r by blast
  show ?thesis using r t h(3) by (simp add: uart_ok_def engine_on_def tx_stream_def rx_pos_def pending_def)
qed

lemma tick_ok:
  assumes "ses_ok s" and "ses_uart s = u" and "handle_interrupt 1 u = Some u'"
  shows "ses_ok (s\<lparr>ses_uart := u', ses_lost := (ses_lost s \<or> room (u_rx_cp u) < length (pending u))\<rparr>)"
  using assms tick_part [OF assms(3)] by (auto simp: ses_ok_def received_def subseq_shorter)

lemma full_ok:
  assumes "ses_ok s" and "ses_uart s = u" and "handle_interrupt 3 u = Some u'"
  shows "ses_ok (s\<lparr>ses_uart := u'\<lparr>u_get_rx := u_set_rx u' AND 0xFFFFFF00\<rparr>, ses_lost := (ses_lost s \<or> room (u_rx_cp u) < length (pending u))\<rparr>)"
proof -
  let ?u = "u'\<lparr>u_get_rx := u_set_rx u' AND 0xFFFFFF00\<rparr>"
  have u: "uart_ok u" "engine_on u" "u_rx_lastpos u \<le> rx_pos u" using assms(1,2) by (auto simp: ses_ok_def)
  have "process_rx_data 1 u = Some u'" using assms(3) by (simp add: handle_interrupt_def)
  note r = rx_part [OF this u]
  have "rx_pos ?u = 0" by (simp add: rx_pos_def and.assoc)
  then have "u_rx_lastpos ?u = rx_pos ?u" "pending ?u = []" using r pending_seen [of ?u] by simp_all
  moreover have "uart_ok ?u" "engine_on ?u" "tx_stream ?u = tx_stream u"
    "content (u_rx_cp ?u) (u_mem ?u) = content (u_rx_cp u) (u_mem u) @ take (room (u_rx_cp u)) (pending u)"
    using r by (simp_all add: uart_ok_def engine_on_def tx_stream_def)
  ultimately show ?thesis using assms(1,2) by (auto simp: ses_ok_def received_def subseq_shorter)
qed

section \<open>The calls of the program\<close>

text \<open>A call that does not have to wait is one that asks not to.\<close>

lemma consume_now:
  assumes "consprod_consume cp m buf len 1 [] = Some (n, (cp', m'), ivs)"
  shows "consprod_consume cp m buf len 0 [] = Some (len, (cp', m'), [])"
proof -
  obtain cp1 m1 buf1 x where l: "consume_loop cp m buf len (prod cp) (cp_ptr_next cp (cons cp)) = (cp1, m1, buf1, x)" by (metis prod_cases4)
  have "spin prod (prod cp) [] (cp1, m1) = None" using consume_loop_keeps [OF l] by (simp add: spin.simps)
  then show ?thesis using assms l by (subst consprod_consume.simps, subst (asm) consprod_consume.simps) (auto simp: Let_def split: if_splits)
qed

lemma produce_now:
  assumes "consprod_produce cp m buf len 1 [] = Some (n, (cp', m'), ivs)"
  shows "consprod_produce cp m buf len 0 [] = Some (len, (cp', m'), [])"
proof -
  obtain cp1 m1 buf1 x where l: "produce_loop cp m buf len (cp_ptr_next cp (prod cp)) (cons cp) = (cp1, m1, buf1, x)" by (metis prod_cases4)
  have "spin cons (cons cp) [] (cp1, m1) = None" using produce_loop_keeps [OF l] by (simp add: spin.simps)
  then show ?thesis using assms l by (subst consprod_produce.simps, subst (asm) consprod_produce.simps) (auto simp: Let_def split: if_splits)
qed

lemma of_nat_min_eq: "of_nat (min (unat len) n) = len \<Longrightarrow> unat len \<le> n" for len :: uint
proof (rule ccontr)
  assume eq: "of_nat (min (unat len) n) = len" and "\<not> unat len \<le> n"
  then have "min (unat len) n = n" "n < unat len" by simp_all
  moreover have "unat (of_nat n :: uint) = n" using calculation(2) unat32_less [of len] by (simp add: unat_of_nat)
  ultimately show False using eq by simp
qed

lemma writes_ok:
  assumes "ses_ok s" and "ses_uart s = u" and "region buf (unat len) \<inter> driver_area = {}"
    and "uart0_stream_write (u_tx_cp u, u_mem u) buf len [] = Some (n, (cp, m), ivs)"
  shows "ses_ok (s\<lparr>ses_uart := u\<lparr>u_tx_cp := cp, u_mem := m\<rparr>, ses_written := ses_written s @ bytes_at (u_mem u) buf (unat len)\<rparr>)"
proof -
  have u: "uart_ok u" "u_rx_lastpos u \<le> rx_pos u" using assms(1,2) by (auto simp: ses_ok_def)
  have inv: "cp_inv (u_tx_cp u)" using u(1) by (simp add: uart_ok_def)
  have out: "\<not> in_ring (u_tx_cp u) a" if "a \<in> region buf (unat len)" for a
    using that assms(3) uart_rings(1) [OF u(1)] areas(3) by blast
  have "consprod_produce (u_tx_cp u) (u_mem u) buf len 0 [] = Some (len, (cp, m), [])"
    using assms(4) by (auto simp: uart0_stream_write_def intro: produce_now)
  with produce_nowait_ok [where m = "u_mem u" and ivs = "[]" and buf = buf and len = len, OF inv out] have p: "of_nat (min (unat len) (room (u_tx_cp u))) = len" "cp_inv cp" "same_ring (u_tx_cp u) cp"
    "content cp m = content (u_tx_cp u) (u_mem u) @ take (room (u_tx_cp u)) (bytes_at (u_mem u) buf (unat len))"
    "\<forall>a. \<not> in_ring (u_tx_cp u) a \<longrightarrow> m a = u_mem u a" by auto
  let ?u = "u\<lparr>u_tx_cp := cp, u_mem := m\<rparr>"
  have "content cp m = content (u_tx_cp u) (u_mem u) @ bytes_at (u_mem u) buf (unat len)" using p(4) of_nat_min_eq [OF p(1)] by simp
  moreover have "m a = u_mem u a" if "a \<in> region 0x200 255 \<or> a \<in> region 0x1000 0x1000" for a
    using that p(5) uart_rings(1) [OF u(1), of a] areas by blast
  then have "content (u_rx_cp u) m = content (u_rx_cp u) (u_mem u)" "pending (u\<lparr>u_mem := m\<rparr>) = pending u" using rx_view [OF u] by blast+
  moreover have "pending ?u = pending (u\<lparr>u_mem := m\<rparr>)" by (simp add: pending_def rx_pos_def)
  moreover have "uart_ok ?u" using u(1) p(2,3) by (simp add: uart_ok_def same_ring_def)
  ultimately show ?thesis using assms(1,2) by (auto simp: ses_ok_def received_def tx_stream_def engine_on_def rx_pos_def)
qed

lemma reads_ok:
  assumes "ses_ok s" and "ses_uart s = u" and "region buf (unat len) \<inter> driver_area = {}"
    and "uart0_stream_read (u_rx_cp u, u_mem u) buf len [] = Some (n, (cp, m), ivs)"
  shows "ses_ok (s\<lparr>ses_uart := u\<lparr>u_rx_cp := cp, u_mem := m\<rparr>, ses_got := ses_got s @ bytes_at m buf (unat len)\<rparr>)"
proof -
  have u: "uart_ok u" "u_rx_lastpos u \<le> rx_pos u" using assms(1,2) by (auto simp: ses_ok_def)
  have inv: "cp_inv (u_rx_cp u)" using u(1) by (simp add: uart_ok_def)
  have out: "\<not> in_ring (u_rx_cp u) a" if "a \<in> region buf (unat len)" for a
    using that assms(3) uart_rings(2) [OF u(1)] areas(2) by blast
  define xs where "xs = take (unat len) (content (u_rx_cp u) (u_mem u))"
  have "consprod_consume (u_rx_cp u) (u_mem u) buf len 0 [] = Some (len, (cp, m), [])"
    using assms(4) by (auto simp: uart0_stream_read_def intro: consume_now)
  with consume_nowait_ok [where ivs = "[]" and buf = buf and len = len, OF inv out xs_def] have c: "of_nat (length xs) = len" "m = store_bytes (u_mem u) buf xs" "cp_inv cp" "same_ring (u_rx_cp u) cp"
    "content cp m = drop (unat len) (content (u_rx_cp u) (u_mem u))" by auto
  have len: "length xs = unat len"
  proof -
    have "of_nat (min (unat len) (length (content (u_rx_cp u) (u_mem u)))) = len" using c(1) by (simp add: xs_def min.commute)
    then show ?thesis using of_nat_min_eq by (simp add: xs_def)
  qed
  have got: "bytes_at m buf (unat len) @ content cp m = content (u_rx_cp u) (u_mem u)"
    using bytes_at_store [of xs "u_mem u" buf] len unat32_less [of len] c(2,5) by (simp add: xs_def)
  let ?u = "u\<lparr>u_rx_cp := cp, u_mem := m\<rparr>"
  have m: "m a = u_mem u a" if "a \<in> driver_area" for a using that assms(3) c(2) len store_bytes_other [of a buf xs "u_mem u"] by auto
  have "pending ?u = pending (u\<lparr>u_mem := m\<rparr>)" by (simp add: pending_def rx_pos_def)
  also have "\<dots> = pending u" using rx_view(2) [OF u, of m] m areas(1,2) by blast
  finally have "pending ?u = pending u" .
  moreover have "content (u_tx_cp u) m = content (u_tx_cp u) (u_mem u)" using tx_view [OF u(1), of m] m areas(3) by blast
  moreover have "uart_ok ?u" using u(1) c(3,4) by (simp add: uart_ok_def same_ring_def)
  moreover have "received (s\<lparr>ses_uart := ?u, ses_got := ses_got s @ bytes_at m buf (unat len)\<rparr>)
      = ses_got s @ (bytes_at m buf (unat len) @ content cp m) @ pending u" using \<open>pending ?u = pending u\<close> by (simp add: received_def)
  then have "received (s\<lparr>ses_uart := ?u, ses_got := ses_got s @ bytes_at m buf (unat len)\<rparr>) = received s"
    unfolding got using assms(2) by (simp add: received_def)
  ultimately show ?thesis using assms(1,2) by (auto simp: ses_ok_def tx_stream_def engine_on_def rx_pos_def)
qed

lemma stores_ok:
  assumes "ses_ok s" and "ses_uart s = u" and "\<And>a. a \<in> driver_area \<Longrightarrow> m a = u_mem u a"
  shows "ses_ok (s\<lparr>ses_uart := u\<lparr>u_mem := m\<rparr>\<rparr>)"
proof -
  have u: "uart_ok u" "u_rx_lastpos u \<le> rx_pos u" using assms(1,2) by (auto simp: ses_ok_def)
  have "content (u_rx_cp u) m = content (u_rx_cp u) (u_mem u)" "pending (u\<lparr>u_mem := m\<rparr>) = pending u"
    "content (u_tx_cp u) m = content (u_tx_cp u) (u_mem u)"
    using rx_view [OF u, of m] tx_view [OF u(1), of m] assms(3) areas(1-3) by blast+
  then show ?thesis using assms(1,2) by (auto simp: ses_ok_def received_def tx_stream_def engine_on_def rx_pos_def uart_ok_def)
qed

lemma rx_pos_next:
  assumes "rx_pos u < 255"
  shows "unat ((u_get_rx u + 1) AND 0xff) = Suc (unat (rx_pos u))"
proof -
  have m: "unat (g AND 0xff) = unat g mod 256" for g :: uint
  proof -
    have "(0xff :: uint) = mask 8" by (simp add: mask_eq_exp_minus_1)
    then have "unat (g AND 0xff) = take_bit 8 (unat g)" by (simp only: take_bit_eq_mask [symmetric] unsigned_take_bit_eq)
    then show ?thesis by (simp add: take_bit_eq_mod)
  qed
  have "unat (u_get_rx u) mod 256 < 255" using assms m by (simp add: rx_pos_def word_less_nat_alt)
  moreover have "unat (u_get_rx u + 1) mod 256 = (unat (u_get_rx u) + 1) mod 256" by (simp add: unat_word_ariths mod_mod_cancel)
  ultimately show ?thesis unfolding rx_pos_def m by (simp add: mod_Suc)
qed

lemma arrives_ok:
  assumes "ses_ok s" and "ses_uart s = u" and "rx_pos u < 255"
  shows "ses_ok (s\<lparr>ses_uart := u\<lparr>u_mem := (u_mem u)(0x200 + rx_pos u := b), u_get_rx := u_get_rx u + 1\<rparr>, ses_typed := ses_typed s @ [b]\<rparr>)"
proof -
  have u: "uart_ok u" "u_rx_lastpos u \<le> rx_pos u" using assms(1,2) by (auto simp: ses_ok_def)
  let ?m = "(u_mem u)(0x200 + rx_pos u := b)" and ?last = "u_rx_lastpos u"
  let ?u = "u\<lparr>u_mem := ?m, u_get_rx := u_get_rx u + 1\<rparr>"
  have pos: "unat (rx_pos u) < 255" using assms(3) by (simp add: word_less_nat_alt)
  have here: "0x200 + rx_pos u \<in> region 0x200 255" using in_regionI [OF pos, of "0x200"] by simp
  have nx: "unat (rx_pos ?u) = Suc (unat (rx_pos u))" using rx_pos_next [OF assms(3)] by (simp add: rx_pos_def)
  have le: "unat ?last \<le> unat (rx_pos u)" using u(2) by (simp add: word_le_nat_alt)
  have "content (u_rx_cp u) ?m = content (u_rx_cp u) (u_mem u)" "content (u_tx_cp u) ?m = content (u_tx_cp u) (u_mem u)"
    using here uart_rings [OF u(1)] areas(6,7) u(1) by (auto intro!: content_store_outside simp: uart_ok_def)
  moreover have "pending ?u = pending u @ [b]"
  proof -
    let ?k = "unat (rx_pos u) - unat ?last"
    have at: "0x200 + ?last + of_nat ?k = 0x200 + rx_pos u" using le by (simp add: of_nat_diff)
    have "bytes_at ?m (0x200 + ?last) (?k + 1) = bytes_at ?m (0x200 + ?last) ?k @ [b]"
      unfolding bytes_at_append at by simp
    also have "bytes_at ?m (0x200 + ?last) ?k = bytes_at (u_mem u) (0x200 + ?last) ?k"
      using offset_notin_region [of ?k "0x200 + ?last"] pos at by (intro bytes_at_upd_other) simp
    also have "?k + 1 = unat (rx_pos ?u) - unat ?last" using nx le by simp
    finally show ?thesis unfolding pending_def by (simp add: fun_upd_def)
  qed
  moreover have "uart_ok ?u" "engine_on ?u" using assms(1,2) by (simp_all add: ses_ok_def uart_ok_def engine_on_def)
  moreover have "?last \<le> rx_pos ?u" using nx le by (simp add: word_le_nat_alt)
  ultimately show ?thesis using assms(1,2)
    by (auto simp: ses_ok_def received_def tx_stream_def simp flip: append_assoc intro: list_emb_append_mono)
qed

lemma sent_ok:
  assumes "ses_ok s" and "ses_uart s = u" and "handle_interrupt 2 u = Some u'"
  shows "ses_ok (s\<lparr>ses_uart := u'\<rparr>)"
  using assms tx_part [of 1 u u'] by (auto simp: ses_ok_def received_def handle_interrupt_def)

lemma uart_step_ok: "uart_step s s' \<Longrightarrow> ses_ok s \<Longrightarrow> ses_ok s'"
  by (induction rule: uart_step.induct) (blast intro: arrives_ok tick_ok sent_ok full_ok writes_ok reads_ok stores_ok)+

lemma ses_start_ok:
  assumes "region (u_frame u) 255 \<inter> driver_area = {}" and "u_get_rx u AND 0xff = 0"
  shows "ses_ok (ses_start u)"
proof -
  have fr: "region (u_frame u) 255 \<inter> (region 0x100 0x200 \<union> region 0x1000 0x2000) = {}" using assms(1) by (simp add: driver_area_def)
  let ?u = "uart0_start_engine u"
  have "content (u_rx_cp ?u) m = []" for m using consprod_init_ok [of "0x2000" "0x1000"] by (simp add: uart0_start_engine_def uart_consts)
  moreover have "u_rx_lastpos ?u = 0" "u_get_rx ?u = u_get_rx u" by (simp_all add: uart0_start_engine_def)
  ultimately show ?thesis
    using uart_start_ok [OF fr] assms(2) by (simp add: ses_ok_def ses_start_def received_def tx_stream_def pending_def rx_pos_def uart0_start_engine_def)
qed

lemma reachable_ok: "uart_step\<^sup>*\<^sup>* s0 s \<Longrightarrow> ses_ok s0 \<Longrightarrow> ses_ok s"
  by (induction rule: rtranclp_induct) (auto intro: uart_step_ok)

section \<open>Properties\<close>

lemma handlers_return:
  assumes "uart_ok u" and "engine_on u" and "u_rx_lastpos u \<le> rx_pos u"
  shows "\<exists>u'. handle_interrupt i u = Some u'"
proof -
  have rx: "\<exists>u'. process_rx_data j u = Some u'" for j
    using process_rx_ok [OF assms(1), of j] by (cases "u_rx_lastpos u < u_get_rx u AND 0xff") (auto simp: process_rx_data_def)
  have tx: "\<exists>u''. process_tx_data j u' = Some u''" if "uart_ok u'" for u' j
    using process_tx_ok [OF that, of j] by (cases "j \<noteq> 0 \<or> u_tx_active u' = 0") (auto simp: process_tx_data_def)
  obtain u1 where u1: "process_rx_data 0 u = Some u1" using rx by blast
  then have "uart_ok u1" using rx_part [OF u1 assms] by blast
  then show ?thesis using u1 rx [of 1] tx [of u1 0] tx [OF assms(1), of 1] by (auto simp: handle_interrupt_def)
qed


text \<open>A byte that arrives.\<close>

definition arrive :: "byte \<Rightarrow> uart_session \<Rightarrow> uart_session" where
  "arrive b s = s\<lparr>ses_uart := (ses_uart s)\<lparr>u_mem := (u_mem (ses_uart s))(0x200 + rx_pos (ses_uart s) := b), u_get_rx := u_get_rx (ses_uart s) + 1\<rparr>,
     ses_typed := ses_typed s @ [b]\<rparr>"

lemma arrive_step: "rx_pos (ses_uart s) < 255 \<Longrightarrow> uart_step s (arrive b s)"
  unfolding arrive_def by (rule uart_step.arrives) simp_all

lemma arrive_simps [simp]:
  "ses_typed (arrive b s) = ses_typed s @ [b]" "ses_got (arrive b s) = ses_got s" "ses_written (arrive b s) = ses_written s" "ses_lost (arrive b s) = ses_lost s"
  "rx_pos (ses_uart (arrive b s)) = (u_get_rx (ses_uart s) + 1) AND 0xff" "u_get_rx (ses_uart (arrive b s)) = u_get_rx (ses_uart s) + 1"
  "u_rx_cp (ses_uart (arrive b s)) = u_rx_cp (ses_uart s)" "u_rx_lastpos (ses_uart (arrive b s)) = u_rx_lastpos (ses_uart s)"
  by (simp_all add: arrive_def rx_pos_def)

lemma reset_frame: "region (u_frame uart_reset) 255 \<inter> driver_area = {}"
proof -
  have "region (u_frame uart_reset) 255 \<inter> region 0x100 0x200 = {}" "region (u_frame uart_reset) 255 \<inter> region 0x1000 0x2000 = {}"
    by (rule region_disjoint; simp add: uart_reset_def)+
  then show ?thesis by (auto simp: driver_area_def)
qed

lemma reset_session:
  "ses_typed (ses_start uart_reset) = []" "ses_got (ses_start uart_reset) = []" "ses_written (ses_start uart_reset) = []" "\<not> ses_lost (ses_start uart_reset)"
  "rx_pos (ses_uart (ses_start uart_reset)) = 0" "u_get_rx (ses_uart (ses_start uart_reset)) = 0" "u_get_rx uart_reset AND 0xff = 0"
  "u_rx_lastpos (ses_uart (ses_start uart_reset)) = 0" "room (u_rx_cp (ses_uart (ses_start uart_reset))) = 4094"
  using consprod_init_ok [of "0x2000" "0x1000"] by (simp_all add: ses_start_def uart0_start_engine_def uart_reset_def rx_pos_def uart_consts)


end
