(* ===== verification/Echo.thy ===== *)
theory Echo
  imports Uart_Session Printf
begin

text \<open>
  The kernels that echo what is typed: \<open>sw/kernels/scratch/scratch.c\<close>, with \<open>fgets\<close> and \<open>fputs\<close>, and \<open>sw/kernels/scheme/scheme.c\<close>, with
  single characters from the driver and \<open>printf\<close>.  They compose the streams, the formatter and the driver with both of its rings.

  A turn of a kernel is a function of the state of the driver.  It is None when it has to wait: its reads need bytes that have
  not arrived, or its writes need room.  What arrives in between are the steps of \<open>Uart_Session\<close>.
\<close>

section \<open>Definitions\<close>

text \<open>The file behind \<open>stdin\<close> and \<open>stdout\<close>, with both rings.\<close>

definition uart_fm :: "addr \<Rightarrow> uart FILE" where
  "uart_fm stack =
     \<lparr>f_write = Some (\<lambda>buf len u. case uart0_blocking_write_multiple (u_tx_cp u, u_mem u) buf len 0 [] of None \<Rightarrow> None
        | Some (n, (cp, m), _) \<Rightarrow> Some (n, u\<lparr>u_tx_cp := cp, u_mem := m\<rparr>)),
      f_read = Some (\<lambda>buf len u. case uart0_blocking_read_multiple (u_rx_cp u, u_mem u) buf len 0 [] of None \<Rightarrow> None
        | Some (n, (cp, m), _) \<Rightarrow> Some (n, u\<lparr>u_rx_cp := cp, u_mem := m\<rparr>)),
      f_mem = u_mem, f_set = (\<lambda>m u. u\<lparr>u_mem := m\<rparr>), f_slot = stack\<rparr>"

text \<open>\<open>scratch.c\<close>: the body of the loop, with the 128 bytes at \<open>buf\<close>.\<close>

definition scratch_turn :: "addr \<Rightarrow> addr \<Rightarrow> uart \<Rightarrow> uart option" where
  "scratch_turn stack buf u = do {
     (_, u) \<leftarrow> fgets (uart_fm stack) buf 128 u;
     (_, u) \<leftarrow> fputs (uart_fm stack) buf u;
     Some u }"

text \<open>\<open>scheme.c\<close>.  The index is compared as an unsigned number.\<close>

function read_loop :: "addr \<Rightarrow> uint \<Rightarrow> uint \<Rightarrow> uart \<Rightarrow> (uint \<times> uart) option" where
  "read_loop buf i n u =
     (if i < n then
        case uart0_stream_read (u_rx_cp u, u_mem u) (buf + i) 1 [] of None \<Rightarrow> None
        | Some (_, (cp, m), _) \<Rightarrow>
            let u = u\<lparr>u_rx_cp := cp, u_mem := m\<rparr> in
            if m (buf + i) = ch (CHR 0x0A) then Some (i, u) else read_loop buf (i + 1) n u
      else Some (i, u))"
  by pat_completeness auto
termination
  by (relation "measure (\<lambda>(buf, i, n, u). unat (n - i))") (auto simp: diff_diff_eq [symmetric] intro!: unat_pred_less)

declare read_loop.simps [simp del]

definition read_string :: "addr \<Rightarrow> uint \<Rightarrow> uart \<Rightarrow> (uint \<times> uart) option" where
  "read_string buf buf_len u = do {
     (i, u) \<leftarrow> read_loop buf 0 (buf_len - 1) u;
     Some (i, u\<lparr>u_mem := (u_mem u)(buf + i := 0)\<rparr>) }"

definition LINE_MAX :: uint where "LINE_MAX = 128"

definition scheme_turn :: "addr \<Rightarrow> param \<Rightarrow> addr \<Rightarrow> addr \<Rightarrow> uart \<Rightarrow> uart option" where
  "scheme_turn stack p fmt buf u = do {
     (_, u) \<leftarrow> read_string buf LINE_MAX u;
     (_, u) \<leftarrow> fprintf (uart_fm stack) p fmt [buf] u;
     Some u }"

section \<open>Reading\<close>

lemma consume_at_once:
  assumes "cp_inv cp" and "\<And>a. a \<in> region buf (unat len) \<Longrightarrow> \<not> in_ring cp a" and "content cp m = xs @ ys" and "length xs = unat len"
  shows "\<exists>cp'. consprod_consume cp m buf len 1 [] = Some (len, (cp', store_bytes m buf xs), []) \<and> cp_inv cp' \<and> same_ring cp cp'
    \<and> content cp' (store_bytes m buf xs) = ys"
proof -
  have xs: "xs = take (unat len) (content cp m)" "of_nat (length xs) = len" using assms(3,4) by simp_all
  obtain cp' where c: "consprod_consume cp m buf len 0 [] = Some (len, (cp', store_bytes m buf xs), [])" "cp_inv cp'" "same_ring cp cp'"
    "content cp' (store_bytes m buf xs) = ys"
    using consume_nowait_ok [where buf = buf and len = len and ivs = "[]", OF assms(1,2) xs(1)] assms(3,4) xs(2) by auto
  obtain cp1 m1 buf1 x where l: "consume_loop cp m buf len (prod cp) (cp_ptr_next cp (cons cp)) = (cp1, m1, buf1, x)" by (metis prod_cases4)
  have "x = 0" using c(1) l by (subst (asm) consprod_consume.simps) (auto simp: Let_def word_gt_0 split: if_splits)
  then have "consprod_consume cp m buf len 1 [] = Some (len, (cp', store_bytes m buf xs), [])"
    using c(1) l by (subst consprod_consume.simps, subst (asm) consprod_consume.simps) (auto simp: Let_def)
  then show ?thesis using c by blast
qed

lemma stream_read_1:
  assumes "uart_ok u" and "a \<notin> driver_area" and "content (u_rx_cp u) (u_mem u) = c # rest"
  shows "\<exists>cp. uart0_stream_read (u_rx_cp u, u_mem u) a 1 [] = Some (1, (cp, (u_mem u)(a := c)), [])
    \<and> uart_ok (u\<lparr>u_rx_cp := cp, u_mem := (u_mem u)(a := c)\<rparr>) \<and> content cp ((u_mem u)(a := c)) = rest"
proof -
  have inv: "cp_inv (u_rx_cp u)" using assms(1) by (simp add: uart_ok_def)
  have out: "\<not> in_ring (u_rx_cp u) b" if "b \<in> region a (unat (1 :: uint))" for b
    using that assms(2) uart_rings(2) [OF assms(1)] areas(2) by (auto simp: region_def)
  obtain cp where "consprod_consume (u_rx_cp u) (u_mem u) a 1 1 [] = Some (1, (cp, store_bytes (u_mem u) a [c]), [])" "cp_inv cp"
    "same_ring (u_rx_cp u) cp" "content cp (store_bytes (u_mem u) a [c]) = rest"
    using consume_at_once [where buf = a and len = 1 and xs = "[c]" and ys = rest, OF inv out] assms(3) by auto
  then show ?thesis using assms(1) by (auto simp: uart0_stream_read_def uart_ok_def same_ring_def)
qed

lemma fgetc_ok:
  assumes "uart_ok u" and "stack \<notin> driver_area" and "content (u_rx_cp u) (u_mem u) = c # rest"
  shows "\<exists>cp. fgetc (uart_fm stack) u = Some (uint c, u\<lparr>u_rx_cp := cp, u_mem := (u_mem u)(stack := c)\<rparr>)
    \<and> uart_ok (u\<lparr>u_rx_cp := cp, u_mem := (u_mem u)(stack := c)\<rparr>) \<and> content cp ((u_mem u)(stack := c)) = rest"
proof -
  obtain cp where r: "uart0_stream_read (u_rx_cp u, u_mem u) stack 1 [] = Some (1, (cp, (u_mem u)(stack := c)), [])"
    "uart_ok (u\<lparr>u_rx_cp := cp, u_mem := (u_mem u)(stack := c)\<rparr>)" "content cp ((u_mem u)(stack := c)) = rest"
    using stream_read_1 [OF assms] by blast
  have "min255 1 = 1" by (simp add: min255_def word_le_nat_alt)
  then have "uart0_blocking_read_multiple (u_rx_cp u, u_mem u) stack 1 0 [] = Some (1, (cp, (u_mem u)(stack := c)), [])"
    using r(1) uart0_blocking_read_multiple.simps [where r = 0] uart0_blocking_read_multiple.simps [where r = 1] by (simp add: Let_def)
  then show ?thesis using r(2,3) by (auto simp: fgetc_def fread_def uart_fm_def)
qed

text \<open>What one call of \<open>fgets\<close> with room for \<open>n\<close> characters takes: up to a newline, or \<open>n\<close> characters.\<close>

definition chunk :: "nat \<Rightarrow> byte list \<Rightarrow> bool" where
  "chunk n xs \<longleftrightarrow> xs \<noteq> [] \<and> length xs \<le> n \<and> 10 \<notin> set (butlast xs) \<and> (last xs = 10 \<or> length xs = n) \<and> 0 \<notin> set xs"

lemma chunk_Cons: "chunk (Suc n) (c # xs) \<Longrightarrow> xs \<noteq> [] \<Longrightarrow> c \<noteq> 10 \<and> chunk n xs"
  by (auto simp: chunk_def)

lemma fgets_loop_ok:
  assumes "uart_ok u" and "stack \<notin> driver_area" and "content (u_rx_cp u) (u_mem u) = xs @ rest" and "chunk n xs" and "n < 2 ^ 31"
    and "region p (length xs) \<inter> insert stack driver_area = {}"
  shows "\<exists>cp m. fgets_loop (uart_fm stack) p (int n + 1) u = Some (False, p + of_nat (length xs), int n + 1 - int (length xs), u\<lparr>u_rx_cp := cp, u_mem := m\<rparr>)
    \<and> uart_ok (u\<lparr>u_rx_cp := cp, u_mem := m\<rparr>) \<and> content cp m = rest
    \<and> bytes_at m p (length xs) = xs \<and> (\<forall>a. a \<notin> insert stack (region p (length xs)) \<longrightarrow> m a = u_mem u a)"
  using assms(1,3-6)
proof (induction xs arbitrary: n p u)
  case Nil
  then show ?case by (simp add: chunk_def)
next
  case (Cons c xs)
  obtain cp where g: "fgetc (uart_fm stack) u = Some (uint c, u\<lparr>u_rx_cp := cp, u_mem := (u_mem u)(stack := c)\<rparr>)"
    "uart_ok (u\<lparr>u_rx_cp := cp, u_mem := (u_mem u)(stack := c)\<rparr>)" "content cp ((u_mem u)(stack := c)) = xs @ rest"
    using fgetc_ok [OF Cons.prems(1) assms(2), of c "xs @ rest"] Cons.prems(2) by auto
  let ?u1 = "u\<lparr>u_rx_cp := cp, u_mem := (u_mem u)(stack := c)\<rparr>"
  obtain k where n: "n = Suc k" using Cons.prems(3) by (cases n) (auto simp: chunk_def)
  have p: "p \<noteq> stack" "p \<notin> driver_area" "region (p + 1) (length xs) \<inter> insert stack driver_area = {}"
    using Cons.prems(5) by (auto simp: region_Suc)
  define m2 where "m2 = (u_mem u)(stack := c, p := c)"
  let ?u2 = "?u1\<lparr>u_mem := m2\<rparr>"
  have m2: "m2 p = c" "a \<noteq> p \<Longrightarrow> a \<noteq> stack \<Longrightarrow> m2 a = u_mem u a" for a by (simp_all add: m2_def)
  have ok2: "uart_ok ?u2" using g(2) by (simp add: uart_ok_def)
  have cont: "content cp m2 = xs @ rest" unfolding m2_def
    using g(2,3) p(2) uart_rings(2) [OF g(2)] areas(2) content_store_outside [of cp p "(u_mem u)(stack := c)" c] by (auto simp: uart_ok_def)
  have len: "int n + 1 > 1" "uint c \<noteq> EOF" unfolding EOF_def using n uint_ge_0 [of c] by linarith+
  have nl: "uint c = chi (CHR 0x0A) \<longleftrightarrow> c = 10" by (simp add: word_uint_eq_iff)
  have step: "fgets_loop (uart_fm stack) p (int n + 1) u
      = (if c = 10 then Some (False, p + 1, int n, ?u2) else fgets_loop (uart_fm stack) (p + 1) (int n) ?u2)"
    using g(1) len nl by (subst fgets_loop.simps) (simp add: put_mem_def uart_fm_def m2_def)
  show ?case
  proof (cases "xs = []")
    case True
    have "c = 10 \<or> n = 1" using Cons.prems(3) True by (auto simp: chunk_def)
    then have "fgets_loop (uart_fm stack) p (int n + 1) u = Some (False, p + 1, int n, ?u2)"
      unfolding step by (auto simp: fgets_loop.simps [of _ "p + 1" 1])
    then show ?thesis using True ok2 cont m2 by (intro exI [of _ cp] exI [of _ m2]) (auto simp: region_Suc region_0)
  next
    case False
    have ch: "c \<noteq> 10" "chunk k xs" using chunk_Cons [of k c xs] Cons.prems(3) False n by simp_all
    have "\<exists>cp' m. fgets_loop (uart_fm stack) (p + 1) (int k + 1) ?u2
        = Some (False, p + 1 + of_nat (length xs), int k + 1 - int (length xs), ?u2\<lparr>u_rx_cp := cp', u_mem := m\<rparr>)
      \<and> uart_ok (?u2\<lparr>u_rx_cp := cp', u_mem := m\<rparr>) \<and> content cp' m = rest
      \<and> bytes_at m (p + 1) (length xs) = xs \<and> (\<forall>a. a \<notin> insert stack (region (p + 1) (length xs)) \<longrightarrow> m a = u_mem ?u2 a)"
      using ok2 cont ch(2) p(3) Cons.prems(4) n by (intro Cons.IH) simp_all
    moreover have "int k + 1 = int n" using n by simp
    ultimately obtain cp' m where r: "fgets_loop (uart_fm stack) (p + 1) (int n) ?u2
        = Some (False, p + 1 + of_nat (length xs), int n - int (length xs), ?u2\<lparr>u_rx_cp := cp', u_mem := m\<rparr>)"
      "uart_ok (?u2\<lparr>u_rx_cp := cp', u_mem := m\<rparr>)" "content cp' m = rest" "bytes_at m (p + 1) (length xs) = xs"
      "\<forall>a. a \<notin> insert stack (region (p + 1) (length xs)) \<longrightarrow> m a = m2 a" by auto
    have "length xs < 2 ^ 32" using Cons.prems(3,4) by (simp add: chunk_def)
    then have "p \<notin> region (p + 1) (length xs)" by (rule head_notin_tail_region)
    then have "m p = c" using r(5) p(1) m2(1) by simp
    then show ?thesis using r ch(1) step m2(2) by (intro exI [of _ cp'] exI [of _ m]) (auto simp: region_Suc)
  qed
qed

section \<open>Writing\<close>

lemma stream_write_at_once:
  assumes "uart_ok u" and "region buf (unat len) \<inter> driver_area = {}" and "unat len \<le> room (u_tx_cp u)"
  shows "\<exists>cp m. uart0_stream_write (u_tx_cp u, u_mem u) buf len [] = Some (len, (cp, m), []) \<and> uart_ok (u\<lparr>u_tx_cp := cp, u_mem := m\<rparr>)
    \<and> content cp m = content (u_tx_cp u) (u_mem u) @ bytes_at (u_mem u) buf (unat len) \<and> room cp = room (u_tx_cp u) - unat len
    \<and> (\<forall>a. a \<notin> region 0x2000 0x1000 \<longrightarrow> m a = u_mem u a)"
proof -
  let ?cp = "u_tx_cp u" and ?m = "u_mem u"
  have inv: "cp_inv ?cp" using assms(1) by (simp add: uart_ok_def)
  have out: "\<not> in_ring ?cp a" if "a \<in> region buf (unat len)" for a using that assms(2) uart_rings(1) [OF assms(1)] areas(3) by blast
  obtain cp m where c: "produce_loop ?cp ?m buf len (cp_ptr_next ?cp (prod ?cp)) (cons ?cp) = (cp, m, buf + of_nat (unat len), len - of_nat (unat len))"
    "cp_inv cp" "same_ring ?cp cp" "room cp = room ?cp - unat len" "content cp m = content ?cp ?m @ take (room ?cp) (bytes_at ?m buf (unat len))"
    "\<forall>a. \<not> in_ring ?cp a \<longrightarrow> m a = ?m a"
    using produce_loop_ok [where buf = buf and len = len and m = ?m and j = "unat len", OF inv out] assms(3) by auto
  have "consprod_produce ?cp ?m buf len 1 [] = Some (len, (cp, m), [])" using c(1) by (subst consprod_produce.simps) (simp add: Let_def)
  moreover have "uart_ok (u\<lparr>u_tx_cp := cp, u_mem := m\<rparr>)" using assms(1) c(2,3) by (simp add: uart_ok_def same_ring_def)
  moreover have "\<forall>a. a \<notin> region 0x2000 0x1000 \<longrightarrow> m a = ?m a" using c(6) uart_rings(1) [OF assms(1)] by blast
  ultimately show ?thesis using c(4,5) assms(3) by (auto simp: uart0_stream_write_def)
qed

lemma fwrite_at_once:
  assumes "uart_ok u" and "region buf (unat len) \<inter> driver_area = {}" and "unat len \<le> room (u_tx_cp u)" and "unat len \<le> 255"
  shows "\<exists>cp m. fwrite (uart_fm stack) buf 1 len u = Some (len, u\<lparr>u_tx_cp := cp, u_mem := m\<rparr>) \<and> uart_ok (u\<lparr>u_tx_cp := cp, u_mem := m\<rparr>)
    \<and> content cp m = content (u_tx_cp u) (u_mem u) @ bytes_at (u_mem u) buf (unat len) \<and> room cp = room (u_tx_cp u) - unat len
    \<and> (\<forall>a. a \<notin> region 0x2000 0x1000 \<longrightarrow> m a = u_mem u a)"
proof -
  obtain cp m where c: "uart0_stream_write (u_tx_cp u, u_mem u) buf len [] = Some (len, (cp, m), [])" "uart_ok (u\<lparr>u_tx_cp := cp, u_mem := m\<rparr>)"
    "content cp m = content (u_tx_cp u) (u_mem u) @ bytes_at (u_mem u) buf (unat len)" "room cp = room (u_tx_cp u) - unat len"
    "\<forall>a. a \<notin> region 0x2000 0x1000 \<longrightarrow> m a = u_mem u a"
    using stream_write_at_once [OF assms(1-3)] by blast
  have "content (u_tx_cp u) (u_mem u) = content cp m \<and> cp = u_tx_cp u \<and> m = u_mem u" if "len = 0"
  proof -
    have "consprod_produce (u_tx_cp u) (u_mem u) buf 0 1 [] = Some (0, (u_tx_cp u, u_mem u), [])"
      by (subst consprod_produce.simps) (simp add: Let_def produce_loop.simps)
    then show ?thesis using c(1) that by (simp add: uart0_stream_write_def)
  qed
  moreover have "min255 len = len" using assms(4) by (auto simp: min255_def word_le_nat_alt word_unat_eq_iff)
  ultimately have "uart0_blocking_write_multiple (u_tx_cp u, u_mem u) buf len 0 [] = Some (len, (cp, m), [])"
    using c(1) uart0_blocking_write_multiple.simps [where w = 0 and len = len] uart0_blocking_write_multiple.simps [where w = len and len = len]
    by (cases "len = 0") (simp_all add: Let_def word_gt_0)
  then have "fwrite (uart_fm stack) buf 1 len u = Some (len, u\<lparr>u_tx_cp := cp, u_mem := m\<rparr>)" by (simp add: fwrite_def uart_fm_def)
  then show ?thesis using c by blast
qed

section \<open>The scratch kernel\<close>

lemma rx_after_tx:
  assumes "uart_ok u" and "\<forall>a. a \<notin> region 0x2000 0x1000 \<longrightarrow> m a = u_mem u a"
  shows "content (u_rx_cp u) m = content (u_rx_cp u) (u_mem u)"
  using assms uart_rings(2) [OF assms(1)] areas(8) by (intro content_cong) (auto simp: uart_ok_def)

lemma scratch_turn_ok:
  assumes "uart_ok u" and "stack \<notin> driver_area" and "region buf 128 \<inter> insert stack driver_area = {}"
    and "content (u_rx_cp u) (u_mem u) = xs @ rest" and "chunk 127 xs" and "length xs \<le> room (u_tx_cp u)"
  shows "\<exists>u'. scratch_turn stack buf u = Some u' \<and> uart_ok u' \<and> content (u_rx_cp u') (u_mem u') = rest
    \<and> content (u_tx_cp u') (u_mem u') = content (u_tx_cp u) (u_mem u) @ xs \<and> room (u_tx_cp u') = room (u_tx_cp u) - length xs
    \<and> u_sent u' = u_sent u"
proof -
  have len: "length xs \<le> 127" "0 \<notin> set xs" using assms(5) by (simp_all add: chunk_def)
  then have sub: "region buf (length xs) \<subseteq> region buf 128" by (intro region_mono) simp
  then have d: "region buf (length xs) \<inter> insert stack driver_area = {}" using assms(3) by blast
  obtain cp m where g: "fgets_loop (uart_fm stack) buf 128 u = Some (False, buf + of_nat (length xs), 128 - int (length xs), u\<lparr>u_rx_cp := cp, u_mem := m\<rparr>)"
    "uart_ok (u\<lparr>u_rx_cp := cp, u_mem := m\<rparr>)" "content cp m = rest" "bytes_at m buf (length xs) = xs"
    "\<forall>a. a \<notin> insert stack (region buf (length xs)) \<longrightarrow> m a = u_mem u a"
    using fgets_loop_ok [OF assms(1,2,4,5) _ d] by auto
  let ?e = "buf + of_nat (length xs)"
  define m1 where "m1 = m(?e := 0)"
  let ?u1 = "u\<lparr>u_rx_cp := cp, u_mem := m1\<rparr>"
  have e: "?e \<in> region buf 128" "?e \<notin> region buf (length xs)" using len(1) offset_notin_region [of "length xs" buf] by (simp_all add: in_regionI)
  have fg: "fgets (uart_fm stack) buf 128 u = Some (buf, ?u1)" using g(1) len(1) by (simp add: fgets_def put_mem_def uart_fm_def m1_def)
  have ok1: "uart_ok ?u1" using g(2) by (simp add: uart_ok_def)
  have rx1: "content cp m1 = rest" unfolding m1_def
    using g(2,3) e(1) assms(3) uart_rings(2) [OF g(2)] areas(2) content_store_outside [of cp ?e m 0] by (auto simp: uart_ok_def)
  have "m1 a = u_mem u a" if "a \<in> region 0x2000 0x1000" for a
  proof -
    have "a \<in> driver_area" using that areas(3) by blast
    then have "a \<notin> insert stack (region buf (length xs))" "a \<noteq> ?e" using d assms(2,3) e(1) by blast+
    then show ?thesis using g(5) by (simp add: m1_def)
  qed
  then have tx1: "content (u_tx_cp u) m1 = content (u_tx_cp u) (u_mem u)" by (rule tx_view [OF assms(1)])
  have b1: "bytes_at m1 buf (length xs) = xs" unfolding m1_def using g(4) e(2) bytes_at_upd_other by simp
  have "cstr m1 buf xs" unfolding cstr_iff using b1 len(2) by (simp add: m1_def)
  then have sl: "strlen m1 buf = Some (of_nat (length xs))" by (rule strlen_ok)
  have n: "unat (of_nat (length xs) :: uint) = length xs" using len(1) by (simp add: unat_of_nat)
  obtain cp2 m2 where w: "fwrite (uart_fm stack) buf 1 (of_nat (length xs)) ?u1 = Some (of_nat (length xs), ?u1\<lparr>u_tx_cp := cp2, u_mem := m2\<rparr>)"
    "uart_ok (?u1\<lparr>u_tx_cp := cp2, u_mem := m2\<rparr>)" "content cp2 m2 = content (u_tx_cp u) m1 @ bytes_at m1 buf (length xs)" "room cp2 = room (u_tx_cp u) - length xs"
    "\<forall>a. a \<notin> region 0x2000 0x1000 \<longrightarrow> m2 a = m1 a"
    using fwrite_at_once [OF ok1, of buf "of_nat (length xs)" stack] n len(1) sub assms(3,6) by fastforce
  have "content cp m2 = rest" using rx_after_tx [OF ok1, of m2] w(5) rx1 by simp
  moreover have "scratch_turn stack buf u = Some (?u1\<lparr>u_tx_cp := cp2, u_mem := m2\<rparr>)"
    using fg sl w(1) by (simp add: scratch_turn_def fputs_def uart_fm_def)
  ultimately show ?thesis using w(2-4) tx1 b1 by auto
qed

text \<open>The first turns of the loop.\<close>

primrec scratch_loop :: "addr \<Rightarrow> addr \<Rightarrow> nat \<Rightarrow> uart \<Rightarrow> uart option" where
  "scratch_loop stack buf 0 u = Some u"
| "scratch_loop stack buf (Suc n) u = do { u \<leftarrow> scratch_turn stack buf u; scratch_loop stack buf n u }"

lemma scratch_loop_ok:
  assumes "uart_ok u" and "stack \<notin> driver_area" and "region buf 128 \<inter> insert stack driver_area = {}"
    and "content (u_rx_cp u) (u_mem u) = concat xss @ rest" and "\<forall>xs \<in> set xss. chunk 127 xs" and "length (concat xss) \<le> room (u_tx_cp u)"
  shows "\<exists>u'. scratch_loop stack buf (length xss) u = Some u' \<and> uart_ok u' \<and> content (u_rx_cp u') (u_mem u') = rest
    \<and> content (u_tx_cp u') (u_mem u') = content (u_tx_cp u) (u_mem u) @ concat xss \<and> u_sent u' = u_sent u"
  using assms(1,4-6)
proof (induction xss arbitrary: u)
  case (Cons xs xss)
  obtain u1 where u1: "scratch_turn stack buf u = Some u1" "uart_ok u1" "content (u_rx_cp u1) (u_mem u1) = concat xss @ rest"
    "content (u_tx_cp u1) (u_mem u1) = content (u_tx_cp u) (u_mem u) @ xs" "room (u_tx_cp u1) = room (u_tx_cp u) - length xs" "u_sent u1 = u_sent u"
    using scratch_turn_ok [OF Cons.prems(1) assms(2,3), of xs "concat xss @ rest"] Cons.prems(2-4) by auto
  then show ?case using Cons.IH [OF u1(2,3)] Cons.prems(3,4) by auto
qed simp

section \<open>The Scheme kernel\<close>

text \<open>What \<open>read_string\<close> takes with room for \<open>n\<close> characters: a line and its newline, or \<open>n\<close> characters.\<close>

lemma read_loop_ok:
  assumes "uart_ok u" and "content (u_rx_cp u) (u_mem u) = xs @ ys" and "10 \<notin> set xs" and "i + length xs \<le> n" and "n < 2 ^ 32"
    and "i + length xs < n \<Longrightarrow> ys = 10 # rest" and "i + length xs = n \<Longrightarrow> ys = rest" and "region buf (Suc n) \<inter> driver_area = {}"
  shows "\<exists>cp m. read_loop buf (of_nat i) (of_nat n) u = Some (of_nat (i + length xs), u\<lparr>u_rx_cp := cp, u_mem := m\<rparr>)
    \<and> uart_ok (u\<lparr>u_rx_cp := cp, u_mem := m\<rparr>) \<and> content cp m = rest
    \<and> bytes_at m (buf + of_nat i) (length xs) = xs \<and> (\<forall>a. a \<notin> region (buf + of_nat i) (Suc (length xs)) \<longrightarrow> m a = u_mem u a)"
  using assms(1-4,6,7)
proof (induction xs arbitrary: i u)
  case Nil
  show ?case
  proof (cases "i < n")
    case True
    have a: "buf + of_nat i \<notin> driver_area" using True assms(8) in_regionI [of i "Suc n" buf] by auto
    obtain cp where "uart0_stream_read (u_rx_cp u, u_mem u) (buf + of_nat i) 1 [] = Some (1, (cp, (u_mem u)(buf + of_nat i := 10)), [])"
      "uart_ok (u\<lparr>u_rx_cp := cp, u_mem := (u_mem u)(buf + of_nat i := 10)\<rparr>)" "content cp ((u_mem u)(buf + of_nat i := 10)) = rest"
      using stream_read_1 [OF Nil.prems(1) a, of 10 rest] Nil.prems(2,5) True by auto
    moreover have "(of_nat i :: uint) < of_nat n" using True assms(5) by (simp add: word_less_nat_alt unat_of_nat)
    ultimately show ?thesis
      by (intro exI [of _ cp] exI [of _ "(u_mem u)(buf + of_nat i := 10)"]) (subst read_loop.simps, simp add: region_Suc region_0)
  next
    case False
    then have "i = n" using Nil.prems(4) by simp
    then show ?thesis using Nil.prems(1,2,6) by (subst read_loop.simps) (auto intro!: exI [of _ "u_rx_cp u"] exI [of _ "u_mem u"])
  qed
next
  case (Cons c xs)
  have i: "i < n" using Cons.prems(4) by simp
  have a: "buf + of_nat i \<notin> driver_area" using i assms(8) in_regionI [of i "Suc n" buf] by auto
  define m1 where "m1 = (u_mem u)(buf + of_nat i := c)"
  obtain cp where r: "uart0_stream_read (u_rx_cp u, u_mem u) (buf + of_nat i) 1 [] = Some (1, (cp, m1), [])"
    "uart_ok (u\<lparr>u_rx_cp := cp, u_mem := m1\<rparr>)" "content cp m1 = xs @ ys"
    using stream_read_1 [OF Cons.prems(1) a, of c "xs @ ys"] Cons.prems(2) by (auto simp: m1_def)
  let ?u = "u\<lparr>u_rx_cp := cp, u_mem := m1\<rparr>"
  have lt: "(of_nat i :: uint) < of_nat n" using i assms(5) by (simp add: word_less_nat_alt unat_of_nat)
  have "c \<noteq> 10" using Cons.prems(3) by auto
  then have step: "read_loop buf (of_nat i) (of_nat n) u = read_loop buf (of_nat (Suc i)) (of_nat n) ?u"
    using r(1) lt by (subst read_loop.simps) (simp add: m1_def add.commute)
  have "\<exists>cp' m. read_loop buf (of_nat (Suc i)) (of_nat n) ?u = Some (of_nat (Suc i + length xs), ?u\<lparr>u_rx_cp := cp', u_mem := m\<rparr>)
    \<and> uart_ok (?u\<lparr>u_rx_cp := cp', u_mem := m\<rparr>) \<and> content cp' m = rest
    \<and> bytes_at m (buf + of_nat (Suc i)) (length xs) = xs \<and> (\<forall>a. a \<notin> region (buf + of_nat (Suc i)) (Suc (length xs)) \<longrightarrow> m a = u_mem ?u a)"
    using r(2,3) Cons.prems by (intro Cons.IH) simp_all
  then obtain cp' m where q0: "read_loop buf (of_nat (Suc i)) (of_nat n) ?u = Some (of_nat (Suc i + length xs), ?u\<lparr>u_rx_cp := cp', u_mem := m\<rparr>)"
    "uart_ok (?u\<lparr>u_rx_cp := cp', u_mem := m\<rparr>)" "content cp' m = rest" "bytes_at m (buf + of_nat (Suc i)) (length xs) = xs"
    "\<forall>a. a \<notin> region (buf + of_nat (Suc i)) (Suc (length xs)) \<longrightarrow> m a = u_mem ?u a" by (elim exE conjE) (rule that)
  have nx: "buf + of_nat (Suc i) = buf + of_nat i + 1" by (simp add: add.assoc add.commute)
  have q: "read_loop buf (of_nat (Suc i)) (of_nat n) ?u = Some (of_nat (Suc i + length xs), u\<lparr>u_rx_cp := cp', u_mem := m\<rparr>)"
    "uart_ok (u\<lparr>u_rx_cp := cp', u_mem := m\<rparr>)" "bytes_at m (buf + of_nat i + 1) (length xs) = xs"
    "\<forall>a. a \<notin> region (buf + of_nat i + 1) (Suc (length xs)) \<longrightarrow> m a = m1 a"
    using q0 unfolding nx by simp_all
  have "Suc (length xs) < 2 ^ 32" using Cons.prems(4) assms(5) by simp
  then have "buf + of_nat i \<notin> region (buf + of_nat i + 1) (Suc (length xs))" by (rule head_notin_tail_region)
  then have "m (buf + of_nat i) = c" using q(4) by (simp add: m1_def)
  then show ?case using q q0(3) step by (intro exI [of _ cp'] exI [of _ m]) (auto simp: region_Suc m1_def)
qed

text \<open>Formatted output into the transmit ring, with the receive ring left alone.\<close>

definition out_sink :: "addr \<Rightarrow> byte list \<Rightarrow> byte list \<Rightarrow> nat \<Rightarrow> byte list \<Rightarrow> uart \<Rightarrow> bool" where
  "out_sink stack c0 r0 n xs u \<longleftrightarrow> uart_ok u \<and> stack \<notin> driver_area \<and> content (u_tx_cp u) (u_mem u) = c0 @ xs
     \<and> n \<le> length xs + room (u_tx_cp u) \<and> content (u_rx_cp u) (u_mem u) = r0"

lemma uart_fm_put:
  assumes "out_sink stack c0 r0 n xs u" and "length xs < n"
  shows "\<exists>u'. fputc (uart_fm stack) c u = Some (uint c, u') \<and> out_sink stack c0 r0 n (xs @ [c]) u'
    \<and> (\<forall>a. a \<notin> insert stack (region 0x2000 0x1000) \<longrightarrow> u_mem u' a = u_mem u a)"
proof -
  have u: "uart_ok u" "stack \<notin> driver_area" "content (u_tx_cp u) (u_mem u) = c0 @ xs" "n \<le> length xs + room (u_tx_cp u)"
    "content (u_rx_cp u) (u_mem u) = r0" using assms(1) by (simp_all add: out_sink_def)
  define m1 where "m1 = (u_mem u)(stack := c)"
  let ?u1 = "u\<lparr>u_mem := m1\<rparr>"
  have ok1: "uart_ok ?u1" using u(1) by (simp add: uart_ok_def)
  have ring: "\<not> in_ring (u_tx_cp u) stack" "\<not> in_ring (u_rx_cp u) stack" using u(2) uart_rings [OF u(1)] areas(2,3) by blast+
  then have c1: "content (u_tx_cp u) m1 = c0 @ xs" "content (u_rx_cp u) m1 = r0"
    using u(1,3,5) content_store_outside [of "u_tx_cp u" stack] content_store_outside [of "u_rx_cp u" stack] by (simp_all add: m1_def uart_ok_def)
  have "region stack (unat (1 :: uint)) \<inter> driver_area = {}" using u(2) by (simp add: region_Suc region_0)
  then obtain cp m where w: "fwrite (uart_fm stack) stack 1 1 ?u1 = Some (1, ?u1\<lparr>u_tx_cp := cp, u_mem := m\<rparr>)" "uart_ok (?u1\<lparr>u_tx_cp := cp, u_mem := m\<rparr>)"
    "content cp m = content (u_tx_cp u) m1 @ bytes_at m1 stack 1" "room cp = room (u_tx_cp u) - 1"
    "\<forall>a. a \<notin> region 0x2000 0x1000 \<longrightarrow> m a = m1 a"
    using fwrite_at_once [OF ok1, of stack 1 stack] u(4) assms(2) by auto
  have "fputc (uart_fm stack) c u = Some (uint c, ?u1\<lparr>u_tx_cp := cp, u_mem := m\<rparr>)"
    using w(1) by (simp add: fputc_def uart_fm_def m1_def Let_def)
  moreover have "content (u_rx_cp u) m = r0" using rx_after_tx [OF ok1, of m] w(5) c1(2) by simp
  then have "out_sink stack c0 r0 n (xs @ [c]) (?u1\<lparr>u_tx_cp := cp, u_mem := m\<rparr>)"
    using w(2-4) c1 u(2,4) assms(2) by (simp add: out_sink_def m1_def)
  ultimately show ?thesis using w(5) by (auto simp: m1_def)
qed

interpretation console: byte_sink "uart_fm stack" "out_sink stack c0 r0 n" "insert stack (region 0x2000 0x1000)" n for stack c0 r0 n
proof
  show "\<exists>r u'. fputc (uart_fm stack) c u = Some (r, u') \<and> out_sink stack c0 r0 n (xs @ [c]) u'
      \<and> (\<forall>a. a \<notin> insert stack (region 0x2000 0x1000) \<longrightarrow> f_mem (uart_fm stack) u' a = f_mem (uart_fm stack) u a)"
    if "out_sink stack c0 r0 n xs u" "length xs < n" for xs u c
    using uart_fm_put [OF that, of c] by (auto simp: uart_fm_def)
qed

lemma render_line: "S a = Some xs \<Longrightarrow> render S [ch (CHR ''%''), ch (CHR ''s''), 10] [a] = Some (xs @ [10])"
  by (simp add: render.simps spec_directive_def Let_def is_dec_def dec_val_def spec_conversion_def va_arg_def field_def prefix_text_def)

lemma read_string_ok:
  assumes "uart_ok u" and "content (u_rx_cp u) (u_mem u) = xs @ ys" and "10 \<notin> set xs" and "0 \<notin> set xs" and "length xs \<le> 127"
    and "length xs < 127 \<Longrightarrow> ys = 10 # rest" and "length xs = 127 \<Longrightarrow> ys = rest" and "region buf 128 \<inter> driver_area = {}"
  shows "\<exists>cp m. read_string buf LINE_MAX u = Some (of_nat (length xs), u\<lparr>u_rx_cp := cp, u_mem := m\<rparr>) \<and> uart_ok (u\<lparr>u_rx_cp := cp, u_mem := m\<rparr>)
    \<and> content cp m = rest \<and> cstr m buf xs \<and> (\<forall>a. a \<notin> region buf 128 \<longrightarrow> m a = u_mem u a)"
proof -
  have r: "region buf (Suc 127) \<inter> driver_area = {}" using assms(8) by simp
  obtain cp m where l: "read_loop buf 0 127 u = Some (of_nat (length xs), u\<lparr>u_rx_cp := cp, u_mem := m\<rparr>)" "uart_ok (u\<lparr>u_rx_cp := cp, u_mem := m\<rparr>)"
    "content cp m = rest" "bytes_at m buf (length xs) = xs" "\<forall>a. a \<notin> region buf (Suc (length xs)) \<longrightarrow> m a = u_mem u a"
    using read_loop_ok [OF assms(1-3) _ _ _ _ r, of 0 rest] assms(5-7) by auto
  let ?e = "buf + of_nat (length xs)"
  define m1 where "m1 = m(?e := 0)"
  have e: "?e \<in> region buf 128" "?e \<notin> region buf (length xs)" using assms(5) offset_notin_region [of "length xs" buf] by (simp_all add: in_regionI)
  have "read_string buf LINE_MAX u = Some (of_nat (length xs), u\<lparr>u_rx_cp := cp, u_mem := m1\<rparr>)"
    using l(1) by (simp add: read_string_def LINE_MAX_def m1_def)
  moreover have "content cp m1 = rest" unfolding m1_def
    using l(2,3) e(1) assms(8) uart_rings(2) [OF l(2)] areas(2) content_store_outside [of cp ?e m 0] by (auto simp: uart_ok_def)
  moreover have "bytes_at m1 buf (length xs) = xs" unfolding m1_def using l(4) e(2) bytes_at_upd_other by simp
  then have "cstr m1 buf xs" unfolding cstr_iff using assms(4) by (simp add: m1_def)
  moreover have "\<forall>a. a \<notin> region buf 128 \<longrightarrow> m1 a = u_mem u a"
    using l(5) e(1) region_mono [of "Suc (length xs)" 128 buf] assms(5) by (auto simp: m1_def)
  moreover have "uart_ok (u\<lparr>u_rx_cp := cp, u_mem := m1\<rparr>)" using l(2) by (simp add: uart_ok_def)
  ultimately show ?thesis by blast
qed

lemma scheme_turn_ok:
  assumes "uart_ok u" and "stack \<notin> driver_area" and "region buf 128 \<inter> insert stack driver_area = {}"
    and "cstr (u_mem u) fmt [37, 115, 10]" and "region fmt 4 \<inter> (insert stack driver_area \<union> region buf 128) = {}"
    and "content (u_rx_cp u) (u_mem u) = xs @ ys" and "10 \<notin> set xs" and "0 \<notin> set xs" and "length xs \<le> 127"
    and "length xs < 127 \<Longrightarrow> ys = 10 # rest" and "length xs = 127 \<Longrightarrow> ys = rest" and "length xs < room (u_tx_cp u)"
  shows "\<exists>u'. scheme_turn stack p fmt buf u = Some u' \<and> uart_ok u' \<and> content (u_rx_cp u') (u_mem u') = rest
    \<and> content (u_tx_cp u') (u_mem u') = content (u_tx_cp u) (u_mem u) @ xs @ [10]"
proof -
  have b: "region buf 128 \<inter> driver_area = {}" using assms(3) by blast
  obtain cp m where s: "read_string buf LINE_MAX u = Some (of_nat (length xs), u\<lparr>u_rx_cp := cp, u_mem := m\<rparr>)" "uart_ok (u\<lparr>u_rx_cp := cp, u_mem := m\<rparr>)"
    "content cp m = rest" "cstr m buf xs" "\<forall>a. a \<notin> region buf 128 \<longrightarrow> m a = u_mem u a"
    using read_string_ok [OF assms(1,6-11) b] by blast
  let ?u = "u\<lparr>u_rx_cp := cp, u_mem := m\<rparr>" and ?c = "content (u_tx_cp u) (u_mem u)" and ?n = "length (xs @ [10])"
  let ?S = "[buf \<mapsto> xs]" and ?own = "insert stack (region 0x2000 0x1000)"
  have tx: "content (u_tx_cp u) m = ?c" using s(5) b areas(3) by (intro tx_view [OF assms(1)]) blast
  have sk: "out_sink stack ?c rest ?n [] ?u" using s(2,3) tx assms(2,12) by (simp add: out_sink_def)
  have mem: "f_mem (uart_fm stack) v = u_mem v" for v by (simp add: uart_fm_def)
  have own: "?own \<subseteq> insert stack driver_area" using areas(3) by blast
  have four: "Suc (length [37, 115, 10 :: byte]) = 4" by simp
  have "cstr m fmt [37, 115, 10]"
  proof -
    have "m a = u_mem u a" if "a \<in> region fmt (Suc (length [37, 115, 10 :: byte]))" for a using that s(5) assms(5) unfolding four by blast
    then show ?thesis using assms(4) cstr_cong by metis
  qed
  then have suf: "suffix_at (u_mem ?u) fmt [37, 115, 10] fmt [37, 115, 10]" by (simp add: suffix_at_refl)
  have fmt: "region fmt (Suc (length [37, 115, 10 :: byte])) \<inter> ?own = {}" unfolding four using assms(5) own by blast
  have "region buf (Suc (length xs)) \<subseteq> region buf 128" using assms(9) by (intro region_mono) simp
  then have str: "strings_at ?own (u_mem ?u) ?S" using s(4) assms(3) own by (auto simp: strings_at_def)
  have t: "render ?S [37, 115, 10] [buf] = Some (xs @ [10])" using render_line [of ?S buf xs] by simp
  have em: "console.emits stack ?c rest ?n (format_loop (uart_fm stack) fmt [buf] (p\<lparr>p_bf := Local []\<rparr>) 0) ?u (xs @ [10])"
    by (rule console.format_ok [OF t]) (unfold mem, rule suf, rule fmt, rule str)
  have room: "length [] + length (xs @ [10]) \<le> ?n" by simp
  obtain k u' where "format_loop (uart_fm stack) fmt [buf] (p\<lparr>p_bf := Local []\<rparr>) 0 ?u = Some (k, u')" "out_sink stack ?c rest ?n ([] @ xs @ [10]) u'"
    by (rule console.emitsE [OF em sk room])
  then show ?thesis using s(1) by (simp add: scheme_turn_def fprintf_def vfprintf_def tfp_format_def out_sink_def)
qed

text \<open>The kernel never calls \<open>uart0_start_engine\<close>.  With the pointers of the receive ring still zero a read does not wait for a byte: it
  returns at once, with the byte at address 1.\<close>

lemma read_before_start:
  assumes "u_rx_cp u = \<lparr>buffer_start = 0, buffer_end = 0, prod = 0, cons = 0\<rparr>"
  shows "uart0_stream_read (u_rx_cp u, u_mem u) a 1 [] = Some (1, ((u_rx_cp u)\<lparr>cons := 1\<rparr>, (u_mem u)(a := u_mem u 1)), [])"
proof -
  let ?cp = "\<lparr>buffer_start = 0, buffer_end = 0, prod = 0, cons = 0\<rparr> :: consprod"
  have "consume_loop ?cp (u_mem u) a 1 0 1 = (?cp\<lparr>cons := 1\<rparr>, (u_mem u)(a := u_mem u 1), a + 1, 0)"
    by (simp add: consume_loop.simps [of ?cp] consume_loop.simps [where x = 0])
  then have "consprod_consume ?cp (u_mem u) a 1 1 [] = Some (1, (?cp\<lparr>cons := 1\<rparr>, (u_mem u)(a := u_mem u 1)), [])"
    by (subst consprod_consume.simps) (simp add: cp_ptr_next_def Let_def)
  then show ?thesis using assms by (simp add: uart0_stream_read_def)
qed

section \<open>Properties\<close>

text \<open>C36 The scratch kernel echoes: in any state that a session reaches, with everything that was typed in the receive ring, unread,
  and none of it lost, the turns of the kernel send it back.  What is on the line and in the transmit ring afterwards is what
  had been written before, followed by what was typed.  The text may be any sequence of lines, and of pieces of 127 characters of
  longer lines, without null characters, for which there is room in the transmit ring.\<close>

theorem scratch_echoes:
  assumes "region (u_frame u) 255 \<inter> driver_area = {}" and "u_get_rx u AND 0xff = 0" and "uart_step\<^sup>*\<^sup>* (ses_start u) s"
    and "\<not> ses_lost s" and "ses_got s = []" and "pending (ses_uart s) = []" and "ses_typed s = concat xss" and "\<forall>xs \<in> set xss. chunk 127 xs"
    and "length (ses_typed s) \<le> room (u_tx_cp (ses_uart s))" and "stack \<notin> driver_area" and "region buf 128 \<inter> insert stack driver_area = {}"
  shows "\<exists>u'. scratch_loop stack buf (length xss) (ses_uart s) = Some u' \<and> content (u_rx_cp u') (u_mem u') = []
    \<and> u_sent u' @ content (u_tx_cp u') (u_mem u') = ses_written s @ ses_typed s"
proof -
  have ok: "ses_ok s" using reachable_ok [OF assms(3)] ses_start_ok [OF assms(1,2)] .
  then have "content (u_rx_cp (ses_uart s)) (u_mem (ses_uart s)) = concat xss @ []" using assms(4-7) by (simp add: ses_ok_def received_def)
  from scratch_loop_ok [OF _ assms(10,11) this assms(8)] show ?thesis
    using ok assms(7,9) by (fastforce simp: ses_ok_def tx_stream_def)
qed

lemma echo_sample:
  "\<exists>s. uart_step\<^sup>*\<^sup>* (ses_start uart_reset) s \<and> \<not> ses_lost s \<and> ses_got s = [] \<and> pending (ses_uart s) = [] \<and> ses_typed s = [104, 105, 10]
     \<and> room (u_tx_cp (ses_uart s)) = 4094"
proof -
  let ?start = "ses_start uart_reset"
  let ?s = "arrive 10 (arrive 105 (arrive 104 ?start))"
  have st: "uart_step ?start (arrive 104 ?start)" "uart_step (arrive 104 ?start) (arrive 105 (arrive 104 ?start))" "uart_step (arrive 105 (arrive 104 ?start)) ?s"
    by (rule arrive_step, simp add: reset_session)+
  have r: "uart_step\<^sup>*\<^sup>* ?start ?s" by (rule rtranclp.rtrancl_into_rtrancl [OF rtranclp.rtrancl_into_rtrancl [OF r_into_rtranclp]]) (rule st)+
  have start: "ses_ok ?start" using reset_frame reset_session(7) by (rule ses_start_ok)
  have ok: "ses_ok ?s" using r start by (rule reachable_ok)
  obtain u' where u': "handle_interrupt 1 (ses_uart ?s) = Some u'" using handlers_return ok unfolding ses_ok_def by blast
  have room: "room (u_rx_cp (ses_uart ?s)) = 4094" "length (pending (ses_uart ?s)) = 3" by (simp_all add: reset_session)
  let ?t = "?s\<lparr>ses_uart := u', ses_lost := (ses_lost ?s \<or> room (u_rx_cp (ses_uart ?s)) < length (pending (ses_uart ?s)))\<rparr>"
  have "uart_step ?s ?t" using u' by (intro uart_step.tick) simp_all
  with r have steps: "uart_step\<^sup>*\<^sup>* ?start ?t" by (rule rtranclp.rtrancl_into_rtrancl)
  then have okt: "ses_ok ?t" using start by (rule reachable_ok)
  have "pending u' = []" using tick_part [OF u'] ok unfolding ses_ok_def by blast
  moreover have "room (u_tx_cp u') = 4094"
  proof -
    have t: "tx_stream u' = []" "uart_ok u'" using okt by (simp_all add: ses_ok_def reset_session)
    then have "ring_size (u_tx_cp u') = 4096" by (simp add: uart_ok_def ring_size_def)
    then show ?thesis using content_room [of "u_tx_cp u'" "u_mem u'"] t by (simp add: tx_stream_def uart_ok_def)
  qed
  ultimately show ?thesis using steps room by (intro exI [of _ ?t]) (simp add: reset_session)
qed

theorem scratch_echoes_witness:
  "\<exists>s u'. uart_step\<^sup>*\<^sup>* (ses_start uart_reset) s \<and> ses_typed s = [104, 105, 10]
     \<and> scratch_loop 0x1F00000 0x1F00100 1 (ses_uart s) = Some u' \<and> u_sent u' @ content (u_tx_cp u') (u_mem u') = ses_written s @ [104, 105, 10]"
proof -
  obtain s where s: "uart_step\<^sup>*\<^sup>* (ses_start uart_reset) s" "\<not> ses_lost s" "ses_got s = []" "pending (ses_uart s) = []" "ses_typed s = [104, 105, 10]"
    "room (u_tx_cp (ses_uart s)) = 4094" using echo_sample by blast
  have d: "region 0x1F00100 128 \<inter> region 0x100 0x200 = {}" "region 0x1F00100 128 \<inter> region 0x1000 0x2000 = {}"
    by (rule region_disjoint; simp)+
  have stack: "0x1F00000 \<notin> driver_area" "0x1F00000 \<notin> region 0x1F00100 128" by (simp_all add: driver_area_def region_eq_uint)
  then have a: "region 0x1F00100 128 \<inter> insert 0x1F00000 driver_area = {}" using d by (auto simp: driver_area_def)
  have c: "\<forall>xs \<in> set [[104, 105, 10]]. chunk 127 xs" by (simp add: chunk_def)
  from scratch_echoes [OF reset_frame reset_session(7) s(1-4) _ c _ stack(1) a] show ?thesis using s by auto
qed

end
