(* ===== verification/Spec2Isabelle.thy ===== *)
theory Spec2Isabelle
  imports Prelude Mem_Ops Bt_Terminal Genboot Str_Num Rand48 Sort_Search Uart Malloc Scanf Core_Main Dhrystone Median Regex CC2541 Echo
begin

text \<open>
  A verification of the platform software of the Sumeru RISC-V core: the boot ROM and the programs that upload kernels to it, the
  drivers, the C library, the benchmark kernels and the programmer of the Bluetooth chip.  File names are relative to \<open>src/\<close>.

  \<^bold>\<open>The program and its parts.\<close>  The boot ROM (\<open>cpu/BOOTCODE\<close>) takes commands over a UART, writes a kernel into memory and jumps to
  it; the host programs in \<open>tools\<close> speak its protocol.  A kernel (\<open>sw/kernels\<close>) is linked with the C library
  (\<open>sw/sys-libs/libc\<close>) and the interrupt-driven drivers (\<open>sw/sys-libs/drivers\<close>).  Its streams write into a ring buffer that the
  transmit interrupt empties to the line, and read from one that the receive interrupt fills.

  \<^bold>\<open>The machine.\<close>  The kernels run on a 32-bit little-endian core without memory protection.  Memory is a total function from
  32-bit addresses to bytes (\<open>mem\<close>), \<open>int\<close> and \<open>size_t\<close> are 32-bit words or integers wrapped by \<open>i32\<close>, pointer arithmetic is word
  arithmetic.  Programs whose variables are not reached through pointers (Dhrystone, the median filter, the host tools) keep them
  in records and lists, where an access outside an array is \<open>None\<close>.

  \<^bold>\<open>Theories, in the order of their imports.\<close>
  \<^item> \<open>Prelude\<close>: words, byte ranges (\<open>bytes_at\<close>, \<open>store_bytes\<close>, \<open>region\<close>), C strings in memory; \<open>Arrays\<close>: arrays as lists.
  \<^item> \<open>Mem_Ops\<close> (\<open>mem*.c\<close>, \<open>bzero.c\<close>): every memory function.  \<open>memmem\<close> is a search for the first occurrence, \<open>memmove\<close> copies
    overlapping areas.
  \<^item> \<open>Cache\<close> (\<open>memctl.h\<close>): flushing reaches every line of a range.  \<open>Boot_Protocol\<close>: the packets and the locale \<open>boot_target\<close>, what an
    upload relies on of a device.  \<open>Boot\<close> (\<open>cpu/BOOTCODE/boot.c\<close>, \<open>uart0.c\<close>): the command loop as a function on its state (frame,
    memory, pointer, bytes received and sent); it interprets the locale.  \<open>Boot_Client\<close> (\<open>tools/bootloader_uart_client.c\<close>) and
    \<open>Bt_Client\<close> (\<open>bluetooth_bootloader_client.c\<close>) prove their uploads inside the locale, the second one also an invariant of its
    callbacks under any order of events.  \<open>Host_Args\<close>: their command lines; \<open>Bt_Terminal\<close> (\<open>bluetooth_le_terminal.c\<close>): what is
    typed is sent in order, one packet after the other.  \<open>Genboot\<close> (\<open>tools/genbootcode.c\<close>): the ROM image reads back as the boot code.
  \<^item> \<open>CType\<close>, \<open>Str_Ops\<close>, \<open>Str_Num\<close> (\<open>ctype.h\<close>, \<open>str*.c\<close>, \<open>ato*.c\<close>, \<open>strntoumax.c\<close>): tokenising, bounded concatenation, comparison, and
    the value of a numeral of any base.
  \<^item> \<open>Rand48\<close> (\<open>*rand48.c\<close>): the outputs are those of the 48-bit linear congruential generator.
  \<^item> \<open>Sort_Search\<close> (\<open>qsort.c\<close>, \<open>bsearch.c\<close>): for any total preorder, \<open>qsort\<close> sorts in place and \<open>bsearch\<close> finds.
  \<^item> \<open>ConsProd\<close> (\<open>consprod.c\<close>): the ring, sequentially and as a step relation of the loads and stores of producer and consumer,
    with the bytes read always a prefix of the bytes written.  \<open>Uart\<close> (\<open>uart0.c\<close>, \<open>interrupts.c\<close>): nothing is lost between ring
    and line.  Interrupts during a wait are a list of transformations of the ring.  \<open>Uart_Session\<close>: a step relation of
    arriving bytes, interrupts and calls of the program, and its invariant.
  \<^item> \<open>Alloc_Contract\<close> (a locale: what clients rely on of an allocator) and \<open>Malloc\<close> (\<open>malloc.c\<close>, \<open>realloc.c\<close>, \<open>calloc.c\<close>,
    \<open>strdup.c\<close>, \<open>strndup.c\<close>): the header chains in memory refine first fit on a list of blocks and interpret the contract.
  \<^item> \<open>Stdio\<close> (streams, \<open>fgets.c\<close>, \<open>memfile.c\<close>), \<open>Printf\<close> (\<open>tinyprintf.c\<close> and its callers): the text of a reference formatter,
    truncated where the buffer ends and delivered to the line in order.  \<open>Scanf\<close> (\<open>vsscanf.c\<close>, \<open>sscanf.c\<close>): the whole state
    machine; reading inverts printing.
  \<^item> CoreMark (\<open>sw/kernels/coremark\<close>): \<open>Core_Util\<close> (the CRC is the remainder of a polynomial division), \<open>Core_State\<close> (the scanner
    accepts exactly the numerals of its grammar; the block is restored), \<open>Core_Matrix\<close> (the product of matrices in byte memory),
    \<open>Core_List\<close>, \<open>Core_Sort\<close>, \<open>Core_Bench\<close> (the list operations, the stable merge sort whose comparison runs the other benchmarks,
    and that an iteration brings all data back), \<open>Core_Init\<close> and \<open>Core_Main\<close> (initialisation, calibration, report; \<open>main\<close> returns).
  \<^item> \<open>Dhrystone\<close>, \<open>Median\<close>, \<open>Regex\<close> (\<open>sw/kernels/dhrystone\<close>, \<open>bmark_median\<close>, \<open>scheme/regex.c\<close>): the variables end with the values
    the program prints as expected, the filter gives the reference data, the matcher decides the language of the expression.
  \<^item> \<open>Echo\<close> (\<open>scratch.c\<close>, \<open>scheme.c\<close>): the kernels that echo lines, over streams, formatter and driver.
  \<^item> The programmer (\<open>tools/RPI/CC2541-programmer\<close>): \<open>Dup_Wire\<close> and \<open>Dup_Flash\<close> (\<open>debug.h\<close>) drive the two wires of the chip's debug
    interface; a command on the wires is a command of a machine on bytes, and what the memory accesses rely on is the locale
    \<open>debug_chip\<close>, interpreted on the debug unit in front of any device.  \<open>CC2541\<close> (\<open>main.c\<close>): the commands and the option line; with
    a specification of the chip's DMA channels and flash controller, flashing and dumping gives the file back.

  \<^bold>\<open>Loops.\<close>  A loop with a measure is a \<open>function\<close> with its termination proof.  A loop that may run for ever, such as one over a string
  that may have no null byte or one that waits for an interrupt, is a partial function to \<open>option\<close>, where \<open>None\<close> is not returning;
  the theorems then state that the value is \<open>Some\<close>.  There is no fuel.

  \<^bold>\<open>Parameters.\<close>  The host's operating system, GLib, BlueZ, the bcm2835 library, the cycle counter, the comparison function of \<open>qsort\<close>, the values of
  uninitialised variables and the moments at which interrupts arrive are arguments of the definitions.

  \<^bold>\<open>Properties.\<close>  The theorems named by a claim id are the results; their text states them.  Where the code does something else than its
  comments or the C standard say, the theorem states what it does: the write command of the boot ROM stores past its buffer
  (\<open>Boot\<close>), \<open>malloc\<close> grants a request that wraps (\<open>Malloc\<close>), \<open>vasprintf\<close> writes to address 0 (\<open>Printf\<close>), a short CoreMark run with unknown
  seeds is reported as validated (\<open>Core_Main\<close>), a short firmware file is followed by stale bytes in the chip (\<open>CC2541\<close>).

  \<^bold>\<open>Not modelled.\<close>  The hardware in VHDL and the assembly entry code; vendored code (BlueZ, \<open>riscv-tests\<close>, the copy of BlueZ's
  \<open>gatt.c\<close>); the wrappers of the bcm2835 library and \<open>gpiolib.c\<close>, which is not compiled; the start-up stubs of the C library, which do nothing;
  the kernels \<open>blinky\<close> and \<open>bugfind\<close>, endless loops over registers; CoreMark code under configuration
  macros that the makefile does not select.
\<close>

end
